(* ===== verification/Prelude.thy ===== *)
theory Prelude
  imports Main "HOL-Library.Word" "HOL-Library.Multiset"
begin

text \<open>
  Shared vocabulary of the development: the C integer types as fixed-width words, pointers as
  64-bit addresses with 0 for NULL, the errno values the modelled functions return, and the
  generic lemmas on words and lists that the component theories rest on.
\<close>

unbundle bit_operations_syntax

section \<open>C types\<close>

type_synonym u8 = "8 word"
type_synonym u16 = "16 word"
type_synonym u32 = "32 word"
type_synonym u64 = "64 word"

type_synonym addr = u64

abbreviation NULL :: addr where
  "NULL \<equiv> 0"

datatype errno = EINVAL | ENOMEM | ENOBUFS | ENOENT | ENAMETOOLONG | ENOSPC | EEXIST
  | ERANGE | EOVERFLOW | ENOTSUP | ENXIO | EIO | EOTHER

text \<open>The numbers of these codes on Linux; the last code stands for any other.\<close>

fun errno_code :: "errno \<Rightarrow> int" where
  "errno_code EINVAL = 22"
| "errno_code ENOMEM = 12"
| "errno_code ENOBUFS = 105"
| "errno_code ENOENT = 2"
| "errno_code ENAMETOOLONG = 36"
| "errno_code ENOSPC = 28"
| "errno_code EEXIST = 17"
| "errno_code EOVERFLOW = 75"
| "errno_code ENOTSUP = 95"
| "errno_code ENXIO = 6"
| "errno_code EIO = 5"
| "errno_code ERANGE = 34"
| "errno_code EOTHER = 1"

lemma errno_code_pos [simp]: "0 < errno_code e"
  by (cases e) simp_all

named_theorems word_unat_simps \<open>rewriting word arithmetic to natural numbers\<close>

section \<open>Words\<close>

lemma unat_plus_simple:
  fixes a b :: "'a::len word"
  assumes "unat a + unat b < 2 ^ LENGTH('a)"
  shows "unat (a + b) = unat a + unat b"
  using assms by (simp add: unat_word_ariths)

lemma unat_sub_simple:
  fixes a b :: "'a::len word"
  assumes "b \<le> a"
  shows "unat (a - b) = unat a - unat b"
  using assms by (rule unat_sub)

lemma unat_of_nat_small:
  assumes "n < 2 ^ LENGTH('a)"
  shows "unat (of_nat n :: 'a::len word) = n"
  using assms by (simp add: unat_of_nat take_bit_nat_eq_self)

lemma unat_2p:
  assumes "n < LENGTH('a)"
  shows "unat (2 ^ n :: 'a::len word) = 2 ^ n"
  using unat_of_nat_small [of "2 ^ n", where ?'a = 'a] assms by simp

lemma unat_2p_minus_1:
  assumes "n < LENGTH('a)"
  shows "unat (2 ^ n - 1 :: 'a::len word) = 2 ^ n - 1"
proof -
  have "(1 :: 'a word) \<le> 2 ^ n" using assms by (simp add: word_le_nat_alt unat_2p)
  then show ?thesis using assms by (simp add: unat_sub_simple unat_2p)
qed

lemma unat_add_1_less:
  fixes a b :: "'a::len word"
  assumes "a < b"
  shows "unat (a + 1) = Suc (unat a)"
proof -
  have "unat a < unat b" using assms by (simp add: word_less_nat_alt)
  moreover have "unat b < 2 ^ LENGTH('a)" by (rule unsigned_less)
  ultimately have "unat a + 1 < 2 ^ LENGTH('a)" by linarith
  then show ?thesis by (simp add: unat_word_ariths)
qed

lemma unat_lt_2p: "unat (w :: 'a::len word) < 2 ^ LENGTH('a)"
  by (rule unsigned_less)

lemma unat_and_mask: "unat (x AND mask k :: 'a::len word) = unat x mod 2 ^ k"
  by (simp add: take_bit_eq_mask [symmetric] unsigned_take_bit_eq) (simp add: take_bit_eq_mod)

lemma word_of_unat: "unat w = n \<Longrightarrow> w = of_nat n"
  by auto

lemma of_nat_0_exact:
  assumes "unat (of_nat k :: 'a::len word) = k"
  shows "(of_nat k :: 'a word) = 0 \<longleftrightarrow> k = 0"
proof
  assume "(of_nat k :: 'a word) = 0"
  then have "unat (of_nat k :: 'a word) = 0" by (simp only: unat_0)
  with assms show "k = 0" by simp
qed simp

lemma word_take_bit_self:
  fixes x :: "'a::len word"
  assumes "unat x < 2 ^ n"
  shows "take_bit n x = x"
  using assms by (simp add: word_unat_eq_iff unsigned_take_bit_eq take_bit_nat_eq_self)

lemma word_eq_and_mask:
  fixes x :: "'a::len word"
  assumes "unat x < 2 ^ n"
  shows "x = x AND mask n"
  using word_take_bit_self [OF assms] by (simp add: take_bit_eq_mask)

lemma unat_ucast_up [simp]:
  "LENGTH('a) \<le> LENGTH('b) \<Longrightarrow> unat (ucast (w :: 'a::len word) :: 'b::len word) = unat w"
  using order_less_le_trans [OF unat_lt_2p [of w] power_increasing [of "LENGTH('a)" "LENGTH('b)" "2 :: nat"]]
  by (simp add: unsigned_ucast_eq take_bit_nat_eq_self)

end
