(* ===== verification/Common.thy ===== *)
theory Common
  imports Prelude
begin

text \<open>
  Model of \<^verbatim>\<open>lib/librte_eal/common/include/rte_common.h\<close>: alignment macros and the
  bit-twiddling helpers on powers of two that the ring, the memory pool and the mbuf library use.
\<close>

section \<open>Alignment macros\<close>

text \<open>The macros are generic in the type of the value; so are the definitions.\<close>

definition RTE_ALIGN_FLOOR :: "'a::len word \<Rightarrow> 'a word \<Rightarrow> 'a word" where
  "RTE_ALIGN_FLOOR val align = val AND NOT (align - 1)"

definition RTE_ALIGN_CEIL :: "'a::len word \<Rightarrow> 'a word \<Rightarrow> 'a word" where
  "RTE_ALIGN_CEIL val align = RTE_ALIGN_FLOOR (val + (align - 1)) align"

definition RTE_PTR_ALIGN :: "addr \<Rightarrow> u64 \<Rightarrow> addr" where
  "RTE_PTR_ALIGN ptr align = RTE_ALIGN_FLOOR (ptr + (align - 1)) align"

definition RTE_ALIGN_MUL_CEIL :: "'a::len word \<Rightarrow> 'a word \<Rightarrow> 'a word" where
  "RTE_ALIGN_MUL_CEIL v mul = ((v + mul - 1) div mul) * mul"

definition RTE_ALIGN_MUL_FLOOR :: "'a::len word \<Rightarrow> 'a word \<Rightarrow> 'a word" where
  "RTE_ALIGN_MUL_FLOOR v mul = (v div mul) * mul"

definition rte_is_aligned :: "addr \<Rightarrow> u32 \<Rightarrow> bool" where
  "rte_is_aligned ptr align = (RTE_PTR_ALIGN ptr (ucast align) = ptr)"

section \<open>Powers of two\<close>

definition rte_combine32ms1b :: "u32 \<Rightarrow> u32" where
  "rte_combine32ms1b x =
     (let x = x OR drop_bit 1 x; x = x OR drop_bit 2 x; x = x OR drop_bit 4 x;
          x = x OR drop_bit 8 x; x = x OR drop_bit 16 x in x)"

definition rte_combine64ms1b :: "u64 \<Rightarrow> u64" where
  "rte_combine64ms1b v =
     (let v = v OR drop_bit 1 v; v = v OR drop_bit 2 v; v = v OR drop_bit 4 v;
          v = v OR drop_bit 8 v; v = v OR drop_bit 16 v; v = v OR drop_bit 32 v in v)"

definition rte_is_power_of_2 :: "u32 \<Rightarrow> bool" where
  "rte_is_power_of_2 n \<longleftrightarrow> n \<noteq> 0 \<and> n AND (n - 1) = 0"

definition rte_align32pow2 :: "u32 \<Rightarrow> u32" where
  "rte_align32pow2 x = (let x = x - 1; x = rte_combine32ms1b x in x + 1)"

definition rte_align32prevpow2 :: "u32 \<Rightarrow> u32" where
  "rte_align32prevpow2 x = (let x = rte_combine32ms1b x in x - drop_bit 1 x)"

definition rte_align64pow2 :: "u64 \<Rightarrow> u64" where
  "rte_align64pow2 v = (let v = v - 1; v = rte_combine64ms1b v in v + 1)"

definition rte_align64prevpow2 :: "u64 \<Rightarrow> u64" where
  "rte_align64prevpow2 v = (let v = rte_combine64ms1b v in v - drop_bit 1 v)"

text \<open>
  \<^verbatim>\<open>__builtin_ctz\<close> and \<^verbatim>\<open>__builtin_clz\<close>: the positions of the lowest and highest set bit;
  they are undefined at 0, which is \<^term>\<open>None\<close>.
\<close>

definition builtin_ctz :: "'a::len word \<Rightarrow> nat option" where
  "builtin_ctz v = List.find (bit v) [0..<LENGTH('a)]"

definition builtin_clz :: "'a::len word \<Rightarrow> nat option" where
  "builtin_clz v = map_option (\<lambda>i. LENGTH('a) - 1 - i) (List.find (bit v) (rev [0..<LENGTH('a)]))"

definition rte_bsf32 :: "u32 \<Rightarrow> u32 option" where
  "rte_bsf32 v = map_option of_nat (builtin_ctz v)"

definition rte_log2_u32 :: "u32 \<Rightarrow> u32 option" where
  "rte_log2_u32 v = (if v = 0 then Some 0 else rte_bsf32 (rte_align32pow2 v))"

definition rte_fls_u32 :: "u32 \<Rightarrow> int option" where
  "rte_fls_u32 x = (if x = 0 then Some 0 else map_option (\<lambda>n. 32 - int n) (builtin_clz x))"

definition rte_bsf64_safe :: "u64 \<Rightarrow> u32 option" where
  "rte_bsf64_safe v = (if v = 0 then None else map_option of_nat (builtin_ctz v))"

section \<open>Alignment\<close>

lemma align_floor_bits:
  assumes "n < LENGTH('a::len)"
  shows "RTE_ALIGN_FLOOR (v :: 'a word) (2 ^ n) = push_bit n (drop_bit n v)"
proof -
  have "v AND NOT (2 ^ n - 1) = v AND NOT (mask n)" by (simp add: mask_eq_exp_minus_1)
  also have "\<dots> = push_bit n (drop_bit n v)" by (rule bit_word_eqI) (auto simp: bit_simps)
  finally show ?thesis by (simp add: RTE_ALIGN_FLOOR_def)
qed

lemma unat_align_floor:
  assumes "n < LENGTH('a::len)"
  shows "unat (RTE_ALIGN_FLOOR (v :: 'a word) (2 ^ n)) = 2 ^ n * (unat v div 2 ^ n)"
proof -
  have "v = RTE_ALIGN_FLOOR v (2 ^ n) + take_bit n v"
    unfolding align_floor_bits [OF assms] by (simp add: bits_ident)
  moreover have "RTE_ALIGN_FLOOR v (2 ^ n) \<le> v"
    by (simp add: RTE_ALIGN_FLOOR_def word_and_le2)
  moreover have "take_bit n v \<le> v" by (simp add: take_bit_eq_mask word_and_le2)
  ultimately have "unat (RTE_ALIGN_FLOOR v (2 ^ n)) = unat v - unat (take_bit n v)"
    by (metis add_diff_cancel_right' unat_sub)
  also have "unat (take_bit n v) = unat v mod 2 ^ n"
    by (simp add: unsigned_take_bit_eq) (simp add: take_bit_eq_mod)
  finally show ?thesis by (simp add: minus_mod_eq_mult_div)
qed

text \<open>Rounding up without overflow gives the least multiple above.\<close>

lemma unat_align_ceil:
  assumes "n < LENGTH('a::len)" "unat (v :: 'a word) + (2 ^ n - 1) < 2 ^ LENGTH('a)"
  shows "unat (RTE_ALIGN_CEIL v (2 ^ n)) = 2 ^ n * ((unat v + (2 ^ n - 1)) div 2 ^ n)"
proof -
  have "unat (2 ^ n - 1 :: 'a word) = 2 ^ n - 1"
    using assms(1) by (rule unat_2p_minus_1)
  then have "unat (v + (2 ^ n - 1)) = unat v + (2 ^ n - 1)"
    using assms(2) by (subst unat_plus_simple) simp_all
  then show ?thesis by (simp add: RTE_ALIGN_CEIL_def unat_align_floor assms(1))
qed

section \<open>The highest set bit\<close>

text \<open>\<open>smear s x i\<close>: some bit of \<open>x\<close> among the \<open>s\<close> bits from \<open>i\<close> on is set.\<close>

definition smear :: "nat \<Rightarrow> 'a::len word \<Rightarrow> nat \<Rightarrow> bool" where
  "smear s x i \<longleftrightarrow> (\<exists>j. i \<le> j \<and> j < i + s \<and> bit x j)"

lemma smear_1: "smear 1 x i = bit x i"
  by (auto simp: smear_def le_less_Suc_eq)

lemma smear_double:
  assumes "\<And>i. bit y i = smear s x i"
  shows "bit (y OR drop_bit s y) i = smear (s + s) x i"
proof -
  have "bit (y OR drop_bit s y) i \<longleftrightarrow> smear s x i \<or> smear s x (s + i)"
    by (simp add: bit_or_iff bit_drop_bit_eq assms)
  also have "\<dots> \<longleftrightarrow> smear (s + s) x i" unfolding smear_def
    by (smt (verit) add.commute add.left_commute le_add2 le_trans linorder_not_less nat_add_left_cancel_le trans_less_add1)
  finally show ?thesis .
qed

lemma bit_combine32: "bit (rte_combine32ms1b x) i \<longleftrightarrow> (\<exists>j\<ge>i. bit x j)"
proof -
  let ?x1 = "x OR drop_bit 1 x"
  let ?x2 = "?x1 OR drop_bit 2 ?x1"
  let ?x3 = "?x2 OR drop_bit 4 ?x2"
  let ?x4 = "?x3 OR drop_bit 8 ?x3"
  let ?x5 = "?x4 OR drop_bit 16 ?x4"
  have 1: "bit ?x1 i = smear 2 x i" for i using smear_double [of x 1 x i, OF smear_1 [symmetric]] by (simp add: numeral_2_eq_2)
  have 2: "bit ?x2 i = smear 4 x i" for i using smear_double [of ?x1 2 x i, OF 1] by simp
  have 3: "bit ?x3 i = smear 8 x i" for i using smear_double [of ?x2 4 x i, OF 2] by simp
  have 4: "bit ?x4 i = smear 16 x i" for i using smear_double [of ?x3 8 x i, OF 3] by simp
  have "bit ?x5 i = smear 32 x i" using smear_double [of ?x4 16 x i, OF 4] by simp
  moreover have "smear 32 x i \<longleftrightarrow> (\<exists>j\<ge>i. bit x j)"
  proof
    assume "\<exists>j\<ge>i. bit x j"
    then obtain j where j: "i \<le> j" "bit x j" by blast
    then have "j < 32" using bit_imp_le_length [of x j] by simp
    with j show "smear 32 x i" by (auto simp: smear_def intro!: exI [of _ j])
  qed (auto simp: smear_def)
  ultimately show ?thesis by (simp add: rte_combine32ms1b_def Let_def)
qed

lemma top_bit:
  assumes "x \<noteq> (0 :: 'a::len word)"
  obtains n where "n < LENGTH('a)" "bit x n" "\<And>j. n < j \<Longrightarrow> \<not> bit x j" "2 ^ n \<le> unat x" "unat x < 2 ^ Suc n"
proof -
  define n where "n = Max {n. bit x n}"
  have fin: "finite {n. bit x n}" by simp
  have ne: "{n. bit x n} \<noteq> {}" using assms by (metis bit_eqI bit_0_eq bot_apply empty_Collect_eq bot_bool_def)
  have bn: "bit x n" using Max_in [OF fin ne] by (simp add: n_def)
  have hi: "\<not> bit x j" if "n < j" for j     using Max_ge [OF fin, of j] that by (metis mem_Collect_eq n_def not_less)
  have "take_bit (Suc n) x = x"
    using hi by (intro bit_word_eqI) (metis bit_take_bit_iff less_Suc_eq_le not_less)
  then have "unat x < 2 ^ Suc n"
    by (metis take_bit_eq_mask unat_and_mask mod_less_divisor zero_less_numeral zero_less_power)
  moreover have "2 ^ n \<le> unat x"
  proof (rule ccontr)
    assume "\<not> 2 ^ n \<le> unat x"
    then have "take_bit n x = x" by (intro word_take_bit_self) simp
    with bn show False by (metis bit_take_bit_iff less_irrefl)
  qed
  ultimately show ?thesis using that bn hi bit_imp_le_length [OF bn] by blast
qed

lemma combine32_mask:
  assumes "n < 32" "bit x n" "\<And>j. n < j \<Longrightarrow> \<not> bit x j"
  shows "rte_combine32ms1b x = mask (Suc n)"
proof (rule bit_word_eqI)
  fix i assume "i < LENGTH(32)"
  have "(\<exists>j\<ge>i. bit x j) \<longleftrightarrow> i \<le> n" using assms by (metis linorder_not_less le_trans)
  then show "bit (rte_combine32ms1b x) i = bit (mask (Suc n) :: u32) i"
    using assms(1) by (auto simp: bit_combine32 bit_mask_iff)
qed

text \<open>\<^verbatim>\<open>rte_align32pow2\<close> is the least power of two that is not below its argument.\<close>

lemma align32pow2_least:
  assumes "1 \<le> unat x" "unat x \<le> 2 ^ 31"
  obtains k where "k \<le> 31" "rte_align32pow2 x = 2 ^ k" "unat x \<le> 2 ^ k" "\<And>j. unat x \<le> 2 ^ j \<Longrightarrow> k \<le> j"
proof (cases "x = 1")
  case True
  have "rte_align32pow2 x = 2 ^ 0" by (simp add: True rte_align32pow2_def rte_combine32ms1b_def)
  then show ?thesis using True by (intro that [of 0]) simp_all
next
  case False
  have u: "unat (x - 1) = unat x - 1" using assms by (simp add: unat_sub_simple word_le_nat_alt)
  have "x - 1 \<noteq> 0" using False by simp
  then obtain n where n: "n < 32" "bit (x - 1) n" "\<And>j. n < j \<Longrightarrow> \<not> bit (x - 1) j"
      "2 ^ n \<le> unat (x - 1)" "unat (x - 1) < 2 ^ Suc n"
    by (rule top_bit) auto
  have "2 ^ n < (2 ^ 31 :: nat)" using n(4) u assms by simp
  then have n31: "n < 31" by (metis power_less_imp_less_exp one_less_numeral_iff semiring_norm(76))
  have "rte_align32pow2 x = 2 ^ Suc n"
    using combine32_mask [OF n(1-3)] by (simp add: rte_align32pow2_def mask_eq_exp_minus_1)
  moreover have "unat x \<le> 2 ^ Suc n" using n(5) u assms by simp
  moreover have "Suc n \<le> j" if "unat x \<le> 2 ^ j" for j
  proof -
    have "2 ^ n < (2 ^ j :: nat)" using n(4) u assms that by linarith
    then show ?thesis by (metis Suc_leI power_less_imp_less_exp one_less_numeral_iff semiring_norm(76))
  qed
  ultimately show ?thesis using n31 by (intro that [of "Suc n"]) simp_all
qed

lemma power_of_2_iff: "rte_is_power_of_2 x \<longleftrightarrow> (\<exists>k < 32. x = 2 ^ k)"
proof
  assume p: "rte_is_power_of_2 x"
  then have "x \<noteq> 0" by (simp add: rte_is_power_of_2_def)
  then obtain n where n: "n < 32" "bit x n" "\<And>j. n < j \<Longrightarrow> \<not> bit x j" "2 ^ n \<le> unat x" "unat x < 2 ^ Suc n"
    by (rule top_bit) auto
  show "\<exists>k < 32. x = 2 ^ k"
  proof (rule ccontr)
    assume "\<not> (\<exists>k < 32. x = 2 ^ k)"
    then have "x \<noteq> 2 ^ n" using n(1) by blast
    moreover have "unat (2 ^ n :: u32) = 2 ^ n" using n(1) by (intro unat_2p) simp
    ultimately have "unat x \<noteq> 2 ^ n" by (metis word_unat_eq_iff)
    then have gt: "2 ^ n \<le> unat x - 1" "1 \<le> unat x" using n(4) by simp_all
    have "bit (x - 1) n"
    proof -
      have u: "unat (x - 1) = unat x - 1" using gt by (simp add: unat_sub_simple word_le_nat_alt)
      have "unat (x - 1) div 2 ^ n = 1" using gt n(5) u by (intro div_nat_eqI) simp_all
      then show ?thesis by (metis bit_iff_odd bit_unsigned_iff odd_one)
    qed
    then have "bit (x AND (x - 1)) n" using n(2) by (simp add: bit_and_iff)
    then show False using p by (simp add: rte_is_power_of_2_def)
  qed
next
  assume "\<exists>k < 32. x = 2 ^ k"
  then obtain k where k: "k < 32" "x = 2 ^ k" by blast
  have "x AND (x - 1) = 0" unfolding k(2) mask_eq_exp_minus_1 [symmetric]
    by (rule bit_word_eqI) (auto simp: bit_simps)
  moreover have "unat x \<noteq> 0" unfolding k(2) using k(1) by (subst unat_2p) simp_all
  then have "x \<noteq> 0" by auto
  ultimately show "rte_is_power_of_2 x" by (simp add: rte_is_power_of_2_def)
qed

lemma ctz_2p:
  assumes "k < LENGTH('a::len)"
  shows "builtin_ctz (2 ^ k :: 'a word) = Some k"
  unfolding builtin_ctz_def find_Some_iff
  using assms by (intro exI [of _ k]) (auto simp: bit_simps)

lemma ctz_0: "builtin_ctz (0 :: 'a::len word) = None"
  by (simp add: builtin_ctz_def find_None_iff)

section \<open>Properties\<close>

text \<open>
  For an argument between 1 and \<open>2 ^ 31\<close>, \<^verbatim>\<open>rte_log2_u32\<close> is the logarithm to base
  two rounded up: the least exponent whose power of two is not below the argument.
\<close>

theorem log2_u32_rounds_up:
  assumes "1 \<le> unat v" "unat v \<le> 2 ^ 31"
  shows "\<exists>k \<le> 31. rte_log2_u32 v = Some (of_nat k) \<and> rte_align32pow2 v = 2 ^ k \<and>
    unat v \<le> 2 ^ k \<and> (\<forall>j. unat v \<le> 2 ^ j \<longrightarrow> k \<le> j)"
proof -
  obtain k where k: "k \<le> 31" "rte_align32pow2 v = 2 ^ k" "unat v \<le> 2 ^ k"
      "\<And>j. unat v \<le> 2 ^ j \<Longrightarrow> k \<le> j"
    using align32pow2_least [OF assms] by blast
  have "builtin_ctz (rte_align32pow2 v) = Some k" unfolding k(2) using k(1) by (intro ctz_2p) simp
  then have "rte_log2_u32 v = Some (of_nat k)" using assms by (auto simp: rte_log2_u32_def rte_bsf32_def)
  with k show ?thesis by blast
qed

theorem log2_u32_rounds_up_witness:
  "1 \<le> unat (5 :: u32) \<and> (\<exists>k \<le> 31. rte_log2_u32 5 = Some (of_nat k) \<and> unat (5 :: u32) \<le> 2 ^ k)"
  using log2_u32_rounds_up [of 5] by auto

text \<open>
  Above \<open>2 ^ 31\<close> the rounding to a power of two wraps to 0, and \<^verbatim>\<open>rte_log2_u32\<close>
  calls \<^verbatim>\<open>__builtin_ctz\<close> on 0, which is undefined.
\<close>

theorem log2_u32_undefined:
  assumes "2 ^ 31 < unat v"
  shows "rte_align32pow2 v = 0 \<and> rte_log2_u32 v = None"
proof -
  have u: "unat (v - 1) = unat v - 1" using assms by (simp add: unat_sub_simple word_le_nat_alt)
  then have ge: "2 ^ 31 \<le> unat (v - 1)" using assms by simp
  then have "v - 1 \<noteq> 0" by (metis not_numeral_le_zero unat_0 power_eq_0_iff le_zero_eq zero_neq_numeral)
  then obtain n where n: "n < 32" "bit (v - 1) n" "\<And>j. n < j \<Longrightarrow> \<not> bit (v - 1) j"
      "2 ^ n \<le> unat (v - 1)" "unat (v - 1) < 2 ^ Suc n"
    by (rule top_bit) auto
  have "(2 :: nat) ^ 31 < 2 ^ Suc n" using ge n(5) by linarith
  then have "31 < Suc n" by (rule power_less_imp_less_exp [rotated]) simp
  with n(1) have "n = 31" by simp
  then have "rte_align32pow2 v = 0"
    using combine32_mask [OF n(1-3)] by (simp add: rte_align32pow2_def mask_eq_exp_minus_1)
  moreover have "v \<noteq> 0" using assms by auto
  ultimately show ?thesis by (simp add: rte_log2_u32_def rte_bsf32_def ctz_0)
qed

theorem log2_u32_undefined_witness:
  "2 ^ 31 < unat (0x80000001 :: u32) \<and> rte_log2_u32 0x80000001 = None"
  using log2_u32_undefined [of "0x80000001"] by simp

end
