(* ===== verification/Ring.thy ===== *)
theory Ring
  imports Common "HOL-Library.Monad_Syntax"
begin

text \<open>
  Model of \<^verbatim>\<open>lib/librte_ring\<close>: the fixed-size lockless FIFO of object pointers
  (\<^verbatim>\<open>rte_ring.h\<close>, \<^verbatim>\<open>rte_ring_generic.h\<close>, \<^verbatim>\<open>rte_ring.c\<close>). Heads and tails are
  free-running 32-bit counters, masked only when the object table behind the structure is
  accessed. An operation is the run of one thread; \<^term>\<open>None\<close> stands for an access outside the
  object table or for a spin loop that no other thread ends.
\<close>

section \<open>Data\<close>

datatype rte_ring_queue_behavior = RTE_RING_QUEUE_FIXED | RTE_RING_QUEUE_VARIABLE

record rte_ring_headtail =
  head :: u32
  tail :: u32
  single :: bool

record 'a rte_ring =
  ring_name :: string
  ring_flags :: u32
  ring_memzone :: addr
  ring_size :: u32
  ring_mask :: u32
  ring_capacity :: u32
  prod :: rte_ring_headtail
  cons :: rte_ring_headtail
  slots :: "'a list"

definition RING_F_SP_ENQ :: u32 where
  "RING_F_SP_ENQ = 1"

definition RING_F_SC_DEQ :: u32 where
  "RING_F_SC_DEQ = 2"

definition RING_F_EXACT_SZ :: u32 where
  "RING_F_EXACT_SZ = 4"

definition RTE_RING_SZ_MASK :: u32 where
  "RTE_RING_SZ_MASK = 0x7fffffff"

section \<open>Access to the object table\<close>

definition store :: "'a list \<Rightarrow> u32 \<Rightarrow> 'a \<Rightarrow> 'a list option" where
  "store ring idx v = (if unat idx < length ring then Some (ring[unat idx := v]) else None)"

definition load :: "'a list \<Rightarrow> u32 \<Rightarrow> 'a option" where
  "load ring idx = (if unat idx < length ring then Some (ring ! unat idx) else None)"

text \<open>The unrolled copy loop with its fall-through switch on the last three objects.\<close>

fun enqueue_unrolled :: "'a list \<Rightarrow> u32 \<Rightarrow> 'a list \<Rightarrow> 'a list option" where
  "enqueue_unrolled ring idx (a # b # c # d # objs) = do {
     ring \<leftarrow> store ring idx a;
     ring \<leftarrow> store ring (idx + 1) b;
     ring \<leftarrow> store ring (idx + 2) c;
     ring \<leftarrow> store ring (idx + 3) d;
     enqueue_unrolled ring (idx + 4) objs }"
| "enqueue_unrolled ring idx [a, b, c] = do {
     ring \<leftarrow> store ring idx a;
     ring \<leftarrow> store ring (idx + 1) b;
     store ring (idx + 1 + 1) c }"
| "enqueue_unrolled ring idx [a, b] = do {
     ring \<leftarrow> store ring idx a;
     store ring (idx + 1) b }"
| "enqueue_unrolled ring idx [a] = store ring idx a"
| "enqueue_unrolled ring idx [] = Some ring"

text \<open>The first wrap-around loop: up to the end of the table; it returns the objects left.\<close>

fun enqueue_to_end :: "'a list \<Rightarrow> u32 \<Rightarrow> u32 \<Rightarrow> 'a list \<Rightarrow> ('a list \<times> 'a list) option" where
  "enqueue_to_end ring sz idx objs =
     (if idx < sz
      then (case objs of [] \<Rightarrow> None
            | a # objs' \<Rightarrow> do {
                ring \<leftarrow> store ring idx a;
                enqueue_to_end ring sz (idx + 1) objs' })
      else Some (ring, objs))"

fun enqueue_from :: "'a list \<Rightarrow> u32 \<Rightarrow> 'a list \<Rightarrow> 'a list option" where
  "enqueue_from ring idx [] = Some ring"
| "enqueue_from ring idx (a # objs) = do {
     ring \<leftarrow> store ring idx a;
     enqueue_from ring (idx + 1) objs }"

definition ENQUEUE_PTRS :: "'a rte_ring \<Rightarrow> u32 \<Rightarrow> 'a list \<Rightarrow> u32 \<Rightarrow> 'a rte_ring option" where
  "ENQUEUE_PTRS r prod_head obj_table n =
     (if length obj_table < unat n then None
      else let sz = ring_size r; idx = prod_head AND ring_mask r; objs = take (unat n) obj_table
        in if idx + n < sz
           then do { ring \<leftarrow> enqueue_unrolled (slots r) idx objs; Some (r\<lparr>slots := ring\<rparr>) }
           else do { (ring, objs) \<leftarrow> enqueue_to_end (slots r) sz idx objs;
                     ring \<leftarrow> enqueue_from ring 0 objs;
                     Some (r\<lparr>slots := ring\<rparr>) })"

fun dequeue_unrolled :: "'a list \<Rightarrow> u32 \<Rightarrow> nat \<Rightarrow> 'a list option" where
  "dequeue_unrolled ring idx (Suc (Suc (Suc (Suc n)))) = do {
     a \<leftarrow> load ring idx;
     b \<leftarrow> load ring (idx + 1);
     c \<leftarrow> load ring (idx + 2);
     d \<leftarrow> load ring (idx + 3);
     objs \<leftarrow> dequeue_unrolled ring (idx + 4) n;
     Some (a # b # c # d # objs) }"
| "dequeue_unrolled ring idx (Suc (Suc (Suc 0))) = do {
     a \<leftarrow> load ring idx;
     b \<leftarrow> load ring (idx + 1);
     c \<leftarrow> load ring (idx + 1 + 1);
     Some [a, b, c] }"
| "dequeue_unrolled ring idx (Suc (Suc 0)) = do {
     a \<leftarrow> load ring idx;
     b \<leftarrow> load ring (idx + 1);
     Some [a, b] }"
| "dequeue_unrolled ring idx (Suc 0) = do {
     a \<leftarrow> load ring idx;
     Some [a] }"
| "dequeue_unrolled ring idx 0 = Some []"

function dequeue_to_end :: "'a list \<Rightarrow> u32 \<Rightarrow> u32 \<Rightarrow> 'a list option" where
  "dequeue_to_end ring sz idx =
     (if idx < sz
      then do { a \<leftarrow> load ring idx;
                objs \<leftarrow> dequeue_to_end ring sz (idx + 1);
                Some (a # objs) }
      else Some [])"
  by pat_completeness auto
termination
proof (relation "measure (\<lambda>(ring, sz, idx). unat sz - unat idx)", goal_cases)
  case (2 ring sz idx)
  then have "unat (idx + 1) = Suc (unat idx)" by (intro unat_add_1_less)
  with 2 show ?case by (simp add: word_less_nat_alt)
qed simp

fun dequeue_from :: "'a list \<Rightarrow> u32 \<Rightarrow> nat \<Rightarrow> 'a list option" where
  "dequeue_from ring idx 0 = Some []"
| "dequeue_from ring idx (Suc n) = do {
     a \<leftarrow> load ring idx;
     objs \<leftarrow> dequeue_from ring (idx + 1) n;
     Some (a # objs) }"

definition DEQUEUE_PTRS :: "'a rte_ring \<Rightarrow> u32 \<Rightarrow> u32 \<Rightarrow> 'a list option" where
  "DEQUEUE_PTRS r cons_head n =
     (let sz = ring_size r; idx = cons_head AND ring_mask r
      in if idx + n < sz
         then dequeue_unrolled (slots r) idx (unat n)
         else do { objs \<leftarrow> dequeue_to_end (slots r) sz idx;
                   objs' \<leftarrow> dequeue_from (slots r) 0 (unat n - length objs);
                   Some (objs @ objs') })"

section \<open>Moving heads and tails\<close>

text \<open>\<^verbatim>\<open>rte_atomic32_cmpset\<close>: the new contents of the location and whether it was swapped.\<close>

definition rte_atomic32_cmpset :: "u32 \<Rightarrow> u32 \<Rightarrow> u32 \<Rightarrow> u32 \<times> bool" where
  "rte_atomic32_cmpset dst exp src = (if dst = exp then (src, True) else (dst, False))"

text \<open>The wait for earlier producers or consumers never ends when no other thread runs.\<close>

definition update_tail :: "rte_ring_headtail \<Rightarrow> u32 \<Rightarrow> u32 \<Rightarrow> bool \<Rightarrow> rte_ring_headtail option" where
  "update_tail ht old_val new_val sgl =
     (if \<not> sgl \<and> tail ht \<noteq> old_val then None else Some (ht\<lparr>tail := new_val\<rparr>))"

text \<open>
  The result: the ring, the number of objects, the old and the new head and the free entries
  before the move. Without objects the new head is not set and the old one stands for it.
\<close>

partial_function (option) rte_ring_move_prod_head ::
  "'a rte_ring \<Rightarrow> bool \<Rightarrow> u32 \<Rightarrow> rte_ring_queue_behavior \<Rightarrow>
   ('a rte_ring \<times> u32 \<times> u32 \<times> u32 \<times> u32) option" where
  "rte_ring_move_prod_head r is_sp max_n behavior =
     (let old_head = head (prod r);
          free_entries = ring_capacity r + tail (cons r) - old_head;
          n = (if max_n > free_entries
               then (if behavior = RTE_RING_QUEUE_FIXED then 0 else free_entries) else max_n)
      in if n = 0 then Some (r, 0, old_head, old_head, free_entries)
         else let new_head = old_head + n;
                  (h, success) = (if is_sp then (new_head, True)
                                  else rte_atomic32_cmpset (head (prod r)) old_head new_head);
                  r' = r\<lparr>prod := (prod r)\<lparr>head := h\<rparr>\<rparr>
              in if success then Some (r', n, old_head, new_head, free_entries)
                 else rte_ring_move_prod_head r' is_sp max_n behavior)"

partial_function (option) rte_ring_move_cons_head ::
  "'a rte_ring \<Rightarrow> bool \<Rightarrow> u32 \<Rightarrow> rte_ring_queue_behavior \<Rightarrow>
   ('a rte_ring \<times> u32 \<times> u32 \<times> u32 \<times> u32) option" where
  "rte_ring_move_cons_head r is_sc max_n behavior =
     (let old_head = head (cons r);
          entries = tail (prod r) - old_head;
          n = (if max_n > entries
               then (if behavior = RTE_RING_QUEUE_FIXED then 0 else entries) else max_n)
      in if n = 0 then Some (r, 0, old_head, old_head, entries)
         else let new_head = old_head + n;
                  (h, success) = (if is_sc then (new_head, True)
                                  else rte_atomic32_cmpset (head (cons r)) old_head new_head);
                  r' = r\<lparr>cons := (cons r)\<lparr>head := h\<rparr>\<rparr>
              in if success then Some (r', n, old_head, new_head, entries)
                 else rte_ring_move_cons_head r' is_sc max_n behavior)"

section \<open>Enqueue and dequeue\<close>

text \<open>The result: the ring, the number of objects enqueued and the free space after them.\<close>

definition rte_ring_do_enqueue ::
  "'a rte_ring \<Rightarrow> 'a list \<Rightarrow> u32 \<Rightarrow> rte_ring_queue_behavior \<Rightarrow> bool \<Rightarrow>
   ('a rte_ring \<times> u32 \<times> u32) option" where
  "rte_ring_do_enqueue r obj_table n behavior is_sp = do {
     (r, n, prod_head, prod_next, free_entries) \<leftarrow> rte_ring_move_prod_head r is_sp n behavior;
     if n = 0 then Some (r, n, free_entries - n)
     else do {
       r \<leftarrow> ENQUEUE_PTRS r prod_head obj_table n;
       p \<leftarrow> update_tail (prod r) prod_head prod_next is_sp;
       Some (r\<lparr>prod := p\<rparr>, n, free_entries - n) } }"

text \<open>The result: the ring, the objects dequeued and the number of entries left.\<close>

definition rte_ring_do_dequeue ::
  "'a rte_ring \<Rightarrow> u32 \<Rightarrow> rte_ring_queue_behavior \<Rightarrow> bool \<Rightarrow>
   ('a rte_ring \<times> 'a list \<times> u32) option" where
  "rte_ring_do_dequeue r n behavior is_sc = do {
     (r, n, cons_head, cons_next, entries) \<leftarrow> rte_ring_move_cons_head r is_sc n behavior;
     if n = 0 then Some (r, [], entries - n)
     else do {
       objs \<leftarrow> DEQUEUE_PTRS r cons_head n;
       c \<leftarrow> update_tail (cons r) cons_head cons_next is_sc;
       Some (r\<lparr>cons := c\<rparr>, objs, entries - n) } }"

definition rte_ring_mp_enqueue_bulk where
  "rte_ring_mp_enqueue_bulk r obj_table n = rte_ring_do_enqueue r obj_table n RTE_RING_QUEUE_FIXED False"

definition rte_ring_sp_enqueue_bulk where
  "rte_ring_sp_enqueue_bulk r obj_table n = rte_ring_do_enqueue r obj_table n RTE_RING_QUEUE_FIXED True"

definition rte_ring_enqueue_bulk where
  "rte_ring_enqueue_bulk r obj_table n =
     rte_ring_do_enqueue r obj_table n RTE_RING_QUEUE_FIXED (single (prod r))"

text \<open>The error code of a single enqueue; no code is success.\<close>

definition enqueue_status :: "('a rte_ring \<times> u32 \<times> u32) option \<Rightarrow> ('a rte_ring \<times> errno option) option" where
  "enqueue_status res = map_option (\<lambda>(r, n, free). (r, if n \<noteq> 0 then None else Some ENOBUFS)) res"

definition rte_ring_mp_enqueue where
  "rte_ring_mp_enqueue r obj = enqueue_status (rte_ring_mp_enqueue_bulk r [obj] 1)"

definition rte_ring_sp_enqueue where
  "rte_ring_sp_enqueue r obj = enqueue_status (rte_ring_sp_enqueue_bulk r [obj] 1)"

definition rte_ring_enqueue where
  "rte_ring_enqueue r obj = enqueue_status (rte_ring_enqueue_bulk r [obj] 1)"

definition rte_ring_mc_dequeue_bulk where
  "rte_ring_mc_dequeue_bulk r n = rte_ring_do_dequeue r n RTE_RING_QUEUE_FIXED False"

definition rte_ring_sc_dequeue_bulk where
  "rte_ring_sc_dequeue_bulk r n = rte_ring_do_dequeue r n RTE_RING_QUEUE_FIXED True"

definition rte_ring_dequeue_bulk where
  "rte_ring_dequeue_bulk r n = rte_ring_do_dequeue r n RTE_RING_QUEUE_FIXED (single (cons r))"

definition dequeue_status :: "('a rte_ring \<times> 'a list \<times> u32) option \<Rightarrow> ('a rte_ring \<times> (errno + 'a)) option" where
  "dequeue_status res =
     map_option (\<lambda>(r, objs, avail). (r, case objs of [] \<Rightarrow> Inl ENOENT | x # _ \<Rightarrow> Inr x)) res"

definition rte_ring_mc_dequeue where
  "rte_ring_mc_dequeue r = dequeue_status (rte_ring_mc_dequeue_bulk r 1)"

definition rte_ring_sc_dequeue where
  "rte_ring_sc_dequeue r = dequeue_status (rte_ring_sc_dequeue_bulk r 1)"

definition rte_ring_dequeue where
  "rte_ring_dequeue r = dequeue_status (rte_ring_dequeue_bulk r 1)"

definition rte_ring_mp_enqueue_burst where
  "rte_ring_mp_enqueue_burst r obj_table n =
     rte_ring_do_enqueue r obj_table n RTE_RING_QUEUE_VARIABLE False"

definition rte_ring_sp_enqueue_burst where
  "rte_ring_sp_enqueue_burst r obj_table n =
     rte_ring_do_enqueue r obj_table n RTE_RING_QUEUE_VARIABLE True"

definition rte_ring_enqueue_burst where
  "rte_ring_enqueue_burst r obj_table n =
     rte_ring_do_enqueue r obj_table n RTE_RING_QUEUE_VARIABLE (single (prod r))"

definition rte_ring_mc_dequeue_burst where
  "rte_ring_mc_dequeue_burst r n = rte_ring_do_dequeue r n RTE_RING_QUEUE_VARIABLE False"

definition rte_ring_sc_dequeue_burst where
  "rte_ring_sc_dequeue_burst r n = rte_ring_do_dequeue r n RTE_RING_QUEUE_VARIABLE True"

definition rte_ring_dequeue_burst where
  "rte_ring_dequeue_burst r n =
     rte_ring_do_dequeue r n RTE_RING_QUEUE_VARIABLE (single (cons r))"

section \<open>Counters\<close>

definition rte_ring_count :: "'a rte_ring \<Rightarrow> u32" where
  "rte_ring_count r =
     (let prod_tail = tail (prod r); cons_tail = tail (cons r);
          cnt = (prod_tail - cons_tail) AND ring_mask r
      in if cnt > ring_capacity r then ring_capacity r else cnt)"

definition rte_ring_free_count :: "'a rte_ring \<Rightarrow> u32" where
  "rte_ring_free_count r = ring_capacity r - rte_ring_count r"

definition rte_ring_full :: "'a rte_ring \<Rightarrow> bool" where
  "rte_ring_full r = (rte_ring_free_count r = 0)"

definition rte_ring_empty :: "'a rte_ring \<Rightarrow> bool" where
  "rte_ring_empty r = (rte_ring_count r = 0)"

definition rte_ring_get_size :: "'a rte_ring \<Rightarrow> u32" where
  "rte_ring_get_size r = ring_size r"

definition rte_ring_get_capacity :: "'a rte_ring \<Rightarrow> u32" where
  "rte_ring_get_capacity r = ring_capacity r"

section \<open>Creation\<close>

definition POWEROF2 :: "u32 \<Rightarrow> bool" where
  "POWEROF2 x \<longleftrightarrow> (x - 1) AND x = 0"

definition RTE_MEMZONE_NAMESIZE :: nat where
  "RTE_MEMZONE_NAMESIZE = 32"

definition RTE_RING_MZ_PREFIX :: string where
  "RTE_RING_MZ_PREFIX = ''RG_''"

text \<open>
  The size in bytes: \<^verbatim>\<open>sizeof(struct rte_ring)\<close> (six cache lines) and the object table, in
  the 64-bit \<^verbatim>\<open>ssize_t\<close>, rounded up to a cache line.
\<close>

definition sizeof_rte_ring :: u64 where
  "sizeof_rte_ring = 384"

definition rte_ring_get_memsize :: "u32 \<Rightarrow> errno + u64" where
  "rte_ring_get_memsize cnt =
     (if \<not> POWEROF2 cnt \<or> cnt > RTE_RING_SZ_MASK then Inl EINVAL
      else let sz = sizeof_rte_ring + ucast cnt * 8
           in Inr (RTE_ALIGN_CEIL sz 64))"

text \<open>
  \<^verbatim>\<open>rte_ring_init\<close> on memory whose object table holds \<open>table\<close>; the structure itself is
  cleared first, so an early error leaves a zeroed ring.
\<close>

text \<open>The state rings are created in: their memory, the list of rings and \<^verbatim>\<open>rte_errno\<close>.\<close>

record 'a ring_env =
  ring_mem :: "addr \<rightharpoonup> 'a rte_ring"
  ring_tailq :: "addr list"
  rte_errno :: int

text \<open>
  A memory zone as \<^verbatim>\<open>rte_memzone_reserve_aligned\<close> returns it: its descriptor, its address
  and the pointers stored behind the ring structure.
\<close>

record 'a memzone =
  mz_desc :: addr
  mz_addr :: addr
  mz_words :: "'a list"

definition RTE_RING_NAMESIZE :: nat where
  "RTE_RING_NAMESIZE = RTE_MEMZONE_NAMESIZE - (length RTE_RING_MZ_PREFIX + 1) + 1"

definition zero_ring :: "'a list \<Rightarrow> 'a rte_ring" where
  "zero_ring table = \<lparr>ring_name = [], ring_flags = 0, ring_memzone = NULL, ring_size = 0,
     ring_mask = 0, ring_capacity = 0, prod = \<lparr>head = 0, tail = 0, single = False\<rparr>,
     cons = \<lparr>head = 0, tail = 0, single = False\<rparr>, slots = table\<rparr>"

definition rte_ring_init ::
  "'a list \<Rightarrow> string \<Rightarrow> u32 \<Rightarrow> u32 \<Rightarrow> 'a rte_ring \<times> errno option" where
  "rte_ring_init table nm cnt flags =
     (let r = (zero_ring table)\<lparr>ring_name := take (RTE_MEMZONE_NAMESIZE - 1) nm\<rparr>
      in if length nm \<ge> RTE_MEMZONE_NAMESIZE then (r, Some ENAMETOOLONG)
         else let r = r\<lparr>ring_flags := flags,
                        prod := (prod r)\<lparr>single := (flags AND RING_F_SP_ENQ \<noteq> 0)\<rparr>,
                        cons := (cons r)\<lparr>single := (flags AND RING_F_SC_DEQ \<noteq> 0)\<rparr>\<rparr>
              in if flags AND RING_F_EXACT_SZ \<noteq> 0
                 then let sz = rte_align32pow2 (cnt + 1)
                      in (r\<lparr>ring_size := sz, ring_mask := sz - 1, ring_capacity := cnt\<rparr>, None)
                 else if \<not> POWEROF2 cnt \<or> cnt > RTE_RING_SZ_MASK then (r, Some EINVAL)
                 else (r\<lparr>ring_size := cnt, ring_mask := cnt - 1, ring_capacity := cnt - 1\<rparr>, None))"

text \<open>
  \<^verbatim>\<open>rte_ring_create\<close>. Whether the list entry can be allocated and what the memory zone
  allocator returns for a name and a size (a zone, or the error it leaves in
  \<^verbatim>\<open>rte_errno\<close>) are parameters. The result is the address of the ring or NULL.
\<close>

definition rte_ring_create ::
  "bool \<Rightarrow> (string \<Rightarrow> u64 \<Rightarrow> errno + 'a memzone) \<Rightarrow> string \<Rightarrow> u32 \<Rightarrow> u32 \<Rightarrow> 'a ring_env \<Rightarrow> 'a ring_env \<times> addr" where
  "rte_ring_create te_ok reserve nm requested_count flags env =
     (let cnt = (if flags AND RING_F_EXACT_SZ \<noteq> 0 then rte_align32pow2 (requested_count + 1)
                 else requested_count)
      in case rte_ring_get_memsize cnt of
           Inl e \<Rightarrow> (env\<lparr>rte_errno := - errno_code e\<rparr>, NULL)
         | Inr sz \<Rightarrow>
             let mz_name = RTE_RING_MZ_PREFIX @ nm
             in if length mz_name \<ge> RTE_MEMZONE_NAMESIZE
                then (env\<lparr>rte_errno := errno_code ENAMETOOLONG\<rparr>, NULL)
                else if \<not> te_ok then (env\<lparr>rte_errno := errno_code ENOMEM\<rparr>, NULL)
                else case reserve mz_name sz of
                       Inl e \<Rightarrow> (env\<lparr>rte_errno := errno_code e\<rparr>, NULL)
                     | Inr mz \<Rightarrow>
                         let (r, _) = rte_ring_init (take (unat cnt) (mz_words mz)) nm requested_count flags;
                             r = r\<lparr>ring_memzone := mz_desc mz\<rparr>
                         in (env\<lparr>ring_mem := (ring_mem env)(mz_addr mz \<mapsto> r),
                                 ring_tailq := ring_tailq env @ [mz_addr mz]\<rparr>, mz_addr mz))"

text \<open>\<^verbatim>\<open>rte_memzone_free\<close> is a parameter: whether it frees the zone of a descriptor.\<close>

definition rte_ring_free :: "(addr \<Rightarrow> bool) \<Rightarrow> addr \<Rightarrow> 'a ring_env \<Rightarrow> 'a ring_env option" where
  "rte_ring_free memzone_free r env =
     (if r = NULL then Some env
      else case ring_mem env r of
             None \<Rightarrow> None
           | Some ring \<Rightarrow>
               if ring_memzone ring = NULL \<or> \<not> memzone_free (ring_memzone ring) then Some env
               else Some (env\<lparr>ring_mem := (ring_mem env)(r := None),
                              ring_tailq := remove1 r (ring_tailq env)\<rparr>))"

text \<open>The walk over the list compares at most \<^verbatim>\<open>RTE_RING_NAMESIZE\<close> characters.\<close>

fun ring_find :: "(addr \<rightharpoonup> 'a rte_ring) \<Rightarrow> string \<Rightarrow> addr list \<Rightarrow> addr option option" where
  "ring_find m nm [] = Some None"
| "ring_find m nm (a # tq) = (case m a of
     None \<Rightarrow> None
   | Some r \<Rightarrow> if take RTE_RING_NAMESIZE nm = take RTE_RING_NAMESIZE (ring_name r) then Some (Some a)
               else ring_find m nm tq)"

definition rte_ring_lookup :: "string \<Rightarrow> 'a ring_env \<Rightarrow> ('a ring_env \<times> addr) option" where
  "rte_ring_lookup nm env = (case ring_find (ring_mem env) nm (ring_tailq env) of
     None \<Rightarrow> None
   | Some None \<Rightarrow> Some (env\<lparr>rte_errno := errno_code ENOENT\<rparr>, NULL)
   | Some (Some a) \<Rightarrow> Some (env, a))"

section \<open>The copy loops\<close>

text \<open>The reference loops: one object at a time, at positions modulo the table length.\<close>

fun wr :: "'a list \<Rightarrow> nat \<Rightarrow> 'a list \<Rightarrow> 'a list" where
  "wr ring p [] = ring"
| "wr ring p (a # xs) = wr (ring[p mod length ring := a]) (Suc p) xs"

definition seg :: "'a list \<Rightarrow> nat \<Rightarrow> nat \<Rightarrow> 'a list" where
  "seg ring c m = map (\<lambda>i. ring ! ((c + i) mod length ring)) [0..<m]"

lemma length_wr [simp]: "length (wr ring p xs) = length ring"
  by (induction ring p xs rule: wr.induct) simp_all

lemma length_seg [simp]: "length (seg ring c m) = m"
  by (simp add: seg_def)

lemma wr_append: "wr ring p (xs @ ys) = wr (wr ring p xs) (p + length xs) ys"
  by (induction ring p xs rule: wr.induct) simp_all

lemma wr_mod: "wr ring (p mod length ring) xs = wr ring p xs"
proof (induction xs arbitrary: ring p)
  case (Cons a xs)
  let ?r = "ring[p mod length ring := a]"
  have "wr ?r (Suc (p mod length ring)) xs = wr ?r (Suc (p mod length ring) mod length ?r) xs"
    by (rule Cons.IH [symmetric])
  also have "\<dots> = wr ?r (Suc p mod length ?r) xs" by (simp add: mod_Suc_eq)
  also have "\<dots> = wr ?r (Suc p) xs" by (rule Cons.IH)
  finally show ?case by simp
qed simp

lemma wr_cong_mod: "p mod length ring = q mod length ring \<Longrightarrow> wr ring p xs = wr ring q xs"
  by (metis wr_mod)

lemma seg_cong_mod:
  assumes "p mod length ring = q mod length ring"
  shows "seg ring p m = seg ring q m"
  using assms by (simp add: seg_def) (metis mod_add_left_eq)

lemma seg_append: "seg ring c (m + n) = seg ring c m @ seg ring (c + m) n"
  by (rule nth_equalityI) (auto simp: seg_def nth_append add.assoc)

lemma seg_Suc: "seg ring c (Suc m) = seg ring c m @ [ring ! ((c + m) mod length ring)]"
  by (simp add: seg_def)

lemma seg_Cons: "seg ring c (Suc m) = ring ! (c mod length ring) # seg ring (Suc c) m"
  using seg_append [of ring c 1 m] by (simp add: seg_def)

lemma drop_seg: "n \<le> m \<Longrightarrow> drop n (seg ring c m) = seg ring (c + n) (m - n)"
  using seg_append [of ring c n "m - n"] by simp

lemma take_seg: "n \<le> m \<Longrightarrow> take n (seg ring c m) = seg ring c n"
  using seg_append [of ring c n "m - n"] by simp

lemma mod_neq_offset:
  assumes "i < m" "m < (n :: nat)"
  shows "(c + i) mod n \<noteq> (c + m) mod n"
proof
  assume eq: "(c + i) mod n = (c + m) mod n"
  then have "n dvd (c + m) - (c + i)" using assms by (metis mod_eq_dvd_iff_nat add_le_cancel_left less_imp_le)
  then have "n dvd m - i" by simp
  then show False using assms by (auto dest: dvd_imp_le)
qed

lemma seg_update:
  assumes "m < length ring"
  shows "seg (ring[(c + m) mod length ring := a]) c (Suc m) = seg ring c m @ [a]"
proof -
  have "seg (ring[(c + m) mod length ring := a]) c m = seg ring c m"
    using assms mod_neq_offset [of _ m "length ring" c]
    by (auto simp: seg_def intro!: map_cong) (metis nth_list_update_neq)
  moreover have "0 < length ring" using assms by linarith
  ultimately show ?thesis by (simp add: seg_Suc)
qed

text \<open>Writing behind a segment appends to it.\<close>

lemma seg_wr:
  "m + length xs \<le> length ring \<Longrightarrow> seg (wr ring (c + m) xs) c (m + length xs) = seg ring c m @ xs"
proof (induction xs arbitrary: ring m)
  case (Cons a xs)
  then have "m < length ring" by simp
  with Cons show ?case
    using Cons.IH [of "Suc m" "ring[(c + m) mod length ring := a]"] by (simp add: seg_update)
qed simp

lemma unat_add_small_32:
  fixes idx :: u32
  assumes "unat idx + n \<le> m" "m < 2 ^ 32"
  shows "unat (idx + of_nat n) = unat idx + n"
proof -
  have "unat (of_nat n :: u32) = n" using assms by (intro unat_of_nat_small) simp
  with assms show ?thesis by (subst unat_plus_simple) simp_all
qed

lemma enqueue_unrolled_simple: "enqueue_unrolled ring idx objs = enqueue_from ring idx objs"
  by (induction ring idx objs rule: enqueue_unrolled.induct)
    (auto simp: add.assoc intro!: Option.bind_cong)

lemma dequeue_unrolled_simple: "dequeue_unrolled ring idx n = dequeue_from ring idx n"
  by (induction ring idx n rule: dequeue_unrolled.induct)
    (auto simp: add.assoc bind_assoc intro!: Option.bind_cong)

lemma enqueue_from_wr:
  assumes "unat idx + length objs \<le> length ring" "length ring < 2 ^ 32"
  shows "enqueue_from ring idx objs = Some (wr ring (unat idx) objs)"
  using assms
proof (induction objs arbitrary: ring idx)
  case (Cons a objs)
  then have lt: "unat idx < length ring" by simp
  show ?case
  proof (cases objs)
    case Nil
    with lt show ?thesis by (simp add: store_def)
  next
    case (Cons b bs)
    with Cons.prems have "unat (idx + 1) = Suc (unat idx)"
      using unat_add_small_32 [of idx 1 "length ring"] by simp
    with Cons.IH [of "idx + 1"] Cons.prems lt show ?thesis by (simp add: store_def)
  qed
qed simp

lemma enqueue_to_end_wr:
  assumes "unat sz = length ring" "unat idx \<le> unat sz" "unat sz - unat idx \<le> length objs"
  shows "enqueue_to_end ring sz idx objs =
    Some (wr ring (unat idx) (take (unat sz - unat idx) objs), drop (unat sz - unat idx) objs)"
  using assms
proof (induction objs arbitrary: ring idx)
  case Nil
  then show ?case by (simp add: word_less_nat_alt)
next
  case (Cons a objs)
  show ?case
  proof (cases "idx < sz")
    case True
    then have u: "unat (idx + 1) = Suc (unat idx)" by (rule unat_add_1_less)
    have lt: "unat idx < length ring" using True Cons.prems by (simp add: word_less_nat_alt)
    have "unat sz - unat idx = Suc (unat sz - unat (idx + 1))"
      using u lt Cons.prems by simp
    then show ?thesis
      using Cons.IH [of "ring[unat idx := a]" "idx + 1"] Cons.prems True u lt
      by (subst enqueue_to_end.simps) (simp add: store_def)
  next
    case False
    then show ?thesis using Cons.prems by (subst enqueue_to_end.simps) (simp add: word_less_nat_alt)
  qed
qed

lemma dequeue_from_seg:
  assumes "unat idx + n \<le> length ring" "length ring < 2 ^ 32"
  shows "dequeue_from ring idx n = Some (seg ring (unat idx) n)"
  using assms
proof (induction n arbitrary: idx)
  case 0
  then show ?case by (simp add: seg_def)
next
  case (Suc n)
  then have lt: "unat idx < length ring" by simp
  have "dequeue_from ring (idx + 1) n = Some (seg ring (Suc (unat idx)) n)"
  proof (cases n)
    case 0
    then show ?thesis by (simp add: seg_def)
  next
    case (Suc m)
    then have "unat (idx + 1) = Suc (unat idx)"
      using unat_add_small_32 [of idx 1 "length ring"] Suc.prems by simp
    then show ?thesis using Suc.IH [of "idx + 1"] Suc.prems by simp
  qed
  with lt show ?case by (simp add: load_def seg_Cons)
qed

lemma dequeue_to_end_seg:
  assumes "unat sz = length ring" "unat idx \<le> unat sz"
  shows "dequeue_to_end ring sz idx = Some (seg ring (unat idx) (unat sz - unat idx))"
  using assms
proof (induction ring sz idx rule: dequeue_to_end.induct)
  case (1 ring sz idx)
  show ?case
  proof (cases "idx < sz")
    case True
    then have u: "unat (idx + 1) = Suc (unat idx)" by (rule unat_add_1_less)
    have lt: "unat idx < length ring" using True 1 by (simp add: word_less_nat_alt)
    have "unat sz - unat idx = Suc (unat sz - unat (idx + 1))" using u lt 1 by simp
    moreover have "dequeue_to_end ring sz (idx + 1) =
        Some (seg ring (unat (idx + 1)) (unat sz - unat (idx + 1)))"
      using 1 True u lt by (simp add: load_def)
    ultimately show ?thesis
      using True lt u by (subst dequeue_to_end.simps) (simp add: load_def seg_Cons)
  next
    case False
    then show ?thesis using 1 by (subst dequeue_to_end.simps) (simp add: word_less_nat_alt seg_def)
  qed
qed

declare dequeue_to_end.simps [simp del] enqueue_to_end.simps [simp del]

section \<open>The invariant and the contents of a ring\<close>

text \<open>
  A ring at rest: no enqueue or dequeue is under way, so heads and tails agree, and the
  free-running counters are at most the capacity apart.
\<close>

definition ring_shape :: "'a rte_ring \<Rightarrow> bool" where
  "ring_shape r \<longleftrightarrow> (\<exists>k \<le> 31. ring_size r = 2 ^ k) \<and> ring_mask r = ring_size r - 1 \<and>
     ring_capacity r < ring_size r \<and> length (slots r) = unat (ring_size r)"

definition ring_used :: "'a rte_ring \<Rightarrow> nat" where
  "ring_used r = unat (tail (prod r) - tail (cons r))"

definition ring_inv :: "'a rte_ring \<Rightarrow> bool" where
  "ring_inv r \<longleftrightarrow> ring_shape r \<and> head (prod r) = tail (prod r) \<and> head (cons r) = tail (cons r) \<and>
     ring_used r \<le> unat (ring_capacity r)"

definition ring_list :: "'a rte_ring \<Rightarrow> 'a list" where
  "ring_list r = seg (slots r) (unat (tail (cons r))) (ring_used r)"

lemma ring_shapeD:
  assumes "ring_shape r"
  obtains k where "k \<le> 31" "unat (ring_size r) = 2 ^ k" "length (slots r) = 2 ^ k"
    "ring_mask r = mask k" "unat (ring_capacity r) < 2 ^ k" "2 ^ k \<le> (2 ^ 31 :: nat)"
proof -
  obtain k where k: "k \<le> 31" "ring_size r = 2 ^ k" "ring_mask r = ring_size r - 1"
     "ring_capacity r < ring_size r" "length (slots r) = unat (ring_size r)"
    using assms by (auto simp: ring_shape_def)
  have p: "(2 :: nat) ^ k \<le> 2 ^ 31" using k(1) by (intro power_increasing) simp_all
  have "unat (ring_size r) = 2 ^ k"
    using p k(2) unat_of_nat_small [of "2 ^ k", where ?'a = 32] by simp
  with k p show ?thesis by (intro that) (simp_all add: mask_eq_exp_minus_1 word_less_nat_alt)
qed

lemma mod_diff_counter:
  fixes p c :: u32
  assumes "k \<le> 31"
  shows "(unat c + unat (p - c)) mod 2 ^ k = unat p mod 2 ^ k"
proof -
  have "unat p = (unat c + unat (p - c)) mod 2 ^ 32"
    using unat_word_ariths(1) [of c "p - c"] by simp
  moreover have "(2 :: nat) ^ k dvd 2 ^ 32" using assms by (intro le_imp_power_dvd) simp
  then have "x mod 2 ^ 32 mod 2 ^ k = x mod 2 ^ k" for x :: nat by (rule mod_mod_cancel)
  ultimately show ?thesis by (simp only:)
qed

lemma ENQUEUE_PTRS_wr:
  assumes "ring_shape r" "unat n \<le> unat (ring_capacity r)" "unat n \<le> length objs"
  shows "ENQUEUE_PTRS r h objs n = Some (r\<lparr>slots := wr (slots r) (unat h) (take (unat n) objs)\<rparr>)"
proof -
  obtain k where k: "k \<le> 31" "unat (ring_size r) = 2 ^ k" "length (slots r) = 2 ^ k"
    "ring_mask r = mask k" "unat (ring_capacity r) < 2 ^ k" "2 ^ k \<le> (2 ^ 31 :: nat)"
    using assms(1) by (rule ring_shapeD)
  define idx where "idx = h AND ring_mask r"
  define xs where "xs = take (unat n) objs"
  have lx: "length xs = unat n" using assms by (simp add: xs_def)
  have i: "unat idx = unat h mod 2 ^ k" using k by (simp add: idx_def unat_and_mask)
  then have il: "unat idx < 2 ^ k" by simp
  have w: "wr (slots r) (unat idx) xs = wr (slots r) (unat h) xs" by (simp add: i k(3)[symmetric] wr_mod)
  have s: "unat (idx + n) = unat idx + unat n"
    using il assms(2) k by (intro unat_plus_simple) simp
  show ?thesis
  proof (cases "idx + n < ring_size r")
    case True
    then have "unat idx + length xs \<le> length (slots r)" using s k lx by (simp add: word_less_nat_alt)
    then have "enqueue_from (slots r) idx xs = Some (wr (slots r) (unat h) xs)"
      using k by (simp add: enqueue_from_wr w)
    with True assms show ?thesis
      by (simp add: ENQUEUE_PTRS_def Let_def idx_def [symmetric] xs_def [symmetric] enqueue_unrolled_simple)
  next
    case False
    define m where "m = 2 ^ k - unat idx"
    have m: "m \<le> length xs" "m + unat idx = 2 ^ k" using False s k lx il
      by (simp_all add: word_less_nat_alt m_def)
    have 1: "enqueue_to_end (slots r) (ring_size r) idx xs = Some (wr (slots r) (unat idx) (take m xs), drop m xs)"
      using m k il by (subst enqueue_to_end_wr) (simp_all add: m_def)
    have 2: "enqueue_from (wr (slots r) (unat idx) (take m xs)) 0 (drop m xs) =
        Some (wr (wr (slots r) (unat idx) (take m xs)) 0 (drop m xs))"
      using lx m assms(2) k by (subst enqueue_from_wr) simp_all
    have "wr (slots r) (unat h) xs = wr (slots r) (unat idx) (take m xs @ drop m xs)" by (simp add: w)
    also have "\<dots> = wr (wr (slots r) (unat idx) (take m xs)) (2 ^ k) (drop m xs)"
      unfolding wr_append using m by (simp add: min_def add.commute)
    also have "\<dots> = wr (wr (slots r) (unat idx) (take m xs)) 0 (drop m xs)"
      by (rule wr_cong_mod) (simp add: k)
    finally have 3: "wr (wr (slots r) (unat idx) (take m xs)) 0 (drop m xs) = wr (slots r) (unat h) xs"
      by (rule sym)
    show ?thesis using False assms
      by (simp add: ENQUEUE_PTRS_def Let_def idx_def [symmetric] xs_def [symmetric] 1 2 3)
  qed
qed

lemma DEQUEUE_PTRS_seg:
  assumes "ring_shape r" "unat n \<le> unat (ring_capacity r)"
  shows "DEQUEUE_PTRS r h n = Some (seg (slots r) (unat h) (unat n))"
proof -
  obtain k where k: "k \<le> 31" "unat (ring_size r) = 2 ^ k" "length (slots r) = 2 ^ k"
    "ring_mask r = mask k" "unat (ring_capacity r) < 2 ^ k" "2 ^ k \<le> (2 ^ 31 :: nat)"
    using assms(1) by (rule ring_shapeD)
  define idx where "idx = h AND ring_mask r"
  have i: "unat idx = unat h mod 2 ^ k" using k by (simp add: idx_def unat_and_mask)
  then have il: "unat idx < 2 ^ k" by simp
  have w: "seg (slots r) (unat idx) m = seg (slots r) (unat h) m" for m
    by (rule seg_cong_mod) (simp add: i k)
  have s: "unat (idx + n) = unat idx + unat n"
    using il assms(2) k by (intro unat_plus_simple) simp
  show ?thesis
  proof (cases "idx + n < ring_size r")
    case True
    then have "dequeue_from (slots r) idx (unat n) = Some (seg (slots r) (unat h) (unat n))"
      using s k by (simp add: word_less_nat_alt dequeue_from_seg w)
    with True show ?thesis
      by (simp add: DEQUEUE_PTRS_def Let_def idx_def [symmetric] dequeue_unrolled_simple)
  next
    case False
    define m where "m = 2 ^ k - unat idx"
    have m: "m \<le> unat n" "unat idx + m = 2 ^ k" using False s k il
      by (simp_all add: word_less_nat_alt m_def)
    have 1: "dequeue_to_end (slots r) (ring_size r) idx = Some (seg (slots r) (unat h) m)"
      using k il by (subst dequeue_to_end_seg) (simp_all add: m_def w)
    have 2: "dequeue_from (slots r) 0 (unat n - m) = Some (seg (slots r) 0 (unat n - m))"
      using assms(2) k by (subst dequeue_from_seg) simp_all
    have "seg (slots r) (unat h) (unat n) = seg (slots r) (unat idx) (m + (unat n - m))"
      using m by (simp add: w)
    also have "\<dots> = seg (slots r) (unat h) m @ seg (slots r) (2 ^ k) (unat n - m)"
      by (simp only: seg_append m w)
    also have "seg (slots r) (2 ^ k) (unat n - m) = seg (slots r) 0 (unat n - m)"
      by (rule seg_cong_mod) (simp add: k)
    finally show ?thesis using False
      by (simp add: DEQUEUE_PTRS_def Let_def idx_def [symmetric] 1 2)
  qed
qed

section \<open>Enqueue and dequeue refine a bounded queue\<close>

text \<open>How many of the objects asked for an operation handles when only some can be.\<close>

definition fits :: "rte_ring_queue_behavior \<Rightarrow> nat \<Rightarrow> nat \<Rightarrow> nat" where
  "fits behavior n avail =
     (if n \<le> avail then n else if behavior = RTE_RING_QUEUE_FIXED then 0 else avail)"

lemma fits_le [simp]: "fits behavior n avail \<le> n" "fits behavior n avail \<le> avail"
  by (simp_all add: fits_def)

lemma move_prod_head_eq:
  "rte_ring_move_prod_head r is_sp max_n behavior =
     (let free = ring_capacity r + tail (cons r) - head (prod r);
          n = of_nat (fits behavior (unat max_n) (unat free))
      in Some (r\<lparr>prod := (prod r)\<lparr>head := head (prod r) + n\<rparr>\<rparr>, n, head (prod r), head (prod r) + n, free))"
  by (subst rte_ring_move_prod_head.simps)
    (auto simp: Let_def fits_def rte_atomic32_cmpset_def word_le_nat_alt word_less_nat_alt)

lemma move_cons_head_eq:
  "rte_ring_move_cons_head r is_sc max_n behavior =
     (let entries = tail (prod r) - head (cons r);
          n = of_nat (fits behavior (unat max_n) (unat entries))
      in Some (r\<lparr>cons := (cons r)\<lparr>head := head (cons r) + n\<rparr>\<rparr>, n, head (cons r), head (cons r) + n, entries))"
  by (subst rte_ring_move_cons_head.simps)
    (auto simp: Let_def fits_def rte_atomic32_cmpset_def word_le_nat_alt word_less_nat_alt)

lemma unat_of_nat_fits [simp]:
  fixes n :: u32
  shows "unat (of_nat (fits behavior (unat n) m) :: u32) = fits behavior (unat n) m"
proof -
  have "fits behavior (unat n) m \<le> unat n" by simp
  also have "\<dots> < 2 ^ LENGTH(32)" by (rule unat_lt_2p)
  finally show ?thesis by (intro unat_of_nat_small) simp
qed

definition ring_free :: "'a rte_ring \<Rightarrow> nat" where
  "ring_free r = unat (ring_capacity r) - ring_used r"

lemma ring_free_word:
  assumes "ring_inv r"
  shows "unat (ring_capacity r + tail (cons r) - head (prod r)) = ring_free r"
proof -
  have "tail (prod r) - tail (cons r) \<le> ring_capacity r"
    using assms by (simp add: ring_inv_def ring_used_def word_le_nat_alt)
  then have "unat (ring_capacity r - (tail (prod r) - tail (cons r))) = ring_free r"
    by (simp add: unat_sub_simple ring_free_def ring_used_def)
  moreover have "ring_capacity r + tail (cons r) - head (prod r) = ring_capacity r - (tail (prod r) - tail (cons r))"
    using assms by (simp add: ring_inv_def)
  ultimately show ?thesis by (simp only:)
qed

lemma ring_list_length [simp]: "length (ring_list r) = ring_used r"
  by (simp add: ring_list_def)

lemma do_enqueue_run:
  assumes inv: "ring_inv r" and n: "unat n \<le> length objs"
    and k_def: "k = fits behavior (unat n) (ring_free r)"
  shows "rte_ring_do_enqueue r objs n behavior is_sp =
    Some (r\<lparr>prod := (prod r)\<lparr>head := head (prod r) + of_nat k, tail := tail (prod r) + of_nat k\<rparr>,
            slots := wr (slots r) (unat (tail (prod r))) (take k objs)\<rparr>,
          of_nat k, of_nat (ring_free r - k))"
proof -
  have shape: "ring_shape r" and ht: "head (prod r) = tail (prod r)"
    using inv by (simp_all add: ring_inv_def)
  have fr: "unat (ring_capacity r + tail (cons r) - head (prod r)) = ring_free r"
    using inv by (rule ring_free_word)
  then have fw: "ring_capacity r + tail (cons r) - head (prod r) = of_nat (ring_free r)" by (rule word_of_unat)
  have kf: "k \<le> ring_free r" "k \<le> unat n" by (simp_all add: k_def)
  then have sub: "of_nat (ring_free r) - of_nat k = (of_nat (ring_free r - k) :: u32)" by simp
  have uk: "unat (of_nat k :: u32) = k" by (simp add: k_def)
  let ?r = "r\<lparr>prod := (prod r)\<lparr>head := tail (prod r) + of_nat k\<rparr>\<rparr>"
  have "ENQUEUE_PTRS ?r (tail (prod r)) objs (of_nat k) =
      Some (?r\<lparr>slots := wr (slots r) (unat (tail (prod r))) (take k objs)\<rparr>)"
    using ENQUEUE_PTRS_wr [of ?r "of_nat k" objs "tail (prod r)"] shape kf n
    by (simp add: uk ring_shape_def ring_free_def)
  moreover have "(of_nat k :: u32) = 0 \<longleftrightarrow> k = 0" using uk by (rule of_nat_0_exact)
  moreover have "rte_ring_move_prod_head r is_sp n behavior =
      Some (?r, of_nat k, tail (prod r), tail (prod r) + of_nat k, of_nat (ring_free r))"
    unfolding move_prod_head_eq Let_def fr k_def [symmetric] unfolding fw by (simp only: ht)
  ultimately show ?thesis
    unfolding rte_ring_do_enqueue_def
    by (cases "k = 0") (simp_all add: update_tail_def ht sub del: of_nat_diff)
qed

lemma do_dequeue_run:
  assumes inv: "ring_inv r" and k_def: "k = fits behavior (unat n) (ring_used r)"
  shows "rte_ring_do_dequeue r n behavior is_sc =
    Some (r\<lparr>cons := (cons r)\<lparr>head := head (cons r) + of_nat k, tail := tail (cons r) + of_nat k\<rparr>\<rparr>,
          take k (ring_list r), of_nat (ring_used r - k))"
proof -
  have shape: "ring_shape r" and ht: "head (cons r) = tail (cons r)"
    using inv by (simp_all add: ring_inv_def)
  have er: "unat (tail (prod r) - head (cons r)) = ring_used r"
    by (simp add: ring_used_def ht)
  then have ew: "tail (prod r) - head (cons r) = of_nat (ring_used r)" by (rule word_of_unat)
  have kf: "k \<le> ring_used r" by (simp add: k_def)
  then have sub: "of_nat (ring_used r) - of_nat k = (of_nat (ring_used r - k) :: u32)" by simp
  have uk: "unat (of_nat k :: u32) = k" by (simp add: k_def)
  let ?r = "r\<lparr>cons := (cons r)\<lparr>head := tail (cons r) + of_nat k\<rparr>\<rparr>"
  have "k \<le> unat (ring_capacity r)" using kf inv by (simp add: ring_inv_def)
  then have "DEQUEUE_PTRS ?r (tail (cons r)) (of_nat k) = Some (take k (ring_list r))"
    using DEQUEUE_PTRS_seg [of ?r "of_nat k" "tail (cons r)"] shape kf
    by (simp add: uk ring_shape_def ring_list_def take_seg)
  moreover have "(of_nat k :: u32) = 0 \<longleftrightarrow> k = 0" using uk by (rule of_nat_0_exact)
  moreover have "rte_ring_move_cons_head r is_sc n behavior =
      Some (?r, of_nat k, tail (cons r), tail (cons r) + of_nat k, of_nat (ring_used r))"
    unfolding move_cons_head_eq Let_def er k_def [symmetric] unfolding ew by (simp only: ht)
  ultimately show ?thesis
    unfolding rte_ring_do_dequeue_def
    by (cases "k = 0") (simp_all add: update_tail_def ht sub del: of_nat_diff)
qed

lemma ring_used_capacity: "ring_inv r \<Longrightarrow> ring_used r + ring_free r = unat (ring_capacity r)"
  by (simp add: ring_inv_def ring_free_def)

lemma ring_push:
  assumes inv: "ring_inv r" and k: "length xs \<le> ring_free r"
  defines "r' \<equiv> r\<lparr>prod := (prod r)\<lparr>head := head (prod r) + of_nat (length xs), tail := tail (prod r) + of_nat (length xs)\<rparr>,
            slots := wr (slots r) (unat (tail (prod r))) xs\<rparr>"
  shows "ring_inv r'" "ring_list r' = ring_list r @ xs" "ring_free r' = ring_free r - length xs"
proof -
  obtain m where m: "m \<le> 31" "length (slots r) = 2 ^ m" "unat (ring_capacity r) < 2 ^ m" "2 ^ m \<le> (2 ^ 31 :: nat)"
    using inv by (auto simp: ring_inv_def elim: ring_shapeD)
  have cap: "ring_used r + length xs \<le> unat (ring_capacity r)"
    using k ring_used_capacity [OF inv] by simp
  have ul: "unat (of_nat (length xs) :: u32) = length xs"
    using cap m by (intro unat_of_nat_small) simp
  have "tail (prod r) + of_nat (length xs) - tail (cons r) = (tail (prod r) - tail (cons r)) + of_nat (length xs)"
    by simp
  also have "unat \<dots> = ring_used r + length xs"
    unfolding ring_used_def using cap m ul by (subst unat_plus_simple) (simp_all add: ring_used_def)
  finally have used: "ring_used r' = ring_used r + length xs" by (simp add: r'_def ring_used_def)
  show "ring_inv r'" using inv cap used by (simp add: ring_inv_def ring_shape_def r'_def)
  show "ring_free r' = ring_free r - length xs" using used by (simp add: ring_free_def r'_def)
  have "wr (slots r) (unat (tail (prod r))) xs = wr (slots r) (unat (tail (cons r)) + ring_used r) xs"
    using m mod_diff_counter [of m "tail (cons r)" "tail (prod r)"]
    by (intro wr_cong_mod) (simp add: ring_used_def)
  then show "ring_list r' = ring_list r @ xs"
    using seg_wr [of "ring_used r" xs "slots r" "unat (tail (cons r))"] cap m used
    by (simp add: ring_list_def r'_def)
qed

lemma ring_pop:
  assumes inv: "ring_inv r" and k: "k \<le> ring_used r"
  defines "r' \<equiv> r\<lparr>cons := (cons r)\<lparr>head := head (cons r) + of_nat k, tail := tail (cons r) + of_nat k\<rparr>\<rparr>"
  shows "ring_inv r'" "ring_list r' = drop k (ring_list r)" "ring_free r' = ring_free r + k"
proof -
  obtain m where m: "m \<le> 31" "length (slots r) = 2 ^ m" "unat (ring_capacity r) < 2 ^ m" "2 ^ m \<le> (2 ^ 31 :: nat)"
    using inv by (auto simp: ring_inv_def elim: ring_shapeD)
  have cap: "ring_used r \<le> unat (ring_capacity r)" using inv by (simp add: ring_inv_def)
  have ul: "unat (of_nat k :: u32) = k" using k cap m by (intro unat_of_nat_small) simp
  have "tail (prod r) - (tail (cons r) + of_nat k) = (tail (prod r) - tail (cons r)) - of_nat k" by simp
  also have "unat \<dots> = ring_used r - k"
    using k ul by (subst unat_sub_simple) (simp_all add: ring_used_def word_le_nat_alt)
  finally have used: "ring_used r' = ring_used r - k" by (simp add: r'_def ring_used_def)
  show "ring_inv r'" using inv cap used by (simp add: ring_inv_def ring_shape_def r'_def)
  show "ring_free r' = ring_free r + k"
    using used k cap by (simp add: ring_free_def r'_def)
  have "unat (tail (cons r) + of_nat k) mod 2 ^ m = (unat (tail (cons r)) + k) mod 2 ^ m"
    using mod_diff_counter [OF m(1), of "tail (cons r)" "tail (cons r) + of_nat k"] ul by simp
  then have "seg (slots r) (unat (tail (cons r) + of_nat k)) j = seg (slots r) (unat (tail (cons r)) + k) j" for j
    using m by (intro seg_cong_mod) simp
  then show "ring_list r' = drop k (ring_list r)"
    using used k by (simp add: ring_list_def r'_def drop_seg)
qed

section \<open>The queue interface\<close>

text \<open>
  What a client may rely on: a queue with room for a bounded number of objects, whose
  operations take a request and handle the part of it that \<open>accept\<close> allows. Requests are
  shorter than \<open>lim\<close>.
\<close>

locale bounded_fifo =
  fixes inv :: "'q \<Rightarrow> bool" and contents :: "'q \<Rightarrow> 'a list" and room :: "'q \<Rightarrow> nat"
    and accept accept_deq :: "nat \<Rightarrow> nat \<Rightarrow> nat" and lim :: nat
    and enq :: "'q \<Rightarrow> 'a list \<Rightarrow> ('q \<times> nat) option" and deq :: "'q \<Rightarrow> nat \<Rightarrow> ('q \<times> 'a list) option"
  assumes accept_le: "accept n m \<le> n" "accept n m \<le> m" "accept_deq n m \<le> n" "accept_deq n m \<le> m"
    and enq: "inv q \<Longrightarrow> length xs < lim \<Longrightarrow> \<exists>q'. enq q xs = Some (q', accept (length xs) (room q)) \<and>
      inv q' \<and> contents q' = contents q @ take (accept (length xs) (room q)) xs \<and>
      room q' = room q - accept (length xs) (room q)"
    and deq: "inv q \<Longrightarrow> n < lim \<Longrightarrow>
      \<exists>q'. deq q n = Some (q', take (accept_deq n (length (contents q))) (contents q)) \<and>
      inv q' \<and> contents q' = drop (accept_deq n (length (contents q))) (contents q) \<and>
      room q' = room q + accept_deq n (length (contents q))"

datatype 'a fifo_op = Enq "'a list" | Deq nat

text \<open>A run of operations: the final queue, the objects accepted and the objects returned.\<close>

primrec fifo_run ::
  "('q \<Rightarrow> 'a list \<Rightarrow> ('q \<times> nat) option) \<Rightarrow> ('q \<Rightarrow> nat \<Rightarrow> ('q \<times> 'a list) option) \<Rightarrow>
   'a fifo_op list \<Rightarrow> 'q \<Rightarrow> ('q \<times> 'a list \<times> 'a list) option" where
  "fifo_run enq deq [] q = Some (q, [], [])"
| "fifo_run enq deq (op # ops) q = (case op of
     Enq xs \<Rightarrow> do { (q, k) \<leftarrow> enq q xs;
                   (q, ins, outs) \<leftarrow> fifo_run enq deq ops q;
                   Some (q, take k xs @ ins, outs) }
   | Deq n \<Rightarrow> do { (q, ys) \<leftarrow> deq q n;
                  (q, ins, outs) \<leftarrow> fifo_run enq deq ops q;
                  Some (q, ins, ys @ outs) })"

primrec op_below :: "nat \<Rightarrow> 'a fifo_op \<Rightarrow> bool" where
  "op_below lim (Enq xs) = (length xs < lim)"
| "op_below lim (Deq n) = (n < lim)"

context bounded_fifo
begin

lemma run_fifo:
  assumes "inv q" "list_all (op_below lim) ops"
  shows "\<exists>q' ins outs. fifo_run enq deq ops q = Some (q', ins, outs) \<and> inv q' \<and>
    contents q @ ins = outs @ contents q' \<and>
    length (contents q') + room q' = length (contents q) + room q"
  using assms
proof (induction ops arbitrary: q)
  case (Cons op ops)
  show ?case
  proof (cases op)
    case (Enq xs)
    define k where "k = accept (length xs) (room q)"
    obtain q1 where q1: "enq q xs = Some (q1, k)" "inv q1" "contents q1 = contents q @ take k xs"
        "room q1 = room q - k"
      using enq [of q xs] Cons.prems Enq by (auto simp: k_def)
    obtain q' ins outs where "fifo_run enq deq ops q1 = Some (q', ins, outs)" "inv q'"
        "contents q1 @ ins = outs @ contents q'"
        "length (contents q') + room q' = length (contents q1) + room q1"
      using Cons.IH [of q1] q1 Cons.prems by auto
    then show ?thesis using q1 accept_le(1,2) [of "length xs" "room q"] Enq
      by (simp add: k_def [symmetric])
  next
    case (Deq n)
    define k where "k = accept_deq n (length (contents q))"
    obtain q1 where q1: "deq q n = Some (q1, take k (contents q))" "inv q1"
        "contents q1 = drop k (contents q)" "room q1 = room q + k"
      using deq [of q n] Cons.prems Deq by (auto simp: k_def)
    obtain q' ins outs where r: "fifo_run enq deq ops q1 = Some (q', ins, outs)" "inv q'"
        "contents q1 @ ins = outs @ contents q'"
        "length (contents q') + room q' = length (contents q1) + room q1"
      using Cons.IH [of q1] q1 Cons.prems by auto
    have "contents q @ ins = take k (contents q) @ outs @ contents q'"
      using q1(3) r(3) by (metis append_assoc append_take_drop_id)
    then show ?thesis using q1 r accept_le(3,4) [of n "length (contents q)"] Deq
      by (simp add: k_def [symmetric])
  qed
qed simp

end

text \<open>The ring through this interface, in any mode.\<close>

definition ring_enq :: "rte_ring_queue_behavior \<Rightarrow> bool \<Rightarrow> 'a rte_ring \<Rightarrow> 'a list \<Rightarrow> ('a rte_ring \<times> nat) option" where
  "ring_enq behavior is_sp r xs = do {
     (r, n, free) \<leftarrow> rte_ring_do_enqueue r xs (of_nat (length xs)) behavior is_sp;
     Some (r, unat n) }"

definition ring_deq :: "rte_ring_queue_behavior \<Rightarrow> bool \<Rightarrow> 'a rte_ring \<Rightarrow> nat \<Rightarrow> ('a rte_ring \<times> 'a list) option" where
  "ring_deq behavior is_sc r n = do {
     (r, objs, avail) \<leftarrow> rte_ring_do_dequeue r (of_nat n) behavior is_sc;
     Some (r, objs) }"

lemma ring_enqueue_spec:
  assumes inv: "ring_inv r" and n: "unat n \<le> length objs"
    and k: "k = fits behavior (unat n) (ring_free r)"
  shows "\<exists>r'. rte_ring_do_enqueue r objs n behavior is_sp = Some (r', of_nat k, of_nat (ring_free r - k)) \<and>
    ring_inv r' \<and> ring_list r' = ring_list r @ take k objs \<and> ring_free r' = ring_free r - k \<and>
    ring_capacity r' = ring_capacity r \<and> ring_size r' = ring_size r"
proof -
  have "k \<le> unat n" "k \<le> ring_free r" by (simp_all add: k)
  then have l: "length (take k objs) = k" "k \<le> ring_free r" using n by simp_all
  show ?thesis
    using do_enqueue_run [OF inv n k] ring_push [OF inv, of "take k objs"] l by simp
qed

lemma ring_dequeue_spec:
  assumes inv: "ring_inv r" and k: "k = fits behavior (unat n) (ring_used r)"
  shows "\<exists>r'. rte_ring_do_dequeue r n behavior is_sc = Some (r', take k (ring_list r), of_nat (ring_used r - k)) \<and>
    ring_inv r' \<and> ring_list r' = drop k (ring_list r) \<and> ring_free r' = ring_free r + k \<and>
    ring_capacity r' = ring_capacity r \<and> ring_size r' = ring_size r"
  using do_dequeue_run [OF inv k] ring_pop [OF inv, of k] by (simp add: k)

interpretation ring: bounded_fifo ring_inv ring_list ring_free "fits behavior" "fits behavior'" "2 ^ 32"
  "ring_enq behavior is_sp" "ring_deq behavior' is_sc" for behavior behavior' is_sp is_sc
proof
  fix q :: "'a rte_ring" and xs :: "'a list"
  assume q: "ring_inv q" "length xs < 2 ^ 32"
  then have u: "unat (of_nat (length xs) :: u32) = length xs" by (intro unat_of_nat_small) simp
  let ?k = "fits behavior (length xs) (ring_free q)"
  have uk: "unat (of_nat ?k :: u32) = ?k" using unat_of_nat_fits [of behavior "of_nat (length xs)"] by (simp only: u)
  show "\<exists>q'. ring_enq behavior is_sp q xs = Some (q', ?k) \<and> ring_inv q' \<and>
      ring_list q' = ring_list q @ take ?k xs \<and> ring_free q' = ring_free q - ?k"
    using ring_enqueue_spec [OF q(1), of "of_nat (length xs)" xs ?k behavior is_sp] uk
    by (auto simp: ring_enq_def u)
next
  fix q :: "'a rte_ring" and n :: nat
  assume q: "ring_inv q" "n < 2 ^ 32"
  then have u: "unat (of_nat n :: u32) = n" by (intro unat_of_nat_small) simp
  let ?k = "fits behavior' n (length (ring_list q))"
  show "\<exists>q'. ring_deq behavior' is_sc q n = Some (q', take ?k (ring_list q)) \<and> ring_inv q' \<and>
      ring_list q' = drop ?k (ring_list q) \<and> ring_free q' = ring_free q + ?k"
    using ring_dequeue_spec [OF q(1), of ?k behavior' "of_nat n" is_sc] by (auto simp: ring_deq_def u)
qed simp_all

section \<open>Counters and creation\<close>

lemma ring_count_used:
  assumes "ring_inv r"
  shows "unat (rte_ring_count r) = ring_used r"
proof -
  obtain k where k: "k \<le> 31" "ring_mask r = mask k" "unat (ring_capacity r) < 2 ^ k"
    using assms by (auto simp: ring_inv_def elim: ring_shapeD)
  have le: "ring_used r \<le> unat (ring_capacity r)" using assms by (simp add: ring_inv_def)
  have "unat ((tail (prod r) - tail (cons r)) AND ring_mask r) = ring_used r"
    using k le by (simp add: unat_and_mask ring_used_def)
  then show ?thesis using le by (simp add: rte_ring_count_def Let_def word_less_nat_alt)
qed

lemma ring_free_count_free:
  assumes "ring_inv r"
  shows "unat (rte_ring_free_count r) = ring_free r"
proof -
  have "rte_ring_count r \<le> ring_capacity r"
    using assms ring_count_used [OF assms] by (simp add: word_le_nat_alt ring_inv_def)
  then show ?thesis
    using ring_count_used [OF assms] by (simp add: rte_ring_free_count_def unat_sub_simple ring_free_def)
qed

lemma powerof2_iff: "POWEROF2 x \<longleftrightarrow> x = 0 \<or> (\<exists>k < 32. x = 2 ^ k)"
  using power_of_2_iff [of x] by (auto simp: POWEROF2_def rte_is_power_of_2_def and.commute)

lemma ring_size_pow2:
  assumes "POWEROF2 cnt" "cnt \<le> RTE_RING_SZ_MASK" "cnt \<noteq> 0"
  shows "\<exists>k \<le> 31. cnt = 2 ^ k"
proof -
  obtain k where k: "k < 32" "cnt = 2 ^ k" using assms(1,3) powerof2_iff by blast
  moreover have "k \<noteq> 31"
  proof
    assume "k = 31"
    then have "cnt = 2 ^ 31" using k by simp
    with assms(2) show False by (simp add: RTE_RING_SZ_MASK_def)
  qed
  ultimately show ?thesis by (intro exI [of _ k]) simp
qed

lemma fresh_ring_inv:
  assumes "\<exists>k \<le> 31. ring_size r = 2 ^ k" "ring_mask r = ring_size r - 1"
    "ring_capacity r < ring_size r" "length (slots r) = unat (ring_size r)"
    "head (prod r) = 0" "tail (prod r) = 0" "head (cons r) = 0" "tail (cons r) = 0"
  shows "ring_inv r" "ring_list r = []"
  using assms by (simp_all add: ring_inv_def ring_shape_def ring_used_def ring_list_def seg_def)

lemma init_fixed_inv:
  assumes "length nm < RTE_MEMZONE_NAMESIZE" "flags AND RING_F_EXACT_SZ = 0"
    "POWEROF2 cnt" "cnt \<le> RTE_RING_SZ_MASK" "cnt \<noteq> 0" "length table = unat cnt"
  shows "\<exists>r. rte_ring_init table nm cnt flags = (r, None) \<and> ring_inv r \<and> ring_list r = [] \<and>
    ring_size r = cnt \<and> ring_capacity r = cnt - 1 \<and> ring_name r = nm"
proof -
  obtain k where k: "k \<le> 31" "cnt = 2 ^ k" using ring_size_pow2 [OF assms(3-5)] by blast
  then have "cnt - 1 < cnt" by (simp add: word_less_nat_alt unat_2p unat_2p_minus_1)
  with assms k show ?thesis
    by (auto simp: rte_ring_init_def Let_def zero_ring_def intro!: fresh_ring_inv)
qed

lemma init_exact_inv:
  assumes "length nm < RTE_MEMZONE_NAMESIZE" "flags AND RING_F_EXACT_SZ \<noteq> 0" "unat cnt < 2 ^ 31"
    "length table = unat (rte_align32pow2 (cnt + 1))"
  shows "\<exists>r. rte_ring_init table nm cnt flags = (r, None) \<and> ring_inv r \<and> ring_list r = [] \<and>
    ring_size r = rte_align32pow2 (cnt + 1) \<and> ring_capacity r = cnt \<and> ring_name r = nm"
proof -
  have u: "unat (cnt + 1) = unat cnt + 1" using assms(3) by (subst unat_plus_simple) simp_all
  have "1 \<le> unat (cnt + 1)" "unat (cnt + 1) \<le> 2 ^ 31" unfolding u using assms(3) by linarith+
  then obtain k where k: "k \<le> 31" "rte_align32pow2 (cnt + 1) = 2 ^ k" "unat (cnt + 1) \<le> 2 ^ k"
    using align32pow2_least [of "cnt + 1"] by blast
  have "cnt < 2 ^ k" using k u by (simp add: word_less_nat_alt unat_2p)
  with assms k show ?thesis
    by (auto simp: rte_ring_init_def Let_def zero_ring_def intro!: fresh_ring_inv)
qed

lemma ring_find_snoc:
  assumes "\<And>b. b \<in> set tq \<Longrightarrow> \<exists>r. m b = Some r \<and> take RTE_RING_NAMESIZE nm \<noteq> take RTE_RING_NAMESIZE (ring_name r)"
    "m a = Some r" "ring_name r = nm"
  shows "ring_find m nm (tq @ [a]) = Some (Some a)"
  using assms by (induction tq) force+

text \<open>A small ring for the examples: four slots, three usable entries.\<close>

definition ring4 :: "nat rte_ring" where
  "ring4 = fst (rte_ring_init [0, 0, 0, 0] ''r'' 4 0)"

lemmas ring_init_eval = rte_ring_init_def zero_ring_def RTE_MEMZONE_NAMESIZE_def RING_F_EXACT_SZ_def
  RING_F_SP_ENQ_def RING_F_SC_DEQ_def POWEROF2_def RTE_RING_SZ_MASK_def Let_def

lemma ring4_inv: "ring_inv ring4" "ring_list ring4 = []" "ring_free ring4 = 3"
proof -
  have s: "ring_size ring4 = 2 ^ 2" "ring_mask ring4 = 3" "ring_capacity ring4 = 3" "length (slots ring4) = 4"
    "head (prod ring4) = 0" "tail (prod ring4) = 0" "head (cons ring4) = 0" "tail (cons ring4) = 0"
    by (simp_all add: ring4_def ring_init_eval)
  show "ring_inv ring4" "ring_list ring4 = []"
    by (rule fresh_ring_inv; (use s in \<open>auto intro!: exI [of _ 2]\<close>))+
  show "ring_free ring4 = 3" by (simp add: ring_free_def ring_used_def s)
qed

section \<open>Properties\<close>

text \<open>
  C25: whatever sequence of bulk or burst enqueues and dequeues runs on a ring, in single or
  multi producer and consumer mode, every call returns, and the objects returned followed by the
  objects left are the objects that were there followed by the accepted ones: first in, first
  out, none lost, none invented. The free-running 32-bit counters may wrap any number of times.
\<close>

theorem ring_fifo:
  assumes "ring_inv r" and "list_all (op_below (2 ^ 32)) ops"
  shows "\<exists>r' ins outs. fifo_run (ring_enq behavior is_sp) (ring_deq behavior' is_sc) ops r = Some (r', ins, outs) \<and>
    ring_inv r' \<and> ring_list r @ ins = outs @ ring_list r' \<and>
    length (ring_list r') + ring_free r' = length (ring_list r) + ring_free r"
  using ring.run_fifo assms by blast

theorem ring_fifo_witness:
  "\<exists>r' ins outs. fifo_run (ring_enq RTE_RING_QUEUE_FIXED False) (ring_deq RTE_RING_QUEUE_VARIABLE True)
      [Enq [1, 2], Deq 1, Enq [3, 4, 5], Enq [6], Deq 9] ring4 = Some (r', ins, outs) \<and>
    ins = outs @ ring_list r'"
  using ring_fifo [of ring4 "[Enq [1, 2], Deq 1, Enq [3, 4, 5], Enq [6], Deq 9]"
      RTE_RING_QUEUE_FIXED False RTE_RING_QUEUE_VARIABLE True]
  by (auto simp: ring4_inv)

text \<open>
  C31: an enqueue of \<open>n\<close> objects takes all of them when they fit; otherwise the bulk variants
  (fixed behaviour) change nothing and return 0, and the burst variants take as many as there is
  room for. The free space reported is the room left.
\<close>

theorem ring_enqueue_behaviour:
  assumes "ring_inv r" and "unat n \<le> length objs"
  shows "\<exists>r'. rte_ring_do_enqueue r objs n behavior is_sp =
      Some (r', of_nat (fits behavior (unat n) (ring_free r)),
            of_nat (ring_free r - fits behavior (unat n) (ring_free r))) \<and>
    ring_inv r' \<and> ring_list r' = ring_list r @ take (fits behavior (unat n) (ring_free r)) objs"
  using ring_enqueue_spec [OF assms refl] by blast

theorem ring_enqueue_behaviour_witness:
  "\<exists>r'. rte_ring_do_enqueue ring4 [7, 8, 9, 10, 11] 5 RTE_RING_QUEUE_VARIABLE True = Some (r', 3, 0) \<and>
    ring_list r' = [7, 8, 9]"
  using ring_enqueue_behaviour [of ring4 5 "[7, 8, 9, 10, 11]" RTE_RING_QUEUE_VARIABLE True]
  by (auto simp: ring4_inv fits_def)

text \<open>
  The copy loops unrolled four times, with their fall-through tail, store and load
  exactly what the loops over single objects do, for every index and every number of objects.
\<close>

theorem unrolled_copies_agree:
  "enqueue_unrolled ring idx objs = enqueue_from ring idx objs \<and>
   dequeue_unrolled ring idx n = dequeue_from ring idx n"
  by (simp add: enqueue_unrolled_simple dequeue_unrolled_simple)

text \<open>
  On a ring at rest \<^verbatim>\<open>rte_ring_count\<close> and \<^verbatim>\<open>rte_ring_free_count\<close> are the number
  of objects and the room left, and the full and empty tests agree with them.
\<close>

theorem ring_counts:
  assumes "ring_inv r"
  shows "unat (rte_ring_count r) = length (ring_list r) \<and> unat (rte_ring_free_count r) = ring_free r \<and>
    (rte_ring_empty r \<longleftrightarrow> ring_list r = []) \<and>
    (rte_ring_full r \<longleftrightarrow> length (ring_list r) = unat (rte_ring_get_capacity r))"
proof -
  have "rte_ring_count r = 0 \<longleftrightarrow> ring_used r = 0" using ring_count_used [OF assms] by (metis unat_eq_zero unat_0)
  moreover have "rte_ring_free_count r = 0 \<longleftrightarrow> ring_free r = 0"
    using ring_free_count_free [OF assms] by (metis unat_eq_zero unat_0)
  moreover have "ring_free r = 0 \<longleftrightarrow> ring_used r = unat (ring_capacity r)"
    using ring_used_capacity [OF assms] by linarith
  moreover have "ring_used r = 0 \<longleftrightarrow> ring_list r = []" by (metis length_0_conv ring_list_length)
  ultimately show ?thesis
    using ring_count_used [OF assms] ring_free_count_free [OF assms]
    by (simp add: rte_ring_empty_def rte_ring_full_def rte_ring_get_capacity_def)
qed

theorem ring_counts_witness: "unat (rte_ring_free_count ring4) = 3 \<and> rte_ring_empty ring4"
  using ring_counts [of ring4] by (simp add: ring4_inv)

text \<open>
  \<^verbatim>\<open>rte_ring_init\<close> accepts a size of 0, because 0 passes the power-of-two test: the
  ring claims a capacity of \<open>2 ^ 32 - 1\<close> and an enqueue writes outside its empty object table.
\<close>

theorem ring_init_zero_count:
  "\<exists>r. rte_ring_init [] ''r'' 0 0 = (r, None) \<and> rte_ring_get_capacity r = 0xFFFFFFFF \<and>
    rte_ring_enqueue r obj = None"
  by (simp add: ring_init_eval rte_ring_get_capacity_def rte_ring_enqueue_def rte_ring_enqueue_bulk_def
      enqueue_status_def rte_ring_do_enqueue_def move_prod_head_eq fits_def ENQUEUE_PTRS_def
      enqueue_to_end.simps store_def unsigned_minus_1_eq_mask mask_eq_exp_minus_1)

text \<open>
  \<^verbatim>\<open>rte_ring_init\<close> on a table of the right length gives an empty ring at rest. Without
  the exact-size flag the size must be a power of two and one entry stays unused; with it the
  table is rounded up to a power of two and exactly the requested entries are usable.
\<close>

theorem ring_init_ok:
  assumes "length nm < RTE_MEMZONE_NAMESIZE"
    and "flags AND RING_F_EXACT_SZ = 0 \<Longrightarrow> POWEROF2 cnt \<and> cnt \<le> RTE_RING_SZ_MASK \<and> cnt \<noteq> 0 \<and> length table = unat cnt"
    and "flags AND RING_F_EXACT_SZ \<noteq> 0 \<Longrightarrow> unat cnt < 2 ^ 31 \<and> length table = unat (rte_align32pow2 (cnt + 1))"
  shows "\<exists>r. rte_ring_init table nm cnt flags = (r, None) \<and> ring_inv r \<and> ring_list r = [] \<and>
    rte_ring_get_capacity r = (if flags AND RING_F_EXACT_SZ = 0 then cnt - 1 else cnt)"
  using init_fixed_inv [OF assms(1), of flags cnt table] init_exact_inv [OF assms(1), of flags cnt table] assms(2,3)
  by (cases "flags AND RING_F_EXACT_SZ = 0") (auto simp: rte_ring_get_capacity_def)

theorem ring_init_ok_witness:
  "\<exists>r. rte_ring_init [0 :: nat, 0, 0, 0] ''tx'' 3 RING_F_EXACT_SZ = (r, None) \<and> ring_inv r \<and>
    rte_ring_get_capacity r = 3"
  using ring_init_ok [of "''tx''" RING_F_EXACT_SZ 3 "[0 :: nat, 0, 0, 0]"]
  by (auto simp: RTE_MEMZONE_NAMESIZE_def RING_F_EXACT_SZ_def rte_align32pow2_def rte_combine32ms1b_def Let_def)

text \<open>
  A ring created under a name that no listed ring has is found again by
  \<^verbatim>\<open>rte_ring_lookup\<close> under that name, and it is an empty ring at rest of the requested
  size. The allocator must return a zone that holds as many pointers as the ring asked for.
\<close>

theorem ring_create_lookup:
  assumes "POWEROF2 cnt" "cnt \<le> RTE_RING_SZ_MASK" "cnt \<noteq> 0" "flags AND RING_F_EXACT_SZ = 0"
    and "length nm + 3 < RTE_MEMZONE_NAMESIZE"
    and "reserve (RTE_RING_MZ_PREFIX @ nm) (RTE_ALIGN_CEIL (sizeof_rte_ring + ucast cnt * 8) 64) = Inr mz"
    and "unat cnt \<le> length (mz_words mz)"
    and "\<And>b. b \<in> set (ring_tailq env) \<Longrightarrow> b \<noteq> mz_addr mz \<and> (\<exists>r. ring_mem env b = Some r \<and>
      take RTE_RING_NAMESIZE nm \<noteq> take RTE_RING_NAMESIZE (ring_name r))"
  shows "\<exists>env' r. rte_ring_create True reserve nm cnt flags env = (env', mz_addr mz) \<and>
    rte_ring_lookup nm env' = Some (env', mz_addr mz) \<and> ring_mem env' (mz_addr mz) = Some r \<and>
    ring_inv r \<and> ring_list r = [] \<and> rte_ring_get_size r = cnt"
proof -
  obtain r where r: "rte_ring_init (take (unat cnt) (mz_words mz)) nm cnt flags = (r, None)" "ring_inv r"
      "ring_list r = []" "ring_size r = cnt" "ring_name r = nm"
    using init_fixed_inv [of nm flags cnt "take (unat cnt) (mz_words mz)"] assms by auto
  let ?r = "r\<lparr>ring_memzone := mz_desc mz\<rparr>"
  let ?env = "env\<lparr>ring_mem := (ring_mem env)(mz_addr mz \<mapsto> ?r), ring_tailq := ring_tailq env @ [mz_addr mz]\<rparr>"
  have "rte_ring_create True reserve nm cnt flags env = (?env, mz_addr mz)"
    using assms r by (simp add: rte_ring_create_def rte_ring_get_memsize_def RTE_RING_MZ_PREFIX_def Let_def not_less)
  moreover have "ring_find (ring_mem ?env) nm (ring_tailq ?env) = Some (Some (mz_addr mz))"
    using ring_find_snoc [of "ring_tailq env" "ring_mem ?env" nm "mz_addr mz" ?r] assms(8) r(5) by fastforce
  moreover have "ring_inv ?r \<and> ring_list ?r = []"
    using r by (simp add: ring_inv_def ring_shape_def ring_used_def ring_list_def)
  ultimately show ?thesis using r by (auto simp: rte_ring_lookup_def rte_ring_get_size_def)
qed

definition demo_reserve :: "string \<Rightarrow> u64 \<Rightarrow> errno + nat memzone" where
  "demo_reserve nm sz = Inr \<lparr>mz_desc = 0x1000, mz_addr = 0x2000, mz_words = replicate 8 0\<rparr>"

theorem ring_create_lookup_witness:
  "\<exists>env'. rte_ring_create True demo_reserve ''rx'' 4 0 \<lparr>ring_mem = Map.empty, ring_tailq = [], rte_errno = 0\<rparr> = (env', 0x2000) \<and>
    rte_ring_lookup ''rx'' env' = Some (env', 0x2000)"
  using ring_create_lookup [of 4 0 "''rx''" demo_reserve
      "\<lparr>mz_desc = 0x1000, mz_addr = 0x2000, mz_words = replicate 8 0\<rparr>"
      "\<lparr>ring_mem = Map.empty, ring_tailq = [], rte_errno = 0\<rparr>"]
  by (auto simp: demo_reserve_def POWEROF2_def RTE_RING_SZ_MASK_def RTE_MEMZONE_NAMESIZE_def)

text \<open>
  An invalid size makes \<^verbatim>\<open>rte_ring_create\<close> return NULL with a negative
  \<^verbatim>\<open>rte_errno\<close>, the negated error code, where its documentation names EINVAL itself.
\<close>

theorem ring_create_negative_errno:
  assumes "flags AND RING_F_EXACT_SZ = 0" "\<not> POWEROF2 cnt \<or> cnt > RTE_RING_SZ_MASK"
  shows "rte_ring_create te_ok reserve nm cnt flags env = (env\<lparr>rte_errno := - errno_code EINVAL\<rparr>, NULL)"
  using assms by (auto simp: rte_ring_create_def rte_ring_get_memsize_def Let_def)

theorem ring_create_negative_errno_witness:
  "\<not> POWEROF2 6 \<and> rte_ring_create True demo_reserve ''rx'' 6 0 \<lparr>ring_mem = Map.empty, ring_tailq = [], rte_errno = 0\<rparr> =
    (\<lparr>ring_mem = Map.empty, ring_tailq = [], rte_errno = -22\<rparr>, NULL)"
  using ring_create_negative_errno [of 0 6 True demo_reserve "''rx''" "\<lparr>ring_mem = Map.empty, ring_tailq = [], rte_errno = 0\<rparr>"]
  by (simp add: POWEROF2_def)

end
