(* ===== verification/Mempool.thy ===== *)
theory Mempool
  imports Ring
begin

text \<open>
  Model of the object side of \<^verbatim>\<open>lib/librte_mempool\<close> (\<^verbatim>\<open>rte_mempool.h\<close>,
  \<^verbatim>\<open>rte_mempool_ops.c\<close>): the pool structure, the table of pool drivers, the per-lcore object
  caches and the get and put operations. A driver is a record of functions; what a pool relies on
  is the locale at the end, which the ring and the stack drivers implement.
\<close>

section \<open>Data\<close>

type_synonym iova = u64

definition RTE_BAD_IOVA :: iova where
  "RTE_BAD_IOVA = - 1"

definition RTE_MEMPOOL_CACHE_MAX_SIZE :: u32 where
  "RTE_MEMPOOL_CACHE_MAX_SIZE = 512"

definition RTE_MAX_LCORE :: nat where
  "RTE_MAX_LCORE = 128"

definition RTE_MEMPOOL_MAX_OPS_IDX :: nat where
  "RTE_MEMPOOL_MAX_OPS_IDX = 16"

definition RTE_MEMPOOL_OPS_NAMESIZE :: nat where
  "RTE_MEMPOOL_OPS_NAMESIZE = 32"

record rte_mempool_cache =
  c_size :: u32
  c_flushthresh :: u32
  c_len :: u32
  c_objs :: "addr list"

record rte_mempool_stack =
  st_size :: u32
  st_len :: u32
  st_objs :: "addr list"

text \<open>
  The private data of a driver behind \<^verbatim>\<open>pool_data\<close>; the pool is the only one to use its
  ring or stack, so the structure itself comes with the pointer.
\<close>

datatype pool_data = PoolNone | PoolRing addr "addr rte_ring" | PoolStack rte_mempool_stack

text \<open>The callback that frees a memory chunk, none, the memory zone's or the mapping's.\<close>

datatype memchunk_free_cb = NoFree | MzFree | AnonFree

record rte_mempool_memhdr =
  mh_addr :: addr
  mh_iova :: iova
  mh_len :: u64
  mh_free_cb :: memchunk_free_cb
  mh_opaque :: addr

text \<open>An object header is listed as the address of its object and the object's I/O address.\<close>

record rte_mempool =
  mp_name :: string
  pool_data :: pool_data
  pool_config :: addr
  mp_mz :: addr
  mp_flags :: u32
  socket_id :: int
  mp_size :: u32
  cache_size :: u32
  elt_size :: u32
  header_size :: u32
  trailer_size :: u32
  private_data_size :: u32
  ops_index :: nat
  local_cache :: "rte_mempool_cache list"
  populated_size :: u32
  elt_list :: "(addr \<times> iova) list"
  nb_mem_chunks :: u32
  mem_list :: "rte_mempool_memhdr list"

definition MEMPOOL_F_NO_SPREAD :: u32 where
  "MEMPOOL_F_NO_SPREAD = 0x0001"

definition MEMPOOL_F_NO_CACHE_ALIGN :: u32 where
  "MEMPOOL_F_NO_CACHE_ALIGN = 0x0002"

definition MEMPOOL_F_SP_PUT :: u32 where
  "MEMPOOL_F_SP_PUT = 0x0004"

definition MEMPOOL_F_SC_GET :: u32 where
  "MEMPOOL_F_SC_GET = 0x0008"

definition MEMPOOL_F_POOL_CREATED :: u32 where
  "MEMPOOL_F_POOL_CREATED = 0x0010"

definition MEMPOOL_F_NO_IOVA_CONTIG :: u32 where
  "MEMPOOL_F_NO_IOVA_CONTIG = 0x0020"

section \<open>The driver table\<close>

text \<open>
  The environment a driver allocates its data in: the rings, whether their list entries can be
  allocated, the memory zone allocator, and whether the heap gives a stack.
\<close>

record pool_env =
  rings :: "addr ring_env"
  te_alloc_ok :: bool
  mz_reserve :: "string \<Rightarrow> u64 \<Rightarrow> errno + addr memzone"
  mz_free :: "addr \<Rightarrow> bool"
  heap_ok :: "u64 \<Rightarrow> bool"

text \<open>
  A driver. A status is 0 or a negated error code; \<^term>\<open>None\<close> as a result is an access outside
  the driver's data or a loop that does not end, and as a callback it is NULL.
\<close>

record rte_mempool_ops =
  ops_name :: string
  ops_alloc :: "(pool_env \<Rightarrow> rte_mempool \<Rightarrow> pool_env \<times> rte_mempool \<times> int) option"
  ops_free :: "(pool_env \<Rightarrow> rte_mempool \<Rightarrow> pool_env option) option"
  ops_enqueue :: "(rte_mempool \<Rightarrow> addr list \<Rightarrow> u32 \<Rightarrow> (rte_mempool \<times> int) option) option"
  ops_dequeue :: "(rte_mempool \<Rightarrow> u32 \<Rightarrow> (rte_mempool \<times> addr list \<times> int) option) option"
  ops_get_count :: "(rte_mempool \<Rightarrow> u32 option) option"

text \<open>\<^verbatim>\<open>rte_mempool_register_ops\<close>: the new table and the index of the driver or an error.\<close>

definition rte_mempool_register_ops ::
  "rte_mempool_ops list \<Rightarrow> rte_mempool_ops \<Rightarrow> rte_mempool_ops list \<times> (errno + nat)" where
  "rte_mempool_register_ops tbl h =
     (if length tbl \<ge> RTE_MEMPOOL_MAX_OPS_IDX then (tbl, Inl ENOSPC)
      else if ops_alloc h = None \<or> ops_enqueue h = None \<or> ops_dequeue h = None \<or> ops_get_count h = None
      then (tbl, Inl EINVAL)
      else if length (ops_name h) \<ge> RTE_MEMPOOL_OPS_NAMESIZE - 1 then (tbl, Inl EEXIST)
      else (tbl @ [h], Inr (length tbl)))"

definition rte_mempool_get_ops :: "rte_mempool_ops list \<Rightarrow> nat \<Rightarrow> rte_mempool_ops option" where
  "rte_mempool_get_ops tbl i = (if i < RTE_MEMPOOL_MAX_OPS_IDX \<and> i < length tbl then Some (tbl ! i) else None)"

definition rte_mempool_ops_alloc ::
  "rte_mempool_ops list \<Rightarrow> pool_env \<Rightarrow> rte_mempool \<Rightarrow> (pool_env \<times> rte_mempool \<times> int) option" where
  "rte_mempool_ops_alloc tbl env mp = do {
     ops \<leftarrow> rte_mempool_get_ops tbl (ops_index mp);
     f \<leftarrow> ops_alloc ops;
     Some (f env mp) }"

definition rte_mempool_ops_free :: "rte_mempool_ops list \<Rightarrow> pool_env \<Rightarrow> rte_mempool \<Rightarrow> pool_env option" where
  "rte_mempool_ops_free tbl env mp = do {
     ops \<leftarrow> rte_mempool_get_ops tbl (ops_index mp);
     (case ops_free ops of None \<Rightarrow> Some env | Some f \<Rightarrow> f env mp) }"

definition rte_mempool_ops_dequeue_bulk ::
  "rte_mempool_ops list \<Rightarrow> rte_mempool \<Rightarrow> u32 \<Rightarrow> (rte_mempool \<times> addr list \<times> int) option" where
  "rte_mempool_ops_dequeue_bulk tbl mp n = do {
     ops \<leftarrow> rte_mempool_get_ops tbl (ops_index mp);
     f \<leftarrow> ops_dequeue ops;
     f mp n }"

definition rte_mempool_ops_enqueue_bulk ::
  "rte_mempool_ops list \<Rightarrow> rte_mempool \<Rightarrow> addr list \<Rightarrow> u32 \<Rightarrow> (rte_mempool \<times> int) option" where
  "rte_mempool_ops_enqueue_bulk tbl mp obj_table n = do {
     ops \<leftarrow> rte_mempool_get_ops tbl (ops_index mp);
     f \<leftarrow> ops_enqueue ops;
     f mp obj_table n }"

definition rte_mempool_ops_get_count :: "rte_mempool_ops list \<Rightarrow> rte_mempool \<Rightarrow> u32 option" where
  "rte_mempool_ops_get_count tbl mp = do {
     ops \<leftarrow> rte_mempool_get_ops tbl (ops_index mp);
     f \<leftarrow> ops_get_count ops;
     f mp }"

definition rte_mempool_set_ops_byname ::
  "rte_mempool_ops list \<Rightarrow> rte_mempool \<Rightarrow> string \<Rightarrow> addr \<Rightarrow> rte_mempool \<times> int" where
  "rte_mempool_set_ops_byname tbl mp nm config =
     (if mp_flags mp AND MEMPOOL_F_POOL_CREATED \<noteq> 0 then (mp, - errno_code EEXIST)
      else case List.find (\<lambda>i. ops_name (tbl ! i) = nm) [0..<length tbl] of
             None \<Rightarrow> (mp, - errno_code EINVAL)
           | Some i \<Rightarrow> (mp\<lparr>ops_index := i, pool_config := config\<rparr>, 0))"

section \<open>Object caches\<close>

definition CALC_CACHE_FLUSHTHRESH :: "u32 \<Rightarrow> u32" where
  "CALC_CACHE_FLUSHTHRESH c = of_nat (unat c * 3 div 2)"

definition mempool_cache_init :: "rte_mempool_cache \<Rightarrow> u32 \<Rightarrow> rte_mempool_cache" where
  "mempool_cache_init cache sz = cache\<lparr>c_size := sz, c_flushthresh := CALC_CACHE_FLUSHTHRESH sz, c_len := 0\<rparr>"

definition zero_cache :: rte_mempool_cache where
  "zero_cache = \<lparr>c_size = 0, c_flushthresh = 0, c_len = 0,
     c_objs = replicate (unat RTE_MEMPOOL_CACHE_MAX_SIZE * 3) NULL\<rparr>"

text \<open>Whether the heap has room for the cache is a parameter.\<close>

definition rte_mempool_cache_create :: "bool \<Rightarrow> u32 \<Rightarrow> errno + rte_mempool_cache" where
  "rte_mempool_cache_create alloc_ok sz =
     (if sz = 0 \<or> sz > RTE_MEMPOOL_CACHE_MAX_SIZE then Inl EINVAL
      else if \<not> alloc_ok then Inl ENOMEM
      else Inr (mempool_cache_init zero_cache sz))"

definition rte_mempool_default_cache :: "rte_mempool \<Rightarrow> nat \<Rightarrow> nat option" where
  "rte_mempool_default_cache mp lcore_id =
     (if cache_size mp = 0 then None
      else if lcore_id \<ge> RTE_MAX_LCORE then None
      else Some lcore_id)"

text \<open>The objects \<open>objs[i], \<dots>, objs[i + n - 1]\<close> as an argument of a driver call.\<close>

definition obj_range :: "addr list \<Rightarrow> u32 \<Rightarrow> u32 \<Rightarrow> addr list option" where
  "obj_range objs i n =
     (if unat i + unat n \<le> length objs then Some (take (unat n) (drop (unat i) objs)) else None)"

text \<open>Copying \<open>n\<close> objects to \<open>objs[i]\<close> and the following entries.\<close>

definition obj_copy :: "addr list \<Rightarrow> u32 \<Rightarrow> addr list \<Rightarrow> u32 \<Rightarrow> addr list option" where
  "obj_copy objs i src n =
     (if unat i + unat n \<le> length objs \<and> unat n \<le> length src
      then Some (take (unat i) objs @ take (unat n) src @ drop (unat i + unat n) objs) else None)"

text \<open>The loop that reads \<open>objs[len], objs[len - 1], \<dots>\<close>\<close>

fun read_down :: "addr list \<Rightarrow> u32 \<Rightarrow> nat \<Rightarrow> addr list option" where
  "read_down objs len 0 = Some []"
| "read_down objs len (Suc n) =
     (if unat len < length objs
      then do { rest \<leftarrow> read_down objs (len - 1) n; Some (objs ! unat len # rest) }
      else None)"

definition cache_flush ::
  "rte_mempool_ops list \<Rightarrow> rte_mempool_cache \<Rightarrow> rte_mempool \<Rightarrow> (rte_mempool \<times> rte_mempool_cache) option" where
  "cache_flush tbl cache mp =
     (if c_len cache = 0 then Some (mp, cache)
      else do {
        objs \<leftarrow> obj_range (c_objs cache) 0 (c_len cache);
        (mp, _) \<leftarrow> rte_mempool_ops_enqueue_bulk tbl mp objs (c_len cache);
        Some (mp, cache\<lparr>c_len := 0\<rparr>) })"

text \<open>Without a cache of its own the caller flushes the default cache of its lcore.\<close>

definition rte_mempool_cache_flush ::
  "rte_mempool_ops list \<Rightarrow> nat \<Rightarrow> rte_mempool_cache option \<Rightarrow> rte_mempool \<Rightarrow>
   (rte_mempool \<times> rte_mempool_cache option) option" where
  "rte_mempool_cache_flush tbl lcore cache mp = (case cache of
     Some c \<Rightarrow> do { (mp, c) \<leftarrow> cache_flush tbl c mp; Some (mp, Some c) }
   | None \<Rightarrow> (case rte_mempool_default_cache mp lcore of
       None \<Rightarrow> Some (mp, None)
     | Some i \<Rightarrow> do { (mp, c) \<leftarrow> cache_flush tbl (local_cache mp ! i) mp;
                     Some (mp\<lparr>local_cache := (local_cache mp)[i := c]\<rparr>, None) }))"

definition mempool_generic_put ::
  "rte_mempool_ops list \<Rightarrow> rte_mempool \<Rightarrow> addr list \<Rightarrow> u32 \<Rightarrow> rte_mempool_cache option \<Rightarrow>
   (rte_mempool \<times> rte_mempool_cache option) option" where
  "mempool_generic_put tbl mp obj_table n cache =
     (case cache of
        Some c \<Rightarrow>
          if n > RTE_MEMPOOL_CACHE_MAX_SIZE
          then do { (mp, _) \<leftarrow> rte_mempool_ops_enqueue_bulk tbl mp obj_table n; Some (mp, cache) }
          else do {
            objs \<leftarrow> obj_copy (c_objs c) (c_len c) obj_table n;
            c \<leftarrow> Some (c\<lparr>c_objs := objs, c_len := c_len c + n\<rparr>);
            if c_len c \<ge> c_flushthresh c
            then do {
              excess \<leftarrow> obj_range (c_objs c) (c_size c) (c_len c - c_size c);
              (mp, _) \<leftarrow> rte_mempool_ops_enqueue_bulk tbl mp excess (c_len c - c_size c);
              Some (mp, Some (c\<lparr>c_len := c_size c\<rparr>)) }
            else Some (mp, Some c) }
      | None \<Rightarrow> do { (mp, _) \<leftarrow> rte_mempool_ops_enqueue_bulk tbl mp obj_table n; Some (mp, cache) })"

definition ring_dequeue ::
  "rte_mempool_ops list \<Rightarrow> rte_mempool \<Rightarrow> u32 \<Rightarrow> rte_mempool_cache option \<Rightarrow>
   (rte_mempool \<times> rte_mempool_cache option \<times> addr list \<times> int) option" where
  "ring_dequeue tbl mp n cache = do {
     (mp, objs, ret) \<leftarrow> rte_mempool_ops_dequeue_bulk tbl mp n;
     Some (mp, cache, objs, ret) }"

text \<open>The response of the cache: the last \<open>n\<close> objects, in reverse.\<close>

definition cache_response ::
  "rte_mempool \<Rightarrow> rte_mempool_cache \<Rightarrow> u32 \<Rightarrow>
   (rte_mempool \<times> rte_mempool_cache option \<times> addr list \<times> int) option" where
  "cache_response mp c n = do {
     objs \<leftarrow> read_down (c_objs c) (c_len c - 1) (unat n);
     Some (mp, Some (c\<lparr>c_len := c_len c - n\<rparr>), objs, 0) }"

definition mempool_generic_get ::
  "rte_mempool_ops list \<Rightarrow> rte_mempool \<Rightarrow> u32 \<Rightarrow> rte_mempool_cache option \<Rightarrow>
   (rte_mempool \<times> rte_mempool_cache option \<times> addr list \<times> int) option" where
  "mempool_generic_get tbl mp n cache =
     (case cache of
        None \<Rightarrow> ring_dequeue tbl mp n cache
      | Some c \<Rightarrow>
          if n \<ge> c_size c then ring_dequeue tbl mp n cache
          else if c_len c < n
          then let req = n + (c_size c - c_len c)
            in do {
              (mp, objs, ret) \<leftarrow> rte_mempool_ops_dequeue_bulk tbl mp req;
              if ret < 0 then ring_dequeue tbl mp n cache
              else do {
                objs \<leftarrow> obj_copy (c_objs c) (c_len c) objs req;
                cache_response mp (c\<lparr>c_objs := objs, c_len := c_len c + req\<rparr>) n } }
          else cache_response mp c n)"

text \<open>Get and put with the default cache of an lcore.\<close>

definition rte_mempool_put_bulk ::
  "rte_mempool_ops list \<Rightarrow> nat \<Rightarrow> rte_mempool \<Rightarrow> addr list \<Rightarrow> u32 \<Rightarrow> rte_mempool option" where
  "rte_mempool_put_bulk tbl lcore mp obj_table n =
     (case rte_mempool_default_cache mp lcore of
        None \<Rightarrow> map_option fst (mempool_generic_put tbl mp obj_table n None)
      | Some i \<Rightarrow> do {
          (mp, c) \<leftarrow> mempool_generic_put tbl mp obj_table n (Some (local_cache mp ! i));
          Some (case c of None \<Rightarrow> mp | Some c \<Rightarrow> mp\<lparr>local_cache := (local_cache mp)[i := c]\<rparr>) })"

definition rte_mempool_put :: "rte_mempool_ops list \<Rightarrow> nat \<Rightarrow> rte_mempool \<Rightarrow> addr \<Rightarrow> rte_mempool option" where
  "rte_mempool_put tbl lcore mp obj = rte_mempool_put_bulk tbl lcore mp [obj] 1"

definition rte_mempool_get_bulk ::
  "rte_mempool_ops list \<Rightarrow> nat \<Rightarrow> rte_mempool \<Rightarrow> u32 \<Rightarrow> (rte_mempool \<times> addr list \<times> int) option" where
  "rte_mempool_get_bulk tbl lcore mp n =
     (case rte_mempool_default_cache mp lcore of
        None \<Rightarrow> do { (mp, c, objs, ret) \<leftarrow> mempool_generic_get tbl mp n None; Some (mp, objs, ret) }
      | Some i \<Rightarrow> do {
          (mp, c, objs, ret) \<leftarrow> mempool_generic_get tbl mp n (Some (local_cache mp ! i));
          Some (case c of None \<Rightarrow> mp | Some c \<Rightarrow> mp\<lparr>local_cache := (local_cache mp)[i := c]\<rparr>, objs, ret) })"

definition rte_mempool_get :: "rte_mempool_ops list \<Rightarrow> nat \<Rightarrow> rte_mempool \<Rightarrow> (rte_mempool \<times> addr list \<times> int) option" where
  "rte_mempool_get tbl lcore mp = rte_mempool_get_bulk tbl lcore mp 1"

section \<open>Counts\<close>

definition rte_mempool_avail_count :: "rte_mempool_ops list \<Rightarrow> rte_mempool \<Rightarrow> u32 option" where
  "rte_mempool_avail_count tbl mp = do {
     cnt \<leftarrow> rte_mempool_ops_get_count tbl mp;
     if cache_size mp = 0 then Some cnt
     else let cnt = cnt + sum_list (map c_len (take RTE_MAX_LCORE (local_cache mp)))
       in Some (if cnt > mp_size mp then mp_size mp else cnt) }"

definition rte_mempool_in_use_count :: "rte_mempool_ops list \<Rightarrow> rte_mempool \<Rightarrow> u32 option" where
  "rte_mempool_in_use_count tbl mp = map_option (\<lambda>cnt. mp_size mp - cnt) (rte_mempool_avail_count tbl mp)"

definition rte_mempool_full :: "rte_mempool_ops list \<Rightarrow> rte_mempool \<Rightarrow> bool option" where
  "rte_mempool_full tbl mp = map_option (\<lambda>cnt. cnt = mp_size mp) (rte_mempool_avail_count tbl mp)"

definition rte_mempool_empty :: "rte_mempool_ops list \<Rightarrow> rte_mempool \<Rightarrow> bool option" where
  "rte_mempool_empty tbl mp = map_option (\<lambda>cnt. cnt = 0) (rte_mempool_avail_count tbl mp)"

section \<open>Cache invariant\<close>

definition cache_ok :: "rte_mempool_cache \<Rightarrow> bool" where
  "cache_ok c \<longleftrightarrow> 0 < c_size c \<and> c_size c \<le> RTE_MEMPOOL_CACHE_MAX_SIZE \<and>
     c_flushthresh c = CALC_CACHE_FLUSHTHRESH (c_size c) \<and> c_len c \<le> c_flushthresh c \<and>
     length (c_objs c) = unat RTE_MEMPOOL_CACHE_MAX_SIZE * 3"

text \<open>The objects a cache holds.\<close>

definition cache_bag :: "rte_mempool_cache \<Rightarrow> addr multiset" where
  "cache_bag c = mset (take (unat (c_len c)) (c_objs c))"

primrec opt_cache_ok :: "rte_mempool_cache option \<Rightarrow> bool" where
  "opt_cache_ok None = True"
| "opt_cache_ok (Some c) = cache_ok c"

primrec opt_cache_bag :: "rte_mempool_cache option \<Rightarrow> addr multiset" where
  "opt_cache_bag None = {#}"
| "opt_cache_bag (Some c) = cache_bag c"

lemma cache_okD:
  assumes "cache_ok c"
  shows "0 < unat (c_size c)" "unat (c_size c) \<le> 512" "unat (c_flushthresh c) = unat (c_size c) * 3 div 2"
    "unat (c_len c) \<le> unat (c_size c) * 3 div 2" "length (c_objs c) = 1536" "unat (c_len c) \<le> 768"
proof -
  show s: "0 < unat (c_size c)" "unat (c_size c) \<le> 512" "length (c_objs c) = 1536"
    using assms by (auto simp: cache_ok_def RTE_MEMPOOL_CACHE_MAX_SIZE_def word_le_nat_alt word_less_nat_alt)
  show t: "unat (c_flushthresh c) = unat (c_size c) * 3 div 2"
    using assms s by (auto simp: cache_ok_def CALC_CACHE_FLUSHTHRESH_def intro!: unat_of_nat_small)
  show "unat (c_len c) \<le> unat (c_size c) * 3 div 2"
    using assms t by (auto simp: cache_ok_def word_le_nat_alt)
  with s show "unat (c_len c) \<le> 768" by linarith
qed

lemma cache_okI:
  assumes "0 < unat (c_size c)" "unat (c_size c) \<le> 512" "c_flushthresh c = CALC_CACHE_FLUSHTHRESH (c_size c)"
    "unat (c_len c) \<le> unat (c_flushthresh c)" "length (c_objs c) = 1536"
  shows "cache_ok c"
  using assms by (auto simp: cache_ok_def RTE_MEMPOOL_CACHE_MAX_SIZE_def word_le_nat_alt word_less_nat_alt)

lemma cache_init_ok:
  assumes "0 < sz" "sz \<le> RTE_MEMPOOL_CACHE_MAX_SIZE"
  shows "cache_ok (mempool_cache_init zero_cache sz)" "cache_bag (mempool_cache_init zero_cache sz) = {#}"
  using assms by (simp_all add: cache_ok_def mempool_cache_init_def zero_cache_def cache_bag_def)

lemma read_down_rev:
  assumes "n \<le> len" "len \<le> length objs" "len < 2 ^ 32"
  shows "read_down objs (of_nat len - 1) n = Some (rev (drop (len - n) (take len objs)))"
  using assms
proof (induction n arbitrary: len)
  case (Suc n)
  obtain m where m: "len = Suc m" using Suc.prems by (cases len) auto
  have u: "unat (of_nat m :: u32) = m" using Suc.prems m by (intro unat_of_nat_small) simp
  have "read_down objs (of_nat m - 1) n = Some (rev (drop (m - n) (take m objs)))"
    using Suc.IH [of m] Suc.prems m by simp
  moreover have "drop (m - n) (take (Suc m) objs) = drop (m - n) (take m objs) @ [objs ! m]"
    using Suc.prems m by (simp add: take_Suc_conv_app_nth)
  ultimately show ?case using Suc.prems m u by simp
qed simp

lemma cache_response_ok:
  assumes c: "cache_ok (c\<lparr>c_len := l\<rparr>)" "length (c_objs c) = 1536" "unat (c_len c) \<le> 1536" "l = c_len c - n" "n \<le> c_len c"
  shows "\<exists>objs. cache_response mp c n = Some (mp, Some (c\<lparr>c_len := l\<rparr>), objs, 0) \<and>
    length objs = unat n \<and> cache_bag c = cache_bag (c\<lparr>c_len := l\<rparr>) + mset objs"
proof -
  let ?len = "unat (c_len c)" and ?n = "unat n"
  have n: "?n \<le> ?len" using assms by (simp add: word_le_nat_alt)
  have l: "unat l = ?len - ?n" using assms by (simp add: unat_sub_simple)
  have "read_down (c_objs c) (of_nat ?len - 1) ?n = Some (rev (drop (?len - ?n) (take ?len (c_objs c))))"
    using n assms by (intro read_down_rev) simp_all
  moreover have "take ?len (c_objs c) = take (?len - ?n) (c_objs c) @ drop (?len - ?n) (take ?len (c_objs c))"
    by (metis append_take_drop_id diff_le_self min.absorb1 take_take)
  then have "mset (take ?len (c_objs c)) = mset (take (?len - ?n) (c_objs c)) + mset (drop (?len - ?n) (take ?len (c_objs c)))"
    by (metis mset_append)
  ultimately show ?thesis using n l assms by (simp add: cache_response_def cache_bag_def)
qed

lemma generic_get_cache:
  "mempool_generic_get tbl mp n cache = Some (mp', cache', objs, s) \<Longrightarrow> cache' = None \<longleftrightarrow> cache = None"
  by (auto simp: mempool_generic_get_def ring_dequeue_def cache_response_def Let_def bind_eq_Some_conv
      split: option.splits if_splits)

lemma generic_put_cache:
  "mempool_generic_put tbl mp objs n cache = Some (mp', cache') \<Longrightarrow> cache' = None \<longleftrightarrow> cache = None"
  by (auto simp: mempool_generic_put_def bind_eq_Some_conv split: option.splits if_splits)

text \<open>The caches in use and the objects in them.\<close>

definition pool_caches :: "rte_mempool \<Rightarrow> rte_mempool_cache list" where
  "pool_caches mp = (if cache_size mp = 0 then [] else local_cache mp)"

definition cached :: "rte_mempool \<Rightarrow> addr multiset" where
  "cached mp = \<Sum>\<^sub># (image_mset cache_bag (mset (pool_caches mp)))"

definition caches_ok :: "rte_mempool \<Rightarrow> bool" where
  "caches_ok mp \<longleftrightarrow> length (local_cache mp) = RTE_MAX_LCORE \<and> list_all cache_ok (pool_caches mp)"

lemma sum_mset_update:
  assumes "i < length xs"
  shows "\<Sum>\<^sub># (image_mset f (mset (xs[i := x]))) + f (xs ! i) = \<Sum>\<^sub># (image_mset f (mset xs)) + (f x :: 'b multiset)"
proof -
  define M where "M = mset xs - {#xs ! i#}"
  have "mset xs = add_mset (xs ! i) M" "mset (xs[i := x]) = add_mset x M"
    using assms by (simp_all add: M_def mset_update)
  then show ?thesis by simp
qed

lemma cached_update:
  assumes "caches_ok mp" "i < RTE_MAX_LCORE" "cache_size mp \<noteq> 0"
  shows "cached (mp\<lparr>local_cache := (local_cache mp)[i := c]\<rparr>) + cache_bag (local_cache mp ! i) = cached mp + cache_bag c"
    and "cache_ok c \<Longrightarrow> caches_ok (mp\<lparr>local_cache := (local_cache mp)[i := c]\<rparr>)"
    and "cache_ok (local_cache mp ! i)"
    and "cache_bag (local_cache mp ! i) \<subseteq># cached mp"
proof -
  have i: "i < length (local_cache mp)" and pc: "pool_caches mp = local_cache mp"
    using assms by (simp_all add: caches_ok_def pool_caches_def)
  show "cached (mp\<lparr>local_cache := (local_cache mp)[i := c]\<rparr>) + cache_bag (local_cache mp ! i) = cached mp + cache_bag c"
    using sum_mset_update [OF i, of cache_bag c] assms by (simp add: cached_def pool_caches_def)
  show "caches_ok (mp\<lparr>local_cache := (local_cache mp)[i := c]\<rparr>)" if "cache_ok c"
    using assms that by (auto simp: caches_ok_def pool_caches_def list_all_length nth_list_update)
  show "cache_ok (local_cache mp ! i)" using assms i by (simp add: caches_ok_def pc list_all_length)
  have "local_cache mp ! i \<in># mset (local_cache mp)" using i by simp
  then show "cache_bag (local_cache mp ! i) \<subseteq># cached mp"
    unfolding cached_def pc by (metis image_mset_add_mset insert_DiffM mset_subset_eq_add_left sum_mset.insert)
qed

lemma cached_pool_data [simp]:
  "cached (mp\<lparr>pool_data := d\<rparr>) = cached mp" "caches_ok (mp\<lparr>pool_data := d\<rparr>) = caches_ok mp"
  by (simp_all add: cached_def caches_ok_def pool_caches_def)

text \<open>
  The pool and its users: an lcore gets objects or puts back objects the users hold. The second
  component is the bag of objects held outside the pool.
\<close>

inductive pool_step :: "rte_mempool_ops list \<Rightarrow> rte_mempool \<times> addr multiset \<Rightarrow> rte_mempool \<times> addr multiset \<Rightarrow> bool"
  for tbl where
  get: "rte_mempool_get_bulk tbl lcore mp n = Some (mp', objs, s) \<Longrightarrow>
    pool_step tbl (mp, held) (mp', held + mset objs)"
| put: "mset objs \<subseteq># held \<Longrightarrow> length objs = unat n \<Longrightarrow> rte_mempool_put_bulk tbl lcore mp objs n = Some mp' \<Longrightarrow>
    pool_step tbl (mp, held) (mp', held - mset objs)"

inductive_cases pool_step_cases: "pool_step tbl (mp, held) st"

text \<open>
  A pool at rest, all objects inside it, and the balance of a pool with its users: what is inside
  and what is held outside are always all objects. The parameters are the view of the driver.
\<close>

definition pool_total :: "(rte_mempool \<Rightarrow> addr multiset) \<Rightarrow> rte_mempool \<Rightarrow> addr multiset" where
  "pool_total bag mp = bag mp + cached mp"

definition pool_ok :: "(rte_mempool \<Rightarrow> bool) \<Rightarrow> rte_mempool \<Rightarrow> bool" where
  "pool_ok pinv mp \<longleftrightarrow> pinv mp \<and> caches_ok mp"

definition pool_balanced ::
  "(rte_mempool \<Rightarrow> bool) \<Rightarrow> (rte_mempool \<Rightarrow> addr multiset) \<Rightarrow> (rte_mempool \<Rightarrow> nat) \<Rightarrow>
   addr multiset \<Rightarrow> nat \<Rightarrow> rte_mempool \<times> addr multiset \<Rightarrow> bool" where
  "pool_balanced pinv bag cap all k st \<longleftrightarrow> pool_ok pinv (fst st) \<and> cap (fst st) = k \<and> size all \<le> k \<and>
     pool_total bag (fst st) + snd st = all"

section \<open>The driver interface\<close>

text \<open>
  What the pool relies on: the driver keeps a bag of at most \<open>cap\<close> objects in the private data of
  the pool and touches nothing else; a request it can serve succeeds when it is not empty, one it
  cannot serve changes nothing and reports a negative status.
\<close>

locale mempool_driver =
  fixes tbl :: "rte_mempool_ops list" and pinv :: "rte_mempool \<Rightarrow> bool"
    and bag :: "rte_mempool \<Rightarrow> addr multiset" and cap :: "rte_mempool \<Rightarrow> nat"
  assumes frame: "pinv (mp\<lparr>local_cache := lc\<rparr>) = pinv mp" "bag (mp\<lparr>local_cache := lc\<rparr>) = bag mp"
      "cap (mp\<lparr>local_cache := lc\<rparr>) = cap mp"
    and enqueue: "pinv mp \<Longrightarrow> length objs = unat n \<Longrightarrow> size (bag mp) + unat n \<le> cap mp \<Longrightarrow>
      \<exists>d s. rte_mempool_ops_enqueue_bulk tbl mp objs n = Some (mp\<lparr>pool_data := d\<rparr>, s) \<and>
        pinv (mp\<lparr>pool_data := d\<rparr>) \<and> bag (mp\<lparr>pool_data := d\<rparr>) = bag mp + mset objs \<and>
        cap (mp\<lparr>pool_data := d\<rparr>) = cap mp \<and> (0 < n \<longrightarrow> s = 0)"
    and dequeue: "pinv mp \<Longrightarrow> unat n \<le> size (bag mp) \<Longrightarrow>
      \<exists>d objs s. rte_mempool_ops_dequeue_bulk tbl mp n = Some (mp\<lparr>pool_data := d\<rparr>, objs, s) \<and>
        pinv (mp\<lparr>pool_data := d\<rparr>) \<and> length objs = unat n \<and> bag mp = bag (mp\<lparr>pool_data := d\<rparr>) + mset objs \<and>
        cap (mp\<lparr>pool_data := d\<rparr>) = cap mp \<and> (0 < n \<longrightarrow> s = 0) \<and> s \<le> 0"
    and dequeue_fail: "pinv mp \<Longrightarrow> size (bag mp) < unat n \<Longrightarrow>
      \<exists>s < 0. rte_mempool_ops_dequeue_bulk tbl mp n = Some (mp, [], s)"
    and get_count: "pinv mp \<Longrightarrow> \<exists>cnt. rte_mempool_ops_get_count tbl mp = Some cnt \<and> unat cnt = size (bag mp)"
begin

lemma ring_dequeue_conserves:
  assumes "pinv mp"
  shows "\<exists>d objs s. ring_dequeue tbl mp n cache = Some (mp\<lparr>pool_data := d\<rparr>, cache, objs, s) \<and>
    pinv (mp\<lparr>pool_data := d\<rparr>) \<and> bag mp = bag (mp\<lparr>pool_data := d\<rparr>) + mset objs \<and>
    cap (mp\<lparr>pool_data := d\<rparr>) = cap mp \<and> (s = 0 \<longrightarrow> length objs = unat n) \<and>
    (s \<noteq> 0 \<longrightarrow> s < 0 \<and> objs = []) \<and> (0 < n \<and> unat n \<le> size (bag mp) \<longrightarrow> s = 0)"
proof (cases "unat n \<le> size (bag mp)")
  case True
  obtain d objs s where d: "rte_mempool_ops_dequeue_bulk tbl mp n = Some (mp\<lparr>pool_data := d\<rparr>, objs, s)"
      "pinv (mp\<lparr>pool_data := d\<rparr>)" "length objs = unat n" "bag mp = bag (mp\<lparr>pool_data := d\<rparr>) + mset objs"
      "cap (mp\<lparr>pool_data := d\<rparr>) = cap mp" "0 < n \<longrightarrow> s = 0" "s \<le> 0"
    using dequeue [OF assms True] by blast
  have "objs = []" if "s \<noteq> 0" using d(3,6) that by (auto simp: word_gt_0)
  with d show ?thesis by (intro exI [of _ d] exI [of _ objs] exI [of _ s]) (auto simp: ring_dequeue_def)
next
  case False
  then obtain s where "s < 0" "rte_mempool_ops_dequeue_bulk tbl mp n = Some (mp, [], s)"
    using dequeue_fail [OF assms, of n] by auto
  with assms False show ?thesis
    by (intro exI [of _ "pool_data mp"] exI [of _ "[]"] exI [of _ s]) (auto simp: ring_dequeue_def)
qed

lemma cached_response_conserves:
  assumes c: "cache_ok c" and n: "n < c_size c" and len: "n \<le> c_len c"
  shows "\<exists>cache' objs. cache_response mp c n = Some (mp, cache', objs, 0) \<and> opt_cache_ok cache' \<and>
    cache_bag c = opt_cache_bag cache' + mset objs \<and> length objs = unat n"
proof -
  have "cache_ok (c\<lparr>c_len := c_len c - n\<rparr>)"
    using c len unfolding cache_ok_def
    by (auto simp: word_le_nat_alt unat_sub_simple)
  then show ?thesis
    using cache_response_ok [where c = c and l = "c_len c - n" and n = n and mp = mp] cache_okD [OF c] len by auto
qed

lemma backfill_conserves:
  assumes c: "cache_ok c" and n: "n < c_size c" "c_len c < n"
    and req: "req = n + (c_size c - c_len c)" and objs: "length objs = unat req"
  shows "\<exists>objs' cache' out. obj_copy (c_objs c) (c_len c) objs req = Some objs' \<and>
    cache_response mp (c\<lparr>c_objs := objs', c_len := c_len c + req\<rparr>) n = Some (mp, cache', out, 0) \<and>
    opt_cache_ok cache' \<and> cache_bag c + mset objs = opt_cache_bag cache' + mset out \<and> length out = unat n"
proof -
  note k = cache_okD [OF c]
  have lt: "unat (c_len c) < unat n" "unat n < unat (c_size c)" using n by (simp_all add: word_less_nat_alt)
  have "unat (c_size c - c_len c) = unat (c_size c) - unat (c_len c)"
    using lt by (intro unat_sub_simple) (simp add: word_le_nat_alt)
  then have ur: "unat req = unat n + (unat (c_size c) - unat (c_len c))"
    unfolding req using lt k by (subst unat_plus_simple) simp_all
  then have ul: "unat (c_len c + req) = unat n + unat (c_size c)"
    using lt k by (subst unat_plus_simple) simp_all
  define objs' where "objs' = take (unat (c_len c)) (c_objs c) @ objs @ drop (unat (c_len c) + unat req) (c_objs c)"
  have cp: "obj_copy (c_objs c) (c_len c) objs req = Some objs'"
    using ur lt k objs by (simp add: obj_copy_def objs'_def)
  have lo: "length objs' = 1536" using ur lt k objs by (simp add: objs'_def)
  let ?c = "c\<lparr>c_objs := objs', c_len := c_len c + req\<rparr>"
  have sz: "c_len c + req - n = c_size c" using req by simp
  have ok: "cache_ok (?c\<lparr>c_len := c_size c\<rparr>)"
    using c lo k by (intro cache_okI) (auto simp: cache_ok_def)
  have "\<exists>out. cache_response mp ?c n = Some (mp, Some (?c\<lparr>c_len := c_size c\<rparr>), out, 0) \<and> length out = unat n \<and>
      cache_bag ?c = cache_bag (?c\<lparr>c_len := c_size c\<rparr>) + mset out"
    using ok lo ul lt k sz by (intro cache_response_ok) (simp_all add: word_le_nat_alt)
  moreover have "cache_bag ?c = cache_bag c + mset objs"
    using ul ur lt k objs by (simp add: cache_bag_def objs'_def)
  ultimately show ?thesis using cp ok by auto
qed

lemma get_conserves:
  assumes inv: "pinv mp" and c: "opt_cache_ok cache"
  shows "\<exists>d cache' objs s. mempool_generic_get tbl mp n cache = Some (mp\<lparr>pool_data := d\<rparr>, cache', objs, s) \<and>
    pinv (mp\<lparr>pool_data := d\<rparr>) \<and> cap (mp\<lparr>pool_data := d\<rparr>) = cap mp \<and> opt_cache_ok cache' \<and>
    bag mp + opt_cache_bag cache = bag (mp\<lparr>pool_data := d\<rparr>) + opt_cache_bag cache' + mset objs \<and>
    (s = 0 \<longrightarrow> length objs = unat n) \<and> (s \<noteq> 0 \<longrightarrow> s < 0 \<and> objs = []) \<and>
    (0 < n \<and> unat n \<le> size (bag mp) \<longrightarrow> s = 0)"
proof -
  have direct: ?thesis if "mempool_generic_get tbl mp n cache = ring_dequeue tbl mp n cache"
    using ring_dequeue_conserves [OF inv, of n cache] c that by (auto simp: algebra_simps)
  show ?thesis
  proof (cases cache)
    case None
    then show ?thesis by (intro direct) (simp add: mempool_generic_get_def)
  next
    case (Some k)
    with c have ok: "cache_ok k" by simp
    consider "n \<ge> c_size k" | "n < c_size k" "n \<le> c_len k" | "n < c_size k" "c_len k < n" by fastforce
    then show ?thesis
    proof cases
      case 1
      then show ?thesis using Some by (intro direct) (simp add: mempool_generic_get_def)
    next
      case 2
      obtain cache' objs where "cache_response mp k n = Some (mp, cache', objs, 0)" "opt_cache_ok cache'"
          "cache_bag k = opt_cache_bag cache' + mset objs" "length objs = unat n"
        using cached_response_conserves [OF ok 2] by blast
      moreover have "mempool_generic_get tbl mp n cache = cache_response mp k n"
        using 2 Some by (simp add: mempool_generic_get_def leD not_le [symmetric])
      ultimately show ?thesis using Some inv
        by (intro exI [of _ "pool_data mp"] exI [of _ cache'] exI [of _ objs] exI [of _ 0]) simp
    next
      case 3
      define req where "req = n + (c_size k - c_len k)"
      show ?thesis
      proof (cases "unat req \<le> size (bag mp)")
        case True
        obtain d objs s where d: "rte_mempool_ops_dequeue_bulk tbl mp req = Some (mp\<lparr>pool_data := d\<rparr>, objs, s)"
            "pinv (mp\<lparr>pool_data := d\<rparr>)" "length objs = unat req" "bag mp = bag (mp\<lparr>pool_data := d\<rparr>) + mset objs"
            "cap (mp\<lparr>pool_data := d\<rparr>) = cap mp" "0 < req \<longrightarrow> s = 0" "s \<le> 0"
          using dequeue [OF inv True] by blast
        obtain objs' cache' out where b: "obj_copy (c_objs k) (c_len k) objs req = Some objs'"
            "cache_response (mp\<lparr>pool_data := d\<rparr>) (k\<lparr>c_objs := objs', c_len := c_len k + req\<rparr>) n =
               Some (mp\<lparr>pool_data := d\<rparr>, cache', out, 0)"
            "opt_cache_ok cache'" "cache_bag k + mset objs = opt_cache_bag cache' + mset out" "length out = unat n"
          using backfill_conserves [OF ok 3 req_def d(3), of "mp\<lparr>pool_data := d\<rparr>"] by blast
        have "bag mp + cache_bag k = bag (mp\<lparr>pool_data := d\<rparr>) + (cache_bag k + mset objs)" using d(4) by simp
        then have "bag mp + cache_bag k = bag (mp\<lparr>pool_data := d\<rparr>) + opt_cache_bag cache' + mset out"
          by (simp only: b(4) add.assoc)
        moreover have "\<not> s < 0 \<or> s \<noteq> 0 \<and> req = 0" using d(6) by (auto simp: word_gt_0)
        moreover have "req \<noteq> 0"
        proof
          assume "req = 0"
          then have "c_len k = n + c_size k" unfolding req_def by (simp add: algebra_simps)
          moreover have "unat (n + c_size k) = unat n + unat (c_size k)"
            using 3 cache_okD(2) [OF ok] by (subst unat_plus_simple) (simp_all add: word_less_nat_alt)
          ultimately show False using 3 by (simp add: word_less_nat_alt)
        qed
        ultimately show ?thesis using d b 3 Some
          by (intro exI [of _ d] exI [of _ cache'] exI [of _ out] exI [of _ 0])
            (simp add: mempool_generic_get_def req_def [symmetric] not_le [symmetric])
      next
        case False
        then obtain s where "s < 0" "rte_mempool_ops_dequeue_bulk tbl mp req = Some (mp, [], s)"
          using dequeue_fail [OF inv, of req] by auto
        then show ?thesis using 3 Some
          by (intro direct) (simp add: mempool_generic_get_def req_def [symmetric] not_le [symmetric])
      qed
    qed
  qed
qed

lemma cached_put_conserves:
  assumes inv: "pinv mp" and ok: "cache_ok k" and l: "length objs = unat n"
    and small: "\<not> n > RTE_MEMPOOL_CACHE_MAX_SIZE"
    and room: "size (bag mp) + size (cache_bag k) + unat n \<le> cap mp"
  shows "\<exists>d k'. mempool_generic_put tbl mp objs n (Some k) = Some (mp\<lparr>pool_data := d\<rparr>, Some k') \<and>
    pinv (mp\<lparr>pool_data := d\<rparr>) \<and> cap (mp\<lparr>pool_data := d\<rparr>) = cap mp \<and> cache_ok k' \<and>
    bag (mp\<lparr>pool_data := d\<rparr>) + cache_bag k' = bag mp + cache_bag k + mset objs"
proof -
  note k = cache_okD [OF ok]
  have n512: "unat n \<le> 512" using small by (simp add: RTE_MEMPOOL_CACHE_MAX_SIZE_def word_less_nat_alt)
  have ul: "unat (c_len k + n) = unat (c_len k) + unat n"
    using k n512 by (subst unat_plus_simple) simp_all
  define objs' where "objs' = take (unat (c_len k)) (c_objs k) @ objs @ drop (unat (c_len k) + unat n) (c_objs k)"
  have cp: "obj_copy (c_objs k) (c_len k) objs n = Some objs'"
    using k n512 l by (simp add: obj_copy_def objs'_def)
  have lo: "length objs' = 1536" using k n512 l by (simp add: objs'_def)
  let ?k = "k\<lparr>c_objs := objs', c_len := c_len k + n\<rparr>"
  have cb: "cache_bag ?k = cache_bag k + mset objs"
    using ul k l by (simp add: cache_bag_def objs'_def)
  show ?thesis
  proof (cases "c_flushthresh k \<le> c_len k + n")
    case False
    then have "cache_ok ?k" using k ok lo by (intro cache_okI) (auto simp: cache_ok_def word_le_nat_alt)
    with False small cp cb inv show ?thesis
      by (intro exI [of _ "pool_data mp"] exI [of _ ?k]) (simp add: mempool_generic_put_def algebra_simps)
  next
    case True
    then have ge: "unat (c_size k) * 3 div 2 \<le> unat (c_len k) + unat n" using ul k by (simp add: word_le_nat_alt)
    then have sz: "unat (c_size k) \<le> unat (c_len k) + unat n" by linarith
    then have us: "unat (c_len k + n - c_size k) = unat (c_len k) + unat n - unat (c_size k)"
      using ul by (subst unat_sub_simple) (simp_all add: word_le_nat_alt)
    define ex where "ex = take (unat (c_len k) + unat n - unat (c_size k)) (drop (unat (c_size k)) objs')"
    have rg: "obj_range objs' (c_size k) (c_len k + n - c_size k) = Some ex"
      using us sz lo k n512 by (simp add: obj_range_def ex_def)
    have lex: "length ex = unat (c_len k + n - c_size k)" using us sz lo k n512 by (simp add: ex_def)
    have split: "take (unat (c_len k) + unat n) objs' = take (unat (c_size k)) objs' @ ex"
      unfolding ex_def using sz by (metis le_add_diff_inverse take_add)
    have bags: "cache_bag ?k = cache_bag (?k\<lparr>c_len := c_size k\<rparr>) + mset ex"
      using split ul by (simp add: cache_bag_def)
    have "size (bag mp) + unat (c_len k + n - c_size k) \<le> cap mp"
      using room us k by (simp add: cache_bag_def)
    then obtain d s where d: "rte_mempool_ops_enqueue_bulk tbl mp ex (c_len k + n - c_size k) = Some (mp\<lparr>pool_data := d\<rparr>, s)"
        "pinv (mp\<lparr>pool_data := d\<rparr>)" "bag (mp\<lparr>pool_data := d\<rparr>) = bag mp + mset ex" "cap (mp\<lparr>pool_data := d\<rparr>) = cap mp"
      using enqueue [OF inv lex] by blast
    have "cache_ok (?k\<lparr>c_len := c_size k\<rparr>)" using k ok lo by (intro cache_okI) (auto simp: cache_ok_def)
    with True small cp rg d bags cb show ?thesis
      by (intro exI [of _ d] exI [of _ "?k\<lparr>c_len := c_size k\<rparr>"]) (simp add: mempool_generic_put_def algebra_simps)
  qed
qed

lemma put_conserves:
  assumes inv: "pinv mp" and c: "opt_cache_ok cache" and n: "unat n \<le> length objs"
    and room: "size (bag mp) + size (opt_cache_bag cache) + unat n \<le> cap mp"
  shows "\<exists>d cache'. mempool_generic_put tbl mp (take (unat n) objs) n cache = Some (mp\<lparr>pool_data := d\<rparr>, cache') \<and>
    pinv (mp\<lparr>pool_data := d\<rparr>) \<and> cap (mp\<lparr>pool_data := d\<rparr>) = cap mp \<and> opt_cache_ok cache' \<and>
    bag (mp\<lparr>pool_data := d\<rparr>) + opt_cache_bag cache' = bag mp + opt_cache_bag cache + mset (take (unat n) objs)"
proof -
  have l: "length (take (unat n) objs) = unat n" using n by simp
  obtain d s where d: "rte_mempool_ops_enqueue_bulk tbl mp (take (unat n) objs) n = Some (mp\<lparr>pool_data := d\<rparr>, s)"
      "pinv (mp\<lparr>pool_data := d\<rparr>)" "bag (mp\<lparr>pool_data := d\<rparr>) = bag mp + mset (take (unat n) objs)"
      "cap (mp\<lparr>pool_data := d\<rparr>) = cap mp"
    using enqueue [OF inv l] room by auto
  have direct: ?thesis if "mempool_generic_put tbl mp (take (unat n) objs) n cache =
      do { (mp, _) \<leftarrow> rte_mempool_ops_enqueue_bulk tbl mp (take (unat n) objs) n; Some (mp, cache) }"
    using d c that by (intro exI [of _ d] exI [of _ cache]) simp
  show ?thesis
  proof (cases cache)
    case None
    then show ?thesis by (intro direct) (simp add: mempool_generic_put_def)
  next
    case (Some k)
    with c have ok: "cache_ok k" by simp
    show ?thesis
    proof (cases "n > RTE_MEMPOOL_CACHE_MAX_SIZE")
      case True
      then show ?thesis using Some by (intro direct) (simp add: mempool_generic_put_def)
    next
      case False
      have "\<exists>d k'. mempool_generic_put tbl mp (take (unat n) objs) n (Some k) = Some (mp\<lparr>pool_data := d\<rparr>, Some k') \<and>
          pinv (mp\<lparr>pool_data := d\<rparr>) \<and> cap (mp\<lparr>pool_data := d\<rparr>) = cap mp \<and> cache_ok k' \<and>
          bag (mp\<lparr>pool_data := d\<rparr>) + cache_bag k' = bag mp + cache_bag k + mset (take (unat n) objs)"
        using cached_put_conserves [OF inv ok l False] room Some by simp
      then show ?thesis using Some by auto
    qed
  qed
qed

lemma get_bulk_conserves:
  assumes "pool_ok pinv mp"
  shows "\<exists>mp' objs s. rte_mempool_get_bulk tbl lcore mp n = Some (mp', objs, s) \<and> pool_ok pinv mp' \<and>
    cap mp' = cap mp \<and> pool_total bag mp = pool_total bag mp' + mset objs \<and>
    (s = 0 \<longrightarrow> length objs = unat n) \<and> (s \<noteq> 0 \<longrightarrow> s < 0 \<and> objs = []) \<and>
    (0 < n \<and> unat n \<le> size (bag mp) \<longrightarrow> s = 0)"
proof (cases "rte_mempool_default_cache mp lcore")
  case None
  have pinv: "pinv mp" using assms(1) by (simp add: pool_ok_def)
  obtain d cache' objs s where g: "mempool_generic_get tbl mp n None = Some (mp\<lparr>pool_data := d\<rparr>, cache', objs, s)"
      "pinv (mp\<lparr>pool_data := d\<rparr>)" "cap (mp\<lparr>pool_data := d\<rparr>) = cap mp"
      "bag mp + opt_cache_bag None = bag (mp\<lparr>pool_data := d\<rparr>) + opt_cache_bag cache' + mset objs"
      "s = 0 \<longrightarrow> length objs = unat n" "s \<noteq> 0 \<longrightarrow> s < 0 \<and> objs = []" "0 < n \<and> unat n \<le> size (bag mp) \<longrightarrow> s = 0"
    using get_conserves [OF pinv, of None n] opt_cache_ok.simps(1) by blast
  have "cache' = None" using generic_get_cache [OF g(1)] by simp
  then have "pool_total bag mp = pool_total bag (mp\<lparr>pool_data := d\<rparr>) + mset objs"
    using g(4) by (simp add: pool_total_def)
  moreover have "rte_mempool_get_bulk tbl lcore mp n = Some (mp\<lparr>pool_data := d\<rparr>, objs, s)"
    using None g(1) by (simp add: rte_mempool_get_bulk_def)
  moreover have "pool_ok pinv (mp\<lparr>pool_data := d\<rparr>)" using assms g(2) by (simp add: pool_ok_def)
  ultimately show ?thesis using g(3,5-7) by blast
next
  case (Some i)
  then have i: "i < RTE_MAX_LCORE" "cache_size mp \<noteq> 0"
    by (auto simp: rte_mempool_default_cache_def split: if_splits)
  have ok: "pinv mp" "caches_ok mp" using assms by (simp_all add: pool_ok_def)
  note u = cached_update [OF ok(2) i]
  have oc: "opt_cache_ok (Some (local_cache mp ! i))" using u(3) by simp
  obtain d cache' objs s where g: "mempool_generic_get tbl mp n (Some (local_cache mp ! i)) = Some (mp\<lparr>pool_data := d\<rparr>, cache', objs, s)"
      "pinv (mp\<lparr>pool_data := d\<rparr>)" "cap (mp\<lparr>pool_data := d\<rparr>) = cap mp" "opt_cache_ok cache'"
      "bag mp + opt_cache_bag (Some (local_cache mp ! i)) = bag (mp\<lparr>pool_data := d\<rparr>) + opt_cache_bag cache' + mset objs"
      "s = 0 \<longrightarrow> length objs = unat n" "s \<noteq> 0 \<longrightarrow> s < 0 \<and> objs = []" "0 < n \<and> unat n \<le> size (bag mp) \<longrightarrow> s = 0"
    using get_conserves [OF ok(1) oc, of n] by blast
  obtain c where c: "cache' = Some c" "cache_ok c" using generic_get_cache [OF g(1)] g(4) by (cases cache') auto
  let ?mp = "mp\<lparr>pool_data := d, local_cache := (local_cache mp)[i := c]\<rparr>"
  have "pinv ?mp" "bag ?mp = bag (mp\<lparr>pool_data := d\<rparr>)" "cap ?mp = cap mp"
    using g frame [where mp = "mp\<lparr>pool_data := d\<rparr>"] by simp_all
  moreover have ca: "cached ?mp + cache_bag (local_cache mp ! i) = cached mp + cache_bag c" "caches_ok ?mp"
    using cached_update(1,2) [where mp = "mp\<lparr>pool_data := d\<rparr>" and i = i and c = c] ok(2) i c(2) by simp_all
  moreover have "bag mp + cached mp = bag (mp\<lparr>pool_data := d\<rparr>) + cached ?mp + mset objs"
  proof -
    have "bag mp + cached mp + (cache_bag c + cache_bag (local_cache mp ! i)) =
        (bag (mp\<lparr>pool_data := d\<rparr>) + cached ?mp + mset objs) + (cache_bag c + cache_bag (local_cache mp ! i))"
      using g(5) ca(1) c(1) by (simp add: ac_simps)
    then show ?thesis by (simp only: add_right_cancel)
  qed
  moreover have "rte_mempool_get_bulk tbl lcore mp n = Some (?mp, objs, s)"
    using Some g(1) c(1) by (simp add: rte_mempool_get_bulk_def)
  ultimately show ?thesis using g(6-8) unfolding pool_ok_def pool_total_def by metis
qed

lemma put_bulk_conserves:
  assumes "pool_ok pinv mp" "length objs = unat n" "size (pool_total bag mp) + unat n \<le> cap mp"
  shows "\<exists>mp'. rte_mempool_put_bulk tbl lcore mp objs n = Some mp' \<and> pool_ok pinv mp' \<and> cap mp' = cap mp \<and>
    pool_total bag mp' = pool_total bag mp + mset objs"
proof (cases "rte_mempool_default_cache mp lcore")
  case None
  have pinv: "pinv mp" using assms(1) by (simp add: pool_ok_def)
  obtain d cache' where g: "mempool_generic_put tbl mp objs n None = Some (mp\<lparr>pool_data := d\<rparr>, cache')"
      "pinv (mp\<lparr>pool_data := d\<rparr>)" "cap (mp\<lparr>pool_data := d\<rparr>) = cap mp"
      "bag (mp\<lparr>pool_data := d\<rparr>) + opt_cache_bag cache' = bag mp + opt_cache_bag None + mset objs"
  proof -
    have "size (bag mp) + size (opt_cache_bag None) + unat n \<le> cap mp" using assms(3) by (simp add: pool_total_def)
    with put_conserves [OF pinv, of None n objs] assms(2) that show ?thesis by auto
  qed
  have "cache' = None" using generic_put_cache [OF g(1)] by simp
  then have "pool_total bag (mp\<lparr>pool_data := d\<rparr>) = pool_total bag mp + mset objs"
    using g(4) by (simp add: pool_total_def)
  moreover have "rte_mempool_put_bulk tbl lcore mp objs n = Some (mp\<lparr>pool_data := d\<rparr>)"
    using None g(1) by (simp add: rte_mempool_put_bulk_def)
  moreover have "pool_ok pinv (mp\<lparr>pool_data := d\<rparr>)" using assms(1) g(2) by (simp add: pool_ok_def)
  ultimately show ?thesis using g(3) by blast
next
  case (Some i)
  then have i: "i < RTE_MAX_LCORE" "cache_size mp \<noteq> 0"
    by (auto simp: rte_mempool_default_cache_def split: if_splits)
  have ok: "pinv mp" "caches_ok mp" using assms by (simp_all add: pool_ok_def)
  note u = cached_update [OF ok(2) i]
  have oc: "opt_cache_ok (Some (local_cache mp ! i))" using u(3) by simp
  have room: "size (bag mp) + size (opt_cache_bag (Some (local_cache mp ! i))) + unat n \<le> cap mp"
    using size_mset_mono [OF u(4)] assms(3) by (simp add: pool_total_def)
  have l: "unat n \<le> length objs" "take (unat n) objs = objs" using assms(2) by simp_all
  obtain d cache' where g: "mempool_generic_put tbl mp objs n (Some (local_cache mp ! i)) = Some (mp\<lparr>pool_data := d\<rparr>, cache')"
      "pinv (mp\<lparr>pool_data := d\<rparr>)" "cap (mp\<lparr>pool_data := d\<rparr>) = cap mp" "opt_cache_ok cache'"
      "bag (mp\<lparr>pool_data := d\<rparr>) + opt_cache_bag cache' = bag mp + opt_cache_bag (Some (local_cache mp ! i)) + mset objs"
    using put_conserves [OF ok(1) oc l(1) room] unfolding l(2) by blast
  obtain c where c: "cache' = Some c" "cache_ok c" using generic_put_cache [OF g(1)] g(4) by (cases cache') auto
  let ?mp = "mp\<lparr>pool_data := d, local_cache := (local_cache mp)[i := c]\<rparr>"
  have "pinv ?mp" "bag ?mp = bag (mp\<lparr>pool_data := d\<rparr>)" "cap ?mp = cap mp"
    using g frame [where mp = "mp\<lparr>pool_data := d\<rparr>"] by simp_all
  moreover have ca: "cached ?mp + cache_bag (local_cache mp ! i) = cached mp + cache_bag c" "caches_ok ?mp"
    using cached_update(1,2) [where mp = "mp\<lparr>pool_data := d\<rparr>" and i = i and c = c] ok(2) i c(2) by simp_all
  moreover have "bag (mp\<lparr>pool_data := d\<rparr>) + cached ?mp = bag mp + cached mp + mset objs"
  proof -
    have "bag (mp\<lparr>pool_data := d\<rparr>) + cached ?mp + (cache_bag c + cache_bag (local_cache mp ! i)) =
        (bag mp + cached mp + mset objs) + (cache_bag c + cache_bag (local_cache mp ! i))"
      using g(5) ca(1) c(1) by (simp add: ac_simps)
    then show ?thesis by (simp only: add_right_cancel)
  qed
  moreover have "rte_mempool_put_bulk tbl lcore mp objs n = Some ?mp"
    using Some g(1) c(1) by (simp add: rte_mempool_put_bulk_def)
  ultimately show ?thesis unfolding pool_ok_def pool_total_def by metis
qed

lemma pool_step_balanced:
  assumes "pool_step tbl st st'" "pool_balanced pinv bag cap all k st"
  shows "pool_balanced pinv bag cap all k st'"
  using assms
proof (induction rule: pool_step.induct)
  case (get lcore mp n mp' objs s held)
  then show ?case
    using get_bulk_conserves [of mp lcore n] by (auto simp: pool_balanced_def ac_simps)
next
  case (put objs held n lcore mp mp')
  have "size (pool_total bag mp) + size held \<le> k" using put.prems by (auto simp: pool_balanced_def)
  moreover have "unat n \<le> size held" using size_mset_mono [OF put.hyps(1)] put.hyps(2) by simp
  ultimately have "size (pool_total bag mp) + unat n \<le> cap mp" using put.prems by (simp add: pool_balanced_def)
  then have "pool_ok pinv mp' \<and> cap mp' = cap mp \<and> pool_total bag mp' = pool_total bag mp + mset objs"
    using put_bulk_conserves [of mp objs n lcore] put by (auto simp: pool_balanced_def)
  moreover have "mset objs + (held - mset objs) = held" using put.hyps(1) by simp
  ultimately show ?case using put.prems by (auto simp: pool_balanced_def add.assoc)
qed

lemma pool_run_balanced:
  assumes "(pool_step tbl)\<^sup>*\<^sup>* st st'" "pool_balanced pinv bag cap all k st"
  shows "pool_balanced pinv bag cap all k st'"
  using assms by (induction rule: rtranclp_induct) (auto intro: pool_step_balanced)

lemma sum_list_len:
  assumes "list_all cache_ok cs"
  shows "size (\<Sum>\<^sub># (image_mset cache_bag (mset cs))) = sum_list (map (\<lambda>c. unat (c_len c)) cs)"
  using assms
proof (induction cs)
  case (Cons c cs)
  then show ?case using cache_okD [of c] by (simp add: cache_bag_def)
qed simp

lemma unat_sum_list_len:
  assumes "sum_list (map (\<lambda>c. unat (c_len c)) cs) < 2 ^ 32"
  shows "unat (sum_list (map c_len cs)) = sum_list (map (\<lambda>c. unat (c_len c)) cs)"
  using assms by (induction cs) (simp_all add: unat_plus_simple)

lemma avail_count_total:
  assumes ok: "pool_ok pinv mp" and small: "size (pool_total bag mp) \<le> unat (mp_size mp)"
  shows "\<exists>cnt. rte_mempool_avail_count tbl mp = Some cnt \<and> unat cnt = size (pool_total bag mp)"
proof -
  obtain c0 where c0: "rte_mempool_ops_get_count tbl mp = Some c0" "unat c0 = size (bag mp)"
    using get_count [of mp] ok by (auto simp: pool_ok_def)
  have lim: "unat (mp_size mp) < 2 ^ 32" using unat_lt_2p [of "mp_size mp"] by simp
  show ?thesis
  proof (cases "cache_size mp = 0")
    case True
    with c0 show ?thesis
      by (simp add: rte_mempool_avail_count_def pool_total_def cached_def pool_caches_def)
  next
    case False
    let ?cs = "local_cache mp"
    have l: "take RTE_MAX_LCORE ?cs = ?cs" "list_all cache_ok ?cs"
      using ok False by (auto simp: pool_ok_def caches_ok_def pool_caches_def)
    have cs: "size (cached mp) = sum_list (map (\<lambda>c. unat (c_len c)) ?cs)"
      using sum_list_len [OF l(2)] False by (simp add: cached_def pool_caches_def)
    then have us: "unat (sum_list (map c_len ?cs)) = size (cached mp)"
      using small lim by (subst unat_sum_list_len) (simp_all add: pool_total_def)
    have "unat (c0 + sum_list (map c_len ?cs)) = size (pool_total bag mp)"
      using c0 us small lim by (subst unat_plus_simple) (simp_all add: pool_total_def)
    with c0 small l False show ?thesis
      by (simp add: rte_mempool_avail_count_def word_less_nat_alt Let_def)
  qed
qed

end

end
