(* ===== verification/MempoolDrivers.thy ===== *)
theory MempoolDrivers
  imports Mempool
begin

text \<open>
  Model of the two pool drivers under \<^verbatim>\<open>drivers/mempool\<close>: the ring driver
  (\<^verbatim>\<open>ring/rte_mempool_ring.c\<close>), in its four variants, and the stack driver
  (\<^verbatim>\<open>stack/rte_mempool_stack.c\<close>). Both implement the driver interface of the pool.
\<close>

section \<open>The ring driver\<close>

definition ring_status :: "addr \<Rightarrow> rte_mempool \<Rightarrow> (addr rte_ring \<times> u32 \<times> u32) option \<Rightarrow> (rte_mempool \<times> int) option" where
  "ring_status a mp res = do {
     (r, n, free) \<leftarrow> res;
     Some (mp\<lparr>pool_data := PoolRing a r\<rparr>, if n = 0 then - errno_code ENOBUFS else 0) }"

definition common_ring_mp_enqueue :: "rte_mempool \<Rightarrow> addr list \<Rightarrow> u32 \<Rightarrow> (rte_mempool \<times> int) option" where
  "common_ring_mp_enqueue mp obj_table n = (case pool_data mp of
     PoolRing a r \<Rightarrow> ring_status a mp (rte_ring_mp_enqueue_bulk r obj_table n) | _ \<Rightarrow> None)"

definition common_ring_sp_enqueue :: "rte_mempool \<Rightarrow> addr list \<Rightarrow> u32 \<Rightarrow> (rte_mempool \<times> int) option" where
  "common_ring_sp_enqueue mp obj_table n = (case pool_data mp of
     PoolRing a r \<Rightarrow> ring_status a mp (rte_ring_sp_enqueue_bulk r obj_table n) | _ \<Rightarrow> None)"

definition ring_objs :: "addr \<Rightarrow> rte_mempool \<Rightarrow> (addr rte_ring \<times> addr list \<times> u32) option \<Rightarrow>
    (rte_mempool \<times> addr list \<times> int) option" where
  "ring_objs a mp res = do {
     (r, objs, avail) \<leftarrow> res;
     Some (mp\<lparr>pool_data := PoolRing a r\<rparr>, objs, if objs = [] then - errno_code ENOBUFS else 0) }"

definition common_ring_mc_dequeue :: "rte_mempool \<Rightarrow> u32 \<Rightarrow> (rte_mempool \<times> addr list \<times> int) option" where
  "common_ring_mc_dequeue mp n = (case pool_data mp of
     PoolRing a r \<Rightarrow> ring_objs a mp (rte_ring_mc_dequeue_bulk r n) | _ \<Rightarrow> None)"

definition common_ring_sc_dequeue :: "rte_mempool \<Rightarrow> u32 \<Rightarrow> (rte_mempool \<times> addr list \<times> int) option" where
  "common_ring_sc_dequeue mp n = (case pool_data mp of
     PoolRing a r \<Rightarrow> ring_objs a mp (rte_ring_sc_dequeue_bulk r n) | _ \<Rightarrow> None)"

definition common_ring_get_count :: "rte_mempool \<Rightarrow> u32 option" where
  "common_ring_get_count mp = (case pool_data mp of PoolRing a r \<Rightarrow> Some (rte_ring_count r) | _ \<Rightarrow> None)"

definition RTE_MEMPOOL_MZ_PREFIX :: string where
  "RTE_MEMPOOL_MZ_PREFIX = ''MP_''"

definition common_ring_alloc :: "pool_env \<Rightarrow> rte_mempool \<Rightarrow> pool_env \<times> rte_mempool \<times> int" where
  "common_ring_alloc env mp =
     (let rg_name = RTE_MEMPOOL_MZ_PREFIX @ mp_name mp
      in if length rg_name \<ge> RTE_RING_NAMESIZE
         then (env\<lparr>rings := (rings env)\<lparr>rte_errno := errno_code ENAMETOOLONG\<rparr>\<rparr>, mp, - errno_code ENAMETOOLONG)
         else
           let rg_flags = (if mp_flags mp AND MEMPOOL_F_SP_PUT \<noteq> 0 then RING_F_SP_ENQ else 0)
                 OR (if mp_flags mp AND MEMPOOL_F_SC_GET \<noteq> 0 then RING_F_SC_DEQ else 0);
               (renv, a) = rte_ring_create (te_alloc_ok env) (mz_reserve env) rg_name
                 (rte_align32pow2 (mp_size mp + 1)) rg_flags (rings env);
               env = env\<lparr>rings := renv\<rparr>
           in if a = NULL then (env, mp, - rte_errno renv)
              else case ring_mem renv a of
                     None \<Rightarrow> (env, mp, 0)
                   | Some r \<Rightarrow> (env, mp\<lparr>pool_data := PoolRing a r\<rparr>, 0))"

definition common_ring_free :: "pool_env \<Rightarrow> rte_mempool \<Rightarrow> pool_env option" where
  "common_ring_free env mp = (case pool_data mp of
     PoolRing a r \<Rightarrow> map_option (\<lambda>re. env\<lparr>rings := re\<rparr>) (rte_ring_free (mz_free env) a (rings env))
   | PoolNone \<Rightarrow> Some env
   | PoolStack s \<Rightarrow> None)"

definition ops_mp_mc :: rte_mempool_ops where
  "ops_mp_mc = \<lparr>ops_name = ''ring_mp_mc'', ops_alloc = Some common_ring_alloc, ops_free = Some common_ring_free,
     ops_enqueue = Some common_ring_mp_enqueue, ops_dequeue = Some common_ring_mc_dequeue,
     ops_get_count = Some common_ring_get_count\<rparr>"

definition ops_sp_sc :: rte_mempool_ops where
  "ops_sp_sc = \<lparr>ops_name = ''ring_sp_sc'', ops_alloc = Some common_ring_alloc, ops_free = Some common_ring_free,
     ops_enqueue = Some common_ring_sp_enqueue, ops_dequeue = Some common_ring_sc_dequeue,
     ops_get_count = Some common_ring_get_count\<rparr>"

definition ops_mp_sc :: rte_mempool_ops where
  "ops_mp_sc = \<lparr>ops_name = ''ring_mp_sc'', ops_alloc = Some common_ring_alloc, ops_free = Some common_ring_free,
     ops_enqueue = Some common_ring_mp_enqueue, ops_dequeue = Some common_ring_sc_dequeue,
     ops_get_count = Some common_ring_get_count\<rparr>"

definition ops_sp_mc :: rte_mempool_ops where
  "ops_sp_mc = \<lparr>ops_name = ''ring_sp_mc'', ops_alloc = Some common_ring_alloc, ops_free = Some common_ring_free,
     ops_enqueue = Some common_ring_sp_enqueue, ops_dequeue = Some common_ring_mc_dequeue,
     ops_get_count = Some common_ring_get_count\<rparr>"

section \<open>The stack driver\<close>

definition sizeof_rte_mempool_stack :: u64 where
  "sizeof_rte_mempool_stack = 16"

text \<open>
  The size is computed in 64 bits from the 32-bit \<open>n + 16\<close>, stored in an \<^verbatim>\<open>int\<close> and passed
  to the allocator as a \<^verbatim>\<open>size_t\<close>: it is truncated to 32 bits and sign-extended.
\<close>

definition stack_alloc_size :: "u32 \<Rightarrow> u64" where
  "stack_alloc_size n = scast (ucast (sizeof_rte_mempool_stack + ucast (n + 16) * 8) :: u32)"

definition stack_alloc :: "pool_env \<Rightarrow> rte_mempool \<Rightarrow> pool_env \<times> rte_mempool \<times> int" where
  "stack_alloc env mp =
     (let n = mp_size mp; sz = stack_alloc_size n
      in if \<not> heap_ok env sz then (env, mp, - errno_code ENOMEM)
         else (env, mp\<lparr>pool_data := PoolStack \<lparr>st_size = n, st_len = 0,
                 st_objs = replicate ((unat sz - 16) div 8) NULL\<rparr>\<rparr>, 0))"

definition stack_enqueue :: "rte_mempool \<Rightarrow> addr list \<Rightarrow> u32 \<Rightarrow> (rte_mempool \<times> int) option" where
  "stack_enqueue mp obj_table n = (case pool_data mp of
     PoolStack s \<Rightarrow>
       if st_len s + n > st_size s then Some (mp, - errno_code ENOBUFS)
       else do {
         objs \<leftarrow> obj_copy (st_objs s) (st_len s) obj_table n;
         Some (mp\<lparr>pool_data := PoolStack (s\<lparr>st_objs := objs, st_len := st_len s + n\<rparr>)\<rparr>, 0) }
   | _ \<Rightarrow> None)"

definition stack_dequeue :: "rte_mempool \<Rightarrow> u32 \<Rightarrow> (rte_mempool \<times> addr list \<times> int) option" where
  "stack_dequeue mp n = (case pool_data mp of
     PoolStack s \<Rightarrow>
       if n > st_len s then Some (mp, [], - errno_code ENOENT)
       else do {
         objs \<leftarrow> read_down (st_objs s) (st_len s - 1) (unat n);
         Some (mp\<lparr>pool_data := PoolStack (s\<lparr>st_len := st_len s - n\<rparr>)\<rparr>, objs, 0) }
   | _ \<Rightarrow> None)"

definition stack_get_count :: "rte_mempool \<Rightarrow> u32 option" where
  "stack_get_count mp = (case pool_data mp of PoolStack s \<Rightarrow> Some (st_len s) | _ \<Rightarrow> None)"

definition stack_free :: "pool_env \<Rightarrow> rte_mempool \<Rightarrow> pool_env option" where
  "stack_free env mp = Some env"

definition ops_stack :: rte_mempool_ops where
  "ops_stack = \<lparr>ops_name = ''stack'', ops_alloc = Some stack_alloc, ops_free = Some stack_free,
     ops_enqueue = Some stack_enqueue, ops_dequeue = Some stack_dequeue, ops_get_count = Some stack_get_count\<rparr>"

text \<open>The table after the registration of both drivers.\<close>

definition ops_table :: "rte_mempool_ops list" where
  "ops_table = [ops_mp_mc, ops_sp_sc, ops_mp_sc, ops_sp_mc, ops_stack]"

section \<open>The ring driver implements the interface\<close>

definition ring_pool_inv :: "rte_mempool \<Rightarrow> bool" where
  "ring_pool_inv mp \<longleftrightarrow> ops_index mp < 4 \<and> (\<exists>a r. pool_data mp = PoolRing a r \<and> ring_inv r)"

definition ring_pool_bag :: "rte_mempool \<Rightarrow> addr multiset" where
  "ring_pool_bag mp = (case pool_data mp of PoolRing a r \<Rightarrow> mset (ring_list r) | _ \<Rightarrow> {#})"

definition ring_pool_cap :: "rte_mempool \<Rightarrow> nat" where
  "ring_pool_cap mp = (case pool_data mp of PoolRing a r \<Rightarrow> unat (ring_capacity r) | _ \<Rightarrow> 0)"

lemmas ops_defs = ops_mp_mc_def ops_sp_sc_def ops_mp_sc_def ops_sp_mc_def ops_stack_def
  rte_mempool_get_ops_def RTE_MEMPOOL_MAX_OPS_IDX_def ops_table_def

lemma ring_ops_enqueue:
  assumes "ops_index mp < 4" "pool_data mp = PoolRing a r"
  shows "\<exists>sp. rte_mempool_ops_enqueue_bulk ops_table mp objs n =
    ring_status a mp (rte_ring_do_enqueue r objs n RTE_RING_QUEUE_FIXED sp)"
proof -
  have "ops_index mp \<in> {0, 1, 2, 3}" using assms(1) by auto
  then show ?thesis using assms(2)
    by (auto simp: rte_mempool_ops_enqueue_bulk_def ops_defs common_ring_mp_enqueue_def common_ring_sp_enqueue_def
        rte_ring_mp_enqueue_bulk_def rte_ring_sp_enqueue_bulk_def)
qed

lemma ring_ops_dequeue:
  assumes "ops_index mp < 4" "pool_data mp = PoolRing a r"
  shows "\<exists>sc. rte_mempool_ops_dequeue_bulk ops_table mp n =
    ring_objs a mp (rte_ring_do_dequeue r n RTE_RING_QUEUE_FIXED sc)"
proof -
  have "ops_index mp \<in> {0, 1, 2, 3}" using assms(1) by auto
  then show ?thesis using assms(2)
    by (auto simp: rte_mempool_ops_dequeue_bulk_def ops_defs common_ring_mc_dequeue_def common_ring_sc_dequeue_def
        rte_ring_mc_dequeue_bulk_def rte_ring_sc_dequeue_bulk_def)
qed

lemma ring_ops_count:
  assumes "ops_index mp < 4" "pool_data mp = PoolRing a r"
  shows "rte_mempool_ops_get_count ops_table mp = Some (rte_ring_count r)"
proof -
  have "ops_index mp \<in> {0, 1, 2, 3}" using assms(1) by auto
  then show ?thesis using assms(2)
    by (auto simp: rte_mempool_ops_get_count_def ops_defs common_ring_get_count_def)
qed

lemma ring_pool_enqueue:
  assumes inv: "ring_pool_inv mp" and l: "length objs = unat n"
    and room: "size (ring_pool_bag mp) + unat n \<le> ring_pool_cap mp"
  shows "\<exists>d s. rte_mempool_ops_enqueue_bulk ops_table mp objs n = Some (mp\<lparr>pool_data := d\<rparr>, s) \<and>
    ring_pool_inv (mp\<lparr>pool_data := d\<rparr>) \<and> ring_pool_bag (mp\<lparr>pool_data := d\<rparr>) = ring_pool_bag mp + mset objs \<and>
    ring_pool_cap (mp\<lparr>pool_data := d\<rparr>) = ring_pool_cap mp \<and> (0 < n \<longrightarrow> s = 0)"
proof -
  obtain a r where r: "pool_data mp = PoolRing a r" "ring_inv r" "ops_index mp < 4"
    using inv by (auto simp: ring_pool_inv_def)
  have "unat n \<le> ring_free r" using room r by (simp add: ring_pool_bag_def ring_pool_cap_def ring_free_def)
  then have k: "unat n = fits RTE_RING_QUEUE_FIXED (unat n) (ring_free r)" by (simp add: fits_def)
  obtain sp where sp: "rte_mempool_ops_enqueue_bulk ops_table mp objs n =
      ring_status a mp (rte_ring_do_enqueue r objs n RTE_RING_QUEUE_FIXED sp)"
    using ring_ops_enqueue [OF r(3,1)] by blast
  obtain r' where r': "rte_ring_do_enqueue r objs n RTE_RING_QUEUE_FIXED sp = Some (r', of_nat (unat n), of_nat (ring_free r - unat n))"
      "ring_inv r'" "ring_list r' = ring_list r @ take (unat n) objs" "ring_capacity r' = ring_capacity r"
    using ring_enqueue_spec [OF r(2) _ k, of objs sp] l by auto
  show ?thesis
    by (rule exI [of _ "PoolRing a r'"], rule exI [of _ "if n = 0 then - errno_code ENOBUFS else 0"])
      (use sp r r' l in \<open>simp add: ring_status_def ring_pool_inv_def ring_pool_bag_def ring_pool_cap_def\<close>)
qed

lemma ring_pool_dequeue:
  assumes inv: "ring_pool_inv mp" and le: "unat n \<le> size (ring_pool_bag mp)"
  shows "\<exists>d objs s. rte_mempool_ops_dequeue_bulk ops_table mp n = Some (mp\<lparr>pool_data := d\<rparr>, objs, s) \<and>
    ring_pool_inv (mp\<lparr>pool_data := d\<rparr>) \<and> length objs = unat n \<and>
    ring_pool_bag mp = ring_pool_bag (mp\<lparr>pool_data := d\<rparr>) + mset objs \<and>
    ring_pool_cap (mp\<lparr>pool_data := d\<rparr>) = ring_pool_cap mp \<and> (0 < n \<longrightarrow> s = 0) \<and> s \<le> 0"
proof -
  obtain a r where r: "pool_data mp = PoolRing a r" "ring_inv r" "ops_index mp < 4"
    using inv by (auto simp: ring_pool_inv_def)
  have used: "unat n \<le> ring_used r" using le r by (simp add: ring_pool_bag_def)
  then have k: "unat n = fits RTE_RING_QUEUE_FIXED (unat n) (ring_used r)" by (simp add: fits_def)
  obtain sc where sc: "rte_mempool_ops_dequeue_bulk ops_table mp n =
      ring_objs a mp (rte_ring_do_dequeue r n RTE_RING_QUEUE_FIXED sc)"
    using ring_ops_dequeue [OF r(3,1)] by blast
  obtain r' where r': "rte_ring_do_dequeue r n RTE_RING_QUEUE_FIXED sc =
        Some (r', take (unat n) (ring_list r), of_nat (ring_used r - unat n))"
      "ring_inv r'" "ring_list r' = drop (unat n) (ring_list r)" "ring_capacity r' = ring_capacity r"
    using ring_dequeue_spec [OF r(2) k, of sc] by blast
  let ?objs = "take (unat n) (ring_list r)"
  have l: "length ?objs = unat n" using used by simp
  then have "?objs = [] \<longleftrightarrow> n = 0" by (metis length_0_conv unat_eq_0)
  moreover have "mset (ring_list r) = mset (drop (unat n) (ring_list r)) + mset ?objs"
    by (metis append_take_drop_id mset_append union_commute)
  ultimately show ?thesis using l
    by (intro exI [of _ "PoolRing a r'"] exI [of _ ?objs] exI [of _ "if n = 0 then - errno_code ENOBUFS else 0"])
      (use sc r r' in \<open>simp add: ring_objs_def ring_pool_inv_def ring_pool_bag_def ring_pool_cap_def\<close>)
qed

lemma ring_pool_dequeue_fail:
  assumes inv: "ring_pool_inv mp" and gt: "size (ring_pool_bag mp) < unat n"
  shows "\<exists>s < 0. rte_mempool_ops_dequeue_bulk ops_table mp n = Some (mp, [], s)"
proof -
  obtain a r where r: "pool_data mp = PoolRing a r" "ring_inv r" "ops_index mp < 4"
    using inv by (auto simp: ring_pool_inv_def)
  have "ring_used r < unat n" using gt r by (simp add: ring_pool_bag_def)
  then have k: "0 = fits RTE_RING_QUEUE_FIXED (unat n) (ring_used r)" by (simp add: fits_def)
  obtain sc where sc: "rte_mempool_ops_dequeue_bulk ops_table mp n =
      ring_objs a mp (rte_ring_do_dequeue r n RTE_RING_QUEUE_FIXED sc)"
    using ring_ops_dequeue [OF r(3,1)] by blast
  have "rte_ring_do_dequeue r n RTE_RING_QUEUE_FIXED sc = Some (r, [], of_nat (ring_used r))"
    using do_dequeue_run [OF r(2) k, of sc] by simp
  moreover have "mp\<lparr>pool_data := PoolRing a r\<rparr> = mp" using r(1) by simp
  ultimately show ?thesis using sc by (simp add: ring_objs_def)
qed

interpretation ringpool: mempool_driver ops_table ring_pool_inv ring_pool_bag ring_pool_cap
proof
  fix mp lc
  show "ring_pool_inv (mp\<lparr>local_cache := lc\<rparr>) = ring_pool_inv mp" by (simp add: ring_pool_inv_def)
  show "ring_pool_bag (mp\<lparr>local_cache := lc\<rparr>) = ring_pool_bag mp" by (simp add: ring_pool_bag_def)
  show "ring_pool_cap (mp\<lparr>local_cache := lc\<rparr>) = ring_pool_cap mp" by (simp add: ring_pool_cap_def)
next
  fix mp assume "ring_pool_inv mp"
  then obtain a r where r: "pool_data mp = PoolRing a r" "ring_inv r" "ops_index mp < 4"
    by (auto simp: ring_pool_inv_def)
  then show "\<exists>cnt. rte_mempool_ops_get_count ops_table mp = Some cnt \<and> unat cnt = size (ring_pool_bag mp)"
    using ring_ops_count [OF r(3,1)] ring_count_used [OF r(2)] by (simp add: ring_pool_bag_def)
qed (rule ring_pool_enqueue ring_pool_dequeue ring_pool_dequeue_fail; assumption)+

section \<open>The stack driver implements the interface\<close>

definition stack_pool_inv :: "rte_mempool \<Rightarrow> bool" where
  "stack_pool_inv mp \<longleftrightarrow> ops_index mp = 4 \<and> (\<exists>s. pool_data mp = PoolStack s \<and>
     st_len s \<le> st_size s \<and> unat (st_size s) \<le> length (st_objs s))"

definition stack_pool_bag :: "rte_mempool \<Rightarrow> addr multiset" where
  "stack_pool_bag mp = (case pool_data mp of PoolStack s \<Rightarrow> mset (take (unat (st_len s)) (st_objs s)) | _ \<Rightarrow> {#})"

definition stack_pool_cap :: "rte_mempool \<Rightarrow> nat" where
  "stack_pool_cap mp = (case pool_data mp of PoolStack s \<Rightarrow> unat (st_size s) | _ \<Rightarrow> 0)"

lemma stack_pool_invD:
  assumes "stack_pool_inv mp"
  obtains s where "pool_data mp = PoolStack s" "unat (st_len s) \<le> unat (st_size s)"
    "unat (st_size s) \<le> length (st_objs s)" "ops_index mp = 4"
    "size (stack_pool_bag mp) = unat (st_len s)"
  using assms by (auto simp: stack_pool_inv_def stack_pool_bag_def word_le_nat_alt)

lemma stack_pool_enqueue:
  assumes inv: "stack_pool_inv mp" and l: "length objs = unat n"
    and room: "size (stack_pool_bag mp) + unat n \<le> stack_pool_cap mp"
  shows "\<exists>d s. rte_mempool_ops_enqueue_bulk ops_table mp objs n = Some (mp\<lparr>pool_data := d\<rparr>, s) \<and>
    stack_pool_inv (mp\<lparr>pool_data := d\<rparr>) \<and> stack_pool_bag (mp\<lparr>pool_data := d\<rparr>) = stack_pool_bag mp + mset objs \<and>
    stack_pool_cap (mp\<lparr>pool_data := d\<rparr>) = stack_pool_cap mp \<and> (0 < n \<longrightarrow> s = 0)"
proof -
  obtain s where s: "pool_data mp = PoolStack s" "unat (st_len s) \<le> unat (st_size s)"
      "unat (st_size s) \<le> length (st_objs s)" "ops_index mp = 4" "size (stack_pool_bag mp) = unat (st_len s)"
    using inv by (rule stack_pool_invD)
  have le: "unat (st_len s) + unat n \<le> unat (st_size s)" using room s by (simp add: stack_pool_cap_def)
  moreover have "unat (st_size s) < 2 ^ 32" using unat_lt_2p [of "st_size s"] by simp
  ultimately have ul: "unat (st_len s + n) = unat (st_len s) + unat n" by (subst unat_plus_simple) simp_all
  define s' where "s' = s\<lparr>st_objs := take (unat (st_len s)) (st_objs s) @ objs @ drop (unat (st_len s) + unat n) (st_objs s),
      st_len := st_len s + n\<rparr>"
  have "rte_mempool_ops_enqueue_bulk ops_table mp objs n = Some (mp\<lparr>pool_data := PoolStack s'\<rparr>, 0)"
    using s le ul l
    by (simp add: rte_mempool_ops_enqueue_bulk_def ops_defs stack_enqueue_def obj_copy_def s'_def word_less_nat_alt)
  moreover have "stack_pool_inv (mp\<lparr>pool_data := PoolStack s'\<rparr>)"
    using s le ul l by (auto simp: stack_pool_inv_def s'_def word_le_nat_alt)
  moreover have "stack_pool_bag (mp\<lparr>pool_data := PoolStack s'\<rparr>) = stack_pool_bag mp + mset objs"
    using s le ul l by (simp add: stack_pool_bag_def s'_def)
  moreover have "stack_pool_cap (mp\<lparr>pool_data := PoolStack s'\<rparr>) = stack_pool_cap mp"
    using s by (simp add: stack_pool_cap_def s'_def)
  ultimately show ?thesis by blast
qed

lemma stack_pool_dequeue:
  assumes inv: "stack_pool_inv mp" and le: "unat n \<le> size (stack_pool_bag mp)"
  shows "\<exists>d objs s. rte_mempool_ops_dequeue_bulk ops_table mp n = Some (mp\<lparr>pool_data := d\<rparr>, objs, s) \<and>
    stack_pool_inv (mp\<lparr>pool_data := d\<rparr>) \<and> length objs = unat n \<and>
    stack_pool_bag mp = stack_pool_bag (mp\<lparr>pool_data := d\<rparr>) + mset objs \<and>
    stack_pool_cap (mp\<lparr>pool_data := d\<rparr>) = stack_pool_cap mp \<and> (0 < n \<longrightarrow> s = 0) \<and> s \<le> 0"
proof -
  obtain s where s: "pool_data mp = PoolStack s" "unat (st_len s) \<le> unat (st_size s)"
      "unat (st_size s) \<le> length (st_objs s)" "ops_index mp = 4" "size (stack_pool_bag mp) = unat (st_len s)"
    using inv by (rule stack_pool_invD)
  let ?l = "unat (st_len s)" and ?n = "unat n"
  let ?s = "s\<lparr>st_len := st_len s - n\<rparr>"
  have n: "?n \<le> ?l" using le s by simp
  then have ul: "unat (st_len s - n) = ?l - ?n" by (simp add: unat_sub_simple word_le_nat_alt)
  define objs where "objs = rev (drop (?l - ?n) (take ?l (st_objs s)))"
  have "read_down (st_objs s) (of_nat ?l - 1) ?n = Some objs"
    unfolding objs_def using n s unat_lt_2p [of "st_len s"] by (intro read_down_rev) simp_all
  then have "rte_mempool_ops_dequeue_bulk ops_table mp n = Some (mp\<lparr>pool_data := PoolStack ?s\<rparr>, objs, 0)"
    using s n by (simp add: rte_mempool_ops_dequeue_bulk_def ops_defs stack_dequeue_def word_less_nat_alt)
  moreover have "stack_pool_inv (mp\<lparr>pool_data := PoolStack ?s\<rparr>)"
    using s ul by (auto simp: stack_pool_inv_def word_le_nat_alt)
  moreover have "length objs = ?n" using n s by (simp add: objs_def)
  moreover have "take ?l (st_objs s) = take (?l - ?n) (st_objs s) @ drop (?l - ?n) (take ?l (st_objs s))"
    by (metis append_take_drop_id diff_le_self min.absorb1 take_take)
  then have "mset (take ?l (st_objs s)) = mset (take (?l - ?n) (st_objs s)) + mset objs"
    by (metis mset_append mset_rev objs_def)
  then have "stack_pool_bag mp = stack_pool_bag (mp\<lparr>pool_data := PoolStack ?s\<rparr>) + mset objs"
    using s(1) ul by (simp add: stack_pool_bag_def)
  moreover have "stack_pool_cap (mp\<lparr>pool_data := PoolStack ?s\<rparr>) = stack_pool_cap mp"
    using s by (simp add: stack_pool_cap_def)
  ultimately show ?thesis by blast
qed

interpretation stackpool: mempool_driver ops_table stack_pool_inv stack_pool_bag stack_pool_cap
proof
  fix mp lc
  show "stack_pool_inv (mp\<lparr>local_cache := lc\<rparr>) = stack_pool_inv mp" by (simp add: stack_pool_inv_def)
  show "stack_pool_bag (mp\<lparr>local_cache := lc\<rparr>) = stack_pool_bag mp" by (simp add: stack_pool_bag_def)
  show "stack_pool_cap (mp\<lparr>local_cache := lc\<rparr>) = stack_pool_cap mp" by (simp add: stack_pool_cap_def)
next
  fix mp assume inv: "stack_pool_inv mp"
  then obtain s where s: "pool_data mp = PoolStack s" "ops_index mp = 4" "size (stack_pool_bag mp) = unat (st_len s)"
    by (rule stack_pool_invD)
  then show "\<exists>cnt. rte_mempool_ops_get_count ops_table mp = Some cnt \<and> unat cnt = size (stack_pool_bag mp)"
    by (simp add: rte_mempool_ops_get_count_def ops_defs stack_get_count_def)
  show "\<exists>e < 0. rte_mempool_ops_dequeue_bulk ops_table mp n = Some (mp, [], e)"
    if "size (stack_pool_bag mp) < unat n" for n
    using s that by (simp add: rte_mempool_ops_dequeue_bulk_def ops_defs stack_dequeue_def word_less_nat_alt)
qed (rule stack_pool_enqueue stack_pool_dequeue; assumption)+

section \<open>A small pool for the examples\<close>

definition pool_ring4 :: "addr rte_ring" where
  "pool_ring4 = fst (rte_ring_init [0, 0, 0, 0] ''MP_p'' 4 0)"

definition demo_pool :: "nat \<Rightarrow> pool_data \<Rightarrow> u32 \<Rightarrow> rte_mempool" where
  "demo_pool i d csz = \<lparr>mp_name = ''p'', pool_data = d, pool_config = NULL, mp_mz = 0x1000, mp_flags = 0,
     socket_id = 0, mp_size = 3, cache_size = csz, elt_size = 64, header_size = 64, trailer_size = 0,
     private_data_size = 0, ops_index = i, local_cache = replicate RTE_MAX_LCORE (mempool_cache_init zero_cache csz),
     populated_size = 0, elt_list = [], nb_mem_chunks = 0, mem_list = []\<rparr>"

lemma pool_ring4_inv: "ring_inv pool_ring4" "ring_list pool_ring4 = []" "ring_capacity pool_ring4 = 3"
proof -
  have s: "ring_size pool_ring4 = 2 ^ 2" "ring_mask pool_ring4 = 3" "ring_capacity pool_ring4 = 3" "length (slots pool_ring4) = 4"
    "head (prod pool_ring4) = 0" "tail (prod pool_ring4) = 0" "head (cons pool_ring4) = 0" "tail (cons pool_ring4) = 0"
    by (simp_all add: pool_ring4_def ring_init_eval)
  show "ring_inv pool_ring4" "ring_list pool_ring4 = []"
    by (rule fresh_ring_inv; (use s in \<open>auto intro!: exI [of _ 2]\<close>))+
  show "ring_capacity pool_ring4 = 3" by (rule s)
qed

lemma demo_caches_ok: "caches_ok (demo_pool i d 0)" "cached (demo_pool i d 0) = {#}"
  by (simp_all add: caches_ok_def cached_def pool_caches_def demo_pool_def)

lemma demo_ring_pool:
  "ring_pool_inv (demo_pool 0 (PoolRing 0x2000 pool_ring4) csz)"
  "ring_pool_bag (demo_pool 0 (PoolRing 0x2000 pool_ring4) csz) = {#}"
  "ring_pool_cap (demo_pool 0 (PoolRing 0x2000 pool_ring4) csz) = 3"
  by (simp_all add: ring_pool_inv_def ring_pool_bag_def ring_pool_cap_def demo_pool_def pool_ring4_inv)

definition demo_stack :: rte_mempool_stack where
  "demo_stack = \<lparr>st_size = 3, st_len = 0, st_objs = [0, 0, 0]\<rparr>"

lemma demo_stack_pool:
  "stack_pool_inv (demo_pool 4 (PoolStack demo_stack) csz)"
  "stack_pool_bag (demo_pool 4 (PoolStack demo_stack) csz) = {#}"
  "stack_pool_cap (demo_pool 4 (PoolStack demo_stack) csz) = 3"
  by (simp_all add: stack_pool_inv_def stack_pool_bag_def stack_pool_cap_def demo_pool_def demo_stack_def)

section \<open>Properties\<close>

text \<open>
  C26: however the lcores get objects from a ring pool and put them back, through their caches
  or not, the objects in the ring, in the caches and in the hands of the users are always the same
  bag: no object is lost or handed out twice.
\<close>

theorem ring_pool_conserves:
  assumes "pool_balanced ring_pool_inv ring_pool_bag ring_pool_cap all k (mp, held)"
    and "(pool_step ops_table)\<^sup>*\<^sup>* (mp, held) (mp', held')"
  shows "pool_balanced ring_pool_inv ring_pool_bag ring_pool_cap all k (mp', held') \<and>
    pool_total ring_pool_bag mp' + held' = all"
  using ringpool.pool_run_balanced [OF assms(2,1)] by (simp add: pool_balanced_def)

theorem ring_pool_conserves_witness:
  "\<exists>mp'. (pool_step ops_table)\<^sup>*\<^sup>* (demo_pool 0 (PoolRing 0x2000 pool_ring4) 0, {#0x40, 0x80#}) (mp', {#0x80#}) \<and>
    pool_total ring_pool_bag mp' + {#0x80#} = {#0x40, 0x80#}"
proof -
  let ?mp = "demo_pool 0 (PoolRing 0x2000 pool_ring4) 0"
  have b: "pool_balanced ring_pool_inv ring_pool_bag ring_pool_cap {#0x40, 0x80#} 3 (?mp, {#0x40, 0x80#})"
    by (simp add: pool_balanced_def pool_ok_def pool_total_def demo_ring_pool demo_caches_ok)
  have "pool_ok ring_pool_inv ?mp" using b by (simp add: pool_balanced_def)
  then obtain mp' where "rte_mempool_put_bulk ops_table 0 ?mp [0x40] 1 = Some mp'"
    using ringpool.put_bulk_conserves [of ?mp "[0x40]" 1 0]
    by (auto simp: pool_total_def demo_ring_pool demo_caches_ok)
  then have "pool_step ops_table (?mp, {#0x40, 0x80#}) (mp', {#0x40, 0x80#} - mset [0x40])"
    by (intro pool_step.put) simp_all
  then have s: "(pool_step ops_table)\<^sup>*\<^sup>* (?mp, {#0x40, 0x80#}) (mp', {#0x80#})" by simp
  with ring_pool_conserves [OF b s] show ?thesis by blast
qed

text \<open>
  C32: the same conservation of objects for a pool on the stack driver.
\<close>

theorem stack_pool_conserves:
  assumes "pool_balanced stack_pool_inv stack_pool_bag stack_pool_cap all k (mp, held)"
    and "(pool_step ops_table)\<^sup>*\<^sup>* (mp, held) (mp', held')"
  shows "pool_balanced stack_pool_inv stack_pool_bag stack_pool_cap all k (mp', held') \<and>
    pool_total stack_pool_bag mp' + held' = all"
  using stackpool.pool_run_balanced [OF assms(2,1)] by (simp add: pool_balanced_def)

theorem stack_pool_conserves_witness:
  "\<exists>mp'. (pool_step ops_table)\<^sup>*\<^sup>* (demo_pool 4 (PoolStack demo_stack) 0, {#0x40, 0x80#}) (mp', {#0x80#}) \<and>
    pool_total stack_pool_bag mp' + {#0x80#} = {#0x40, 0x80#}"
proof -
  let ?mp = "demo_pool 4 (PoolStack demo_stack) 0"
  have b: "pool_balanced stack_pool_inv stack_pool_bag stack_pool_cap {#0x40, 0x80#} 3 (?mp, {#0x40, 0x80#})"
    by (simp add: pool_balanced_def pool_ok_def pool_total_def demo_stack_pool demo_caches_ok)
  have "pool_ok stack_pool_inv ?mp" using b by (simp add: pool_balanced_def)
  then obtain mp' where "rte_mempool_put_bulk ops_table 0 ?mp [0x40] 1 = Some mp'"
    using stackpool.put_bulk_conserves [of ?mp "[0x40]" 1 0]
    by (auto simp: pool_total_def demo_stack_pool demo_caches_ok)
  then have "pool_step ops_table (?mp, {#0x40, 0x80#}) (mp', {#0x40, 0x80#} - mset [0x40])"
    by (intro pool_step.put) simp_all
  then have s: "(pool_step ops_table)\<^sup>*\<^sup>* (?mp, {#0x40, 0x80#}) (mp', {#0x80#})" by simp
  with stack_pool_conserves [OF b s] show ?thesis by blast
qed

text \<open>
  A get from a ring pool always returns. It delivers exactly the requested number of objects
  with status 0, or none with a negative status, and it succeeds whenever the request is not empty
  and the ring itself holds enough objects.
\<close>

theorem ring_pool_get:
  assumes "pool_ok ring_pool_inv mp"
  shows "\<exists>mp' objs s. rte_mempool_get_bulk ops_table lcore mp n = Some (mp', objs, s) \<and> pool_ok ring_pool_inv mp' \<and>
    pool_total ring_pool_bag mp = pool_total ring_pool_bag mp' + mset objs \<and>
    (s = 0 \<longrightarrow> length objs = unat n) \<and> (s \<noteq> 0 \<longrightarrow> s < 0 \<and> objs = []) \<and>
    (0 < n \<and> unat n \<le> size (ring_pool_bag mp) \<longrightarrow> s = 0)"
  using ringpool.get_bulk_conserves [OF assms, of lcore n] by blast

theorem ring_pool_get_witness:
  "\<exists>mp' objs s. rte_mempool_get_bulk ops_table 3 (demo_pool 0 (PoolRing 0x2000 pool_ring4) 0) 2 = Some (mp', objs, s) \<and>
    s < 0 \<and> objs = []"
proof -
  let ?mp = "demo_pool 0 (PoolRing 0x2000 pool_ring4) 0"
  have "pool_ok ring_pool_inv ?mp" by (simp add: pool_ok_def demo_ring_pool demo_caches_ok)
  from ring_pool_get [OF this, of 3 2] obtain mp' objs s where
    g: "rte_mempool_get_bulk ops_table 3 ?mp 2 = Some (mp', objs, s)"
      "pool_total ring_pool_bag ?mp = pool_total ring_pool_bag mp' + mset objs"
      "s = 0 \<longrightarrow> length objs = unat (2 :: u32)" "s \<noteq> 0 \<longrightarrow> s < 0 \<and> objs = []" by blast
  have "objs = []" using g(2) by (simp add: pool_total_def demo_ring_pool demo_caches_ok)
  with g show ?thesis by auto
qed

text \<open>
  On a ring pool that holds no more objects than its size, \<^verbatim>\<open>rte_mempool_avail_count\<close>
  is the number of objects in the ring and in all caches.
\<close>

theorem ring_pool_avail_count:
  assumes "pool_ok ring_pool_inv mp" and "size (pool_total ring_pool_bag mp) \<le> unat (mp_size mp)"
  shows "\<exists>cnt. rte_mempool_avail_count ops_table mp = Some cnt \<and> unat cnt = size (pool_total ring_pool_bag mp)"
  by (rule ringpool.avail_count_total [OF assms])

theorem ring_pool_avail_count_witness:
  "\<exists>cnt. rte_mempool_avail_count ops_table (demo_pool 0 (PoolRing 0x2000 pool_ring4) 0) = Some cnt \<and> unat cnt = 0"
  using ring_pool_avail_count [of "demo_pool 0 (PoolRing 0x2000 pool_ring4) 0"]
  by (simp add: pool_ok_def demo_ring_pool demo_caches_ok pool_total_def)

text \<open>
  A get can fail although the cache and the ring together hold enough objects: when the
  cache holds fewer objects than asked for and the ring does too, the cache is not used at all. The
  comment in \<^verbatim>\<open>__mempool_generic_get\<close> says that the pool is then truly out of buffers.
\<close>

theorem get_fails_with_enough_objects:
  assumes "ring_pool_inv mp" and "n < c_size c" and "c_len c < n" and "size (ring_pool_bag mp) < unat n"
    and "unat (c_size c) \<le> 512"
  shows "\<exists>s < 0. mempool_generic_get ops_table mp n (Some c) = Some (mp, Some c, [], s)"
proof -
  let ?req = "n + (c_size c - c_len c)"
  have lt: "unat (c_len c) < unat n" "unat n < unat (c_size c)" using assms by (simp_all add: word_less_nat_alt)
  have "unat (c_size c - c_len c) = unat (c_size c) - unat (c_len c)"
    using lt by (intro unat_sub_simple) (simp add: word_le_nat_alt)
  then have "unat ?req = unat n + (unat (c_size c) - unat (c_len c))"
    using lt assms(5) by (subst unat_plus_simple) simp_all
  then have "size (ring_pool_bag mp) < unat ?req" using assms(4) by simp
  then obtain s where s: "s < 0" "rte_mempool_ops_dequeue_bulk ops_table mp ?req = Some (mp, [], s)"
    using ring_pool_dequeue_fail [OF assms(1)] by blast
  obtain s' where s': "s' < 0" "rte_mempool_ops_dequeue_bulk ops_table mp n = Some (mp, [], s')"
    using ring_pool_dequeue_fail [OF assms(1,4)] by blast
  from s s' assms(2,3) show ?thesis
    by (simp add: mempool_generic_get_def ring_dequeue_def Let_def not_le [symmetric])
qed

theorem get_fails_with_enough_objects_witness:
  "\<exists>mp c s. unat (2 :: u32) \<le> size (ring_pool_bag mp) + unat (c_len c) \<and> s < 0 \<and>
    mempool_generic_get ops_table mp 2 (Some c) = Some (mp, Some c, [], s)"
proof -
  let ?mp = "demo_pool 0 (PoolRing 0x2000 pool_ring4) 0"
  let ?c = "\<lparr>c_size = 8, c_flushthresh = 12, c_len = 1, c_objs = 0x80 # replicate 1535 0\<rparr> :: rte_mempool_cache"
  obtain d where d: "ring_pool_inv (?mp\<lparr>pool_data := d\<rparr>)" "ring_pool_bag (?mp\<lparr>pool_data := d\<rparr>) = {#0x40#}"
    using ring_pool_enqueue [OF demo_ring_pool(1), of "[0x40]" 1 0] by (auto simp: demo_ring_pool)
  have "\<exists>s < 0. mempool_generic_get ops_table (?mp\<lparr>pool_data := d\<rparr>) 2 (Some ?c) = Some (?mp\<lparr>pool_data := d\<rparr>, Some ?c, [], s)"
    by (rule get_fails_with_enough_objects [OF d(1)]) (simp_all add: d(2))
  then obtain s where s: "s < 0" "mempool_generic_get ops_table (?mp\<lparr>pool_data := d\<rparr>) 2 (Some ?c) = Some (?mp\<lparr>pool_data := d\<rparr>, Some ?c, [], s)"
    by blast
  show ?thesis
    by (rule exI [of _ "?mp\<lparr>pool_data := d\<rparr>"], rule exI [of _ ?c], rule exI [of _ s]) (simp add: s d(2))
qed

lemma align32pow2_bounds:
  assumes "1 \<le> unat n" "unat n < 2 ^ 30"
  obtains k where "k \<le> 30" "rte_align32pow2 (n + 1) = 2 ^ k" "unat n < 2 ^ k"
proof -
  have u: "unat (n + 1) = unat n + 1" using assms(2) by (subst unat_plus_simple) simp_all
  have "1 \<le> unat (n + 1)" "unat (n + 1) \<le> 2 ^ 31" unfolding u using assms(2) by simp_all
  then obtain k where k: "rte_align32pow2 (n + 1) = 2 ^ k" "unat (n + 1) \<le> 2 ^ k"
      "\<And>j. unat (n + 1) \<le> 2 ^ j \<Longrightarrow> k \<le> j"
    using align32pow2_least [of "n + 1"] by blast
  moreover have "k \<le> 30" by (rule k(3)) (use u assms(2) in simp)
  moreover have "unat n < 2 ^ k" using k(2) u by simp
  ultimately show ?thesis using that by blast
qed

text \<open>
  The ring the driver allocates for a pool of \<open>n\<close> objects, \<open>n\<close> below \<open>2 ^ 30\<close>, is empty
  and has room for all of them. The zone allocator must return a zone large enough for the ring.
\<close>

theorem common_ring_alloc_ok:
  assumes "1 \<le> unat (mp_size mp)" "unat (mp_size mp) < 2 ^ 30"
    and "length (mp_name mp) < 26" and "te_alloc_ok env" and "mz_addr mz \<noteq> NULL"
    and "\<And>nm sz. mz_reserve env nm sz = Inr mz" and "unat (rte_align32pow2 (mp_size mp + 1)) \<le> length (mz_words mz)"
    and "ops_index mp < 4"
  shows "\<exists>env' mp'. common_ring_alloc env mp = (env', mp', 0) \<and> ring_pool_inv mp' \<and>
    ring_pool_bag mp' = {#} \<and> unat (mp_size mp) \<le> ring_pool_cap mp'"
proof -
  define cnt where "cnt = rte_align32pow2 (mp_size mp + 1)"
  define flags where "flags = (if mp_flags mp AND MEMPOOL_F_SP_PUT \<noteq> 0 then RING_F_SP_ENQ else 0)
                 OR (if mp_flags mp AND MEMPOOL_F_SC_GET \<noteq> 0 then RING_F_SC_DEQ else 0)"
  obtain k where k: "k \<le> 30" "cnt = 2 ^ k" "unat (mp_size mp) < 2 ^ k"
    using align32pow2_bounds [OF assms(1,2)] unfolding cnt_def by blast
  have "(2 :: nat) ^ k \<le> 2 ^ 30" using k(1) by (intro power_increasing) simp_all
  then have uc: "unat cnt = 2 ^ k" "unat cnt \<le> 2 ^ 30" using k(1,2) by (simp_all add: unat_2p)
  have p2: "POWEROF2 cnt" unfolding powerof2_iff using k(1,2) by (intro disjI2 exI [of _ k]) simp
  have lim: "cnt \<le> RTE_RING_SZ_MASK" "cnt \<noteq> 0" using uc by (auto simp: RTE_RING_SZ_MASK_def word_le_nat_alt)
  have ex: "flags AND RING_F_EXACT_SZ = 0"
    by (simp add: flags_def RING_F_EXACT_SZ_def RING_F_SP_ENQ_def RING_F_SC_DEQ_def)
  let ?nm = "RTE_MEMPOOL_MZ_PREFIX @ mp_name mp"
  have nm: "length ?nm < RTE_RING_NAMESIZE" "length ?nm < RTE_MEMZONE_NAMESIZE"
    "\<not> length (RTE_RING_MZ_PREFIX @ ?nm) \<ge> RTE_MEMZONE_NAMESIZE"
    using assms(3) by (simp_all add: RTE_MEMPOOL_MZ_PREFIX_def RTE_RING_NAMESIZE_def RTE_MEMZONE_NAMESIZE_def RTE_RING_MZ_PREFIX_def)
  obtain r where r: "rte_ring_init (take (unat cnt) (mz_words mz)) ?nm cnt flags = (r, None)" "ring_inv r"
      "ring_list r = []" "ring_capacity r = cnt - 1"
    using init_fixed_inv [OF nm(2) ex p2 lim, of "take (unat cnt) (mz_words mz)"] assms(7)
    by (auto simp: cnt_def)
  let ?r = "r\<lparr>ring_memzone := mz_desc mz\<rparr>"
  let ?renv = "(rings env)\<lparr>ring_mem := (ring_mem (rings env))(mz_addr mz \<mapsto> ?r), ring_tailq := ring_tailq (rings env) @ [mz_addr mz]\<rparr>"
  have "rte_ring_create (te_alloc_ok env) (mz_reserve env) ?nm cnt flags (rings env) = (?renv, mz_addr mz)"
    using p2 lim ex nm(3) r(1) assms(4,6)
    by (simp add: rte_ring_create_def rte_ring_get_memsize_def Let_def leD)
  then have "common_ring_alloc env mp = (env\<lparr>rings := ?renv\<rparr>, mp\<lparr>pool_data := PoolRing (mz_addr mz) ?r\<rparr>, 0)"
    using nm(1) assms(5) by (simp add: common_ring_alloc_def Let_def flags_def [symmetric] cnt_def [symmetric] not_le)
  moreover have "ring_inv ?r" "ring_list ?r = []"
    using r by (simp_all add: ring_inv_def ring_shape_def ring_used_def ring_list_def)
  moreover have "unat (cnt - 1) = 2 ^ k - 1" using k(1,2) by (simp add: unat_2p_minus_1)
  ultimately show ?thesis using r(4) assms(8) k(3)
    by (auto simp: ring_pool_inv_def ring_pool_bag_def ring_pool_cap_def)
qed

definition demo_env :: "pool_env" where
  "demo_env = \<lparr>rings = \<lparr>ring_mem = Map.empty, ring_tailq = [], rte_errno = 0\<rparr>, te_alloc_ok = True,
     mz_reserve = (\<lambda>nm sz. Inr \<lparr>mz_desc = 0x1000, mz_addr = 0x2000, mz_words = replicate 8 0\<rparr>),
     mz_free = (\<lambda>_. True), heap_ok = (\<lambda>sz. sz < 0x100000)\<rparr>"

theorem common_ring_alloc_ok_witness:
  "\<exists>env' mp'. common_ring_alloc demo_env (demo_pool 1 PoolNone 0) = (env', mp', 0) \<and> ring_pool_inv mp' \<and>
    3 \<le> ring_pool_cap mp'"
  using common_ring_alloc_ok [of "demo_pool 1 PoolNone 0" demo_env "\<lparr>mz_desc = 0x1000, mz_addr = 0x2000, mz_words = replicate 8 0\<rparr>"]
  by (auto simp: demo_pool_def demo_env_def rte_align32pow2_def rte_combine32ms1b_def)

text \<open>
  For a pool of \<open>2 ^ 30\<close> objects or more the ring would exceed the size limit. The creation of
  the ring leaves a negative \<^verbatim>\<open>rte_errno\<close>, the driver negates it again and reports a
  positive status, which callers that test for a negative one take for success.
\<close>

theorem common_ring_alloc_positive_status:
  assumes "2 ^ 30 \<le> unat (mp_size mp)" "unat (mp_size mp) < 2 ^ 31" and "length (mp_name mp) < 26"
  shows "\<exists>env'. common_ring_alloc env mp = (env', mp, errno_code EINVAL) \<and> 0 < errno_code EINVAL"
proof -
  define cnt where "cnt = rte_align32pow2 (mp_size mp + 1)"
  define flags where "flags = (if mp_flags mp AND MEMPOOL_F_SP_PUT \<noteq> 0 then RING_F_SP_ENQ else 0)
                 OR (if mp_flags mp AND MEMPOOL_F_SC_GET \<noteq> 0 then RING_F_SC_DEQ else 0)"
  have u: "unat (mp_size mp + 1) = unat (mp_size mp) + 1" using assms(2) by (subst unat_plus_simple) simp_all
  have "1 \<le> unat (mp_size mp + 1)" "unat (mp_size mp + 1) \<le> 2 ^ 31" unfolding u using assms(2) by simp_all
  then obtain k where k: "k \<le> 31" "cnt = 2 ^ k" "unat (mp_size mp + 1) \<le> 2 ^ k"
    using align32pow2_least [of "mp_size mp + 1"] unfolding cnt_def by blast
  have "(2 :: nat) ^ 30 < 2 ^ k" using k(3) u assms(1) by simp
  then have "30 < k" by (rule power_less_imp_less_exp [rotated]) simp
  with k(1) have "k = 31" by simp
  with k(2) have big: "cnt > RTE_RING_SZ_MASK" by (simp add: RTE_RING_SZ_MASK_def)
  have ex: "flags AND RING_F_EXACT_SZ = 0"
    by (simp add: flags_def RING_F_EXACT_SZ_def RING_F_SP_ENQ_def RING_F_SC_DEQ_def)
  have nm: "length (RTE_MEMPOOL_MZ_PREFIX @ mp_name mp) < RTE_RING_NAMESIZE"
    using assms(3) by (simp add: RTE_MEMPOOL_MZ_PREFIX_def RTE_RING_NAMESIZE_def RTE_MEMZONE_NAMESIZE_def RTE_RING_MZ_PREFIX_def)
  have "rte_ring_create (te_alloc_ok env) (mz_reserve env) (RTE_MEMPOOL_MZ_PREFIX @ mp_name mp) cnt flags (rings env) =
      ((rings env)\<lparr>rte_errno := - errno_code EINVAL\<rparr>, NULL)"
    using big ex by (simp add: rte_ring_create_def rte_ring_get_memsize_def Let_def)
  then show ?thesis
    using nm by (simp add: common_ring_alloc_def Let_def flags_def [symmetric] cnt_def [symmetric] not_le)
qed

theorem common_ring_alloc_positive_status_witness:
  "\<exists>env'. common_ring_alloc demo_env ((demo_pool 0 PoolNone 0)\<lparr>mp_size := 0x40000000\<rparr>) =
    (env', (demo_pool 0 PoolNone 0)\<lparr>mp_size := 0x40000000\<rparr>, 22)"
  using common_ring_alloc_positive_status [of "(demo_pool 0 PoolNone 0)\<lparr>mp_size := 0x40000000\<rparr>" demo_env]
  by (simp add: demo_pool_def)

text \<open>
  The stack driver computes the size of its array in an \<^verbatim>\<open>int\<close>: for a pool of
  \<open>2 ^ 29\<close> objects it asks for 144 bytes, allocates room for 16 pointers and then claims to hold
  \<open>2 ^ 29\<close> of them.
\<close>

theorem stack_alloc_truncates:
  assumes "mp_size mp = 0x20000000" and "heap_ok env 144"
  shows "\<exists>s. stack_alloc env mp = (env, mp\<lparr>pool_data := PoolStack s\<rparr>, 0) \<and>
    st_size s = 0x20000000 \<and> length (st_objs s) = 16"
proof -
  have "stack_alloc_size 0x20000000 = 144" by (simp add: stack_alloc_size_def sizeof_rte_mempool_stack_def)
  then show ?thesis using assms
    by (intro exI [of _ "\<lparr>st_size = 0x20000000, st_len = 0, st_objs = replicate 16 NULL\<rparr>"])
      (simp add: stack_alloc_def Let_def)
qed

theorem stack_alloc_truncates_witness:
  "\<exists>mp'. stack_alloc demo_env ((demo_pool 4 PoolNone 0)\<lparr>mp_size := 0x20000000\<rparr>) = (demo_env, mp', 0)"
  using stack_alloc_truncates [of "(demo_pool 4 PoolNone 0)\<lparr>mp_size := 0x20000000\<rparr>" demo_env]
  by (auto simp: demo_env_def)

end
