(* ===== verification/MempoolSize.thy ===== *)
theory MempoolSize
  imports MempoolDrivers
begin

text \<open>
  Sizes and layout of pool objects (\<^verbatim>\<open>lib/librte_mempool/rte_mempool.c\<close> and
  \<^verbatim>\<open>rte_mempool_ops_default.c\<close>): the padding that spreads objects over memory channels, the
  memory a number of objects needs, and how a chunk of memory is cut into objects. The drivers
  modelled leave both callbacks NULL, so the default functions are the ones every pool uses.
\<close>

section \<open>Object sizes\<close>

definition RTE_CACHE_LINE_SIZE :: u64 where
  "RTE_CACHE_LINE_SIZE = 64"

definition RTE_MEMPOOL_ALIGN :: u32 where
  "RTE_MEMPOOL_ALIGN = 64"

definition RTE_MEMPOOL_ALIGN_MASK :: u32 where
  "RTE_MEMPOOL_ALIGN_MASK = RTE_MEMPOOL_ALIGN - 1"

definition sizeof_objhdr :: u32 where
  "sizeof_objhdr = 24"

function gcd_loop :: "u32 \<Rightarrow> u32 \<Rightarrow> u32" where
  "gcd_loop a b = (if b \<noteq> 0 then gcd_loop b (a mod b) else a)"
  by pat_completeness auto
termination
  by (relation "measure (\<lambda>(a, b). unat b)") (auto simp: unat_mod unat_gt_0)

definition get_gcd :: "u32 \<Rightarrow> u32 \<Rightarrow> u32" where
  "get_gcd a b =
     (if a = 0 then b
      else if b = 0 then a
      else if a < b then gcd_loop b a
      else gcd_loop a b)"

text \<open>The loop that looks for a size without a common divisor with the number of banks.\<close>

partial_function (option) spread_loop :: "u32 \<Rightarrow> u32 \<Rightarrow> u32 option" where
  "spread_loop banks new_obj_size =
     (if get_gcd new_obj_size banks \<noteq> 1 then spread_loop banks (new_obj_size + 1) else Some new_obj_size)"

definition optimize_object_size :: "u32 \<Rightarrow> u32 \<Rightarrow> u32 \<Rightarrow> u32 option" where
  "optimize_object_size nchannel nrnk obj_size =
     (let nchan = (if nchannel = 0 then 4 else nchannel);
          nrank = (if nrnk = 0 then 1 else nrnk)
      in do {
        n \<leftarrow> spread_loop (nrank * nchan) ((obj_size + RTE_MEMPOOL_ALIGN_MASK) div RTE_MEMPOOL_ALIGN);
        Some (n * RTE_MEMPOOL_ALIGN) })"

record rte_mempool_objsz =
  sz_elt :: u32
  sz_header :: u32
  sz_trailer :: u32
  sz_total :: u32

definition rte_mempool_calc_obj_size :: "u32 \<Rightarrow> u32 \<Rightarrow> u32 \<Rightarrow> u32 \<Rightarrow> rte_mempool_objsz option" where
  "rte_mempool_calc_obj_size nchannel nrnk esize flags =
     (let header = (if flags AND MEMPOOL_F_NO_CACHE_ALIGN = 0
                    then RTE_ALIGN_CEIL sizeof_objhdr RTE_MEMPOOL_ALIGN else sizeof_objhdr);
          elt = RTE_ALIGN_CEIL esize 8;
          trailer = (if flags AND MEMPOOL_F_NO_CACHE_ALIGN = 0
                     then let total = header + elt
                          in (RTE_MEMPOOL_ALIGN - (total AND RTE_MEMPOOL_ALIGN_MASK)) AND RTE_MEMPOOL_ALIGN_MASK
                     else 0)
      in do {
        trailer \<leftarrow> (if flags AND MEMPOOL_F_NO_SPREAD = 0
          then do {
            new_size \<leftarrow> optimize_object_size nchannel nrnk (header + elt + trailer);
            Some (new_size - header - elt) }
          else Some trailer);
        Some \<lparr>sz_elt = elt, sz_header = header, sz_trailer = trailer, sz_total = header + elt + trailer\<rparr> })"

section \<open>Memory for objects\<close>

text \<open>The sum of three 32-bit sizes, extended to \<^verbatim>\<open>size_t\<close> afterwards.\<close>

definition total_elt_sz :: "rte_mempool \<Rightarrow> u64" where
  "total_elt_sz mp = ucast (header_size mp + elt_size mp + trailer_size mp)"

text \<open>The memory size, the minimal chunk size and the alignment.\<close>

definition rte_mempool_op_calc_mem_size_default :: "rte_mempool \<Rightarrow> u32 \<Rightarrow> nat \<Rightarrow> u64 \<times> u64 \<times> u64" where
  "rte_mempool_op_calc_mem_size_default mp obj_num pg_shift =
     (let tot = total_elt_sz mp;
          pg_sz = push_bit pg_shift 1;
          mem_size =
            (if tot = 0 then 0
             else if pg_shift = 0 then tot * ucast obj_num
             else let obj_per_page = pg_sz div tot
                  in if obj_per_page = 0 then RTE_ALIGN_CEIL tot pg_sz * ucast obj_num
                     else push_bit pg_shift ((ucast obj_num + obj_per_page - 1) div obj_per_page))
      in (mem_size, max pg_sz tot, max RTE_CACHE_LINE_SIZE pg_sz))"

definition rte_mempool_ops_calc_mem_size :: "rte_mempool \<Rightarrow> u32 \<Rightarrow> nat \<Rightarrow> u64 \<times> u64 \<times> u64" where
  "rte_mempool_ops_calc_mem_size mp obj_num pg_shift = rte_mempool_op_calc_mem_size_default mp obj_num pg_shift"

section \<open>Cutting a chunk into objects\<close>

definition mempool_add_elem :: "rte_mempool \<Rightarrow> addr \<Rightarrow> iova \<Rightarrow> rte_mempool" where
  "mempool_add_elem mp obj io = mp\<lparr>elt_list := elt_list mp @ [(obj, io)], populated_size := populated_size mp + 1\<rparr>"

text \<open>One round adds an object behind its header and hands it to the driver, whose status is ignored.\<close>

function populate_loop ::
  "rte_mempool_ops list \<Rightarrow> nat \<Rightarrow> addr \<Rightarrow> iova \<Rightarrow> u64 \<Rightarrow> nat \<Rightarrow> u64 \<Rightarrow> rte_mempool \<Rightarrow> (rte_mempool \<times> nat) option" where
  "populate_loop tbl max_objs vaddr io len i off mp =
     (if off + total_elt_sz mp \<le> len \<and> i < max_objs
      then let off = off + ucast (header_size mp);
               obj = vaddr + off
           in do {
             (mp', _) \<leftarrow> rte_mempool_ops_enqueue_bulk tbl
               (mempool_add_elem mp obj (if io = RTE_BAD_IOVA then RTE_BAD_IOVA else io + off)) [obj] 1;
             populate_loop tbl max_objs vaddr io len (i + 1) (off + ucast (elt_size mp + trailer_size mp)) mp' }
      else Some (mp, i))"
  by pat_completeness auto
termination
  by (relation "measure (\<lambda>(tbl, max_objs, vaddr, io, len, i, off, mp). max_objs - i)") auto

definition rte_mempool_op_populate_default ::
  "rte_mempool_ops list \<Rightarrow> rte_mempool \<Rightarrow> u32 \<Rightarrow> addr \<Rightarrow> iova \<Rightarrow> u64 \<Rightarrow> (rte_mempool \<times> nat) option" where
  "rte_mempool_op_populate_default tbl mp max_objs vaddr io len = populate_loop tbl (unat max_objs) vaddr io len 0 0 mp"

definition rte_mempool_ops_populate ::
  "rte_mempool_ops list \<Rightarrow> rte_mempool \<Rightarrow> u32 \<Rightarrow> addr \<Rightarrow> iova \<Rightarrow> u64 \<Rightarrow> (rte_mempool \<times> nat) option" where
  "rte_mempool_ops_populate tbl mp max_objs vaddr io len = rte_mempool_op_populate_default tbl mp max_objs vaddr io len"

text \<open>\<^verbatim>\<open>rte_mempool_obj_iter\<close>: the callback on every object in order, with its number.\<close>

definition rte_mempool_obj_iter :: "rte_mempool \<Rightarrow> (addr \<Rightarrow> nat \<Rightarrow> 's \<Rightarrow> 's option) \<Rightarrow> 's \<Rightarrow> ('s \<times> nat) option" where
  "rte_mempool_obj_iter mp obj_cb st = do {
     st \<leftarrow> foldl (\<lambda>r (k, obj, io). do { st \<leftarrow> r; obj_cb obj k st }) (Some st) (enumerate 0 (elt_list mp));
     Some (st, length (elt_list mp)) }"

definition rte_mempool_mem_iter :: "rte_mempool \<Rightarrow> (rte_mempool_memhdr \<Rightarrow> nat \<Rightarrow> 's \<Rightarrow> 's) \<Rightarrow> 's \<Rightarrow> 's \<times> nat" where
  "rte_mempool_mem_iter mp mem_cb st =
     (foldl (\<lambda>st (k, hdr). mem_cb hdr k st) st (enumerate 0 (mem_list mp)), length (mem_list mp))"

section \<open>The spread of objects over memory channels\<close>

declare gcd_loop.simps [simp del]

lemma unat_gcd_loop: "unat (gcd_loop a b) = gcd (unat a) (unat b)"
proof (induction a b rule: gcd_loop.induct)
  case (1 a b)
  show ?case
  proof (cases "b = 0")
    case True
    then show ?thesis by (simp add: gcd_loop.simps)
  next
    case False
    then have "unat b \<noteq> 0" by (simp add: unat_eq_zero)
    with False 1 show ?thesis
      by (simp add: gcd_loop.simps [of a b] unat_mod gcd_red_nat [of "unat a" "unat b"])
  qed
qed

lemma unat_get_gcd: "unat (get_gcd a b) = gcd (unat a) (unat b)"
  by (simp add: get_gcd_def unat_gcd_loop gcd.commute)

lemma get_gcd_1: "get_gcd a b = 1 \<longleftrightarrow> coprime (unat a) (unat b)"
  using unat_get_gcd [of a b] by (auto simp: word_unat_eq_iff coprime_iff_gcd_eq_1)

lemma coprime_mult_1: "coprime (k * b + 1) (b :: nat)"
  using gcd_add_mult [of b k 1] by (simp add: coprime_iff_gcd_eq_1 gcd.commute)

lemma coprime_ahead:
  assumes "0 < (b :: nat)"
  shows "\<exists>d \<le> b. coprime (n + d) b"
proof -
  define q r where "q = n div b" and "r = n mod b"
  have n: "n = q * b + r" "r < b" using assms by (simp_all add: q_def r_def)
  show ?thesis
  proof (cases "r \<le> 1")
    case True
    then have "n + (1 - r) = q * b + 1" using n by simp
    with coprime_mult_1 [of q b] True assms show ?thesis by (intro exI [of _ "1 - r"]) simp
  next
    case False
    then have "n + (b + 1 - r) = (q + 1) * b + 1" using n by simp
    with coprime_mult_1 [of "q + 1" b] False show ?thesis by (intro exI [of _ "b + 1 - r"]) (simp del: mult_Suc)
  qed
qed

lemma spread_loop_least:
  assumes b: "0 < unat banks" and room: "unat n + unat banks < 2 ^ 32"
  shows "\<exists>m. spread_loop banks n = Some m \<and> n \<le> m \<and> unat m \<le> unat n + unat banks \<and> coprime (unat m) (unat banks) \<and>
    (\<forall>k. unat n \<le> k \<longrightarrow> k < unat m \<longrightarrow> \<not> coprime k (unat banks))"
proof -
  define d where "d = (LEAST d. coprime (unat n + d) (unat banks))"
  have ex: "\<exists>d \<le> unat banks. coprime (unat n + d) (unat banks)" by (rule coprime_ahead [OF b])
  then have cop: "coprime (unat n + d) (unat banks)" unfolding d_def by (metis (mono_tags, lifting) LeastI)
  have db: "d \<le> unat banks" using ex unfolding d_def by (metis (mono_tags, lifting) Least_le le_trans)
  have miss: "\<not> coprime (unat n + e) (unat banks)" if "e < d" for e using not_less_Least [OF that [unfolded d_def]] .
  have "spread_loop banks (n + of_nat e) = Some (n + of_nat d)" if "e \<le> d" for e
    using that
  proof (induction "d - e" arbitrary: e)
    case 0
    then have "unat (n + of_nat e) = unat n + d" using room db by (simp add: unat_plus_simple unat_of_nat_small)
    with 0 cop show ?case by (subst spread_loop.simps) (simp add: get_gcd_1)
  next
    case (Suc k)
    then have "unat (n + of_nat e) = unat n + e" using room db by (simp add: unat_plus_simple unat_of_nat_small)
    moreover have "spread_loop banks (n + of_nat e + 1) = Some (n + of_nat d)"
      using Suc.hyps(1) [of "Suc e"] Suc.hyps(2) by (simp add: add.assoc add.commute [of 1])
    ultimately show ?case using miss [of e] Suc.hyps(2) by (subst spread_loop.simps) (simp add: get_gcd_1)
  qed
  from this [of 0] have run: "spread_loop banks n = Some (n + of_nat d)" by simp
  have u: "unat (n + of_nat d) = unat n + d" using room db by (simp add: unat_plus_simple unat_of_nat_small)
  have "\<not> coprime k (unat banks)" if "unat n \<le> k" "k < unat n + d" for k
    using miss [of "k - unat n"] that by simp
  with run u cop db show ?thesis by (intro exI [of _ "n + of_nat d"]) (simp add: word_le_nat_alt)
qed

lemma unat_and_63: "unat (x AND 63 :: u32) = unat x mod 64"
  using unat_and_mask [of x 6] by (simp add: mask_eq_exp_minus_1)

text \<open>The trailer that fills the last cache line.\<close>

lemma unat_line_trailer: "unat ((64 - (x AND 63)) AND 63 :: u32) = (64 - unat x mod 64) mod 64"
proof -
  have "unat (64 - (x AND 63) :: u32) = 64 - unat x mod 64"
    by (subst unat_sub_simple) (simp_all add: word_le_nat_alt unat_and_63)
  then show ?thesis by (simp only: unat_and_63)
qed

lemma line_trailer_ceil: "(x + (64 - x mod 64) mod 64 + 63) div 64 = (x + 63) div (64 :: nat)"
proof -
  define q r where "q = x div 64" and "r = x mod 64"
  then have x: "x = 64 * q + r" "r < 64" by simp_all
  show ?thesis
  proof (cases "r = 0")
    case False
    then have "(64 - x mod 64) mod 64 = 64 - r" using x by simp
    with False x show ?thesis by simp
  qed (use x in simp)
qed

lemma optimize_object_size_least:
  assumes banks: "0 < unat nchan" "0 < unat nrank" "unat nrank * unat nchan \<le> 2 ^ 20" and s: "unat s \<le> 2 ^ 30 + 200"
  shows "\<exists>r k. optimize_object_size nchan nrank s = Some r \<and> unat r = 64 * k \<and> s \<le> r \<and> unat r < 2 ^ 31 \<and>
    coprime k (unat nrank * unat nchan) \<and> (\<forall>j < k. (unat s + 63) div 64 \<le> j \<longrightarrow> \<not> coprime j (unat nrank * unat nchan))"
proof -
  have nz: "nchan \<noteq> 0" "nrank \<noteq> 0" using banks by auto
  have b: "unat (nrank * nchan) = unat nrank * unat nchan" using banks(3) by (simp add: unat_word_ariths)
  have s1: "unat (s + 63) = unat s + 63" using s by (intro trans [OF unat_plus_simple]) simp_all
  then have n: "unat ((s + 63) div 64) = (unat s + 63) div 64" by (simp add: unat_div)
  then have room: "unat ((s + 63) div 64) + unat (nrank * nchan) < 2 ^ 32" "0 < unat (nrank * nchan)"
    using b banks s by simp_all
  obtain m where m: "spread_loop (nrank * nchan) ((s + 63) div 64) = Some m" "(s + 63) div 64 \<le> m"
      "unat m \<le> unat ((s + 63) div 64) + unat (nrank * nchan)" "coprime (unat m) (unat (nrank * nchan))"
      "\<forall>k. unat ((s + 63) div 64) \<le> k \<longrightarrow> k < unat m \<longrightarrow> \<not> coprime k (unat (nrank * nchan))"
    using spread_loop_least [OF room(2,1)] by blast
  have ub: "unat m * 64 < 2 ^ 31" using m(3) n b banks(3) s by simp
  then have r: "unat (m * 64) = 64 * unat m" by (simp add: unat_word_ariths)
  have "unat s \<le> 64 * unat m" using m(2) n by (simp add: word_le_nat_alt)
  then have "s \<le> m * 64" using r by (simp add: word_le_nat_alt)
  moreover have "optimize_object_size nchan nrank s = Some (m * 64)"
    using m(1) nz by (simp add: optimize_object_size_def RTE_MEMPOOL_ALIGN_MASK_def RTE_MEMPOOL_ALIGN_def)
  ultimately show ?thesis using r ub m(4,5) n b by (intro exI [of _ "m * 64"] exI [of _ "unat m"]) simp
qed

text \<open>
  The size of a pool object under the default flags, for elements up to \<open>2 ^ 30\<close> bytes and up to
  \<open>2 ^ 20\<close> memory banks. The calculation ends; the element fits; the object is whole cache lines,
  made of header, element and trailer without wrap-around; and its number of lines has no common
  divisor with the number of channels times ranks, so consecutive objects start in different
  banks, with the least padding that achieves it.
\<close>

theorem obj_size_spread:
  assumes flags: "flags AND MEMPOOL_F_NO_CACHE_ALIGN = 0" "flags AND MEMPOOL_F_NO_SPREAD = 0"
    and esize: "unat esize \<le> 2 ^ 30" and banks: "0 < unat nchan" "0 < unat nrank" "unat nrank * unat nchan \<le> 2 ^ 20"
  shows "\<exists>sz k. rte_mempool_calc_obj_size nchan nrank esize flags = Some sz \<and> esize \<le> sz_elt sz \<and>
    unat (sz_header sz) + unat (sz_elt sz) + unat (sz_trailer sz) = unat (sz_total sz) \<and>
    unat (sz_total sz) = 64 * k \<and> coprime k (unat nrank * unat nchan) \<and>
    (\<forall>j < k. unat (sz_header sz) + unat (sz_elt sz) \<le> 64 * j \<longrightarrow> \<not> coprime j (unat nrank * unat nchan))"
proof -
  define elt where "elt = RTE_ALIGN_CEIL esize 8"
  have "unat elt = 8 * ((unat esize + 7) div 8)" using unat_align_ceil [of 3 esize] esize by (simp add: elt_def)
  then have e: "unat esize \<le> unat elt" "unat elt \<le> unat esize + 7" by simp_all
  have h: "RTE_ALIGN_CEIL sizeof_objhdr 64 = 64"
    by (simp add: RTE_ALIGN_CEIL_def RTE_ALIGN_FLOOR_def sizeof_objhdr_def)
  define t where "t = (64 - ((64 + elt) AND 63)) AND 63"
  have x: "unat (64 + elt) = 64 + unat elt" using e esize by (intro trans [OF unat_plus_simple]) simp_all
  have t: "unat t = (64 - (64 + unat elt) mod 64) mod 64" unfolding t_def unat_line_trailer x by simp
  then have "unat t < 64" by simp
  then have s: "unat (64 + elt + t) = 64 + unat elt + unat t" using x e esize by (intro trans [OF unat_plus_simple]) simp_all
  then have "unat (64 + elt + t) \<le> 2 ^ 30 + 200" using e esize \<open>unat t < 64\<close> by simp
  from optimize_object_size_least [OF banks this] obtain r k where r: "optimize_object_size nchan nrank (64 + elt + t) = Some r"
      "unat r = 64 * k" "64 + elt + t \<le> r" "unat r < 2 ^ 31" "coprime k (unat nrank * unat nchan)"
      "\<forall>j < k. (unat (64 + elt + t) + 63) div 64 \<le> j \<longrightarrow> \<not> coprime j (unat nrank * unat nchan)" by blast
  have ge: "64 + unat elt \<le> unat r" using r(3) s by (simp add: word_le_nat_alt)
  then have "unat (r - 64 - elt) = unat r - 64 - unat elt"
    by (subst unat_sub_simple; (subst unat_sub_simple)?; simp add: word_le_nat_alt unat_sub_simple)
  moreover have "64 + elt + (r - 64 - elt) = r" by simp
  moreover have "(unat (64 + elt + t) + 63) div 64 = (64 + unat elt + 63) div 64"
    unfolding s t using line_trailer_ceil [of "64 + unat elt"] by simp
  moreover have "(127 + unat elt) div 64 \<le> j" if "64 + unat elt \<le> 64 * j" for j using that by simp
  ultimately show ?thesis using r ge e flags
    by (intro exI [of _ "\<lparr>sz_elt = elt, sz_header = 64, sz_trailer = r - 64 - elt, sz_total = 64 + elt + (r - 64 - elt)\<rparr>"] exI [of _ k])
      (simp add: rte_mempool_calc_obj_size_def h elt_def [symmetric] t_def RTE_MEMPOOL_ALIGN_MASK_def
        RTE_MEMPOOL_ALIGN_def word_le_nat_alt Let_def)
qed

theorem obj_size_spread_witness:
  "\<exists>sz k. rte_mempool_calc_obj_size 4 2 3008 0 = Some sz \<and> unat (sz_total sz) = 64 * k \<and> coprime k 8"
proof -
  have "\<exists>sz k. rte_mempool_calc_obj_size 4 2 3008 0 = Some sz \<and> (3008 :: u32) \<le> sz_elt sz \<and>
    unat (sz_header sz) + unat (sz_elt sz) + unat (sz_trailer sz) = unat (sz_total sz) \<and>
    unat (sz_total sz) = 64 * k \<and> coprime k (unat (2 :: u32) * unat (4 :: u32)) \<and>
    (\<forall>j < k. unat (sz_header sz) + unat (sz_elt sz) \<le> 64 * j \<longrightarrow> \<not> coprime j (unat (2 :: u32) * unat (4 :: u32)))"
    by (rule obj_size_spread) simp_all
  then show ?thesis by auto
qed

section \<open>Populating a chunk\<close>

declare populate_loop.simps [simp del]

text \<open>The object of a given number in a chunk, its I/O address, and the objects of a range of numbers.\<close>

definition obj_off :: "rte_mempool \<Rightarrow> nat \<Rightarrow> u64" where
  "obj_off mp j = of_nat (j * unat (total_elt_sz mp) + unat (header_size mp))"

definition chunk_objs :: "rte_mempool \<Rightarrow> addr \<Rightarrow> iova \<Rightarrow> nat \<Rightarrow> nat \<Rightarrow> (addr \<times> iova) list" where
  "chunk_objs mp vaddr io k n =
     map (\<lambda>j. (vaddr + obj_off mp j, if io = RTE_BAD_IOVA then RTE_BAD_IOVA else io + obj_off mp j)) [k..<n]"

text \<open>The three sizes of a pool do not wrap around and an object is not empty.\<close>

definition sizes_ok :: "rte_mempool \<Rightarrow> bool" where
  "sizes_ok mp \<longleftrightarrow> unat (total_elt_sz mp) = unat (header_size mp) + unat (elt_size mp) + unat (trailer_size mp) \<and>
     0 < unat (elt_size mp)"

text \<open>When the loop goes on, and where the next object starts.\<close>

lemma chunk_fits:
  assumes "0 < unat (total_elt_sz mp)" "unat len + unat (total_elt_sz mp) < 2 ^ 64" "k \<le> unat len div unat (total_elt_sz mp)"
  shows "of_nat (k * unat (total_elt_sz mp)) + total_elt_sz mp \<le> len \<longleftrightarrow> k < unat len div unat (total_elt_sz mp)"
proof -
  let ?tot = "unat (total_elt_sz mp)"
  have "k * ?tot \<le> unat len" using assms(1,3) by (simp add: less_eq_div_iff_mult_less_eq)
  then have "unat (of_nat (k * ?tot) + total_elt_sz mp) = (k + 1) * ?tot"
    using assms(2) by (subst unat_plus_simple) (simp_all add: unat_of_nat_small del: of_nat_mult)
  then have "of_nat (k * ?tot) + total_elt_sz mp \<le> len \<longleftrightarrow> (k + 1) * ?tot \<le> unat len" by (simp add: word_le_nat_alt)
  also have "\<dots> \<longleftrightarrow> k + 1 \<le> unat len div ?tot" using assms(1) by (simp add: less_eq_div_iff_mult_less_eq)
  finally show ?thesis unfolding Suc_eq_plus1 [symmetric] Suc_le_eq .
qed

lemma chunk_next:
  assumes "sizes_ok mp"
  shows "obj_off mp k + ucast (elt_size mp + trailer_size mp) = of_nat (Suc k * unat (total_elt_sz mp))"
proof -
  let ?tot = "unat (total_elt_sz mp)"
  have et: "unat (elt_size mp + trailer_size mp) = unat (elt_size mp) + unat (trailer_size mp)"
    using assms unat_lt_2p [of "header_size mp + elt_size mp + trailer_size mp"]
    by (intro unat_plus_simple) (simp add: sizes_ok_def total_elt_sz_def)
  have "?tot = unat (header_size mp) + (unat (elt_size mp) + unat (trailer_size mp))" using assms by (simp add: sizes_ok_def)
  then have "k * ?tot + unat (header_size mp) + unat (elt_size mp + trailer_size mp) = Suc k * ?tot" using et by simp
  then have "obj_off mp k + of_nat (unat (elt_size mp + trailer_size mp)) = of_nat (Suc k * ?tot)"
    unfolding obj_off_def of_nat_add [symmetric] by (rule arg_cong)
  then show ?thesis by simp
qed

text \<open>A driver does not look at the list of objects a pool keeps.\<close>

locale populated_driver = mempool_driver +
  assumes frame_elts: "pinv (mp\<lparr>elt_list := es, populated_size := k\<rparr>) = pinv mp"
    "bag (mp\<lparr>elt_list := es, populated_size := k\<rparr>) = bag mp" "cap (mp\<lparr>elt_list := es, populated_size := k\<rparr>) = cap mp"
begin

lemma add_and_enqueue:
  assumes "pinv mp" "size (bag mp) < cap mp"
  shows "\<exists>d s. rte_mempool_ops_enqueue_bulk tbl (mempool_add_elem mp obj io) [obj] 1 =
      Some ((mempool_add_elem mp obj io)\<lparr>pool_data := d\<rparr>, s) \<and> pinv ((mempool_add_elem mp obj io)\<lparr>pool_data := d\<rparr>) \<and>
    bag ((mempool_add_elem mp obj io)\<lparr>pool_data := d\<rparr>) = add_mset obj (bag mp) \<and>
    cap ((mempool_add_elem mp obj io)\<lparr>pool_data := d\<rparr>) = cap mp"
  using enqueue [of "mempool_add_elem mp obj io" "[obj]" 1] assms by (auto simp: mempool_add_elem_def frame_elts)

lemma populate_round:
  assumes "sizes_ok mp" "unat len + unat (total_elt_sz mp) < 2 ^ 64" "k < max_objs" "k < unat len div unat (total_elt_sz mp)"
    and "rte_mempool_ops_enqueue_bulk tbl (mempool_add_elem mp (vaddr + obj_off mp k) (if io = RTE_BAD_IOVA then RTE_BAD_IOVA else io + obj_off mp k))
      [vaddr + obj_off mp k] 1 = Some (mp', s)"
  shows "populate_loop tbl max_objs vaddr io len k (of_nat (k * unat (total_elt_sz mp))) mp =
    populate_loop tbl max_objs vaddr io len (Suc k) (of_nat (Suc k * unat (total_elt_sz mp))) mp'"
proof -
  have "of_nat (k * unat (total_elt_sz mp)) + total_elt_sz mp \<le> len"
    using assms(1-4) by (subst chunk_fits) (simp_all add: sizes_ok_def)
  moreover have "of_nat (k * unat (total_elt_sz mp)) + ucast (header_size mp) = obj_off mp k" by (simp add: obj_off_def)
  ultimately show ?thesis using assms(3,5) chunk_next [OF assms(1), of k]
    by (subst populate_loop.simps) (simp add: Let_def del: of_nat_mult of_nat_Suc mult_Suc)
qed

lemma populate_loop_ok:
  assumes sz: "sizes_ok mp" and len: "unat len + unat (total_elt_sz mp) < 2 ^ 64"
    and K: "K = min max_objs (unat len div unat (total_elt_sz mp))" "k \<le> K"
    and inv: "pinv mp" "size (bag mp) + (K - k) \<le> cap mp"
  shows "\<exists>d. let mp' = mp\<lparr>pool_data := d, elt_list := elt_list mp @ chunk_objs mp vaddr io k K, populated_size := populated_size mp + of_nat (K - k)\<rparr>
     in populate_loop tbl max_objs vaddr io len k (of_nat (k * unat (total_elt_sz mp))) mp = Some (mp', K) \<and> pinv mp' \<and>
       cap mp' = cap mp \<and> bag mp' = bag mp + mset (map fst (chunk_objs mp vaddr io k K))"
  using assms
proof (induction "K - k" arbitrary: k mp)
  case 0
  have k: "k = K" using 0(1,5) by simp
  have "\<not> (of_nat (k * unat (total_elt_sz mp)) + total_elt_sz mp \<le> len \<and> k < max_objs)"
  proof -
    have "0 < unat (total_elt_sz mp)" using 0(2) by (simp add: sizes_ok_def)
    then have "of_nat (k * unat (total_elt_sz mp)) + total_elt_sz mp \<le> len \<longleftrightarrow> k < unat len div unat (total_elt_sz mp)"
      by (rule chunk_fits) (use 0(3,4) k in simp_all)
    then show ?thesis using 0(4) k by (simp del: of_nat_mult)
  qed
  then have "populate_loop tbl max_objs vaddr io len k (of_nat (k * unat (total_elt_sz mp))) mp = Some (mp, K)"
    unfolding k by (subst populate_loop.simps) (simp only: if_False)
  with 0(6) show ?case by (intro exI [of _ "pool_data mp"]) (simp add: chunk_objs_def k)
next
  case (Suc n)
  have kK: "k < K" "n = K - Suc k" using Suc.hyps(2) by simp_all
  define obj where "obj = vaddr + obj_off mp k"
  define oio where "oio = (if io = RTE_BAD_IOVA then RTE_BAD_IOVA else io + obj_off mp k)"
  have lt: "size (bag mp) < cap mp" using Suc.prems(6) kK by simp
  obtain d s where d: "rte_mempool_ops_enqueue_bulk tbl (mempool_add_elem mp obj oio) [obj] 1 = Some ((mempool_add_elem mp obj oio)\<lparr>pool_data := d\<rparr>, s)"
      "pinv ((mempool_add_elem mp obj oio)\<lparr>pool_data := d\<rparr>)" "bag ((mempool_add_elem mp obj oio)\<lparr>pool_data := d\<rparr>) = add_mset obj (bag mp)"
      "cap ((mempool_add_elem mp obj oio)\<lparr>pool_data := d\<rparr>) = cap mp"
    using add_and_enqueue [OF Suc.prems(5) lt] by blast
  let ?mp = "(mempool_add_elem mp obj oio)\<lparr>pool_data := d\<rparr>"
  have same: "sizes_ok ?mp = sizes_ok mp" "total_elt_sz ?mp = total_elt_sz mp" "chunk_objs ?mp = chunk_objs mp"
    by (simp_all add: sizes_ok_def total_elt_sz_def chunk_objs_def obj_off_def mempool_add_elem_def fun_eq_iff)
  have step: "populate_loop tbl max_objs vaddr io len k (of_nat (k * unat (total_elt_sz mp))) mp =
      populate_loop tbl max_objs vaddr io len (Suc k) (of_nat (Suc k * unat (total_elt_sz mp))) ?mp"
    using d(1) unfolding obj_def oio_def
    by (intro populate_round [OF Suc.prems(1,2)]) (use kK Suc.prems(3) in simp_all)
  have "Suc k \<le> K" "size (bag ?mp) + (K - Suc k) \<le> cap ?mp" using kK d(3,4) Suc.prems(6) by simp_all
  from Suc.hyps(1) [OF kK(2), of ?mp, unfolded same, OF Suc.prems(1,2,3) this(1) d(2) this(2)]
  obtain d' where IH: "let mp' = ?mp\<lparr>pool_data := d', elt_list := elt_list ?mp @ chunk_objs mp vaddr io (Suc k) K, populated_size := populated_size ?mp + of_nat (K - Suc k)\<rparr>
     in populate_loop tbl max_objs vaddr io len (Suc k) (of_nat (Suc k * unat (total_elt_sz mp))) ?mp = Some (mp', K) \<and> pinv mp' \<and>
       cap mp' = cap ?mp \<and> bag mp' = bag ?mp + mset (map fst (chunk_objs mp vaddr io (Suc k) K))"
    by blast
  have ch: "chunk_objs mp vaddr io k K = (obj, oio) # chunk_objs mp vaddr io (Suc k) K"
    using kK by (simp add: chunk_objs_def upt_conv_Cons obj_def oio_def)
  have "populated_size mp + 1 + of_nat (K - Suc k) = populated_size mp + (of_nat (K - k) :: u32)"
    using kK by (simp add: Suc_diff_Suc [symmetric] add.assoc)
  with IH step d(3,4) ch show ?case
    by (intro exI [of _ d']) (simp add: Let_def mempool_add_elem_def del: of_nat_mult of_nat_Suc mult_Suc)
qed

end

interpretation ringpop: populated_driver ops_table ring_pool_inv ring_pool_bag ring_pool_cap
  by unfold_locales (simp_all add: ring_pool_inv_def ring_pool_bag_def ring_pool_cap_def)

interpretation stackpop: populated_driver ops_table stack_pool_inv stack_pool_bag stack_pool_cap
  by unfold_locales (simp_all add: stack_pool_inv_def stack_pool_bag_def stack_pool_cap_def)

lemma unat_obj_off:
  assumes "sizes_ok mp" "j < unat (len :: u64) div unat (total_elt_sz mp)"
  shows "unat (obj_off mp j) = j * unat (total_elt_sz mp) + unat (header_size mp)"
    "unat (obj_off mp j) + unat (elt_size mp) + unat (trailer_size mp) \<le> unat len"
proof -
  let ?tot = "unat (total_elt_sz mp)"
  have tot: "?tot = unat (header_size mp) + unat (elt_size mp) + unat (trailer_size mp)" "0 < ?tot"
    using assms(1) by (simp_all add: sizes_ok_def)
  have "Suc j * ?tot \<le> unat len" using assms(2) tot(2) by (simp only: Suc_le_eq [symmetric] less_eq_div_iff_mult_less_eq)
  then have le: "j * ?tot + ?tot \<le> unat len" by simp
  then have "j * ?tot + unat (header_size mp) \<le> unat len" using tot(1) by simp
  then have "j * ?tot + unat (header_size mp) < 2 ^ 64" using unat_lt_2p [of len] by simp
  then show u: "unat (obj_off mp j) = j * ?tot + unat (header_size mp)"
    by (simp add: obj_off_def unat_of_nat_small del: of_nat_mult of_nat_add)
  show "unat (obj_off mp j) + unat (elt_size mp) + unat (trailer_size mp) \<le> unat len" using le tot(1) u by simp
qed

text \<open>
  C33: cutting a chunk of memory into objects of a ring pool. As many objects as fit, but no more
  than asked for, are put into the ring and onto the list of objects, in order; every one lies with
  its header and trailer inside the chunk, and no two overlap.
\<close>

theorem populate_chunk:
  assumes inv: "ring_pool_inv mp" and sz: "sizes_ok mp" and len: "unat len + unat (total_elt_sz mp) < 2 ^ 64"
    and K: "K = min (unat max_objs) (unat len div unat (total_elt_sz mp))"
    and room: "size (ring_pool_bag mp) + K \<le> ring_pool_cap mp"
  shows "(\<exists>mp'. rte_mempool_ops_populate ops_table mp max_objs vaddr io len = Some (mp', K) \<and> ring_pool_inv mp' \<and>
      ring_pool_bag mp' = ring_pool_bag mp + mset (map fst (chunk_objs mp vaddr io 0 K)) \<and>
      elt_list mp' = elt_list mp @ chunk_objs mp vaddr io 0 K \<and> populated_size mp' = populated_size mp + of_nat K) \<and>
    (\<forall>j < K. unat (header_size mp) \<le> unat (obj_off mp j) \<and>
      unat (obj_off mp j) + unat (elt_size mp) + unat (trailer_size mp) \<le> unat len) \<and>
    (\<forall>j < K. \<forall>i < j. unat (obj_off mp i) + unat (elt_size mp) + unat (trailer_size mp) + unat (header_size mp) \<le> unat (obj_off mp j))"
proof (intro conjI allI impI)
  obtain d where d: "let mp' = mp\<lparr>pool_data := d, elt_list := elt_list mp @ chunk_objs mp vaddr io 0 K, populated_size := populated_size mp + of_nat (K - 0)\<rparr>
     in populate_loop ops_table (unat max_objs) vaddr io len 0 (of_nat (0 * unat (total_elt_sz mp))) mp = Some (mp', K) \<and> ring_pool_inv mp' \<and>
       ring_pool_cap mp' = ring_pool_cap mp \<and> ring_pool_bag mp' = ring_pool_bag mp + mset (map fst (chunk_objs mp vaddr io 0 K))"
    using ringpop.populate_loop_ok [OF sz len K, of 0 vaddr io] inv room by auto
  then show "\<exists>mp'. rte_mempool_ops_populate ops_table mp max_objs vaddr io len = Some (mp', K) \<and> ring_pool_inv mp' \<and>
      ring_pool_bag mp' = ring_pool_bag mp + mset (map fst (chunk_objs mp vaddr io 0 K)) \<and>
      elt_list mp' = elt_list mp @ chunk_objs mp vaddr io 0 K \<and> populated_size mp' = populated_size mp + of_nat K"
    by (simp add: rte_mempool_ops_populate_def rte_mempool_op_populate_default_def Let_def)
next
  fix j assume "j < K"
  then have j: "j < unat len div unat (total_elt_sz mp)" using K by simp
  show "unat (header_size mp) \<le> unat (obj_off mp j)" using unat_obj_off(1) [OF sz j] by simp
  show "unat (obj_off mp j) + unat (elt_size mp) + unat (trailer_size mp) \<le> unat len" by (rule unat_obj_off(2) [OF sz j])
next
  fix j i assume ij: "j < K" "i < j"
  then have j: "i < unat len div unat (total_elt_sz mp)" "j < unat len div unat (total_elt_sz mp)" using K by simp_all
  have "Suc i * unat (total_elt_sz mp) \<le> j * unat (total_elt_sz mp)" using ij by (intro mult_le_mono1) simp
  then show "unat (obj_off mp i) + unat (elt_size mp) + unat (trailer_size mp) + unat (header_size mp) \<le> unat (obj_off mp j)"
    using unat_obj_off(1) [OF sz j(1)] unat_obj_off(1) [OF sz j(2)] sz by (simp add: sizes_ok_def)
qed

theorem populate_chunk_witness:
  "\<exists>mp'. rte_mempool_ops_populate ops_table ((demo_pool 0 (PoolRing 0x2000 pool_ring4) 0)\<lparr>header_size := 64, elt_size := 128, trailer_size := 0\<rparr>)
      3 0x10000 0x90000 500 = Some (mp', 2) \<and> ring_pool_bag mp' = {#0x10040, 0x10100#}"
proof -
  let ?p = "demo_pool 0 (PoolRing 0x2000 pool_ring4) 0"
  let ?mp = "?p\<lparr>header_size := 64, elt_size := 128, trailer_size := 0\<rparr>"
  have inv: "ring_pool_inv ?mp = ring_pool_inv ?p" "ring_pool_bag ?mp = ring_pool_bag ?p" "ring_pool_cap ?mp = ring_pool_cap ?p"
    by (simp_all add: ring_pool_inv_def ring_pool_bag_def ring_pool_cap_def)
  have tot: "total_elt_sz ?mp = 192" by (simp add: total_elt_sz_def)
  have sz: "sizes_ok ?mp" by (simp add: sizes_ok_def tot)
  have "ring_pool_inv ?mp" "unat (500 :: u64) + unat (total_elt_sz ?mp) < 2 ^ 64" "2 = min (unat (3 :: u32)) (unat (500 :: u64) div unat (total_elt_sz ?mp))"
      "size (ring_pool_bag ?mp) + 2 \<le> ring_pool_cap ?mp"
    unfolding inv tot by (simp_all add: demo_ring_pool)
  from populate_chunk [OF this(1) sz this(2-4), of "0x10000" "0x90000"] obtain mp' where
      "rte_mempool_ops_populate ops_table ?mp 3 0x10000 0x90000 500 = Some (mp', 2)"
      "ring_pool_bag mp' = ring_pool_bag ?mp + mset (map fst (chunk_objs ?mp 0x10000 0x90000 0 2))" by blast
  moreover have "map fst (chunk_objs ?mp 0x10000 0x90000 0 2) = [0x10040, 0x10100]"
    by (simp add: chunk_objs_def obj_off_def tot upt_rec)
  ultimately show ?thesis unfolding inv by (auto simp: demo_ring_pool)
qed

lemma pages_enough:
  assumes "0 < (opp :: nat)"
  shows "n \<le> (n + opp - 1) div opp * opp \<and> (n + opp - 1) div opp \<le> n"
proof -
  define pn where "pn = (n + opp - 1) div opp"
  have "n \<le> n * opp" using assms by simp
  then have "n + opp - 1 < Suc n * opp" using assms unfolding mult_Suc by linarith
  then have "pn < Suc n" unfolding pn_def by (rule less_mult_imp_div_less)
  moreover have "n + opp - 1 < pn * opp + opp"
    unfolding pn_def using assms dividend_less_times_div [of opp "n + opp - 1"] by (simp add: add.commute mult.commute)
  ultimately show ?thesis by (simp add: pn_def)
qed

lemma ceil_group:
  assumes "0 < (pg :: nat)"
  shows "tot \<le> pg * ((tot + (pg - 1)) div pg) \<and> pg * ((tot + (pg - 1)) div pg) < tot + pg"
proof -
  define x where "x = tot + (pg - 1)"
  have "pg * (x div pg) + x mod pg = x" "x mod pg < pg" using assms by simp_all
  then show ?thesis using assms unfolding x_def by linarith
qed

lemma size_facts:
  assumes "sizes_ok mp" "pg_shift < 32"
  shows "0 < unat (total_elt_sz mp)" "unat (total_elt_sz mp) < 2 ^ 32" "total_elt_sz mp \<noteq> 0"
    "unat (push_bit pg_shift 1 :: u64) = 2 ^ pg_shift" "(2 :: nat) ^ pg_shift \<le> 2 ^ 31"
proof -
  show "0 < unat (total_elt_sz mp)" "unat (total_elt_sz mp) < 2 ^ 32"
    using assms(1) unat_lt_2p [of "header_size mp + elt_size mp + trailer_size mp"] by (simp_all add: sizes_ok_def total_elt_sz_def)
  then show "total_elt_sz mp \<noteq> 0" by auto
  show "unat (push_bit pg_shift 1 :: u64) = 2 ^ pg_shift" "(2 :: nat) ^ pg_shift \<le> 2 ^ 31"
    using assms(2) unat_2p [of pg_shift, where 'a = 64] power_increasing [of pg_shift 31 "2 :: nat"] by simp_all
qed

text \<open>Pages that hold whole objects.\<close>

lemma mem_size_pages:
  fixes n :: u32
  assumes "sizes_ok mp" "pg_shift < 32" "pg_shift \<noteq> 0" "unat (total_elt_sz mp) \<le> 2 ^ pg_shift"
  shows "\<exists>pn. unat (fst (rte_mempool_ops_calc_mem_size mp n pg_shift)) = pn * 2 ^ pg_shift \<and>
    unat n \<le> pn * (2 ^ pg_shift div unat (total_elt_sz mp))"
proof -
  note f = size_facts [OF assms(1,2)]
  define pg where "pg = (2 :: nat) ^ pg_shift"
  define opp where "opp = pg div unat (total_elt_sz mp)"
  have n: "unat (ucast n :: u64) = unat n" "unat n < 2 ^ 32" using unat_lt_2p [of n] by simp_all
  have opp: "0 < opp" "opp \<le> 2 ^ 31" "unat (push_bit pg_shift 1 div total_elt_sz mp) = opp"
    using assms(4) f by (simp_all add: opp_def pg_def unat_div div_greater_zero_iff div_le_dividend [THEN order_trans])
  define pn where "pn = (unat n + opp - 1) div opp"
  have "unat (ucast n + push_bit pg_shift 1 div total_elt_sz mp :: u64) = unat n + opp"
    using n opp by (subst unat_plus_simple) simp_all
  then have "unat (ucast n + push_bit pg_shift 1 div total_elt_sz mp - 1 :: u64) = unat n + opp - 1"
    using opp(1) by (subst unat_sub_simple) (simp_all add: word_le_nat_alt)
  then have u: "unat ((ucast n + push_bit pg_shift 1 div total_elt_sz mp - 1) div (push_bit pg_shift 1 div total_elt_sz mp) :: u64) = pn"
    using opp(3) by (simp only: unat_div pn_def)
  have pn: "unat n \<le> pn * opp" "pn \<le> unat n" unfolding pn_def using pages_enough [OF opp(1), of "unat n"] by simp_all
  have pb: "unat (push_bit pg_shift w :: u64) = pn * pg" if "unat w = pn" for w
  proof -
    have "pn * pg < 2 ^ 32 * 2 ^ 32" using pn(2) n(2) f(5) unfolding pg_def by (intro mult_strict_mono) simp_all
    then show ?thesis using that f(4) by (simp add: pg_def push_bit_eq_mult unat_word_ariths)
  qed
  have "push_bit pg_shift 1 div total_elt_sz mp \<noteq> 0" using opp(1,3) by auto
  then have "fst (rte_mempool_ops_calc_mem_size mp n pg_shift) =
      push_bit pg_shift ((ucast n + push_bit pg_shift 1 div total_elt_sz mp - 1) div (push_bit pg_shift 1 div total_elt_sz mp))"
    using assms(3) f(3) by (simp add: rte_mempool_ops_calc_mem_size_def rte_mempool_op_calc_mem_size_default_def Let_def)
  then show ?thesis using pb [OF u] pn(1) by (intro exI [of _ pn]) (simp add: pg_def opp_def)
qed

text \<open>Objects larger than a page.\<close>

lemma mem_size_groups:
  fixes n :: u32
  assumes "sizes_ok mp" "pg_shift < 32" "pg_shift \<noteq> 0" "2 ^ pg_shift < unat (total_elt_sz mp)" "unat (total_elt_sz mp) \<le> 2 ^ 31"
  shows "\<exists>group. unat (fst (rte_mempool_ops_calc_mem_size mp n pg_shift)) = unat n * group \<and> unat (total_elt_sz mp) \<le> group \<and> group mod 2 ^ pg_shift = 0"
proof -
  note f = size_facts [OF assms(1,2)]
  define tot where "tot = unat (total_elt_sz mp)"
  define pg where "pg = (2 :: nat) ^ pg_shift"
  define group where "group = pg * ((tot + (pg - 1)) div pg)"
  have n: "unat (ucast n :: u64) = unat n" "unat n < 2 ^ 32" using unat_lt_2p [of n] by simp_all
  have g: "unat (RTE_ALIGN_CEIL (total_elt_sz mp) (push_bit pg_shift 1)) = group"
    using unat_align_ceil [of pg_shift "total_elt_sz mp"] assms(2) f by (simp add: group_def tot_def pg_def)
  have ge: "tot \<le> group" "group < tot + pg" unfolding group_def using ceil_group [of pg tot] by (simp_all add: pg_def)
  have "group * unat n < 2 ^ 32 * 2 ^ 32" using ge assms(4,5) n(2) unfolding tot_def pg_def by (intro mult_strict_mono) simp_all
  then have m: "unat (RTE_ALIGN_CEIL (total_elt_sz mp) (push_bit pg_shift 1) * ucast n) = group * unat n"
    using n(1) g by (simp add: unat_word_ariths)
  have "unat (push_bit pg_shift 1 div total_elt_sz mp) = 0" using assms(4) f(4) by (simp add: unat_div)
  then have "push_bit pg_shift 1 div total_elt_sz mp = 0" by (simp add: unat_eq_zero)
  then have "unat (fst (rte_mempool_ops_calc_mem_size mp n pg_shift)) = group * unat n"
    using assms(3) f(3) m by (simp add: rte_mempool_ops_calc_mem_size_def rte_mempool_op_calc_mem_size_default_def Let_def)
  moreover have "group mod pg = 0" by (simp add: group_def)
  ultimately show ?thesis using ge(1) by (intro exI [of _ group]) (simp add: tot_def pg_def mult.commute)
qed

text \<open>
  C34: the memory size computed for \<open>n\<close> objects is enough. Without page boundaries it holds exactly
  \<open>n\<close> objects; with pages that hold whole objects it is a number of pages whose objects together
  are at least \<open>n\<close>; with objects larger than a page it gives every object its own group of pages.
\<close>

theorem mem_size_sufficient:
  assumes sz: "sizes_ok mp" "unat (total_elt_sz mp) \<le> 2 ^ 31" and shift: "pg_shift < 32"
  shows "let mem_size = fst (rte_mempool_ops_calc_mem_size mp n pg_shift); tot = unat (total_elt_sz mp); pg = 2 ^ pg_shift in
    if pg_shift = 0 then unat mem_size div tot = unat n
    else if tot \<le> pg then unat mem_size mod pg = 0 \<and> unat n \<le> (unat mem_size div pg) * (pg div tot)
    else \<exists>group. unat mem_size = unat n * group \<and> tot \<le> group \<and> group mod pg = 0"
proof -
  note f = size_facts [OF sz(1) shift]
  have m0: "unat (total_elt_sz mp * ucast n) = unat (total_elt_sz mp) * unat n"
  proof -
    have "unat (total_elt_sz mp) * unat n < 2 ^ 32 * 2 ^ 32" using f(2) unat_lt_2p [of n] by (intro mult_strict_mono) simp_all
    then show ?thesis by (simp add: unat_word_ariths)
  qed
  consider "pg_shift = 0" | "pg_shift \<noteq> 0" "unat (total_elt_sz mp) \<le> 2 ^ pg_shift" | "pg_shift \<noteq> 0" "2 ^ pg_shift < unat (total_elt_sz mp)" by linarith
  then show ?thesis
  proof cases
    case 1
    then show ?thesis using m0 f(1,3) by (simp add: rte_mempool_ops_calc_mem_size_def rte_mempool_op_calc_mem_size_default_def Let_def)
  next
    case 2
    then show ?thesis using mem_size_pages [OF sz(1) shift 2, of n] by (auto simp: Let_def)
  next
    case 3
    then show ?thesis using mem_size_groups [OF sz(1) shift 3 sz(2), of n] by (auto simp: Let_def)
  qed
qed

theorem mem_size_sufficient_witness:
  "unat (fst (rte_mempool_ops_calc_mem_size ((demo_pool 0 (PoolRing 0x2000 pool_ring4) 0)\<lparr>header_size := 64, elt_size := 128, trailer_size := 0\<rparr>) 100 12)) mod 4096 = 0"
proof -
  let ?mp = "(demo_pool 0 (PoolRing 0x2000 pool_ring4) 0)\<lparr>header_size := 64, elt_size := 128, trailer_size := 0\<rparr>"
  have tot: "total_elt_sz ?mp = 192" by (simp add: total_elt_sz_def)
  then have "sizes_ok ?mp" "unat (total_elt_sz ?mp) \<le> 2 ^ 31" by (simp_all add: sizes_ok_def)
  from mem_size_sufficient [OF this, of 12 100] show ?thesis by (simp add: tot Let_def)
qed

end
