(* ===== verification/MempoolCreate.thy ===== *)
theory MempoolCreate
  imports MempoolSize
begin

text \<open>
  Creation of pools (\<^verbatim>\<open>lib/librte_mempool/rte_mempool.c\<close>): population with memory zones,
  virtual areas and anonymous mappings, release of the chunks, and the constructors and the
  destructor. What the environment abstraction layer provides is a record of functions (address
  translation, page sizes, zone reservation, memory mapping); the zones given out and the ones
  released are logged in it.
\<close>

section \<open>Environment\<close>

record pool_zone =
  pz_desc :: addr
  pz_addr :: addr
  pz_iova :: iova
  pz_len :: u64

text \<open>
  A zone reservation may depend on the zones given out before. A memory segment list has a socket,
  says whether it is external and has a page size. The last fields are the state: zones given out,
  zones and mappings released, pools registered, and \<^verbatim>\<open>rte_errno\<close>.
\<close>

record eal_env =
  drv :: pool_env
  nchannel :: u32
  nrank :: u32
  virt2iova :: "addr \<Rightarrow> iova"
  has_hugepages :: bool
  iova_as_va :: bool
  socket_is_external :: "int \<Rightarrow> int"
  memseg_lists :: "(int \<times> bool \<times> u64) list"
  pagesize :: u64
  reserve :: "pool_zone list \<Rightarrow> string \<Rightarrow> u64 \<Rightarrow> int \<Rightarrow> u32 \<Rightarrow> u64 \<Rightarrow> errno + pool_zone"
  mmap_anon :: "u64 \<Rightarrow> errno + addr"
  mlock_err :: "errno option"
  malloc_ok :: "string \<Rightarrow> bool"
  zones :: "pool_zone list"
  zones_freed :: "addr list"
  unmapped :: "(addr \<times> u64) list"
  mempool_list :: "addr list"
  eal_errno :: int

definition SOCKET_ID_ANY :: int where
  "SOCKET_ID_ANY = - 1"

definition RTE_MEMZONE_1GB :: u32 where
  "RTE_MEMZONE_1GB = 0x2"

definition RTE_MEMZONE_SIZE_HINT_ONLY :: u32 where
  "RTE_MEMZONE_SIZE_HINT_ONLY = 0x4"

definition RTE_MEMZONE_IOVA_CONTIG :: u32 where
  "RTE_MEMZONE_IOVA_CONTIG = 0x00100000"

text \<open>\<^verbatim>\<open>rte_memzone_reserve_aligned\<close>, no zone for NULL.\<close>

definition memzone_reserve_aligned ::
  "eal_env \<Rightarrow> string \<Rightarrow> u64 \<Rightarrow> int \<Rightarrow> u32 \<Rightarrow> u64 \<Rightarrow> eal_env \<times> pool_zone option" where
  "memzone_reserve_aligned env nm len socket flags align =
     (case reserve env (zones env) nm len socket flags align of
        Inl e \<Rightarrow> (env\<lparr>eal_errno := errno_code e\<rparr>, None)
      | Inr z \<Rightarrow> (env\<lparr>zones := zones env @ [z]\<rparr>, Some z))"

definition memzone_free :: "addr \<Rightarrow> eal_env \<Rightarrow> eal_env" where
  "memzone_free mz env = env\<lparr>zones_freed := zones_freed env @ [mz]\<rparr>"

section \<open>Page sizes\<close>

definition find_min_pagesz :: "int \<Rightarrow> (int \<times> bool \<times> u64) \<Rightarrow> u64 \<Rightarrow> u64" where
  "find_min_pagesz sock msl wa_min =
     (let (msl_socket, external, page_sz) = msl;
          valid = msl_socket = sock \<or> (sock = SOCKET_ID_ANY \<and> \<not> external)
      in if valid \<and> page_sz < wa_min then page_sz else wa_min)"

definition get_min_page_size :: "eal_env \<Rightarrow> int \<Rightarrow> u64" where
  "get_min_page_size env sock =
     (let wa_min = fold (find_min_pagesz sock) (memseg_lists env) (- 1)
      in if wa_min = - 1 then pagesize env else wa_min)"

section \<open>Releasing chunks\<close>

text \<open>The size as \<^verbatim>\<open>ssize_t\<close>.\<close>

definition get_anon_size :: "eal_env \<Rightarrow> rte_mempool \<Rightarrow> u64 option" where
  "get_anon_size env mp = do {
     pg_shift \<leftarrow> rte_bsf32 (ucast (pagesize env));
     Some (fst (rte_mempool_ops_calc_mem_size mp (mp_size mp) (unat pg_shift))) }"

definition call_free_cb :: "rte_mempool \<Rightarrow> rte_mempool_memhdr \<Rightarrow> eal_env \<Rightarrow> eal_env option" where
  "call_free_cb mp hdr env = (case mh_free_cb hdr of
     NoFree \<Rightarrow> Some env
   | MzFree \<Rightarrow> Some (memzone_free (mh_opaque hdr) env)
   | AnonFree \<Rightarrow> do {
       size \<leftarrow> get_anon_size env mp;
       if sint size < 0 then Some env
       else Some (env\<lparr>unmapped := unmapped env @ [(mh_opaque hdr, size)]\<rparr>) })"

fun free_elts :: "rte_mempool_ops list \<Rightarrow> (addr \<times> iova) list \<Rightarrow> rte_mempool \<Rightarrow> rte_mempool option" where
  "free_elts tbl [] mp = Some mp"
| "free_elts tbl (e # es) mp = do {
     (mp, _, _) \<leftarrow> rte_mempool_ops_dequeue_bulk tbl mp 1;
     free_elts tbl es (mp\<lparr>elt_list := es, populated_size := populated_size mp - 1\<rparr>) }"

fun free_mems :: "rte_mempool_memhdr list \<Rightarrow> eal_env \<Rightarrow> rte_mempool \<Rightarrow> (eal_env \<times> rte_mempool) option" where
  "free_mems [] env mp = Some (env, mp)"
| "free_mems (h # hs) env mp = do {
     env \<leftarrow> call_free_cb mp h env;
     free_mems hs env (mp\<lparr>mem_list := hs, nb_mem_chunks := nb_mem_chunks mp - 1\<rparr>) }"

definition rte_mempool_free_memchunks :: "rte_mempool_ops list \<Rightarrow> eal_env \<Rightarrow> rte_mempool \<Rightarrow> (eal_env \<times> rte_mempool) option" where
  "rte_mempool_free_memchunks tbl env mp = do {
     mp \<leftarrow> free_elts tbl (elt_list mp) mp;
     free_mems (mem_list mp) env mp }"

section \<open>Populating\<close>

definition mempool_ops_alloc_once :: "rte_mempool_ops list \<Rightarrow> eal_env \<Rightarrow> rte_mempool \<Rightarrow> (eal_env \<times> rte_mempool \<times> int) option" where
  "mempool_ops_alloc_once tbl env mp =
     (if mp_flags mp AND MEMPOOL_F_POOL_CREATED = 0
      then do {
        (d, mp, ret) \<leftarrow> rte_mempool_ops_alloc tbl (drv env) mp;
        (let env = env\<lparr>drv := d\<rparr>
         in if ret \<noteq> 0 then Some (env, mp, ret)
            else Some (env, mp\<lparr>mp_flags := mp_flags mp OR MEMPOOL_F_POOL_CREATED\<rparr>, 0)) }
      else Some (env, mp, 0))"

definition chunk_start :: "rte_mempool \<Rightarrow> addr \<Rightarrow> u64" where
  "chunk_start mp vaddr =
     (if mp_flags mp AND MEMPOOL_F_NO_CACHE_ALIGN \<noteq> 0 then RTE_ALIGN_CEIL vaddr 8 - vaddr
      else RTE_ALIGN_CEIL vaddr RTE_CACHE_LINE_SIZE - vaddr)"

definition rte_mempool_populate_iova ::
  "rte_mempool_ops list \<Rightarrow> rte_mempool \<Rightarrow> addr \<Rightarrow> iova \<Rightarrow> u64 \<Rightarrow> memchunk_free_cb \<Rightarrow> addr \<Rightarrow> eal_env \<Rightarrow> (eal_env \<times> rte_mempool \<times> int) option" where
  "rte_mempool_populate_iova tbl mp vaddr io len free_cb opaque env = do {
     (env, mp, ret) \<leftarrow> mempool_ops_alloc_once tbl env mp;
     if ret \<noteq> 0 then Some (env, mp, ret)
     else if populated_size mp \<ge> mp_size mp then Some (env, mp, - errno_code ENOSPC)
     else if \<not> malloc_ok env ''MEMPOOL_MEMHDR'' then Some (env, mp, - errno_code ENOMEM)
     else let off = chunk_start mp vaddr
          in if off > len then Some (env, mp, - errno_code EINVAL)
             else do {
               (mp, i) \<leftarrow> rte_mempool_ops_populate tbl mp (mp_size mp - populated_size mp) (vaddr + off)
                 (if io = RTE_BAD_IOVA then RTE_BAD_IOVA else io + off) (len - off);
               if i = 0 then Some (env, mp, - errno_code EINVAL)
               else Some (env, mp\<lparr>mem_list := mem_list mp @
                   [\<lparr>mh_addr = vaddr, mh_iova = io, mh_len = len, mh_free_cb = free_cb, mh_opaque = opaque\<rparr>],
                 nb_mem_chunks := nb_mem_chunks mp + 1\<rparr>, int i) } }"

text \<open>The length of the largest group of contiguous pages from an offset on.\<close>

partial_function (option) contig_len :: "eal_env \<Rightarrow> addr \<Rightarrow> u64 \<Rightarrow> u64 \<Rightarrow> u64 \<Rightarrow> iova \<Rightarrow> u64 \<Rightarrow> u64 option" where
  "contig_len env a off len pg_sz io phys_len =
     (if off + phys_len < len
      then if virt2iova env (a + off + phys_len) \<noteq> io + phys_len then Some phys_len
           else contig_len env a off len pg_sz io (phys_len + pg_sz)
      else Some phys_len)"

partial_function (option) virt_loop ::
  "rte_mempool_ops list \<Rightarrow> addr \<Rightarrow> u64 \<Rightarrow> u64 \<Rightarrow> addr \<Rightarrow> memchunk_free_cb \<Rightarrow> u64 \<Rightarrow> int \<Rightarrow> rte_mempool \<Rightarrow> eal_env \<Rightarrow> (eal_env \<times> rte_mempool \<times> int) option" where
  "virt_loop tbl a len pg_sz opaque free_cb off added mp env =
     (if off + pg_sz \<le> len \<and> populated_size mp < mp_size mp
      then let io = virt2iova env (a + off)
           in if io = RTE_BAD_IOVA \<and> has_hugepages env
              then do { (env, mp) \<leftarrow> rte_mempool_free_memchunks tbl env mp; Some (env, mp, - errno_code EINVAL) }
              else do {
                phys_len \<leftarrow> contig_len env a off len pg_sz io pg_sz;
                (env, mp, ret) \<leftarrow> rte_mempool_populate_iova tbl mp (a + off) io phys_len free_cb opaque env;
                if ret < 0 then do { (env, mp) \<leftarrow> rte_mempool_free_memchunks tbl env mp; Some (env, mp, ret) }
                else virt_loop tbl a len pg_sz opaque NoFree (off + phys_len) (added + ret) mp env }
      else Some (env, mp, added))"

definition rte_mempool_populate_virt ::
  "rte_mempool_ops list \<Rightarrow> rte_mempool \<Rightarrow> addr \<Rightarrow> u64 \<Rightarrow> u64 \<Rightarrow> memchunk_free_cb \<Rightarrow> addr \<Rightarrow> eal_env \<Rightarrow> (eal_env \<times> rte_mempool \<times> int) option" where
  "rte_mempool_populate_virt tbl mp a len pg_sz free_cb opaque env =
     (if RTE_ALIGN_CEIL a pg_sz \<noteq> a then Some (env, mp, - errno_code EINVAL)
      else if RTE_ALIGN_CEIL len pg_sz \<noteq> len then Some (env, mp, - errno_code EINVAL)
      else if mp_flags mp AND MEMPOOL_F_NO_IOVA_CONTIG \<noteq> 0
      then rte_mempool_populate_iova tbl mp a RTE_BAD_IOVA len free_cb opaque env
      else virt_loop tbl a len pg_sz opaque free_cb 0 0 mp env)"

text \<open>Decimal digits of a number, as \<^verbatim>\<open>snprintf\<close> prints it.\<close>

fun decimal :: "nat \<Rightarrow> string" where
  "decimal n = (if n < 10 then [char_of (n + 48)] else decimal (n div 10) @ [char_of (n mod 10 + 48)])"

text \<open>
  The zone for \<open>n\<close> more objects: tried contiguous, then page by page, then the biggest there is.
  The result is the zone and the minimal chunk size, or a status, with whether contiguous memory
  is still tried.
\<close>

definition default_zone ::
  "rte_mempool \<Rightarrow> nat \<Rightarrow> u32 \<Rightarrow> bool \<Rightarrow> bool \<Rightarrow> u64 \<Rightarrow> nat \<Rightarrow> eal_env \<Rightarrow> eal_env \<times> bool \<times> (int + pool_zone \<times> u64)" where
  "default_zone mp mz_id n no_pageshift try_contig pg_sz pg_shift env =
     (let (mem_size, min_chunk_size, align) =
            rte_mempool_ops_calc_mem_size mp n (if try_contig \<or> no_pageshift then 0 else pg_shift);
          mz_name = RTE_MEMPOOL_MZ_PREFIX @ mp_name mp @ ''_'' @ decimal mz_id
      in if sint mem_size < 0 then (env, try_contig, Inl (sint (ucast mem_size :: u32)))
         else if length mz_name \<ge> RTE_MEMZONE_NAMESIZE then (env, try_contig, Inl (- errno_code ENAMETOOLONG))
         else
           let flags = RTE_MEMZONE_1GB OR RTE_MEMZONE_SIZE_HINT_ONLY;
               flags = (if try_contig then flags OR RTE_MEMZONE_IOVA_CONTIG else flags);
               (env, mz) = memzone_reserve_aligned env mz_name mem_size (socket_id mp) flags align;
               retry = (mz = None \<and> try_contig \<and> min_chunk_size \<le> pg_sz);
               (mem_size', min_chunk_size', align') = rte_mempool_ops_calc_mem_size mp n pg_shift
           in if retry \<and> sint mem_size' < 0 then (env, False, Inl (sint (ucast mem_size' :: u32)))
              else
                let try_contig = (try_contig \<and> \<not> retry);
                    flags = (if retry then flags AND NOT RTE_MEMZONE_IOVA_CONTIG else flags);
                    mem_size = (if retry then mem_size' else mem_size);
                    min_chunk_size = (if retry then min_chunk_size' else min_chunk_size);
                    align = (if retry then align' else align);
                    (env, mz) = (if retry then memzone_reserve_aligned env mz_name mem_size (socket_id mp) flags align else (env, mz));
                    (env, mz) = (if min_chunk_size < mem_size \<and> mz = None
                                 then memzone_reserve_aligned env mz_name 0 (socket_id mp) flags (max pg_sz align) else (env, mz))
                in case mz of
                     None \<Rightarrow> (env, try_contig, Inl (- eal_errno env))
                   | Some z \<Rightarrow>
                       if pz_len z < min_chunk_size then (memzone_free (pz_desc z) env, try_contig, Inl (- errno_code ENOMEM))
                       else (env, try_contig, Inr (z, min_chunk_size)))"

partial_function (option) default_loop ::
  "rte_mempool_ops list \<Rightarrow> bool \<Rightarrow> bool \<Rightarrow> u64 \<Rightarrow> nat \<Rightarrow> bool \<Rightarrow> nat \<Rightarrow> u32 \<Rightarrow> rte_mempool \<Rightarrow> eal_env \<Rightarrow> (eal_env \<times> rte_mempool \<times> int) option" where
  "default_loop tbl no_contig no_pageshift pg_sz pg_shift try_contig mz_id n mp env =
     (if n > 0
      then case default_zone mp mz_id n no_pageshift try_contig pg_sz pg_shift env of
        (env, try_contig, Inl ret) \<Rightarrow> do {
          (env, mp) \<leftarrow> rte_mempool_free_memchunks tbl env mp;
          Some (env, mp, ret) }
      | (env, try_contig, Inr (z, _)) \<Rightarrow> do {
          (env, mp, ret) \<leftarrow> (if no_pageshift \<or> try_contig
            then rte_mempool_populate_iova tbl mp (pz_addr z) (if no_contig then RTE_BAD_IOVA else pz_iova z) (pz_len z) MzFree (pz_desc z) env
            else rte_mempool_populate_virt tbl mp (pz_addr z) (RTE_ALIGN_FLOOR (pz_len z) pg_sz) pg_sz MzFree (pz_desc z) env);
          if ret < 0 then do {
            env \<leftarrow> Some (memzone_free (pz_desc z) env);
            (env, mp) \<leftarrow> rte_mempool_free_memchunks tbl env mp;
            Some (env, mp, ret) }
          else default_loop tbl no_contig no_pageshift pg_sz pg_shift try_contig (mz_id + 1) (n - of_int ret) mp env }
      else Some (env, mp, int (unat (mp_size mp))))"

definition rte_mempool_populate_default :: "rte_mempool_ops list \<Rightarrow> rte_mempool \<Rightarrow> eal_env \<Rightarrow> (eal_env \<times> rte_mempool \<times> int) option" where
  "rte_mempool_populate_default tbl mp env = do {
     (env, mp, ret) \<leftarrow> mempool_ops_alloc_once tbl env mp;
     if ret \<noteq> 0 then Some (env, mp, ret)
     else if socket_is_external env (socket_id mp) < 0 then Some (env, mp, - errno_code EINVAL)
     else if nb_mem_chunks mp \<noteq> 0 then Some (env, mp, - errno_code EEXIST)
     else
       let no_contig = mp_flags mp AND MEMPOOL_F_NO_IOVA_CONTIG \<noteq> 0;
           external = socket_is_external env (socket_id mp) = 1;
           no_pageshift = no_contig \<or> (\<not> external \<and> iova_as_va env);
           try_contig = (\<not> no_contig \<and> \<not> no_pageshift \<and> (has_hugepages env \<or> external));
           pg_sz = (if no_pageshift then 0 else if try_contig then get_min_page_size env (socket_id mp) else pagesize env)
       in do {
         pg_shift \<leftarrow> (if no_pageshift then Some 0 else rte_bsf32 (ucast pg_sz));
         default_loop tbl no_contig no_pageshift pg_sz (unat pg_shift) try_contig 0 (mp_size mp) mp env } }"

definition rte_mempool_populate_anon :: "rte_mempool_ops list \<Rightarrow> rte_mempool \<Rightarrow> eal_env \<Rightarrow> (eal_env \<times> rte_mempool \<times> int) option" where
  "rte_mempool_populate_anon tbl mp env =
     (if mem_list mp \<noteq> [] \<or> nb_mem_chunks mp \<noteq> 0 then Some (env\<lparr>eal_errno := errno_code EINVAL\<rparr>, mp, 0)
      else do {
        (env, mp, ret) \<leftarrow> mempool_ops_alloc_once tbl env mp;
        if ret \<noteq> 0 then Some (env, mp, ret)
        else do {
          size \<leftarrow> get_anon_size env mp;
          if sint size < 0 then Some (env\<lparr>eal_errno := - sint size\<rparr>, mp, 0)
          else case mmap_anon env size of
            Inl e \<Rightarrow> Some (env\<lparr>eal_errno := errno_code e\<rparr>, mp, 0)
          | Inr a \<Rightarrow> (case mlock_err env of
              Some e \<Rightarrow> Some (env\<lparr>eal_errno := errno_code e, unmapped := unmapped env @ [(a, size)]\<rparr>, mp, 0)
            | None \<Rightarrow> do {
                (env, mp, ret) \<leftarrow> rte_mempool_populate_virt tbl mp a size (pagesize env) AnonFree a env;
                if ret = 0 then do { (env, mp) \<leftarrow> rte_mempool_free_memchunks tbl env mp; Some (env, mp, 0) }
                else Some (env, mp, int (unat (populated_size mp))) }) } })"

section \<open>Construction and destruction\<close>

text \<open>The pool at an address, none for NULL.\<close>

definition rte_mempool_free :: "rte_mempool_ops list \<Rightarrow> (addr \<times> rte_mempool) option \<Rightarrow> eal_env \<Rightarrow> eal_env option" where
  "rte_mempool_free tbl p env = (case p of
     None \<Rightarrow> Some env
   | Some (a, mp) \<Rightarrow> do {
       env \<leftarrow> Some (env\<lparr>mempool_list := remove1 a (mempool_list env)\<rparr>);
       (env, mp) \<leftarrow> rte_mempool_free_memchunks tbl env mp;
       d \<leftarrow> rte_mempool_ops_free tbl (drv env) mp;
       Some (memzone_free (mp_mz mp) (env\<lparr>drv := d\<rparr>)) })"

definition sizeof_rte_mempool :: u64 where
  "sizeof_rte_mempool = 192"

definition sizeof_rte_mempool_cache :: u64 where
  "sizeof_rte_mempool_cache = 12352"

definition MEMPOOL_HEADER_SIZE :: "u32 \<Rightarrow> u64" where
  "MEMPOOL_HEADER_SIZE cs = sizeof_rte_mempool + (if cs = 0 then 0 else sizeof_rte_mempool_cache * of_nat RTE_MAX_LCORE)"

text \<open>
  The new pool with its address, none for NULL. The second test of the name, for the name field of
  the structure, cannot fail after the first, which is for the longer name with its prefix.
\<close>

definition rte_mempool_create_empty ::
  "string \<Rightarrow> u32 \<Rightarrow> u32 \<Rightarrow> u32 \<Rightarrow> u32 \<Rightarrow> int \<Rightarrow> u32 \<Rightarrow> eal_env \<Rightarrow> (eal_env \<times> (addr \<times> rte_mempool) option) option" where
  "rte_mempool_create_empty nm n esize csize psize sock flags env =
     (if n = 0 then Some (env\<lparr>eal_errno := errno_code EINVAL\<rparr>, None)
      else if csize > RTE_MEMPOOL_CACHE_MAX_SIZE \<or> CALC_CACHE_FLUSHTHRESH csize > n
      then Some (env\<lparr>eal_errno := errno_code EINVAL\<rparr>, None)
      else
        let flags = (if flags AND MEMPOOL_F_NO_CACHE_ALIGN \<noteq> 0 then flags OR MEMPOOL_F_NO_SPREAD else flags)
        in do {
          objsz \<leftarrow> rte_mempool_calc_obj_size (nchannel env) (nrank env) esize flags;
          if sz_total objsz = 0 then Some (env\<lparr>eal_errno := errno_code EINVAL\<rparr>, None)
          else
            let psize = (psize + RTE_MEMPOOL_ALIGN_MASK) AND NOT RTE_MEMPOOL_ALIGN_MASK;
                mempool_size = RTE_ALIGN_CEIL (MEMPOOL_HEADER_SIZE csize + ucast psize) (ucast RTE_MEMPOOL_ALIGN);
                mz_name = RTE_MEMPOOL_MZ_PREFIX @ nm
            in if \<not> malloc_ok env ''MEMPOOL_TAILQ_ENTRY'' then Some (env, None)
               else if length mz_name \<ge> RTE_MEMZONE_NAMESIZE then Some (env\<lparr>eal_errno := errno_code ENAMETOOLONG\<rparr>, None)
               else case memzone_reserve_aligned env mz_name mempool_size sock (RTE_MEMZONE_1GB OR RTE_MEMZONE_SIZE_HINT_ONLY) RTE_CACHE_LINE_SIZE of
                 (env, None) \<Rightarrow> Some (env, None)
               | (env, Some mz) \<Rightarrow>
                   let caches = (if csize \<noteq> 0 then replicate RTE_MAX_LCORE (mempool_cache_init zero_cache csize) else []);
                       mp = \<lparr>mp_name = nm, pool_data = PoolNone, pool_config = NULL, mp_mz = pz_desc mz, mp_flags = flags,
                         socket_id = sock, mp_size = n, cache_size = csize, elt_size = sz_elt objsz, header_size = sz_header objsz,
                         trailer_size = sz_trailer objsz, private_data_size = psize, ops_index = 0, local_cache = caches,
                         populated_size = 0, elt_list = [], nb_mem_chunks = 0, mem_list = []\<rparr>
                   in Some (env\<lparr>mempool_list := mempool_list env @ [pz_addr mz]\<rparr>, Some (pz_addr mz, mp)) })"

text \<open>The callbacks of the user work on a state of their own.\<close>

definition rte_mempool_create ::
  "rte_mempool_ops list \<Rightarrow> string \<Rightarrow> u32 \<Rightarrow> u32 \<Rightarrow> u32 \<Rightarrow> u32 \<Rightarrow> (rte_mempool \<Rightarrow> 's \<Rightarrow> 's) option \<Rightarrow>
   (rte_mempool \<Rightarrow> addr \<Rightarrow> nat \<Rightarrow> 's \<Rightarrow> 's option) option \<Rightarrow> int \<Rightarrow> u32 \<Rightarrow> 's \<Rightarrow> eal_env \<Rightarrow>
   (eal_env \<times> 's \<times> (addr \<times> rte_mempool) option) option" where
  "rte_mempool_create tbl nm n esize csize psize mp_init obj_init sock flags st env = do {
     (env, r) \<leftarrow> rte_mempool_create_empty nm n esize csize psize sock flags env;
     (case r of None \<Rightarrow> Some (env, st, None)
      | Some (a, mp) \<Rightarrow>
          let (mp, ret) =
            (if flags AND MEMPOOL_F_SP_PUT \<noteq> 0 \<and> flags AND MEMPOOL_F_SC_GET \<noteq> 0
             then rte_mempool_set_ops_byname tbl mp ''ring_sp_sc'' NULL
             else if flags AND MEMPOOL_F_SP_PUT \<noteq> 0 then rte_mempool_set_ops_byname tbl mp ''ring_sp_mc'' NULL
             else if flags AND MEMPOOL_F_SC_GET \<noteq> 0 then rte_mempool_set_ops_byname tbl mp ''ring_mp_sc'' NULL
             else rte_mempool_set_ops_byname tbl mp ''ring_mp_mc'' NULL)
          in if ret \<noteq> 0 then do { env \<leftarrow> rte_mempool_free tbl (Some (a, mp)) env; Some (env, st, None) }
             else do {
               st \<leftarrow> Some (case mp_init of None \<Rightarrow> st | Some f \<Rightarrow> f mp st);
               (env, mp, ret) \<leftarrow> rte_mempool_populate_default tbl mp env;
               if ret < 0 then do { env \<leftarrow> rte_mempool_free tbl (Some (a, mp)) env; Some (env, st, None) }
               else (case obj_init of
                 None \<Rightarrow> Some (env, st, Some (a, mp))
               | Some f \<Rightarrow> do { (st, _) \<leftarrow> rte_mempool_obj_iter mp (f mp) st; Some (env, st, Some (a, mp)) }) }) }"

section \<open>Releasing all chunks\<close>

definition mz_chunks :: "rte_mempool_memhdr list \<Rightarrow> addr list" where
  "mz_chunks hs = map mh_opaque (filter (\<lambda>h. mh_free_cb h = MzFree) hs)"

lemma free_mems_zones:
  assumes "\<forall>h \<in> set hs. mh_free_cb h \<noteq> AnonFree" "mem_list mp = hs"
  shows "free_mems hs env mp = Some (env\<lparr>zones_freed := zones_freed env @ mz_chunks hs\<rparr>,
    mp\<lparr>mem_list := [], nb_mem_chunks := nb_mem_chunks mp - of_nat (length hs)\<rparr>)"
  using assms
proof (induction hs arbitrary: env mp)
  case (Cons h hs)
  then show ?case
    by (cases "mh_free_cb h") (simp_all add: call_free_cb_def mz_chunks_def memzone_free_def)
qed (simp add: mz_chunks_def)

text \<open>A driver does not look at the list of memory chunks either.\<close>

locale chunk_driver = populated_driver +
  assumes frame_mem: "pinv (mp\<lparr>mem_list := hs, nb_mem_chunks := j\<rparr>) = pinv mp"
    "bag (mp\<lparr>mem_list := hs, nb_mem_chunks := j\<rparr>) = bag mp" "cap (mp\<lparr>mem_list := hs, nb_mem_chunks := j\<rparr>) = cap mp"
begin

lemma free_elts_ok:
  assumes "pinv mp" "elt_list mp = es"
  shows "\<exists>d. free_elts tbl es mp = Some (mp\<lparr>pool_data := d, elt_list := [], populated_size := populated_size mp - of_nat (length es)\<rparr>) \<and>
    pinv (mp\<lparr>pool_data := d, elt_list := [], populated_size := populated_size mp - of_nat (length es)\<rparr>) \<and>
    size (bag (mp\<lparr>pool_data := d\<rparr>)) = size (bag mp) - length es"
  using assms
proof (induction es arbitrary: mp)
  case Nil
  then show ?case using frame_elts(1) [where mp = mp and es = "[]" and k = "populated_size mp"]
    by (intro exI [of _ "pool_data mp"]) simp
next
  case (Cons e es)
  obtain d objs s where d: "rte_mempool_ops_dequeue_bulk tbl mp 1 = Some (mp\<lparr>pool_data := d\<rparr>, objs, s)" "pinv (mp\<lparr>pool_data := d\<rparr>)"
      "size (bag (mp\<lparr>pool_data := d\<rparr>)) = size (bag mp) - 1"
  proof (cases "size (bag mp) = 0")
    case True
    then have "size (bag mp) < unat (1 :: u32)" by simp
    with dequeue_fail [OF Cons.prems(1) this] that [of "pool_data mp"] Cons.prems(1) True show ?thesis by auto
  next
    case False
    then have "unat (1 :: u32) \<le> size (bag mp)" by (metis One_nat_def Suc_leI neq0_conv unat_1)
    from dequeue [OF Cons.prems(1) this] obtain d objs s where "rte_mempool_ops_dequeue_bulk tbl mp 1 = Some (mp\<lparr>pool_data := d\<rparr>, objs, s)"
        "pinv (mp\<lparr>pool_data := d\<rparr>)" "length objs = unat (1 :: u32)" "bag mp = bag (mp\<lparr>pool_data := d\<rparr>) + mset objs" by blast
    with that show ?thesis by (metis add_diff_cancel_right' size_mset size_union unat_1)
  qed
  let ?mp = "mp\<lparr>pool_data := d, elt_list := es, populated_size := populated_size mp - 1\<rparr>"
  have "pinv ?mp" "elt_list ?mp = es" using d(2) frame_elts(1) [where mp = "mp\<lparr>pool_data := d\<rparr>" and es = es] by simp_all
  from Cons.IH [OF this] obtain d' where "free_elts tbl es ?mp =
        Some (?mp\<lparr>pool_data := d', elt_list := [], populated_size := populated_size ?mp - of_nat (length es)\<rparr>)"
      "pinv (?mp\<lparr>pool_data := d', elt_list := [], populated_size := populated_size ?mp - of_nat (length es)\<rparr>)"
      "size (bag (?mp\<lparr>pool_data := d'\<rparr>)) = size (bag ?mp) - length es" by blast
  moreover have r: "?mp\<lparr>pool_data := d'\<rparr> = mp\<lparr>pool_data := d', elt_list := es, populated_size := populated_size mp - 1\<rparr>"
    by (rule rte_mempool.equality) simp_all
  have "bag ?mp = bag (mp\<lparr>pool_data := d\<rparr>)" by (rule frame_elts(2))
  moreover have "bag (?mp\<lparr>pool_data := d'\<rparr>) = bag (mp\<lparr>pool_data := d'\<rparr>)" unfolding r by (rule frame_elts(2))
  ultimately show ?case using d Cons.prems(2) by (intro exI [of _ d']) (simp add: diff_diff_eq add.commute)
qed

lemma free_memchunks_ok:
  assumes "pinv mp" "\<forall>h \<in> set (mem_list mp). mh_free_cb h \<noteq> AnonFree"
  shows "\<exists>d. let mp' = mp\<lparr>pool_data := d, elt_list := [], populated_size := populated_size mp - of_nat (length (elt_list mp)),
        mem_list := [], nb_mem_chunks := nb_mem_chunks mp - of_nat (length (mem_list mp))\<rparr>
    in rte_mempool_free_memchunks tbl env mp = Some (env\<lparr>zones_freed := zones_freed env @ mz_chunks (mem_list mp)\<rparr>, mp') \<and> pinv mp' \<and>
      size (bag mp') = size (bag mp) - length (elt_list mp)"
proof -
  obtain d where d: "free_elts tbl (elt_list mp) mp = Some (mp\<lparr>pool_data := d, elt_list := [], populated_size := populated_size mp - of_nat (length (elt_list mp))\<rparr>)"
      "pinv (mp\<lparr>pool_data := d, elt_list := [], populated_size := populated_size mp - of_nat (length (elt_list mp))\<rparr>)"
      "size (bag (mp\<lparr>pool_data := d\<rparr>)) = size (bag mp) - length (elt_list mp)"
    using free_elts_ok [OF assms(1) refl] by blast
  let ?mp = "mp\<lparr>pool_data := d, elt_list := [], populated_size := populated_size mp - of_nat (length (elt_list mp))\<rparr>"
  have "pinv (?mp\<lparr>mem_list := [], nb_mem_chunks := k\<rparr>)" "bag (?mp\<lparr>mem_list := [], nb_mem_chunks := k\<rparr>) = bag (mp\<lparr>pool_data := d\<rparr>)" for k
    using d(2) frame_mem(1,2) [where mp = ?mp and hs = "[]" and j = k] frame_elts(2) [where mp = "mp\<lparr>pool_data := d\<rparr>" and es = "[]"] by simp_all
  with d free_mems_zones [OF assms(2), of ?mp env] show ?thesis
    by (intro exI [of _ d]) (simp add: rte_mempool_free_memchunks_def Let_def)
qed

end

interpretation ringmem: chunk_driver ops_table ring_pool_inv ring_pool_bag ring_pool_cap
  by unfold_locales (simp_all add: ring_pool_inv_def ring_pool_bag_def ring_pool_cap_def)

interpretation stackmem: chunk_driver ops_table stack_pool_inv stack_pool_bag stack_pool_cap
  by unfold_locales (simp_all add: stack_pool_inv_def stack_pool_bag_def stack_pool_cap_def)

section \<open>Properties\<close>

text \<open>
  Releasing the memory of a ring pool whose chunks are memory zones. It ends even when objects
  are missing from the ring, empties the lists of objects and of chunks, and releases exactly the
  zone of every chunk that owns one, in order.
\<close>

theorem free_memchunks_releases:
  assumes "ring_pool_inv mp" "\<forall>h \<in> set (mem_list mp). mh_free_cb h \<noteq> AnonFree"
  shows "\<exists>env' mp'. rte_mempool_free_memchunks ops_table env mp = Some (env', mp') \<and> elt_list mp' = [] \<and> mem_list mp' = [] \<and>
    zones_freed env' = zones_freed env @ mz_chunks (mem_list mp) \<and> unmapped env' = unmapped env \<and> ring_pool_inv mp' \<and>
    size (ring_pool_bag mp') = size (ring_pool_bag mp) - length (elt_list mp)"
proof -
  obtain d where "let mp' = mp\<lparr>pool_data := d, elt_list := [], populated_size := populated_size mp - of_nat (length (elt_list mp)),
        mem_list := [], nb_mem_chunks := nb_mem_chunks mp - of_nat (length (mem_list mp))\<rparr>
    in rte_mempool_free_memchunks ops_table env mp = Some (env\<lparr>zones_freed := zones_freed env @ mz_chunks (mem_list mp)\<rparr>, mp') \<and> ring_pool_inv mp' \<and>
      size (ring_pool_bag mp') = size (ring_pool_bag mp) - length (elt_list mp)"
    using ringmem.free_memchunks_ok [OF assms] by blast
  then show ?thesis by (simp add: Let_def)
qed

text \<open>An environment whose zones all start at the same address, for a pool of three objects.\<close>

definition demo_eal :: eal_env where
  "demo_eal = \<lparr>drv = demo_env, nchannel = 4, nrank = 1, virt2iova = (\<lambda>a. a), has_hugepages = True, iova_as_va = True,
     socket_is_external = (\<lambda>_. 0), memseg_lists = [(0, False, 0x200000)], pagesize = 0x1000,
     reserve = (\<lambda>zs nm len sock flags align. Inr \<lparr>pz_desc = 0x500, pz_addr = 0x40000, pz_iova = 0x40000, pz_len = len\<rparr>),
     mmap_anon = (\<lambda>_. Inl ENOMEM), mlock_err = None, malloc_ok = (\<lambda>_. True), zones = [], zones_freed = [], unmapped = [],
     mempool_list = [], eal_errno = 0\<rparr>"

definition demo_chunk :: "memchunk_free_cb \<Rightarrow> addr \<Rightarrow> rte_mempool_memhdr" where
  "demo_chunk cb z = \<lparr>mh_addr = 0x40000, mh_iova = 0x40000, mh_len = 0x1000, mh_free_cb = cb, mh_opaque = z\<rparr>"

theorem free_memchunks_releases_witness:
  "\<exists>env' mp'. rte_mempool_free_memchunks ops_table demo_eal ((demo_pool 0 (PoolRing 0x2000 pool_ring4) 0)
      \<lparr>mem_list := [demo_chunk MzFree 0x500, demo_chunk NoFree 0x500, demo_chunk MzFree 0x600]\<rparr>) = Some (env', mp') \<and> zones_freed env' = [0x500, 0x600]"
proof -
  let ?hs = "[demo_chunk MzFree 0x500, demo_chunk NoFree 0x500, demo_chunk MzFree 0x600]"
  let ?mp = "(demo_pool 0 (PoolRing 0x2000 pool_ring4) 0)\<lparr>mem_list := ?hs\<rparr>"
  have "ring_pool_inv ?mp" using demo_ring_pool(1) [of 0] by (simp add: ring_pool_inv_def)
  moreover have "\<forall>h \<in> set (mem_list ?mp). mh_free_cb h \<noteq> AnonFree" by (simp add: demo_chunk_def)
  ultimately obtain env' mp' where "rte_mempool_free_memchunks ops_table demo_eal ?mp = Some (env', mp')"
      "zones_freed env' = zones_freed demo_eal @ mz_chunks (mem_list ?mp)"
    using free_memchunks_releases [of ?mp demo_eal] by blast
  then show ?thesis by (simp add: demo_eal_def mz_chunks_def demo_chunk_def)
qed

lemma populate_iova_ring:
  assumes inv: "ring_pool_inv mp" "mp_flags mp AND MEMPOOL_F_POOL_CREATED \<noteq> 0" "populated_size mp = 0" "0 < mp_size mp"
    and sz: "sizes_ok mp" and room: "size (ring_pool_bag mp) + unat (mp_size mp) \<le> ring_pool_cap mp" and heap: "malloc_ok env ''MEMPOOL_MEMHDR''"
    and chunk: "chunk_start mp a = 0" "unat len + unat (total_elt_sz mp) < 2 ^ 64" "unat (mp_size mp) * unat (total_elt_sz mp) \<le> unat len"
  shows "\<exists>mp'. rte_mempool_populate_iova ops_table mp a io len cb opq env = Some (env, mp', int (unat (mp_size mp))) \<and> ring_pool_inv mp' \<and>
    ring_pool_bag mp' = ring_pool_bag mp + mset (map fst (chunk_objs mp a io 0 (unat (mp_size mp)))) \<and> mp_size mp' = mp_size mp \<and>
    elt_list mp' = elt_list mp @ chunk_objs mp a io 0 (unat (mp_size mp)) \<and> populated_size mp' = mp_size mp \<and>
    mem_list mp' = mem_list mp @ [\<lparr>mh_addr = a, mh_iova = io, mh_len = len, mh_free_cb = cb, mh_opaque = opq\<rparr>]"
proof -
  let ?n = "unat (mp_size mp)" and ?tot = "unat (total_elt_sz mp)"
  have "0 < ?tot" using sz by (simp add: sizes_ok_def)
  then have K: "?n = min ?n (unat len div ?tot)" using chunk(3) by (simp add: less_eq_div_iff_mult_less_eq)
  obtain d where d: "let mp' = mp\<lparr>pool_data := d, elt_list := elt_list mp @ chunk_objs mp a io 0 ?n, populated_size := populated_size mp + of_nat (?n - 0)\<rparr>
     in populate_loop ops_table ?n a io len 0 (of_nat (0 * ?tot)) mp = Some (mp', ?n) \<and> ring_pool_inv mp' \<and>
       ring_pool_cap mp' = ring_pool_cap mp \<and> ring_pool_bag mp' = ring_pool_bag mp + mset (map fst (chunk_objs mp a io 0 ?n))"
    using ringpop.populate_loop_ok [OF sz chunk(2) K, of 0 a io] inv(1) room by auto
  let ?mp = "mp\<lparr>pool_data := d, elt_list := elt_list mp @ chunk_objs mp a io 0 ?n, populated_size := mp_size mp\<rparr>"
  have io: "(if io = RTE_BAD_IOVA then RTE_BAD_IOVA else io + chunk_start mp a) = io" using chunk(1) by simp
  have pop: "rte_mempool_ops_populate ops_table mp (mp_size mp) a io len = Some (?mp, ?n)"
    using d inv(3) by (simp add: rte_mempool_ops_populate_def rte_mempool_op_populate_default_def Let_def)
  have n0: "?n \<noteq> 0" "mp_size mp \<noteq> 0" using inv(4) by (auto simp: unat_eq_zero word_gt_0)
  then have run: "rte_mempool_populate_iova ops_table mp a io len cb opq env = Some (env, ?mp\<lparr>mem_list := mem_list mp @
      [\<lparr>mh_addr = a, mh_iova = io, mh_len = len, mh_free_cb = cb, mh_opaque = opq\<rparr>], nb_mem_chunks := nb_mem_chunks mp + 1\<rparr>, int ?n)"
    unfolding rte_mempool_populate_iova_def Let_def using inv heap chunk(1) pop io
    by (simp add: mempool_ops_alloc_once_def)
  have "ring_pool_inv (?mp\<lparr>mem_list := hs, nb_mem_chunks := k\<rparr>) = ring_pool_inv ?mp"
      "ring_pool_bag (?mp\<lparr>mem_list := hs, nb_mem_chunks := k\<rparr>) = ring_pool_bag ?mp" for hs k
    by (rule ringmem.frame_mem)+
  with run d inv(3) show ?thesis by (simp add: Let_def)
qed

lemma sint_small: "unat (w :: u64) < 2 ^ 63 \<Longrightarrow> sint w = int (unat w)"
proof -
  assume "unat w < 2 ^ 63"
  then have "uint w < 2 ^ 63" by (metis of_nat_less_iff of_nat_numeral of_nat_power uint_nat)
  then have "signed_take_bit 63 (uint w) = uint w" by (intro signed_take_bit_int_eq_self) (simp_all add: order_trans [of _ 0])
  then show ?thesis by (simp add: sint_uint)
qed

lemma default_zone_va:
  assumes sz: "sizes_ok mp" and n: "0 < n" and nm: "length (mp_name mp) < 20"
    and mem: "unat n * unat (total_elt_sz mp) < 2 ^ 63"
    and z: "reserve env (zones env) (''MP_'' @ mp_name mp @ ''_0'') (total_elt_sz mp * ucast n) (socket_id mp) 6 64 = Inr z"
      "unat n * unat (total_elt_sz mp) \<le> unat (pz_len z)"
  shows "\<exists>c. default_zone mp 0 n True False 0 0 env = (env\<lparr>zones := zones env @ [z]\<rparr>, False, Inr (z, c))"
proof -
  let ?tot = "unat (total_elt_sz mp)"
  have tot: "0 < ?tot" "total_elt_sz mp \<noteq> 0" using sz by (auto simp: sizes_ok_def)
  have n0: "1 \<le> unat n" using n by (simp add: word_less_nat_alt Suc_le_eq)
  have m: "unat (total_elt_sz mp * ucast n) = unat n * ?tot" using mem by (simp add: unat_word_ariths mult.commute)
  then have s: "\<not> sint (total_elt_sz mp * ucast n) < 0" using mem sint_small [of "total_elt_sz mp * ucast n"] by (simp add: not_less)
  have c: "rte_mempool_ops_calc_mem_size mp n 0 = (total_elt_sz mp * ucast n, max 1 (total_elt_sz mp), 64)"
    using tot(2) by (simp add: rte_mempool_ops_calc_mem_size_def rte_mempool_op_calc_mem_size_default_def RTE_CACHE_LINE_SIZE_def Let_def)
  have "1 * ?tot \<le> unat n * ?tot" using n0 by (intro mult_le_mono1)
  then have one: "?tot \<le> unat (pz_len z)" using z(2) by linarith
  have "max 1 (total_elt_sz mp) \<le> pz_len z"
    using one tot(1) by (simp add: word_le_nat_alt max_def)
  then have l: "\<not> pz_len z < max 1 (total_elt_sz mp)" by (rule leD)
  have f: "RTE_MEMZONE_1GB OR RTE_MEMZONE_SIZE_HINT_ONLY = 6" by (simp add: RTE_MEMZONE_1GB_def RTE_MEMZONE_SIZE_HINT_ONLY_def)
  have "\<not> RTE_MEMZONE_NAMESIZE \<le> length (''MP_'' @ mp_name mp @ ''_'' @ decimal 0)"
    using nm by (simp add: RTE_MEMZONE_NAMESIZE_def)
  moreover have "''_'' @ decimal 0 = ''_0''" by code_simp
  ultimately show ?thesis
    unfolding default_zone_def using s l f z(1)
    by (simp add: c RTE_MEMPOOL_MZ_PREFIX_def memzone_reserve_aligned_def Let_def)
qed

text \<open>
  C29: a pool is populated completely. For a ring pool whose driver has its ring, with I/O addresses
  that are virtual addresses and a zone allocator that returns an aligned zone of the requested
  size, \<^verbatim>\<open>rte_mempool_populate_default\<close> ends with the number of objects of the pool: exactly
  that many objects, all in the ring and on the list, in one chunk that owns the zone.
\<close>

theorem populate_default_va:
  assumes inv: "ring_pool_inv mp" "ring_pool_bag mp = {#}" "unat (mp_size mp) \<le> ring_pool_cap mp"
      "mp_flags mp AND MEMPOOL_F_POOL_CREATED \<noteq> 0" "mp_flags mp AND MEMPOOL_F_NO_IOVA_CONTIG = 0"
      "mp_flags mp AND MEMPOOL_F_NO_CACHE_ALIGN = 0"
    and fresh: "populated_size mp = 0" "nb_mem_chunks mp = 0" "mem_list mp = []" "elt_list mp = []" "0 < mp_size mp" "length (mp_name mp) < 20"
    and sz: "sizes_ok mp" "unat (mp_size mp) * unat (total_elt_sz mp) < 2 ^ 63"
    and env: "iova_as_va env" "socket_is_external env (socket_id mp) = 0" "malloc_ok env ''MEMPOOL_MEMHDR''"
    and z: "reserve env (zones env) (''MP_'' @ mp_name mp @ ''_0'') (total_elt_sz mp * ucast (mp_size mp)) (socket_id mp) 6 64 = Inr z"
      "unat (mp_size mp) * unat (total_elt_sz mp) \<le> unat (pz_len z)" "unat (pz_len z) < 2 ^ 63" "RTE_ALIGN_CEIL (pz_addr z) 64 = pz_addr z"
  shows "\<exists>mp'. rte_mempool_populate_default ops_table mp env = Some (env\<lparr>zones := zones env @ [z]\<rparr>, mp', int (unat (mp_size mp))) \<and>
    ring_pool_inv mp' \<and> size (ring_pool_bag mp') = unat (mp_size mp) \<and> ring_pool_bag mp' = mset (map fst (elt_list mp')) \<and>
    elt_list mp' = chunk_objs mp (pz_addr z) (pz_iova z) 0 (unat (mp_size mp)) \<and> populated_size mp' = mp_size mp \<and>
    mz_chunks (mem_list mp') = [pz_desc z]"
proof -
  let ?env = "env\<lparr>zones := zones env @ [z]\<rparr>"
  obtain c where dz: "default_zone mp 0 (mp_size mp) True False 0 0 env = (?env, False, Inr (z, c))"
    using default_zone_va [OF sz(1) fresh(5,6) sz(2) z(1,2)] by blast
  have "chunk_start mp (pz_addr z) = 0" using inv(6) z(4) by (simp add: chunk_start_def RTE_CACHE_LINE_SIZE_def)
  moreover have "unat (pz_len z) + unat (total_elt_sz mp) < 2 ^ 64"
  proof -
    have "unat (total_elt_sz mp) < 2 ^ 32" using unat_lt_2p [of "header_size mp + elt_size mp + trailer_size mp"] by (simp add: total_elt_sz_def)
    with z(3) show ?thesis by simp
  qed
  ultimately obtain mp' where pi: "rte_mempool_populate_iova ops_table mp (pz_addr z) (pz_iova z) (pz_len z) MzFree (pz_desc z) ?env =
        Some (?env, mp', int (unat (mp_size mp)))" "ring_pool_inv mp'"
      "ring_pool_bag mp' = ring_pool_bag mp + mset (map fst (chunk_objs mp (pz_addr z) (pz_iova z) 0 (unat (mp_size mp))))"
      "mp_size mp' = mp_size mp" "elt_list mp' = elt_list mp @ chunk_objs mp (pz_addr z) (pz_iova z) 0 (unat (mp_size mp))"
      "populated_size mp' = mp_size mp" "mem_list mp' = mem_list mp @
        [\<lparr>mh_addr = pz_addr z, mh_iova = pz_iova z, mh_len = pz_len z, mh_free_cb = MzFree, mh_opaque = pz_desc z\<rparr>]"
    using populate_iova_ring [OF inv(1,4) fresh(1,5) sz(1), of ?env "pz_addr z" "pz_len z" "pz_iova z" MzFree "pz_desc z"] inv(2,3) env(3) z(2) by auto
  have "(mp_size mp - of_int (int (unat (mp_size mp))) :: u32) = 0" by simp
  then have "default_loop ops_table False True 0 0 False 0 (mp_size mp) mp env = Some (?env, mp', int (unat (mp_size mp)))"
    using dz pi(1,4) fresh(5) by (subst default_loop.simps, simp) (subst default_loop.simps, simp)
  then have "rte_mempool_populate_default ops_table mp env = Some (?env, mp', int (unat (mp_size mp)))"
    using inv(4,5) fresh(2) env by (simp add: rte_mempool_populate_default_def mempool_ops_alloc_once_def Let_def)
  moreover have "length (chunk_objs mp (pz_addr z) (pz_iova z) 0 (unat (mp_size mp))) = unat (mp_size mp)" by (simp add: chunk_objs_def)
  ultimately show ?thesis using pi inv(2) fresh(3,4) by (simp add: mz_chunks_def)
qed

definition demo_ready :: rte_mempool where
  "demo_ready = (demo_pool 0 (PoolRing 0x2000 pool_ring4) 0)\<lparr>mp_flags := MEMPOOL_F_POOL_CREATED\<rparr>"

lemma demo_ready_facts:
  "ring_pool_inv demo_ready" "ring_pool_bag demo_ready = {#}" "ring_pool_cap demo_ready = 3"
  "mp_flags demo_ready = 16" "populated_size demo_ready = 0" "nb_mem_chunks demo_ready = 0" "mem_list demo_ready = []" "elt_list demo_ready = []"
  "mp_size demo_ready = 3" "mp_name demo_ready = ''p''" "total_elt_sz demo_ready = 128" "sizes_ok demo_ready" "socket_id demo_ready = 0"
  using demo_ring_pool [of 0]
  by (simp_all add: demo_ready_def demo_pool_def MEMPOOL_F_POOL_CREATED_def total_elt_sz_def sizes_ok_def
      ring_pool_inv_def ring_pool_bag_def ring_pool_cap_def)

theorem populate_default_va_witness:
  "\<exists>mp'. rte_mempool_populate_default ops_table demo_ready demo_eal =
      Some (demo_eal\<lparr>zones := [\<lparr>pz_desc = 0x500, pz_addr = 0x40000, pz_iova = 0x40000, pz_len = 384\<rparr>]\<rparr>, mp', 3) \<and>
    ring_pool_bag mp' = mset (map fst (elt_list mp')) \<and> size (ring_pool_bag mp') = 3"
proof -
  let ?mp = demo_ready
  let ?z = "\<lparr>pz_desc = 0x500, pz_addr = 0x40000, pz_iova = 0x40000, pz_len = 384\<rparr>"
  have "\<exists>mp'. rte_mempool_populate_default ops_table ?mp demo_eal = Some (demo_eal\<lparr>zones := zones demo_eal @ [?z]\<rparr>, mp', int (unat (mp_size ?mp))) \<and>
    ring_pool_inv mp' \<and> size (ring_pool_bag mp') = unat (mp_size ?mp) \<and> ring_pool_bag mp' = mset (map fst (elt_list mp')) \<and>
    elt_list mp' = chunk_objs ?mp (pz_addr ?z) (pz_iova ?z) 0 (unat (mp_size ?mp)) \<and> populated_size mp' = mp_size ?mp \<and>
    mz_chunks (mem_list mp') = [pz_desc ?z]"
    by (rule populate_default_va)
      (simp_all add: demo_ready_facts demo_eal_def MEMPOOL_F_POOL_CREATED_def MEMPOOL_F_NO_IOVA_CONTIG_def MEMPOOL_F_NO_CACHE_ALIGN_def
        RTE_ALIGN_CEIL_def RTE_ALIGN_FLOOR_def)
  then show ?thesis by (auto simp: demo_ready_facts demo_eal_def)
qed

text \<open>
  A pool of objects larger than a page, in memory where only the first two pages are contiguous.
\<close>

definition frag_pool :: rte_mempool where
  "frag_pool = (demo_pool 4 (PoolStack demo_stack) 0)\<lparr>mp_flags := MEMPOOL_F_POOL_CREATED, header_size := 64, elt_size := 4936, trailer_size := 0\<rparr>"

definition frag_eal :: eal_env where
  "frag_eal = demo_eal\<lparr>has_hugepages := False, iova_as_va := False,
     virt2iova := (\<lambda>a. if a < 0x42000 then a else a + (a - 0x40000))\<rparr>"

lemmas frag_defs = frag_pool_def frag_eal_def demo_pool_def demo_stack_def demo_eal_def MEMPOOL_F_POOL_CREATED_def

text \<open>The first group of pages holds one object.\<close>

definition frag_one :: rte_mempool where
  "frag_one = frag_pool\<lparr>pool_data := PoolStack \<lparr>st_size = 3, st_len = 1, st_objs = [0x40040, 0, 0]\<rparr>, populated_size := 1,
     elt_list := [(0x40040, 0x40040)], nb_mem_chunks := 1,
     mem_list := [\<lparr>mh_addr = 0x40000, mh_iova = 0x40000, mh_len = 8192, mh_free_cb = MzFree, mh_opaque = 0x500\<rparr>]\<rparr>"

lemma frag_total: "total_elt_sz frag_pool = 5000" "total_elt_sz frag_one = 5000"
  by (simp_all add: total_elt_sz_def frag_one_def frag_pool_def)

lemma frag_contig:
  "contig_len frag_eal 0x40000 0 24576 4096 0x40000 4096 = Some 8192"
  "contig_len frag_eal 0x40000 8192 24576 4096 0x44000 4096 = Some 4096"
  by (simp_all add: contig_len.simps frag_eal_def)

lemma frag_objects:
  "rte_mempool_ops_populate ops_table frag_pool 3 0x40000 0x40000 8192 =
    Some (frag_pool\<lparr>pool_data := PoolStack \<lparr>st_size = 3, st_len = 1, st_objs = [0x40040, 0, 0]\<rparr>, populated_size := 1, elt_list := [(0x40040, 0x40040)]\<rparr>, 1)"
  "rte_mempool_ops_populate ops_table frag_one 2 0x42000 0x44000 4096 = Some (frag_one, 0)"
  unfolding rte_mempool_ops_populate_def rte_mempool_op_populate_default_def
  by (subst populate_loop.simps, simp add: total_elt_sz_def mempool_add_elem_def rte_mempool_ops_enqueue_bulk_def ops_defs
      stack_enqueue_def obj_copy_def RTE_BAD_IOVA_def frag_one_def frag_defs, subst populate_loop.simps, simp add: total_elt_sz_def)
    (subst populate_loop.simps, simp add: frag_total)

lemma frag_groups:
  "rte_mempool_populate_iova ops_table frag_pool 0x40000 0x40000 8192 MzFree 0x500 env = (if malloc_ok env ''MEMPOOL_MEMHDR'' then Some (env, frag_one, 1) else Some (env, frag_pool, - 12))"
  "rte_mempool_populate_iova ops_table frag_one 0x42000 0x44000 4096 NoFree 0x500 env = (if malloc_ok env ''MEMPOOL_MEMHDR'' then Some (env, frag_one, - 22) else Some (env, frag_one, - 12))"
proof -
  have f: "mp_flags frag_pool = 16" "populated_size frag_pool = 0" "mp_size frag_pool = 3" "mem_list frag_pool = []" "nb_mem_chunks frag_pool = 0"
    "mp_flags frag_one = 16" "populated_size frag_one = 1" "mp_size frag_one = 3" by (simp_all add: frag_one_def frag_defs)
  have c: "chunk_start frag_pool 0x40000 = 0" "chunk_start frag_one 0x42000 = 0"
    by (simp_all add: chunk_start_def f MEMPOOL_F_NO_CACHE_ALIGN_def RTE_CACHE_LINE_SIZE_def RTE_ALIGN_CEIL_def RTE_ALIGN_FLOOR_def)
  have b: "RTE_BAD_IOVA \<noteq> 0x40000" "RTE_BAD_IOVA \<noteq> 0x44000" by (simp_all add: RTE_BAD_IOVA_def)
  show "rte_mempool_populate_iova ops_table frag_pool 0x40000 0x40000 8192 MzFree 0x500 env = (if malloc_ok env ''MEMPOOL_MEMHDR'' then Some (env, frag_one, 1) else Some (env, frag_pool, - 12))"
    using b by (simp add: rte_mempool_populate_iova_def mempool_ops_alloc_once_def MEMPOOL_F_POOL_CREATED_def f c frag_objects frag_one_def Let_def)
  show "rte_mempool_populate_iova ops_table frag_one 0x42000 0x44000 4096 NoFree 0x500 env = (if malloc_ok env ''MEMPOOL_MEMHDR'' then Some (env, frag_one, - 22) else Some (env, frag_one, - 12))"
    using b by (simp add: rte_mempool_populate_iova_def mempool_ops_alloc_once_def MEMPOOL_F_POOL_CREATED_def f c frag_objects word_le_nat_alt Let_def)
qed

definition frag_none :: rte_mempool where
  "frag_none = frag_one\<lparr>pool_data := PoolStack \<lparr>st_size = 3, st_len = 0, st_objs = [0x40040, 0, 0]\<rparr>, populated_size := 0, elt_list := [],
     nb_mem_chunks := 0, mem_list := []\<rparr>"

lemma frag_release:
  "rte_mempool_free_memchunks ops_table env frag_one = Some (env\<lparr>zones_freed := zones_freed env @ [0x500]\<rparr>, frag_none)"
  "rte_mempool_free_memchunks ops_table env frag_none = Some (env, frag_none)"
  by (simp_all add: rte_mempool_free_memchunks_def rte_mempool_ops_dequeue_bulk_def ops_defs stack_dequeue_def
      call_free_cb_def memzone_free_def frag_none_def frag_one_def frag_defs)

lemma frag_virt:
  assumes "env = frag_eal\<lparr>zones := zs\<rparr>"
  shows "rte_mempool_populate_virt ops_table frag_pool 0x40000 24576 4096 MzFree 0x500 env =
    Some (env\<lparr>zones_freed := [0x500]\<rparr>, frag_none, - 22)"
proof -
  have f: "mp_flags frag_pool = 16" "populated_size frag_pool = 0" "mp_size frag_pool = 3" "populated_size frag_one = 1" "mp_size frag_one = 3"
    by (simp_all add: frag_one_def frag_defs)
  have e: "malloc_ok env ''MEMPOOL_MEMHDR''" "virt2iova env 0x40000 = 0x40000" "virt2iova env 0x42000 = 0x44000" "\<not> has_hugepages env" "zones_freed env = []"
    using assms by (simp_all add: frag_defs)
  have c: "contig_len env 0x40000 0 24576 4096 0x40000 4096 = Some 8192" "contig_len env 0x40000 8192 24576 4096 0x44000 4096 = Some 4096"
    using assms by (simp_all add: contig_len.simps frag_eal_def)
  have "virt_loop ops_table 0x40000 24576 4096 0x500 NoFree 8192 1 frag_one env = Some (env\<lparr>zones_freed := [0x500]\<rparr>, frag_none, - 22)"
    using e c by (subst virt_loop.simps) (simp add: f frag_groups frag_release)
  then have "virt_loop ops_table 0x40000 24576 4096 0x500 MzFree 0 0 frag_pool env = Some (env\<lparr>zones_freed := [0x500]\<rparr>, frag_none, - 22)"
    using e c by (subst virt_loop.simps) (simp add: f frag_groups)
  then show ?thesis
    by (simp add: rte_mempool_populate_virt_def f RTE_ALIGN_CEIL_def RTE_ALIGN_FLOOR_def MEMPOOL_F_NO_IOVA_CONTIG_def)
qed

text \<open>
  A failed population can release a memory zone twice. For objects larger than a page, in a zone
  whose first two pages are contiguous and the others are not, \<^verbatim>\<open>rte_mempool_populate_virt\<close>
  releases the zone with the first chunk when the second group is too small, and
  \<^verbatim>\<open>rte_mempool_populate_default\<close> then releases the same zone again.
\<close>

theorem populate_default_double_free:
  "\<exists>env' mp'. rte_mempool_populate_default ops_table frag_pool frag_eal = Some (env', mp', - 22) \<and> zones_freed env' = [0x500, 0x500]"
proof -
  let ?z = "\<lparr>pz_desc = 0x500, pz_addr = 0x40000, pz_iova = 0x40000, pz_len = 24576\<rparr>"
  let ?env = "frag_eal\<lparr>zones := [?z]\<rparr>"
  have calc: "rte_mempool_ops_calc_mem_size frag_pool 3 12 = (24576, 5000, 4096)"
    by (simp add: rte_mempool_ops_calc_mem_size_def rte_mempool_op_calc_mem_size_default_def frag_total RTE_CACHE_LINE_SIZE_def
        RTE_ALIGN_CEIL_def RTE_ALIGN_FLOOR_def)
  have nm: "mp_name frag_pool @ ''_'' @ decimal 0 = ''p_0''" "mp_name frag_pool = ''p''" "socket_id frag_pool = 0"
    by (simp_all add: frag_pool_def demo_pool_def) code_simp
  have "memzone_reserve_aligned frag_eal nm 24576 sock flags align = (?env, Some ?z)" for nm sock flags align
    by (simp add: memzone_reserve_aligned_def frag_defs)
  then have z: "default_zone frag_pool 0 3 False False 4096 12 frag_eal = (?env, False, Inr (?z, 5000))"
    unfolding default_zone_def nm by (simp add: calc RTE_MEMPOOL_MZ_PREFIX_def RTE_MEMZONE_NAMESIZE_def Let_def)
  have v: "rte_mempool_populate_virt ops_table frag_pool 0x40000 24576 4096 MzFree 0x500 ?env = Some (?env\<lparr>zones_freed := [0x500]\<rparr>, frag_none, - 22)"
    by (rule frag_virt) simp
  have "default_loop ops_table False False 4096 12 False 0 3 frag_pool frag_eal = Some (?env\<lparr>zones_freed := [0x500, 0x500]\<rparr>, frag_none, - 22)"
    using z v by (subst default_loop.simps) (simp add: RTE_ALIGN_FLOOR_def frag_release memzone_free_def)
  moreover have "rte_bsf32 4096 = Some 12" using ctz_2p [of 12, where 'a = 32] by (simp add: rte_bsf32_def)
  moreover have "mp_flags frag_pool = 16" "socket_is_external frag_eal k = 0" "nb_mem_chunks frag_pool = 0" "iova_as_va frag_eal = False"
      "has_hugepages frag_eal = False" "pagesize frag_eal = 4096" "mp_size frag_pool = 3" for k
    by (simp_all add: frag_defs)
  ultimately have "rte_mempool_populate_default ops_table frag_pool frag_eal = Some (?env\<lparr>zones_freed := [0x500, 0x500]\<rparr>, frag_none, - 22)"
    by (simp add: rte_mempool_populate_default_def mempool_ops_alloc_once_def MEMPOOL_F_POOL_CREATED_def MEMPOOL_F_NO_IOVA_CONTIG_def Let_def)
  then show ?thesis by simp
qed

end
