(* ===== verification/Mbuf.thy ===== *)
theory Mbuf
  imports MempoolDrivers
begin

text \<open>
  Model of \<^verbatim>\<open>lib/librte_mbuf\<close>: packet buffers and the chains of segments a packet is made
  of. Buffers live in an explicit heap of \<^verbatim>\<open>struct rte_mbuf\<close> by address, next to the
  bytes of memory, the shared information of external buffers and the pools. \<^term>\<open>None\<close> is an
  access through an invalid pointer or a walk over a chain that does not end. Assertions and
  sanity checks are compiled out in the default configuration.
\<close>

section \<open>Data\<close>

definition IND_ATTACHED_MBUF :: u64 where
  "IND_ATTACHED_MBUF = push_bit 62 1"

definition EXT_ATTACHED_MBUF :: u64 where
  "EXT_ATTACHED_MBUF = push_bit 61 1"

definition RTE_PKTMBUF_HEADROOM :: u16 where
  "RTE_PKTMBUF_HEADROOM = 832"

definition MBUF_INVALID_PORT :: u16 where
  "MBUF_INVALID_PORT = 0xFFFF"

definition RTE_MBUF_MAX_NB_SEGS :: nat where
  "RTE_MBUF_MAX_NB_SEGS = 0xFFFF"

definition sizeof_rte_mbuf :: u64 where
  "sizeof_rte_mbuf = 128"

text \<open>The union of user data and slice offsets is the 64-bit field \<open>udata64\<close>.\<close>

record rte_mbuf =
  buf_addr :: addr
  buf_iova :: iova
  data_off :: u16
  refcnt :: u16
  nb_segs :: u16
  port :: u16
  ol_flags :: u64
  packet_type :: u32
  pkt_len :: u32
  data_len :: u16
  vlan_tci :: u16
  hash :: u64
  vlan_tci_outer :: u16
  buf_len :: u16
  timestamp :: u64
  udata64 :: u64
  pool :: addr
  nxt :: addr
  tx_offload :: u64
  priv_size :: u16
  timesync :: u16
  seqn :: u32
  shinfo :: addr

record rte_mbuf_ext_shared_info =
  free_cb :: addr
  fcb_opaque :: addr
  ext_refcnt :: u16

record rte_pktmbuf_pool_private =
  mbuf_data_room_size :: u16
  mbuf_priv_size :: u16

text \<open>
  The heap: buffers, shared information, bytes, pools with their private data, the I/O addresses in
  the object headers, and the calls of free callbacks of external buffers so far.
\<close>

record mbuf_heap =
  mbufs :: "addr \<rightharpoonup> rte_mbuf"
  shinfos :: "addr \<rightharpoonup> rte_mbuf_ext_shared_info"
  bytes :: "addr \<Rightarrow> u8"
  pools :: "addr \<rightharpoonup> rte_mempool"
  pool_privs :: "addr \<rightharpoonup> rte_pktmbuf_pool_private"
  obj_iova :: "addr \<Rightarrow> iova"
  freed_ext :: "(addr \<times> addr \<times> addr) list"

definition with_mbuf :: "addr \<Rightarrow> (rte_mbuf \<Rightarrow> rte_mbuf) \<Rightarrow> mbuf_heap \<Rightarrow> mbuf_heap option" where
  "with_mbuf m f st = do { x \<leftarrow> mbufs st m; Some (st\<lparr>mbufs := (mbufs st)(m \<mapsto> f x)\<rparr>) }"

section \<open>Addresses\<close>

definition rte_mbuf_data_iova :: "rte_mbuf \<Rightarrow> iova" where
  "rte_mbuf_data_iova mb = buf_iova mb + ucast (data_off mb)"

definition rte_mbuf_data_iova_default :: "rte_mbuf \<Rightarrow> iova" where
  "rte_mbuf_data_iova_default mb = buf_iova mb + ucast RTE_PKTMBUF_HEADROOM"

definition rte_mbuf_from_indirect :: "rte_mbuf \<Rightarrow> addr" where
  "rte_mbuf_from_indirect mi = buf_addr mi - (sizeof_rte_mbuf + ucast (priv_size mi))"

definition rte_pktmbuf_priv_size :: "mbuf_heap \<Rightarrow> addr \<Rightarrow> u16 option" where
  "rte_pktmbuf_priv_size st mp = map_option mbuf_priv_size (pool_privs st mp)"

definition rte_pktmbuf_data_room_size :: "mbuf_heap \<Rightarrow> addr \<Rightarrow> u16 option" where
  "rte_pktmbuf_data_room_size st mp = map_option mbuf_data_room_size (pool_privs st mp)"

definition rte_mbuf_to_baddr :: "mbuf_heap \<Rightarrow> addr \<Rightarrow> addr option" where
  "rte_mbuf_to_baddr st md = do {
     x \<leftarrow> mbufs st md;
     p \<leftarrow> rte_pktmbuf_priv_size st (pool x);
     Some (md + sizeof_rte_mbuf + ucast p) }"

definition rte_mbuf_to_priv :: "addr \<Rightarrow> addr" where
  "rte_mbuf_to_priv m = m + sizeof_rte_mbuf"

definition rte_pktmbuf_mtod_offset :: "rte_mbuf \<Rightarrow> u64 \<Rightarrow> addr" where
  "rte_pktmbuf_mtod_offset m off = buf_addr m + ucast (data_off m) + off"

definition rte_pktmbuf_iova_offset :: "rte_mbuf \<Rightarrow> u64 \<Rightarrow> iova" where
  "rte_pktmbuf_iova_offset m off = buf_iova m + ucast (data_off m) + off"

definition RTE_MBUF_INDIRECT :: "rte_mbuf \<Rightarrow> bool" where
  "RTE_MBUF_INDIRECT mb \<longleftrightarrow> ol_flags mb AND IND_ATTACHED_MBUF \<noteq> 0"

definition RTE_MBUF_HAS_EXTBUF :: "rte_mbuf \<Rightarrow> bool" where
  "RTE_MBUF_HAS_EXTBUF mb \<longleftrightarrow> ol_flags mb AND EXT_ATTACHED_MBUF \<noteq> 0"

definition RTE_MBUF_DIRECT :: "rte_mbuf \<Rightarrow> bool" where
  "RTE_MBUF_DIRECT mb \<longleftrightarrow> ol_flags mb AND (IND_ATTACHED_MBUF OR EXT_ATTACHED_MBUF) = 0"

section \<open>Reference counts\<close>

text \<open>The new buffer and the new count; a count of 1 is updated without the atomic addition.\<close>

definition rte_mbuf_refcnt_update :: "rte_mbuf \<Rightarrow> u16 \<Rightarrow> rte_mbuf \<times> u16" where
  "rte_mbuf_refcnt_update m v =
     (if refcnt m = 1 then let v = v + 1 in (m\<lparr>refcnt := v\<rparr>, v)
      else let v = refcnt m + v in (m\<lparr>refcnt := v\<rparr>, v))"

definition rte_mbuf_ext_refcnt_update :: "rte_mbuf_ext_shared_info \<Rightarrow> u16 \<Rightarrow> rte_mbuf_ext_shared_info \<times> u16" where
  "rte_mbuf_ext_refcnt_update s v =
     (if ext_refcnt s = 1 then let v = v + 1 in (s\<lparr>ext_refcnt := v\<rparr>, v)
      else let v = ext_refcnt s + v in (s\<lparr>ext_refcnt := v\<rparr>, v))"

text \<open>\<^verbatim>\<open>rte_mbuf_refcnt_update\<close> on the buffer at an address.\<close>

definition refcnt_add :: "addr \<Rightarrow> u16 \<Rightarrow> mbuf_heap \<Rightarrow> (mbuf_heap \<times> u16) option" where
  "refcnt_add m v st = do {
     x \<leftarrow> mbufs st m;
     (let (x', r) = rte_mbuf_refcnt_update x v
      in Some (st\<lparr>mbufs := (mbufs st)(m \<mapsto> x')\<rparr>, r)) }"

definition ext_refcnt_add :: "addr \<Rightarrow> u16 \<Rightarrow> mbuf_heap \<Rightarrow> (mbuf_heap \<times> u16) option" where
  "ext_refcnt_add s v st = do {
     x \<leftarrow> shinfos st s;
     (let (x', r) = rte_mbuf_ext_refcnt_update x v
      in Some (st\<lparr>shinfos := (shinfos st)(s \<mapsto> x')\<rparr>, r)) }"

section \<open>Allocation\<close>

text \<open>
  \<^verbatim>\<open>rte_mbuf_raw_alloc\<close>: the address of a buffer, or NULL when the pool is empty. The
  driver table and the calling lcore are parameters.
\<close>

definition rte_mbuf_raw_alloc :: "rte_mempool_ops list \<Rightarrow> nat \<Rightarrow> addr \<Rightarrow> mbuf_heap \<Rightarrow> (mbuf_heap \<times> addr) option" where
  "rte_mbuf_raw_alloc tbl lcore mp st = do {
     p \<leftarrow> pools st mp;
     (p, objs, ret) \<leftarrow> rte_mempool_get tbl lcore p;
     st \<leftarrow> Some (st\<lparr>pools := (pools st)(mp \<mapsto> p)\<rparr>);
     if ret < 0 then Some (st, NULL)
     else (case objs of [] \<Rightarrow> None | m # _ \<Rightarrow> Some (st, m)) }"

definition rte_mbuf_raw_free :: "rte_mempool_ops list \<Rightarrow> nat \<Rightarrow> addr \<Rightarrow> mbuf_heap \<Rightarrow> mbuf_heap option" where
  "rte_mbuf_raw_free tbl lcore m st = do {
     x \<leftarrow> mbufs st m;
     p \<leftarrow> pools st (pool x);
     p \<leftarrow> rte_mempool_put tbl lcore p m;
     Some (st\<lparr>pools := (pools st)(pool x \<mapsto> p)\<rparr>) }"

definition rte_pktmbuf_reset_headroom :: "rte_mbuf \<Rightarrow> rte_mbuf" where
  "rte_pktmbuf_reset_headroom m =
     m\<lparr>data_off := (if RTE_PKTMBUF_HEADROOM < buf_len m then RTE_PKTMBUF_HEADROOM else buf_len m)\<rparr>"

definition rte_pktmbuf_reset :: "rte_mbuf \<Rightarrow> rte_mbuf" where
  "rte_pktmbuf_reset m =
     (let m = m\<lparr>nxt := NULL, pkt_len := 0, tx_offload := 0, vlan_tci := 0, vlan_tci_outer := 0,
                nb_segs := 1, port := MBUF_INVALID_PORT\<rparr>;
          m = m\<lparr>ol_flags := 0, packet_type := 0\<rparr>;
          m = rte_pktmbuf_reset_headroom m
      in m\<lparr>data_len := 0\<rparr>)"

definition rte_pktmbuf_alloc :: "rte_mempool_ops list \<Rightarrow> nat \<Rightarrow> addr \<Rightarrow> mbuf_heap \<Rightarrow> (mbuf_heap \<times> addr) option" where
  "rte_pktmbuf_alloc tbl lcore mp st = do {
     (st, m) \<leftarrow> rte_mbuf_raw_alloc tbl lcore mp st;
     if m \<noteq> NULL then do { st \<leftarrow> with_mbuf m rte_pktmbuf_reset st; Some (st, m) }
     else Some (st, m) }"

text \<open>
  Duff's device in \<^verbatim>\<open>rte_pktmbuf_alloc_bulk\<close>: the switch enters the unrolled loop at the
  label of \<open>count % 4\<close>, then every round resets four buffers.
\<close>

definition reset_at :: "addr list \<Rightarrow> nat \<Rightarrow> mbuf_heap \<Rightarrow> mbuf_heap option" where
  "reset_at ms idx st = (if idx < length ms then with_mbuf (ms ! idx) rte_pktmbuf_reset st else None)"

function duff_loop :: "addr list \<Rightarrow> nat \<Rightarrow> nat \<Rightarrow> mbuf_heap \<Rightarrow> mbuf_heap option" where
  "duff_loop ms idx cnt st =
     (if idx = cnt then Some st
      else if idx + 4 \<le> length ms then do {
        st \<leftarrow> reset_at ms idx st;
        st \<leftarrow> reset_at ms (idx + 1) st;
        st \<leftarrow> reset_at ms (idx + 2) st;
        st \<leftarrow> reset_at ms (idx + 3) st;
        duff_loop ms (idx + 4) cnt st }
      else None)"
  by pat_completeness auto
termination by (relation "measure (\<lambda>(ms, idx, cnt, st). Suc (length ms) - idx)") auto

definition duff_reset :: "addr list \<Rightarrow> nat \<Rightarrow> mbuf_heap \<Rightarrow> mbuf_heap option" where
  "duff_reset ms cnt st =
     (if cnt mod 4 = 0 then duff_loop ms 0 cnt st
      else if cnt mod 4 = 3 then do {
        st \<leftarrow> reset_at ms 0 st; st \<leftarrow> reset_at ms 1 st; st \<leftarrow> reset_at ms 2 st; duff_loop ms 3 cnt st }
      else if cnt mod 4 = 2 then do {
        st \<leftarrow> reset_at ms 0 st; st \<leftarrow> reset_at ms 1 st; duff_loop ms 2 cnt st }
      else do { st \<leftarrow> reset_at ms 0 st; duff_loop ms 1 cnt st })"

definition rte_pktmbuf_alloc_bulk ::
  "rte_mempool_ops list \<Rightarrow> nat \<Rightarrow> addr \<Rightarrow> u32 \<Rightarrow> mbuf_heap \<Rightarrow> (mbuf_heap \<times> addr list \<times> int) option" where
  "rte_pktmbuf_alloc_bulk tbl lcore mp cnt st = do {
     p \<leftarrow> pools st mp;
     (p, ms, rc) \<leftarrow> rte_mempool_get_bulk tbl lcore p cnt;
     st \<leftarrow> Some (st\<lparr>pools := (pools st)(mp \<mapsto> p)\<rparr>);
     if rc \<noteq> 0 then Some (st, ms, rc)
     else do { st \<leftarrow> duff_reset ms (unat cnt) st; Some (st, ms, 0) } }"

section \<open>Attached buffers\<close>

text \<open>
  \<^verbatim>\<open>rte_pktmbuf_ext_shinfo_init_helper\<close>: the address of the shared information at the end
  of the buffer, or NULL, and the shortened length.
\<close>

definition rte_pktmbuf_ext_shinfo_init_helper ::
  "addr \<Rightarrow> u16 \<Rightarrow> addr \<Rightarrow> addr \<Rightarrow> mbuf_heap \<Rightarrow> mbuf_heap \<times> addr \<times> u16" where
  "rte_pktmbuf_ext_shinfo_init_helper baddr blen cb opaque st =
     (let buf_end = baddr + ucast blen;
          a = RTE_ALIGN_FLOOR (buf_end - 24) 8
      in if a \<le> baddr then (st, NULL, blen)
         else (st\<lparr>shinfos := (shinfos st)(a \<mapsto> \<lparr>free_cb = cb, fcb_opaque = opaque, ext_refcnt = 1\<rparr>)\<rparr>,
               a, ucast (a - baddr)))"

definition rte_pktmbuf_attach_extbuf :: "rte_mbuf \<Rightarrow> addr \<Rightarrow> iova \<Rightarrow> u16 \<Rightarrow> addr \<Rightarrow> rte_mbuf" where
  "rte_pktmbuf_attach_extbuf m baddr biova blen si =
     m\<lparr>buf_addr := baddr, buf_iova := biova, buf_len := blen, data_len := 0, data_off := 0,
       ol_flags := ol_flags m OR EXT_ATTACHED_MBUF, shinfo := si\<rparr>"

text \<open>The fields an attached buffer copies from the buffer with the data.\<close>

definition attach_copy :: "rte_mbuf \<Rightarrow> rte_mbuf \<Rightarrow> rte_mbuf" where
  "attach_copy mi m =
     mi\<lparr>buf_iova := buf_iova m, buf_addr := buf_addr m, buf_len := buf_len m, data_off := data_off m,
        data_len := data_len m, port := port m, vlan_tci := vlan_tci m, vlan_tci_outer := vlan_tci_outer m,
        tx_offload := tx_offload m, hash := hash m, nxt := NULL, pkt_len := ucast (data_len m),
        nb_segs := 1, packet_type := packet_type m, timestamp := timestamp m\<rparr>"

definition rte_pktmbuf_attach :: "addr \<Rightarrow> addr \<Rightarrow> mbuf_heap \<Rightarrow> mbuf_heap option" where
  "rte_pktmbuf_attach mi m st = do {
     x \<leftarrow> mbufs st m;
     if RTE_MBUF_HAS_EXTBUF x then do {
       (st, _) \<leftarrow> ext_refcnt_add (shinfo x) 1 st;
       with_mbuf mi (\<lambda>y. attach_copy (y\<lparr>ol_flags := ol_flags x, shinfo := shinfo x\<rparr>) x) st }
     else do {
       (st, _) \<leftarrow> refcnt_add (rte_mbuf_from_indirect x) 1 st;
       with_mbuf mi (\<lambda>y. attach_copy (y\<lparr>priv_size := priv_size x, ol_flags := ol_flags x OR IND_ATTACHED_MBUF\<rparr>) x) st } }"

definition rte_pktmbuf_free_extbuf :: "rte_mbuf \<Rightarrow> mbuf_heap \<Rightarrow> mbuf_heap option" where
  "rte_pktmbuf_free_extbuf m st = do {
     (st, r) \<leftarrow> ext_refcnt_add (shinfo m) (- 1) st;
     if r = 0 then do {
       s \<leftarrow> shinfos st (shinfo m);
       Some (st\<lparr>freed_ext := freed_ext st @ [(free_cb s, buf_addr m, fcb_opaque s)]\<rparr>) }
     else Some st }"

definition rte_pktmbuf_free_direct :: "rte_mempool_ops list \<Rightarrow> nat \<Rightarrow> rte_mbuf \<Rightarrow> mbuf_heap \<Rightarrow> mbuf_heap option" where
  "rte_pktmbuf_free_direct tbl lcore m st =
     (let md = rte_mbuf_from_indirect m in do {
       (st, r) \<leftarrow> refcnt_add md (- 1) st;
       if r = 0 then do {
         st \<leftarrow> with_mbuf md (\<lambda>x. x\<lparr>nxt := NULL, nb_segs := 1, refcnt := 1\<rparr>) st;
         rte_mbuf_raw_free tbl lcore md st }
       else Some st })"

definition rte_pktmbuf_detach :: "rte_mempool_ops list \<Rightarrow> nat \<Rightarrow> addr \<Rightarrow> mbuf_heap \<Rightarrow> mbuf_heap option" where
  "rte_pktmbuf_detach tbl lcore m st = do {
     x \<leftarrow> mbufs st m;
     st \<leftarrow> (if RTE_MBUF_HAS_EXTBUF x then rte_pktmbuf_free_extbuf x st
           else rte_pktmbuf_free_direct tbl lcore x st);
     p \<leftarrow> rte_pktmbuf_priv_size st (pool x);
     room \<leftarrow> rte_pktmbuf_data_room_size st (pool x);
     (let mbuf_size = sizeof_rte_mbuf + ucast p in
      with_mbuf m (\<lambda>y. (rte_pktmbuf_reset_headroom
         (y\<lparr>priv_size := p, buf_addr := m + mbuf_size, buf_iova := obj_iova st m + mbuf_size, buf_len := room\<rparr>))
         \<lparr>data_len := 0, ol_flags := 0\<rparr>) st) }"

section \<open>Freeing\<close>

definition unlink_seg :: "rte_mbuf \<Rightarrow> rte_mbuf" where
  "unlink_seg m = (if nxt m \<noteq> NULL then m\<lparr>nxt := NULL, nb_segs := 1\<rparr> else m)"

text \<open>\<^verbatim>\<open>rte_pktmbuf_prefree_seg\<close>: whether the segment may go back to its pool.\<close>

definition rte_pktmbuf_prefree_seg ::
  "rte_mempool_ops list \<Rightarrow> nat \<Rightarrow> addr \<Rightarrow> mbuf_heap \<Rightarrow> (mbuf_heap \<times> bool) option" where
  "rte_pktmbuf_prefree_seg tbl lcore m st = do {
     x \<leftarrow> mbufs st m;
     if refcnt x = 1 then do {
       st \<leftarrow> (if RTE_MBUF_DIRECT x then Some st else rte_pktmbuf_detach tbl lcore m st);
       st \<leftarrow> with_mbuf m unlink_seg st;
       Some (st, True) }
     else do {
       st \<leftarrow> with_mbuf m (\<lambda>x. x\<lparr>refcnt := refcnt x - 1\<rparr>) st;
       if refcnt x - 1 = 0 then do {
         st \<leftarrow> (if RTE_MBUF_DIRECT x then Some st else rte_pktmbuf_detach tbl lcore m st);
         st \<leftarrow> with_mbuf m unlink_seg st;
         st \<leftarrow> with_mbuf m (\<lambda>x. x\<lparr>refcnt := 1\<rparr>) st;
         Some (st, True) }
       else Some (st, False) } }"

definition rte_pktmbuf_free_seg :: "rte_mempool_ops list \<Rightarrow> nat \<Rightarrow> addr \<Rightarrow> mbuf_heap \<Rightarrow> mbuf_heap option" where
  "rte_pktmbuf_free_seg tbl lcore m st = do {
     (st, ok) \<leftarrow> rte_pktmbuf_prefree_seg tbl lcore m st;
     if ok then rte_mbuf_raw_free tbl lcore m st else Some st }"

partial_function (option) rte_pktmbuf_free ::
  "rte_mempool_ops list \<Rightarrow> nat \<Rightarrow> addr \<Rightarrow> mbuf_heap \<Rightarrow> mbuf_heap option" where
  "rte_pktmbuf_free tbl lcore m st =
     (if m = NULL then Some st
      else do {
        x \<leftarrow> mbufs st m;
        st \<leftarrow> rte_pktmbuf_free_seg tbl lcore m st;
        rte_pktmbuf_free tbl lcore (nxt x) st })"

section \<open>Cloning\<close>

text \<open>
  The loop of \<^verbatim>\<open>rte_pktmbuf_clone\<close>: the segment whose link is set next (in the first round
  the new segment itself), the new segment, the segment to clone and the number of segments so far.
  The result says whether every segment could be allocated.
\<close>

partial_function (option) clone_loop ::
  "rte_mempool_ops list \<Rightarrow> nat \<Rightarrow> addr \<Rightarrow> addr \<Rightarrow> addr \<Rightarrow> addr \<Rightarrow> u16 \<Rightarrow> mbuf_heap \<Rightarrow> (mbuf_heap \<times> u16 \<times> bool) option" where
  "clone_loop tbl lcore mp prev mi md nseg st = do {
     st \<leftarrow> rte_pktmbuf_attach mi md st;
     st \<leftarrow> with_mbuf prev (\<lambda>x. x\<lparr>nxt := mi\<rparr>) st;
     d \<leftarrow> mbufs st md;
     if nxt d = NULL then do { st \<leftarrow> with_mbuf mi (\<lambda>x. x\<lparr>nxt := NULL\<rparr>) st; Some (st, nseg + 1, True) }
     else do {
       (st, mi') \<leftarrow> rte_pktmbuf_alloc tbl lcore mp st;
       if mi' = NULL then do { st \<leftarrow> with_mbuf mi (\<lambda>x. x\<lparr>nxt := NULL\<rparr>) st; Some (st, nseg + 1, False) }
       else clone_loop tbl lcore mp mi mi' (nxt d) (nseg + 1) st } }"

definition rte_pktmbuf_clone ::
  "rte_mempool_ops list \<Rightarrow> nat \<Rightarrow> addr \<Rightarrow> addr \<Rightarrow> mbuf_heap \<Rightarrow> (mbuf_heap \<times> addr) option" where
  "rte_pktmbuf_clone tbl lcore md mp st = do {
     (st, mc) \<leftarrow> rte_pktmbuf_alloc tbl lcore mp st;
     if mc = NULL then Some (st, NULL)
     else do {
       d \<leftarrow> mbufs st md;
       (st, nseg, ok) \<leftarrow> clone_loop tbl lcore mp mc mc md 0 st;
       st \<leftarrow> with_mbuf mc (\<lambda>x. x\<lparr>nb_segs := nseg, pkt_len := pkt_len d\<rparr>) st;
       if ok then Some (st, mc)
       else do { st \<leftarrow> rte_pktmbuf_free tbl lcore mc st; Some (st, NULL) } } }"

section \<open>Packet data\<close>

partial_function (option) rte_pktmbuf_refcnt_update :: "addr \<Rightarrow> u16 \<Rightarrow> mbuf_heap \<Rightarrow> mbuf_heap option" where
  "rte_pktmbuf_refcnt_update m v st = do {
     (st, _) \<leftarrow> refcnt_add m v st;
     x \<leftarrow> mbufs st m;
     if nxt x = NULL then Some st else rte_pktmbuf_refcnt_update (nxt x) v st }"

definition rte_pktmbuf_headroom :: "rte_mbuf \<Rightarrow> u16" where
  "rte_pktmbuf_headroom m = data_off m"

definition rte_pktmbuf_tailroom :: "rte_mbuf \<Rightarrow> u16" where
  "rte_pktmbuf_tailroom m = buf_len m - rte_pktmbuf_headroom m - data_len m"

partial_function (option) rte_pktmbuf_lastseg :: "mbuf_heap \<Rightarrow> addr \<Rightarrow> addr option" where
  "rte_pktmbuf_lastseg st m = do {
     x \<leftarrow> mbufs st m;
     if nxt x = NULL then Some m else rte_pktmbuf_lastseg st (nxt x) }"

text \<open>The buffer and the start of its data, or no address where the function returns NULL.\<close>

definition rte_pktmbuf_prepend :: "rte_mbuf \<Rightarrow> u16 \<Rightarrow> rte_mbuf \<times> addr option" where
  "rte_pktmbuf_prepend m len =
     (if len > rte_pktmbuf_headroom m then (m, None)
      else let m = m\<lparr>data_off := data_off m - len, data_len := data_len m + len, pkt_len := pkt_len m + ucast len\<rparr>
           in (m, Some (buf_addr m + ucast (data_off m))))"

definition rte_pktmbuf_append :: "addr \<Rightarrow> u16 \<Rightarrow> mbuf_heap \<Rightarrow> (mbuf_heap \<times> addr option) option" where
  "rte_pktmbuf_append m len st = do {
     l \<leftarrow> rte_pktmbuf_lastseg st m;
     x \<leftarrow> mbufs st l;
     if len > rte_pktmbuf_tailroom x then Some (st, None)
     else do {
       st \<leftarrow> with_mbuf l (\<lambda>x. x\<lparr>data_len := data_len x + len\<rparr>) st;
       st \<leftarrow> with_mbuf m (\<lambda>x. x\<lparr>pkt_len := pkt_len x + ucast len\<rparr>) st;
       Some (st, Some (buf_addr x + ucast (data_off x) + ucast (data_len x))) } }"

definition rte_pktmbuf_adj :: "rte_mbuf \<Rightarrow> u16 \<Rightarrow> rte_mbuf \<times> addr option" where
  "rte_pktmbuf_adj m len =
     (if len > data_len m then (m, None)
      else let m = m\<lparr>data_len := data_len m - len, data_off := data_off m + len, pkt_len := pkt_len m - ucast len\<rparr>
           in (m, Some (buf_addr m + ucast (data_off m))))"

definition rte_pktmbuf_trim :: "addr \<Rightarrow> u16 \<Rightarrow> mbuf_heap \<Rightarrow> (mbuf_heap \<times> int) option" where
  "rte_pktmbuf_trim m len st = do {
     l \<leftarrow> rte_pktmbuf_lastseg st m;
     x \<leftarrow> mbufs st l;
     if len > data_len x then Some (st, - 1)
     else do {
       st \<leftarrow> with_mbuf l (\<lambda>x. x\<lparr>data_len := data_len x - len\<rparr>) st;
       st \<leftarrow> with_mbuf m (\<lambda>x. x\<lparr>pkt_len := pkt_len x - ucast len\<rparr>) st;
       Some (st, 0) } }"

definition rte_pktmbuf_is_contiguous :: "rte_mbuf \<Rightarrow> bool" where
  "rte_pktmbuf_is_contiguous m \<longleftrightarrow> nb_segs m = 1"

definition rte_pktmbuf_chain :: "addr \<Rightarrow> addr \<Rightarrow> mbuf_heap \<Rightarrow> (mbuf_heap \<times> int) option" where
  "rte_pktmbuf_chain hm tm st = do {
     h \<leftarrow> mbufs st hm;
     t \<leftarrow> mbufs st tm;
     if unat (nb_segs h) + unat (nb_segs t) > RTE_MBUF_MAX_NB_SEGS then Some (st, - errno_code EOVERFLOW)
     else do {
       cur_tail \<leftarrow> rte_pktmbuf_lastseg st hm;
       st \<leftarrow> with_mbuf cur_tail (\<lambda>x. x\<lparr>nxt := tm\<rparr>) st;
       st \<leftarrow> with_mbuf hm (\<lambda>x. x\<lparr>nb_segs := nb_segs x + nb_segs t, pkt_len := pkt_len x + pkt_len t\<rparr>) st;
       st \<leftarrow> with_mbuf tm (\<lambda>x. x\<lparr>pkt_len := ucast (data_len x)\<rparr>) st;
       Some (st, 0) } }"

section \<open>Reading across segments\<close>

definition read_bytes :: "(addr \<Rightarrow> u8) \<Rightarrow> addr \<Rightarrow> nat \<Rightarrow> u8 list" where
  "read_bytes mem a n = map (\<lambda>i. mem (a + of_nat i)) [0..<n]"

fun write_bytes :: "(addr \<Rightarrow> u8) \<Rightarrow> addr \<Rightarrow> u8 list \<Rightarrow> addr \<Rightarrow> u8" where
  "write_bytes mem a [] = mem"
| "write_bytes mem a (b # bs) = write_bytes (mem(a := b)) (a + 1) bs"

partial_function (option) read_seek :: "mbuf_heap \<Rightarrow> addr \<Rightarrow> u32 \<Rightarrow> (addr \<times> u32) option" where
  "read_seek st sg off = do {
     x \<leftarrow> mbufs st sg;
     if off \<ge> ucast (data_len x) then read_seek st (nxt x) (off - ucast (data_len x))
     else Some (sg, off) }"

partial_function (option) read_copy :: "addr \<Rightarrow> u32 \<Rightarrow> u32 \<Rightarrow> addr \<Rightarrow> u32 \<Rightarrow> mbuf_heap \<Rightarrow> mbuf_heap option" where
  "read_copy sg off len buf buf_off st =
     (if len = 0 then Some st
      else do {
        x \<leftarrow> mbufs st sg;
        (let copy_len = ucast (data_len x) - off;
             copy_len = (if copy_len > len then len else copy_len);
             src = rte_pktmbuf_mtod_offset x (ucast off);
             st = st\<lparr>bytes := write_bytes (bytes st) (buf + ucast buf_off) (read_bytes (bytes st) src (unat copy_len))\<rparr>
         in read_copy (nxt x) 0 (len - copy_len) buf (buf_off + copy_len) st) })"

text \<open>\<^verbatim>\<open>__rte_pktmbuf_read\<close>: the address of the data; none is the NULL of a failed read.\<close>

definition rte_pktmbuf_read_slow :: "addr \<Rightarrow> u32 \<Rightarrow> u32 \<Rightarrow> addr \<Rightarrow> mbuf_heap \<Rightarrow> (mbuf_heap \<times> addr option) option" where
  "rte_pktmbuf_read_slow m off len buf st = do {
     x \<leftarrow> mbufs st m;
     if off + len > pkt_len x then Some (st, None)
     else do {
       (sg, off) \<leftarrow> read_seek st m off;
       y \<leftarrow> mbufs st sg;
       if off + len \<le> ucast (data_len y) then Some (st, Some (rte_pktmbuf_mtod_offset y (ucast off)))
       else do { st \<leftarrow> read_copy sg off len buf 0 st; Some (st, Some buf) } } }"

definition rte_pktmbuf_read :: "addr \<Rightarrow> u32 \<Rightarrow> u32 \<Rightarrow> addr \<Rightarrow> mbuf_heap \<Rightarrow> (mbuf_heap \<times> addr option) option" where
  "rte_pktmbuf_read m off len buf st = do {
     x \<leftarrow> mbufs st m;
     if off + len \<le> ucast (data_len x) then Some (st, Some (rte_pktmbuf_mtod_offset x (ucast off)))
     else rte_pktmbuf_read_slow m off len buf st }"

partial_function (option) linearize_loop ::
  "rte_mempool_ops list \<Rightarrow> nat \<Rightarrow> addr \<Rightarrow> addr \<Rightarrow> mbuf_heap \<Rightarrow> mbuf_heap option" where
  "linearize_loop tbl lcore m buffer st =
     (if m = NULL then Some st
      else do {
        x \<leftarrow> mbufs st m;
        (let seg_len = unat (data_len x);
             st = st\<lparr>bytes := write_bytes (bytes st) buffer (read_bytes (bytes st) (rte_pktmbuf_mtod_offset x 0) seg_len)\<rparr>
         in do {
           st \<leftarrow> rte_pktmbuf_free_seg tbl lcore m st;
           linearize_loop tbl lcore (nxt x) (buffer + of_nat seg_len) st }) })"

definition rte_pktmbuf_linearize :: "rte_mempool_ops list \<Rightarrow> nat \<Rightarrow> addr \<Rightarrow> mbuf_heap \<Rightarrow> (mbuf_heap \<times> int) option" where
  "rte_pktmbuf_linearize tbl lcore mbuf st = do {
     x \<leftarrow> mbufs st mbuf;
     if rte_pktmbuf_is_contiguous x then Some (st, 0)
     else if (ucast (pkt_len x - ucast (data_len x)) :: u64) > ucast (rte_pktmbuf_tailroom x) then Some (st, - 1)
     else do {
       st \<leftarrow> with_mbuf mbuf (\<lambda>x. x\<lparr>data_len := ucast (pkt_len x)\<rparr>) st;
       st \<leftarrow> linearize_loop tbl lcore (nxt x) (rte_pktmbuf_mtod_offset x (ucast (data_len x))) st;
       st \<leftarrow> with_mbuf mbuf (\<lambda>x. x\<lparr>nxt := NULL, nb_segs := 1\<rparr>) st;
       Some (st, 0) } }"

section \<open>Single segments\<close>

text \<open>The data of a segment lies inside its buffer.\<close>

definition seg_ok :: "rte_mbuf \<Rightarrow> bool" where
  "seg_ok m \<longleftrightarrow> unat (data_off m) + unat (data_len m) \<le> unat (buf_len m)"

lemma u16_lt: "unat (w :: u16) < 65536"
  using unat_lt_2p [of w] by simp

lemma refcnt_update_eq: "rte_mbuf_refcnt_update m v = (m\<lparr>refcnt := refcnt m + v\<rparr>, refcnt m + v)"
  by (simp add: rte_mbuf_refcnt_update_def add.commute Let_def)

lemma ext_refcnt_update_eq: "rte_mbuf_ext_refcnt_update s v = (s\<lparr>ext_refcnt := ext_refcnt s + v\<rparr>, ext_refcnt s + v)"
  by (simp add: rte_mbuf_ext_refcnt_update_def add.commute Let_def)

lemma reset_seg_ok: "seg_ok (rte_pktmbuf_reset m)"
  by (simp add: seg_ok_def rte_pktmbuf_reset_def rte_pktmbuf_reset_headroom_def word_less_nat_alt Let_def)

lemma tailroom_nat: "seg_ok m \<Longrightarrow> unat (rte_pktmbuf_tailroom m) = unat (buf_len m) - unat (data_off m) - unat (data_len m)"
  unfolding rte_pktmbuf_tailroom_def rte_pktmbuf_headroom_def seg_ok_def
  by (subst unat_sub_simple; (subst unat_sub_simple)?; simp add: word_le_nat_alt unat_sub_simple)

lemma prepend_ok:
  assumes "seg_ok m" "len \<le> data_off m"
  shows "\<exists>m'. rte_pktmbuf_prepend m len = (m', Some (buf_addr m' + ucast (data_off m'))) \<and> seg_ok m' \<and>
    unat (data_len m') = unat (data_len m) + unat len \<and> unat (data_off m') = unat (data_off m) - unat len"
proof -
  have "unat (data_off m - len) = unat (data_off m) - unat len" using assms by (intro unat_sub_simple)
  moreover have "unat (data_len m + len) = unat (data_len m) + unat len"
    using assms u16_lt [of "buf_len m"] by (intro unat_plus_simple) (simp add: seg_ok_def word_le_nat_alt)
  ultimately show ?thesis
    using assms by (simp add: rte_pktmbuf_prepend_def rte_pktmbuf_headroom_def seg_ok_def word_le_nat_alt leD Let_def)
qed

lemma adj_ok:
  assumes "seg_ok m" "len \<le> data_len m"
  shows "\<exists>m'. rte_pktmbuf_adj m len = (m', Some (buf_addr m' + ucast (data_off m'))) \<and> seg_ok m' \<and>
    unat (data_len m') = unat (data_len m) - unat len \<and> unat (data_off m') = unat (data_off m) + unat len"
proof -
  have "unat (data_len m - len) = unat (data_len m) - unat len" using assms by (intro unat_sub_simple)
  moreover have "unat (data_off m + len) = unat (data_off m) + unat len"
    using assms u16_lt [of "buf_len m"] by (intro unat_plus_simple) (simp add: seg_ok_def word_le_nat_alt)
  ultimately show ?thesis
    using assms by (simp add: rte_pktmbuf_adj_def seg_ok_def word_le_nat_alt leD Let_def)
qed

section \<open>Chains\<close>

fun chain :: "(addr \<rightharpoonup> rte_mbuf) \<Rightarrow> addr \<Rightarrow> addr list \<Rightarrow> bool" where
  "chain h m [] \<longleftrightarrow> m = NULL"
| "chain h m (x # xs) \<longleftrightarrow> m = x \<and> m \<noteq> NULL \<and> (case h m of None \<Rightarrow> False | Some b \<Rightarrow> chain h (nxt b) xs)"

lemma chain_Cons:
  "chain h m (x # xs) \<longleftrightarrow> m = x \<and> m \<noteq> NULL \<and> (\<exists>b. h m = Some b \<and> chain h (nxt b) xs)"
  by (auto split: option.splits)

declare chain.simps(2) [simp del]

lemma chain_dom: "chain h m ms \<Longrightarrow> x \<in> set ms \<Longrightarrow> \<exists>b. h x = Some b"
  by (induction ms arbitrary: m) (auto simp: chain_Cons)

lemma chain_cong:
  assumes "chain h m ms" "\<And>x. x \<in> set ms \<Longrightarrow> map_option nxt (h' x) = map_option nxt (h x)"
  shows "chain h' m ms"
  using assms
proof (induction ms arbitrary: m)
  case (Cons x xs)
  then obtain b where b: "h x = Some b" "chain h (nxt b) xs" "m = x" "m \<noteq> NULL" by (auto simp: chain_Cons)
  then obtain b' where "h' x = Some b'" "nxt b' = nxt b" using Cons.prems(2) [of x] by auto
  with b Cons.IH [of "nxt b"] Cons.prems(2) show ?case by (auto simp: chain_Cons)
qed simp

lemma chain_append:
  assumes "chain h m (xs @ [l])" "chain h' t ys" "t \<noteq> NULL \<or> ys = []" "l \<notin> set xs"
    "\<And>x. x \<in> set xs \<Longrightarrow> map_option nxt (h' x) = map_option nxt (h x)" "\<exists>b. h' l = Some b \<and> nxt b = t"
  shows "chain h' m (xs @ l # ys)"
  using assms
proof (induction xs arbitrary: m)
  case Nil
  then show ?case by (auto simp: chain_Cons)
next
  case (Cons x xs)
  then obtain b where b: "h x = Some b" "chain h (nxt b) (xs @ [l])" "m = x" "m \<noteq> NULL" by (auto simp: chain_Cons)
  then obtain b' where "h' x = Some b'" "nxt b' = nxt b" using Cons.prems(5) [of x] by auto
  with b Cons.IH [of "nxt b"] Cons.prems show ?case by (auto simp: chain_Cons)
qed

lemma lastseg_last:
  assumes "chain (mbufs st) m ms" "ms \<noteq> []"
  shows "rte_pktmbuf_lastseg st m = Some (last ms)"
  using assms
proof (induction ms arbitrary: m)
  case (Cons x xs)
  then obtain b where b: "mbufs st x = Some b" "chain (mbufs st) (nxt b) xs" "m = x" by (auto simp: chain_Cons)
  show ?case
  proof (cases xs)
    case Nil
    with b show ?thesis by (subst rte_pktmbuf_lastseg.simps) simp
  next
    case (Cons y ys)
    with b have "nxt b \<noteq> NULL" by (auto simp: chain_Cons)
    with b Cons Cons.IH [of "nxt b"] show ?thesis by (subst rte_pktmbuf_lastseg.simps) simp
  qed
qed simp

text \<open>A well-formed packet: its head knows the number of segments and the total length.\<close>

definition total_len :: "mbuf_heap \<Rightarrow> addr list \<Rightarrow> nat" where
  "total_len st ms = sum_list (map (\<lambda>m. case map_option data_len (mbufs st m) of None \<Rightarrow> 0 | Some l \<Rightarrow> unat l) ms)"

definition pkt_ok :: "mbuf_heap \<Rightarrow> addr \<Rightarrow> addr list \<Rightarrow> bool" where
  "pkt_ok st m ms \<longleftrightarrow> ms \<noteq> [] \<and> distinct ms \<and> chain (mbufs st) m ms \<and>
     (\<forall>x \<in> set ms. \<exists>b. mbufs st x = Some b \<and> seg_ok b) \<and>
     (\<exists>b. mbufs st m = Some b \<and> unat (nb_segs b) = length ms \<and> unat (pkt_len b) = total_len st ms)"

lemma pkt_ok_head: "pkt_ok st m ms \<Longrightarrow> \<exists>xs. ms = m # xs"
  by (cases ms) (auto simp: pkt_ok_def chain_Cons)

lemma total_len_append [simp]: "total_len st (xs @ ys) = total_len st xs + total_len st ys"
  by (simp add: total_len_def)

lemma total_len_cong:
  "(\<And>x. x \<in> set ms \<Longrightarrow> map_option data_len (mbufs st' x) = map_option data_len (mbufs st x)) \<Longrightarrow>
    total_len st' ms = total_len st ms"
  unfolding total_len_def by (intro arg_cong [of _ _ sum_list] map_cong) simp_all

lemma total_len_update:
  assumes "distinct ms" "x \<in> set ms" "mbufs st x = Some b"
  shows "total_len (st\<lparr>mbufs := (mbufs st)(x \<mapsto> b')\<rparr>) ms + unat (data_len b) = total_len st ms + unat (data_len b')"
  using assms
proof (induction ms)
  case (Cons y ys)
  show ?case
  proof (cases "x = y")
    case True
    then have "total_len (st\<lparr>mbufs := (mbufs st)(x \<mapsto> b')\<rparr>) ys = total_len st ys"
      using Cons.prems by (intro total_len_cong) auto
    with True Cons.prems show ?thesis by (simp add: total_len_def)
  next
    case False
    with Cons show ?thesis by (simp add: total_len_def)
  qed
qed simp

text \<open>Changing a segment without its links keeps the chain.\<close>

lemma chain_update:
  assumes "chain (mbufs st) m ms" "mbufs st x = Some b" "nxt b' = nxt b"
  shows "chain ((mbufs st)(x \<mapsto> b')) m ms"
  using assms(1) by (rule chain_cong) (use assms(2,3) in auto)

lemma with_mbuf_Some: "mbufs st m = Some x \<Longrightarrow> with_mbuf m f st = Some (st\<lparr>mbufs := (mbufs st)(m \<mapsto> f x)\<rparr>)"
  by (simp add: with_mbuf_def)

text \<open>Growing or shrinking the last segment of a packet together with the packet length.\<close>

lemma pkt_ok_resize:
  assumes ok: "pkt_ok st m ms" and l: "l = last ms" and x: "mbufs st l = Some x"
    and sok: "seg_ok (x\<lparr>data_len := n\<rparr>)" and h: "mbufs st m = Some h"
    and pl: "unat pl + unat (data_len x) = unat (pkt_len h) + unat n"
  shows "\<exists>st'. do { st \<leftarrow> with_mbuf l (\<lambda>x. x\<lparr>data_len := n\<rparr>) st; with_mbuf m (\<lambda>x. x\<lparr>pkt_len := pl\<rparr>) st } = Some st' \<and>
    pkt_ok st' m ms \<and> total_len st' ms + unat (data_len x) = total_len st ms + unat n"
proof -
  let ?s1 = "st\<lparr>mbufs := (mbufs st)(l \<mapsto> x\<lparr>data_len := n\<rparr>)\<rparr>"
  obtain h1 where h1: "mbufs ?s1 m = Some h1" "nb_segs h1 = nb_segs h" "nxt h1 = nxt h"
      "data_len h1 = (if m = l then n else data_len h)" "m \<noteq> l \<longrightarrow> seg_ok h1 = seg_ok h" "m = l \<longrightarrow> h1 = x\<lparr>data_len := n\<rparr>"
    using h x by (cases "m = l") auto
  let ?s2 = "?s1\<lparr>mbufs := (mbufs ?s1)(m \<mapsto> h1\<lparr>pkt_len := pl\<rparr>)\<rparr>"
  have run: "do { st \<leftarrow> with_mbuf l (\<lambda>x. x\<lparr>data_len := n\<rparr>) st; with_mbuf m (\<lambda>x. x\<lparr>pkt_len := pl\<rparr>) st } = Some ?s2"
    using with_mbuf_Some [OF x, of "\<lambda>x. x\<lparr>data_len := n\<rparr>"] with_mbuf_Some [OF h1(1), of "\<lambda>x. x\<lparr>pkt_len := pl\<rparr>"] by simp
  have ms: "ms \<noteq> []" "distinct ms" "chain (mbufs st) m ms" "m \<in> set ms" "l \<in> set ms"
    using ok pkt_ok_head [OF ok] l by (auto simp: pkt_ok_def)
  have "chain (mbufs ?s1) m ms" using chain_update [OF ms(3) x, of "x\<lparr>data_len := n\<rparr>"] by simp
  then have ch: "chain (mbufs ?s2) m ms" using chain_update [OF _ h1(1), of _ _ "h1\<lparr>pkt_len := pl\<rparr>"] by simp
  have t1: "total_len ?s1 ms + unat (data_len x) = total_len st ms + unat n"
    using total_len_update [OF ms(2,5) x, of "x\<lparr>data_len := n\<rparr>"] by simp
  have t2: "total_len ?s2 ms = total_len ?s1 ms"
    using total_len_update [OF ms(2,4) h1(1), of "h1\<lparr>pkt_len := pl\<rparr>"] by simp
  have segs: "\<exists>b. mbufs ?s2 y = Some b \<and> seg_ok b" if y: "y \<in> set ms" for y
  proof -
    obtain b where b: "mbufs st y = Some b" "seg_ok b" using ok y by (auto simp: pkt_ok_def)
    have sp: "seg_ok (h1\<lparr>pkt_len := pl\<rparr>) = seg_ok h1" by (simp add: seg_ok_def)
    show ?thesis
    proof (cases "y = m")
      case True
      then have "seg_ok h1" using h1(5,6) b sok h by (cases "m = l") simp_all
      with True sp show ?thesis by simp
    next
      case False
      with b sok show ?thesis by simp
    qed
  qed
  have "unat (nb_segs h) = length ms" "unat (pkt_len h) = total_len st ms" using ok h by (auto simp: pkt_ok_def)
  then have "unat (nb_segs (h1\<lparr>pkt_len := pl\<rparr>)) = length ms \<and> unat (pkt_len (h1\<lparr>pkt_len := pl\<rparr>)) = total_len ?s2 ms"
    using h1(2) t1 t2 pl by simp
  moreover have "mbufs ?s2 m = Some (h1\<lparr>pkt_len := pl\<rparr>)" by simp
  ultimately have "pkt_ok ?s2 m ms"
    unfolding pkt_ok_def using ms(1,2) ch segs by blast
  with run t1 t2 show ?thesis by (intro exI [of _ ?s2]) simp
qed

text \<open>A packet of at most 65535 segments is shorter than \<open>2 ^ 32\<close> bytes: its length never wraps.\<close>

lemma total_len_bound: "total_len st ms \<le> 65535 * length ms"
proof (induction ms)
  case (Cons x xs)
  have "(case map_option data_len (mbufs st x) of None \<Rightarrow> 0 | Some l \<Rightarrow> unat l) \<le> 65535"
    using u16_lt [of "data_len (the (mbufs st x))"] by (cases "mbufs st x") simp_all
  with Cons show ?case by (simp add: total_len_def)
qed (simp add: total_len_def)

lemma pkt_ok_last:
  assumes "pkt_ok st m ms"
  shows "\<exists>h x. mbufs st m = Some h \<and> mbufs st (last ms) = Some x \<and> seg_ok x \<and> rte_pktmbuf_lastseg st m = Some (last ms) \<and>
    unat (pkt_len h) = total_len st ms \<and> unat (nb_segs h) = length ms"
proof -
  have ne: "ms \<noteq> []" and ch: "chain (mbufs st) m ms" using assms by (auto simp: pkt_ok_def)
  then have "last ms \<in> set ms" by simp
  with assms obtain h x where "mbufs st m = Some h" "mbufs st (last ms) = Some x" "seg_ok x"
      "unat (pkt_len h) = total_len st ms" "unat (nb_segs h) = length ms"
    unfolding pkt_ok_def by blast
  with lastseg_last [OF ch ne] show ?thesis by blast
qed

lemma total_len_last:
  assumes "pkt_ok st m ms" "mbufs st (last ms) = Some x"
  shows "unat (data_len x) \<le> total_len st ms" "total_len st ms \<le> 65535 * (length ms - 1) + unat (data_len x)"
proof -
  obtain xs where ms: "ms = xs @ [last ms]" using assms(1) by (metis pkt_ok_def append_butlast_last_id)
  then have "total_len st ms = total_len st (xs @ [last ms])" by simp
  also have "\<dots> = total_len st xs + unat (data_len x)" using assms(2) by (simp add: total_len_def)
  finally have t: "total_len st ms = total_len st xs + unat (data_len x)" .
  have "length ms = length xs + 1" using arg_cong [OF ms, of length] by simp
  with t total_len_bound [of st xs]
  show "unat (data_len x) \<le> total_len st ms" "total_len st ms \<le> 65535 * (length ms - 1) + unat (data_len x)" by simp_all
qed

lemma append_ok:
  assumes ok: "pkt_ok st m ms" and x: "mbufs st (last ms) = Some x" and room: "len \<le> rte_pktmbuf_tailroom x"
  shows "\<exists>st'. rte_pktmbuf_append m len st = Some (st', Some (buf_addr x + ucast (data_off x) + ucast (data_len x))) \<and>
    pkt_ok st' m ms \<and> total_len st' ms = total_len st ms + unat len"
proof -
  obtain h where h: "mbufs st m = Some h" "seg_ok x" "rte_pktmbuf_lastseg st m = Some (last ms)"
      "unat (pkt_len h) = total_len st ms" "unat (nb_segs h) = length ms"
    using pkt_ok_last [OF ok] x by auto
  have fits: "unat (data_off x) + (unat (data_len x) + unat len) \<le> unat (buf_len x)"
    using room tailroom_nat [OF h(2)] h(2) by (simp add: word_le_nat_alt seg_ok_def)
  have dl: "unat (data_len x + len) = unat (data_len x) + unat len"
    using fits u16_lt [of "buf_len x"] by (intro unat_plus_simple) simp
  have "1 \<le> length ms" "length ms \<le> 65535" using ok u16_lt [of "nb_segs h"] h(5) by (auto simp: pkt_ok_def Suc_le_eq)
  then have "total_len st ms + unat len < 2 ^ 32"
    using total_len_last(2) [OF ok x] fits u16_lt [of "buf_len x"] by simp
  moreover have "unat (ucast len :: u32) = unat len" by simp
  ultimately have pl: "unat (pkt_len h + ucast len) = unat (pkt_len h) + unat len"
    using h(4) unat_plus_simple [of "pkt_len h" "ucast len"] by simp
  have "\<exists>st'. do { st \<leftarrow> with_mbuf (last ms) (\<lambda>x'. x'\<lparr>data_len := data_len x + len\<rparr>) st;
        with_mbuf m (\<lambda>x. x\<lparr>pkt_len := pkt_len h + ucast len\<rparr>) st } = Some st' \<and>
      pkt_ok st' m ms \<and> total_len st' ms + unat (data_len x) = total_len st ms + unat (data_len x + len)"
    by (rule pkt_ok_resize [OF ok refl x _ h(1)]) (use fits dl pl in \<open>simp_all add: seg_ok_def\<close>)
  then obtain st' where st': "do { st \<leftarrow> with_mbuf (last ms) (\<lambda>x'. x'\<lparr>data_len := data_len x + len\<rparr>) st;
        with_mbuf m (\<lambda>x. x\<lparr>pkt_len := pkt_len h + ucast len\<rparr>) st } = Some st'"
      "pkt_ok st' m ms" "total_len st' ms = total_len st ms + unat len" using dl by auto
  have "rte_pktmbuf_append m len st = Some (st', Some (buf_addr x + ucast (data_off x) + ucast (data_len x)))"
    using st'(1) h x room by (auto simp: rte_pktmbuf_append_def with_mbuf_def leD split: if_splits)
  with st' show ?thesis by blast
qed

text \<open>
  Appending to a well-formed packet. When the last segment has room for \<open>len\<close> more bytes,
  \<^verbatim>\<open>rte_pktmbuf_append\<close> returns the address of the first byte behind the data of the last
  segment, the packet stays well-formed (the length kept in its head is the sum over the segments,
  without wrap-around) and is \<open>len\<close> bytes longer; otherwise it returns NULL and changes nothing.
\<close>

theorem append_packet:
  assumes "pkt_ok st m ms" "mbufs st (last ms) = Some x"
  shows "if len \<le> rte_pktmbuf_tailroom x
    then \<exists>st'. rte_pktmbuf_append m len st = Some (st', Some (buf_addr x + ucast (data_off x) + ucast (data_len x))) \<and>
      pkt_ok st' m ms \<and> total_len st' ms = total_len st ms + unat len
    else rte_pktmbuf_append m len st = Some (st, None)"
  using append_ok [OF assms] pkt_ok_last [OF assms(1)] assms(2)
  by (auto simp: rte_pktmbuf_append_def)

definition ex_mbuf :: "addr \<Rightarrow> u16 \<Rightarrow> rte_mbuf" where
  "ex_mbuf a n = \<lparr>buf_addr = a + 128, buf_iova = a + 128, data_off = 832, refcnt = 1, nb_segs = 1, port = 0, ol_flags = 0,
     packet_type = 0, pkt_len = ucast n, data_len = n, vlan_tci = 0, hash = 0, vlan_tci_outer = 0, buf_len = 2880,
     timestamp = 0, udata64 = 0, pool = 0x100, nxt = NULL, tx_offload = 0, priv_size = 0, timesync = 0, seqn = 0, shinfo = NULL\<rparr>"

definition ex_heap :: mbuf_heap where
  "ex_heap = \<lparr>mbufs = [0x1000 \<mapsto> (ex_mbuf 0x1000 100)\<lparr>nxt := 0x2000, nb_segs := 2, pkt_len := 160\<rparr>,
       0x2000 \<mapsto> ex_mbuf 0x2000 60, 0x3000 \<mapsto> ex_mbuf 0x3000 40], shinfos = Map.empty, bytes = (\<lambda>_. 0),
     pools = Map.empty, pool_privs = Map.empty, obj_iova = (\<lambda>a. a), freed_ext = []\<rparr>"

lemma ex_heap_ok: "pkt_ok ex_heap 0x1000 [0x1000, 0x2000]" "pkt_ok ex_heap 0x3000 [0x3000]"
  by (simp_all add: pkt_ok_def ex_heap_def ex_mbuf_def chain_Cons seg_ok_def total_len_def)

theorem append_packet_witness:
  "\<exists>st'. rte_pktmbuf_append 0x1000 20 ex_heap = Some (st', Some 0x23FC) \<and>
    pkt_ok st' 0x1000 [0x1000, 0x2000] \<and> total_len st' [0x1000, 0x2000] = total_len ex_heap [0x1000, 0x2000] + unat (20 :: u16)"
  using append_packet [OF ex_heap_ok(1), of "ex_mbuf 0x2000 60" 20]
  by (simp add: ex_heap_def ex_mbuf_def rte_pktmbuf_tailroom_def rte_pktmbuf_headroom_def)

text \<open>What was appended can be trimmed again, which restores every buffer.\<close>

lemma append_trim:
  assumes ok: "pkt_ok st m ms" and ap: "rte_pktmbuf_append m len st = Some (st', Some a)"
  shows "rte_pktmbuf_trim m len st' = Some (st, 0)"
proof -
  obtain h x where h: "mbufs st m = Some h" "mbufs st (last ms) = Some x" "seg_ok x"
      "rte_pktmbuf_lastseg st m = Some (last ms)"
    using pkt_ok_last [OF ok] by auto
  have room: "len \<le> rte_pktmbuf_tailroom x" using ap h by (auto simp: rte_pktmbuf_append_def not_less split: if_splits)
  then have ok': "pkt_ok st' m ms"
    using append_ok [OF ok h(2) room] ap by auto
  let ?x = "x\<lparr>data_len := data_len x + len\<rparr>"
  have lst: "rte_pktmbuf_lastseg st' m = Some (last ms)" using pkt_ok_last [OF ok'] by auto
  have "unat (data_off x) + (unat (data_len x) + unat len) \<le> unat (buf_len x)"
    using room tailroom_nat [OF h(3)] h(3) by (simp add: word_le_nat_alt seg_ok_def)
  then have "unat (data_len x + len) = unat (data_len x) + unat len"
    using u16_lt [of "buf_len x"] by (intro unat_plus_simple) simp
  then have le: "len \<le> data_len x + len" by (simp add: word_le_nat_alt)
  show ?thesis
  proof (cases "m = last ms")
    case True
    then have "st' = st\<lparr>mbufs := (mbufs st)(m \<mapsto> ?x\<lparr>pkt_len := pkt_len x + ucast len\<rparr>)\<rparr>"
      using ap h room by (auto simp: rte_pktmbuf_append_def with_mbuf_def leD)
    with True h le lst show ?thesis
      by (auto simp: rte_pktmbuf_trim_def with_mbuf_def leD fun_upd_idem)
  next
    case False
    then have st': "st' = st\<lparr>mbufs := (mbufs st)(last ms \<mapsto> ?x, m \<mapsto> h\<lparr>pkt_len := pkt_len h + ucast len\<rparr>)\<rparr>"
      using ap h room by (auto simp: rte_pktmbuf_append_def with_mbuf_def leD)
    have "(mbufs st)(last ms \<mapsto> x, m \<mapsto> h) = mbufs st" using h by auto
    then show ?thesis using False h le lst st'
      by (simp add: rte_pktmbuf_trim_def with_mbuf_def leD fun_upd_twist)
  qed
qed

section \<open>Chaining packets\<close>

lemma chain_link:
  assumes hs: "chain h hm hs" "hs \<noteq> []" "distinct hs" and ts: "chain h tm ts" "tm \<noteq> NULL"
    and dis: "set hs \<inter> set ts = {}"
    and nx: "\<And>y. y \<noteq> last hs \<Longrightarrow> map_option nxt (h' y) = map_option nxt (h y)"
    and nxl: "\<exists>b. h' (last hs) = Some b \<and> nxt b = tm"
  shows "chain h' hm (hs @ ts)"
proof -
  have lin: "last hs \<in> set hs" using hs by simp
  have cht: "chain h' tm ts"
  proof (rule chain_cong [OF ts(1)])
    fix y assume "y \<in> set ts"
    then have "y \<noteq> last hs" using lin dis by blast
    then show "map_option nxt (h' y) = map_option nxt (h y)" by (rule nx)
  qed
  have nin: "last hs \<notin> set (butlast hs)"
    using hs(2,3) append_butlast_last_id [of hs] distinct_append [of "butlast hs" "[last hs]"] by auto
  have "chain h' hm (butlast hs @ last hs # ts)"
  proof (rule chain_append [where h = h])
    show "chain h hm (butlast hs @ [last hs])" using hs by simp
    show "map_option nxt (h' y) = map_option nxt (h y)" if "y \<in> set (butlast hs)" for y
      using nin that by (intro nx) blast
  qed (use cht ts nin nxl in auto)
  moreover have "butlast hs @ last hs # ts = hs @ ts"
    using append_butlast_last_id [of hs] hs append.assoc [of "butlast hs" "[last hs]" ts] by simp
  ultimately show ?thesis by simp
qed

lemma pkt_ok_chain_heap:
  assumes ok: "pkt_ok st hm hs" "pkt_ok st tm ts" and dis: "set hs \<inter> set ts = {}"
    and h: "mbufs st hm = Some h" and t: "mbufs st tm = Some t" and l: "mbufs st (last hs) = Some l"
    and bound: "length hs + length ts \<le> 65535"
    and f: "f = (mbufs st)(last hs \<mapsto> l\<lparr>nxt := tm\<rparr>)"
    and g: "g = f(hm \<mapsto> (the (f hm))\<lparr>nb_segs := nb_segs h + nb_segs t, pkt_len := pkt_len h + pkt_len t\<rparr>)"
    and e: "mbufs st' = g(tm \<mapsto> t\<lparr>pkt_len := ucast (data_len t)\<rparr>)"
  shows "pkt_ok st' hm (hs @ ts)" "total_len st' (hs @ ts) = total_len st hs + total_len st ts"
proof -
  obtain hs' ts' where hs: "hs = hm # hs'" and ts: "ts = tm # ts'" using pkt_ok_head ok by blast
  have ne: "hm \<noteq> tm" "last hs \<noteq> tm" "tm \<noteq> NULL" using dis hs ts ok(2) last_in_set [of hs] by (auto simp: pkt_ok_def chain_Cons)
  have other: "mbufs st' y = mbufs st y" if "y \<noteq> hm" "y \<noteq> last hs" "y \<noteq> tm" for y using that e g f by simp
  have fh: "f hm = Some (if hm = last hs then l\<lparr>nxt := tm\<rparr> else h)" using h f by simp
  have dl: "map_option data_len (mbufs st' y) = map_option data_len (mbufs st y)" for y
    using h t l f g e fh by (cases "y = tm"; cases "y = hm"; cases "y = last hs"; cases "hm = last hs") simp_all
  then have tot: "total_len st' (hs @ ts) = total_len st hs + total_len st ts"
    using total_len_cong [of hs st' st] total_len_cong [of ts st' st] by simp
  have nx: "map_option nxt (mbufs st' y) = map_option nxt (mbufs st y)" if "y \<noteq> last hs" for y
    using that h t l f g e fh by (cases "y = tm"; cases "y = hm") simp_all
  have nxl: "\<exists>b. mbufs st' (last hs) = Some b \<and> nxt b = tm"
    using h t l f g e fh ne by (cases "hm = last hs") simp_all
  have so: "\<exists>b. mbufs st' y = Some b \<and> seg_ok b" if y: "y \<in> set (hs @ ts)" for y
  proof -
    obtain b where b: "mbufs st y = Some b" "seg_ok b" using y ok unfolding pkt_ok_def set_append by blast
    with h t l f g e fh show ?thesis
      by (cases "y = tm"; cases "y = hm"; cases "y = last hs"; cases "hm = last hs") (simp_all add: seg_ok_def)
  qed
  have ch: "chain (mbufs st') hm (hs @ ts)"
    by (rule chain_link [where h = "mbufs st" and tm = tm]) (use ok dis ne nx nxl in \<open>auto simp: pkt_ok_def\<close>)
  have n: "unat (nb_segs h) = length hs" "unat (nb_segs t) = length ts" "unat (pkt_len h) = total_len st hs" "unat (pkt_len t) = total_len st ts"
    using ok h t by (auto simp: pkt_ok_def)
  then have nb: "unat (nb_segs h + nb_segs t) = length hs + length ts" using bound by (intro trans [OF unat_plus_simple]) simp_all
  have "total_len st hs + total_len st ts < 2 ^ 32"
    using total_len_bound [of st hs] total_len_bound [of st ts] bound by simp
  then have pl: "unat (pkt_len h + pkt_len t) = total_len st hs + total_len st ts"
    using n by (intro trans [OF unat_plus_simple]) simp_all
  obtain b where "mbufs st' hm = Some b" "nb_segs b = nb_segs h + nb_segs t" "pkt_len b = pkt_len h + pkt_len t"
    using e g ne by simp
  then have "\<exists>b. mbufs st' hm = Some b \<and> unat (nb_segs b) = length (hs @ ts) \<and> unat (pkt_len b) = total_len st' (hs @ ts)"
    using nb pl tot by simp
  moreover have "hs @ ts \<noteq> []" "distinct (hs @ ts)" using ok dis by (auto simp: pkt_ok_def)
  ultimately show "pkt_ok st' hm (hs @ ts)" unfolding pkt_ok_def using ch so by blast
  show "total_len st' (hs @ ts) = total_len st hs + total_len st ts" by (rule tot)
qed

text \<open>
  C35: chaining two disjoint well-formed packets. If they have at most 65535 segments together,
  \<^verbatim>\<open>rte_pktmbuf_chain\<close> succeeds and the head is a well-formed packet of the segments of both, in
  order, whose length is the sum of both lengths; otherwise it fails with EOVERFLOW and changes
  nothing.
\<close>

theorem chain_packets:
  assumes ok: "pkt_ok st hm hs" "pkt_ok st tm ts" and dis: "set hs \<inter> set ts = {}"
  shows "if length hs + length ts \<le> 65535
    then \<exists>st'. rte_pktmbuf_chain hm tm st = Some (st', 0) \<and> pkt_ok st' hm (hs @ ts) \<and>
      total_len st' (hs @ ts) = total_len st hs + total_len st ts
    else rte_pktmbuf_chain hm tm st = Some (st, - errno_code EOVERFLOW)"
proof -
  obtain h l where h: "mbufs st hm = Some h" "mbufs st (last hs) = Some l" "rte_pktmbuf_lastseg st hm = Some (last hs)"
      "unat (nb_segs h) = length hs" using pkt_ok_last [OF ok(1)] by blast
  obtain t where t: "mbufs st tm = Some t" "unat (nb_segs t) = length ts" using pkt_ok_last [OF ok(2)] by blast
  show ?thesis
  proof (cases "length hs + length ts \<le> 65535")
    case True
    have ne: "hm \<noteq> tm" "last hs \<noteq> tm"
      using dis pkt_ok_head [OF ok(1)] pkt_ok_head [OF ok(2)] last_in_set [of hs] by auto
    define f where f: "f = (mbufs st)(last hs \<mapsto> l\<lparr>nxt := tm\<rparr>)"
    define g where g: "g = f(hm \<mapsto> (the (f hm))\<lparr>nb_segs := nb_segs h + nb_segs t, pkt_len := pkt_len h + pkt_len t\<rparr>)"
    let ?st = "st\<lparr>mbufs := g(tm \<mapsto> t\<lparr>pkt_len := ucast (data_len t)\<rparr>)\<rparr>"
    have "rte_pktmbuf_chain hm tm st = Some (?st, 0)"
      using h t ne True f g by (auto simp: rte_pktmbuf_chain_def with_mbuf_def RTE_MBUF_MAX_NB_SEGS_def)
    with True pkt_ok_chain_heap [OF ok dis h(1) t(1) h(2) True f g, of ?st] show ?thesis by simp
  qed (use h t in \<open>simp add: rte_pktmbuf_chain_def RTE_MBUF_MAX_NB_SEGS_def\<close>)
qed

theorem chain_packets_witness:
  "\<exists>st'. rte_pktmbuf_chain 0x1000 0x3000 ex_heap = Some (st', 0) \<and> pkt_ok st' 0x1000 [0x1000, 0x2000, 0x3000] \<and>
      total_len st' [0x1000, 0x2000, 0x3000] = 200"
  using chain_packets [OF ex_heap_ok] by (simp add: ex_heap_def ex_mbuf_def total_len_def)

section \<open>Bulk allocation\<close>

text \<open>The reference for Duff's device: every buffer of the array is reset, in order.\<close>

fun reset_all :: "addr list \<Rightarrow> mbuf_heap \<Rightarrow> mbuf_heap option" where
  "reset_all [] st = Some st"
| "reset_all (m # ms) st = do { st \<leftarrow> with_mbuf m rte_pktmbuf_reset st; reset_all ms st }"

declare duff_loop.simps [simp del]

lemma reset_at_drop:
  "idx < length ms \<Longrightarrow> reset_all (drop idx ms) st = do { st \<leftarrow> reset_at ms idx st; reset_all (drop (Suc idx) ms) st }"
  by (simp add: reset_at_def Cons_nth_drop_Suc [symmetric])

lemma duff_loop_eq:
  assumes "idx + 4 * k = length ms"
  shows "duff_loop ms idx (length ms) = reset_all (drop idx ms)"
  using assms
proof (induction k arbitrary: idx)
  case 0
  then show ?case by (intro ext, subst duff_loop.simps) simp
next
  case (Suc k)
  then have len: "idx \<noteq> length ms" "idx + 4 \<le> length ms" by simp_all
  have IH: "duff_loop ms (Suc (Suc (Suc (Suc idx)))) (length ms) = reset_all (drop (Suc (Suc (Suc (Suc idx)))) ms)"
    using Suc.IH [of "idx + 4"] Suc.prems by (simp add: eval_nat_numeral)
  show ?case
    using len by (intro ext, subst duff_loop.simps) (simp add: reset_at_drop IH eval_nat_numeral)
qed

lemma reset_all_1:
  "1 \<le> length ms \<Longrightarrow> reset_all ms st = do { st \<leftarrow> reset_at ms 0 st; reset_all (drop 1 ms) st }"
  using reset_at_drop [of 0 ms st] by (cases ms) simp_all

lemma reset_all_2:
  "2 \<le> length ms \<Longrightarrow>
    reset_all ms st = do { st \<leftarrow> reset_at ms 0 st; st \<leftarrow> reset_at ms 1 st; reset_all (drop 2 ms) st }"
  using reset_all_1 [of ms] by (simp add: reset_at_drop eval_nat_numeral)

lemma reset_all_3:
  "3 \<le> length ms \<Longrightarrow>
    reset_all ms st = do { st \<leftarrow> reset_at ms 0 st; st \<leftarrow> reset_at ms 1 st; st \<leftarrow> reset_at ms 2 st; reset_all (drop 3 ms) st }"
  using reset_all_2 [of ms] by (simp add: reset_at_drop eval_nat_numeral)

text \<open>
  Duff's device in \<^verbatim>\<open>rte_pktmbuf_alloc_bulk\<close>, with its jump into the middle of the
  unrolled loop, resets every buffer of the array exactly once and in order, for every count.
\<close>

theorem duff_reset_eq: "duff_reset ms (length ms) st = reset_all ms st"
proof -
  have d: "length ms mod 4 + 4 * (length ms div 4) = length ms" by simp
  have dl: "duff_loop ms k (length ms) = reset_all (drop k ms)" if "length ms mod 4 = k" for k
    using duff_loop_eq [of k "length ms div 4" ms] d that by simp
  consider "length ms mod 4 = 0" | "length ms mod 4 = 1" | "length ms mod 4 = 2" | "length ms mod 4 = 3" by linarith
  then show ?thesis
  proof cases
    case 1
    then show ?thesis by (simp add: duff_reset_def dl)
  next
    case 2
    then have "1 \<le> length ms" by presburger
    from 2 reset_all_1 [OF this] show ?thesis by (simp add: duff_reset_def dl del: One_nat_def)
  next
    case 3
    then have "2 \<le> length ms" by presburger
    from 3 reset_all_2 [OF this] show ?thesis by (simp add: duff_reset_def dl del: One_nat_def)
  next
    case 4
    then have "3 \<le> length ms" by presburger
    from 4 reset_all_3 [OF this] show ?thesis by (simp add: duff_reset_def dl del: One_nat_def)
  qed
qed

section \<open>Freeing packets\<close>

text \<open>A segment nobody else refers to: a direct buffer of the pool with one reference.\<close>

definition sole_owner :: "addr \<Rightarrow> rte_mbuf \<Rightarrow> bool" where
  "sole_owner mp x \<longleftrightarrow> refcnt x = 1 \<and> RTE_MBUF_DIRECT x \<and> pool x = mp"

context mempool_driver
begin

lemma free_seg_returns:
  assumes x: "mbufs st m = Some x" "sole_owner mp x" and p: "pools st mp = Some p" "pool_ok pinv p"
    and room: "size (pool_total bag p) + 1 \<le> cap p"
  shows "\<exists>p'. rte_pktmbuf_free_seg tbl lcore m st =
      Some (st\<lparr>mbufs := (mbufs st)(m \<mapsto> unlink_seg x), pools := (pools st)(mp \<mapsto> p')\<rparr>) \<and>
    pool_ok pinv p' \<and> cap p' = cap p \<and> pool_total bag p' = add_mset m (pool_total bag p)"
proof -
  obtain p' where p': "rte_mempool_put_bulk tbl lcore p [m] 1 = Some p'" "pool_ok pinv p'" "cap p' = cap p"
      "pool_total bag p' = pool_total bag p + mset [m]"
    using put_bulk_conserves [of p "[m]" 1 lcore] p(2) room by auto
  have "pool (unlink_seg x) = mp" using x(2) by (simp add: sole_owner_def unlink_seg_def)
  with x p p'(1) have "rte_pktmbuf_free_seg tbl lcore m st =
      Some (st\<lparr>mbufs := (mbufs st)(m \<mapsto> unlink_seg x), pools := (pools st)(mp \<mapsto> p')\<rparr>)"
    by (simp add: rte_pktmbuf_free_seg_def rte_pktmbuf_prefree_seg_def sole_owner_def with_mbuf_def
        rte_mbuf_raw_free_def rte_mempool_put_def)
  with p' show ?thesis by (intro exI [of _ p']) simp
qed

lemma free_returns:
  assumes "chain (mbufs st) m ms" "distinct ms" "\<forall>x \<in> set ms. \<exists>b. mbufs st x = Some b \<and> sole_owner mp b"
    and "pools st mp = Some p" "pool_ok pinv p" "size (pool_total bag p) + length ms \<le> cap p"
  shows "\<exists>st' p'. rte_pktmbuf_free tbl lcore m st = Some st' \<and> pools st' mp = Some p' \<and> pool_ok pinv p' \<and>
    pool_total bag p' = pool_total bag p + mset ms \<and> cap p' = cap p \<and>
    (\<forall>x \<in> set ms. \<exists>b. mbufs st' x = Some b \<and> nxt b = NULL \<and> refcnt b = 1) \<and>
    (\<forall>x. x \<notin> set ms \<longrightarrow> mbufs st' x = mbufs st x)"
  using assms
proof (induction ms arbitrary: m st p)
  case Nil
  then show ?case by (subst rte_pktmbuf_free.simps) simp
next
  case (Cons y ys)
  then obtain b where b: "m = y" "m \<noteq> NULL" "mbufs st m = Some b" "chain (mbufs st) (nxt b) ys" "sole_owner mp b"
    by (auto simp: chain_Cons)
  have room: "size (pool_total bag p) + 1 \<le> cap p" using Cons.prems(6) by simp
  obtain p1 where p1: "rte_pktmbuf_free_seg tbl lcore m st =
        Some (st\<lparr>mbufs := (mbufs st)(m \<mapsto> unlink_seg b), pools := (pools st)(mp \<mapsto> p1)\<rparr>)" (is "_ = Some ?st")
      "pool_ok pinv p1" "cap p1 = cap p" "pool_total bag p1 = add_mset m (pool_total bag p)"
    using free_seg_returns [OF b(3,5) Cons.prems(4,5) room] by blast
  have fresh: "m \<notin> set ys" using Cons.prems(2) b(1) by simp
  have ch: "chain (mbufs ?st) (nxt b) ys"
    using b(4) by (rule chain_cong) (use fresh in auto)
  have own: "\<forall>x \<in> set ys. \<exists>b. mbufs ?st x = Some b \<and> sole_owner mp b" using Cons.prems(3) fresh by auto
  have "pools ?st mp = Some p1" "size (pool_total bag p1) + length ys \<le> cap p1" "distinct ys"
    using p1(3,4) Cons.prems(2,6) by simp_all
  then obtain st' p' where IH: "rte_pktmbuf_free tbl lcore (nxt b) ?st = Some st'" "pools st' mp = Some p'" "pool_ok pinv p'"
      "pool_total bag p' = pool_total bag p1 + mset ys" "cap p' = cap p1"
      "\<forall>x \<in> set ys. \<exists>b. mbufs st' x = Some b \<and> nxt b = NULL \<and> refcnt b = 1"
      "\<forall>x. x \<notin> set ys \<longrightarrow> mbufs st' x = mbufs ?st x"
    using Cons.IH [OF ch _ own _ p1(2)] by blast
  have "rte_pktmbuf_free tbl lcore m st = Some st'"
    using b p1(1) IH(1) by (subst rte_pktmbuf_free.simps) simp
  moreover have "mbufs st' m = Some (unlink_seg b)" using IH(7) fresh by simp
  moreover have "nxt (unlink_seg b) = NULL" "refcnt (unlink_seg b) = 1" using b(5) by (simp_all add: unlink_seg_def sole_owner_def)
  ultimately show ?case using IH p1 b(1) by auto
qed

end

text \<open>
  C27: freeing a packet of a ring pool whose segments nobody else refers to.
  \<^verbatim>\<open>rte_pktmbuf_free\<close> ends, returns every segment to the pool exactly once, and leaves each of
  them unlinked with one reference, the state a freshly allocated buffer has; no other buffer
  changes.
\<close>

theorem free_packet:
  assumes "chain (mbufs st) m ms" "distinct ms" "\<forall>x \<in> set ms. \<exists>b. mbufs st x = Some b \<and> sole_owner mp b"
    and "pools st mp = Some p" "pool_ok ring_pool_inv p" "size (pool_total ring_pool_bag p) + length ms \<le> ring_pool_cap p"
  shows "\<exists>st' p'. rte_pktmbuf_free ops_table lcore m st = Some st' \<and> pools st' mp = Some p' \<and> pool_ok ring_pool_inv p' \<and>
    pool_total ring_pool_bag p' = pool_total ring_pool_bag p + mset ms \<and>
    (\<forall>x \<in> set ms. \<exists>b. mbufs st' x = Some b \<and> nxt b = NULL \<and> refcnt b = 1) \<and>
    (\<forall>x. x \<notin> set ms \<longrightarrow> mbufs st' x = mbufs st x)"
  using ringpool.free_returns [OF assms] by blast

theorem free_packet_witness:
  "\<exists>st' p'. rte_pktmbuf_free ops_table 0 0x1000 (ex_heap\<lparr>pools := [0x100 \<mapsto> demo_pool 0 (PoolRing 0x2000 pool_ring4) 0]\<rparr>) = Some st' \<and>
    pools st' 0x100 = Some p' \<and> pool_total ring_pool_bag p' = {#0x1000, 0x2000#}"
proof -
  let ?p = "demo_pool 0 (PoolRing 0x2000 pool_ring4) 0"
  let ?st = "ex_heap\<lparr>pools := [0x100 \<mapsto> ?p]\<rparr>"
  have "chain (mbufs ?st) 0x1000 [0x1000, 0x2000]" "\<forall>x \<in> set [0x1000, 0x2000]. \<exists>b. mbufs ?st x = Some b \<and> sole_owner 0x100 b"
    by (simp_all add: ex_heap_def ex_mbuf_def chain_Cons sole_owner_def RTE_MBUF_DIRECT_def)
  moreover have "pool_ok ring_pool_inv ?p" "pool_total ring_pool_bag ?p = {#}" "ring_pool_cap ?p = 3"
    by (simp_all add: pool_ok_def pool_total_def demo_ring_pool demo_caches_ok)
  ultimately show ?thesis
    using free_packet [of ?st "0x1000" "[0x1000, 0x2000]" "0x100" ?p 0] by auto
qed

section \<open>Reading packet data\<close>

definition region :: "addr \<Rightarrow> nat \<Rightarrow> addr set" where
  "region a n = (\<lambda>i. a + of_nat i) ` {..<n}"

definition seg_bytes :: "(addr \<Rightarrow> u8) \<Rightarrow> rte_mbuf \<Rightarrow> u8 list" where
  "seg_bytes mem x = read_bytes mem (rte_pktmbuf_mtod_offset x 0) (unat (data_len x))"

definition seg_region :: "rte_mbuf \<Rightarrow> addr set" where
  "seg_region x = region (rte_pktmbuf_mtod_offset x 0) (unat (data_len x))"

text \<open>The data of a packet is the data of its segments, one after the other.\<close>

definition pkt_bytes :: "mbuf_heap \<Rightarrow> addr list \<Rightarrow> u8 list" where
  "pkt_bytes st ms = concat (map (\<lambda>m. case mbufs st m of None \<Rightarrow> [] | Some x \<Rightarrow> seg_bytes (bytes st) x) ms)"

lemma length_read_bytes [simp]: "length (read_bytes mem a n) = n"
  by (simp add: read_bytes_def)

lemma length_pkt_bytes: "length (pkt_bytes st ms) = total_len st ms"
  by (induction ms) (simp_all add: pkt_bytes_def total_len_def seg_bytes_def split: option.split)

lemma pkt_bytes_append: "pkt_bytes st (xs @ ys) = pkt_bytes st xs @ pkt_bytes st ys"
  by (simp add: pkt_bytes_def)

lemma read_bytes_take_drop:
  "i + n \<le> k \<Longrightarrow> read_bytes mem (a + of_nat i) n = take n (drop i (read_bytes mem a k))"
  by (rule nth_equalityI) (simp_all add: read_bytes_def ac_simps)

lemma region_shift: "i + n \<le> k \<Longrightarrow> region (a + of_nat i) n \<subseteq> region a k"
proof
  fix x assume "i + n \<le> k" "x \<in> region (a + of_nat i) n"
  then obtain j where "j < n" "x = a + of_nat (i + j)" by (auto simp: region_def ac_simps)
  with \<open>i + n \<le> k\<close> show "x \<in> region a k" unfolding region_def by (intro image_eqI [of _ _ "i + j"]) simp_all
qed

lemma write_bytes_notin: "x \<notin> region a (length bs) \<Longrightarrow> write_bytes mem a bs x = mem x"
proof (induction bs arbitrary: mem a)
  case (Cons b bs)
  have "region (a + of_nat 1) (length bs) \<subseteq> region a (length (b # bs))" by (rule region_shift) simp
  then have "x \<notin> region (a + 1) (length bs)" using Cons.prems by auto
  moreover have "x \<noteq> a" using Cons.prems by (force simp: region_def)
  ultimately show ?case using Cons.IH [of "a + 1"] by simp
qed simp

lemma write_bytes_append: "write_bytes (write_bytes mem a xs) (a + of_nat (length xs)) ys = write_bytes mem a (xs @ ys)"
proof (induction xs arbitrary: mem a)
  case (Cons x xs)
  have "a + of_nat (length (x # xs)) = a + 1 + of_nat (length xs)" by (simp add: add.assoc)
  then show ?case using Cons.IH [where mem = "mem(a := x)" and a = "a + 1"] by (simp only: write_bytes.simps append_Cons)
qed simp

lemma read_write_bytes:
  assumes "length bs \<le> 2 ^ 64"
  shows "read_bytes (write_bytes mem a bs) a (length bs) = bs"
  using assms
proof (induction bs rule: rev_induct)
  case (snoc b bs)
  have w: "write_bytes mem a (bs @ [b]) = (write_bytes mem a bs)(a + of_nat (length bs) := b)"
    using write_bytes_append [of mem a bs "[b]"] by simp
  have "a + of_nat i \<noteq> a + of_nat (length bs)" if "i < length bs" for i
  proof
    assume "a + of_nat i = a + of_nat (length bs)"
    then have "unat (of_nat i :: addr) = unat (of_nat (length bs) :: addr)" by simp
    with that snoc.prems show False by (simp add: unat_of_nat_small)
  qed
  then have "read_bytes (write_bytes mem a (bs @ [b])) a (length bs) = read_bytes (write_bytes mem a bs) a (length bs)"
    unfolding read_bytes_def w by simp
  with snoc show ?case by (simp add: read_bytes_def w)
qed (simp add: read_bytes_def)

lemma pkt_bytes_write:
  assumes "\<forall>m \<in> set ms. \<forall>x. mbufs st m = Some x \<longrightarrow> region a (length bs) \<inter> seg_region x = {}"
  shows "pkt_bytes (st\<lparr>bytes := write_bytes (bytes st) a bs\<rparr>) ms = pkt_bytes st ms"
proof -
  have "seg_bytes (write_bytes (bytes st) a bs) x = seg_bytes (bytes st) x" if "m \<in> set ms" "mbufs st m = Some x" for m x
  proof -
    have "region a (length bs) \<inter> seg_region x = {}" using assms that by blast
    then show ?thesis
      by (auto simp: seg_bytes_def read_bytes_def seg_region_def region_def intro!: write_bytes_notin)
  qed
  then show ?thesis unfolding pkt_bytes_def
    by (intro arg_cong [of _ _ concat] map_cong) (auto split: option.split)
qed

text \<open>The destination does not overlap the data of the packet.\<close>

definition buf_apart :: "mbuf_heap \<Rightarrow> addr list \<Rightarrow> addr \<Rightarrow> nat \<Rightarrow> bool" where
  "buf_apart st ms buf n \<longleftrightarrow> (\<forall>m \<in> set ms. \<forall>x. mbufs st m = Some x \<longrightarrow> region buf n \<inter> seg_region x = {})"

lemma buf_apart_sub:
  "buf_apart st ms buf n \<Longrightarrow> i + k \<le> n \<Longrightarrow> set ms' \<subseteq> set ms \<Longrightarrow> buf_apart st ms' (buf + of_nat i) k"
  using region_shift [of i k n buf] unfolding buf_apart_def by blast

lemma read_seg_part:
  assumes "unat off + n \<le> unat (data_len x)"
  shows "read_bytes mem (rte_pktmbuf_mtod_offset x (ucast (off :: u32))) n = take n (drop (unat off) (seg_bytes mem x))"
proof -
  have "rte_pktmbuf_mtod_offset x (ucast off) = rte_pktmbuf_mtod_offset x 0 + of_nat (unat off)"
    by (simp add: rte_pktmbuf_mtod_offset_def)
  with read_bytes_take_drop [OF assms] show ?thesis by (simp add: seg_bytes_def)
qed

lemma pkt_bytes_Cons: "mbufs st m = Some x \<Longrightarrow> pkt_bytes st (m # ms) = seg_bytes (bytes st) x @ pkt_bytes st ms"
  by (simp add: pkt_bytes_def)

lemma length_seg_bytes [simp]: "length (seg_bytes mem x) = unat (data_len x)"
  by (simp add: seg_bytes_def)

text \<open>The copying loop writes exactly the requested part of the packet.\<close>

lemma read_copy_correct:
  assumes "chain (mbufs st) sg ms" "unat off + unat len \<le> length (pkt_bytes st ms)"
    and "\<forall>x. mbufs st sg = Some x \<longrightarrow> unat off \<le> unat (data_len x)"
    and "buf_apart st ms (buf + ucast bo) (unat len)" "unat bo + unat len < 2 ^ 32"
  shows "read_copy sg off len buf bo st =
    Some (st\<lparr>bytes := write_bytes (bytes st) (buf + ucast bo) (take (unat len) (drop (unat off) (pkt_bytes st ms)))\<rparr>)"
  using assms
proof (induction ms arbitrary: sg off len bo st)
  case Nil
  then have "len = 0" by (simp add: pkt_bytes_def unat_eq_zero)
  then show ?case by (subst read_copy.simps) simp
next
  case (Cons m ms)
  then obtain x where x: "mbufs st m = Some x" "sg = m" "chain (mbufs st) (nxt x) ms" by (auto simp: chain_Cons)
  show ?case
  proof (cases "len = 0")
    case True
    then show ?thesis by (subst read_copy.simps) simp
  next
    case False
    define d where "d = unat (data_len x)"
    have od: "unat off \<le> d" using Cons.prems(3) x by (simp add: d_def)
    define c where "c = (if ucast (data_len x) - off > len then len else ucast (data_len x) - off :: u32)"
    have "unat (ucast (data_len x) - off :: u32) = d - unat off"
      using od by (subst unat_sub_simple) (simp_all add: word_le_nat_alt d_def)
    then have c: "unat c = min (d - unat off) (unat len)" by (simp add: c_def word_less_nat_alt)
    define data where "data = take (unat c) (drop (unat off) (seg_bytes (bytes st) x))"
    define st1 where "st1 = st\<lparr>bytes := write_bytes (bytes st) (buf + ucast bo) data\<rparr>"
    have rd: "read_bytes (bytes st) (rte_pktmbuf_mtod_offset x (ucast off)) (unat c) = data"
      unfolding data_def by (rule read_seg_part) (use c od in \<open>simp add: d_def\<close>)
    have run: "read_copy sg off len buf bo st = read_copy (nxt x) 0 (len - c) buf (bo + c) st1"
      using False x rd by (subst read_copy.simps) (simp add: c_def st1_def Let_def del: write_bytes.simps)
    have ld: "length data = unat c" using c od by (simp add: data_def d_def)
    have lc: "unat (len - c) = unat len - unat c" using c by (intro unat_sub_simple) (simp add: word_le_nat_alt)
    have bc: "unat (bo + c) = unat bo + unat c" using c Cons.prems(5) by (intro unat_plus_simple) simp
    have ptr: "buf + ucast (bo + c) = buf + ucast bo + of_nat (unat c)"
    proof -
      have "(ucast (bo + c) :: u64) = of_nat (unat bo + unat c)" unfolding bc [symmetric] by simp
      then show ?thesis by (simp add: add.assoc)
    qed
    have "pkt_bytes st1 ms = pkt_bytes st ms" unfolding st1_def
      by (rule pkt_bytes_write) (use buf_apart_sub [OF Cons.prems(4), of 0 "unat c" ms] ld c in \<open>auto simp: buf_apart_def\<close>)
    moreover have "unat c + unat (len - c) \<le> unat len" using c lc by simp
    then have "buf_apart st ms (buf + ucast (bo + c)) (unat (len - c))"
      unfolding ptr by (rule buf_apart_sub [OF Cons.prems(4)]) auto
    then have "buf_apart st1 ms (buf + ucast (bo + c)) (unat (len - c))" by (simp add: buf_apart_def st1_def)
    moreover have "unat (len - c) \<le> length (pkt_bytes st ms)"
      using Cons.prems(2) c lc od pkt_bytes_Cons [OF x(1), of ms] by (simp add: d_def)
    ultimately have IH: "read_copy (nxt x) 0 (len - c) buf (bo + c) st1 = Some (st1\<lparr>bytes := write_bytes (bytes st1)
        (buf + ucast (bo + c)) (take (unat (len - c)) (pkt_bytes st ms))\<rparr>)"
      using Cons.IH [of st1 "nxt x" 0 "len - c" "bo + c"] x(3) lc bc c Cons.prems(5) by (simp add: st1_def)
    have "take (unat len) (drop (unat off) (pkt_bytes st (m # ms))) = data @ take (unat (len - c)) (pkt_bytes st ms)"
      using pkt_bytes_Cons [OF x(1), of ms] c lc od by (auto simp: data_def d_def min_def)
    then show ?thesis
      using run IH write_bytes_append [of "bytes st" "buf + ucast bo" data] ptr ld x(2) by (simp add: st1_def)
  qed
qed

lemma read_seek_correct:
  assumes "chain (mbufs st) m ms" "unat off < length (pkt_bytes st ms)"
  shows "\<exists>pre sg post off' y. ms = pre @ sg # post \<and> read_seek st m off = Some (sg, off') \<and>
    chain (mbufs st) sg (sg # post) \<and> mbufs st sg = Some y \<and> unat off' < unat (data_len y) \<and>
    unat off = length (pkt_bytes st pre) + unat off'"
  using assms
proof (induction ms arbitrary: m off)
  case Nil
  then show ?case by (simp add: pkt_bytes_def)
next
  case (Cons z ms)
  then obtain x where x: "mbufs st m = Some x" "m = z" "chain (mbufs st) (nxt x) ms" by (auto simp: chain_Cons)
  show ?case
  proof (cases "unat off < unat (data_len x)")
    case True
    then have "read_seek st m off = Some (z, off)"
      using x by (subst read_seek.simps) (simp add: word_le_nat_alt)
    with True x Cons.prems(1) show ?thesis by (intro exI [of _ "[]"]) (simp add: pkt_bytes_def)
  next
    case False
    then have sub: "unat (off - ucast (data_len x)) = unat off - unat (data_len x)"
      by (subst unat_sub_simple) (simp_all add: word_le_nat_alt)
    have step: "read_seek st m off = read_seek st (nxt x) (off - ucast (data_len x))"
      using x False by (subst read_seek.simps) (simp add: word_le_nat_alt)
    have b: "pkt_bytes st (z # ys) = seg_bytes (bytes st) x @ pkt_bytes st ys" for ys
      using x by (intro pkt_bytes_Cons) simp
    have "unat (off - ucast (data_len x)) < length (pkt_bytes st ms)" using Cons.prems(2) b [of ms] sub False by simp
    from Cons.IH [OF x(3) this] obtain pre sg post off' y where IH: "ms = pre @ sg # post"
        "read_seek st (nxt x) (off - ucast (data_len x)) = Some (sg, off')" "chain (mbufs st) sg (sg # post)"
        "mbufs st sg = Some y" "unat off' < unat (data_len y)"
        "unat (off - ucast (data_len x)) = length (pkt_bytes st pre) + unat off'" by blast
    have "z # ms = (z # pre) @ sg # post" "unat off = length (pkt_bytes st (z # pre)) + unat off'"
      using IH(1,6) b [of pre] sub False by simp_all
    with IH step show ?thesis by (metis (no_types, lifting))
  qed
qed

lemma read_slow_correct:
  assumes ch: "chain (mbufs st) m ms" and h: "mbufs st m = Some h" "unat (pkt_len h) = total_len st ms"
    and len: "0 < len" "unat off + unat len \<le> total_len st ms" and ap: "buf_apart st ms buf (unat len)"
  shows "\<exists>st' a. rte_pktmbuf_read_slow m off len buf st = Some (st', Some a) \<and>
    read_bytes (bytes st') a (unat len) = take (unat len) (drop (unat off) (pkt_bytes st ms))"
proof -
  have l0: "0 < unat len" using len(1) by (simp add: word_less_nat_alt)
  have b32: "total_len st ms < 2 ^ 32" using h(2) unat_lt_2p [of "pkt_len h"] by simp
  have "unat off < length (pkt_bytes st ms)" using l0 len(2) by (simp add: length_pkt_bytes)
  from read_seek_correct [OF ch this] obtain pre sg post off' y where s: "ms = pre @ sg # post"
      "read_seek st m off = Some (sg, off')" "chain (mbufs st) sg (sg # post)" "mbufs st sg = Some y"
      "unat off' < unat (data_len y)" "unat off = length (pkt_bytes st pre) + unat off'" by blast
  have data: "drop (unat off) (pkt_bytes st ms) = drop (unat off') (pkt_bytes st (sg # post))"
    using s(1,6) by (simp add: pkt_bytes_append)
  have lim: "unat off' + unat len \<le> length (pkt_bytes st (sg # post))"
    using s(1,6) len(2) by (simp add: length_pkt_bytes [symmetric] pkt_bytes_append)
  have sum: "unat (off + len) = unat off + unat len" "unat (off' + len) = unat off' + unat len"
    using s(6) len(2) b32 by (intro unat_plus_simple; simp)+
  have enter: "\<not> pkt_len h < off + len" using sum(1) len(2) h(2) by (simp add: word_less_nat_alt)
  show ?thesis
  proof (cases "off' + len \<le> ucast (data_len y)")
    case True
    then have "unat off' + unat len \<le> unat (data_len y)" using sum(2) by (simp add: word_le_nat_alt)
    with True read_seg_part [OF this, of "bytes st"] s data enter h pkt_bytes_Cons [OF s(4), of post]
    show ?thesis by (simp add: rte_pktmbuf_read_slow_def)
  next
    case False
    let ?data = "take (unat len) (drop (unat off') (pkt_bytes st (sg # post)))"
    have "buf_apart st (sg # post) (buf + ucast (0 :: u32)) (unat len)"
      using buf_apart_sub [OF ap, of 0 "unat len" "sg # post"] s(1) by auto
    then have "read_copy sg off' len buf 0 st = Some (st\<lparr>bytes := write_bytes (bytes st) buf ?data\<rparr>)"
      using read_copy_correct [OF s(3) lim, of buf 0] s(4,5) unat_lt_2p [of len] by simp
    moreover have "read_bytes (write_bytes (bytes st) buf ?data) buf (unat len) = ?data"
    proof -
      have "length ?data = unat len" using lim by simp
      with read_write_bytes [of ?data "bytes st" buf] unat_lt_2p [of len] show ?thesis by simp
    qed
    ultimately show ?thesis using False s enter h data by (simp add: rte_pktmbuf_read_slow_def)
  qed
qed

text \<open>
  C28: reading from a well-formed packet. When the requested range is not empty and lies inside the
  packet, and the buffer for the copy does not overlap the data of the packet,
  \<^verbatim>\<open>rte_pktmbuf_read\<close> returns an address where exactly the bytes of that range of the packet
  are, whether they lie in the first segment, in a later one or across several.
\<close>

theorem read_packet:
  assumes ok: "pkt_ok st m ms" and len: "0 < len" "unat off + unat len \<le> total_len st ms"
    and ap: "buf_apart st ms buf (unat len)"
  shows "\<exists>st' a. rte_pktmbuf_read m off len buf st = Some (st', Some a) \<and>
    read_bytes (bytes st') a (unat len) = take (unat len) (drop (unat off) (pkt_bytes st ms))"
proof -
  obtain h where h: "mbufs st m = Some h" "unat (pkt_len h) = total_len st ms" "chain (mbufs st) m ms"
    using ok by (auto simp: pkt_ok_def)
  obtain xs where xs: "ms = m # xs" using pkt_ok_head [OF ok] by blast
  have "unat off + unat len < 2 ^ 32" using h(2) len(2) unat_lt_2p [of "pkt_len h"] by simp
  then have sum: "unat (off + len) = unat off + unat len" by (intro unat_plus_simple) simp
  show ?thesis
  proof (cases "off + len \<le> ucast (data_len h)")
    case True
    then have "unat off + unat len \<le> unat (data_len h)" using sum by (simp add: word_le_nat_alt)
    with True read_seg_part [OF this, of "bytes st"] h(1) xs pkt_bytes_Cons [OF h(1), of xs]
    show ?thesis by (simp add: rte_pktmbuf_read_def)
  next
    case False
    with read_slow_correct [OF h(3,1,2) len ap] h(1) show ?thesis by (simp add: rte_pktmbuf_read_def)
  qed
qed

theorem read_packet_witness:
  "\<exists>st' a. rte_pktmbuf_read 0x1000 90 20 0x8000 ex_heap = Some (st', Some a) \<and>
    read_bytes (bytes st') a 20 = take 20 (drop 90 (pkt_bytes ex_heap [0x1000, 0x2000]))"
proof -
  have apart: "region b 20 \<inter> region a n = {}" if "unat a + n \<le> unat b" "unat b + 20 < 2 ^ 64" for a b :: addr and n
    using that by (auto simp: region_def word_unat_eq_iff unat_plus_simple unat_of_nat_small)
  have "buf_apart ex_heap [0x1000, 0x2000] 0x8000 20"
    by (simp add: buf_apart_def ex_heap_def ex_mbuf_def seg_region_def rte_pktmbuf_mtod_offset_def apart)
  then show ?thesis
    using read_packet [OF ex_heap_ok(1), of 20 90 "0x8000"] by (simp add: total_len_def ex_heap_def ex_mbuf_def)
qed

text \<open>
  The end of the requested range is computed in 32 bits. A read of one byte at offset
  \<open>2 ^ 32 - 1\<close> of any buffer passes the test of the fast path, since the sum is 0, and returns an
  address 4 GB behind the data instead of NULL.
\<close>

theorem read_overflow:
  assumes "mbufs st m = Some x"
  shows "rte_pktmbuf_read m 0xFFFFFFFF 1 buf st = Some (st, Some (buf_addr x + ucast (data_off x) + 0xFFFFFFFF))"
proof -
  have "(0x100000000 :: u32) \<le> w" for w by (simp add: word_le_nat_alt)
  with assms show ?thesis by (simp add: rte_pktmbuf_read_def rte_pktmbuf_mtod_offset_def)
qed

theorem read_overflow_witness:
  "rte_pktmbuf_read 0x3000 0xFFFFFFFF 1 0x8000 ex_heap = Some (ex_heap, Some 0x1000033BF)"
  using read_overflow [of ex_heap "0x3000" "ex_mbuf 0x3000 40" "0x8000"] by (simp add: ex_heap_def ex_mbuf_def)

end
