(* ===== verification/Slice.thy ===== *)
theory Slice
  imports Prelude
begin

text \<open>
  Model of \<^verbatim>\<open>lib/librte_slice/rte_slice.h\<close>: the Haswell complex-addressing hash that maps a
  physical address to one of eight last-level-cache slices, and the search for the next cache
  line that belongs to a wanted slice. The hash is linear over XOR, so inside a 512-byte block
  the eight lines meet the eight slices exactly once; that is what bounds the search.
\<close>

section \<open>The slice hash\<close>

text \<open>The number of one bits; \<^verbatim>\<open>__builtin_parityll\<close> is its parity.\<close>

definition popcount :: "'a::len word \<Rightarrow> nat" where
  "popcount w = length (filter (bit w) [0..<LENGTH('a)])"

definition rte_xorall64 :: "u64 \<Rightarrow> u64" where
  "rte_xorall64 ma = of_bool (odd (popcount ma))"

definition hash_0 :: u64 where
  "hash_0 = 0x1B5F575440"

definition hash_1 :: u64 where
  "hash_1 = 0x2EB5FAA880"

definition hash_2 :: u64 where
  "hash_2 = 0x3CCCC93100"

definition calculateSlice_HF_haswell :: "u64 \<Rightarrow> u8" where
  "calculateSlice_HF_haswell pa =
     (let sliceNum = (0 :: u8);
          sliceNum = (ucast (push_bit 1 (ucast sliceNum :: u64) OR rte_xorall64 (pa AND hash_2)) :: u8);
          sliceNum = (ucast (push_bit 1 (ucast sliceNum :: u64) OR rte_xorall64 (pa AND hash_1)) :: u8);
          sliceNum = (ucast (push_bit 1 (ucast sliceNum :: u64) OR rte_xorall64 (pa AND hash_0)) :: u8)
      in sliceNum)"

section \<open>The search for a line of a slice\<close>

definition LINE :: u16 where
  "LINE = 64"

text \<open>
  The loop \<^verbatim>\<open>while (desiredSlice != slice(pa + offset)) offset += LINE\<close>, over any slice
  function. The offset is a \<^verbatim>\<open>uint16_t\<close> and wraps, so the loop may run forever: that is
  \<^term>\<open>None\<close>.
\<close>

partial_function (option) line_search :: "(u64 \<Rightarrow> u8) \<Rightarrow> u64 \<Rightarrow> u8 \<Rightarrow> u16 \<Rightarrow> u16 option" where
  "line_search calc pa desiredSlice offset =
     (if desiredSlice \<noteq> calc (pa + ucast offset)
      then line_search calc pa desiredSlice (offset + LINE)
      else Some offset)"

definition sliceFinder_HF_haswell :: "u64 \<Rightarrow> u8 \<Rightarrow> u16 option" where
  "sliceFinder_HF_haswell pa desiredSlice = line_search calculateSlice_HF_haswell pa desiredSlice 0"

section \<open>Cache set indexes\<close>

definition L1_INDEX :: u64 where
  "L1_INDEX = 0xFC0"

definition L2_INDEX :: u64 where
  "L2_INDEX = 0x7FC0"

definition L3_INDEX_PER_SLICE :: u64 where
  "L3_INDEX_PER_SLICE = 0x1FFC0"

definition L2_INDEX_STRIDE :: u64 where
  "L2_INDEX_STRIDE = 0x8000"

definition L3_INDEX_STRIDE :: u64 where
  "L3_INDEX_STRIDE = 0x20000"

text \<open>\<^verbatim>\<open>exit(EXIT_FAILURE)\<close> on an unknown cache level is \<^term>\<open>None\<close>.\<close>

definition indexCalculator :: "u64 \<Rightarrow> int \<Rightarrow> u64 option" where
  "indexCalculator addr_in cacheLevel =
     (if cacheLevel = 1 then Some (drop_bit 6 (addr_in AND L1_INDEX))
      else if cacheLevel = 2 then Some (drop_bit 6 (addr_in AND L2_INDEX))
      else if cacheLevel = 3 then Some (drop_bit 6 (addr_in AND L3_INDEX_PER_SLICE))
      else None)"

section \<open>Linearity of the hash\<close>

lemma popcount_card: "popcount (w :: 'a::len word) = card {n. bit w n}"
proof -
  have "{n. bit w n} = set (filter (bit w) [0..<LENGTH('a)])"
    by (auto dest: bit_imp_le_length)
  then have "card {n. bit w n} = card (set (filter (bit w) [0..<LENGTH('a)]))" by simp
  also have "\<dots> = length (filter (bit w) [0..<LENGTH('a)])"
    by (intro distinct_card) simp
  finally show ?thesis by (simp add: popcount_def)
qed

lemma odd_popcount_xor:
  "odd (popcount (a XOR b)) \<longleftrightarrow> odd (popcount a) \<noteq> odd (popcount (b :: 'a::len word))"
proof -
  let ?A = "{n. bit a n}" and ?B = "{n. bit b n}"
  have fin: "finite ?A" "finite ?B" by simp_all
  have eq: "{n. bit (a XOR b) n} = (?A - ?B) \<union> (?B - ?A)" by (auto simp: bit_simps)
  have "card ((?A - ?B) \<union> (?B - ?A)) = card (?A - ?B) + card (?B - ?A)"
    using fin by (intro card_Un_disjoint) auto
  moreover have "card ?A = card (?A - ?B) + card (?A \<inter> ?B)"
    using fin by (metis Int_Diff_Un Int_Diff_disjoint add.commute card_Un_disjoint finite_Diff finite_Int)
  moreover have "card ?B = card (?B - ?A) + card (?A \<inter> ?B)"
    using fin by (metis Int_Diff_Un Int_Diff_disjoint Int_commute add.commute card_Un_disjoint finite_Diff finite_Int)
  ultimately show ?thesis
    unfolding popcount_card eq by presburger
qed

definition slice_bits :: "bool \<Rightarrow> bool \<Rightarrow> bool \<Rightarrow> u8" where
  "slice_bits p2 p1 p0 = of_bool p2 * 4 + of_bool p1 * 2 + of_bool p0"

lemma calculateSlice_bits:
  "calculateSlice_HF_haswell pa =
     slice_bits (odd (popcount (pa AND hash_2))) (odd (popcount (pa AND hash_1)))
       (odd (popcount (pa AND hash_0)))"
  unfolding calculateSlice_HF_haswell_def rte_xorall64_def Let_def slice_bits_def
  by (cases "odd (popcount (pa AND hash_2))"; cases "odd (popcount (pa AND hash_1))";
      cases "odd (popcount (pa AND hash_0))") simp_all

lemma slice_bits_xor:
  "slice_bits a b c XOR slice_bits a' b' c' = slice_bits (a \<noteq> a') (b \<noteq> b') (c \<noteq> c')"
  unfolding slice_bits_def by (cases a; cases a'; cases b; cases b'; cases c; cases c') simp_all

lemma calculateSlice_xor:
  "calculateSlice_HF_haswell (a XOR b) = calculateSlice_HF_haswell a XOR calculateSlice_HF_haswell b"
  by (simp add: calculateSlice_bits slice_bits_xor bit.conj_xor_distrib2 odd_popcount_xor)

lemma slice_lt_8: "calculateSlice_HF_haswell pa < 8"
  unfolding calculateSlice_bits slice_bits_def
  by (cases "odd (popcount (pa AND hash_2))"; cases "odd (popcount (pa AND hash_1))";
      cases "odd (popcount (pa AND hash_0))") simp_all


lemma popcount_and_single:
  "n < LENGTH('a) \<Longrightarrow> odd (popcount (w AND 2 ^ n :: 'a::len word)) = bit w n"
proof -
  assume n: "n < LENGTH('a)"
  have "{i. bit (w AND 2 ^ n) i} = (if bit w n then {n} else {})"
    using n by (auto simp: bit_simps)
  then show ?thesis by (simp add: popcount_card)
qed

lemma bit_slice_bits:
  assumes "n < 8"
  shows "bit (slice_bits p2 p1 p0) n \<longleftrightarrow> n = 2 \<and> p2 \<or> n = 1 \<and> p1 \<or> n = 0 \<and> p0"
proof -
  have "n \<in> {0, 1, 2, 3, 4, 5, 6, 7}" using assms by auto
  then show ?thesis
    unfolding slice_bits_def by (cases p2; cases p1; cases p0) auto
qed

lemma slice_below_512:
  assumes "unat x < 512"
  shows "calculateSlice_HF_haswell x = ucast (drop_bit 6 x)"
proof -
  have x: "x = x AND mask 9" using assms by (intro word_eq_and_mask) simp
  have "x AND hash_0 = x AND (mask 9 AND hash_0)" "x AND hash_1 = x AND (mask 9 AND hash_1)"
     "x AND hash_2 = x AND (mask 9 AND hash_2)"
    using x by (metis and.assoc)+
  then have h: "x AND hash_0 = x AND 2 ^ 6" "x AND hash_1 = x AND 2 ^ 7" "x AND hash_2 = x AND 2 ^ 8"
    by (simp_all add: hash_0_def hash_1_def hash_2_def mask_eq_exp_minus_1)
  have hi: "\<not> bit x n" if "9 \<le> n" for n
    using that by (subst x) (simp add: bit_simps)
  have "ucast (drop_bit 6 x) = slice_bits (bit x 8) (bit x 7) (bit x 6)"
  proof (rule bit_word_eqI)
    fix n assume "n < LENGTH(8)"
    then have "n < 8" by simp
    then show "bit (ucast (drop_bit 6 x) :: u8) n = bit (slice_bits (bit x 8) (bit x 7) (bit x 6)) n"
      using hi [of "6 + n"]
      by (cases "3 \<le> n") (auto simp: bit_simps bit_slice_bits numeral_eq_Suc less_Suc_eq)
  qed
  then show ?thesis
    by (simp only: calculateSlice_bits h popcount_and_single)
      (simp add: popcount_and_single [of 6 x, simplified] popcount_and_single [of 7 x, simplified]
        popcount_and_single [of 8 x, simplified])
qed

text \<open>Moving within one 512-byte block changes the slice by XOR with the line number.\<close>

definition block :: "u64 \<Rightarrow> u64" where
  "block pa = push_bit 9 (drop_bit 9 pa)"

definition line_no :: "u64 \<Rightarrow> nat" where
  "line_no pa = unat pa mod 512 div 64"

lemma aligned_plus_slice:
  assumes b: "take_bit 9 b = 0" and x: "x < 512"
  shows "calculateSlice_HF_haswell (b + of_nat x) =
    calculateSlice_HF_haswell b XOR of_nat (x div 64)"
proof -
  let ?x = "of_nat x :: u64"
  have ux: "unat ?x = x" using x by (simp add: unat_of_nat take_bit_nat_eq_self)
  then have "?x = mask 9 AND ?x" using word_eq_and_mask [of ?x 9] x by (simp add: and.commute)
  then have "b AND ?x = take_bit 9 b AND ?x" by (metis and.assoc take_bit_eq_mask)
  with b have "b AND ?x = 0" by simp
  then have "b + ?x = b XOR ?x" by (rule disjunctive_add_eq_xor)
  moreover have "calculateSlice_HF_haswell ?x = of_nat (x div 64)"
  proof -
    have "unat (drop_bit 6 ?x) = x div 64"
      by (simp only: unsigned_drop_bit_eq ux) (use x in \<open>simp add: drop_bit_eq_div take_bit_nat_eq_self\<close>)
    then show ?thesis using slice_below_512 [of ?x] ux x
      by (simp add: word_unat_eq_iff unsigned_ucast_eq unat_of_nat take_bit_nat_eq_self del: drop_bit_eq_div)
  qed
  ultimately show ?thesis by (simp add: calculateSlice_xor)
qed

lemma block_decomp: "pa = block pa + of_nat (unat pa mod 512)"
proof -
  have "pa = push_bit 9 (drop_bit 9 pa) + take_bit 9 pa" by (simp add: bits_ident)
  moreover have "take_bit 9 pa = of_nat (unat pa mod 512)"
    by (simp add: word_unat_eq_iff take_bit_eq_mod unat_of_nat unat_mod)
  ultimately show ?thesis by (simp add: block_def)
qed

lemma block_aligned: "take_bit 9 (block pa) = 0"
  by (rule bit_word_eqI) (auto simp: block_def bit_simps)

lemma aligned_take_bit:
  assumes "512 dvd unat (b :: u64)"
  shows "take_bit 9 b = 0"
  using assms by (simp add: word_unat_eq_iff take_bit_eq_mod unat_mod mod_eq_0_iff_dvd)

lemma block_512_aligned: "take_bit 9 (block pa + 512) = 0"
proof -
  have "block pa + 512 = push_bit 9 (drop_bit 9 pa + 1)"
    by (simp add: block_def push_bit_add)
  moreover have "take_bit 9 (push_bit 9 (w :: u64)) = 0" for w
    by (rule bit_word_eqI) (auto simp: bit_simps)
  ultimately show ?thesis by simp
qed

lemma line_no_lt: "line_no pa < 8"
  by (simp add: line_no_def)

lemma slice_same_block:
  assumes "line_no pa + k < 8"
  shows "calculateSlice_HF_haswell (pa + of_nat (64 * k)) =
    calculateSlice_HF_haswell (block pa) XOR of_nat (line_no pa + k)"
proof -
  let ?x = "unat pa mod 512 + 64 * k"
  have x: "?x < 512" using assms unfolding line_no_def by linarith
  have d: "?x div 64 = line_no pa + k" by (simp add: line_no_def)
  have e: "pa + of_nat (64 * k) = block pa + of_nat ?x"
    by (subst block_decomp [of pa]) (simp add: algebra_simps)
  show ?thesis
    unfolding e aligned_plus_slice [OF block_aligned x] d ..
qed

lemma slice_next_block:
  assumes "8 \<le> line_no pa + k" "line_no pa + k < 16"
  shows "calculateSlice_HF_haswell (pa + of_nat (64 * k)) =
    calculateSlice_HF_haswell (block pa + 512) XOR of_nat (line_no pa + k - 8)"
proof -
  let ?x = "unat pa mod 512 + 64 * k - 512"
  have ge: "512 \<le> unat pa mod 512 + 64 * k" and x: "?x < 512"
    using assms unfolding line_no_def by linarith+
  have d: "?x div 64 = line_no pa + k - 8" using ge unfolding line_no_def by linarith
  have e: "pa + of_nat (64 * k) = (block pa + 512) + of_nat ?x"
    using ge by (subst block_decomp [of pa]) (simp add: algebra_simps)
  show ?thesis
    unfolding e aligned_plus_slice [OF block_512_aligned x] d ..
qed

lemma xor_line_lt_8:
  assumes "a < (8::u8)" "b < 8"
  shows "unat (a XOR b) < 8"
proof -
  have "take_bit 3 (a XOR b) = a XOR b"
    using assms by (simp add: word_take_bit_self word_less_nat_alt)
  then have "unat (a XOR b) = unat ((a XOR b) mod 8)" by (simp add: take_bit_eq_mod)
  then show ?thesis by (simp add: unat_mod)
qed

text \<open>Between two neighbouring 512-byte blocks the slice pattern shifts by a constant.\<close>

definition block_shift :: "u64 \<Rightarrow> u8" where
  "block_shift pa = calculateSlice_HF_haswell (block pa) XOR calculateSlice_HF_haswell (block pa + 512)"

lemma slice_within:
  assumes s: "s < 8"
  shows "\<exists>k. k \<le> (if line_no pa = 1 then 7 + unat (block_shift pa) else if line_no pa = 0 then 7 else 13) \<and>
    calculateSlice_HF_haswell (pa + of_nat (64 * k)) = s"
proof -
  let ?h = "calculateSlice_HF_haswell (block pa)" and ?h' = "calculateSlice_HF_haswell (block pa + 512)"
  define j where "j = unat (?h XOR s)"
  have j8: "j < 8" unfolding j_def by (intro xor_line_lt_8 slice_lt_8 s)
  have sj: "?h XOR of_nat j = s" by (simp add: j_def xor.assoc [symmetric])
  show ?thesis
  proof (cases "line_no pa \<le> j")
    case True
    with j8 have "calculateSlice_HF_haswell (pa + of_nat (64 * (j - line_no pa))) = s"
      by (subst slice_same_block) (simp_all add: sj)
    with True j8 show ?thesis by (intro exI [of _ "j - line_no pa"]) auto
  next
    case False
    define i where "i = unat (?h' XOR s)"
    have i8: "i < 8" unfolding i_def by (intro xor_line_lt_8 slice_lt_8 s)
    have si: "?h' XOR of_nat i = s" by (simp add: i_def xor.assoc [symmetric])
    have "calculateSlice_HF_haswell (pa + of_nat (64 * (8 + i - line_no pa))) = s"
      using False i8 line_no_lt [of pa] by (subst slice_next_block) (simp_all add: si)
    moreover have "i = unat (block_shift pa)" if "line_no pa = 1"
    proof -
      have "j = 0" using that False by simp
      then have "s = ?h" using sj by simp
      then show ?thesis by (simp add: i_def block_shift_def xor.commute)
    qed
    ultimately show ?thesis
      using False i8 by (intro exI [of _ "8 + i - line_no pa"]) auto
  qed
qed


lemma least_zero_bit:
  assumes "\<not> bit w n" "m \<le> n"
  obtains j where "m \<le> j" "j \<le> n" "\<not> bit w j" "\<And>i. m \<le> i \<Longrightarrow> i < j \<Longrightarrow> bit w i"
proof -
  define j where "j = (LEAST j. m \<le> j \<and> \<not> bit w j)"
  have 1: "m \<le> n \<and> \<not> bit w n" using assms by simp
  have "m \<le> j \<and> \<not> bit w j" unfolding j_def using 1 by (rule LeastI)
  moreover have "j \<le> n" unfolding j_def using 1 by (rule Least_le)
  moreover have "bit w i" if "m \<le> i" "i < j" for i
    using not_less_Least [of i "\<lambda>j. m \<le> j \<and> \<not> bit w j"] that by (auto simp: j_def)
  ultimately show ?thesis using that by blast
qed

text \<open>Adding 512 to a block address flips bits 9 to j, where j is the lowest clear bit.\<close>

definition carry_mask :: "nat \<Rightarrow> u64" where
  "carry_mask j = (mask j AND NOT (mask 9)) XOR 2 ^ j"

lemma xor_add_512:
  assumes al: "take_bit 9 (b :: u64) = 0" and j: "9 \<le> j" "j < 64"
    and clear: "\<not> bit b j" and ones: "\<And>i. 9 \<le> i \<Longrightarrow> i < j \<Longrightarrow> bit b i"
  shows "b XOR (b + 512) = carry_mask j"
proof -
  define A where "A = b AND NOT (mask (Suc j))"
  let ?M = "mask j AND NOT (mask 9) :: u64"
  have low: "\<not> bit b i" if "i < 9" for i
  proof -
    have "bit (take_bit 9 b) i = bit b i" using that by (simp add: bit_take_bit_iff)
    then show ?thesis using al by simp
  qed
  have b: "b = A XOR ?M"
  proof (rule bit_word_eqI)
    fix i assume "i < LENGTH(64)"
    then show "bit b i = bit (A XOR ?M) i"
      using low [of i] ones [of i] clear j unfolding A_def
      by (cases "i < 9"; cases "i < j"; cases "i = j") (auto simp: bit_simps)
  qed
  have "A AND ?M = 0" unfolding A_def by (rule bit_word_eqI) (auto simp: bit_simps)
  then have b': "b = A + ?M" using b by (simp add: disjunctive_add_eq_xor)
  have "?M AND mask 9 = 0" by (rule bit_word_eqI) (auto simp: bit_simps)
  moreover have "?M XOR mask 9 = mask j"
    using j by (intro bit_word_eqI) (auto simp: bit_simps)
  ultimately have "?M + mask 9 = mask j" by (simp add: disjunctive_add_eq_xor)
  then have "?M + 512 = mask j + 1" by (simp add: mask_eq_exp_minus_1 [of 9] algebra_simps)
  then have "?M + 512 = 2 ^ j" by (simp add: mask_eq_exp_minus_1)
  then have "b + 512 = A + 2 ^ j" using b' by (simp add: add.assoc)
  moreover have "A AND 2 ^ j = 0" unfolding A_def by (rule bit_word_eqI) (auto simp: bit_simps)
  ultimately have "b + 512 = A XOR 2 ^ j" by (simp add: disjunctive_add_eq_xor)
  then have "b XOR (b + 512) = (A XOR ?M) XOR (A XOR 2 ^ j)" by (simp add: b [symmetric])
  also have "\<dots> = carry_mask j" unfolding carry_mask_def by (rule bit_word_eqI) (auto simp: bit_simps)
  finally show ?thesis .
qed

lemma upt_64: "[0..<64] = [0, 1, 2, 3, 4, 5, 6, 7, 8, 9, 10, 11, 12, 13, 14, 15, 16, 17, 18, 19, 20,
    21, 22, 23, 24, 25, 26, 27, 28, 29, 30, 31, 32, 33, 34, 35, 36, 37, 38, 39, 40, 41, 42, 43, 44,
    45, 46, 47, 48, 49, 50, 51, 52, 53, 54, 55, 56, 57, 58, 59, 60, 61, 62, 63]"
  by (simp add: upt_rec)

lemmas slice_eval = calculateSlice_bits slice_bits_def popcount_def upt_64
  hash_0_def hash_1_def hash_2_def

lemma carry_slice:
  assumes "9 \<le> j" "j \<le> 25"
  shows "calculateSlice_HF_haswell (carry_mask j) \<le> 6"
proof -
  have "list_all (\<lambda>j. calculateSlice_HF_haswell (carry_mask j) \<le> 6)
      [9, 10, 11, 12, 13, 14, 15, 16, 17, 18, 19, 20, 21, 22, 23, 24, 25]"
    by (simp add: slice_eval carry_mask_def mask_eq_exp_minus_1)
  moreover have "[9..<26] = [9, 10, 11, 12, 13, 14, 15, 16, 17, 18, 19, 20, 21, 22, 23, 24, 25]"
    by (simp add: upt_rec)
  ultimately have "list_all (\<lambda>j. calculateSlice_HF_haswell (carry_mask j) \<le> 6) [9..<26]"
    by simp
  moreover have "j \<in> set [9..<26]" using assms by (simp only: set_upt) simp
  ultimately show ?thesis by (simp only: list_all_iff)
qed

lemma block_shift_le_6:
  assumes "\<not> (\<forall>i. 9 \<le> i \<longrightarrow> i < 26 \<longrightarrow> bit pa i)"
  shows "block_shift pa \<le> 6"
proof -
  obtain n where n: "9 \<le> n" "n < 26" "\<not> bit pa n" using assms by blast
  have bb: "bit (block pa) i \<longleftrightarrow> 9 \<le> i \<and> bit pa i" for i
    by (auto simp: block_def bit_simps dest: bit_imp_le_length)
  obtain j where j: "9 \<le> j" "j \<le> n" "\<not> bit (block pa) j"
    and ones: "\<And>i. 9 \<le> i \<Longrightarrow> i < j \<Longrightarrow> bit (block pa) i"
    using n bb by (metis least_zero_bit [of "block pa" n 9])
  have "block pa XOR (block pa + 512) = carry_mask j"
    by (rule xor_add_512) (use j n ones in \<open>auto simp: block_aligned\<close>)
  then have "block_shift pa = calculateSlice_HF_haswell (carry_mask j)"
    by (simp add: block_shift_def calculateSlice_xor [symmetric])
  with carry_slice [of j] j n show ?thesis by simp
qed


lemma ones_26:
  assumes "\<forall>i. 9 \<le> i \<longrightarrow> i < 26 \<longrightarrow> bit (pa :: u64) i"
  shows "2 ^ 26 - 512 \<le> unat pa mod 2 ^ 26"
proof -
  have "take_bit 26 pa = (mask 26 AND NOT (mask 9)) OR take_bit 9 pa"
    using assms by (intro bit_word_eqI) (auto simp: bit_simps)
  also have "\<dots> = (mask 26 AND NOT (mask 9)) + take_bit 9 pa"
    by (intro disjunctive_add_eq_or [symmetric] bit_word_eqI) (auto simp: bit_simps)
  finally have "take_bit 26 pa = (2 ^ 26 - 512) + take_bit 9 pa"
    by (simp add: mask_eq_exp_minus_1)
  then have "unat (take_bit 26 pa) = unat ((2 ^ 26 - 512) + take_bit 9 pa)" by simp
  moreover have "unat (take_bit 9 pa) < 512"
    by (simp add: unsigned_take_bit_eq take_bit_eq_mod unat_mod)
  ultimately have "unat (take_bit 26 pa) = (2 ^ 26 - 512) + unat (take_bit 9 pa)"
    by (simp add: unat_word_ariths)
  then show ?thesis by (simp add: take_bit_eq_mod unat_mod)
qed

section \<open>The line search\<close>

lemma line_search_sound:
  assumes "line_search calc pa s off = Some r"
  shows "calc (pa + ucast r) = s"
proof (rule line_search.raw_induct [where P = "\<lambda>calc pa s off r. calc (pa + ucast r) = s", OF _ assms])
  fix f :: "(u64 \<Rightarrow> u8) \<Rightarrow> u64 \<Rightarrow> u8 \<Rightarrow> u16 \<Rightarrow> u16 option" and calc pa s off r
  assume IH: "\<And>calc pa s off r. f calc pa s off = Some r \<Longrightarrow> calc (pa + ucast r) = s"
    and eq: "(if s \<noteq> calc (pa + ucast off) then f calc pa s (off + LINE) else Some off) = Some r"
  then show "calc (pa + ucast r) = s" by (auto split: if_splits)
qed

lemma ucast_line: "k < 1024 \<Longrightarrow> ucast (of_nat (64 * k) :: u16) = (of_nat (64 * k) :: u64)"
  by (simp add: word_unat_eq_iff unsigned_ucast_eq unat_of_nat take_bit_nat_eq_self del: of_nat_mult)

lemma line_search_hit:
  assumes hit: "calc (pa + of_nat (64 * k)) = s" and k: "k < 1024"
    and miss: "\<And>i. i < k \<Longrightarrow> calc (pa + of_nat (64 * i)) \<noteq> s"
  shows "m \<le> k \<Longrightarrow> line_search calc pa s (of_nat (64 * m)) = Some (of_nat (64 * k))"
proof (induction "k - m" arbitrary: m)
  case 0
  then have "m = k" by simp
  with hit k show ?case by (subst line_search.simps) (simp add: ucast_line del: of_nat_mult)
next
  case (Suc d)
  then have m: "m < k" "d = k - Suc m" by simp_all
  then have "line_search calc pa s (of_nat (64 * Suc m)) = Some (of_nat (64 * k))"
    using Suc.hyps(1) [of "Suc m"] by simp
  moreover have "(of_nat (64 * Suc m) :: u16) = of_nat (64 * m) + LINE" by (simp add: LINE_def)
  ultimately show ?case
    using miss [OF m(1)] m k by (subst line_search.simps) (simp add: ucast_line del: of_nat_mult mult_Suc_right)
qed

text \<open>
  The contract of a slice map: every slice number below 8 occurs within the first
  \<open>reach\<close> cache lines after any address.
\<close>

locale slice_map =
  fixes calc :: "u64 \<Rightarrow> u8" and reach :: "u64 \<Rightarrow> nat"
  assumes covers: "s < 8 \<Longrightarrow> \<exists>k \<le> reach pa. calc (pa + of_nat (64 * k)) = s"
    and reach_bound: "reach pa < 1024"
begin

lemma search_total:
  assumes "s < 8"
  obtains k where "k \<le> reach pa" "line_search calc pa s 0 = Some (of_nat (64 * k))"
    "calc (pa + of_nat (64 * k)) = s" "\<And>i. i < k \<Longrightarrow> calc (pa + of_nat (64 * i)) \<noteq> s"
proof -
  define k where "k = (LEAST k. calc (pa + of_nat (64 * k)) = s)"
  obtain k0 where k0: "k0 \<le> reach pa" "calc (pa + of_nat (64 * k0)) = s"
    using covers [OF assms] by blast
  then have hit: "calc (pa + of_nat (64 * k)) = s" unfolding k_def by (intro LeastI)
  have "k \<le> reach pa" using k0 Least_le [of "\<lambda>k. calc (pa + of_nat (64 * k)) = s" k0]
    by (simp add: k_def)
  moreover have miss: "calc (pa + of_nat (64 * i)) \<noteq> s" if "i < k" for i
    using not_less_Least that by (auto simp: k_def)
  moreover have "line_search calc pa s 0 = Some (of_nat (64 * k))"
    using line_search_hit [of calc pa k s 0] hit miss \<open>k \<le> reach pa\<close> reach_bound [of pa] by simp
  ultimately show ?thesis using hit that by blast
qed

end

definition haswell_reach :: "u64 \<Rightarrow> nat" where
  "haswell_reach pa = (if unat pa mod 2 ^ 26 < 2 ^ 26 - 512 then 13 else 14)"

interpretation haswell: slice_map calculateSlice_HF_haswell haswell_reach
proof
  fix s :: u8 and pa :: u64 assume s: "s < 8"
  have "unat (block_shift pa) \<le> 7"
    using xor_line_lt_8 [OF slice_lt_8 slice_lt_8, of "block pa" "block pa + 512"]
    by (simp add: block_shift_def)
  moreover have "unat (block_shift pa) \<le> 6" if "unat pa mod 2 ^ 26 < 2 ^ 26 - 512"
  proof -
    have "block_shift pa \<le> 6" using ones_26 [of pa] that by (intro block_shift_le_6) auto
    then show ?thesis by (simp add: word_le_nat_alt)
  qed
  ultimately have "(if line_no pa = 1 then 7 + unat (block_shift pa) else if line_no pa = 0 then 7 else 13)
      \<le> haswell_reach pa"
    by (auto simp: haswell_reach_def)
  with slice_within [OF s, of pa]
  show "\<exists>k \<le> haswell_reach pa. calculateSlice_HF_haswell (pa + of_nat (64 * k)) = s"
    by (metis (no_types, lifting) le_trans)
qed (simp add: haswell_reach_def)

lemma sliceFinder_first:
  assumes "s < 8"
  shows "\<exists>off. sliceFinder_HF_haswell pa s = Some off \<and> off \<le> 896 \<and> 64 dvd unat off \<and>
    calculateSlice_HF_haswell (pa + ucast off) = s \<and>
    (\<forall>o'. 64 dvd unat o' \<longrightarrow> o' < off \<longrightarrow> calculateSlice_HF_haswell (pa + ucast o') \<noteq> s) \<and>
    (unat pa mod 2 ^ 26 < 2 ^ 26 - 512 \<longrightarrow> off \<le> 832)"
proof -
  obtain k where k: "k \<le> haswell_reach pa"
      "line_search calculateSlice_HF_haswell pa s 0 = Some (of_nat (64 * k))"
      "calculateSlice_HF_haswell (pa + of_nat (64 * k)) = s"
    and miss: "\<And>i. i < k \<Longrightarrow> calculateSlice_HF_haswell (pa + of_nat (64 * i)) \<noteq> s"
    by (rule haswell.search_total [OF assms, of pa]) (rule that)
  let ?off = "of_nat (64 * k) :: u16"
  have k14: "k \<le> 14" using k(1) by (simp add: haswell_reach_def split: if_splits)
  have u: "unat ?off = 64 * k" using k14 by (simp add: unat_of_nat take_bit_nat_eq_self del: of_nat_mult)
  have "calculateSlice_HF_haswell (pa + ucast o') \<noteq> s" if d: "64 dvd unat o'" and l: "o' < ?off" for o' :: u16
  proof -
    obtain i where i: "unat o' = 64 * i" using d by blast
    have "i < k" using l by (simp add: word_less_nat_alt u i del: of_nat_mult)
    moreover have "ucast o' = (of_nat (64 * i) :: u64)"
      by (simp add: i [symmetric] del: of_nat_mult)
    ultimately show ?thesis using miss by simp
  qed
  moreover have "unat pa mod 2 ^ 26 < 2 ^ 26 - 512 \<longrightarrow> ?off \<le> 832"
    using k(1) by (auto simp: haswell_reach_def word_le_nat_alt u simp del: of_nat_mult)
  ultimately show ?thesis
    using k k14 unfolding sliceFinder_HF_haswell_def
    by (intro exI [of _ ?off]) (simp add: word_le_nat_alt u ucast_line del: of_nat_mult)
qed

section \<open>Properties\<close>

text \<open>
  C9: for every physical address and every slice number below 8 the search
  \<^verbatim>\<open>sliceFinder_HF_haswell\<close> returns: the offset is the first multiple of the line size whose
  line lies in the wanted slice, and it never exceeds 896.
\<close>

theorem sliceFinder_total:
  assumes "s < 8"
  shows "\<exists>off. sliceFinder_HF_haswell pa s = Some off \<and> off \<le> 896 \<and> 64 dvd unat off \<and>
    calculateSlice_HF_haswell (pa + ucast off) = s \<and>
    (\<forall>o'. 64 dvd unat o' \<longrightarrow> o' < off \<longrightarrow> calculateSlice_HF_haswell (pa + ucast o') \<noteq> s)"
  using sliceFinder_first [OF assms, of pa] by blast

theorem sliceFinder_total_witness:
  "(3 :: u8) < 8 \<and> (\<exists>off. sliceFinder_HF_haswell 0x12345678 3 = Some off \<and> off \<le> 896)"
  using sliceFinder_total [of 3 "0x12345678"] by auto

text \<open>
  C17: a buffer that does not start in the last 512 bytes of a 64 MiB region of physical memory
  needs at most 832 bytes of headroom for any slice, the value \<^verbatim>\<open>config/common_base\<close> sets
  for Haswell.
\<close>

theorem sliceFinder_headroom:
  assumes "s < 8" and "unat pa mod 2 ^ 26 < 2 ^ 26 - 512"
  shows "\<exists>off. sliceFinder_HF_haswell pa s = Some off \<and> off \<le> 832"
  using sliceFinder_first [OF assms(1), of pa] assms(2) by blast

theorem sliceFinder_headroom_witness:
  "unat (0x12345680 :: u64) mod 2 ^ 26 < 2 ^ 26 - 512 \<and>
   (\<exists>off. sliceFinder_HF_haswell 0x12345680 5 = Some off \<and> off \<le> 832)"
  using sliceFinder_headroom [of 5 "0x12345680"] by simp

text \<open>
  The bound of 832 bytes does not hold in general: for a buffer 448 bytes below a 64 MiB
  boundary, slice 0 is first met 896 bytes after its start, beyond the configured headroom.
\<close>

theorem sliceFinder_headroom_exceeded: "sliceFinder_HF_haswell 0x3FFFE40 0 = Some 896"
  unfolding sliceFinder_HF_haswell_def
  by (simp add: line_search.simps slice_eval LINE_def)

text \<open>
  C38: a slice number of 8 or more is never found: the 16-bit offset wraps around and the
  search loop does not return.
\<close>

theorem sliceFinder_diverges:
  assumes "8 \<le> s"
  shows "sliceFinder_HF_haswell pa s = None"
proof (rule ccontr)
  assume "sliceFinder_HF_haswell pa s \<noteq> None"
  then obtain off where "line_search calculateSlice_HF_haswell pa s 0 = Some off"
    by (auto simp: sliceFinder_HF_haswell_def)
  then have "s = calculateSlice_HF_haswell (pa + ucast off)" by (rule line_search_sound [symmetric])
  then show False using slice_lt_8 [of "pa + ucast off"] assms by simp
qed

theorem sliceFinder_diverges_witness: "(8 :: u8) \<le> 8 \<and> sliceFinder_HF_haswell 0 8 = None"
  using sliceFinder_diverges [of 8 0] by simp

text \<open>
  C24: inside an aligned 512-byte block every slice owns exactly one of the eight cache lines.
\<close>

theorem slice_unique_in_block:
  assumes "512 dvd unat b" and "s < 8"
  shows "\<exists>!k. k < 8 \<and> calculateSlice_HF_haswell (b + of_nat (64 * k)) = s"
proof -
  let ?h = "calculateSlice_HF_haswell b"
  have al: "take_bit 9 b = 0" using assms(1) by (simp add: aligned_take_bit)
  have line: "calculateSlice_HF_haswell (b + of_nat (64 * k)) = ?h XOR of_nat k" if "k < 8" for k
    using aligned_plus_slice [OF al, of "64 * k"] that by simp
  show ?thesis
  proof (intro ex1I [of _ "unat (?h XOR s)"] conjI)
    show lt: "unat (?h XOR s) < 8" by (intro xor_line_lt_8 slice_lt_8 assms(2))
    show "calculateSlice_HF_haswell (b + of_nat (64 * unat (?h XOR s))) = s"
      using line [OF lt] by (simp add: xor.assoc [symmetric])
    fix k assume "k < 8 \<and> calculateSlice_HF_haswell (b + of_nat (64 * k)) = s"
    then have k: "k < 8" and "?h XOR of_nat k = s" using line by auto
    then have "?h XOR s = of_nat k" by (auto simp: xor.assoc [symmetric])
    then show "k = unat (?h XOR s)" using k by (simp add: unat_of_nat take_bit_nat_eq_self)
  qed
qed

theorem slice_unique_in_block_witness:
  "512 dvd unat (0x10200 :: u64) \<and>
   (\<exists>!k. k < 8 \<and> calculateSlice_HF_haswell (0x10200 + of_nat (64 * k)) = 6)"
  using slice_unique_in_block [of "0x10200" 6] by simp

end
