(* ===== verification/Msr.thy ===== *)
theory Msr
  imports Slice "HOL-Library.Monad_Syntax"
begin

text \<open>
  Model of \<^verbatim>\<open>lib/librte_msr/rte_msr.c\<close> and \<^verbatim>\<open>lib/librte_slice/rte_slice.c\<close>: access to
  the model-specific registers of CPU 0, the uncore performance-monitoring session that counts
  the LLC lookups of every slice, and the slice search by polling. The operating system and the
  hardware are a parameter: a record of operations on an unspecified machine state.
\<close>

section \<open>The machine\<close>

record 'h hardware =
  hw_open :: "bool \<Rightarrow> 'h \<Rightarrow> 'h \<times> (errno + int)"
  hw_pread :: "int \<Rightarrow> u32 \<Rightarrow> 'h \<Rightarrow> 'h \<times> (errno + u64)"
  hw_pwrite :: "int \<Rightarrow> u32 \<Rightarrow> u64 \<Rightarrow> 'h \<Rightarrow> 'h \<times> errno option"
  hw_clflush :: "u64 \<Rightarrow> 'h \<Rightarrow> 'h"

text \<open>The two static descriptors and the machine; a call returns or exits the process.\<close>

record 'h msr_state =
  rd_fd :: int
  wr_fd :: int
  mach :: 'h

datatype 'a outcome = Exit nat | Ret 'a

section \<open>Registers\<close>

definition CHA_CBO_EVENT_ADDRESS :: "u64 list" where
  "CHA_CBO_EVENT_ADDRESS = [0x0E01, 0x0E11, 0x0E21, 0x0E31, 0x0E41, 0x0E51, 0x0E61, 0x0E71, 0x0E81,
     0x0E91, 0x0EA1, 0x0EB1, 0x0EC1, 0x0ED1, 0x0EE1, 0x0EF1, 0x0F01, 0x0F11, 0x0F21, 0x0F31, 0x0F41,
     0x0F51, 0x0F61, 0x0F71, 0x0F81, 0x0F91, 0x0FA1, 0x0FB1]"

definition CHA_CBO_CTL_ADDRESS :: "u64 list" where
  "CHA_CBO_CTL_ADDRESS = [0x0E00, 0x0E10, 0x0E20, 0x0E30, 0x0E40, 0x0E50, 0x0E60, 0x0E70, 0x0E80,
     0x0E90, 0x0EA0, 0x0EB0, 0x0EC0, 0x0ED0, 0x0EE0, 0x0EF0, 0x0F00, 0x0F10, 0x0F20, 0x0F30, 0x0F40,
     0x0F50, 0x0F60, 0x0F70, 0x0F80, 0x0F90, 0x0FA0, 0x0FB0]"

definition CHA_CBO_FILTER_ADDRESS :: "u64 list" where
  "CHA_CBO_FILTER_ADDRESS = [0x0E05, 0x0E15, 0x0E25, 0x0E35, 0x0E45, 0x0E55, 0x0E65, 0x0E75, 0x0E85,
     0x0E95, 0x0EA5, 0x0EB5, 0x0EC5, 0x0ED5, 0x0EE5, 0x0EF5, 0x0F05, 0x0F15, 0x0F25, 0x0F35, 0x0F45,
     0x0F55, 0x0F65, 0x0F75, 0x0F85, 0x0F95, 0x0FA5, 0x0FB5]"

definition CHA_CBO_COUNTER_ADDRESS :: "u64 list" where
  "CHA_CBO_COUNTER_ADDRESS = [0x0E08, 0x0E18, 0x0E28, 0x0E38, 0x0E48, 0x0E58, 0x0E68, 0x0E78, 0x0E88,
     0x0E98, 0x0EA8, 0x0EB8, 0x0EC8, 0x0ED8, 0x0EE8, 0x0EF8, 0x0F08, 0x0F18, 0x0F28, 0x0F38, 0x0F48,
     0x0F58, 0x0F68, 0x0F78, 0x0F88, 0x0F98, 0x0FA8, 0x0FB8]"

definition PMON_GLOBAL_CTL_ADDRESS :: u32 where
  "PMON_GLOBAL_CTL_ADDRESS = 0x700"


definition NUMBER_SLICES :: nat where
  "NUMBER_SLICES = 8"

definition ENABLE_COUNT :: u64 where
  "ENABLE_COUNT = 0x20000000"

definition DISABLE_COUNT :: u64 where
  "DISABLE_COUNT = 0x80000000"

definition SELECTED_EVENT :: u64 where
  "SELECTED_EVENT = 0x441134"

definition RESET_COUNTERS :: u64 where
  "RESET_COUNTERS = 0x30002"

definition FILTER_BOX_VALUE :: u64 where
  "FILTER_BOX_VALUE = 0x007E0000"

section \<open>Access to a register\<close>

definition open_exit :: "errno \<Rightarrow> nat" where
  "open_exit e = (if e = ENXIO then 2 else if e = EIO then 3 else 127)"

definition access_exit :: "errno \<Rightarrow> nat" where
  "access_exit e = (if e = EIO then 4 else 127)"

definition rdmsr_on_cpu_0 :: "'h hardware \<Rightarrow> u32 \<Rightarrow> 'h msr_state \<Rightarrow> 'h msr_state \<times> u64 outcome" where
  "rdmsr_on_cpu_0 hw reg st =
     (let (st, opened) =
        (if rd_fd st < 0
         then (case hw_open hw False (mach st) of
                 (h, Inl e) \<Rightarrow> (st\<lparr>mach := h\<rparr>, Exit (open_exit e))
               | (h, Inr fd) \<Rightarrow> (st\<lparr>mach := h, rd_fd := fd\<rparr>, Ret ()))
         else (st, Ret ()))
      in case opened of
           Exit n \<Rightarrow> (st, Exit n)
         | Ret _ \<Rightarrow> (case hw_pread hw (rd_fd st) reg (mach st) of
               (h, Inl e) \<Rightarrow> (st\<lparr>mach := h\<rparr>, Exit (access_exit e))
             | (h, Inr v) \<Rightarrow> (st\<lparr>mach := h\<rparr>, Ret v)))"



section \<open>A monitoring session\<close>


text \<open>Sequencing of calls, and of a call for every slice; an exit ends the process.\<close>

definition and_then ::
  "('s \<times> 'a outcome) \<Rightarrow> ('a \<Rightarrow> 's \<Rightarrow> 's \<times> 'b outcome) \<Rightarrow> 's \<times> 'b outcome" where
  "and_then res f = (case res of (st, Exit n) \<Rightarrow> (st, Exit n) | (st, Ret v) \<Rightarrow> f v st)"



fun read_counters :: "'h hardware \<Rightarrow> nat \<Rightarrow> nat \<Rightarrow> 'h msr_state \<Rightarrow> 'h msr_state \<times> u64 list outcome" where
  "read_counters hw i 0 st = (st, Ret [])"
| "read_counters hw i (Suc n) st =
     and_then (rdmsr_on_cpu_0 hw (ucast (CHA_CBO_COUNTER_ADDRESS ! i)) st) (\<lambda>v st.
     and_then (read_counters hw (Suc i) n st) (\<lambda>vs st. (st, Ret (v # vs))))"

text \<open>The loop over the values, with the current index, the maximum and its index.\<close>

fun find_max :: "u64 list \<Rightarrow> nat \<Rightarrow> u64 \<Rightarrow> nat \<Rightarrow> nat" where
  "find_max [] i max_value max_index = max_index"
| "find_max (v # vs) i max_value max_index =
     (if v > max_value then find_max vs (Suc i) v i else find_max vs (Suc i) max_value max_index)"

definition find_CHA_CBO :: "'h hardware \<Rightarrow> 'h msr_state \<Rightarrow> 'h msr_state \<times> nat outcome" where
  "find_CHA_CBO hw st =
     and_then (read_counters hw 0 NUMBER_SLICES st) (\<lambda>vs st. (st, Ret (find_max vs 0 0 0)))"

section \<open>The slice of an address by polling\<close>




section \<open>The maximum search\<close>

text \<open>The first position that holds the greatest value.\<close>

definition first_max :: "u64 list \<Rightarrow> nat \<Rightarrow> bool" where
  "first_max vs k \<longleftrightarrow> k < length vs \<and> (\<forall>j < length vs. vs ! j \<le> vs ! k) \<and> (\<forall>j < k. vs ! j < vs ! k)"

lemma find_max_append:
  "find_max (xs @ ys) i m k = (let k' = find_max xs i m k;
     m' = foldl max m xs in find_max ys (i + length xs) m' k')"
proof (induction xs arbitrary: i m k)
  case (Cons x xs)
  then show ?case by (auto simp: Let_def max_def)
qed simp

lemma find_max_first:
  assumes "vs \<noteq> []"
  shows "first_max vs (find_max vs 0 0 0) \<and> foldl max 0 vs = vs ! find_max vs 0 0 0"
  using assms
proof (induction vs rule: rev_induct)
  case (snoc v vs)
  show ?case
  proof (cases "vs = []")
    case True
    then show ?thesis by (auto simp: first_max_def max_def word_gt_0 not_less)
  next
    case False
    let ?k = "find_max vs 0 0 0"
    have IH: "first_max vs ?k" "foldl max 0 vs = vs ! ?k" using snoc.IH False by simp_all
    have e: "find_max (vs @ [v]) 0 0 0 = (if v > vs ! ?k then length vs else ?k)"
      using IH(2) by (simp add: find_max_append Let_def)
    show ?thesis
    proof (cases "v > vs ! ?k")
      case True
      then have "max (vs ! ?k) v = v" by simp
      with True IH show ?thesis unfolding e
        by (auto simp: first_max_def nth_append less_Suc_eq intro: order.strict_implies_order le_less_trans)
    next
      case f: False
      then have "max (vs ! ?k) v = vs ! ?k" by (simp add: not_less)
      with f IH show ?thesis unfolding e
        by (auto simp: first_max_def nth_append less_Suc_eq)
    qed
  qed
qed simp

section \<open>The documented behaviour of the performance monitor\<close>

text \<open>
  What the uncore manuals say of a machine \<open>hw\<close>, read through its counters \<open>cnt\<close>, the event
  control and filter registers of its boxes, and the global freeze bit. The fields are those the
  comments of \<^verbatim>\<open>rte_msr.h\<close> name: bit 31 of the global register freezes and bit 29 starts all
  counters; an event register selects the event (\<^verbatim>\<open>ev_sel\<close>, bits 0 to 7), its unit mask (bits 8
  to 15) and enables the counter (bit 22), and its bit 17 resets the counter; bit 0 of a box control
  register resets the event registers and bit 1 the counters of the box; bits 17 to 22 of a filter
  are the line states that count.
\<close>

record 'h pmu_view =
  cnt :: "'h \<Rightarrow> nat \<Rightarrow> u64"
  event :: "'h \<Rightarrow> nat \<Rightarrow> u64"
  box_filter :: "'h \<Rightarrow> nat \<Rightarrow> u64"
  running :: "'h \<Rightarrow> bool"

definition msr_accessible :: "'h hardware \<Rightarrow> bool" where
  "msr_accessible hw \<longleftrightarrow> (\<forall>w h. \<exists>fd \<ge> 0. hw_open hw w h = (h, Inr fd)) \<and>
     (\<forall>fd reg v h. snd (hw_pwrite hw fd reg v h) = None)"

text \<open>
  A counter that counts the LLC lookups of its slice: event 0x34 (\<^verbatim>\<open>LLC_LOOKUP\<close>) with the unit mask
  0x11 of any request, enabled, for lines in any state.
\<close>

definition counts_lookups :: "u64 \<Rightarrow> u64 \<Rightarrow> bool" where
  "counts_lookups ev fil \<longleftrightarrow> ev AND 0xFF = 0x34 \<and> ev AND 0xFF00 = 0x1100 \<and> bit ev 22 \<and>
     fil AND 0x7E0000 = 0x7E0000"

text \<open>
  What a write of \<open>v\<close> to one register does, for every value: the machine before, and after it. A
  control register must be written with its reserved bits 16 and 17 set.
\<close>

definition global_law :: "'h pmu_view \<Rightarrow> u64 \<Rightarrow> 'h \<Rightarrow> 'h \<Rightarrow> bool" where
  "global_law pv v h h' \<longleftrightarrow> cnt pv h' = cnt pv h \<and> event pv h' = event pv h \<and> box_filter pv h' = box_filter pv h \<and>
     running pv h' = (if bit v 31 then False else if bit v 29 then True else running pv h)"

definition event_law :: "'h pmu_view \<Rightarrow> nat \<Rightarrow> u64 \<Rightarrow> 'h \<Rightarrow> 'h \<Rightarrow> bool" where
  "event_law pv i v h h' \<longleftrightarrow> cnt pv h' = (if bit v 17 then (cnt pv h)(i := 0) else cnt pv h) \<and>
     event pv h' = (event pv h)(i := v) \<and> box_filter pv h' = box_filter pv h \<and> running pv h' = running pv h"

definition control_law :: "'h pmu_view \<Rightarrow> nat \<Rightarrow> u64 \<Rightarrow> 'h \<Rightarrow> 'h \<Rightarrow> bool" where
  "control_law pv i v h h' \<longleftrightarrow> (bit v 16 \<and> bit v 17 \<longrightarrow>
     cnt pv h' = (if bit v 1 then (cnt pv h)(i := 0) else cnt pv h) \<and>
     event pv h' = (if bit v 0 then (event pv h)(i := 0) else event pv h) \<and>
     box_filter pv h' = box_filter pv h \<and> running pv h' = running pv h)"

definition filter_law :: "'h pmu_view \<Rightarrow> nat \<Rightarrow> u64 \<Rightarrow> 'h \<Rightarrow> 'h \<Rightarrow> bool" where
  "filter_law pv i v h h' \<longleftrightarrow> cnt pv h' = cnt pv h \<and> event pv h' = event pv h \<and>
     box_filter pv h' = (box_filter pv h)(i := v) \<and> running pv h' = running pv h"

text \<open>
  A flush of a line is one lookup in its home slice. A frozen counter stays; a running one that
  counts lookups is incremented in the home slice and stays in every other slice; nothing is known
  of a running counter that was programmed in any other way.
\<close>

definition flush_law :: "'h pmu_view \<Rightarrow> nat \<Rightarrow> 'h \<Rightarrow> 'h \<Rightarrow> bool" where
  "flush_law pv s h h' \<longleftrightarrow> event pv h' = event pv h \<and> box_filter pv h' = box_filter pv h \<and> running pv h' = running pv h \<and>
     (\<not> running pv h \<longrightarrow> cnt pv h' = cnt pv h) \<and>
     (running pv h \<longrightarrow> (\<forall>i < NUMBER_SLICES. counts_lookups (event pv h i) (box_filter pv h i) \<longrightarrow>
        cnt pv h' i = (if i = s then cnt pv h i + 1 else cnt pv h i)))"

definition pmu_laws :: "'h hardware \<Rightarrow> 'h pmu_view \<Rightarrow> (u64 \<Rightarrow> nat) \<Rightarrow> bool" where
  "pmu_laws hw pv home \<longleftrightarrow>
     (\<forall>fd i h. i < NUMBER_SLICES \<longrightarrow> hw_pread hw fd (ucast (CHA_CBO_COUNTER_ADDRESS ! i)) h = (h, Inr (cnt pv h i))) \<and>
     (\<forall>fd v h. global_law pv v h (fst (hw_pwrite hw fd PMON_GLOBAL_CTL_ADDRESS v h))) \<and>
     (\<forall>fd i v h. i < NUMBER_SLICES \<longrightarrow> event_law pv i v h (fst (hw_pwrite hw fd (ucast (CHA_CBO_EVENT_ADDRESS ! i)) v h))) \<and>
     (\<forall>fd i v h. i < NUMBER_SLICES \<longrightarrow> control_law pv i v h (fst (hw_pwrite hw fd (ucast (CHA_CBO_CTL_ADDRESS ! i)) v h))) \<and>
     (\<forall>fd i v h. i < NUMBER_SLICES \<longrightarrow> filter_law pv i v h (fst (hw_pwrite hw fd (ucast (CHA_CBO_FILTER_ADDRESS ! i)) v h))) \<and>
     (\<forall>va h. flush_law pv (home va) h (hw_clflush hw va h))"

lemma msr_open:
  assumes "msr_accessible hw"
  obtains fd where "fd \<ge> 0" "hw_open hw w h = (h, Inr fd)"
  using assms by (metis msr_accessible_def)


lemma pmu_laws_dest:
  assumes "pmu_laws hw pv home"
  shows pmu_read: "i < NUMBER_SLICES \<Longrightarrow> hw_pread hw fd (ucast (CHA_CBO_COUNTER_ADDRESS ! i)) h = (h, Inr (cnt pv h i))"
    and pmu_global: "global_law pv v h (fst (hw_pwrite hw fd PMON_GLOBAL_CTL_ADDRESS v h))"
    and pmu_event: "i < NUMBER_SLICES \<Longrightarrow> event_law pv i v h (fst (hw_pwrite hw fd (ucast (CHA_CBO_EVENT_ADDRESS ! i)) v h))"
    and pmu_control: "i < NUMBER_SLICES \<Longrightarrow> control_law pv i v h (fst (hw_pwrite hw fd (ucast (CHA_CBO_CTL_ADDRESS ! i)) v h))"
    and pmu_filter: "i < NUMBER_SLICES \<Longrightarrow> filter_law pv i v h (fst (hw_pwrite hw fd (ucast (CHA_CBO_FILTER_ADDRESS ! i)) v h))"
    and pmu_flush: "flush_law pv (home va) h (hw_clflush hw va h)"
  using assms unfolding pmu_laws_def by blast+

text \<open>The fields of the values the session writes.\<close>

lemma session_values [simp]:
  "bit DISABLE_COUNT 31" "\<not> bit ENABLE_COUNT 31" "bit ENABLE_COUNT 29" "\<not> bit SELECTED_EVENT 17"
  "bit RESET_COUNTERS 16" "bit RESET_COUNTERS 17" "bit RESET_COUNTERS (Suc 0)" "\<not> bit RESET_COUNTERS 0"
  "counts_lookups SELECTED_EVENT FILTER_BOX_VALUE"
  by (simp_all add: DISABLE_COUNT_def ENABLE_COUNT_def SELECTED_EVENT_def RESET_COUNTERS_def FILTER_BOX_VALUE_def
      counts_lookups_def bit_numeral_word_iff)


lemma rdmsr_ok:
  assumes acc: "msr_accessible hw" and laws: "pmu_laws hw pv home" and i: "i < NUMBER_SLICES"
  shows "\<exists>fd. rdmsr_on_cpu_0 hw (ucast (CHA_CBO_COUNTER_ADDRESS ! i)) st =
    (st\<lparr>rd_fd := fd\<rparr>, Ret (cnt pv (mach st) i))"
proof -
  obtain fd where fd: "hw_open hw False (mach st) = (mach st, Inr fd)" by (rule msr_open [OF acc])
  let ?fd = "if rd_fd st < 0 then fd else rd_fd st"
  show ?thesis
    using fd pmu_read [OF laws i, of ?fd "mach st"]
    by (intro exI [of _ ?fd]) (cases "rd_fd st < 0"; simp add: rdmsr_on_cpu_0_def)
qed


text \<open>The first \<open>e\<close>, \<open>c\<close> and \<open>f\<close> boxes have their event, a cleared counter and their filter.\<close>

definition session :: "'h pmu_view \<Rightarrow> nat \<Rightarrow> nat \<Rightarrow> nat \<Rightarrow> 'h \<Rightarrow> bool" where
  "session pv e c f h \<longleftrightarrow> (\<forall>i < e. event pv h i = SELECTED_EVENT) \<and> (\<forall>i < c. cnt pv h i = 0) \<and>
     (\<forall>i < f. box_filter pv h i = FILTER_BOX_VALUE)"

lemma session_step:
  assumes laws: "pmu_laws hw pv home"
  shows session_event: "j < NUMBER_SLICES \<Longrightarrow> session pv j 0 0 h \<Longrightarrow>
      session pv (Suc j) 0 0 (fst (hw_pwrite hw fd (ucast (CHA_CBO_EVENT_ADDRESS ! j)) SELECTED_EVENT h))"
    and session_reset: "j < NUMBER_SLICES \<Longrightarrow> session pv NUMBER_SLICES j 0 h \<Longrightarrow>
      session pv NUMBER_SLICES (Suc j) 0 (fst (hw_pwrite hw fd (ucast (CHA_CBO_CTL_ADDRESS ! j)) RESET_COUNTERS h))"
    and session_filter: "j < NUMBER_SLICES \<Longrightarrow> session pv NUMBER_SLICES NUMBER_SLICES j h \<Longrightarrow>
      session pv NUMBER_SLICES NUMBER_SLICES (Suc j) (fst (hw_pwrite hw fd (ucast (CHA_CBO_FILTER_ADDRESS ! j)) FILTER_BOX_VALUE h))"
  using pmu_event [OF laws, of j SELECTED_EVENT h fd] pmu_control [OF laws, of j RESET_COUNTERS h fd]
    pmu_filter [OF laws, of j FILTER_BOX_VALUE h fd]
  by (auto simp: session_def event_law_def control_law_def filter_law_def less_Suc_eq)



lemma read_counters_ok:
  assumes acc: "msr_accessible hw" and laws: "pmu_laws hw pv home"
  shows "i + n \<le> NUMBER_SLICES \<Longrightarrow>
    \<exists>st'. read_counters hw i n st = (st', Ret (map (cnt pv (mach st)) [i..<i + n])) \<and> mach st' = mach st"
proof (induction n arbitrary: i st)
  case (Suc n)
  obtain st1 where 1: "rdmsr_on_cpu_0 hw (ucast (CHA_CBO_COUNTER_ADDRESS ! i)) st = (st1, Ret (cnt pv (mach st) i))"
      "mach st1 = mach st"
    using rdmsr_ok [OF acc laws, of i st] Suc.prems by auto
  with Suc.IH [of "Suc i" st1] Suc.prems show ?case
    by (auto simp: and_then_def upt_conv_Cons simp del: upt_Suc)
qed simp



section \<open>An idealised monitor\<close>

text \<open>A machine that satisfies the laws, for the examples: its registers and the freeze bit.\<close>

record ideal =
  i_cnt :: "nat \<Rightarrow> u64"
  i_event :: "nat \<Rightarrow> u64"
  i_filter :: "nat \<Rightarrow> u64"
  i_run :: bool

definition box_of :: "u64 list \<Rightarrow> u32 \<Rightarrow> nat option" where
  "box_of addrs reg = List.find (\<lambda>i. ucast (addrs ! i) = reg) [0..<NUMBER_SLICES]"

definition ideal_write :: "u32 \<Rightarrow> u64 \<Rightarrow> ideal \<Rightarrow> ideal" where
  "ideal_write reg v h =
     (if reg = PMON_GLOBAL_CTL_ADDRESS then h\<lparr>i_run := (if bit v 31 then False else if bit v 29 then True else i_run h)\<rparr>
      else case box_of CHA_CBO_EVENT_ADDRESS reg of
        Some i \<Rightarrow> h\<lparr>i_cnt := (if bit v 17 then (i_cnt h)(i := 0) else i_cnt h), i_event := (i_event h)(i := v)\<rparr>
      | None \<Rightarrow> (case box_of CHA_CBO_CTL_ADDRESS reg of
        Some i \<Rightarrow> h\<lparr>i_cnt := (if bit v 1 then (i_cnt h)(i := 0) else i_cnt h),
                    i_event := (if bit v 0 then (i_event h)(i := 0) else i_event h)\<rparr>
      | None \<Rightarrow> (case box_of CHA_CBO_FILTER_ADDRESS reg of
        Some i \<Rightarrow> h\<lparr>i_filter := (i_filter h)(i := v)\<rparr>
      | None \<Rightarrow> h)))"

definition ideal_pmu :: "(u64 \<Rightarrow> nat) \<Rightarrow> ideal hardware" where
  "ideal_pmu home = \<lparr>hw_open = (\<lambda>w h. (h, Inr 3)),
     hw_pread = (\<lambda>fd reg h. (h, case box_of CHA_CBO_COUNTER_ADDRESS reg of
        Some i \<Rightarrow> Inr (i_cnt h i) | None \<Rightarrow> Inr 0)),
     hw_pwrite = (\<lambda>fd reg v h. (ideal_write reg v h, None)),
     hw_clflush = (\<lambda>va h. let s = home va in
        if i_run h \<and> counts_lookups (i_event h s) (i_filter h s)
        then h\<lparr>i_cnt := (i_cnt h)(s := i_cnt h s + 1)\<rparr> else h)\<rparr>"

definition ideal_view :: "ideal pmu_view" where
  "ideal_view = \<lparr>cnt = i_cnt, event = i_event, box_filter = i_filter, running = i_run\<rparr>"

lemma ideal_pmu_accessible: "msr_accessible (ideal_pmu home)"
  by (auto simp: msr_accessible_def ideal_pmu_def)

lemma box_registers_all:
  "list_all (\<lambda>i. box_of CHA_CBO_COUNTER_ADDRESS (ucast (CHA_CBO_COUNTER_ADDRESS ! i)) = Some i \<and>
    box_of CHA_CBO_EVENT_ADDRESS (ucast (CHA_CBO_EVENT_ADDRESS ! i)) = Some i \<and>
    box_of CHA_CBO_EVENT_ADDRESS (ucast (CHA_CBO_CTL_ADDRESS ! i)) = None \<and>
    box_of CHA_CBO_CTL_ADDRESS (ucast (CHA_CBO_CTL_ADDRESS ! i)) = Some i \<and>
    box_of CHA_CBO_EVENT_ADDRESS (ucast (CHA_CBO_FILTER_ADDRESS ! i)) = None \<and>
    box_of CHA_CBO_CTL_ADDRESS (ucast (CHA_CBO_FILTER_ADDRESS ! i)) = None \<and>
    box_of CHA_CBO_FILTER_ADDRESS (ucast (CHA_CBO_FILTER_ADDRESS ! i)) = Some i \<and>
    ucast (CHA_CBO_CTL_ADDRESS ! i) \<noteq> PMON_GLOBAL_CTL_ADDRESS \<and>
    ucast (CHA_CBO_EVENT_ADDRESS ! i) \<noteq> PMON_GLOBAL_CTL_ADDRESS \<and>
    ucast (CHA_CBO_FILTER_ADDRESS ! i) \<noteq> PMON_GLOBAL_CTL_ADDRESS) [0..<8]"
  by code_simp

lemma box_registers:
  assumes "i < NUMBER_SLICES"
  shows "box_of CHA_CBO_COUNTER_ADDRESS (ucast (CHA_CBO_COUNTER_ADDRESS ! i)) = Some i"
    "box_of CHA_CBO_EVENT_ADDRESS (ucast (CHA_CBO_EVENT_ADDRESS ! i)) = Some i"
    "box_of CHA_CBO_EVENT_ADDRESS (ucast (CHA_CBO_CTL_ADDRESS ! i)) = None"
    "box_of CHA_CBO_CTL_ADDRESS (ucast (CHA_CBO_CTL_ADDRESS ! i)) = Some i"
    "box_of CHA_CBO_EVENT_ADDRESS (ucast (CHA_CBO_FILTER_ADDRESS ! i)) = None"
    "box_of CHA_CBO_CTL_ADDRESS (ucast (CHA_CBO_FILTER_ADDRESS ! i)) = None"
    "box_of CHA_CBO_FILTER_ADDRESS (ucast (CHA_CBO_FILTER_ADDRESS ! i)) = Some i"
    "ucast (CHA_CBO_CTL_ADDRESS ! i) \<noteq> PMON_GLOBAL_CTL_ADDRESS"
    "ucast (CHA_CBO_EVENT_ADDRESS ! i) \<noteq> PMON_GLOBAL_CTL_ADDRESS"
    "ucast (CHA_CBO_FILTER_ADDRESS ! i) \<noteq> PMON_GLOBAL_CTL_ADDRESS"
  using assms box_registers_all by (simp_all add: list_all_iff NUMBER_SLICES_def)

lemma ideal_pmu_laws: "pmu_laws (ideal_pmu home) ideal_view home"
  by (simp add: pmu_laws_def ideal_pmu_def ideal_view_def ideal_write_def box_registers Let_def
      global_law_def event_law_def control_law_def filter_law_def flush_law_def)

definition cold :: "ideal msr_state" where
  "cold = \<lparr>rd_fd = -1, wr_fd = -1, mach = \<lparr>i_cnt = (\<lambda>_. 17), i_event = (\<lambda>_. 0), i_filter = (\<lambda>_. 0), i_run = True\<rparr>\<rparr>"

section \<open>Properties\<close>

text \<open>
  When the registers can be accessed, \<^verbatim>\<open>find_CHA_CBO\<close> returns the first slice whose
  counter is greatest, whatever the counters hold.
\<close>

theorem find_CHA_CBO_first_max:
  assumes "msr_accessible hw" and "pmu_laws hw pv home"
  shows "\<exists>st' k. find_CHA_CBO hw st = (st', Ret k) \<and>
    first_max (map (cnt pv (mach st)) [0..<NUMBER_SLICES]) k"
proof -
  let ?vs = "map (cnt pv (mach st)) [0..<NUMBER_SLICES]"
  obtain st2 where "read_counters hw 0 NUMBER_SLICES st = (st2, Ret ?vs)"
    using read_counters_ok [OF assms, of 0 NUMBER_SLICES st] by auto
  moreover have "first_max ?vs (find_max ?vs 0 0 0)"
    by (rule find_max_first [THEN conjunct1]) (simp add: NUMBER_SLICES_def)
  ultimately show ?thesis by (simp add: find_CHA_CBO_def and_then_def)
qed

theorem find_CHA_CBO_first_max_witness:
  "\<exists>st' k. find_CHA_CBO (ideal_pmu (\<lambda>_. 5)) cold = (st', Ret k) \<and> k < 8"
  using find_CHA_CBO_first_max [OF ideal_pmu_accessible ideal_pmu_laws, of "\<lambda>_. 5" cold]
  by (auto simp: first_max_def NUMBER_SLICES_def)



text \<open>
  An access to a register that the system refuses ends the process with the documented
  status: 2 without a CPU, 3 without register support, 4 for a failed access, 127 otherwise.
\<close>

theorem rdmsr_exit_status:
  assumes "rdmsr_on_cpu_0 hw reg st = (st', Exit n)"
  shows "n \<in> {2, 3, 4, 127} \<and>
    (n = 2 \<longrightarrow> rd_fd st < 0 \<and> snd (hw_open hw False (mach st)) = Inl ENXIO) \<and>
    (n = 3 \<longrightarrow> rd_fd st < 0 \<and> snd (hw_open hw False (mach st)) = Inl EIO)"
  using assms
  by (auto simp: rdmsr_on_cpu_0_def open_exit_def access_exit_def Let_def split: if_splits prod.splits sum.splits)

theorem rdmsr_exit_status_witness:
  "\<exists>st'. rdmsr_on_cpu_0 ((ideal_pmu (\<lambda>_. 0))\<lparr>hw_open := (\<lambda>w h. (h, Inl ENXIO))\<rparr>) 0x0E08 cold = (st', Exit 2) \<and>
    rd_fd cold < 0"
proof -
  let ?hw = "(ideal_pmu (\<lambda>_. 0))\<lparr>hw_open := (\<lambda>w h. (h, Inl ENXIO))\<rparr>"
  have "rdmsr_on_cpu_0 ?hw 0x0E08 cold = (cold, Exit 2)"
    by (simp add: rdmsr_on_cpu_0_def cold_def open_exit_def)
  with rdmsr_exit_status [OF this] show ?thesis by simp
qed

end
