(* ===== verification/MbufSlice.thy ===== *)
theory MbufSlice
  imports Mbuf Slice Msr
begin

text \<open>
  Slice-aware packet buffers, the core of CacheDirector: \<^verbatim>\<open>rte_pktmbuf_slice_init\<close> stores
  for each LLC slice the offset of the first line of the buffer that lies in it, in the eight bytes
  of the user-data word, and \<^verbatim>\<open>rte_pktmbuf_set_slice\<close> moves the start of the data to such
  an offset. Both ways of finding the slices are modelled, the hash function of the default
  configuration and the polling of uncore counters.
\<close>

section \<open>The stored offsets\<close>

text \<open>The structure \<^verbatim>\<open>slice_off\<close> overlays \<^verbatim>\<open>udata64\<close>: \<open>slice0\<close> is its lowest byte.\<close>

definition slice_byte :: "nat \<Rightarrow> u64 \<Rightarrow> u8" where
  "slice_byte k w = ucast (drop_bit (8 * k) w)"

definition set_slice_byte :: "nat \<Rightarrow> u8 \<Rightarrow> u64 \<Rightarrow> u64" where
  "set_slice_byte k b w = (w AND NOT (push_bit (8 * k) 0xFF)) OR push_bit (8 * k) (ucast b)"

definition store_slice :: "nat \<Rightarrow> u16 \<Rightarrow> rte_mbuf \<Rightarrow> rte_mbuf" where
  "store_slice k off m = m\<lparr>udata64 := set_slice_byte k (ucast (off div 64)) (udata64 m)\<rparr>"

text \<open>\<^verbatim>\<open>rte_pktmbuf_slice_init\<close> of the default configuration (Haswell, hash function).\<close>

definition rte_pktmbuf_slice_init :: "rte_mbuf \<Rightarrow> rte_mbuf option" where
  "rte_pktmbuf_slice_init m = do {
     o0 \<leftarrow> sliceFinder_HF_haswell (buf_iova m) 0; m \<leftarrow> Some (store_slice 0 o0 m);
     o1 \<leftarrow> sliceFinder_HF_haswell (buf_iova m) 1; m \<leftarrow> Some (store_slice 1 o1 m);
     o2 \<leftarrow> sliceFinder_HF_haswell (buf_iova m) 2; m \<leftarrow> Some (store_slice 2 o2 m);
     o3 \<leftarrow> sliceFinder_HF_haswell (buf_iova m) 3; m \<leftarrow> Some (store_slice 3 o3 m);
     o4 \<leftarrow> sliceFinder_HF_haswell (buf_iova m) 4; m \<leftarrow> Some (store_slice 4 o4 m);
     o5 \<leftarrow> sliceFinder_HF_haswell (buf_iova m) 5; m \<leftarrow> Some (store_slice 5 o5 m);
     o6 \<leftarrow> sliceFinder_HF_haswell (buf_iova m) 6; m \<leftarrow> Some (store_slice 6 o6 m);
     o7 \<leftarrow> sliceFinder_HF_haswell (buf_iova m) 7; m \<leftarrow> Some (store_slice 7 o7 m);
     Some m }"

definition rte_pktmbuf_set_slice :: "rte_mbuf \<Rightarrow> int \<Rightarrow> rte_mbuf" where
  "rte_pktmbuf_set_slice m slice_number =
     (if slice_number = 0 then m\<lparr>data_off := ucast (slice_byte 0 (udata64 m)) * 64\<rparr>
      else if slice_number = 1 then m\<lparr>data_off := ucast (slice_byte 1 (udata64 m)) * 64\<rparr>
      else if slice_number = 2 then m\<lparr>data_off := ucast (slice_byte 2 (udata64 m)) * 64\<rparr>
      else if slice_number = 3 then m\<lparr>data_off := ucast (slice_byte 3 (udata64 m)) * 64\<rparr>
      else if slice_number = 4 then m\<lparr>data_off := ucast (slice_byte 4 (udata64 m)) * 64\<rparr>
      else if slice_number = 5 then m\<lparr>data_off := ucast (slice_byte 5 (udata64 m)) * 64\<rparr>
      else if slice_number = 6 then m\<lparr>data_off := ucast (slice_byte 6 (udata64 m)) * 64\<rparr>
      else if slice_number = 7 then m\<lparr>data_off := ucast (slice_byte 7 (udata64 m)) * 64\<rparr>
      else m\<lparr>data_off := RTE_PKTMBUF_HEADROOM\<rparr>)"

section \<open>Finding the slices by polling\<close>

text \<open>
  The loop of the polling configurations. The slice of an address comes from \<open>calc\<close>, the core it
  belongs to from \<open>core\<close> (which keeps the last core when the slice is unknown). \<open>found\<close> has a bit per
  core. A core number outside the array of eight offsets is undefined behaviour.
\<close>

partial_function (option) fill_offsets ::
  "(u64 \<Rightarrow> 's \<Rightarrow> 's \<times> u8 outcome) \<Rightarrow> (u8 \<Rightarrow> u8 \<Rightarrow> u8) \<Rightarrow> addr \<Rightarrow> u64 \<Rightarrow> u8 \<Rightarrow> u8 \<Rightarrow> u16 list \<Rightarrow> 's \<Rightarrow> ('s \<times> u16 list outcome) option" where
  "fill_offsets calc core va offset current_slice found offs st =
     (if found = 255 then Some (st, Ret offs)
      else case calc (va + offset) st of
        (st, Exit n) \<Rightarrow> Some (st, Exit n)
      | (st, Ret s) \<Rightarrow>
          (let cur = core s current_slice in
           if unat cur < 8 then
             if found AND push_bit (unat cur) 1 = 0 then
               (let offset = (if offset > ucast RTE_PKTMBUF_HEADROOM then ucast RTE_PKTMBUF_HEADROOM else offset)
                in fill_offsets calc core va (offset + ucast LINE) cur (found OR push_bit (unat cur) 1)
                     (offs[unat cur := ucast offset]) st)
             else fill_offsets calc core va (offset + ucast LINE) cur found offs st
           else None))"

definition store_offsets :: "u16 list \<Rightarrow> rte_mbuf \<Rightarrow> rte_mbuf" where
  "store_offsets offs m = fold (\<lambda>k. store_slice k (offs ! k)) [0, 1, 2, 3, 4, 5, 6, 7] m"



text \<open>The cores of the slices of a Skylake processor.\<close>

definition skylake_core :: "u8 \<Rightarrow> u8 \<Rightarrow> u8" where
  "skylake_core s current_slice =
     (if s = 0 \<or> s = 2 \<or> s = 6 then 0
      else if s = 4 \<or> s = 1 then 1
      else if s = 8 \<or> s = 11 then 2
      else if s = 12 \<or> s = 13 then 3
      else if s = 10 \<or> s = 7 \<or> s = 9 then 4
      else if s = 14 \<or> s = 16 then 5
      else if s = 3 \<or> s = 5 then 6
      else if s = 15 \<or> s = 17 then 7
      else current_slice)"

text \<open>
  The Skylake variant takes the slice of an address as a parameter: the register tables of that
  processor are a build option of \<^verbatim>\<open>librte_msr\<close> that is off by default.
\<close>

definition slice_init_skylake ::
  "(u64 \<Rightarrow> 's \<Rightarrow> 's \<times> u8 outcome) \<Rightarrow> rte_mbuf \<Rightarrow> 's \<Rightarrow> ('s \<times> rte_mbuf outcome) option" where
  "slice_init_skylake calc m st = do {
     (st, r) \<leftarrow> fill_offsets calc skylake_core (buf_addr m) 0 0 0 (replicate 8 0) st;
     (case r of Exit n \<Rightarrow> Some (st, Exit n) | Ret offs \<Rightarrow> Some (st, Ret (store_offsets offs m))) }"

section \<open>The constructor\<close>

definition zero_mbuf :: rte_mbuf where
  "zero_mbuf = \<lparr>buf_addr = 0, buf_iova = 0, data_off = 0, refcnt = 0, nb_segs = 0, port = 0, ol_flags = 0,
     packet_type = 0, pkt_len = 0, data_len = 0, vlan_tci = 0, hash = 0, vlan_tci_outer = 0, buf_len = 0,
     timestamp = 0, udata64 = 0, pool = NULL, nxt = NULL, tx_offload = 0, priv_size = 0, timesync = 0, seqn = 0,
     shinfo = NULL\<rparr>"

definition rte_pktmbuf_init :: "addr \<Rightarrow> addr \<Rightarrow> mbuf_heap \<Rightarrow> mbuf_heap option" where
  "rte_pktmbuf_init mp m st = do {
     p \<leftarrow> rte_pktmbuf_priv_size st mp;
     blen \<leftarrow> rte_pktmbuf_data_room_size st mp;
     (let mbuf_size = sizeof_rte_mbuf + ucast p;
          x = zero_mbuf\<lparr>priv_size := p, buf_addr := m + mbuf_size, buf_iova := obj_iova st m + mbuf_size, buf_len := blen\<rparr>;
          x = x\<lparr>data_off := min RTE_PKTMBUF_HEADROOM (buf_len x)\<rparr>
      in do {
        x \<leftarrow> rte_pktmbuf_slice_init x;
        Some (st\<lparr>mbufs := (mbufs st)(m \<mapsto>
          x\<lparr>pool := mp, nb_segs := 1, port := MBUF_INVALID_PORT, refcnt := 1, nxt := NULL\<rparr>)\<rparr>) }) }"

section \<open>Bytes of the user-data word\<close>

lemma slice_byte_set:
  assumes "k < 8" "j < 8"
  shows "slice_byte k (set_slice_byte j b w) = (if k = j then b else slice_byte k w)"
proof -
  have ff: "(0xFF :: u64) = mask 8" by (simp add: mask_eq_exp_minus_1)
  have "bit (slice_byte k (set_slice_byte j b w)) n = bit (if k = j then b else slice_byte k w) n" if n: "n < 8" for n
  proof (cases "k = j")
    case True
    with n assms show ?thesis by (auto simp: slice_byte_def set_slice_byte_def ff bit_simps)
  next
    case False
    then have "8 * j + 8 \<le> 8 * k + n \<or> 8 * k + n < 8 * j" using n by linarith
    with False n assms show ?thesis
      by (auto simp: slice_byte_def set_slice_byte_def ff bit_simps dest: bit_imp_le_length)
  qed
  then show ?thesis by (intro bit_word_eqI) simp
qed

lemma slice_byte_store:
  "k < 8 \<Longrightarrow> j < 8 \<Longrightarrow> slice_byte k (udata64 (store_slice j off m)) =
    (if k = j then ucast (off div 64) else slice_byte k (udata64 m))"
  by (simp add: store_slice_def slice_byte_set)

lemma store_slice_buf [simp]: "buf_iova (store_slice k off m) = buf_iova m" "buf_addr (store_slice k off m) = buf_addr m"
  by (simp_all add: store_slice_def)

text \<open>An offset of at most 255 lines survives the division by 64 and the storage in a byte.\<close>

lemma offset_byte:
  assumes "64 dvd unat (off :: u16)" "off \<le> 896"
  shows "ucast (ucast (off div 64) :: u8) * 64 = off"
proof -
  have d: "unat (off div 64) = unat off div 64" by (simp add: unat_div)
  then have "unat (off div 64) < 2 ^ 8" using assms(2) by (simp add: word_le_nat_alt)
  then have "unat (ucast (off div 64) :: u8) = unat off div 64"
    using d by (simp add: unsigned_ucast_eq take_bit_nat_eq_self)
  then have "unat (ucast (ucast (off div 64) :: u8) :: u16) = unat off div 64" by simp
  moreover have "unat off div 64 * 64 = unat off" using assms(1) by simp
  ultimately have "unat (ucast (ucast (off div 64) :: u8) * 64 :: u16) = unat off"
    using unat_lt_2p [of off] by (simp add: unat_word_ariths)
  then show ?thesis by (simp add: word_unat_eq_iff)
qed

section \<open>Buffers that know their slices\<close>

text \<open>The user-data word holds the offset of the first line of every slice.\<close>

definition slices_ready :: "rte_mbuf \<Rightarrow> bool" where
  "slices_ready m \<longleftrightarrow> (\<forall>s \<in> {0, 1, 2, 3, 4, 5, 6, 7}.
     sliceFinder_HF_haswell (buf_iova m) (of_nat s) = Some (ucast (slice_byte s (udata64 m)) * 64))"

lemma slices_ready_cong:
  "buf_iova m' = buf_iova m \<Longrightarrow> udata64 m' = udata64 m \<Longrightarrow> slices_ready m' = slices_ready m"
  by (simp add: slices_ready_def)

lemma slice_init_ready: "\<exists>m'. rte_pktmbuf_slice_init m = Some m' \<and> slices_ready m' \<and> m' = m\<lparr>udata64 := udata64 m'\<rparr>"
proof -
  have ex: "\<exists>off. sliceFinder_HF_haswell (buf_iova m) s = Some off \<and> ucast (ucast (off div 64) :: u8) * 64 = off" if "s < 8" for s
    using sliceFinder_first [OF that, of "buf_iova m"] offset_byte by blast
  obtain o0 o1 o2 o3 o4 o5 o6 o7 where o:
    "sliceFinder_HF_haswell (buf_iova m) 0 = Some o0" "ucast (ucast (o0 div 64) :: u8) * 64 = o0"
    "sliceFinder_HF_haswell (buf_iova m) 1 = Some o1" "ucast (ucast (o1 div 64) :: u8) * 64 = o1"
    "sliceFinder_HF_haswell (buf_iova m) 2 = Some o2" "ucast (ucast (o2 div 64) :: u8) * 64 = o2"
    "sliceFinder_HF_haswell (buf_iova m) 3 = Some o3" "ucast (ucast (o3 div 64) :: u8) * 64 = o3"
    "sliceFinder_HF_haswell (buf_iova m) 4 = Some o4" "ucast (ucast (o4 div 64) :: u8) * 64 = o4"
    "sliceFinder_HF_haswell (buf_iova m) 5 = Some o5" "ucast (ucast (o5 div 64) :: u8) * 64 = o5"
    "sliceFinder_HF_haswell (buf_iova m) 6 = Some o6" "ucast (ucast (o6 div 64) :: u8) * 64 = o6"
    "sliceFinder_HF_haswell (buf_iova m) 7 = Some o7" "ucast (ucast (o7 div 64) :: u8) * 64 = o7"
    using ex [of 0] ex [of 1] ex [of 2] ex [of 3] ex [of 4] ex [of 5] ex [of 6] ex [of 7] by auto
  let ?m = "store_slice 7 o7 (store_slice 6 o6 (store_slice 5 o5 (store_slice 4 o4
    (store_slice 3 o3 (store_slice 2 o2 (store_slice 1 o1 (store_slice 0 o0 m)))))))"
  have "rte_pktmbuf_slice_init m = Some ?m" using o by (simp add: rte_pktmbuf_slice_init_def)
  moreover have "slices_ready ?m" using o by (simp add: slices_ready_def slice_byte_store)
  moreover have "?m = m\<lparr>udata64 := udata64 ?m\<rparr>" by (simp add: store_slice_def)
  ultimately show ?thesis by blast
qed

lemma set_slice_nat:
  "s < 8 \<Longrightarrow> rte_pktmbuf_set_slice m (int s) = m\<lparr>data_off := ucast (slice_byte s (udata64 m)) * 64\<rparr>"
  by (auto simp: rte_pktmbuf_set_slice_def less_Suc_eq numeral_eq_Suc)

lemma set_slice_keeps: "slices_ready (rte_pktmbuf_set_slice m k) = slices_ready m"
  by (rule slices_ready_cong) (simp_all add: rte_pktmbuf_set_slice_def)

section \<open>Properties\<close>

lemma set_slice_data:
  assumes ready: "slices_ready m" and s: "s < 8"
  shows "calculateSlice_HF_haswell (rte_mbuf_data_iova (rte_pktmbuf_set_slice m (int s))) = of_nat s \<and>
    data_off (rte_pktmbuf_set_slice m (int s)) \<le> 896 \<and>
    (unat (buf_iova m) mod 2 ^ 26 < 2 ^ 26 - 512 \<longrightarrow> data_off (rte_pktmbuf_set_slice m (int s)) \<le> RTE_PKTMBUF_HEADROOM)"
proof -
  have "s \<in> {0, 1, 2, 3, 4, 5, 6, 7}" using s by auto
  then have f: "sliceFinder_HF_haswell (buf_iova m) (of_nat s) = Some (ucast (slice_byte s (udata64 m)) * 64)"
    using ready unfolding slices_ready_def by blast
  have "(of_nat s :: u8) < 8" using s by (simp add: word_less_nat_alt unat_of_nat_small)
  then obtain off where off: "sliceFinder_HF_haswell (buf_iova m) (of_nat s) = Some off" "off \<le> 896"
      "calculateSlice_HF_haswell (buf_iova m + ucast off) = of_nat s"
      "unat (buf_iova m) mod 2 ^ 26 < 2 ^ 26 - 512 \<longrightarrow> off \<le> 832"
    using sliceFinder_first [of "of_nat s" "buf_iova m"] by blast
  then have "off = ucast (slice_byte s (udata64 m)) * 64" using f by simp
  with off s show ?thesis by (simp add: set_slice_nat rte_mbuf_data_iova_def RTE_PKTMBUF_HEADROOM_def)
qed

text \<open>
  C1: a packet buffer made by the constructor can be placed in any slice. For every pool and
  object \<^verbatim>\<open>rte_pktmbuf_init\<close> ends, and afterwards \<^verbatim>\<open>rte_pktmbuf_set_slice\<close> with a number
  below 8 moves the start of the data to a line of exactly that slice, at most 896 bytes into the
  buffer and inside the configured headroom unless the buffer starts in the last 512 bytes of a
  64 MiB region; any other number selects the default headroom.
\<close>

theorem init_set_slice:
  assumes "pool_privs st mp = Some pp"
  shows "\<exists>st' x. rte_pktmbuf_init mp m st = Some st' \<and> mbufs st' m = Some x \<and> slices_ready x \<and>
    (\<forall>s < 8. calculateSlice_HF_haswell (rte_mbuf_data_iova (rte_pktmbuf_set_slice x (int s))) = of_nat s \<and>
      data_off (rte_pktmbuf_set_slice x (int s)) \<le> 896 \<and>
      (unat (buf_iova x) mod 2 ^ 26 < 2 ^ 26 - 512 \<longrightarrow> data_off (rte_pktmbuf_set_slice x (int s)) \<le> RTE_PKTMBUF_HEADROOM)) \<and>
    (\<forall>k. k < 0 \<or> 7 < k \<longrightarrow> data_off (rte_pktmbuf_set_slice x k) = RTE_PKTMBUF_HEADROOM)"
proof -
  define sz where "sz = sizeof_rte_mbuf + ucast (mbuf_priv_size pp)"
  define x0 where "x0 = zero_mbuf\<lparr>priv_size := mbuf_priv_size pp, buf_addr := m + sz, buf_iova := obj_iova st m + sz,
    buf_len := mbuf_data_room_size pp, data_off := min RTE_PKTMBUF_HEADROOM (mbuf_data_room_size pp)\<rparr>"
  obtain x1 where x1: "rte_pktmbuf_slice_init x0 = Some x1" "slices_ready x1" using slice_init_ready by blast
  define x where "x = x1\<lparr>pool := mp, nb_segs := 1, port := MBUF_INVALID_PORT, refcnt := 1, nxt := NULL\<rparr>"
  have "rte_pktmbuf_init mp m st = Some (st\<lparr>mbufs := (mbufs st)(m \<mapsto> x)\<rparr>)"
    using assms x1(1)
    by (simp add: rte_pktmbuf_init_def rte_pktmbuf_priv_size_def rte_pktmbuf_data_room_size_def x0_def sz_def x_def Let_def)
  moreover have "mbufs (st\<lparr>mbufs := (mbufs st)(m \<mapsto> x)\<rparr>) m = Some x" by simp
  moreover have ready: "slices_ready x" using x1(2) slices_ready_cong [of x x1] by (simp add: x_def)
  moreover have "data_off (rte_pktmbuf_set_slice x k) = RTE_PKTMBUF_HEADROOM" if "k < 0 \<or> 7 < k" for k
    using that by (auto simp: rte_pktmbuf_set_slice_def)
  ultimately show ?thesis using set_slice_data [OF ready] by blast
qed

theorem init_set_slice_witness:
  "\<exists>st' x. rte_pktmbuf_init 0x100 0x4000 (ex_heap\<lparr>pool_privs := [0x100 \<mapsto> \<lparr>mbuf_data_room_size = 2880, mbuf_priv_size = 0\<rparr>]\<rparr>) = Some st' \<and>
    mbufs st' 0x4000 = Some x \<and> calculateSlice_HF_haswell (rte_mbuf_data_iova (rte_pktmbuf_set_slice x 5)) = 5"
proof -
  let ?st = "ex_heap\<lparr>pool_privs := [0x100 \<mapsto> \<lparr>mbuf_data_room_size = 2880, mbuf_priv_size = 0\<rparr>]\<rparr>"
  have "pool_privs ?st 0x100 = Some \<lparr>mbuf_data_room_size = 2880, mbuf_priv_size = 0\<rparr>" by simp
  from init_set_slice [OF this, of "0x4000"] obtain st' x where
    x: "rte_pktmbuf_init 0x100 0x4000 ?st = Some st'" "mbufs st' 0x4000 = Some x"
      "\<forall>s < 8. calculateSlice_HF_haswell (rte_mbuf_data_iova (rte_pktmbuf_set_slice x (int s))) = of_nat s"
    by blast
  from x(3) [rule_format, of 5] have "calculateSlice_HF_haswell (rte_mbuf_data_iova (rte_pktmbuf_set_slice x 5)) = 5" by simp
  with x(1,2) show ?thesis by blast
qed

text \<open>A direct buffer that uses its own memory, as the constructor leaves it.\<close>

definition at_home :: "mbuf_heap \<Rightarrow> addr \<Rightarrow> rte_mbuf \<Rightarrow> bool" where
  "at_home st m x \<longleftrightarrow> RTE_MBUF_DIRECT x \<and> (\<exists>pp. pool_privs st (pool x) = Some pp \<and> priv_size x = mbuf_priv_size pp \<and>
     buf_len x = mbuf_data_room_size pp \<and> buf_addr x = m + (sizeof_rte_mbuf + ucast (mbuf_priv_size pp)) \<and>
     buf_iova x = obj_iova st m + (sizeof_rte_mbuf + ucast (mbuf_priv_size pp)))"

lemma at_home_from_indirect: "at_home st m x \<Longrightarrow> rte_mbuf_from_indirect x = m"
  by (auto simp: at_home_def rte_mbuf_from_indirect_def)

lemma direct_no_extbuf: "RTE_MBUF_DIRECT x \<Longrightarrow> \<not> RTE_MBUF_HAS_EXTBUF x"
proof -
  assume "RTE_MBUF_DIRECT x"
  then have "bit (ol_flags x AND (IND_ATTACHED_MBUF OR EXT_ATTACHED_MBUF)) n = False" for n
    by (simp add: RTE_MBUF_DIRECT_def)
  then have "ol_flags x AND EXT_ATTACHED_MBUF = 0" by (intro bit_word_eqI) (auto simp: bit_simps)
  then show ?thesis by (simp add: RTE_MBUF_HAS_EXTBUF_def)
qed

lemma ind_no_extbuf:
  assumes "RTE_MBUF_DIRECT x" "ol_flags y = ol_flags x OR IND_ATTACHED_MBUF"
  shows "\<not> RTE_MBUF_HAS_EXTBUF y"
proof -
  have "(ol_flags x OR IND_ATTACHED_MBUF) AND EXT_ATTACHED_MBUF = (ol_flags x AND EXT_ATTACHED_MBUF) OR (IND_ATTACHED_MBUF AND EXT_ATTACHED_MBUF)"
    by (simp add: bit.conj_disj_distrib2)
  also have "\<dots> = 0" using direct_no_extbuf [OF assms(1)]
    by (simp add: RTE_MBUF_HAS_EXTBUF_def IND_ATTACHED_MBUF_def EXT_ATTACHED_MBUF_def)
  finally show ?thesis using assms(2) by (simp add: RTE_MBUF_HAS_EXTBUF_def)
qed

text \<open>
  C36: attaching a buffer to the data of another and detaching it again. The attach shares the data
  and takes one more reference; the detach gives the reference back, leaves the buffer with the
  data exactly as it was, and returns the attached buffer to its own memory, with the stored slice
  offsets valid again.
\<close>

theorem attach_detach:
  assumes mi: "mbufs st mi = Some xi" "at_home st mi xi" "slices_ready xi"
    and md: "mbufs st md = Some xd" "at_home st md xd" "mi \<noteq> md" "refcnt xd \<noteq> 0" "refcnt xd \<noteq> 0xFFFF"
  shows "\<exists>st1 xa st2 y. rte_pktmbuf_attach mi md st = Some st1 \<and> mbufs st1 mi = Some xa \<and>
      buf_addr xa = buf_addr xd \<and> data_off xa = data_off xd \<and> data_len xa = data_len xd \<and>
      mbufs st1 md = Some (xd\<lparr>refcnt := refcnt xd + 1\<rparr>) \<and>
    rte_pktmbuf_detach tbl lcore mi st1 = Some st2 \<and> mbufs st2 md = Some xd \<and>
      mbufs st2 mi = Some y \<and> at_home st2 mi y \<and> slices_ready y"
proof -
  obtain pp where pp: "pool_privs st (pool xi) = Some pp" "buf_iova xi = obj_iova st mi + (sizeof_rte_mbuf + ucast (mbuf_priv_size pp))"
    using mi(2) by (auto simp: at_home_def)
  define xa where "xa = attach_copy (xi\<lparr>priv_size := priv_size xd, ol_flags := ol_flags xd OR IND_ATTACHED_MBUF\<rparr>) xd"
  define st1 where "st1 = st\<lparr>mbufs := (mbufs st)(md \<mapsto> xd\<lparr>refcnt := refcnt xd + 1\<rparr>, mi \<mapsto> xa)\<rparr>"
  have dd: "RTE_MBUF_DIRECT xd" using md(2) by (simp add: at_home_def)
  have at: "rte_pktmbuf_attach mi md st = Some st1"
    using mi md direct_no_extbuf [OF dd] at_home_from_indirect [OF md(2)]
    by (simp add: rte_pktmbuf_attach_def refcnt_add_def refcnt_update_eq with_mbuf_def st1_def xa_def)
  have ne: "\<not> RTE_MBUF_HAS_EXTBUF xa" by (rule ind_no_extbuf [OF dd]) (simp add: xa_def attach_copy_def)
  have fi: "rte_mbuf_from_indirect xa = md" using at_home_from_indirect [OF md(2)]
    by (simp add: xa_def attach_copy_def rte_mbuf_from_indirect_def)
  have "rte_pktmbuf_free_direct tbl lcore xa st1 = Some (st1\<lparr>mbufs := (mbufs st1)(md \<mapsto> xd)\<rparr>)"
    using md fi by (simp add: rte_pktmbuf_free_direct_def refcnt_add_def refcnt_update_eq st1_def)
  moreover have "pool xa = pool xi" by (simp add: xa_def attach_copy_def)
  moreover define y where "y = (rte_pktmbuf_reset_headroom (xa\<lparr>priv_size := mbuf_priv_size pp,
      buf_addr := mi + (sizeof_rte_mbuf + ucast (mbuf_priv_size pp)),
      buf_iova := obj_iova st mi + (sizeof_rte_mbuf + ucast (mbuf_priv_size pp)), buf_len := mbuf_data_room_size pp\<rparr>))
      \<lparr>data_len := 0, ol_flags := 0\<rparr>"
  ultimately have de: "rte_pktmbuf_detach tbl lcore mi st1 = Some (st1\<lparr>mbufs := (mbufs st1)(md \<mapsto> xd, mi \<mapsto> y)\<rparr>)"
    using ne pp(1) md(3) by (simp add: rte_pktmbuf_detach_def rte_pktmbuf_priv_size_def rte_pktmbuf_data_room_size_def
        with_mbuf_def st1_def y_def Let_def)
  have "at_home (st1\<lparr>mbufs := (mbufs st1)(md \<mapsto> xd, mi \<mapsto> y)\<rparr>) mi y"
    using pp(1) by (simp add: at_home_def y_def xa_def attach_copy_def rte_pktmbuf_reset_headroom_def RTE_MBUF_DIRECT_def st1_def)
  moreover have "slices_ready y" using mi(3) pp(2)
    by (subst slices_ready_cong [of y xi]) (simp_all add: y_def xa_def attach_copy_def rte_pktmbuf_reset_headroom_def)
  moreover have "buf_addr xa = buf_addr xd" "data_off xa = data_off xd" "data_len xa = data_len xd"
    by (simp_all add: xa_def attach_copy_def)
  moreover have "mbufs st1 mi = Some xa" "mbufs st1 md = Some (xd\<lparr>refcnt := refcnt xd + 1\<rparr>)" using md(3) by (simp_all add: st1_def)
  moreover have "mbufs (st1\<lparr>mbufs := (mbufs st1)(md \<mapsto> xd, mi \<mapsto> y)\<rparr>) md = Some xd"
      "mbufs (st1\<lparr>mbufs := (mbufs st1)(md \<mapsto> xd, mi \<mapsto> y)\<rparr>) mi = Some y" using md(3) by simp_all
  ultimately show ?thesis using at de by blast
qed

theorem attach_detach_witness:
  "\<exists>st st1 st2. mbufs st 0x2000 = Some (ex_mbuf 0x2000 60) \<and> rte_pktmbuf_attach 0x1000 0x2000 st = Some st1 \<and>
    rte_pktmbuf_detach ops_table 0 0x1000 st1 = Some st2 \<and> mbufs st2 0x2000 = Some (ex_mbuf 0x2000 60)"
proof -
  obtain x where x: "slices_ready x" "x = (ex_mbuf 0x1000 0)\<lparr>udata64 := udata64 x\<rparr>"
    using slice_init_ready [of "ex_mbuf 0x1000 0"] by blast
  let ?st = "ex_heap\<lparr>mbufs := [0x1000 \<mapsto> x, 0x2000 \<mapsto> ex_mbuf 0x2000 60],
    pool_privs := [0x100 \<mapsto> \<lparr>mbuf_data_room_size = 2880, mbuf_priv_size = 0\<rparr>]\<rparr>"
  have "at_home ?st 0x1000 ((ex_mbuf 0x1000 0)\<lparr>udata64 := udata64 x\<rparr>)"
    by (simp add: at_home_def ex_mbuf_def ex_heap_def RTE_MBUF_DIRECT_def sizeof_rte_mbuf_def)
  then have 1: "at_home ?st 0x1000 x" using x(2) by simp
  have 2: "at_home ?st 0x2000 (ex_mbuf 0x2000 60)"
    by (simp add: at_home_def ex_mbuf_def ex_heap_def RTE_MBUF_DIRECT_def sizeof_rte_mbuf_def)
  have "refcnt (ex_mbuf 0x2000 60) \<noteq> 0" "refcnt (ex_mbuf 0x2000 60) \<noteq> 0xFFFF" by (simp_all add: ex_mbuf_def)
  from attach_detach [OF _ 1 x(1) _ 2 _ this, of ops_table 0] obtain st1 st2 where
      "rte_pktmbuf_attach 0x1000 0x2000 ?st = Some st1" "rte_pktmbuf_detach ops_table 0 0x1000 st1 = Some st2"
      "mbufs st2 0x2000 = Some (ex_mbuf 0x2000 60)" by auto
  moreover have "mbufs ?st 0x2000 = Some (ex_mbuf 0x2000 60)" by simp
  ultimately show ?thesis by blast
qed

text \<open>Taking a buffer from its pool keeps it at home with valid slice offsets.\<close>

lemma reset_keeps_slices:
  "slices_ready (rte_pktmbuf_reset x) = slices_ready x"
  "at_home st m x \<Longrightarrow> at_home st m (rte_pktmbuf_reset x)"
  by (auto simp: rte_pktmbuf_reset_def rte_pktmbuf_reset_headroom_def slices_ready_def at_home_def RTE_MBUF_DIRECT_def Let_def)

section \<open>Polling finds the same offsets\<close>














section \<open>Noisy polling\<close>

lemma fill_offsets_bounded:
  assumes "fill_offsets calc core va offset cur found offs st = Some (st', Ret offs')"
    and "\<forall>x \<in> set offs. x \<le> RTE_PKTMBUF_HEADROOM"
  shows "\<forall>x \<in> set offs'. x \<le> RTE_PKTMBUF_HEADROOM"
proof -
  let ?B = "\<lambda>offs. \<forall>x \<in> set offs. x \<le> RTE_PKTMBUF_HEADROOM"
  let ?P = "\<lambda>calc core va offset cur found offs st r. ?B offs \<longrightarrow> (\<forall>offs'. snd r = Ret offs' \<longrightarrow> ?B offs')"
  have "?P calc core va offset cur found offs st (st', Ret offs')"
  proof (rule fill_offsets.raw_induct [where P = ?P, OF _ assms(1)])
    fix f and calc :: "u64 \<Rightarrow> 'a \<Rightarrow> 'a \<times> u8 outcome" and core va offset cur found offs st r
    assume IH: "\<And>calc core va offset cur found offs st r. f calc core va offset cur found offs st = Some r \<Longrightarrow> ?P calc core va offset cur found offs st r"
      and step: "(if found = 255 then Some (st, Ret offs)
        else case calc (va + offset) st of
          (st, Exit n) \<Rightarrow> Some (st, Exit n)
        | (st, Ret s) \<Rightarrow>
            (let cur = core s cur in
             if unat cur < 8 then
               if found AND push_bit (unat cur) 1 = 0 then
                 (let offset = (if offset > ucast RTE_PKTMBUF_HEADROOM then ucast RTE_PKTMBUF_HEADROOM else offset)
                  in f calc core va (offset + ucast LINE) cur (found OR push_bit (unat cur) 1)
                       (offs[unat cur := ucast offset]) st)
               else f calc core va (offset + ucast LINE) cur found offs st
             else None)) = Some r"
    have clamp: "ucast (if offset > ucast RTE_PKTMBUF_HEADROOM then ucast RTE_PKTMBUF_HEADROOM else offset) \<le> RTE_PKTMBUF_HEADROOM"
    proof (cases "offset > ucast RTE_PKTMBUF_HEADROOM")
      case False
      then have "unat offset \<le> 832" by (simp add: RTE_PKTMBUF_HEADROOM_def word_less_nat_alt)
      with False show ?thesis
        by (simp add: RTE_PKTMBUF_HEADROOM_def word_le_nat_alt unsigned_ucast_eq take_bit_nat_eq_self)
    qed (simp add: RTE_PKTMBUF_HEADROOM_def)
    have upd: "?B (offs[i := y])" if "?B offs" "y \<le> RTE_PKTMBUF_HEADROOM" for i y
      using that set_update_subset_insert [of offs i y] by blast
    show "?P calc core va offset cur found offs st r"
    proof (intro impI allI)
      fix offs' assume B: "?B offs" and r: "snd r = Ret offs'"
      show "?B offs'"
        using step r IH upd [OF B clamp] B
        by (auto simp: Let_def split: if_splits prod.splits outcome.splits)
    qed
  qed
  with assms(2) show ?thesis by simp
qed

text \<open>
  C37: however noisy the counters are and whichever core a slice is attributed to, the offsets the
  polling loop stores never exceed the configured headroom: the data segment of a buffer is never
  shrunk.
\<close>

theorem polling_keeps_headroom:
  assumes "fill_offsets calc core va 0 0 0 (replicate 8 0) st = Some (st', Ret offs)"
  shows "\<forall>x \<in> set offs. x \<le> RTE_PKTMBUF_HEADROOM"
  by (rule fill_offsets_bounded [OF assms]) simp

text \<open>A counter that names the slices one after the other, fifteen lines late for the last one.\<close>

definition late_slice :: "u64 \<Rightarrow> unit \<Rightarrow> unit \<times> u8 outcome" where
  "late_slice a st = (st, Ret (if a < 448 then ucast (a div 64) else if a < 896 then 0 else 7))"

theorem polling_keeps_headroom_witness:
  "\<exists>offs. fill_offsets late_slice (\<lambda>s _. s) 0 0 0 0 (replicate 8 0) () = Some ((), Ret offs) \<and> offs ! 7 = 832 \<and>
    (\<forall>x \<in> set offs. x \<le> RTE_PKTMBUF_HEADROOM)"
proof -
  have r8: "replicate 8 (0 :: u16) = [0, 0, 0, 0, 0, 0, 0, 0]" by (simp add: eval_nat_numeral)
  have run: "fill_offsets late_slice (\<lambda>s _. s) 0 0 0 0 (replicate 8 0) () = Some ((), Ret [0, 64, 128, 192, 256, 320, 384, 832])"
    unfolding r8
    by (subst fill_offsets.simps, simp add: late_slice_def LINE_def RTE_PKTMBUF_HEADROOM_def Let_def)+
  from polling_keeps_headroom [OF this] run show ?thesis by (intro exI [of _ "[0, 64, 128, 192, 256, 320, 384, 832]"]) simp
qed

end
