(* ===== verification/MbufPool.thy ===== *)
theory MbufPool
  imports MempoolCreate MbufSlice
begin

text \<open>
  Pools of packet buffers (\<^verbatim>\<open>lib/librte_mbuf/rte_mbuf.c\<close> and
  \<^verbatim>\<open>rte_mbuf_pool_ops.c\<close>): the choice of the pool driver, the constructor of a pool that runs
  the buffer constructor on every object, and the sanity check of buffers.
\<close>

section \<open>The name of the pool driver\<close>

text \<open>The two named memory zones that hold the names, and the name given to the EAL.\<close>

record mbuf_ops_names =
  platform_ops :: "string option"
  user_ops :: "string option"
  eal_user_ops :: "string option"
  ops_zone_err :: "errno option"

definition rte_mbuf_set_platform_mempool_ops :: "string \<Rightarrow> mbuf_ops_names \<Rightarrow> mbuf_ops_names \<times> int" where
  "rte_mbuf_set_platform_mempool_ops nm st =
     (if length nm \<ge> RTE_MEMPOOL_OPS_NAMESIZE then (st, - errno_code ENAMETOOLONG)
      else case platform_ops st of
        None \<Rightarrow> (case ops_zone_err st of Some e \<Rightarrow> (st, - errno_code e) | None \<Rightarrow> (st\<lparr>platform_ops := Some nm\<rparr>, 0))
      | Some old \<Rightarrow> if old = nm then (st, 0) else (st, - errno_code EEXIST))"

definition rte_mbuf_platform_mempool_ops :: "mbuf_ops_names \<Rightarrow> string option" where
  "rte_mbuf_platform_mempool_ops st = platform_ops st"

definition rte_mbuf_set_user_mempool_ops :: "string \<Rightarrow> mbuf_ops_names \<Rightarrow> mbuf_ops_names \<times> int" where
  "rte_mbuf_set_user_mempool_ops nm st =
     (if length nm \<ge> RTE_MEMPOOL_OPS_NAMESIZE then (st, - errno_code ENAMETOOLONG)
      else case (user_ops st, ops_zone_err st) of
        (None, Some e) \<Rightarrow> (st, - errno_code e)
      | _ \<Rightarrow> (st\<lparr>user_ops := Some nm\<rparr>, 0))"

definition rte_mbuf_user_mempool_ops :: "mbuf_ops_names \<Rightarrow> string option" where
  "rte_mbuf_user_mempool_ops st = (case user_ops st of None \<Rightarrow> eal_user_ops st | Some nm \<Rightarrow> Some nm)"

definition RTE_MBUF_DEFAULT_MEMPOOL_OPS :: string where
  "RTE_MBUF_DEFAULT_MEMPOOL_OPS = ''ring_mp_mc''"

definition rte_mbuf_best_mempool_ops :: "mbuf_ops_names \<Rightarrow> string" where
  "rte_mbuf_best_mempool_ops st =
     (case rte_mbuf_user_mempool_ops st of
        Some nm \<Rightarrow> nm
      | None \<Rightarrow> (case rte_mbuf_platform_mempool_ops st of Some nm \<Rightarrow> nm | None \<Rightarrow> RTE_MBUF_DEFAULT_MEMPOOL_OPS))"

section \<open>Creation\<close>

definition RTE_MBUF_PRIV_ALIGN :: u16 where
  "RTE_MBUF_PRIV_ALIGN = 8"

definition sizeof_pktmbuf_pool_private :: u32 where
  "sizeof_pktmbuf_pool_private = 4"

text \<open>The private data of the pool; no argument is the NULL that asks for the default.\<close>

definition rte_pktmbuf_pool_init :: "addr \<Rightarrow> rte_mempool \<Rightarrow> rte_pktmbuf_pool_private option \<Rightarrow> mbuf_heap \<Rightarrow> mbuf_heap" where
  "rte_pktmbuf_pool_init a mp user_mbp_priv st =
     (let mbp_priv = (case user_mbp_priv of
            Some p \<Rightarrow> p
          | None \<Rightarrow> \<lparr>mbuf_data_room_size = (if elt_size mp > ucast sizeof_rte_mbuf then ucast (elt_size mp - ucast sizeof_rte_mbuf) else 0),
                     mbuf_priv_size = 0\<rparr>)
      in st\<lparr>pool_privs := (pool_privs st)(a \<mapsto> mbp_priv)\<rparr>)"

text \<open>
  The object headers written during population are what \<^verbatim>\<open>rte_mempool_virt2iova\<close> reads.
\<close>

definition headers_written :: "rte_mempool \<Rightarrow> (addr \<Rightarrow> iova) \<Rightarrow> addr \<Rightarrow> iova" where
  "headers_written mp hdr a = (case map_of (elt_list mp) a of None \<Rightarrow> hdr a | Some io \<Rightarrow> io)"

definition rte_pktmbuf_pool_create_by_ops ::
  "rte_mempool_ops list \<Rightarrow> mbuf_ops_names \<Rightarrow> string \<Rightarrow> u32 \<Rightarrow> u32 \<Rightarrow> u16 \<Rightarrow> u16 \<Rightarrow> int \<Rightarrow> string option \<Rightarrow>
   mbuf_heap \<Rightarrow> eal_env \<Rightarrow> (eal_env \<times> mbuf_heap \<times> addr) option" where
  "rte_pktmbuf_pool_create_by_ops tbl names nm n csize psize room sock ops st env =
     (if RTE_ALIGN_CEIL psize RTE_MBUF_PRIV_ALIGN \<noteq> psize then Some (env\<lparr>eal_errno := errno_code EINVAL\<rparr>, st, NULL)
      else
        let esize = ucast sizeof_rte_mbuf + ucast psize + ucast room
        in do {
          (env, r) \<leftarrow> rte_mempool_create_empty nm n esize csize sizeof_pktmbuf_pool_private sock 0 env;
          (case r of None \<Rightarrow> Some (env, st, NULL)
           | Some (a, mp) \<Rightarrow>
               let mp_ops_name = (case ops of Some o' \<Rightarrow> o' | None \<Rightarrow> rte_mbuf_best_mempool_ops names);
                   (mp, ret) = rte_mempool_set_ops_byname tbl mp mp_ops_name NULL
               in if ret \<noteq> 0 then do { env \<leftarrow> rte_mempool_free tbl (Some (a, mp)) env; Some (env\<lparr>eal_errno := - ret\<rparr>, st, NULL) }
                  else
                    let st = rte_pktmbuf_pool_init a mp (Some \<lparr>mbuf_data_room_size = room, mbuf_priv_size = psize\<rparr>) st
                    in do {
                      (env, mp, ret) \<leftarrow> rte_mempool_populate_default tbl mp env;
                      if ret < 0 then do { env \<leftarrow> rte_mempool_free tbl (Some (a, mp)) env; Some (env\<lparr>eal_errno := - ret\<rparr>, st, NULL) }
                      else do {
                        st \<leftarrow> Some (st\<lparr>pools := (pools st)(a \<mapsto> mp), obj_iova := headers_written mp (obj_iova st)\<rparr>);
                        (st, _) \<leftarrow> rte_mempool_obj_iter mp (\<lambda>obj k. rte_pktmbuf_init a obj) st;
                        Some (env, st, a) } }) })"

definition rte_pktmbuf_pool_create ::
  "rte_mempool_ops list \<Rightarrow> mbuf_ops_names \<Rightarrow> string \<Rightarrow> u32 \<Rightarrow> u32 \<Rightarrow> u16 \<Rightarrow> u16 \<Rightarrow> int \<Rightarrow>
   mbuf_heap \<Rightarrow> eal_env \<Rightarrow> (eal_env \<times> mbuf_heap \<times> addr) option" where
  "rte_pktmbuf_pool_create tbl names nm n csize psize room sock st env =
     rte_pktmbuf_pool_create_by_ops tbl names nm n csize psize room sock None st env"

section \<open>Sanity check\<close>

text \<open>The messages of \<^verbatim>\<open>rte_panic\<close>.\<close>

datatype panic = NullMbuf | BadPool | BadIova | BadVirt | BadRefcnt | BadDataLen | BadNbSegs | BadPktLen

partial_function (option) sanity_walk :: "mbuf_heap \<Rightarrow> addr \<Rightarrow> u32 \<Rightarrow> u32 \<Rightarrow> (u32 \<times> u32) option" where
  "sanity_walk st m segs len = do {
     x \<leftarrow> mbufs st m;
     if nxt x \<noteq> NULL then sanity_walk st (nxt x) (segs - 1) (len - ucast (data_len x))
     else Some (segs - 1, len - ucast (data_len x)) }"

definition rte_mbuf_sanity_check :: "mbuf_heap \<Rightarrow> addr \<Rightarrow> bool \<Rightarrow> (panic + unit) option" where
  "rte_mbuf_sanity_check st m is_header =
     (if m = NULL then Some (Inl NullMbuf)
      else do {
        x \<leftarrow> mbufs st m;
        if pool x = NULL then Some (Inl BadPool)
        else if buf_iova x = 0 then Some (Inl BadIova)
        else if buf_addr x = NULL then Some (Inl BadVirt)
        else if refcnt x = 0 \<or> refcnt x = 0xFFFF then Some (Inl BadRefcnt)
        else if \<not> is_header then Some (Inr ())
        else if ucast (data_len x) > pkt_len x then Some (Inl BadDataLen)
        else do {
          (segs, len) \<leftarrow> sanity_walk st m (ucast (nb_segs x)) (pkt_len x);
          if segs \<noteq> 0 then Some (Inl BadNbSegs)
          else if len \<noteq> 0 then Some (Inl BadPktLen)
          else Some (Inr ()) } })"

section \<open>Properties\<close>

text \<open>A name set by the user is the one chosen, until then the first platform name.\<close>

lemma errno_code_nonzero [simp]: "errno_code e \<noteq> 0"
  using errno_code_pos [of e] by (simp del: errno_code_pos)

lemma user_ops_chosen:
  "rte_mbuf_set_user_mempool_ops nm st = (st', 0) \<Longrightarrow> rte_mbuf_best_mempool_ops st' = nm"
  by (auto simp: rte_mbuf_set_user_mempool_ops_def rte_mbuf_best_mempool_ops_def rte_mbuf_user_mempool_ops_def
      split: if_splits option.splits)

lemma platform_ops_chosen:
  "rte_mbuf_set_platform_mempool_ops nm st = (st', 0) \<Longrightarrow> user_ops st = None \<Longrightarrow> eal_user_ops st = None \<Longrightarrow>
    rte_mbuf_best_mempool_ops st' = nm"
  by (auto simp: rte_mbuf_set_platform_mempool_ops_def rte_mbuf_best_mempool_ops_def rte_mbuf_user_mempool_ops_def
      rte_mbuf_platform_mempool_ops_def split: if_splits option.splits)

text \<open>What the buffer constructor leaves: the buffer in its own memory, ready for every slice.\<close>

definition buffer_ready :: "mbuf_heap \<Rightarrow> addr \<Rightarrow> addr \<Rightarrow> bool" where
  "buffer_ready st a m \<longleftrightarrow> (\<exists>x. mbufs st m = Some x \<and> slices_ready x \<and> at_home st m x \<and> pool x = a \<and> refcnt x = 1 \<and>
     nb_segs x = 1 \<and> nxt x = NULL \<and> seg_ok x)"

lemma init_buffer_ready:
  assumes "pool_privs st a = Some pp"
  shows "\<exists>x. rte_pktmbuf_init a m st = Some (st\<lparr>mbufs := (mbufs st)(m \<mapsto> x)\<rparr>) \<and> buffer_ready (st\<lparr>mbufs := (mbufs st)(m \<mapsto> x)\<rparr>) a m"
proof -
  define sz where "sz = sizeof_rte_mbuf + ucast (mbuf_priv_size pp)"
  define x0 where "x0 = zero_mbuf\<lparr>priv_size := mbuf_priv_size pp, buf_addr := m + sz, buf_iova := obj_iova st m + sz,
    buf_len := mbuf_data_room_size pp, data_off := min RTE_PKTMBUF_HEADROOM (mbuf_data_room_size pp)\<rparr>"
  obtain x1 where x1: "rte_pktmbuf_slice_init x0 = Some x1" "slices_ready x1" "x1 = x0\<lparr>udata64 := udata64 x1\<rparr>"
    using slice_init_ready by blast
  define x where "x = x1\<lparr>pool := a, nb_segs := 1, port := MBUF_INVALID_PORT, refcnt := 1, nxt := NULL\<rparr>"
  have run: "rte_pktmbuf_init a m st = Some (st\<lparr>mbufs := (mbufs st)(m \<mapsto> x)\<rparr>)"
    using assms x1(1)
    by (simp add: rte_pktmbuf_init_def rte_pktmbuf_priv_size_def rte_pktmbuf_data_room_size_def x0_def sz_def x_def Let_def)
  have "slices_ready x" using x1(2) slices_ready_cong [of x x1] by (simp add: x_def)
  moreover obtain u where "x1 = x0\<lparr>udata64 := u\<rparr>" using x1(3) by blast
  then have "at_home (st\<lparr>mbufs := (mbufs st)(m \<mapsto> x)\<rparr>) m x" "seg_ok x"
    using assms by (simp_all add: at_home_def x_def x0_def sz_def zero_mbuf_def RTE_MBUF_DIRECT_def seg_ok_def min_def word_le_nat_alt)
  ultimately have "buffer_ready (st\<lparr>mbufs := (mbufs st)(m \<mapsto> x)\<rparr>) a m" by (simp add: buffer_ready_def x_def)
  with run show ?thesis by blast
qed

lemma buffer_ready_frame:
  "buffer_ready st a m \<Longrightarrow> m \<noteq> k \<Longrightarrow> buffer_ready (st\<lparr>mbufs := (mbufs st)(k \<mapsto> x)\<rparr>) a m"
  by (auto simp: buffer_ready_def at_home_def)

lemma init_all_ready:
  assumes "pool_privs st a = Some pp" "\<forall>m \<in> M. buffer_ready st a m"
  shows "\<exists>st'. foldl (\<lambda>r (k, obj, io). do { st \<leftarrow> r; rte_pktmbuf_init a obj st }) (Some st) (enumerate n es) = Some st' \<and>
    (\<forall>m \<in> M \<union> fst ` set es. buffer_ready st' a m)"
  using assms
proof (induction es arbitrary: st n M)
  case (Cons e es)
  obtain obj io where e: "e = (obj, io)" by fastforce
  obtain x where x: "rte_pktmbuf_init a obj st = Some (st\<lparr>mbufs := (mbufs st)(obj \<mapsto> x)\<rparr>)"
      "buffer_ready (st\<lparr>mbufs := (mbufs st)(obj \<mapsto> x)\<rparr>) a obj"
    using init_buffer_ready [OF Cons.prems(1)] by blast
  let ?st = "st\<lparr>mbufs := (mbufs st)(obj \<mapsto> x)\<rparr>"
  have "\<forall>m \<in> insert obj M. buffer_ready ?st a m" using x(2) Cons.prems(2) buffer_ready_frame [of st a _ obj x] by blast
  from Cons.IH [OF _ this, of "Suc n"] Cons.prems(1) obtain st' where
    "foldl (\<lambda>r (k, obj, io). do { st \<leftarrow> r; rte_pktmbuf_init a obj st }) (Some ?st) (enumerate (Suc n) es) = Some st'"
    "\<forall>m \<in> insert obj M \<union> fst ` set es. buffer_ready st' a m" by auto
  with x(1) e show ?case by auto
qed auto

text \<open>
  C2: when a packet buffer pool is created, the constructor runs on all its objects and ends, and
  afterwards every buffer of the pool uses its own memory, is a single unlinked segment with one
  reference whose data lies inside the buffer, and holds the offsets of all eight slices of that
  memory: whichever buffer a driver takes, it can place a packet in any slice.
\<close>

theorem pool_buffers_ready:
  assumes "pool_privs st a = Some pp"
  shows "\<exists>st'. rte_mempool_obj_iter mp (\<lambda>obj k. rte_pktmbuf_init a obj) st = Some (st', length (elt_list mp)) \<and>
    (\<forall>m \<in> fst ` set (elt_list mp). \<exists>x. mbufs st' m = Some x \<and> slices_ready x \<and> at_home st' m x \<and> pool x = a \<and>
      refcnt x = 1 \<and> nb_segs x = 1 \<and> nxt x = NULL \<and> seg_ok x \<and>
      (\<forall>s < 8. calculateSlice_HF_haswell (rte_mbuf_data_iova (rte_pktmbuf_set_slice x (int s))) = of_nat s))"
proof -
  obtain st' where st': "foldl (\<lambda>r (k, obj, io). do { st \<leftarrow> r; rte_pktmbuf_init a obj st }) (Some st) (enumerate 0 (elt_list mp)) = Some st'"
      "\<forall>m \<in> fst ` set (elt_list mp). buffer_ready st' a m"
    using init_all_ready [OF assms, of "{}" 0 "elt_list mp"] by auto
  have "\<forall>m \<in> fst ` set (elt_list mp). \<exists>x. mbufs st' m = Some x \<and> slices_ready x \<and> at_home st' m x \<and> pool x = a \<and>
      refcnt x = 1 \<and> nb_segs x = 1 \<and> nxt x = NULL \<and> seg_ok x \<and>
      (\<forall>s < 8. calculateSlice_HF_haswell (rte_mbuf_data_iova (rte_pktmbuf_set_slice x (int s))) = of_nat s)"
    using st'(2) set_slice_data unfolding buffer_ready_def by blast
  with st'(1) show ?thesis by (simp add: rte_mempool_obj_iter_def)
qed

theorem pool_buffers_ready_witness:
  "\<exists>st' x. rte_mempool_obj_iter (demo_ready\<lparr>elt_list := [(0x40040, 0x80040), (0x41040, 0x81040)]\<rparr>) (\<lambda>obj k. rte_pktmbuf_init 0x100 obj)
      (ex_heap\<lparr>pool_privs := [0x100 \<mapsto> \<lparr>mbuf_data_room_size = 2880, mbuf_priv_size = 0\<rparr>]\<rparr>) = Some (st', 2) \<and>
    mbufs st' 0x41040 = Some x \<and> slices_ready x"
proof -
  let ?st = "ex_heap\<lparr>pool_privs := [0x100 \<mapsto> \<lparr>mbuf_data_room_size = 2880, mbuf_priv_size = 0\<rparr>]\<rparr>"
  have "pool_privs ?st 0x100 = Some \<lparr>mbuf_data_room_size = 2880, mbuf_priv_size = 0\<rparr>" by simp
  from pool_buffers_ready [OF this, of "demo_ready\<lparr>elt_list := [(0x40040, 0x80040), (0x41040, 0x81040)]\<rparr>"] show ?thesis by auto
qed

text \<open>The sanity check accepts every well-formed packet.\<close>

lemma sanity_walk_chain:
  assumes "chain (mbufs st) m ms" "ms \<noteq> []"
  shows "sanity_walk st m segs len = Some (segs - of_nat (length ms), len - of_nat (total_len st ms))"
  using assms
proof (induction ms arbitrary: m segs len)
  case (Cons y ys)
  then obtain x where x: "mbufs st m = Some x" "m = y" "chain (mbufs st) (nxt x) ys" by (auto simp: chain_Cons)
  have t: "total_len st (y # ys) = unat (data_len x) + total_len st ys" using x by (simp add: total_len_def)
  show ?case
  proof (cases "ys = []")
    case True
    then have "nxt x = NULL" using x(3) by simp
    with True x t show ?thesis by (subst sanity_walk.simps) (simp add: total_len_def)
  next
    case False
    then have "nxt x \<noteq> NULL" using x(3) by (cases ys) (auto simp: chain_Cons)
    with x t False Cons.IH [OF x(3) False] show ?thesis
      by (subst sanity_walk.simps) (simp add: diff_diff_eq)
  qed
qed simp

lemma sanity_check_ok:
  assumes ok: "pkt_ok st m ms" and x: "mbufs st m = Some x" "m \<noteq> NULL" "pool x \<noteq> NULL" "buf_iova x \<noteq> 0" "buf_addr x \<noteq> NULL"
    "refcnt x \<noteq> 0" "refcnt x \<noteq> 0xFFFF"
  shows "rte_mbuf_sanity_check st m is_header = Some (Inr ())"
proof -
  obtain xs where ms: "ms = m # xs" "chain (mbufs st) m ms" using pkt_ok_head [OF ok] ok by (auto simp: pkt_ok_def)
  have p: "unat (nb_segs x) = length ms" "unat (pkt_len x) = total_len st ms" using ok x(1) by (auto simp: pkt_ok_def)
  have "unat (data_len x) \<le> total_len st ms" using ms(1) x(1) by (simp add: total_len_def)
  then have d: "ucast (data_len x) \<le> pkt_len x" using p(2) by (simp add: word_le_nat_alt)
  have "of_nat (length ms) = (ucast (nb_segs x) :: u32)" "of_nat (total_len st ms) = pkt_len x" using p by (simp_all flip: p)
  then have "sanity_walk st m (ucast (nb_segs x)) (pkt_len x) = Some (0, 0)"
    using sanity_walk_chain [OF ms(2)] ms(1) by simp
  with x d show ?thesis by (auto simp: rte_mbuf_sanity_check_def)
qed

end
