(* ===== verification/ByteOrder.thy ===== *)
theory ByteOrder
  imports Prelude
begin

text \<open>
  Byte order, \<^verbatim>\<open>generic/rte_byteorder.h\<close>: the byte swaps and, on the little-endian
  processors the development is about, the conversions between host and network order. Each
  swap is its own inverse.
\<close>

section \<open>Definitions\<close>

definition rte_constant_bswap16 :: "u16 \<Rightarrow> u16" where
  "rte_constant_bswap16 v = push_bit 8 (v AND 0x00ff) OR drop_bit 8 (v AND 0xff00)"

definition rte_constant_bswap32 :: "u32 \<Rightarrow> u32" where
  "rte_constant_bswap32 v =
     push_bit 24 (v AND 0x000000ff) OR push_bit 8 (v AND 0x0000ff00) OR
     drop_bit 8 (v AND 0x00ff0000) OR drop_bit 24 (v AND 0xff000000)"

definition rte_constant_bswap64 :: "u64 \<Rightarrow> u64" where
  "rte_constant_bswap64 v =
     push_bit 56 (v AND 0x00000000000000ff) OR
     push_bit 40 (v AND 0x000000000000ff00) OR
     push_bit 24 (v AND 0x0000000000ff0000) OR
     push_bit 8 (v AND 0x00000000ff000000) OR
     drop_bit 8 (v AND 0x000000ff00000000) OR
     drop_bit 24 (v AND 0x0000ff0000000000) OR
     drop_bit 40 (v AND 0x00ff000000000000) OR
     drop_bit 56 (v AND 0xff00000000000000)"

abbreviation rte_cpu_to_be_16 :: "u16 \<Rightarrow> u16" where
  "rte_cpu_to_be_16 \<equiv> rte_constant_bswap16"

abbreviation rte_cpu_to_be_32 :: "u32 \<Rightarrow> u32" where
  "rte_cpu_to_be_32 \<equiv> rte_constant_bswap32"

abbreviation rte_cpu_to_be_64 :: "u64 \<Rightarrow> u64" where
  "rte_cpu_to_be_64 \<equiv> rte_constant_bswap64"

abbreviation rte_be_to_cpu_16 :: "u16 \<Rightarrow> u16" where
  "rte_be_to_cpu_16 \<equiv> rte_constant_bswap16"

abbreviation rte_be_to_cpu_32 :: "u32 \<Rightarrow> u32" where
  "rte_be_to_cpu_32 \<equiv> rte_constant_bswap32"

abbreviation rte_be_to_cpu_64 :: "u64 \<Rightarrow> u64" where
  "rte_be_to_cpu_64 \<equiv> rte_constant_bswap64"

section \<open>Bytes of a word\<close>

text \<open>One byte of a word, moved up or down.\<close>

lemma byte_up:
  fixes v :: "'a::len word"
  shows "bit (push_bit s (v AND push_bit (8 * i) (mask 8))) n \<longleftrightarrow>
    n < LENGTH('a) \<and> s + 8 * i \<le> n \<and> n < s + 8 * i + 8 \<and> bit v (n - s)"
  by (auto simp: bit_simps)

lemma byte_down:
  fixes v :: "'a::len word"
  shows "bit (drop_bit s (v AND push_bit (8 * i) (mask 8))) n \<longleftrightarrow>
    8 * i \<le> s + n \<and> s + n < 8 * i + 8 \<and> bit v (s + n)"
  by (auto simp: bit_simps dest: bit_imp_le_length)

lemma byte_masks:
  "(0x00ff :: u16) = push_bit (8 * 0) (mask 8)" "(0xff00 :: u16) = push_bit (8 * 1) (mask 8)"
  "(0x000000ff :: u32) = push_bit (8 * 0) (mask 8)" "(0x0000ff00 :: u32) = push_bit (8 * 1) (mask 8)"
  "(0x00ff0000 :: u32) = push_bit (8 * 2) (mask 8)" "(0xff000000 :: u32) = push_bit (8 * 3) (mask 8)"
  "(0x00000000000000ff :: u64) = push_bit (8 * 0) (mask 8)" "(0x000000000000ff00 :: u64) = push_bit (8 * 1) (mask 8)"
  "(0x0000000000ff0000 :: u64) = push_bit (8 * 2) (mask 8)" "(0x00000000ff000000 :: u64) = push_bit (8 * 3) (mask 8)"
  "(0x000000ff00000000 :: u64) = push_bit (8 * 4) (mask 8)" "(0x0000ff0000000000 :: u64) = push_bit (8 * 5) (mask 8)"
  "(0x00ff000000000000 :: u64) = push_bit (8 * 6) (mask 8)" "(0xff00000000000000 :: u64) = push_bit (8 * 7) (mask 8)"
  by (simp_all add: mask_eq_exp_minus_1 push_bit_eq_mult)

text \<open>Bit \<open>8 * k + j\<close> of the swapped word comes from the mirrored byte.\<close>

lemma bswap16_bit:
  assumes "k < 2" "j < 8"
  shows "bit (rte_constant_bswap16 v) (8 * k + j) = bit v (8 * (1 - k) + j)"
proof -
  have "k = 0 \<or> k = 1" using assms(1) by auto
  then show ?thesis using assms(2)
    unfolding rte_constant_bswap16_def byte_masks bit_or_iff byte_up byte_down
    by (elim disjE) simp_all
qed

lemma bswap32_bit:
  assumes "k < 4" "j < 8"
  shows "bit (rte_constant_bswap32 v) (8 * k + j) = bit v (8 * (3 - k) + j)"
proof -
  have "k = 0 \<or> k = 1 \<or> k = 2 \<or> k = 3" using assms(1) by auto
  then show ?thesis using assms(2)
    unfolding rte_constant_bswap32_def byte_masks bit_or_iff byte_up byte_down
    by (elim disjE) simp_all
qed

lemma bswap64_bit:
  assumes "k < 8" "j < 8"
  shows "bit (rte_constant_bswap64 v) (8 * k + j) = bit v (8 * (7 - k) + j)"
proof -
  have "k = 0 \<or> k = 1 \<or> k = 2 \<or> k = 3 \<or> k = 4 \<or> k = 5 \<or> k = 6 \<or> k = 7" using assms(1) by auto
  then show ?thesis using assms(2)
    unfolding rte_constant_bswap64_def byte_masks bit_or_iff byte_up byte_down
    by (elim disjE) simp_all
qed

lemma bit_byte_eqI:
  fixes v w :: "'a::len word"
  assumes "LENGTH('a) = 8 * b" and "\<And>k j. k < b \<Longrightarrow> j < 8 \<Longrightarrow> bit v (8 * k + j) = bit w (8 * k + j)"
  shows "v = w"
proof (rule bit_word_eqI)
  fix n assume "n < LENGTH('a)"
  then have "n div 8 < b" using assms(1) by auto
  then show "bit v n = bit w n" using assms(2) [of "n div 8" "n mod 8"] by simp
qed

lemma bswap16_bswap16 [simp]: "rte_constant_bswap16 (rte_constant_bswap16 v) = v"
  by (rule bit_byte_eqI [where b = 2]) (simp_all add: bswap16_bit)

lemma bswap32_bswap32 [simp]: "rte_constant_bswap32 (rte_constant_bswap32 v) = v"
  by (rule bit_byte_eqI [where b = 4]) (simp_all add: bswap32_bit)

lemma bswap64_bswap64 [simp]: "rte_constant_bswap64 (rte_constant_bswap64 v) = v"
  by (rule bit_byte_eqI [where b = 8]) (simp_all add: bswap64_bit)

end
