(* ===== verification/Mlx5Rx.thy ===== *)
theory Mlx5Rx
  imports MbufSlice ByteOrder
begin

text \<open>
  The receive path of the mlx5 driver, where CacheDirector places packets: the buffers of a receive
  queue (\<^verbatim>\<open>mlx5_rxq.c\<close>) and the burst function (\<^verbatim>\<open>mlx5_rxtx.c\<close>), which replaces
  each consumed buffer with one whose data starts in the slice of the queue. Completion entries
  are 64 bytes each, written by the hardware; the doorbells are fields of the queue. The queue
  lives beside the heap of packet buffers. \<^term>\<open>None\<close> is an access outside an array or through
  an invalid pointer. Debug checks are compiled out in the default configuration.
\<close>

section \<open>Data\<close>

text \<open>
  Constants of the verbs library, and the translation of a buffer address to a memory key, are
  parameters.
\<close>

record mlx5_env =
  MLX5_CQE_OWNER_MASK :: u8
  MLX5_CQE_INVALID :: u8
  MLX5_CQE_RESP_ERR :: u8
  mlx5_rx_addr2mr :: "addr \<Rightarrow> u32"

text \<open>A completion entry by its bytes, in the order of \<^verbatim>\<open>struct mlx5_cqe\<close>.\<close>

type_synonym mlx5_cqe = "nat \<Rightarrow> u8"

definition rd16 :: "mlx5_cqe \<Rightarrow> nat \<Rightarrow> u16" where
  "rd16 c k = ucast (c k) OR push_bit 8 (ucast (c (k + 1)))"

definition rd32 :: "mlx5_cqe \<Rightarrow> nat \<Rightarrow> u32" where
  "rd32 c k = ucast (rd16 c k) OR push_bit 16 (ucast (rd16 c (k + 2)))"

definition rd64 :: "mlx5_cqe \<Rightarrow> nat \<Rightarrow> u64" where
  "rd64 c k = ucast (rd32 c k) OR push_bit 32 (ucast (rd32 c (k + 4)))"

definition cqe_pkt_info :: "mlx5_cqe \<Rightarrow> u8" where "cqe_pkt_info c = c 0"

definition cqe_rx_hash_res :: "mlx5_cqe \<Rightarrow> u32" where "cqe_rx_hash_res c = rd32 c 12"

definition cqe_hdr_type_etc :: "mlx5_cqe \<Rightarrow> u16" where "cqe_hdr_type_etc c = rd16 c 28"

definition cqe_vlan_info :: "mlx5_cqe \<Rightarrow> u16" where "cqe_vlan_info c = rd16 c 30"

definition cqe_byte_cnt :: "mlx5_cqe \<Rightarrow> u32" where "cqe_byte_cnt c = rd32 c 44"

definition cqe_timestamp :: "mlx5_cqe \<Rightarrow> u64" where "cqe_timestamp c = rd64 c 48"

definition cqe_sop_drop_qpn :: "mlx5_cqe \<Rightarrow> u32" where "cqe_sop_drop_qpn c = rd32 c 56"

definition cqe_op_own :: "mlx5_cqe \<Rightarrow> u8" where "cqe_op_own c = c 63"

definition set_op_own :: "u8 \<Rightarrow> mlx5_cqe \<Rightarrow> mlx5_cqe" where "set_op_own b c = c(63 := b)"

text \<open>An entry of a compressed session holds eight small entries of eight bytes.\<close>

definition mini_rx_hash_result :: "mlx5_cqe \<Rightarrow> nat \<Rightarrow> u32" where "mini_rx_hash_result c k = rd32 c (8 * k)"

definition mini_byte_cnt :: "mlx5_cqe \<Rightarrow> nat \<Rightarrow> u32" where "mini_byte_cnt c k = rd32 c (8 * k + 4)"

record rxq_zip =
  zip_ai :: u16
  zip_ca :: u16
  zip_na :: u16
  zip_cq_ci :: u16
  zip_cqe_cnt :: u32

record mlx5_wqe_data_seg =
  wqe_byte_count :: u32
  wqe_lkey :: u32
  wqe_addr :: u64

record mlx5_rxq_stats =
  ipackets :: u64
  ibytes :: u64
  idropped :: u64
  rx_nombuf :: u64

text \<open>
  \<^verbatim>\<open>struct mlx5_rxq_data\<close>. The logarithms are bit fields of 2 and 4 bits. The array of
  buffers has the addresses of buffers; \<open>rx_fake_mbuf\<close> is the address of the padding buffer.
\<close>

record mlx5_rxq_data =
  rx_csum :: bool
  rx_hw_timestamp :: bool
  rx_vlan_strip :: bool
  rx_crc_present :: bool
  rx_sges_n :: nat
  rx_cqe_n :: nat
  rx_elts_n :: nat
  rx_rss_hash :: bool
  rx_mark :: bool
  rq_db :: u32
  cq_db :: u32
  rx_port_id :: u16
  rq_ci :: u32
  rq_pi :: u32
  cq_ci :: u32
  rx_mr_len :: u16
  rx_wqes :: "mlx5_wqe_data_seg list"
  rx_cqes :: "mlx5_cqe list"
  rx_zip :: rxq_zip
  rx_elts :: "addr list"
  rx_mp :: addr
  rx_stats :: mlx5_rxq_stats
  rx_mbuf_initializer :: u64
  rx_fake_mbuf :: addr
  rx_queue_id :: u16
  rx_tunnel :: u32

definition nth_opt :: "'a list \<Rightarrow> nat \<Rightarrow> 'a option" where
  "nth_opt xs k = (if k < length xs then Some (xs ! k) else None)"

definition coreNumber :: u16 where
  "coreNumber = 8"

text \<open>The slice of a queue.\<close>

definition slice_number :: "mlx5_rxq_data \<Rightarrow> int" where
  "slice_number rxq = uint (rx_queue_id rxq mod coreNumber)"

section \<open>Packet types\<close>

abbreviation "RTE_PTYPE_UNKNOWN \<equiv> 0 :: u32"
abbreviation "RTE_PTYPE_L2_ETHER \<equiv> 0x00000001 :: u32"
abbreviation "RTE_PTYPE_L3_IPV4_EXT_UNKNOWN \<equiv> 0x00000090 :: u32"
abbreviation "RTE_PTYPE_L3_IPV6_EXT_UNKNOWN \<equiv> 0x000000e0 :: u32"
abbreviation "RTE_PTYPE_L4_TCP \<equiv> 0x00000100 :: u32"
abbreviation "RTE_PTYPE_L4_UDP \<equiv> 0x00000200 :: u32"
abbreviation "RTE_PTYPE_L4_FRAG \<equiv> 0x00000300 :: u32"
abbreviation "RTE_PTYPE_L4_NONFRAG \<equiv> 0x00000600 :: u32"
abbreviation "RTE_PTYPE_INNER_L3_IPV4_EXT_UNKNOWN \<equiv> 0x00400000 :: u32"
abbreviation "RTE_PTYPE_INNER_L3_IPV6_EXT_UNKNOWN \<equiv> 0x00600000 :: u32"
abbreviation "RTE_PTYPE_INNER_L4_TCP \<equiv> 0x01000000 :: u32"
abbreviation "RTE_PTYPE_INNER_L4_UDP \<equiv> 0x02000000 :: u32"
abbreviation "RTE_PTYPE_INNER_L4_FRAG \<equiv> 0x03000000 :: u32"
abbreviation "RTE_PTYPE_INNER_L4_NONFRAG \<equiv> 0x06000000 :: u32"
abbreviation "RTE_PTYPE_ALL_MASK \<equiv> 0x0fffffff :: u32"

text \<open>\<^verbatim>\<open>mlx5_set_ptype_table\<close>: the entries it stores after clearing all but the last.\<close>

definition ptype_entries :: "(nat \<times> u32) list" where
  "ptype_entries = [
    (0x00, RTE_PTYPE_L2_ETHER),
    (0x01, RTE_PTYPE_L2_ETHER OR RTE_PTYPE_L3_IPV6_EXT_UNKNOWN OR RTE_PTYPE_L4_NONFRAG),
    (0x02, RTE_PTYPE_L2_ETHER OR RTE_PTYPE_L3_IPV4_EXT_UNKNOWN OR RTE_PTYPE_L4_NONFRAG),
    (0x21, RTE_PTYPE_L2_ETHER OR RTE_PTYPE_L3_IPV6_EXT_UNKNOWN OR RTE_PTYPE_L4_FRAG),
    (0x22, RTE_PTYPE_L2_ETHER OR RTE_PTYPE_L3_IPV4_EXT_UNKNOWN OR RTE_PTYPE_L4_FRAG),
    (0x05, RTE_PTYPE_L2_ETHER OR RTE_PTYPE_L3_IPV6_EXT_UNKNOWN OR RTE_PTYPE_L4_TCP),
    (0x06, RTE_PTYPE_L2_ETHER OR RTE_PTYPE_L3_IPV4_EXT_UNKNOWN OR RTE_PTYPE_L4_TCP),
    (0x0d, RTE_PTYPE_L2_ETHER OR RTE_PTYPE_L3_IPV6_EXT_UNKNOWN OR RTE_PTYPE_L4_TCP),
    (0x0e, RTE_PTYPE_L2_ETHER OR RTE_PTYPE_L3_IPV4_EXT_UNKNOWN OR RTE_PTYPE_L4_TCP),
    (0x11, RTE_PTYPE_L2_ETHER OR RTE_PTYPE_L3_IPV6_EXT_UNKNOWN OR RTE_PTYPE_L4_TCP),
    (0x12, RTE_PTYPE_L2_ETHER OR RTE_PTYPE_L3_IPV4_EXT_UNKNOWN OR RTE_PTYPE_L4_TCP),
    (0x09, RTE_PTYPE_L2_ETHER OR RTE_PTYPE_L3_IPV6_EXT_UNKNOWN OR RTE_PTYPE_L4_UDP),
    (0x0a, RTE_PTYPE_L2_ETHER OR RTE_PTYPE_L3_IPV4_EXT_UNKNOWN OR RTE_PTYPE_L4_UDP),
    (0x81, RTE_PTYPE_L2_ETHER OR RTE_PTYPE_L3_IPV6_EXT_UNKNOWN OR RTE_PTYPE_L4_NONFRAG),
    (0x82, RTE_PTYPE_L2_ETHER OR RTE_PTYPE_L3_IPV4_EXT_UNKNOWN OR RTE_PTYPE_L4_NONFRAG),
    (0xa1, RTE_PTYPE_L2_ETHER OR RTE_PTYPE_L3_IPV6_EXT_UNKNOWN OR RTE_PTYPE_L4_FRAG),
    (0xa2, RTE_PTYPE_L2_ETHER OR RTE_PTYPE_L3_IPV4_EXT_UNKNOWN OR RTE_PTYPE_L4_FRAG),
    (0x85, RTE_PTYPE_L2_ETHER OR RTE_PTYPE_L3_IPV6_EXT_UNKNOWN OR RTE_PTYPE_L4_TCP),
    (0x86, RTE_PTYPE_L2_ETHER OR RTE_PTYPE_L3_IPV4_EXT_UNKNOWN OR RTE_PTYPE_L4_TCP),
    (0x8d, RTE_PTYPE_L2_ETHER OR RTE_PTYPE_L3_IPV6_EXT_UNKNOWN OR RTE_PTYPE_L4_TCP),
    (0x8e, RTE_PTYPE_L2_ETHER OR RTE_PTYPE_L3_IPV4_EXT_UNKNOWN OR RTE_PTYPE_L4_TCP),
    (0x91, RTE_PTYPE_L2_ETHER OR RTE_PTYPE_L3_IPV6_EXT_UNKNOWN OR RTE_PTYPE_L4_TCP),
    (0x92, RTE_PTYPE_L2_ETHER OR RTE_PTYPE_L3_IPV4_EXT_UNKNOWN OR RTE_PTYPE_L4_TCP),
    (0x89, RTE_PTYPE_L2_ETHER OR RTE_PTYPE_L3_IPV6_EXT_UNKNOWN OR RTE_PTYPE_L4_UDP),
    (0x8a, RTE_PTYPE_L2_ETHER OR RTE_PTYPE_L3_IPV4_EXT_UNKNOWN OR RTE_PTYPE_L4_UDP),
    (0x40, RTE_PTYPE_L2_ETHER OR RTE_PTYPE_L3_IPV4_EXT_UNKNOWN),
    (0x41, RTE_PTYPE_L2_ETHER OR RTE_PTYPE_L3_IPV4_EXT_UNKNOWN OR RTE_PTYPE_INNER_L3_IPV6_EXT_UNKNOWN OR RTE_PTYPE_INNER_L4_NONFRAG),
    (0x42, RTE_PTYPE_L2_ETHER OR RTE_PTYPE_L3_IPV4_EXT_UNKNOWN OR RTE_PTYPE_INNER_L3_IPV4_EXT_UNKNOWN OR RTE_PTYPE_INNER_L4_NONFRAG),
    (0xc0, RTE_PTYPE_L2_ETHER OR RTE_PTYPE_L3_IPV6_EXT_UNKNOWN),
    (0xc1, RTE_PTYPE_L2_ETHER OR RTE_PTYPE_L3_IPV6_EXT_UNKNOWN OR RTE_PTYPE_INNER_L3_IPV6_EXT_UNKNOWN OR RTE_PTYPE_INNER_L4_NONFRAG),
    (0xc2, RTE_PTYPE_L2_ETHER OR RTE_PTYPE_L3_IPV6_EXT_UNKNOWN OR RTE_PTYPE_INNER_L3_IPV4_EXT_UNKNOWN OR RTE_PTYPE_INNER_L4_NONFRAG),
    (0x61, RTE_PTYPE_L2_ETHER OR RTE_PTYPE_L3_IPV4_EXT_UNKNOWN OR RTE_PTYPE_INNER_L3_IPV6_EXT_UNKNOWN OR RTE_PTYPE_INNER_L4_FRAG),
    (0x62, RTE_PTYPE_L2_ETHER OR RTE_PTYPE_L3_IPV4_EXT_UNKNOWN OR RTE_PTYPE_INNER_L3_IPV4_EXT_UNKNOWN OR RTE_PTYPE_INNER_L4_FRAG),
    (0xe1, RTE_PTYPE_L2_ETHER OR RTE_PTYPE_L3_IPV6_EXT_UNKNOWN OR RTE_PTYPE_INNER_L3_IPV6_EXT_UNKNOWN OR RTE_PTYPE_INNER_L4_FRAG),
    (0xe2, RTE_PTYPE_L2_ETHER OR RTE_PTYPE_L3_IPV6_EXT_UNKNOWN OR RTE_PTYPE_INNER_L3_IPV4_EXT_UNKNOWN OR RTE_PTYPE_INNER_L4_FRAG),
    (0x45, RTE_PTYPE_L2_ETHER OR RTE_PTYPE_L3_IPV4_EXT_UNKNOWN OR RTE_PTYPE_INNER_L3_IPV6_EXT_UNKNOWN OR RTE_PTYPE_INNER_L4_TCP),
    (0x46, RTE_PTYPE_L2_ETHER OR RTE_PTYPE_L3_IPV4_EXT_UNKNOWN OR RTE_PTYPE_INNER_L3_IPV4_EXT_UNKNOWN OR RTE_PTYPE_INNER_L4_TCP),
    (0x4d, RTE_PTYPE_L2_ETHER OR RTE_PTYPE_L3_IPV4_EXT_UNKNOWN OR RTE_PTYPE_INNER_L3_IPV6_EXT_UNKNOWN OR RTE_PTYPE_INNER_L4_TCP),
    (0x4e, RTE_PTYPE_L2_ETHER OR RTE_PTYPE_L3_IPV4_EXT_UNKNOWN OR RTE_PTYPE_INNER_L3_IPV4_EXT_UNKNOWN OR RTE_PTYPE_INNER_L4_TCP),
    (0x51, RTE_PTYPE_L2_ETHER OR RTE_PTYPE_L3_IPV4_EXT_UNKNOWN OR RTE_PTYPE_INNER_L3_IPV6_EXT_UNKNOWN OR RTE_PTYPE_INNER_L4_TCP),
    (0x52, RTE_PTYPE_L2_ETHER OR RTE_PTYPE_L3_IPV4_EXT_UNKNOWN OR RTE_PTYPE_INNER_L3_IPV4_EXT_UNKNOWN OR RTE_PTYPE_INNER_L4_TCP),
    (0xc5, RTE_PTYPE_L2_ETHER OR RTE_PTYPE_L3_IPV6_EXT_UNKNOWN OR RTE_PTYPE_INNER_L3_IPV6_EXT_UNKNOWN OR RTE_PTYPE_INNER_L4_TCP),
    (0xc6, RTE_PTYPE_L2_ETHER OR RTE_PTYPE_L3_IPV6_EXT_UNKNOWN OR RTE_PTYPE_INNER_L3_IPV4_EXT_UNKNOWN OR RTE_PTYPE_INNER_L4_TCP),
    (0xcd, RTE_PTYPE_L2_ETHER OR RTE_PTYPE_L3_IPV6_EXT_UNKNOWN OR RTE_PTYPE_INNER_L3_IPV6_EXT_UNKNOWN OR RTE_PTYPE_INNER_L4_TCP),
    (0xce, RTE_PTYPE_L2_ETHER OR RTE_PTYPE_L3_IPV6_EXT_UNKNOWN OR RTE_PTYPE_INNER_L3_IPV4_EXT_UNKNOWN OR RTE_PTYPE_INNER_L4_TCP),
    (0xd1, RTE_PTYPE_L2_ETHER OR RTE_PTYPE_L3_IPV6_EXT_UNKNOWN OR RTE_PTYPE_INNER_L3_IPV6_EXT_UNKNOWN OR RTE_PTYPE_INNER_L4_TCP),
    (0xd2, RTE_PTYPE_L2_ETHER OR RTE_PTYPE_L3_IPV6_EXT_UNKNOWN OR RTE_PTYPE_INNER_L3_IPV4_EXT_UNKNOWN OR RTE_PTYPE_INNER_L4_TCP),
    (0x49, RTE_PTYPE_L2_ETHER OR RTE_PTYPE_L3_IPV4_EXT_UNKNOWN OR RTE_PTYPE_INNER_L3_IPV6_EXT_UNKNOWN OR RTE_PTYPE_INNER_L4_UDP),
    (0x4a, RTE_PTYPE_L2_ETHER OR RTE_PTYPE_L3_IPV4_EXT_UNKNOWN OR RTE_PTYPE_INNER_L3_IPV4_EXT_UNKNOWN OR RTE_PTYPE_INNER_L4_UDP),
    (0xc9, RTE_PTYPE_L2_ETHER OR RTE_PTYPE_L3_IPV6_EXT_UNKNOWN OR RTE_PTYPE_INNER_L3_IPV6_EXT_UNKNOWN OR RTE_PTYPE_INNER_L4_UDP)]"

definition mlx5_set_ptype_table :: "u32 list \<Rightarrow> u32 list" where
  "mlx5_set_ptype_table p =
     (let p = fold (\<lambda>i p. p[i := RTE_PTYPE_UNKNOWN]) [0..<255] p
      in fold (\<lambda>(i, v) p. p[i := v]) ptype_entries p)"

definition mlx5_ptype_table :: "u32 list" where
  "mlx5_ptype_table = mlx5_set_ptype_table ((replicate 256 0)[255 := RTE_PTYPE_ALL_MASK])"

definition rxq_cq_to_pkt_type :: "mlx5_rxq_data \<Rightarrow> mlx5_cqe \<Rightarrow> u32" where
  "rxq_cq_to_pkt_type rxq cqe =
     (let pinfo = cqe_pkt_info cqe;
          ptype = cqe_hdr_type_etc cqe;
          idx = ucast (push_bit 6 (ucast (pinfo AND 0x3)) OR drop_bit 10 (ptype AND 0xfc00)) :: u8
      in mlx5_ptype_table ! unat idx OR rx_tunnel rxq * (if idx AND push_bit 6 1 \<noteq> 0 then 1 else 0))"

section \<open>Completion entries\<close>

definition MLX5_CQE_FORMAT :: "u8 \<Rightarrow> u8" where
  "MLX5_CQE_FORMAT op_own = drop_bit 2 (op_own AND 0xc)"

definition MLX5_CQE_OPCODE :: "u8 \<Rightarrow> u8" where
  "MLX5_CQE_OPCODE op_own = drop_bit 4 (op_own AND 0xf0)"

text \<open>\<^verbatim>\<open>check_cqe\<close>: 1 when the entry does not belong to the software yet.\<close>

definition check_cqe :: "mlx5_env \<Rightarrow> mlx5_cqe \<Rightarrow> u32 \<Rightarrow> u16 \<Rightarrow> int" where
  "check_cqe env cqe cqes_n ci =
     (let idx = ci AND ucast cqes_n;
          op_own = cqe_op_own cqe;
          op_owner = op_own AND MLX5_CQE_OWNER_MASK env;
          op_code = MLX5_CQE_OPCODE op_own
      in if op_owner \<noteq> (if idx \<noteq> 0 then 1 else 0) \<or> op_code = MLX5_CQE_INVALID env then 1 else 0)"

text \<open>The loops that invalidate the entries from \<open>idx\<close> up to \<open>stop\<close>; 16-bit indices wrap around.\<close>

function invalidate :: "mlx5_env \<Rightarrow> u16 \<Rightarrow> u16 \<Rightarrow> u16 \<Rightarrow> mlx5_cqe list \<Rightarrow> mlx5_cqe list option" where
  "invalidate env cqe_cnt idx stop cqes =
     (if idx = stop then Some cqes
      else let k = unat (idx AND cqe_cnt) in
        if k < length cqes
        then invalidate env cqe_cnt (idx + 1) stop (cqes[k := set_op_own (push_bit 4 (MLX5_CQE_INVALID env)) (cqes ! k)])
        else None)"
  by pat_completeness auto
termination
proof (relation "measure (\<lambda>(env, cqe_cnt, idx, stop, cqes). unat (stop - idx))", goal_cases)
  case (2 env cqe_cnt idx stop cqes k)
  then have "stop - idx \<noteq> 0" by simp
  then have "unat (stop - (idx + 1)) < unat (stop - idx)"
    using unat_minus_one [of "stop - idx"] by (simp add: diff_diff_eq [symmetric] unat_gt_0)
  then show ?case by simp
qed simp

declare invalidate.simps [simp del]

text \<open>
  \<^verbatim>\<open>mlx5_rx_poll_len\<close>: the queue, the length of the next packet (0 for none, -1 for an
  error) and where its small entry is, if the completion is compressed.
\<close>

definition mlx5_rx_poll_len ::
  "mlx5_env \<Rightarrow> mlx5_rxq_data \<Rightarrow> nat \<Rightarrow> u16 \<Rightarrow> (mlx5_rxq_data \<times> u32 \<times> (nat \<times> nat) option) option" where
  "mlx5_rx_poll_len env rxq cqe cqe_cnt =
     (let zip = rx_zip rxq; cqe_n = cqe_cnt + 1 in
      if zip_ai zip \<noteq> 0 then
        (let a = unat (zip_ca zip AND cqe_cnt); k = unat (zip_ai zip AND 7) in do {
          mc \<leftarrow> nth_opt (rx_cqes rxq) a;
          (let len = rte_be_to_cpu_32 (mini_byte_cnt mc k);
               zip = zip\<lparr>zip_ai := zip_ai zip + 1\<rparr> in do {
            (cqes, zip) \<leftarrow>
              (if zip_ai zip AND 7 = 0 then do {
                 cqes \<leftarrow> invalidate env cqe_cnt (zip_ca zip) (zip_na zip) (rx_cqes rxq);
                 Some (cqes, zip\<lparr>zip_ca := zip_na zip, zip_na := zip_na zip + 8\<rparr>) }
               else Some (rx_cqes rxq, zip));
            if ucast (zip_ai zip) = zip_cqe_cnt zip then do {
              cqes \<leftarrow> invalidate env cqe_cnt (zip_ca zip) (zip_cq_ci zip) cqes;
              Some (rxq\<lparr>rx_cqes := cqes, cq_ci := ucast (zip_cq_ci zip), rx_zip := zip\<lparr>zip_ai := 0\<rparr>\<rparr>, len, Some (a, k)) }
            else Some (rxq\<lparr>rx_cqes := cqes, rx_zip := zip\<rparr>, len, Some (a, k)) }) })
      else do {
        c \<leftarrow> nth_opt (rx_cqes rxq) cqe;
        if check_cqe env c (ucast cqe_n) (ucast (cq_ci rxq)) = 1 then Some (rxq, 0, None)
        else
          (let rxq = rxq\<lparr>cq_ci := cq_ci rxq + 1\<rparr>; op_own = cqe_op_own c in do {
            (rxq, len, mcqe) \<leftarrow>
              (if MLX5_CQE_FORMAT op_own = 3 then
                 (let a = unat (ucast (cq_ci rxq) AND cqe_cnt) in do {
                   mc \<leftarrow> nth_opt (rx_cqes rxq) a;
                   (let cnt = rte_be_to_cpu_32 (cqe_byte_cnt c);
                        ca = ucast (cq_ci rxq);
                        ci = cq_ci rxq - 1
                    in Some (rxq\<lparr>cq_ci := ci,
                           rx_zip := zip\<lparr>zip_cqe_cnt := cnt, zip_ca := ca, zip_na := ca + 7, zip_cq_ci := ucast (ci + cnt),
                                         zip_ai := 1\<rparr>\<rparr>,
                         rte_be_to_cpu_32 (mini_byte_cnt mc 0), Some (a, 0))) })
               else Some (rxq, rte_be_to_cpu_32 (cqe_byte_cnt c), None));
            if MLX5_CQE_OPCODE op_own = MLX5_CQE_RESP_ERR env then Some (rxq, - 1, mcqe)
            else Some (rxq, len, mcqe) }) })"

section \<open>Fields of a packet\<close>

definition TRANSPOSE :: "u32 \<Rightarrow> u32 \<Rightarrow> u32 \<Rightarrow> u32" where
  "TRANSPOSE val from to = (if from \<ge> to then (val AND from) div (from div to) else (val AND from) * (to div from))"

text \<open>\<open>MLX5_CQE_RX_L3_HDR_VALID\<close> and \<open>MLX5_CQE_RX_L4_HDR_VALID\<close> to the good-checksum flags.\<close>

definition rxq_cq_to_ol_flags :: "mlx5_cqe \<Rightarrow> u32" where
  "rxq_cq_to_ol_flags cqe =
     (let flags = ucast (rte_be_to_cpu_16 (cqe_hdr_type_etc cqe)) :: u32
      in TRANSPOSE flags (push_bit 9 1) (push_bit 7 1) OR TRANSPOSE flags (push_bit 10 1) (push_bit 8 1))"

definition mlx5_flow_mark_set :: "u32 \<Rightarrow> u32" where
  "mlx5_flow_mark_set val =
     (let val = (if val \<noteq> 0xffffff then val + 1 else val)
      in drop_bit 8 (rte_cpu_to_be_32 val))"

definition mlx5_flow_mark_get :: "u32 \<Rightarrow> u32" where
  "mlx5_flow_mark_get val = drop_bit 8 val - 1"

abbreviation "PKT_RX_VLAN \<equiv> push_bit 0 1 :: u64"
abbreviation "PKT_RX_RSS_HASH \<equiv> push_bit 1 1 :: u64"
abbreviation "PKT_RX_FDIR \<equiv> push_bit 2 1 :: u64"
abbreviation "PKT_RX_VLAN_STRIPPED \<equiv> push_bit 6 1 :: u64"
abbreviation "PKT_RX_FDIR_ID \<equiv> push_bit 13 1 :: u64"
abbreviation "PKT_RX_TIMESTAMP \<equiv> push_bit 17 1 :: u64"

text \<open>The union of hash results: \<open>rss\<close> is its low half, \<open>fdir.hi\<close> its high half.\<close>

definition set_rss :: "u32 \<Rightarrow> rte_mbuf \<Rightarrow> rte_mbuf" where
  "set_rss v m = m\<lparr>hash := (hash m AND NOT (mask 32)) OR ucast v\<rparr>"

definition set_fdir_hi :: "u32 \<Rightarrow> rte_mbuf \<Rightarrow> rte_mbuf" where
  "set_fdir_hi v m = m\<lparr>hash := (hash m AND mask 32) OR push_bit 32 (ucast v)\<rparr>"

definition rxq_cq_to_mbuf :: "mlx5_rxq_data \<Rightarrow> mlx5_cqe \<Rightarrow> u32 \<Rightarrow> rte_mbuf \<Rightarrow> rte_mbuf" where
  "rxq_cq_to_mbuf rxq cqe rss_hash_res pkt =
     (let pkt = pkt\<lparr>packet_type := rxq_cq_to_pkt_type rxq cqe\<rparr>;
          pkt = (if rss_hash_res \<noteq> 0 \<and> rx_rss_hash rxq
                 then (set_rss rss_hash_res pkt)\<lparr>ol_flags := ol_flags pkt OR PKT_RX_RSS_HASH\<rparr> else pkt);
          pkt = (if rx_mark rxq \<and> cqe_sop_drop_qpn cqe AND 0xffffff00 \<noteq> 0
                 then let pkt = pkt\<lparr>ol_flags := ol_flags pkt OR PKT_RX_FDIR\<rparr>
                      in if cqe_sop_drop_qpn cqe \<noteq> rte_cpu_to_be_32 0xffffff
                         then set_fdir_hi (mlx5_flow_mark_get (cqe_sop_drop_qpn cqe))
                                (pkt\<lparr>ol_flags := ol_flags pkt OR PKT_RX_FDIR_ID\<rparr>)
                         else pkt
                 else pkt);
          pkt = (if rx_csum rxq then pkt\<lparr>ol_flags := ol_flags pkt OR ucast (rxq_cq_to_ol_flags cqe)\<rparr> else pkt);
          pkt = (if rx_vlan_strip rxq \<and> cqe_hdr_type_etc cqe AND rte_cpu_to_be_16 1 \<noteq> 0
                 then pkt\<lparr>ol_flags := ol_flags pkt OR (PKT_RX_VLAN OR PKT_RX_VLAN_STRIPPED),
                          vlan_tci := rte_be_to_cpu_16 (cqe_vlan_info cqe)\<rparr> else pkt)
      in if rx_hw_timestamp rxq
         then pkt\<lparr>timestamp := rte_be_to_cpu_64 (cqe_timestamp cqe), ol_flags := ol_flags pkt OR PKT_RX_TIMESTAMP\<rparr>
         else pkt)"

section \<open>Receiving a burst\<close>

text \<open>
  Dropping the segments of an unfinished packet when no replacement buffer is left: from \<open>pkt\<close> up to
  the segment \<open>sg\<close> that stays in the queue.
\<close>

partial_function (option) drop_segs ::
  "rte_mempool_ops list \<Rightarrow> nat \<Rightarrow> addr \<Rightarrow> addr \<Rightarrow> mbuf_heap \<Rightarrow> mbuf_heap option" where
  "drop_segs tbl lcore pkt sg st =
     (if pkt = sg then Some st
      else do {
        x \<leftarrow> mbufs st pkt;
        st \<leftarrow> with_mbuf pkt (\<lambda>x. x\<lparr>nxt := NULL, nb_segs := 1\<rparr>) st;
        st \<leftarrow> rte_mbuf_raw_free tbl lcore pkt st;
        drop_segs tbl lcore (nxt x) sg st })"

text \<open>
  The start of a packet: the next completion gives its length. The loop stops when there is none,
  skips the stride on an error, and goes on otherwise; in the first two cases the replacement
  buffer goes back to the pool.
\<close>

datatype rx_start = RxStop | RxSkip | RxGo u32

definition rx_begin ::
  "mlx5_env \<Rightarrow> rte_mempool_ops list \<Rightarrow> nat \<Rightarrow> addr \<Rightarrow> addr \<Rightarrow> mlx5_rxq_data \<Rightarrow> mbuf_heap \<Rightarrow>
    (mbuf_heap \<times> mlx5_rxq_data \<times> rx_start) option" where
  "rx_begin env tbl lcore sg rep rxq st =
     (let cqe_cnt = 2 ^ rx_cqe_n rxq - 1 :: u32; c = unat (cq_ci rxq AND cqe_cnt) in do {
       (rxq, len, mcqe) \<leftarrow> mlx5_rx_poll_len env rxq c (ucast cqe_cnt);
       if len = 0 then do { st \<leftarrow> rte_mbuf_raw_free tbl lcore rep st; Some (st, rxq, RxStop) }
       else if len = - 1 then do {
         st \<leftarrow> rte_mbuf_raw_free tbl lcore rep st;
         Some (st, rxq\<lparr>rx_stats := (rx_stats rxq)\<lparr>idropped := idropped (rx_stats rxq) + 1\<rparr>\<rparr>, RxSkip) }
       else do {
         cqe \<leftarrow> nth_opt (rx_cqes rxq) c;
         rss_hash_res \<leftarrow> (case mcqe of None \<Rightarrow> Some (rte_be_to_cpu_32 (cqe_rx_hash_res cqe))
           | Some (a, k) \<Rightarrow> do { mc \<leftarrow> nth_opt (rx_cqes rxq) a; Some (rte_be_to_cpu_32 (mini_rx_hash_result mc k)) });
         (let len = (if rx_crc_present rxq then len - 4 else len) in do {
           st \<leftarrow> with_mbuf sg (\<lambda>pkt. (rxq_cq_to_mbuf rxq cqe rss_hash_res (pkt\<lparr>ol_flags := 0\<rparr>))\<lparr>pkt_len := len\<rparr>) st;
           Some (st, rxq, RxGo len) }) } })"

text \<open>The replacement buffer takes the place of the consumed one, with its data in the slice of the queue.\<close>

definition rx_replace ::
  "mlx5_env \<Rightarrow> nat \<Rightarrow> addr \<Rightarrow> addr \<Rightarrow> mlx5_rxq_data \<Rightarrow> mbuf_heap \<Rightarrow> (mbuf_heap \<times> mlx5_rxq_data) option" where
  "rx_replace env idx sg rep rxq st = do {
     s \<leftarrow> mbufs st sg;
     st \<leftarrow> with_mbuf rep (\<lambda>r. r\<lparr>data_len := data_len s, pkt_len := pkt_len s, data_off := data_off s, port := port s\<rparr>) st;
     if idx < length (rx_elts rxq) then do {
       rxq \<leftarrow> Some (rxq\<lparr>rx_elts := (rx_elts rxq)[idx := rep]\<rparr>);
       st \<leftarrow> with_mbuf rep (\<lambda>r. rte_pktmbuf_set_slice r (slice_number rxq)) st;
       r \<leftarrow> mbufs st rep;
       w \<leftarrow> nth_opt (rx_wqes rxq) idx;
       (let w = w\<lparr>wqe_addr := rte_cpu_to_be_64 (rte_pktmbuf_mtod_offset r 0)\<rparr>;
            w = (if uint (rx_mr_len rxq) - 1 > 1 then w\<lparr>wqe_lkey := mlx5_rx_addr2mr env (buf_addr r)\<rparr> else w)
        in Some (st, rxq\<lparr>rx_wqes := (rx_wqes rxq)[idx := w]\<rparr>)) }
     else None }"

text \<open>The next stride.\<close>

definition rx_align :: "nat \<Rightarrow> u32 \<Rightarrow> u32" where
  "rx_align sges_n ci = push_bit sges_n (drop_bit sges_n ci + 1)"

text \<open>
  The variables of the loop of \<^verbatim>\<open>mlx5_rx_burst\<close>: the packet being assembled and its last
  segment, the consumer index in segments, the bytes of the packet still to come, the room left for
  packets and the packets received so far, next to the queue and the heap.
\<close>

record rx_vars =
  rv_pkt :: addr
  rv_seg :: addr
  rv_ci :: u32
  rv_len :: u32
  rv_pkts_n :: nat
  rv_pkts :: "addr list"
  rv_rxq :: mlx5_rxq_data
  rv_heap :: mbuf_heap

text \<open>The end of an iteration: the packet goes on in the next segment, or is complete.\<close>

definition rx_advance :: "addr \<Rightarrow> addr \<Rightarrow> u32 \<Rightarrow> rx_vars \<Rightarrow> rx_vars option" where
  "rx_advance pkt sg len v = do {
     x \<leftarrow> mbufs (rv_heap v) sg;
     if sint len > uint (data_len x) then do {
       st \<leftarrow> with_mbuf pkt (\<lambda>p. p\<lparr>nb_segs := nb_segs p + 1\<rparr>) (rv_heap v);
       Some (v\<lparr>rv_pkt := pkt, rv_seg := sg, rv_ci := rv_ci v + 1, rv_len := len - ucast (data_len x), rv_heap := st\<rparr>) }
     else do {
       st \<leftarrow> with_mbuf sg (\<lambda>x. x\<lparr>data_len := ucast len\<rparr>) (rv_heap v);
       p \<leftarrow> mbufs st pkt;
       (let rxq = rv_rxq v; s = rx_stats rxq
        in Some (v\<lparr>rv_pkt := NULL, rv_seg := sg, rv_ci := rx_align (rx_sges_n rxq) (rv_ci v), rv_len := len,
             rv_pkts_n := rv_pkts_n v - 1, rv_pkts := rv_pkts v @ [pkt],
             rv_rxq := rxq\<lparr>rx_stats := s\<lparr>ibytes := ibytes s + ucast (pkt_len p)\<rparr>\<rparr>, rv_heap := st\<rparr>)) } }"

text \<open>One iteration, and whether it leaves the loop.\<close>

definition rx_iter ::
  "mlx5_env \<Rightarrow> rte_mempool_ops list \<Rightarrow> nat \<Rightarrow> rx_vars \<Rightarrow> (rx_vars \<times> bool) option" where
  "rx_iter env tbl lcore v =
     (let rxq = rv_rxq v; pkt = rv_pkt v; idx = unat (rv_ci v AND (2 ^ rx_elts_n rxq - 1)) in do {
       e \<leftarrow> nth_opt (rx_elts rxq) idx;
       st \<leftarrow> (if pkt \<noteq> NULL then with_mbuf (rv_seg v) (\<lambda>x. x\<lparr>nxt := e\<rparr>) (rv_heap v) else Some (rv_heap v));
       (st, rep) \<leftarrow> rte_mbuf_raw_alloc tbl lcore (rx_mp rxq) st;
       if rep = NULL then
         (let rxq = rxq\<lparr>rx_stats := (rx_stats rxq)\<lparr>rx_nombuf := rx_nombuf (rx_stats rxq) + 1\<rparr>\<rparr> in
          if pkt = NULL then Some (v\<lparr>rv_seg := e, rv_rxq := rxq, rv_heap := st\<rparr>, True)
          else do {
            st \<leftarrow> drop_segs tbl lcore pkt e st;
            Some (v\<lparr>rv_pkt := e, rv_seg := e, rv_rxq := rxq, rv_heap := st\<rparr>, True) })
       else do {
         (st, rxq, r) \<leftarrow> (if pkt = NULL then rx_begin env tbl lcore e rep rxq st else Some (st, rxq, RxGo (rv_len v)));
         (case r of
           RxStop \<Rightarrow> Some (v\<lparr>rv_seg := e, rv_rxq := rxq, rv_heap := st\<rparr>, True)
         | RxSkip \<Rightarrow> Some (v\<lparr>rv_seg := e, rv_ci := rx_align (rx_sges_n rxq) (rv_ci v), rv_len := - 1,
                             rv_rxq := rxq, rv_heap := st\<rparr>, False)
         | RxGo len \<Rightarrow> do {
             (st, rxq) \<leftarrow> rx_replace env idx e rep rxq st;
             v \<leftarrow> rx_advance (if pkt = NULL then e else pkt) e len (v\<lparr>rv_rxq := rxq, rv_heap := st\<rparr>);
             Some (v, False) }) } })"

partial_function (option) rx_loop :: "mlx5_env \<Rightarrow> rte_mempool_ops list \<Rightarrow> nat \<Rightarrow> rx_vars \<Rightarrow> rx_vars option" where
  "rx_loop env tbl lcore v =
     (if rv_pkts_n v = 0 then Some v
      else do {
        (v, stop) \<leftarrow> rx_iter env tbl lcore v;
        if stop then Some v else rx_loop env tbl lcore v })"

definition mlx5_rx_burst ::
  "mlx5_env \<Rightarrow> rte_mempool_ops list \<Rightarrow> nat \<Rightarrow> mlx5_rxq_data \<Rightarrow> u16 \<Rightarrow> mbuf_heap \<Rightarrow> (mbuf_heap \<times> mlx5_rxq_data \<times> addr list) option" where
  "mlx5_rx_burst env tbl lcore rxq pkts_n st = do {
     v \<leftarrow> rx_loop env tbl lcore \<lparr>rv_pkt = NULL, rv_seg = NULL, rv_ci = push_bit (rx_sges_n rxq) (rq_ci rxq), rv_len = 0,
            rv_pkts_n = unat pkts_n, rv_pkts = [], rv_rxq = rxq, rv_heap = st\<rparr>;
     (let rxq = rv_rxq v; ci = drop_bit (rx_sges_n rxq) (rv_ci v) in
      if rv_pkts v = [] \<and> ci = rq_ci rxq then Some (rv_heap v, rxq, [])
      else Some (rv_heap v, rxq\<lparr>rq_ci := ci, cq_db := rte_cpu_to_be_32 (cq_ci rxq), rq_db := rte_cpu_to_be_32 ci,
                   rx_stats := (rx_stats rxq)\<lparr>ipackets := ipackets (rx_stats rxq) + of_nat (length (rv_pkts v))\<rparr>\<rparr>,
                 rv_pkts v)) }"

end
