(* ===== verification/Mlx5RxInv.thy ===== *)
theory Mlx5RxInv
  imports Mlx5Rx
begin

text \<open>
  Lemmas on the receive path: an invariant of the receive queue that every iteration of the burst
  loop keeps, for any memory pool driver, a rank that shows that the loop ends, and the properties
  of \<^verbatim>\<open>mlx5_rx_burst\<close> on ring pools.
\<close>

section \<open>What receiving keeps of the buffers\<close>

text \<open>
  Where a buffer is, what slices its lines lie in, where its data starts and which pool it belongs to.
\<close>

definition core :: "rte_mbuf \<Rightarrow> addr \<times> iova \<times> u64 \<times> addr \<times> u16" where
  "core x = (buf_addr x, buf_iova x, udata64 x, pool x, data_off x)"

definition core_eq :: "mbuf_heap \<Rightarrow> mbuf_heap \<Rightarrow> bool" where
  "core_eq st st' \<longleftrightarrow> (\<forall>m. map_option core (mbufs st' m) = map_option core (mbufs st m))"

lemma core_eq_refl [simp]: "core_eq st st"
  by (simp add: core_eq_def)

lemma core_eq_trans [trans]: "core_eq st st1 \<Longrightarrow> core_eq st1 st2 \<Longrightarrow> core_eq st st2"
  by (simp add: core_eq_def)

lemma core_eq_pools [simp]: "core_eq st (st'\<lparr>pools := ps\<rparr>) = core_eq st st'" "core_eq (st\<lparr>pools := ps\<rparr>) st' = core_eq st st'"
  by (simp_all add: core_eq_def)

lemma core_eq_Some:
  assumes "core_eq st st'" "mbufs st m = Some x"
  shows "\<exists>x'. mbufs st' m = Some x' \<and> core x' = core x"
proof -
  have "map_option core (mbufs st' m) = Some (core x)" using assms by (simp add: core_eq_def)
  then show ?thesis by auto
qed

lemma with_mbuf_core:
  assumes "mbufs st m = Some x" "\<And>x. core (f x) = core x"
  shows "\<exists>st'. with_mbuf m f st = Some st' \<and> core_eq st st' \<and> pools st' = pools st \<and> mbufs st' = (mbufs st)(m \<mapsto> f x)"
  using assms by (simp add: with_mbuf_def core_eq_def)

lemma core_simps [simp]:
  "core (x\<lparr>nxt := a\<rparr>) = core x" "core (x\<lparr>nb_segs := k\<rparr>) = core x" "core (x\<lparr>nxt := a, nb_segs := k\<rparr>) = core x"
  "core (x\<lparr>data_len := l\<rparr>) = core x"
  "core (x\<lparr>pkt_len := p\<rparr>) = core x" "core (x\<lparr>ol_flags := fl\<rparr>) = core x"
  by (simp_all add: core_def)

lemma core_cq_to_mbuf [simp]: "core (rxq_cq_to_mbuf rxq cqe h x) = core x"
  by (simp add: rxq_cq_to_mbuf_def set_rss_def set_fdir_hi_def core_def Let_def)

section \<open>The receive queue\<close>

text \<open>A buffer of the pool of the queue, with valid slice offsets.\<close>

definition rx_mbuf_ok :: "mbuf_heap \<Rightarrow> addr \<Rightarrow> addr \<Rightarrow> bool" where
  "rx_mbuf_ok st mpa m \<longleftrightarrow> m \<noteq> NULL \<and> (\<exists>x. mbufs st m = Some x \<and> slices_ready x \<and> pool x = mpa)"

text \<open>
  A slot of the queue: the descriptor points at the start of the data of the buffer in the slot,
  which lies in the slice of the queue.
\<close>

definition slot_ok :: "mbuf_heap \<Rightarrow> mlx5_rxq_data \<Rightarrow> nat \<Rightarrow> bool" where
  "slot_ok st rxq i \<longleftrightarrow> (\<exists>x. mbufs st (rx_elts rxq ! i) = Some x \<and>
     calculateSlice_HF_haswell (rte_mbuf_data_iova x) = ucast (rx_queue_id rxq mod coreNumber) \<and> data_off x \<le> 896 \<and>
     wqe_addr (rx_wqes rxq ! i) = rte_cpu_to_be_64 (rte_pktmbuf_mtod_offset x 0))"

text \<open>
  The arrays have the sizes the logarithms give, every slot is in order, and the buffers in the
  queue, in the pool and in the unfinished packet are different buffers of the pool.
\<close>

definition rx_shape :: "mlx5_rxq_data \<Rightarrow> bool" where
  "rx_shape rxq \<longleftrightarrow> rx_elts_n rxq < 16 \<and> rx_cqe_n rxq < 16 \<and> 2 ^ rx_elts_n rxq \<le> length (rx_elts rxq) \<and>
     length (rx_wqes rxq) = 2 ^ rx_elts_n rxq \<and> length (rx_cqes rxq) = 2 ^ rx_cqe_n rxq"

definition rx_owned :: "(rte_mempool \<Rightarrow> addr multiset) \<Rightarrow> rte_mempool \<Rightarrow> mlx5_rxq_data \<Rightarrow> addr list \<Rightarrow> addr multiset" where
  "rx_owned bag p rxq ps = mset (take (2 ^ rx_elts_n rxq) (rx_elts rxq)) + pool_total bag p + mset ps"

definition rx_ok ::
  "(rte_mempool \<Rightarrow> bool) \<Rightarrow> (rte_mempool \<Rightarrow> addr multiset) \<Rightarrow> (rte_mempool \<Rightarrow> nat) \<Rightarrow>
    addr list \<Rightarrow> mlx5_rxq_data \<Rightarrow> mbuf_heap \<Rightarrow> bool" where
  "rx_ok pinv bag cap ps rxq st \<longleftrightarrow> rx_shape rxq \<and> (\<forall>i < 2 ^ rx_elts_n rxq. slot_ok st rxq i) \<and>
     (\<exists>p. pools st (rx_mp rxq) = Some p \<and> pool_ok pinv p \<and> size (pool_total bag p) + length ps \<le> cap p \<and>
       (\<forall>m. count (rx_owned bag p rxq ps) m \<le> 1) \<and> (\<forall>m \<in># rx_owned bag p rxq ps. rx_mbuf_ok st (rx_mp rxq) m))"

text \<open>
  The same with the buffers that are there: \<open>tot\<close> are those in the queue, in the pool and in \<open>ps\<close>.
\<close>

definition rx_total :: "(rte_mempool \<Rightarrow> addr multiset) \<Rightarrow> mlx5_rxq_data \<Rightarrow> addr list \<Rightarrow> mbuf_heap \<Rightarrow> addr multiset option" where
  "rx_total bag rxq ps st = map_option (\<lambda>p. rx_owned bag p rxq ps) (pools st (rx_mp rxq))"

definition rx_holds ::
  "addr multiset \<Rightarrow> (rte_mempool \<Rightarrow> bool) \<Rightarrow> (rte_mempool \<Rightarrow> addr multiset) \<Rightarrow> (rte_mempool \<Rightarrow> nat) \<Rightarrow>
    addr list \<Rightarrow> mlx5_rxq_data \<Rightarrow> mbuf_heap \<Rightarrow> bool" where
  "rx_holds tot pinv bag cap ps rxq st \<longleftrightarrow> rx_ok pinv bag cap ps rxq st \<and> rx_total bag rxq ps st = Some tot"

lemma rx_ok_holds:
  assumes "rx_ok pinv bag cap ps rxq st"
  obtains tot where "rx_holds tot pinv bag cap ps rxq st" "rx_total bag rxq ps st = Some tot"
  using assms that by (auto simp: rx_holds_def rx_ok_def rx_total_def)

lemma rx_okI:
  assumes "rx_shape rxq" "\<forall>i < 2 ^ rx_elts_n rxq. slot_ok st rxq i" "pools st (rx_mp rxq) = Some p" "pool_ok pinv p"
    "size (pool_total bag p) + length ps \<le> cap p" "\<forall>m. count (rx_owned bag p rxq ps) m \<le> 1"
    "\<forall>m \<in># rx_owned bag p rxq ps. rx_mbuf_ok st (rx_mp rxq) m"
  shows "rx_ok pinv bag cap ps rxq st"
  using assms unfolding rx_ok_def by blast

lemma slices_ready_core: "core y = core x \<Longrightarrow> slices_ready y = slices_ready x"
  by (rule slices_ready_cong) (simp_all add: core_def)

lemma rx_mbuf_ok_core:
  assumes "core_eq st st'" "rx_mbuf_ok st mpa m"
  shows "rx_mbuf_ok st' mpa m"
proof -
  obtain x where x: "m \<noteq> NULL" "mbufs st m = Some x" "slices_ready x" "pool x = mpa"
    using assms(2) by (auto simp: rx_mbuf_ok_def)
  obtain x' where "mbufs st' m = Some x'" "core x' = core x" using core_eq_Some [OF assms(1) x(2)] by blast
  with x show ?thesis using slices_ready_core [of x' x] by (simp add: rx_mbuf_ok_def core_def)
qed

lemma slot_ok_core:
  assumes "core_eq st st'" "slot_ok st rxq i"
  shows "slot_ok st' rxq i"
proof -
  obtain x where x: "mbufs st (rx_elts rxq ! i) = Some x"
      "calculateSlice_HF_haswell (rte_mbuf_data_iova x) = ucast (rx_queue_id rxq mod coreNumber)" "data_off x \<le> 896"
      "wqe_addr (rx_wqes rxq ! i) = rte_cpu_to_be_64 (rte_pktmbuf_mtod_offset x 0)"
    using assms(2) by (auto simp: slot_ok_def)
  obtain x' where x': "mbufs st' (rx_elts rxq ! i) = Some x'" "core x' = core x"
    using core_eq_Some [OF assms(1) x(1)] by blast
  have "rte_mbuf_data_iova x' = rte_mbuf_data_iova x" "rte_pktmbuf_mtod_offset x' 0 = rte_pktmbuf_mtod_offset x 0"
      "data_off x' = data_off x"
    using x'(2) by (simp_all add: core_def rte_mbuf_data_iova_def rte_pktmbuf_mtod_offset_def)
  with x x'(1) show ?thesis unfolding slot_ok_def by simp
qed

text \<open>Fields of the queue that no slot depends on.\<close>

definition rx_same :: "mlx5_rxq_data \<Rightarrow> mlx5_rxq_data \<Rightarrow> bool" where
  "rx_same r r' \<longleftrightarrow> rx_elts_n r' = rx_elts_n r \<and> rx_cqe_n r' = rx_cqe_n r \<and> rx_elts r' = rx_elts r \<and> rx_wqes r' = rx_wqes r \<and>
     length (rx_cqes r') = length (rx_cqes r) \<and> rx_mp r' = rx_mp r \<and> rx_queue_id r' = rx_queue_id r \<and> rx_sges_n r' = rx_sges_n r"

lemma rx_holds_cong:
  assumes "rx_holds tot pinv bag cap ps rxq st" "core_eq st st'" "pools st' (rx_mp rxq) = pools st (rx_mp rxq)" "rx_same rxq rxq'"
  shows "rx_holds tot pinv bag cap ps rxq' st'"
proof -
  have "slot_ok st' rxq' i" if "slot_ok st rxq i" for i
    using slot_ok_core [OF assms(2) that] assms(4) by (simp add: slot_ok_def rx_same_def)
  moreover have "rx_owned bag p rxq' ps = rx_owned bag p rxq ps" "rx_shape rxq' = rx_shape rxq" for p
    using assms(4) by (simp_all add: rx_owned_def rx_shape_def rx_same_def)
  ultimately show ?thesis
    using assms rx_mbuf_ok_core [OF assms(2)] unfolding rx_holds_def rx_ok_def rx_total_def rx_same_def by auto
qed

lemma rx_holdsE:
  assumes "rx_holds tot pinv bag cap ps rxq st"
  obtains p where "rx_shape rxq" "\<forall>i < 2 ^ rx_elts_n rxq. slot_ok st rxq i" "pools st (rx_mp rxq) = Some p" "pool_ok pinv p"
    "size (pool_total bag p) + length ps \<le> cap p" "\<forall>m. count (rx_owned bag p rxq ps) m \<le> 1"
    "\<forall>m \<in># rx_owned bag p rxq ps. rx_mbuf_ok st (rx_mp rxq) m" "rx_owned bag p rxq ps = tot"
proof -
  have ok: "rx_ok pinv bag cap ps rxq st" and tot: "rx_total bag rxq ps st = Some tot" using assms by (simp_all add: rx_holds_def)
  obtain p where p: "rx_shape rxq" "\<forall>i < 2 ^ rx_elts_n rxq. slot_ok st rxq i" "pools st (rx_mp rxq) = Some p" "pool_ok pinv p"
    "size (pool_total bag p) + length ps \<le> cap p" "\<forall>m. count (rx_owned bag p rxq ps) m \<le> 1"
    "\<forall>m \<in># rx_owned bag p rxq ps. rx_mbuf_ok st (rx_mp rxq) m"
    using ok unfolding rx_ok_def by blast
  moreover have "rx_owned bag p rxq ps = tot" using tot p(3) by (simp add: rx_total_def)
  ultimately show ?thesis by (rule that)
qed

lemma rx_holdsI:
  assumes "rx_shape rxq" "\<forall>i < 2 ^ rx_elts_n rxq. slot_ok st rxq i" "pools st (rx_mp rxq) = Some p" "pool_ok pinv p"
    "size (pool_total bag p) + length ps \<le> cap p" "\<forall>m. count (rx_owned bag p rxq ps) m \<le> 1"
    "\<forall>m \<in># rx_owned bag p rxq ps. rx_mbuf_ok st (rx_mp rxq) m" "rx_owned bag p rxq ps = tot"
  shows "rx_holds tot pinv bag cap ps rxq st"
proof -
  have "rx_ok pinv bag cap ps rxq st" by (rule rx_okI [where p = p]) (rule assms)+
  then show ?thesis using assms(3,8) by (simp add: rx_holds_def rx_total_def)
qed

lemma rx_mbuf_ok_pools [simp]: "rx_mbuf_ok (st\<lparr>pools := ps\<rparr>) = rx_mbuf_ok st"
  by (simp add: rx_mbuf_ok_def fun_eq_iff)

lemma slot_ok_pools [simp]: "slot_ok (st\<lparr>pools := ps\<rparr>) = slot_ok st"
  by (simp add: slot_ok_def fun_eq_iff)

lemma rx_holds_in:
  assumes "rx_holds tot pinv bag cap ps rxq st" "m \<in> set ps"
  shows "rx_mbuf_ok st (rx_mp rxq) m"
  using assms by (auto simp: rx_holds_def rx_ok_def rx_owned_def)

context mempool_driver
begin

lemma raw_alloc_rx:
  assumes "rx_holds tot pinv bag cap ps rxq st"
  shows "\<exists>st' rep. rte_mbuf_raw_alloc tbl lcore (rx_mp rxq) st = Some (st', rep) \<and> mbufs st' = mbufs st \<and>
    rx_holds tot pinv bag cap (if rep = NULL then ps else rep # ps) rxq st'"
proof -
  obtain p where p: "rx_shape rxq" "\<forall>i < 2 ^ rx_elts_n rxq. slot_ok st rxq i" "pools st (rx_mp rxq) = Some p" "pool_ok pinv p"
    "size (pool_total bag p) + length ps \<le> cap p" "\<forall>m. count (rx_owned bag p rxq ps) m \<le> 1"
    "\<forall>m \<in># rx_owned bag p rxq ps. rx_mbuf_ok st (rx_mp rxq) m" "rx_owned bag p rxq ps = tot" using assms by (rule rx_holdsE)
  obtain p' objs s where g: "rte_mempool_get_bulk tbl lcore p 1 = Some (p', objs, s)" "pool_ok pinv p'" "cap p' = cap p"
      "pool_total bag p = pool_total bag p' + mset objs" "s = 0 \<longrightarrow> length objs = 1" "s \<noteq> 0 \<longrightarrow> s < 0 \<and> objs = []"
    using get_bulk_conserves [OF p(4), of lcore 1] by auto
  let ?st = "st\<lparr>pools := (pools st)(rx_mp rxq \<mapsto> p')\<rparr>"
  have ok: "rx_holds tot pinv bag cap (objs @ ps) rxq ?st"
  proof (rule rx_holdsI [where p = p'])
    have o: "rx_owned bag p' rxq (objs @ ps) = rx_owned bag p rxq ps" using g(4) by (simp add: rx_owned_def ac_simps)
    show "\<forall>m. count (rx_owned bag p' rxq (objs @ ps)) m \<le> 1" unfolding o by (rule p(6))
    show "\<forall>m \<in># rx_owned bag p' rxq (objs @ ps). rx_mbuf_ok ?st (rx_mp rxq) m" unfolding o using p(7) by simp
    show "rx_owned bag p' rxq (objs @ ps) = tot" unfolding o by (rule p(8))
  qed (use p g in simp_all)
  show ?thesis
  proof (cases "s = 0")
    case True
    then obtain m where m: "objs = [m]" using g(5) by (auto simp: length_Suc_conv)
    then have "m \<noteq> NULL" using rx_holds_in [OF ok, of m] by (simp add: rx_mbuf_ok_def)
    then show ?thesis using ok m True p(3) g(1)
      by (intro exI [of _ ?st] exI [of _ m]) (simp add: rte_mbuf_raw_alloc_def rte_mempool_get_def)
  next
    case False
    with g(6) have "s < 0" "objs = []" by auto
    then show ?thesis using ok p(3) g(1)
      by (intro exI [of _ ?st] exI [of _ NULL]) (simp add: rte_mbuf_raw_alloc_def rte_mempool_get_def)
  qed
qed

lemma raw_free_rx:
  assumes "rx_holds tot pinv bag cap (m # ps) rxq st"
  shows "\<exists>st'. rte_mbuf_raw_free tbl lcore m st = Some st' \<and> mbufs st' = mbufs st \<and> rx_holds tot pinv bag cap ps rxq st'"
proof -
  obtain p where p: "rx_shape rxq" "\<forall>i < 2 ^ rx_elts_n rxq. slot_ok st rxq i" "pools st (rx_mp rxq) = Some p" "pool_ok pinv p"
    "size (pool_total bag p) + length (m # ps) \<le> cap p" "\<forall>x. count (rx_owned bag p rxq (m # ps)) x \<le> 1"
    "\<forall>x \<in># rx_owned bag p rxq (m # ps). rx_mbuf_ok st (rx_mp rxq) x" "rx_owned bag p rxq (m # ps) = tot" using assms by (rule rx_holdsE)
  obtain x where x: "mbufs st m = Some x" "pool x = rx_mp rxq"
    using rx_holds_in [OF assms, of m] by (auto simp: rx_mbuf_ok_def)
  obtain p' where g: "rte_mempool_put_bulk tbl lcore p [m] 1 = Some p'" "pool_ok pinv p'" "cap p' = cap p"
      "pool_total bag p' = pool_total bag p + mset [m]"
    using put_bulk_conserves [OF p(4), of "[m]" 1 lcore] p(5) by auto
  let ?st = "st\<lparr>pools := (pools st)(rx_mp rxq \<mapsto> p')\<rparr>"
  have "rx_owned bag p' rxq ps = rx_owned bag p rxq (m # ps)" using g(4) by (simp add: rx_owned_def)
  then have "rx_holds tot pinv bag cap ps rxq ?st"
    using p g(2,3,4) by (intro rx_holdsI [where p = p']) simp_all
  then show ?thesis using x p(3) g(1)
    by (intro exI [of _ ?st]) (simp add: rte_mbuf_raw_free_def rte_mempool_put_def)
qed

end

section \<open>Completion entries stay in their array\<close>

lemma and_below: "unat (m :: 'a::len word) < n \<Longrightarrow> unat (i AND m) < n"
proof -
  have "i AND m \<le> m" by (rule word_and_le1)
  then show "unat m < n \<Longrightarrow> unat (i AND m) < n" by (simp add: word_le_nat_alt)
qed

lemma invalidate_ok:
  "unat cqe_cnt < length cqes \<Longrightarrow> \<exists>cqes'. invalidate env cqe_cnt idx stop cqes = Some cqes' \<and> length cqes' = length cqes"
proof (induction env cqe_cnt idx stop cqes rule: invalidate.induct)
  case (1 env cqe_cnt idx stop cqes)
  show ?case
  proof (cases "idx = stop")
    case True
    then show ?thesis by (subst invalidate.simps) simp
  next
    case False
    have k: "unat (idx AND cqe_cnt) < length cqes" using "1.prems" by (rule and_below)
    let ?cqes = "cqes[unat (idx AND cqe_cnt) := set_op_own (push_bit 4 (MLX5_CQE_INVALID env)) (cqes ! unat (idx AND cqe_cnt))]"
    have "\<exists>cqes'. invalidate env cqe_cnt (idx + 1) stop ?cqes = Some cqes' \<and> length cqes' = length ?cqes"
      using "1.IH" [OF False refl k] "1.prems" by simp
    then show ?thesis using False k by (subst invalidate.simps) (simp add: Let_def)
  qed
qed

lemma poll_len_ok:
  assumes "cqe < length (rx_cqes rxq)" "unat cqe_cnt < length (rx_cqes rxq)"
  shows "\<exists>rxq' len mcqe. mlx5_rx_poll_len env rxq cqe cqe_cnt = Some (rxq', len, mcqe) \<and> rx_same rxq rxq' \<and>
    (\<forall>a k. mcqe = Some (a, k) \<longrightarrow> a < length (rx_cqes rxq))"
proof (cases "zip_ai (rx_zip rxq) = 0")
  case True
  have "unat (ucast (cq_ci rxq + 1) AND cqe_cnt) < length (rx_cqes rxq)" using assms(2) by (rule and_below)
  with True assms(1) show ?thesis
    by (auto simp: mlx5_rx_poll_len_def Let_def nth_opt_def rx_same_def)
next
  case False
  let ?zip = "(rx_zip rxq)\<lparr>zip_ai := zip_ai (rx_zip rxq) + 1\<rparr>"
  have a: "unat (zip_ca (rx_zip rxq) AND cqe_cnt) < length (rx_cqes rxq)" using assms(2) by (rule and_below)
  obtain cqes zip where 1: "(if zip_ai ?zip AND 7 = 0 then do {
       cqes \<leftarrow> invalidate env cqe_cnt (zip_ca ?zip) (zip_na ?zip) (rx_cqes rxq);
       Some (cqes, ?zip\<lparr>zip_ca := zip_na ?zip, zip_na := zip_na ?zip + 8\<rparr>) }
     else Some (rx_cqes rxq, ?zip)) = Some (cqes, zip)" "length cqes = length (rx_cqes rxq)"
    using invalidate_ok [OF assms(2), of env "zip_ca ?zip" "zip_na ?zip"]
    by (cases "zip_ai ?zip AND 7 = 0") auto
  obtain cqes' where 2: "invalidate env cqe_cnt (zip_ca zip) (zip_cq_ci zip) cqes = Some cqes'" "length cqes' = length cqes"
    using invalidate_ok [of cqe_cnt cqes env] assms(2) 1(2) by fastforce
  show ?thesis
    unfolding mlx5_rx_poll_len_def Let_def if_not_P [OF False, symmetric]
    using False a 1 2 by (simp add: nth_opt_def rx_same_def del: not_None_eq)
qed

section \<open>One iteration\<close>

text \<open>The segments of an unfinished packet: linked from one address up to another.\<close>

fun seg_path :: "(addr \<rightharpoonup> rte_mbuf) \<Rightarrow> addr \<Rightarrow> addr list \<Rightarrow> addr \<Rightarrow> bool" where
  "seg_path h a [] b \<longleftrightarrow> a = b"
| "seg_path h a (x # xs) b \<longleftrightarrow> a = x \<and> a \<noteq> b \<and> (\<exists>y. h x = Some y \<and> seg_path h (nxt y) xs b)"

lemma seg_path_cong:
  assumes "seg_path h a xs b" "\<And>x. x \<in> set xs \<Longrightarrow> map_option nxt (h' x) = map_option nxt (h x)"
  shows "seg_path h' a xs b"
  using assms
proof (induction xs arbitrary: a)
  case (Cons x xs)
  then obtain y where y: "a = x" "a \<noteq> b" "h x = Some y" "seg_path h (nxt y) xs b" by auto
  obtain y' where "h' x = Some y'" "nxt y' = nxt y" using Cons.prems(2) [of x] y(3) by auto
  with y Cons.IH [of "nxt y"] Cons.prems(2) show ?case by auto
qed simp

text \<open>A path grows at its end.\<close>

lemma seg_path_snoc:
  assumes "seg_path h a xs l" "h l = Some y" "nxt y = b" "b \<notin> set (xs @ [l])"
  shows "seg_path h a (xs @ [l]) b"
  using assms
proof (induction xs arbitrary: a)
  case Nil
  then show ?case by auto
next
  case (Cons x xs)
  then show ?case by auto
qed

text \<open>The segments of a packet as the driver linked them, from its head to the last one.\<close>

definition rx_segs :: "mbuf_heap \<Rightarrow> addr \<Rightarrow> addr list \<Rightarrow> bool" where
  "rx_segs st m ms \<longleftrightarrow> (\<exists>qs l. ms = qs @ [l] \<and> seg_path (mbufs st) m qs l)"

lemma rx_segs_head: "rx_segs st m ms \<Longrightarrow> m \<in> set ms"
proof -
  assume "rx_segs st m ms"
  then obtain qs l where "ms = qs @ [l]" "seg_path (mbufs st) m qs l" by (auto simp: rx_segs_def)
  then show "m \<in> set ms" by (cases qs) auto
qed

lemma rx_segs_cong:
  assumes "list_all2 (rx_segs st) ms cs" "\<And>a. a \<in> set (concat cs) \<Longrightarrow> map_option nxt (mbufs st' a) = map_option nxt (mbufs st a)"
  shows "list_all2 (rx_segs st') ms cs"
  using assms
proof (induction rule: list_all2_induct)
  case (Cons m ms c cs)
  obtain qs l where "c = qs @ [l]" "seg_path (mbufs st) m qs l" using Cons.hyps(1) by (auto simp: rx_segs_def)
  moreover have "seg_path (mbufs st') m qs l" using calculation(2) by (rule seg_path_cong) (use Cons.prems calculation(1) in auto)
  ultimately have "rx_segs st' m c" by (auto simp: rx_segs_def)
  with Cons show ?case by simp
qed simp

lemma rx_segs_heads: "list_all2 (rx_segs st) ms cs \<Longrightarrow> set ms \<subseteq> set (concat cs)"
  by (induction rule: list_all2_induct) (auto dest: rx_segs_head)

text \<open>
  What a buffer in the pool or in the queue looks like: not linked, and one segment. The driver counts on
  it, and so does every user of \<^verbatim>\<open>rte_mbuf_raw_alloc\<close>. All buffers of a pool but the ones in use are like this.
\<close>

definition fresh :: "mbuf_heap \<Rightarrow> addr \<Rightarrow> addr list \<Rightarrow> bool" where
  "fresh st mpa used \<longleftrightarrow> (\<forall>m x. mbufs st m = Some x \<longrightarrow> pool x = mpa \<longrightarrow> m \<notin> set used \<longrightarrow> nxt x = NULL \<and> nb_segs x = 1)"

text \<open>
  A received packet: its segments are linked up to the end, its head has their number and, unless the length is
  negative as a C integer, their total length.
\<close>

definition rx_pkt :: "mbuf_heap \<Rightarrow> addr \<Rightarrow> addr list \<Rightarrow> bool" where
  "rx_pkt st m ms \<longleftrightarrow> ms \<noteq> [] \<and> distinct ms \<and> chain (mbufs st) m ms \<and>
     (\<exists>b. mbufs st m = Some b \<and> nb_segs b = of_nat (length ms) \<and>
       (0 \<le> sint (pkt_len b) \<longrightarrow> pkt_len b = of_nat (total_len st ms)))"

text \<open>The head of an unfinished packet knows the segments so far, and the bytes so far and to come.\<close>

definition growing :: "mbuf_heap \<Rightarrow> addr \<Rightarrow> addr list \<Rightarrow> u32 \<Rightarrow> bool" where
  "growing st pkt ps len \<longleftrightarrow> (ps \<noteq> [] \<longrightarrow> 0 < sint len) \<and>
     (\<exists>b. mbufs st pkt = Some b \<and> nb_segs b = of_nat (length ps + 1) \<and> pkt_len b = of_nat (total_len st ps) + len)"

lemma fresh_cong:
  assumes "fresh st mpa used"
    and "\<And>a x. mbufs st' a = Some x \<Longrightarrow> pool x = mpa \<Longrightarrow> a \<notin> set used' \<Longrightarrow>
      (nxt x = NULL \<and> nb_segs x = 1) \<or>
      (a \<notin> set used \<and> (\<exists>y. mbufs st a = Some y \<and> pool y = mpa \<and> nxt y = nxt x \<and> nb_segs y = nb_segs x))"
  shows "fresh st' mpa used'"
  unfolding fresh_def
proof (intro allI impI)
  fix m x assume "mbufs st' m = Some x" "pool x = mpa" "m \<notin> set used'"
  from assms(2) [OF this] consider "nxt x = NULL \<and> nb_segs x = 1"
    | y where "m \<notin> set used" "mbufs st m = Some y" "pool y = mpa" "nxt y = nxt x" "nb_segs y = nb_segs x" by blast
  then show "nxt x = NULL \<and> nb_segs x = 1"
  proof cases
    case 2
    then have "nxt y = NULL \<and> nb_segs y = 1" using assms(1) unfolding fresh_def by blast
    with 2 show ?thesis by simp
  qed simp
qed

lemma fresh_used:
  assumes "fresh st mpa used" "\<And>a. a \<notin> set used' \<Longrightarrow> a \<notin> set used \<and> mbufs st' a = mbufs st a"
  shows "fresh st' mpa used'"
  by (rule fresh_cong [OF assms(1)]) (use assms(2) in simp)

lemma rx_pkt_cong:
  assumes "rx_pkt st m ms" "\<And>a. a \<in> set ms \<Longrightarrow> mbufs st' a = mbufs st a"
  shows "rx_pkt st' m ms"
proof -
  have ch: "ms \<noteq> []" "chain (mbufs st) m ms" using assms(1) by (simp_all add: rx_pkt_def)
  then obtain xs where "ms = m # xs" by (cases ms) (auto simp: chain_Cons)
  then have m: "m \<in> set ms" by simp
  have "chain (mbufs st') m ms" using ch(2) by (rule chain_cong) (simp add: assms(2))
  moreover have "total_len st' ms = total_len st ms" using assms(2) by (intro total_len_cong) simp
  ultimately show ?thesis using assms(1) assms(2) [OF m] by (simp add: rx_pkt_def)
qed

lemma rx_pkts_cong:
  assumes "list_all2 (rx_pkt st) ms cs" "\<And>a. a \<in> set (concat cs) \<Longrightarrow> mbufs st' a = mbufs st a"
  shows "list_all2 (rx_pkt st') ms cs"
  using assms by (induction rule: list_all2_induct) (auto intro: rx_pkt_cong)

text \<open>The last segment ends the chain.\<close>

lemma seg_path_chain:
  assumes "seg_path h a xs l" "h l = Some y" "nxt y = NULL" "l \<noteq> NULL" "NULL \<notin> set xs"
  shows "chain h a (xs @ [l])"
  using assms(1,5)
proof (induction xs arbitrary: a)
  case Nil
  then show ?case using assms(2-4) by (simp add: chain_Cons)
next
  case (Cons x xs)
  then show ?case by (auto simp: chain_Cons)
qed

text \<open>The fields of the head and the lengths, which links do not change.\<close>

definition body :: "rte_mbuf \<Rightarrow> u16 \<times> u32 \<times> u16" where
  "body x = (nb_segs x, pkt_len x, data_len x)"

lemma growing_cong:
  assumes "growing st pkt ps len" "\<And>a. map_option body (mbufs st' a) = map_option body (mbufs st a)"
  shows "growing st' pkt ps len"
proof -
  obtain b where b: "mbufs st pkt = Some b" "nb_segs b = of_nat (length ps + 1)" "pkt_len b = of_nat (total_len st ps) + len"
    using assms(1) by (auto simp: growing_def)
  have "map_option data_len (mbufs st' a) = map_option data_len (mbufs st a)" for a
    using assms(2) [of a] by (cases "mbufs st a"; cases "mbufs st' a") (simp_all add: body_def)
  then have "total_len st' ps = total_len st ps" by (intro total_len_cong) simp
  moreover have "map_option body (mbufs st' pkt) = Some (body b)" using assms(2) [of pkt] b(1) by simp
  then obtain b' where "mbufs st' pkt = Some b'" "body b' = body b" by (cases "mbufs st' pkt") auto
  ultimately show ?thesis using assms(1) b by (simp add: growing_def body_def)
qed

lemma rx_holds_notin:
  assumes "rx_holds tot pinv bag cap (m # ps) rxq st"
  shows "m \<notin> set ps" "m \<notin> set (take (2 ^ rx_elts_n rxq) (rx_elts rxq))"
proof -
  obtain p where p: "\<forall>x. count (rx_owned bag p rxq (m # ps)) x \<le> 1" using assms by (auto simp: rx_holds_def rx_ok_def)
  have "count (mset ps) m = 0 \<and> count (mset (take (2 ^ rx_elts_n rxq) (rx_elts rxq))) m = 0"
    using p [rule_format, of m] by (simp add: rx_owned_def)
  then show "m \<notin> set ps" "m \<notin> set (take (2 ^ rx_elts_n rxq) (rx_elts rxq))" by (auto simp: count_eq_zero_iff)
qed

lemma apart_mid: "distinct (xs @ ys @ zs) \<Longrightarrow> a \<in> set ys \<Longrightarrow> a \<notin> set xs"
  by auto

lemma queue_count: "m \<in> set (take (2 ^ rx_elts_n rxq) (rx_elts rxq)) \<Longrightarrow> 1 \<le> count (mset (take (2 ^ rx_elts_n rxq) (rx_elts rxq))) m"
  by (simp add: Suc_le_eq)

lemma rx_holds_apart:
  assumes "rx_holds tot pinv bag cap ps rxq st"
  shows "set (take (2 ^ rx_elts_n rxq) (rx_elts rxq)) \<inter> set ps = {}"
proof -
  obtain p where p: "\<forall>x. count (rx_owned bag p rxq ps) x \<le> 1" using assms by (auto simp: rx_holds_def rx_ok_def)
  have "m \<notin> set ps" if "m \<in> set (take (2 ^ rx_elts_n rxq) (rx_elts rxq))" for m
  proof -
    have "count (rx_owned bag p rxq ps) m = count (mset (take (2 ^ rx_elts_n rxq) (rx_elts rxq))) m + count (pool_total bag p) m + count (mset ps) m"
      by (simp only: rx_owned_def count_union)
    then have "count (mset ps) m = 0" using p [rule_format, of m] queue_count [OF that] by linarith
    then show ?thesis by (simp add: count_eq_zero_iff)
  qed
  then show ?thesis by blast
qed

lemma rx_holds_queue:
  assumes "rx_holds tot pinv bag cap ps rxq st" "i < 2 ^ rx_elts_n rxq"
  shows "rx_mbuf_ok st (rx_mp rxq) (rx_elts rxq ! i)"
proof -
  have "i < length (rx_elts rxq)" using assms by (simp add: rx_holds_def rx_ok_def rx_shape_def)
  then have "rx_elts rxq ! i \<in> set (take (2 ^ rx_elts_n rxq) (rx_elts rxq))"
    using assms(2) by (metis in_set_conv_nth length_take min_less_iff_conj nth_take)
  then show ?thesis using assms(1) by (auto simp: rx_holds_def rx_ok_def rx_owned_def)
qed

lemma rx_holds_perm:
  assumes "mset ps = mset qs"
  shows "rx_holds tot pinv bag cap ps rxq st = rx_holds tot pinv bag cap qs rxq st"
proof -
  have "length ps = length qs" using assms by (metis size_mset)
  with assms show ?thesis by (simp add: rx_holds_def rx_ok_def rx_total_def rx_owned_def)
qed

lemma rx_holds_distinct:
  assumes "rx_holds tot pinv bag cap ps rxq st"
  shows "distinct ps"
proof -
  obtain p where p: "\<forall>x. count (rx_owned bag p rxq ps) x \<le> 1" using assms by (auto simp: rx_holds_def rx_ok_def)
  have le: "count (mset ps) x \<le> 1" for x using p [rule_format, of x] by (simp add: rx_owned_def)
  have "count (mset ps) x = (if x \<in> set ps then 1 else 0)" for x
  proof (cases "x \<in> set ps")
    case True
    then have "count (mset ps) x \<noteq> 0" by (simp add: count_eq_zero_iff)
    with le [of x] have "count (mset ps) x = 1" by linarith
    with True show ?thesis by simp
  qed (simp add: count_eq_zero_iff)
  then show ?thesis by (simp add: distinct_count_atmost_1)
qed

context mempool_driver
begin

lemma drop_segs_rx:
  assumes "rx_holds tot pinv bag cap (ps @ held) rxq st" "seg_path (mbufs st) pkt ps e"
  shows "\<exists>st'. drop_segs tbl lcore pkt e st = Some st' \<and> rx_holds tot pinv bag cap held rxq st' \<and> core_eq st st' \<and>
    (\<forall>a. a \<notin> set ps \<longrightarrow> mbufs st' a = mbufs st a) \<and>
    (\<forall>a \<in> set ps. \<exists>x. mbufs st' a = Some x \<and> nxt x = NULL \<and> nb_segs x = 1)"
  using assms
proof (induction ps arbitrary: pkt st)
  case Nil
  then show ?case by (subst drop_segs.simps) simp
next
  case (Cons m ps)
  obtain x where x: "pkt = m" "m \<noteq> e" "mbufs st m = Some x" "seg_path (mbufs st) (nxt x) ps e" using Cons.prems(2) by auto
  obtain st1 where st1: "with_mbuf m (\<lambda>x. x\<lparr>nxt := NULL, nb_segs := 1\<rparr>) st = Some st1" "core_eq st st1"
      "pools st1 = pools st" "mbufs st1 = (mbufs st)(m \<mapsto> x\<lparr>nxt := NULL, nb_segs := 1\<rparr>)"
    using with_mbuf_core [OF x(3), of "\<lambda>x. x\<lparr>nxt := NULL, nb_segs := 1\<rparr>"] by auto
  have ok: "rx_holds tot pinv bag cap (m # ps @ held) rxq st" using Cons.prems(1) by simp
  have "rx_holds tot pinv bag cap (m # ps @ held) rxq st1"
    by (rule rx_holds_cong [OF ok st1(2)]) (simp_all add: rx_same_def st1(3))
  then obtain st2 where st2: "rte_mbuf_raw_free tbl lcore m st1 = Some st2" "mbufs st2 = mbufs st1"
      "rx_holds tot pinv bag cap (ps @ held) rxq st2"
    using raw_free_rx by blast
  have "seg_path (mbufs st2) (nxt x) ps e"
    using x(4) by (rule seg_path_cong) (use rx_holds_notin(1) [OF ok] st1(4) st2(2) in auto)
  from Cons.IH [OF st2(3) this] obtain st' where
    st': "drop_segs tbl lcore (nxt x) e st2 = Some st'" "rx_holds tot pinv bag cap held rxq st'" "core_eq st2 st'"
      "\<forall>a. a \<notin> set ps \<longrightarrow> mbufs st' a = mbufs st2 a" "\<forall>a \<in> set ps. \<exists>x. mbufs st' a = Some x \<and> nxt x = NULL \<and> nb_segs x = 1"
    by blast
  have "\<forall>a. a \<notin> set (m # ps) \<longrightarrow> mbufs st' a = mbufs st a" using st'(4) st2(2) st1(4) by simp
  moreover have "m \<notin> set ps" using rx_holds_notin(1) [OF ok] by simp
  then have "mbufs st' m = Some (x\<lparr>nxt := NULL, nb_segs := 1\<rparr>)" using st'(4) st2(2) st1(4) by simp
  then have "\<forall>a \<in> set (m # ps). \<exists>x. mbufs st' a = Some x \<and> nxt x = NULL \<and> nb_segs x = 1" using st'(5) by auto
  moreover
  have "core_eq st st2" using st1(2) st2(2) by (simp add: core_eq_def)
  then have "core_eq st st'" using st'(3) by (rule core_eq_trans)
  ultimately show ?case using x st1(1) st2(1) st'(1,2) by (subst drop_segs.simps) simp
qed

end

text \<open>Changes of one field of one buffer keep the queue in order.\<close>

lemma rx_holds_with_mbuf:
  assumes "rx_holds tot pinv bag cap ps rxq st" "mbufs st m = Some x" "\<And>x. core (f x) = core x" "\<And>x. nxt (f x) = nxt x"
  shows "\<exists>st'. with_mbuf m f st = Some st' \<and> rx_holds tot pinv bag cap ps rxq st' \<and> core_eq st st' \<and>
    mbufs st' = (mbufs st)(m \<mapsto> f x) \<and>
    (\<forall>a. map_option nxt (mbufs st' a) = map_option nxt (mbufs st a))"
proof -
  obtain st' where st': "with_mbuf m f st = Some st'" "core_eq st st'" "pools st' = pools st" "mbufs st' = (mbufs st)(m \<mapsto> f x)"
    using with_mbuf_core [OF assms(2), of f] assms(3) by auto
  have "rx_holds tot pinv bag cap ps rxq st'"
    by (rule rx_holds_cong [OF assms(1) st'(2)]) (simp_all add: rx_same_def st'(3))
  with st' assms(2,4) show ?thesis by auto
qed

lemma nxt_cq_to_mbuf [simp]: "nxt (rxq_cq_to_mbuf rxq cqe h x) = nxt x"
  by (simp add: rxq_cq_to_mbuf_def set_rss_def set_fdir_hi_def Let_def)

lemma segs_cq_to_mbuf [simp]: "nb_segs (rxq_cq_to_mbuf rxq cqe h x) = nb_segs x"
  by (simp add: rxq_cq_to_mbuf_def set_rss_def set_fdir_hi_def Let_def)

lemma rx_holds_same: "rx_holds tot pinv bag cap ps rxq st \<Longrightarrow> rx_same rxq rxq' \<Longrightarrow> rx_holds tot pinv bag cap ps rxq' st"
  by (rule rx_holds_cong) simp_all

context mempool_driver
begin

lemma rx_begin_rx:
  assumes ok: "rx_holds tot pinv bag cap (rep # ps) rxq st" and e: "mbufs st e = Some x"
  shows "\<exists>st' rxq' r. rx_begin env tbl lcore e rep rxq st = Some (st', rxq', r) \<and> rx_same rxq rxq' \<and>
    rx_holds tot pinv bag cap (case r of RxGo len \<Rightarrow> rep # ps | _ \<Rightarrow> ps) rxq' st' \<and> core_eq st st' \<and>
    (\<forall>a. map_option nxt (mbufs st' a) = map_option nxt (mbufs st a)) \<and>
    (\<forall>a. a \<noteq> e \<longrightarrow> mbufs st' a = mbufs st a) \<and> (\<exists>y. mbufs st' e = Some y \<and> nb_segs y = nb_segs x \<and> (\<forall>len. r = RxGo len \<longrightarrow> pkt_len y = len))"
proof -
  have sh: "rx_cqe_n rxq < 16" "length (rx_cqes rxq) = 2 ^ rx_cqe_n rxq" using ok by (simp_all add: rx_holds_def rx_ok_def rx_shape_def)
  let ?m = "2 ^ rx_cqe_n rxq - 1 :: u32"
  have m: "unat ?m = 2 ^ rx_cqe_n rxq - 1" using sh(1) by (simp add: unat_2p_minus_1)
  have c: "unat (cq_ci rxq AND ?m) < length (rx_cqes rxq)" using sh(2) m by (intro and_below) simp
  have um: "unat (ucast ?m :: u16) < length (rx_cqes rxq)"
  proof -
    have "unat (ucast ?m :: u16) \<le> unat ?m" by (simp add: unsigned_ucast_eq)
    moreover have "(0 :: nat) < 2 ^ rx_cqe_n rxq" by simp
    ultimately show ?thesis using sh(2) m by linarith
  qed
  obtain rxq' len mcqe where poll: "mlx5_rx_poll_len env rxq (unat (cq_ci rxq AND ?m)) (ucast ?m) = Some (rxq', len, mcqe)"
      "rx_same rxq rxq'" "\<forall>a k. mcqe = Some (a, k) \<longrightarrow> a < length (rx_cqes rxq)"
    using poll_len_ok [OF c um, of env] by blast
  have ok': "rx_holds tot pinv bag cap (rep # ps) rxq' st" using ok poll(2) by (rule rx_holds_same)
  obtain st1 where st1: "rte_mbuf_raw_free tbl lcore rep st = Some st1" "mbufs st1 = mbufs st" "rx_holds tot pinv bag cap ps rxq' st1"
    using raw_free_rx [OF ok'] by blast
  have len': "length (rx_cqes rxq') = length (rx_cqes rxq)" using poll(2) by (simp add: rx_same_def)
  show ?thesis
  proof (cases "len = 0 \<or> len = - 1")
    case True
    then show ?thesis
    proof
      assume "len = 0"
      then show ?thesis using poll(1,2) st1 e by (simp add: rx_begin_def core_eq_def Let_def)
    next
      assume len: "len = - 1"
      let ?rxq = "rxq'\<lparr>rx_stats := (rx_stats rxq')\<lparr>idropped := idropped (rx_stats rxq') + 1\<rparr>\<rparr>"
      have s: "rx_same rxq' ?rxq" by (simp add: rx_same_def)
      have "rx_same rxq ?rxq" using poll(2) by (simp add: rx_same_def)
      moreover have "rx_holds tot pinv bag cap ps ?rxq st1" using st1(3) s by (rule rx_holds_same)
      moreover have "rx_begin env tbl lcore e rep rxq st = Some (st1, ?rxq, RxSkip)"
        using len poll(1) st1(1) by (simp add: rx_begin_def Let_def)
      ultimately show ?thesis using st1(2) e
        by (intro exI [of _ st1] exI [of _ ?rxq] exI [of _ RxSkip] conjI) (auto simp: core_eq_def)
    qed
  next
    case False
    define h where "h = (case mcqe of None \<Rightarrow> rte_be_to_cpu_32 (cqe_rx_hash_res (rx_cqes rxq' ! unat (cq_ci rxq AND ?m)))
      | Some (a, k) \<Rightarrow> rte_be_to_cpu_32 (mini_rx_hash_result (rx_cqes rxq' ! a) k))"
    define l where "l = (if rx_crc_present rxq' then len - 4 else len)"
    define f where "f = (\<lambda>pkt. (rxq_cq_to_mbuf rxq' (rx_cqes rxq' ! unat (cq_ci rxq AND ?m)) h (pkt\<lparr>ol_flags := 0\<rparr>))\<lparr>pkt_len := l\<rparr>)"
    obtain st2 where st2: "with_mbuf e f st = Some st2" "rx_holds tot pinv bag cap (rep # ps) rxq' st2" "core_eq st st2"
        "\<forall>a. map_option nxt (mbufs st2 a) = map_option nxt (mbufs st a)" "mbufs st2 = (mbufs st)(e \<mapsto> f x)"
      using rx_holds_with_mbuf [OF ok' e, of f] by (auto simp: f_def)
    have fx: "nb_segs (f x) = nb_segs x" "pkt_len (f x) = l" by (simp_all add: f_def)
    have "(case mcqe of None \<Rightarrow> Some (rte_be_to_cpu_32 (cqe_rx_hash_res (rx_cqes rxq' ! unat (cq_ci rxq AND ?m))))
        | Some (a, k) \<Rightarrow> do { mc \<leftarrow> nth_opt (rx_cqes rxq') a; Some (rte_be_to_cpu_32 (mini_rx_hash_result mc k)) }) = Some h"
      using poll(3) len' by (auto simp: h_def nth_opt_def split: option.splits)
    then have "rx_begin env tbl lcore e rep rxq st = Some (st2, rxq', RxGo l)"
      using False poll(1) c len' st2(1) by (simp add: rx_begin_def Let_def nth_opt_def l_def f_def)
    with st2 poll(2) fx show ?thesis
      by (intro exI [of _ st2] exI [of _ rxq'] exI [of _ "RxGo l"] conjI) auto
  qed
qed

end

lemma slice_number_nat: "\<exists>s < 8. slice_number rxq = int s \<and> of_nat s = (ucast (rx_queue_id rxq mod coreNumber) :: u8)"
proof -
  let ?s = "unat (rx_queue_id rxq mod coreNumber)"
  have "?s < 8" by (simp add: coreNumber_def unat_mod)
  moreover have "slice_number rxq = int ?s" by (simp add: slice_number_def)
  moreover have "of_nat ?s = (ucast (rx_queue_id rxq mod coreNumber) :: u8)" by (rule of_nat_unat)
  ultimately show ?thesis by blast
qed

lemma owned_update:
  assumes "idx < 2 ^ rx_elts_n rxq" "idx < length (rx_elts rxq)" "rx_elts_n rxq' = rx_elts_n rxq" "rx_elts rxq' = (rx_elts rxq)[idx := rep]"
  shows "rx_owned bag p rxq' (rx_elts rxq ! idx # ps) = rx_owned bag p rxq (rep # ps)"
proof -
  let ?xs = "take (2 ^ rx_elts_n rxq) (rx_elts rxq)"
  have i: "idx < length ?xs" "?xs ! idx = rx_elts rxq ! idx" using assms(1,2) by simp_all
  then have in': "rx_elts rxq ! idx \<in># mset ?xs" by (metis nth_mem_mset)
  have "mset (take (2 ^ rx_elts_n rxq') (rx_elts rxq')) = add_mset rep (mset ?xs - {#rx_elts rxq ! idx#})"
    using i by (simp only: assms(3,4) take_update_swap mset_update)
  then show ?thesis using in' by (simp add: rx_owned_def)
qed

lemma rx_replace_rx:
  assumes ok: "rx_holds tot pinv bag cap (rep # ps) rxq st" and idx: "idx < 2 ^ rx_elts_n rxq"
  shows "\<exists>st' rxq'. rx_replace env idx (rx_elts rxq ! idx) rep rxq st = Some (st', rxq') \<and>
    rx_holds tot pinv bag cap (rx_elts rxq ! idx # ps) rxq' st' \<and>
    (\<forall>a. a \<noteq> rep \<longrightarrow> mbufs st' a = mbufs st a) \<and>
    (\<exists>r r'. mbufs st rep = Some r \<and> mbufs st' rep = Some r' \<and> nxt r' = nxt r \<and> nb_segs r' = nb_segs r \<and> pool r' = pool r) \<and>
    rx_elts_n rxq' = rx_elts_n rxq \<and> rx_sges_n rxq' = rx_sges_n rxq \<and> rx_queue_id rxq' = rx_queue_id rxq \<and> rx_mp rxq' = rx_mp rxq"
proof -
  obtain p where p: "rx_shape rxq" "\<forall>i < 2 ^ rx_elts_n rxq. slot_ok st rxq i" "pools st (rx_mp rxq) = Some p" "pool_ok pinv p"
    "size (pool_total bag p) + length (rep # ps) \<le> cap p" "\<forall>m. count (rx_owned bag p rxq (rep # ps)) m \<le> 1"
    "\<forall>m \<in># rx_owned bag p rxq (rep # ps). rx_mbuf_ok st (rx_mp rxq) m" "rx_owned bag p rxq (rep # ps) = tot" using ok by (rule rx_holdsE)
  have ix: "idx < length (rx_elts rxq)" "idx < length (rx_wqes rxq)" using p(1) idx by (simp_all add: rx_shape_def)
  obtain s where s: "mbufs st (rx_elts rxq ! idx) = Some s" using p(2) idx by (auto simp: slot_ok_def)
  obtain r where r: "mbufs st rep = Some r" "slices_ready r" "pool r = rx_mp rxq" "rep \<noteq> NULL"
    using rx_holds_in [OF ok, of rep] by (auto simp: rx_mbuf_ok_def)
  define r1 where "r1 = r\<lparr>data_len := data_len s, pkt_len := pkt_len s, data_off := data_off s, port := port s\<rparr>"
  define r2 where "r2 = rte_pktmbuf_set_slice r1 (slice_number rxq)"
  obtain k where k: "k < 8" "slice_number rxq = int k" "of_nat k = (ucast (rx_queue_id rxq mod coreNumber) :: u8)"
    using slice_number_nat by blast
  have ready1: "slices_ready r1" using r(2) slices_ready_cong [of r1 r] by (simp add: r1_def)
  then have sl: "calculateSlice_HF_haswell (rte_mbuf_data_iova r2) = ucast (rx_queue_id rxq mod coreNumber)" "data_off r2 \<le> 896"
    using set_slice_data [OF ready1 k(1)] k(2,3) by (simp_all add: r2_def)
  have r2: "slices_ready r2" "pool r2 = pool r" "nxt r2 = nxt r" "nb_segs r2 = nb_segs r"
    using ready1 by (simp_all add: r2_def set_slice_keeps) (simp_all add: rte_pktmbuf_set_slice_def r1_def)
  let ?st = "st\<lparr>mbufs := (mbufs st)(rep \<mapsto> r2)\<rparr>"
  define w where "w = (let w = (rx_wqes rxq ! idx)\<lparr>wqe_addr := rte_cpu_to_be_64 (rte_pktmbuf_mtod_offset r2 0)\<rparr>
    in if uint (rx_mr_len rxq) - 1 > 1 then w\<lparr>wqe_lkey := mlx5_rx_addr2mr env (buf_addr r2)\<rparr> else w)"
  let ?rxq = "rxq\<lparr>rx_elts := (rx_elts rxq)[idx := rep], rx_wqes := (rx_wqes rxq)[idx := w]\<rparr>"
  have wa: "wqe_addr w = rte_cpu_to_be_64 (rte_pktmbuf_mtod_offset r2 0)" by (simp add: w_def Let_def)
  have sn: "slice_number (rxq\<lparr>rx_elts := es\<rparr>) = slice_number rxq" for es by (simp add: slice_number_def)
  have "rx_replace env idx (rx_elts rxq ! idx) rep rxq st = Some (?st, ?rxq)"
    using s r(1) ix by (simp add: rx_replace_def with_mbuf_def nth_opt_def sn r1_def [symmetric] r2_def [symmetric] w_def Let_def)
  moreover have "rx_holds tot pinv bag cap (rx_elts rxq ! idx # ps) ?rxq ?st"
  proof (rule rx_holdsI [where p = p])
    show "rx_shape ?rxq" using p(1) by (simp add: rx_shape_def)
    show "pools ?st (rx_mp ?rxq) = Some p" "pool_ok pinv p" using p(3,4) by simp_all
    show "size (pool_total bag p) + length (rx_elts rxq ! idx # ps) \<le> cap p" using p(5) by simp
    have o: "rx_owned bag p ?rxq (rx_elts rxq ! idx # ps) = rx_owned bag p rxq (rep # ps)"
      using idx ix(1) by (rule owned_update) simp_all
    show "\<forall>m. count (rx_owned bag p ?rxq (rx_elts rxq ! idx # ps)) m \<le> 1" unfolding o by (rule p(6))
    show "rx_owned bag p ?rxq (rx_elts rxq ! idx # ps) = tot" unfolding o by (rule p(8))
    have "rx_mbuf_ok ?st (rx_mp rxq) m" if "rx_mbuf_ok st (rx_mp rxq) m" for m
      using that r2(1,2) r(3,4) by (auto simp: rx_mbuf_ok_def)
    then show "\<forall>m \<in># rx_owned bag p ?rxq (rx_elts rxq ! idx # ps). rx_mbuf_ok ?st (rx_mp ?rxq) m" unfolding o using p(7) by simp
    show "\<forall>i < 2 ^ rx_elts_n ?rxq. slot_ok ?st ?rxq i"
    proof (intro allI impI)
      fix i :: nat assume "i < 2 ^ rx_elts_n ?rxq"
      then have i: "i < 2 ^ rx_elts_n rxq" "i < length (rx_elts rxq)" using p(1) by (simp_all add: rx_shape_def)
      show "slot_ok ?st ?rxq i"
      proof (cases "i = idx")
        case True
        then show ?thesis using sl wa ix by (simp add: slot_ok_def)
      next
        case False
        have "rx_elts rxq ! i \<in> set (take (2 ^ rx_elts_n rxq) (rx_elts rxq))" using i by (metis in_set_conv_nth length_take min_less_iff_conj nth_take)
        then have "rx_elts rxq ! i \<noteq> rep" using rx_holds_notin(2) [OF ok] by metis
        then show ?thesis using p(2) i False by (auto simp: slot_ok_def)
      qed
    qed
  qed
  moreover have "\<forall>a. a \<noteq> rep \<longrightarrow> mbufs ?st a = mbufs st a" by simp
  ultimately show ?thesis using r(1) r2(2-4) by (intro exI [of _ ?st] exI [of _ ?rxq]) simp
qed

text \<open>The data of a buffer starts in the slice of the queue.\<close>

definition in_slice :: "u16 \<Rightarrow> mbuf_heap \<Rightarrow> addr \<Rightarrow> bool" where
  "in_slice q st m \<longleftrightarrow> (\<exists>x. mbufs st m = Some x \<and>
     calculateSlice_HF_haswell (rte_mbuf_data_iova x) = ucast (q mod coreNumber) \<and> data_off x \<le> 896)"

lemma in_slice_core: "core_eq st st' \<Longrightarrow> in_slice q st m \<Longrightarrow> in_slice q st' m"
proof -
  assume c: "core_eq st st'" and "in_slice q st m"
  then obtain x where x: "mbufs st m = Some x" "calculateSlice_HF_haswell (rte_mbuf_data_iova x) = ucast (q mod coreNumber)" "data_off x \<le> 896"
    by (auto simp: in_slice_def)
  obtain x' where x': "mbufs st' m = Some x'" "core x' = core x" using core_eq_Some [OF c x(1)] by blast
  then have "rte_mbuf_data_iova x' = rte_mbuf_data_iova x" "data_off x' = data_off x"
    by (simp_all add: core_def rte_mbuf_data_iova_def)
  with x x'(1) show ?thesis by (simp add: in_slice_def)
qed

lemma slot_in_slice: "slot_ok st rxq i \<Longrightarrow> in_slice (rx_queue_id rxq) st (rx_elts rxq ! i)"
  by (auto simp: slot_ok_def in_slice_def)

text \<open>
  The invariant of the loop: besides the buffers \<open>held\<close> by the application, the segments
  delivered so far and those of the unfinished packet are out of the queue and the pool, and all
  start in the slice of the queue.
\<close>

definition unfinished :: "mbuf_heap \<Rightarrow> addr \<Rightarrow> addr \<Rightarrow> addr list \<Rightarrow> bool" where
  "unfinished st pkt sg ps \<longleftrightarrow> (if pkt = NULL then ps = [] else \<exists>qs. ps = qs @ [sg] \<and> seg_path (mbufs st) pkt qs sg)"

text \<open>With fresh buffers in the pool, the packets delivered and the unfinished one are well-formed.\<close>

definition pk_inv :: "addr list \<Rightarrow> addr list list \<Rightarrow> addr list \<Rightarrow> rx_vars \<Rightarrow> bool" where
  "pk_inv held cs ps v \<longleftrightarrow> fresh (rv_heap v) (rx_mp (rv_rxq v)) (ps @ concat cs @ held) \<and>
     list_all2 (rx_pkt (rv_heap v)) (rv_pkts v) cs \<and> (rv_pkt v \<noteq> NULL \<longrightarrow> growing (rv_heap v) (rv_pkt v) ps (rv_len v))"

definition rx_inv ::
  "addr multiset \<Rightarrow> (rte_mempool \<Rightarrow> bool) \<Rightarrow> (rte_mempool \<Rightarrow> addr multiset) \<Rightarrow> (rte_mempool \<Rightarrow> nat) \<Rightarrow> bool \<Rightarrow> nat \<Rightarrow> u16 \<Rightarrow>
    addr list \<Rightarrow> addr list list \<Rightarrow> addr list \<Rightarrow> rx_vars \<Rightarrow> bool" where
  "rx_inv tot pinv bag cap w npk q held cs ps v \<longleftrightarrow> rx_holds tot pinv bag cap (ps @ concat cs @ held) (rv_rxq v) (rv_heap v) \<and>
     rx_queue_id (rv_rxq v) = q \<and> (\<forall>m \<in> set (ps @ concat cs). in_slice q (rv_heap v) m) \<and> list_all2 (rx_segs (rv_heap v)) (rv_pkts v) cs \<and>
     unfinished (rv_heap v) (rv_pkt v) (rv_seg v) ps \<and> rv_pkts_n v + length (rv_pkts v) = npk \<and>
     (rv_pkts_n v = 0 \<longrightarrow> rv_pkt v = NULL) \<and> (w \<longrightarrow> pk_inv held cs ps v)"

lemma sint_u32: "sint (x :: u32) < 2 ^ 31" "- (2 ^ 31) \<le> sint (x :: u32)"
  using sint_lt [of x] sint_ge [of x] by simp_all

lemma sint_minus_u16:
  assumes "sint (len :: u32) > uint (l :: u16)"
  shows "sint (len - ucast l) = sint len - uint l"
proof -
  have l: "0 \<le> uint l" "uint l < 2 ^ 16" using unsigned_less [of l, where ?'a = int] by simp_all
  have s: "sint (ucast l :: u32) = uint l" 
  proof -
    have "signed_take_bit 31 (uint l) = uint l" 
    proof (rule signed_take_bit_int_eq_self)
      show "- (2 ^ 31) \<le> uint l" by (rule order_trans [of _ 0]) simp_all
      show "uint l < 2 ^ 31" using l(2) by simp
    qed
    then show ?thesis by (simp add: sint_uint uint_up_ucast is_up)
  qed
  have "sint len - sint (ucast l :: u32) < 2 ^ 31" "- (2 ^ 31) \<le> sint len - sint (ucast l :: u32)"
    using sint_u32(1) [of len] l assms s by linarith+
  then have "signed_take_bit 31 (sint len - uint l) = sint len - uint l"
    using s by (intro signed_take_bit_int_eq_self) simp_all
  moreover have "sint (len - ucast l) = signed_take_bit 31 (sint len - uint l)"
    using sint_word_ariths(2) [of len "ucast l"] s by simp
  ultimately show ?thesis by simp
qed

lemma sint_ucast_u16:
  assumes "0 \<le> sint (len :: u32)" "sint len \<le> uint (l :: u16)"
  shows "of_nat (unat (ucast len :: u16)) = len"
proof -
  have l: "uint l < 2 ^ 16" using unsigned_less [of l, where ?'a = int] by simp
  have "sint len < 2 ^ 31" by (rule sint_u32)
  then have "take_bit 32 (sint len) = sint len" using assms(1) by (intro take_bit_int_eq_self) simp_all
  moreover have "uint len = take_bit LENGTH(32) (sint len)" by (rule uint_sint)
  ultimately have u: "sint len = uint len" by simp
  have "uint len < 2 ^ 16" using u assms(2) l by linarith
  then have "int (unat len) < int (2 ^ 16)" by simp
  then have "unat len < 2 ^ 16" by (simp only: of_nat_less_iff)
  moreover have "(ucast len :: u16) = of_nat (unat len)" by (metis of_nat_unat)
  ultimately have "unat (ucast len :: u16) = unat len" by (simp only:) (intro unat_of_nat_small, simp)
  then show ?thesis by simp
qed

lemma rx_advance_ok:
  assumes ok: "rx_holds tot pinv bag cap (sg # ps @ concat cs @ held) (rv_rxq v) (rv_heap v)"
    and q: "rx_queue_id (rv_rxq v) = q" "\<forall>m \<in> set (sg # ps @ concat cs). in_slice q (rv_heap v) m" "list_all2 (rx_segs (rv_heap v)) (rv_pkts v) cs"
    and path: "seg_path (mbufs (rv_heap v)) pkt ps sg" and n: "rv_pkts_n v + length (rv_pkts v) = npk" "rv_pkts_n v \<noteq> 0"
    and w: "w \<Longrightarrow> fresh (rv_heap v) (rx_mp (rv_rxq v)) (sg # ps @ concat cs @ held)" "w \<Longrightarrow> list_all2 (rx_pkt (rv_heap v)) (rv_pkts v) cs"
      "w \<Longrightarrow> growing (rv_heap v) pkt ps len" "w \<Longrightarrow> map_option nxt (mbufs (rv_heap v) sg) = Some NULL"
  shows "\<exists>v' cs' ps'. rx_advance pkt sg len v = Some v' \<and> rx_inv tot pinv bag cap w npk q held cs' ps' v'"
proof -
  obtain x where x: "mbufs (rv_heap v) sg = Some x" using q(2) by (auto simp: in_slice_def)
  have pk: "pkt \<in> set (sg # ps)" using path by (cases ps) auto
  then have "in_slice q (rv_heap v) pkt" using q(2) by auto
  then obtain p where p: "mbufs (rv_heap v) pkt = Some p" by (auto simp: in_slice_def)
  have nn: "NULL \<notin> set (sg # ps)" using rx_holds_in [OF ok, of NULL] by (auto simp: rx_mbuf_ok_def)
  then have pn: "pkt \<noteq> NULL" using pk by metis
  have dist: "distinct (sg # ps @ concat cs @ held)" by (rule rx_holds_distinct [OF ok])
  show ?thesis
  proof (cases "sint len > uint (data_len x)")
    case True
    obtain st where st: "with_mbuf pkt (\<lambda>p. p\<lparr>nb_segs := nb_segs p + 1\<rparr>) (rv_heap v) = Some st"
        "rx_holds tot pinv bag cap (sg # ps @ concat cs @ held) (rv_rxq v) st" "core_eq (rv_heap v) st"
        "\<forall>a. map_option nxt (mbufs st a) = map_option nxt (mbufs (rv_heap v) a)" "mbufs st = (mbufs (rv_heap v))(pkt \<mapsto> p\<lparr>nb_segs := nb_segs p + 1\<rparr>)"
      using rx_holds_with_mbuf [OF ok p, of "\<lambda>p. p\<lparr>nb_segs := nb_segs p + 1\<rparr>"] by auto
    have "seg_path (mbufs st) pkt ps sg" using path by (rule seg_path_cong) (use st(4) in auto)
    moreover have "rx_holds tot pinv bag cap ((ps @ [sg]) @ concat cs @ held) (rv_rxq v) st"
      using st(2) rx_holds_perm [of "sg # ps @ concat cs @ held" "(ps @ [sg]) @ concat cs @ held" tot pinv bag cap "rv_rxq v" st] by simp
    moreover have "\<forall>m \<in> set ((ps @ [sg]) @ concat cs). in_slice q st m" using q(2) in_slice_core [OF st(3)] by auto
    moreover have "rx_advance pkt sg len v = Some (v\<lparr>rv_pkt := pkt, rv_seg := sg, rv_ci := rv_ci v + 1,
        rv_len := len - ucast (data_len x), rv_heap := st\<rparr>)" (is "_ = Some ?v")
      using x True st(1) by (simp add: rx_advance_def)
    moreover have "pk_inv held cs (ps @ [sg]) ?v" if w
    proof -
      have "fresh st (rx_mp (rv_rxq v)) ((ps @ [sg]) @ concat cs @ held)"
        by (rule fresh_used [OF w(1) [OF that]]) (use st(5) pk in auto)
      moreover have "list_all2 (rx_pkt st) (rv_pkts v) cs"
        by (rule rx_pkts_cong [OF w(2) [OF that]]) (use st(5) pk dist in auto)
      moreover have "growing st pkt (ps @ [sg]) (len - ucast (data_len x))"
      proof -
        have "0 < sint (len - ucast (data_len x))" using sint_minus_u16 [OF True] True by simp
        moreover have "total_len st (ps @ [sg]) = total_len (rv_heap v) (ps @ [sg])"
          using st(5) p by (intro total_len_cong) simp
        moreover have "total_len (rv_heap v) [sg] = unat (data_len x)" using x by (simp add: total_len_def)
        ultimately show ?thesis using w(3) [OF that] p unfolding growing_def st(5) by simp
      qed
      ultimately show ?thesis by (simp add: pk_inv_def)
    qed
    moreover have "list_all2 (rx_segs st) (rv_pkts v) cs" using q(3) by (rule rx_segs_cong) (use st(4) in simp)
    ultimately have "rx_inv tot pinv bag cap w npk q held cs (ps @ [sg]) ?v" using q(1) pn n by (simp add: rx_inv_def unfinished_def)
    then show ?thesis using \<open>rx_advance pkt sg len v = Some ?v\<close> by blast
  next
    case False
    obtain st where st: "with_mbuf sg (\<lambda>x. x\<lparr>data_len := ucast len\<rparr>) (rv_heap v) = Some st"
        "rx_holds tot pinv bag cap (sg # ps @ concat cs @ held) (rv_rxq v) st" "core_eq (rv_heap v) st"
        "mbufs st = (mbufs (rv_heap v))(sg \<mapsto> x\<lparr>data_len := ucast len\<rparr>)"
      using rx_holds_with_mbuf [OF ok x, of "\<lambda>x. x\<lparr>data_len := ucast len\<rparr>"] by auto
    obtain p' where p': "mbufs st pkt = Some p'" "nb_segs p' = nb_segs p" "pkt_len p' = pkt_len p"
      using p x st(4) by (cases "pkt = sg") auto
    let ?rxq = "(rv_rxq v)\<lparr>rx_stats := (rx_stats (rv_rxq v))\<lparr>ibytes := ibytes (rx_stats (rv_rxq v)) + ucast (pkt_len p')\<rparr>\<rparr>"
    let ?cs = "cs @ [ps @ [sg]]"
    have "rx_holds tot pinv bag cap (sg # ps @ concat cs @ held) ?rxq st" by (rule rx_holds_same [OF st(2)]) (simp add: rx_same_def)
    then have "rx_holds tot pinv bag cap ([] @ concat ?cs @ held) ?rxq st"
      using rx_holds_perm [of "sg # ps @ concat cs @ held" "[] @ concat ?cs @ held" tot pinv bag cap ?rxq st] by simp
    moreover have "\<forall>m \<in> set ([] @ concat ?cs). in_slice q st m" using q(2) in_slice_core [OF st(3)] by auto
    moreover have "rx_advance pkt sg len v = Some (v\<lparr>rv_pkt := NULL, rv_seg := sg, rv_ci := rx_align (rx_sges_n (rv_rxq v)) (rv_ci v),
        rv_len := len, rv_pkts_n := rv_pkts_n v - 1, rv_pkts := rv_pkts v @ [pkt], rv_rxq := ?rxq, rv_heap := st\<rparr>)" (is "_ = Some ?v")
      using x False st(1) p' by (simp add: rx_advance_def Let_def)
    moreover have "pk_inv held ?cs [] ?v" if w
    proof -
      have nx: "nxt x = NULL" using w(4) [OF that] x by simp
      have "fresh st (rx_mp (rv_rxq v)) ([] @ concat ?cs @ held)"
        by (rule fresh_used [OF w(1) [OF that]]) (use st(4) in auto)
      moreover have "list_all2 (rx_pkt st) (rv_pkts v) cs"
        by (rule rx_pkts_cong [OF w(2) [OF that]]) (use st(4) dist in auto)
      moreover have "rx_pkt st pkt (ps @ [sg])"
      proof -
        have "seg_path (mbufs st) pkt ps sg" using path by (rule seg_path_cong) (use st(4) x in auto)
        then have "chain (mbufs st) pkt (ps @ [sg])"
          by (rule seg_path_chain [where y = "x\<lparr>data_len := ucast len\<rparr>"]) (use nn nx st(4) in auto)
        moreover have "pkt_len p' = of_nat (total_len st (ps @ [sg]))" if pl: "0 \<le> sint (pkt_len p')"
        proof -
          have g: "pkt_len p = of_nat (total_len (rv_heap v) ps) + len" "ps \<noteq> [] \<longrightarrow> 0 < sint len"
            using w(3) [OF \<open>w\<close>] p by (auto simp: growing_def)
          have "0 \<le> sint len"
          proof (cases "ps = []")
            case True
            then show ?thesis using g(1) pl p'(3) by (simp add: total_len_def)
          qed (use g(2) in simp)
          then have "of_nat (unat (ucast len :: u16)) = len" using False by (intro sint_ucast_u16 [of len "data_len x"]) simp_all
          moreover have "total_len st ps = total_len (rv_heap v) ps" using st(4) dist by (intro total_len_cong) auto
          moreover have "total_len st [sg] = unat (ucast len :: u16)" by (simp add: total_len_def st(4))
          ultimately show ?thesis using g(1) p'(3) by (simp del: of_nat_unat)
        qed
        moreover have "nb_segs p' = of_nat (length (ps @ [sg]))" using w(3) [OF that] p p'(2) by (auto simp: growing_def)
        ultimately show ?thesis using p'(1) dist by (simp add: rx_pkt_def)
      qed
      ultimately show ?thesis by (simp add: pk_inv_def list_all2_appendI)
    qed
    moreover have "list_all2 (rx_segs st) (rv_pkts v) cs" using q(3) by (rule rx_segs_cong) (use st(4) x in simp)
    moreover have "rx_segs st pkt (ps @ [sg])"
    proof -
      have "seg_path (mbufs st) pkt ps sg" using path by (rule seg_path_cong) (use st(4) x in auto)
      then show ?thesis by (auto simp: rx_segs_def)
    qed
    ultimately have "rx_inv tot pinv bag cap w npk q held ?cs [] ?v"
      using q(1) n by (simp add: rx_inv_def unfinished_def list_all2_appendI)
    then show ?thesis using \<open>rx_advance pkt sg len v = Some ?v\<close> by blast
  qed
qed

definition rx_done ::
  "addr multiset \<Rightarrow> (rte_mempool \<Rightarrow> bool) \<Rightarrow> (rte_mempool \<Rightarrow> addr multiset) \<Rightarrow> (rte_mempool \<Rightarrow> nat) \<Rightarrow> bool \<Rightarrow> nat \<Rightarrow> u16 \<Rightarrow>
    addr list \<Rightarrow> addr list list \<Rightarrow> rx_vars \<Rightarrow> bool" where
  "rx_done tot pinv bag cap w npk q held cs v \<longleftrightarrow> rx_holds tot pinv bag cap (concat cs @ held) (rv_rxq v) (rv_heap v) \<and>
     rx_queue_id (rv_rxq v) = q \<and> (\<forall>m \<in> set (concat cs). in_slice q (rv_heap v) m) \<and> list_all2 (rx_segs (rv_heap v)) (rv_pkts v) cs \<and>
     length (rv_pkts v) \<le> npk \<and>
     (w \<longrightarrow> fresh (rv_heap v) (rx_mp (rv_rxq v)) (concat cs @ held) \<and> list_all2 (rx_pkt (rv_heap v)) (rv_pkts v) cs)"

text \<open>Linking the next buffer of the queue to the unfinished packet.\<close>

lemma link_unfinished:
  assumes ok: "rx_holds tot pinv bag cap (ps @ held) rxq st" and u: "unfinished st pkt sg ps"
    and i: "idx < 2 ^ rx_elts_n rxq"
  shows "\<exists>st'. (if pkt \<noteq> NULL then with_mbuf sg (\<lambda>x. x\<lparr>nxt := rx_elts rxq ! idx\<rparr>) st else Some st) = Some st' \<and>
    rx_holds tot pinv bag cap (ps @ held) rxq st' \<and> core_eq st st' \<and>
    (\<forall>a. a \<notin> set ps \<longrightarrow> mbufs st' a = mbufs st a) \<and> (\<forall>a. map_option body (mbufs st' a) = map_option body (mbufs st a)) \<and>
    seg_path (mbufs st') (if pkt = NULL then rx_elts rxq ! idx else pkt) ps (rx_elts rxq ! idx)"
proof (cases "pkt = NULL")
  case True
  then show ?thesis using ok u by (simp add: unfinished_def)
next
  case False
  let ?e = "rx_elts rxq ! idx"
  obtain qs where qs: "ps = qs @ [sg]" "seg_path (mbufs st) pkt qs sg" using u False by (auto simp: unfinished_def)
  obtain x where x: "mbufs st sg = Some x" using rx_holds_in [OF ok, of sg] qs(1) by (auto simp: rx_mbuf_ok_def)
  let ?f = "\<lambda>x :: rte_mbuf. x\<lparr>nxt := ?e\<rparr>"
  obtain st' where st': "with_mbuf sg ?f st = Some st'" "core_eq st st'" "pools st' = pools st" "mbufs st' = (mbufs st)(sg \<mapsto> ?f x)"
    using with_mbuf_core [OF x, of ?f] by auto
  have ok': "rx_holds tot pinv bag cap (ps @ held) rxq st'"
    by (rule rx_holds_cong [OF ok st'(2)]) (simp_all add: rx_same_def st'(3))
  have "sg \<notin> set qs" using rx_holds_distinct [OF ok] qs(1) by simp
  then have path: "seg_path (mbufs st') pkt qs sg" using qs(2) by (intro seg_path_cong [OF qs(2)]) (auto simp: st'(4))
  have e: "?e \<in> set (take (2 ^ rx_elts_n rxq) (rx_elts rxq))"
  proof -
    have "idx < length (rx_elts rxq)" using ok i by (simp add: rx_holds_def rx_ok_def rx_shape_def)
    then show ?thesis using i by (metis in_set_conv_nth length_take min_less_iff_conj nth_take)
  qed
  have "m \<noteq> ?e" if "m \<in> set ps" for m
  proof -
    obtain ms where "mset (ps @ held) = mset (m # ms)" using \<open>m \<in> set ps\<close> by (metis in_set_conv_decomp mset_append append_Cons mset.simps(2) union_mset_add_mset_right append_assoc)
    then have "rx_holds tot pinv bag cap (m # ms) rxq st" using ok rx_holds_perm by metis
    from rx_holds_notin(2) [OF this] e show ?thesis by blast
  qed
  then have "?e \<notin> set (qs @ [sg])" using qs(1) by blast
  then have "seg_path (mbufs st') pkt (qs @ [sg]) ?e"
    using path by (intro seg_path_snoc [where y = "?f x"]) (simp_all add: st'(4))
  moreover have "\<forall>a. map_option body (mbufs st' a) = map_option body (mbufs st a)" using x by (simp add: st'(4) body_def)
  ultimately show ?thesis using False st'(1,2,4) ok' qs(1) by simp
qed

context mempool_driver
begin

lemma rx_iter_ok:
  assumes inv: "rx_inv tot pinv bag cap w npk q held cs ps v" and n0: "rv_pkts_n v \<noteq> 0"
  shows "\<exists>v' stop cs' ps'. rx_iter env tbl lcore v = Some (v', stop) \<and>
    (if stop then rx_done tot pinv bag cap w npk q held cs' v' else rx_inv tot pinv bag cap w npk q held cs' ps' v')"
proof -
  define rxq where "rxq = rv_rxq v"
  define idx where "idx = unat (rv_ci v AND (2 ^ rx_elts_n rxq - 1))"
  define e where "e = rx_elts rxq ! idx"
  note it = rx_iter_def [of env tbl lcore v, unfolded Let_def, folded rxq_def, folded idx_def]
  define pkt where "pkt = (if rv_pkt v = NULL then e else rv_pkt v)"
  have ok: "rx_holds tot pinv bag cap (ps @ concat cs @ held) rxq (rv_heap v)" and q: "rx_queue_id rxq = q"
    and sl: "\<forall>m \<in> set (ps @ concat cs). in_slice q (rv_heap v) m" and pk: "list_all2 (rx_segs (rv_heap v)) (rv_pkts v) cs"
    and un: "unfinished (rv_heap v) (rv_pkt v) (rv_seg v) ps" and n: "rv_pkts_n v + length (rv_pkts v) = npk"
    using inv by (simp_all add: rx_inv_def rxq_def)
  have pw: "w \<Longrightarrow> pk_inv held cs ps v" using inv by (simp add: rx_inv_def)
  have sh: "rx_elts_n rxq < 16" "2 ^ rx_elts_n rxq \<le> length (rx_elts rxq)" using ok by (simp_all add: rx_holds_def rx_ok_def rx_shape_def)
  have idx: "idx < 2 ^ rx_elts_n rxq"
    unfolding idx_def using sh(1) by (intro and_below) (simp add: unat_2p_minus_1)
  then have ne: "nth_opt (rx_elts rxq) idx = Some e" using sh(2) by (simp add: nth_opt_def e_def)
  obtain st1 where st1: "(if rv_pkt v \<noteq> NULL then with_mbuf (rv_seg v) (\<lambda>x. x\<lparr>nxt := e\<rparr>) (rv_heap v) else Some (rv_heap v)) = Some st1"
      "rx_holds tot pinv bag cap (ps @ concat cs @ held) rxq st1" "core_eq (rv_heap v) st1" "seg_path (mbufs st1) pkt ps e"
      "\<forall>a. a \<notin> set ps \<longrightarrow> mbufs st1 a = mbufs (rv_heap v) a" "\<forall>a. map_option body (mbufs st1 a) = map_option body (mbufs (rv_heap v) a)"
    using link_unfinished [OF ok un idx] unfolding e_def [symmetric] pkt_def [symmetric] by blast
  obtain st2 rep where st2: "rte_mbuf_raw_alloc tbl lcore (rx_mp rxq) st1 = Some (st2, rep)" "mbufs st2 = mbufs st1"
      "rx_holds tot pinv bag cap (if rep = NULL then ps @ concat cs @ held else rep # ps @ concat cs @ held) rxq st2"
    using raw_alloc_rx [OF st1(2), of lcore] by blast
  have c2: "core_eq (rv_heap v) st2" using st1(3) st2(2) by (simp add: core_eq_def)
  have sl2: "\<forall>m \<in> set (ps @ concat cs). in_slice q st2 m" using sl in_slice_core [OF c2] by blast
  have path2: "seg_path (mbufs st2) pkt ps e" using st1(4) st2(2) by simp
  have dist: "distinct (ps @ concat cs @ held)" by (rule rx_holds_distinct [OF ok])
  have fr2: "fresh st2 (rx_mp rxq) (ps @ concat cs @ held)" if w
  proof (rule fresh_used)
    show "fresh (rv_heap v) (rx_mp rxq) (ps @ concat cs @ held)" using pw [OF that] by (simp add: pk_inv_def rxq_def)
    show "a \<notin> set (ps @ concat cs @ held) \<and> mbufs st2 a = mbufs (rv_heap v) a" if "a \<notin> set (ps @ concat cs @ held)" for a
      using that st1(5) unfolding st2(2) by simp
  qed
  have sg2: "list_all2 (rx_segs st2) (rv_pkts v) cs"
    using pk by (rule rx_segs_cong) (use apart_mid [OF dist] st1(5) in \<open>simp add: st2(2)\<close>)
  have pk2: "list_all2 (rx_pkt st2) (rv_pkts v) cs" if w
  proof (rule rx_pkts_cong)
    show "list_all2 (rx_pkt (rv_heap v)) (rv_pkts v) cs" using pw [OF that] by (simp add: pk_inv_def)
    show "mbufs st2 a = mbufs (rv_heap v) a" if "a \<in> set (concat cs)" for a
      using apart_mid [OF dist that] st1(5) unfolding st2(2) by blast
  qed
  show ?thesis
  proof (cases "rep = NULL")
    case True
    let ?rxq = "rxq\<lparr>rx_stats := (rx_stats rxq)\<lparr>rx_nombuf := rx_nombuf (rx_stats rxq) + 1\<rparr>\<rparr>"
    have same: "rx_same rxq ?rxq" by (simp add: rx_same_def)
    show ?thesis
    proof (cases "rv_pkt v = NULL")
      case p: True
      let ?v = "v\<lparr>rv_seg := e, rv_rxq := ?rxq, rv_heap := st2\<rparr>"
      have "ps = []" using un p by (simp add: unfinished_def)
      then have "rx_holds tot pinv bag cap (concat cs @ held) ?rxq st2" using st2(3) True rx_holds_same [OF _ same] by simp
      then have "rx_done tot pinv bag cap w npk q held cs ?v" using q sl2 sg2 n fr2 pk2 \<open>ps = []\<close> by (simp add: rx_done_def)
      moreover have "rx_iter env tbl lcore v = Some (?v, True)"
        using ne st1(1) st2(1) True p by (simp add: it split del: if_split)
      ultimately show ?thesis by (intro exI conjI) auto
    next
      case p: False
      have "rx_holds tot pinv bag cap (ps @ concat cs @ held) rxq st2" using st2(3) True by simp
      from drop_segs_rx [OF this path2, of lcore] obtain st3 where
        st3: "drop_segs tbl lcore pkt e st2 = Some st3" "rx_holds tot pinv bag cap (concat cs @ held) rxq st3" "core_eq st2 st3"
        "\<forall>a. a \<notin> set ps \<longrightarrow> mbufs st3 a = mbufs st2 a" "\<forall>a \<in> set ps. \<exists>x. mbufs st3 a = Some x \<and> nxt x = NULL \<and> nb_segs x = 1" by blast
      let ?v = "v\<lparr>rv_pkt := e, rv_seg := e, rv_rxq := ?rxq, rv_heap := st3\<rparr>"
      have "rx_holds tot pinv bag cap (concat cs @ held) ?rxq st3" using st3(2) same by (rule rx_holds_same)
      moreover have "\<forall>m \<in> set (concat cs). in_slice q st3 m" using sl2 in_slice_core [OF st3(3)] by auto
      moreover have "fresh st3 (rx_mp rxq) (concat cs @ held)" if w
      proof (rule fresh_cong [OF fr2 [OF that]])
        fix a x assume "mbufs st3 a = Some x" "pool x = rx_mp rxq" "a \<notin> set (concat cs @ held)"
        then show "nxt x = NULL \<and> nb_segs x = 1 \<or>
            a \<notin> set (ps @ concat cs @ held) \<and> (\<exists>y. mbufs st2 a = Some y \<and> pool y = rx_mp rxq \<and> nxt y = nxt x \<and> nb_segs y = nb_segs x)"
          using st3(4,5) by (cases "a \<in> set ps") auto
      qed
      moreover have "list_all2 (rx_pkt st3) (rv_pkts v) cs" if w
        using pk2 [OF that] by (rule rx_pkts_cong) (use apart_mid [OF dist] st3(4) in blast)
      moreover have "list_all2 (rx_segs st3) (rv_pkts v) cs"
        using sg2 by (rule rx_segs_cong) (use apart_mid [OF dist] st3(4) in simp)
      ultimately have "rx_done tot pinv bag cap w npk q held cs ?v" using q n by (simp add: rx_done_def)
      moreover have "rx_iter env tbl lcore v = Some (?v, True)"
        using ne st1(1) st2(1) st3(1) True p by (simp add: it pkt_def split del: if_split)
      ultimately show ?thesis by (intro exI conjI) auto
    qed
  next
    case False
    have ok2: "rx_holds tot pinv bag cap (rep # ps @ concat cs @ held) rxq st2" using st2(3) False by simp
    have es: "in_slice q st2 e" using ok2 idx slot_in_slice [of st2 rxq idx] q by (simp add: rx_holds_def rx_ok_def e_def)
    then obtain x where x: "mbufs st2 e = Some x" by (auto simp: in_slice_def)
    have "\<exists>st3 rxq3 r. (if rv_pkt v = NULL then rx_begin env tbl lcore e rep rxq st2 else Some (st2, rxq, RxGo (rv_len v))) = Some (st3, rxq3, r) \<and>
        rx_same rxq rxq3 \<and> rx_holds tot pinv bag cap (case r of RxGo len \<Rightarrow> rep # ps @ concat cs @ held | _ \<Rightarrow> ps @ concat cs @ held) rxq3 st3 \<and> core_eq st2 st3 \<and>
        (\<forall>a. map_option nxt (mbufs st3 a) = map_option nxt (mbufs st2 a)) \<and> ((\<forall>len. r \<noteq> RxGo len) \<longrightarrow> rv_pkt v = NULL) \<and>
        (\<forall>a. a \<noteq> e \<longrightarrow> mbufs st3 a = mbufs st2 a) \<and>
        (\<exists>y. mbufs st3 e = Some y \<and> nb_segs y = nb_segs x \<and> (\<forall>len. r = RxGo len \<longrightarrow> rv_pkt v = NULL \<longrightarrow> pkt_len y = len)) \<and>
        (rv_pkt v \<noteq> NULL \<longrightarrow> st3 = st2 \<and> r = RxGo (rv_len v))"
    proof (cases "rv_pkt v = NULL")
      case True
      then show ?thesis using rx_begin_rx [OF ok2 x, of env lcore] by auto
    next
      case False
      then show ?thesis using ok2 x by (simp add: rx_same_def)
    qed
    then obtain st3 rxq3 r where r: "(if rv_pkt v = NULL then rx_begin env tbl lcore e rep rxq st2 else Some (st2, rxq, RxGo (rv_len v))) = Some (st3, rxq3, r)"
        "rx_same rxq rxq3" "rx_holds tot pinv bag cap (case r of RxGo len \<Rightarrow> rep # ps @ concat cs @ held | _ \<Rightarrow> ps @ concat cs @ held) rxq3 st3" "core_eq st2 st3"
        "\<forall>a. map_option nxt (mbufs st3 a) = map_option nxt (mbufs st2 a)" "(\<forall>len. r \<noteq> RxGo len) \<longrightarrow> rv_pkt v = NULL"
        "\<forall>a. a \<noteq> e \<longrightarrow> mbufs st3 a = mbufs st2 a"
        "\<exists>y. mbufs st3 e = Some y \<and> nb_segs y = nb_segs x \<and> (\<forall>len. r = RxGo len \<longrightarrow> rv_pkt v = NULL \<longrightarrow> pkt_len y = len)"
        "rv_pkt v \<noteq> NULL \<longrightarrow> st3 = st2 \<and> r = RxGo (rv_len v)" by blast
    have q3: "rx_queue_id rxq3 = q" "rx_elts rxq3 = rx_elts rxq" "rx_elts_n rxq3 = rx_elts_n rxq" using r(2) q by (simp_all add: rx_same_def)
    have sl3: "\<forall>m \<in> set (ps @ concat cs). in_slice q st3 m" "in_slice q st3 e" using sl2 es in_slice_core [OF r(4)] by blast+
    have path3: "seg_path (mbufs st3) pkt ps e" using path2 by (rule seg_path_cong) (use r(5) in auto)
    have eL: "e \<notin> set (ps @ concat cs @ held)"
    proof -
      have "e \<in> set (take (2 ^ rx_elts_n rxq) (rx_elts rxq))"
        using idx sh(2) unfolding e_def by (metis in_set_conv_nth length_take min_less_iff_conj nth_take order_less_le_trans)
      then show ?thesis using rx_holds_apart [OF st1(2)] by blast
    qed
    have ex: "pool x = rx_mp rxq"
    proof -
      have "rx_mbuf_ok st1 (rx_mp rxq) e" using rx_holds_queue [OF st1(2) idx] by (simp add: e_def)
      then show ?thesis using x st2(2) by (auto simp: rx_mbuf_ok_def)
    qed
    have fe: "nxt x = NULL \<and> nb_segs x = 1" if w using fr2 [OF that] x ex eL unfolding fresh_def by blast
    have mp3: "rx_mp rxq3 = rx_mp rxq" using r(2) by (simp add: rx_same_def)
    have fr3: "fresh st3 (rx_mp rxq) (ps @ concat cs @ held)" if w
    proof (rule fresh_cong [OF fr2 [OF that]])
      fix a z assume z: "mbufs st3 a = Some z" "pool z = rx_mp rxq" "a \<notin> set (ps @ concat cs @ held)"
      show "nxt z = NULL \<and> nb_segs z = 1 \<or>
          a \<notin> set (ps @ concat cs @ held) \<and> (\<exists>y. mbufs st2 a = Some y \<and> pool y = rx_mp rxq \<and> nxt y = nxt z \<and> nb_segs y = nb_segs z)"
      proof (cases "a = e")
        case True
        then have "nb_segs z = nb_segs x" using r(8) z(1) by auto
        moreover have "nxt z = nxt x" using r(5) [rule_format, of e] z(1) x True by simp
        ultimately show ?thesis using fe [OF that] by simp
      next
        case False
        then show ?thesis using r(7) z by auto
      qed
    qed
    have pk3: "list_all2 (rx_pkt st3) (rv_pkts v) cs" if w
      using pk2 [OF that] by (rule rx_pkts_cong) (use eL r(7) in auto)
    have sg3: "list_all2 (rx_segs st3) (rv_pkts v) cs" using sg2 by (rule rx_segs_cong) (use r(5) in simp)
    have nil: "ps = []" if "\<forall>len. r \<noteq> RxGo len" using un r(6) that by (simp add: unfinished_def)
    show ?thesis
    proof (cases r)
      case RxStop
      let ?v = "v\<lparr>rv_seg := e, rv_rxq := rxq3, rv_heap := st3\<rparr>"
      have "rx_done tot pinv bag cap w npk q held cs ?v" using r(3) nil RxStop q3(1) sl3(1) sg3 n fr3 pk3 mp3 by (simp add: rx_done_def)
      moreover have "rx_iter env tbl lcore v = Some (?v, True)"
        using ne st1(1) st2(1) r(1) False RxStop by (simp add: it split del: if_split)
      ultimately show ?thesis by (intro exI conjI) auto
    next
      case RxSkip
      let ?v = "v\<lparr>rv_seg := e, rv_ci := rx_align (rx_sges_n rxq3) (rv_ci v), rv_len := - 1, rv_rxq := rxq3, rv_heap := st3\<rparr>"
      have "rx_inv tot pinv bag cap w npk q held cs [] ?v"
        using r(3,6) nil RxSkip q3(1) sl3(1) sg3 n n0 fr3 pk3 mp3 by (simp add: rx_inv_def unfinished_def pk_inv_def)
      moreover have "rx_iter env tbl lcore v = Some (?v, False)"
        using ne st1(1) st2(1) r(1) False RxSkip by (simp add: it split del: if_split)
      ultimately show ?thesis by (intro exI conjI) auto
    next
      case (RxGo len)
      then have ok3: "rx_holds tot pinv bag cap (rep # ps @ concat cs @ held) rxq3 st3" using r(3) by simp
      have idx3: "idx < 2 ^ rx_elts_n rxq3" using idx q3(3) by simp
      obtain st4 rxq4 where st4: "rx_replace env idx e rep rxq3 st3 = Some (st4, rxq4)"
          "rx_holds tot pinv bag cap (e # ps @ concat cs @ held) rxq4 st4" "\<forall>a. a \<noteq> rep \<longrightarrow> mbufs st4 a = mbufs st3 a" "rx_queue_id rxq4 = rx_queue_id rxq3"
          "\<exists>r r'. mbufs st3 rep = Some r \<and> mbufs st4 rep = Some r' \<and> nxt r' = nxt r \<and> nb_segs r' = nb_segs r \<and> pool r' = pool r" "rx_mp rxq4 = rx_mp rxq3"
        using rx_replace_rx [OF ok3 idx3, of env] unfolding q3(2) e_def [symmetric] by blast
      have nr: "rep \<notin> set (ps @ concat cs)" "rep \<noteq> e"
      proof -
        show "rep \<notin> set (ps @ concat cs)" using rx_holds_notin(1) [OF ok3] by auto
        have "e \<in> set (take (2 ^ rx_elts_n rxq3) (rx_elts rxq3))"
          using idx sh(2) q3 unfolding e_def by (metis in_set_conv_nth length_take min_less_iff_conj nth_take order_less_le_trans)
        then show "rep \<noteq> e" using rx_holds_notin(2) [OF ok3] by blast
      qed
      let ?v = "v\<lparr>rv_rxq := rxq4, rv_heap := st4\<rparr>"
      have sl4: "\<forall>m \<in> set (e # ps @ concat cs). in_slice q st4 m"
      proof
        fix m assume m: "m \<in> set (e # ps @ concat cs)"
        then have "m \<noteq> rep" using nr by auto
        then have "mbufs st4 m = mbufs st3 m" using st4(3) by blast
        moreover have "in_slice q st3 m" using m sl3 by auto
        ultimately show "in_slice q st4 m" by (simp add: in_slice_def)
      qed
      have path4: "seg_path (mbufs st4) pkt ps e"
        using path3 by (rule seg_path_cong) (use st4(3) nr in auto)
      have rL: "rep \<notin> set (concat cs)" using nr(1) by simp
      have fr4: "fresh st4 (rx_mp rxq4) (e # ps @ concat cs @ held)" if w
      proof (rule fresh_cong)
        show "fresh st3 (rx_mp rxq4) (ps @ concat cs @ held)" using fr3 [OF that] st4(6) mp3 by simp
        fix a z assume z: "mbufs st4 a = Some z" "pool z = rx_mp rxq4" "a \<notin> set (e # ps @ concat cs @ held)"
        then show "nxt z = NULL \<and> nb_segs z = 1 \<or>
            a \<notin> set (ps @ concat cs @ held) \<and> (\<exists>y. mbufs st3 a = Some y \<and> pool y = rx_mp rxq4 \<and> nxt y = nxt z \<and> nb_segs y = nb_segs z)"
          using st4(3,5) by (cases "a = rep") auto
      qed
      have pk4: "list_all2 (rx_pkt st4) (rv_pkts v) cs" if w
        using pk3 [OF that] by (rule rx_pkts_cong) (use rL st4(3) in auto)
      have sg4: "list_all2 (rx_segs st4) (rv_pkts v) cs" using sg3 by (rule rx_segs_cong) (use rL st4(3) in auto)
      have e4: "map_option nxt (mbufs st4 e) = Some NULL" if w
        using r(5) [rule_format, of e] x fe [OF that] st4(3) nr(2) by simp
      have gr4: "growing st4 pkt ps len" if w
      proof (cases "rv_pkt v = NULL")
        case True
        then have "ps = []" "pkt = e" using un by (simp_all add: unfinished_def pkt_def)
        moreover obtain y where "mbufs st3 e = Some y" "nb_segs y = nb_segs x" "pkt_len y = len" using r(8) RxGo True by blast
        ultimately show ?thesis using fe [OF that] st4(3) nr(2) by (simp add: growing_def total_len_def)
      next
        case False
        then have same: "st3 = st2" "len = rv_len v" "pkt = rv_pkt v" using r(9) RxGo by (simp_all add: pkt_def)
        have "growing (rv_heap v) pkt ps len" using pw [OF that] False same by (simp add: pk_inv_def)
        then have g: "growing st3 pkt ps len" by (rule growing_cong) (simp add: same(1) st2(2) st1(6))
        have "pkt \<in> set ps" using path3 False un by (cases ps) (auto simp: unfinished_def)
        then have "pkt \<noteq> rep" "rep \<notin> set ps" using nr(1) by auto
        moreover from this(2) have "total_len st4 ps = total_len st3 ps" using st4(3) by (intro total_len_cong) auto
        ultimately show ?thesis using g st4(3) by (simp add: growing_def)
      qed
      obtain v' cs' ps' where v': "rx_advance pkt e len ?v = Some v'" "rx_inv tot pinv bag cap w npk q held cs' ps' v'"
        using rx_advance_ok [of tot pinv bag cap e ps cs held ?v q pkt npk w len] st4(2,4) q3(1) sl4 sg4 path4 n n0 fr4 pk4 gr4 e4 by auto
      have "rx_iter env tbl lcore v = Some (v', False)"
        using ne st1(1) st2(1) r(1) False RxGo st4(1) v'(1) by (simp add: it pkt_def split del: if_split)
      with v'(2) show ?thesis by (intro exI conjI) auto
    qed
  qed
qed

end

section \<open>Progress\<close>

text \<open>No completion reports an error, and no length is the error value.\<close>

definition cqe_clean :: "mlx5_env \<Rightarrow> mlx5_cqe \<Rightarrow> bool" where
  "cqe_clean env c \<longleftrightarrow> MLX5_CQE_OPCODE (cqe_op_own c) \<noteq> MLX5_CQE_RESP_ERR env \<and>
     rte_be_to_cpu_32 (cqe_byte_cnt c) \<noteq> - 1 \<and> (\<forall>k < 8. rte_be_to_cpu_32 (mini_byte_cnt c k) \<noteq> - 1)"

definition rx_clean :: "mlx5_env \<Rightarrow> mlx5_rxq_data \<Rightarrow> bool" where
  "rx_clean env rxq \<longleftrightarrow> MLX5_CQE_INVALID env < 16 \<and> MLX5_CQE_INVALID env \<noteq> MLX5_CQE_RESP_ERR env \<and>
     (\<forall>c \<in> set (rx_cqes rxq). cqe_clean env c)"

lemma opcode_shift: "(v :: u8) < 16 \<Longrightarrow> MLX5_CQE_OPCODE (push_bit 4 v) = v"
proof -
  assume "v < 16"
  then have v: "v = take_bit 4 v" by (simp add: word_take_bit_self word_less_nat_alt)
  have "bit (drop_bit 4 (push_bit 4 v AND 0xf0)) n = bit v n" if "n < 8" for n
  proof -
    have f: "(0xf0 :: u8) = push_bit 4 (mask 4)" by (simp add: mask_eq_exp_minus_1 push_bit_eq_mult)
    have "bit v n \<Longrightarrow> n < 4" using v bit_take_bit_iff [of 4 v n] by metis
    then show ?thesis using that unfolding f by (auto simp: bit_simps)
  qed
  then show "MLX5_CQE_OPCODE (push_bit 4 v) = v" unfolding MLX5_CQE_OPCODE_def by (intro bit_word_eqI) simp
qed

lemma rd32_high: "bit (rd32 c k) 24 = bit (c (k + 3)) 0"
  unfolding rd32_def rd16_def bit_or_iff bit_push_bit_iff bit_unsigned_iff
  by (auto simp: add.assoc numeral_3_eq_3 dest: bit_imp_le_length)

lemma rd32_set: "63 < k \<or> k + 3 < 63 \<Longrightarrow> rd32 (set_op_own b c) k = rd32 c k"
  by (simp add: rd32_def rd16_def set_op_own_def) linarith

lemma clean_invalid:
  assumes "cqe_clean env c" "MLX5_CQE_INVALID env < 16" "MLX5_CQE_INVALID env \<noteq> MLX5_CQE_RESP_ERR env"
  shows "cqe_clean env (set_op_own (push_bit 4 (MLX5_CQE_INVALID env)) c)" (is "cqe_clean env ?c")
proof -
  have "MLX5_CQE_OPCODE (cqe_op_own ?c) = MLX5_CQE_INVALID env"
    using assms(2) by (simp add: cqe_op_own_def set_op_own_def opcode_shift)
  moreover have "rte_be_to_cpu_32 (cqe_byte_cnt ?c) \<noteq> - 1"
    using assms(1) by (simp add: cqe_byte_cnt_def rd32_set cqe_clean_def)
  moreover have "rte_be_to_cpu_32 (mini_byte_cnt ?c k) \<noteq> - 1" if "k < 8" for k
  proof (cases "k = 7")
    case True
    have "bit (rte_be_to_cpu_32 (mini_byte_cnt ?c k)) (8 * 0 + 0) = bit (mini_byte_cnt ?c k) (8 * (3 - 0) + 0)"
      by (rule bswap32_bit) simp_all
    also have "\<dots> = bit (?c 63) 0" using True rd32_high [of ?c 60] by (simp add: mini_byte_cnt_def)
    also have "\<dots> = False" by (simp add: set_op_own_def bit_simps)
    finally have "\<not> bit (rte_be_to_cpu_32 (mini_byte_cnt ?c k)) 0" by simp
    moreover have "bit (- 1 :: u32) 0" by simp
    ultimately show ?thesis by metis
  next
    case False
    then have "mini_byte_cnt ?c k = mini_byte_cnt c k" using that by (simp add: mini_byte_cnt_def rd32_set)
    then show ?thesis using assms(1) that by (simp add: cqe_clean_def)
  qed
  ultimately show ?thesis using assms(3) by (simp add: cqe_clean_def)
qed

lemma invalidate_clean:
  assumes "invalidate env cqe_cnt idx stop cqes = Some cqes'" "\<forall>c \<in> set cqes. cqe_clean env c"
    "MLX5_CQE_INVALID env < 16" "MLX5_CQE_INVALID env \<noteq> MLX5_CQE_RESP_ERR env"
  shows "\<forall>c \<in> set cqes'. cqe_clean env c"
  using assms
proof (induction env cqe_cnt idx stop cqes rule: invalidate.induct)
  case (1 env cqe_cnt idx stop cqes)
  show ?case
  proof (cases "idx = stop")
    case True
    then show ?thesis using "1.prems" by (subst (asm) invalidate.simps) simp
  next
    case False
    let ?k = "unat (idx AND cqe_cnt)"
    have k: "?k < length cqes" using "1.prems"(1) False by (subst (asm) invalidate.simps) (simp add: Let_def split: if_splits)
    let ?cqes = "cqes[?k := set_op_own (push_bit 4 (MLX5_CQE_INVALID env)) (cqes ! ?k)]"
    have i: "invalidate env cqe_cnt (idx + 1) stop ?cqes = Some cqes'"
      using "1.prems"(1) False k by (subst (asm) invalidate.simps) (simp add: Let_def)
    have "set ?cqes \<subseteq> insert (set_op_own (push_bit 4 (MLX5_CQE_INVALID env)) (cqes ! ?k)) (set cqes)" by (rule set_update_subset_insert)
    then have "\<forall>c \<in> set ?cqes. cqe_clean env c" using "1.prems"(2-4) clean_invalid [of env "cqes ! ?k"] k by auto
    with "1.IH" [OF False refl k i] "1.prems"(3,4) show ?thesis by blast
  qed
qed

lemma poll_clean:
  assumes "mlx5_rx_poll_len env rxq cqe cqe_cnt = Some (rxq', len, mcqe)" "rx_clean env rxq"
  shows "len \<noteq> - 1 \<and> rx_clean env rxq'"
proof (cases "zip_ai (rx_zip rxq) = 0")
  case True
  have "cqe_clean env c" if "nth_opt (rx_cqes rxq) i = Some c" for i c
    using that assms(2) by (auto simp: nth_opt_def rx_clean_def split: if_splits)
  with True assms show ?thesis
    by (auto simp: mlx5_rx_poll_len_def Let_def rx_clean_def cqe_clean_def split: if_splits bind_splits)
next
  case False
  have k: "unat (zip_ai (rx_zip rxq) AND 7) < 8" by (rule and_below) simp
  have cl: "cqe_clean env c" if "nth_opt (rx_cqes rxq) i = Some c" for i c
    using that assms(2) by (auto simp: nth_opt_def rx_clean_def split: if_splits)
  from False assms k cl show ?thesis
    by (auto simp: mlx5_rx_poll_len_def Let_def rx_clean_def cqe_clean_def split: if_splits bind_splits
        dest!: invalidate_clean)
qed

text \<open>Every buffer in the queue has room for data.\<close>

definition slots_len :: "mlx5_rxq_data \<Rightarrow> mbuf_heap \<Rightarrow> bool" where
  "slots_len rxq st \<longleftrightarrow> (\<forall>i < 2 ^ rx_elts_n rxq. \<exists>x. mbufs st (rx_elts rxq ! i) = Some x \<and> data_len x \<noteq> 0)"

definition lens_eq :: "mbuf_heap \<Rightarrow> mbuf_heap \<Rightarrow> bool" where
  "lens_eq st st' \<longleftrightarrow> (\<forall>m. map_option data_len (mbufs st' m) = map_option data_len (mbufs st m))"

lemma lens_eq_trans [trans]: "lens_eq st st1 \<Longrightarrow> lens_eq st1 st2 \<Longrightarrow> lens_eq st st2"
  by (simp add: lens_eq_def)

lemma slots_len_cong:
  assumes "slots_len rxq st" "lens_eq st st'" "rx_same rxq rxq'"
  shows "slots_len rxq' st'"
  unfolding slots_len_def
proof (intro allI impI)
  fix i :: nat assume "i < 2 ^ rx_elts_n rxq'"
  then obtain x where x: "mbufs st (rx_elts rxq ! i) = Some x" "data_len x \<noteq> 0"
    using assms(1,3) by (auto simp: slots_len_def rx_same_def)
  have "map_option data_len (mbufs st' (rx_elts rxq ! i)) = Some (data_len x)"
    using assms(2) x(1) by (simp add: lens_eq_def)
  then show "\<exists>x. mbufs st' (rx_elts rxq' ! i) = Some x \<and> data_len x \<noteq> 0"
    using x(2) assms(3) by (auto simp: rx_same_def)
qed

lemma with_mbuf_lens: "with_mbuf m f st = Some st' \<Longrightarrow> (\<And>x. data_len (f x) = data_len x) \<Longrightarrow> lens_eq st st'"
  by (auto simp: with_mbuf_def lens_eq_def split: bind_splits)

lemma raw_alloc_mbufs: "rte_mbuf_raw_alloc tbl lcore mpa st = Some (st', rep) \<Longrightarrow> mbufs st' = mbufs st"
  by (auto simp: rte_mbuf_raw_alloc_def split: bind_splits if_splits list.splits)

lemma raw_free_mbufs: "rte_mbuf_raw_free tbl lcore m st = Some st' \<Longrightarrow> mbufs st' = mbufs st"
  by (auto simp: rte_mbuf_raw_free_def split: bind_splits)

lemma len_cq_to_mbuf [simp]: "data_len (rxq_cq_to_mbuf rxq cqe h x) = data_len x"
  by (simp add: rxq_cq_to_mbuf_def set_rss_def set_fdir_hi_def Let_def)

lemma rx_begin_clean:
  assumes "rx_begin env tbl lcore sg rep rxq st = Some (st', rxq', r)" "rx_clean env rxq"
  shows "lens_eq st st' \<and> rx_clean env rxq' \<and> r \<noteq> RxSkip"
proof -
  let ?m = "2 ^ rx_cqe_n rxq - 1 :: u32"
  obtain rxq1 len mcqe where p: "mlx5_rx_poll_len env rxq (unat (cq_ci rxq AND ?m)) (ucast ?m) = Some (rxq1, len, mcqe)"
    using assms(1) by (auto simp: rx_begin_def Let_def split: bind_splits)
  have c: "len \<noteq> - 1" "rx_clean env rxq1" using poll_clean [OF p assms(2)] by simp_all
  show ?thesis
  proof (cases "len = 0")
    case True
    then show ?thesis using assms(1) p c
      by (auto simp: rx_begin_def Let_def lens_eq_def split: bind_splits dest: raw_free_mbufs)
  next
    case False
    then show ?thesis using assms(1) p c
      by (auto simp: rx_begin_def Let_def split: bind_splits elim!: with_mbuf_lens)
  qed
qed

lemma rx_replace_len:
  assumes "rx_replace env idx (rx_elts rxq ! idx) rep rxq st = Some (st', rxq')" "slots_len rxq st"
    and "rx_shape rxq" "idx < 2 ^ rx_elts_n rxq" "rep \<notin> set (take (2 ^ rx_elts_n rxq) (rx_elts rxq))"
  shows "slots_len rxq' st' \<and> rx_clean env rxq' = rx_clean env rxq \<and> rx_elts rxq' = (rx_elts rxq)[idx := rep]"
proof -
  have ix: "idx < length (rx_elts rxq)" using assms(3,4) by (simp add: rx_shape_def)
  obtain s where s: "mbufs st (rx_elts rxq ! idx) = Some s" "data_len s \<noteq> 0" using assms(2,4) by (auto simp: slots_len_def)
  obtain r where r: "mbufs st rep = Some r" using assms(1) s by (auto simp: rx_replace_def with_mbuf_def split: bind_splits)
  have cs: "data_len (rte_pktmbuf_set_slice x k) = data_len x" for x k by (simp add: rte_pktmbuf_set_slice_def)
  obtain x w where st': "mbufs st' = (mbufs st)(rep \<mapsto> x)" "data_len x = data_len s"
      "rxq' = rxq\<lparr>rx_elts := (rx_elts rxq)[idx := rep], rx_wqes := (rx_wqes rxq)[idx := w]\<rparr>"
    using assms(1) s r ix by (auto simp: rx_replace_def with_mbuf_def cs Let_def split: bind_splits)
  have "slots_len rxq' st'"
    unfolding slots_len_def
  proof (intro allI impI)
    fix i :: nat assume "i < 2 ^ rx_elts_n rxq'"
    then have i: "i < 2 ^ rx_elts_n rxq" using st'(3) by simp
    show "\<exists>x. mbufs st' (rx_elts rxq' ! i) = Some x \<and> data_len x \<noteq> 0"
    proof (cases "i = idx")
      case True
      then show ?thesis using st' s(2) ix by simp
    next
      case False
      have "rx_elts rxq ! i \<in> set (take (2 ^ rx_elts_n rxq) (rx_elts rxq))"
        using i assms(3) by (metis in_set_conv_nth length_take min_less_iff_conj nth_take rx_shape_def order_less_le_trans)
      then have "rx_elts rxq ! i \<noteq> rep" using assms(5) by metis
      then show ?thesis using assms(2) i False st' by (auto simp: slots_len_def)
    qed
  qed
  then show ?thesis using st'(3) by (simp add: rx_clean_def)
qed

text \<open>How far the loop has to go: the packets still to receive, then the bytes of the current one.\<close>

definition rx_rank :: "rx_vars \<Rightarrow> nat \<times> nat" where
  "rx_rank v = (rv_pkts_n v, if rv_pkt v = NULL then 2 ^ 32 else nat (sint (rv_len v)))"

abbreviation rank_less :: "((nat \<times> nat) \<times> nat \<times> nat) set" where
  "rank_less \<equiv> less_than <*lex*> less_than"

lemma rx_advance_rank:
  assumes "rx_advance pkt sg len v = Some v'" "pkt \<noteq> NULL" "rv_pkts_n v \<noteq> 0" "mbufs (rv_heap v) sg = Some x" "data_len x \<noteq> 0"
    and "rv_pkt v \<noteq> NULL \<Longrightarrow> rv_len v = len"
  shows "(rx_rank v', rx_rank v) \<in> rank_less"
proof (cases "sint len > uint (data_len x)")
  case True
  have "uint (data_len x) \<noteq> 0" using assms(5) by (simp add: uint_0_iff)
  moreover have "0 \<le> uint (data_len x)" by simp
  ultimately have "0 < uint (data_len x)" by linarith
  then have "nat (sint (len - ucast (data_len x))) < nat (sint len)" using sint_minus_u16 [OF True] True by simp
  moreover have "nat (sint (len - ucast (data_len x))) < 2 ^ 32" using sint_u32(1) [of "len - ucast (data_len x)"] by simp
  moreover obtain st where "v' = v\<lparr>rv_pkt := pkt, rv_seg := sg, rv_ci := rv_ci v + 1, rv_len := len - ucast (data_len x), rv_heap := st\<rparr>"
    using assms(1,4) True by (auto simp: rx_advance_def split: bind_splits)
  ultimately show ?thesis using assms(2,6) by (auto simp: rx_rank_def)
next
  case False
  then have "rv_pkts_n v' = rv_pkts_n v - 1" using assms(1,4) by (auto simp: rx_advance_def Let_def split: bind_splits)
  with assms(3) show ?thesis by (simp add: rx_rank_def)
qed

lemma rx_advance_len:
  assumes "rx_advance pkt sg len v = Some v'" "slots_len (rv_rxq v) (rv_heap v)" "rx_shape (rv_rxq v)"
    "sg \<notin> set (take (2 ^ rx_elts_n (rv_rxq v)) (rx_elts (rv_rxq v)))"
  shows "slots_len (rv_rxq v') (rv_heap v') \<and> rx_clean env (rv_rxq v') = rx_clean env (rv_rxq v)"
proof -
  obtain x where x: "mbufs (rv_heap v) sg = Some x" using assms(1) by (auto simp: rx_advance_def split: bind_splits)
  show ?thesis
  proof (cases "sint len > uint (data_len x)")
    case True
    then obtain st where st: "with_mbuf pkt (\<lambda>p. p\<lparr>nb_segs := nb_segs p + 1\<rparr>) (rv_heap v) = Some st" "rv_heap v' = st" "rv_rxq v' = rv_rxq v"
      using assms(1) x by (auto simp: rx_advance_def split: bind_splits)
    have "lens_eq (rv_heap v) st" using st(1) by (rule with_mbuf_lens) simp
    then show ?thesis using slots_len_cong [OF assms(2), of st "rv_rxq v"] st(2,3) by (simp add: rx_same_def)
  next
    case False
    then obtain st where st: "with_mbuf sg (\<lambda>x. x\<lparr>data_len := ucast len\<rparr>) (rv_heap v) = Some st" "rv_heap v' = st"
        "rx_same (rv_rxq v) (rv_rxq v')" "rx_cqes (rv_rxq v') = rx_cqes (rv_rxq v)"
      using assms(1) x by (auto simp: rx_advance_def Let_def rx_same_def split: bind_splits)
    have "mbufs st (rx_elts (rv_rxq v) ! i) = mbufs (rv_heap v) (rx_elts (rv_rxq v) ! i)" if "i < 2 ^ rx_elts_n (rv_rxq v)" for i :: nat
    proof -
      have "rx_elts (rv_rxq v) ! i \<in> set (take (2 ^ rx_elts_n (rv_rxq v)) (rx_elts (rv_rxq v)))"
        using that assms(3) by (metis in_set_conv_nth length_take min_less_iff_conj nth_take rx_shape_def order_less_le_trans)
      then have "rx_elts (rv_rxq v) ! i \<noteq> sg" using assms(4) by metis
      then show ?thesis using st(1) x by (auto simp: with_mbuf_def)
    qed
    then have "slots_len (rv_rxq v) st" using assms(2) by (simp add: slots_len_def)
    then show ?thesis using st by (simp add: slots_len_def rx_same_def rx_clean_def)
  qed
qed

text \<open>An iteration that does not leave the loop: the steps it is made of.\<close>

lemma rx_iter_go:
  assumes "rx_iter env tbl lcore v = Some (v', False)" and "rx_clean env (rv_rxq v)"
    and "idx = unat (rv_ci v AND (2 ^ rx_elts_n (rv_rxq v) - 1))"
  obtains e st1 st2 rep st3 rxq3 st4 rxq4 len where
    "nth_opt (rx_elts (rv_rxq v)) idx = Some e"
    "(if rv_pkt v \<noteq> NULL then with_mbuf (rv_seg v) (\<lambda>x. x\<lparr>nxt := e\<rparr>) (rv_heap v) else Some (rv_heap v)) = Some st1"
    "rte_mbuf_raw_alloc tbl lcore (rx_mp (rv_rxq v)) st1 = Some (st2, rep)" "rep \<noteq> NULL"
    "(if rv_pkt v = NULL then rx_begin env tbl lcore e rep (rv_rxq v) st2 else Some (st2, rv_rxq v, RxGo (rv_len v))) = Some (st3, rxq3, RxGo len)"
    "rx_replace env idx e rep rxq3 st3 = Some (st4, rxq4)"
    "rx_advance (if rv_pkt v = NULL then e else rv_pkt v) e len (v\<lparr>rv_rxq := rxq4, rv_heap := st4\<rparr>) = Some v'"
proof -
  note it = rx_iter_def [of env tbl lcore v, unfolded Let_def, folded assms(3)]
  obtain e where e: "nth_opt (rx_elts (rv_rxq v)) idx = Some e" using assms(1) it by (auto split: bind_splits)
  obtain st1 where st1: "(if rv_pkt v \<noteq> NULL then with_mbuf (rv_seg v) (\<lambda>x. x\<lparr>nxt := e\<rparr>) (rv_heap v) else Some (rv_heap v)) = Some st1"
    using assms(1) it e by (auto split: bind_splits)
  obtain st2 rep where st2: "rte_mbuf_raw_alloc tbl lcore (rx_mp (rv_rxq v)) st1 = Some (st2, rep)"
    using assms(1) it e st1 by (auto split: bind_splits split del: if_split)
  have rep: "rep \<noteq> NULL"
  proof
    assume "rep = NULL"
    then show False using assms(1) it e st1 st2 by (cases "rv_pkt v = NULL") (auto split: bind_splits)
  qed
  let ?b = "if rv_pkt v = NULL then rx_begin env tbl lcore e rep (rv_rxq v) st2 else Some (st2, rv_rxq v, RxGo (rv_len v))"
  have it2: "rx_iter env tbl lcore v = ?b \<bind> (\<lambda>(st, rxq, r). case r of
         RxStop \<Rightarrow> Some (v\<lparr>rv_seg := e, rv_rxq := rxq, rv_heap := st\<rparr>, True)
       | RxSkip \<Rightarrow> Some (v\<lparr>rv_seg := e, rv_ci := rx_align (rx_sges_n rxq) (rv_ci v), rv_len := - 1, rv_rxq := rxq, rv_heap := st\<rparr>, False)
       | RxGo len \<Rightarrow> do {
           (st, rxq) \<leftarrow> rx_replace env idx e rep rxq st;
           v \<leftarrow> rx_advance (if rv_pkt v = NULL then e else rv_pkt v) e len (v\<lparr>rv_rxq := rxq, rv_heap := st\<rparr>);
           Some (v, False) })"
    using e st1 st2 rep by (simp add: it split del: if_split)
  then obtain st3 rxq3 r where b: "?b = Some (st3, rxq3, r)" using assms(1) by (cases ?b) auto
  have "r \<noteq> RxSkip" using b rx_begin_clean [OF _ assms(2)] by (auto split: if_splits)
  moreover have "r \<noteq> RxStop" using assms(1) it2 b by auto
  ultimately obtain len where r: "r = RxGo len" by (cases r) auto
  obtain st4 rxq4 where st4: "rx_replace env idx e rep rxq3 st3 = Some (st4, rxq4)"
    using assms(1) it2 b r by (cases "rx_replace env idx e rep rxq3 st3") auto
  have "rx_advance (if rv_pkt v = NULL then e else rv_pkt v) e len (v\<lparr>rv_rxq := rxq4, rv_heap := st4\<rparr>) = Some v'"
    using assms(1) it2 b r st4 by (auto split: bind_splits)
  with e st1 st2 rep b r st4 that show ?thesis by blast
qed

context mempool_driver
begin

lemma rx_iter_live:
  assumes inv: "rx_inv tot pinv bag cap w npk q held cs ps v" and it: "rx_iter env tbl lcore v = Some (v', False)"
    and cl: "rx_clean env (rv_rxq v)" and sl: "slots_len (rv_rxq v) (rv_heap v)" and n: "rv_pkts_n v \<noteq> 0"
  shows "rx_clean env (rv_rxq v') \<and> slots_len (rv_rxq v') (rv_heap v') \<and> (rx_rank v', rx_rank v) \<in> rank_less"
proof -
  define idx where "idx = unat (rv_ci v AND (2 ^ rx_elts_n (rv_rxq v) - 1))"
  obtain e st1 st2 rep st3 rxq3 st4 rxq4 len where s:
    "nth_opt (rx_elts (rv_rxq v)) idx = Some e"
    "(if rv_pkt v \<noteq> NULL then with_mbuf (rv_seg v) (\<lambda>x. x\<lparr>nxt := e\<rparr>) (rv_heap v) else Some (rv_heap v)) = Some st1"
    "rte_mbuf_raw_alloc tbl lcore (rx_mp (rv_rxq v)) st1 = Some (st2, rep)" "rep \<noteq> NULL"
    "(if rv_pkt v = NULL then rx_begin env tbl lcore e rep (rv_rxq v) st2 else Some (st2, rv_rxq v, RxGo (rv_len v))) = Some (st3, rxq3, RxGo len)"
    "rx_replace env idx e rep rxq3 st3 = Some (st4, rxq4)"
    "rx_advance (if rv_pkt v = NULL then e else rv_pkt v) e len (v\<lparr>rv_rxq := rxq4, rv_heap := st4\<rparr>) = Some v'"
    by (rule rx_iter_go [OF it cl idx_def])
  have ok: "rx_holds tot pinv bag cap (ps @ concat cs @ held) (rv_rxq v) (rv_heap v)" and un: "unfinished (rv_heap v) (rv_pkt v) (rv_seg v) ps"
    using inv by (simp_all add: rx_inv_def)
  have sh: "rx_elts_n (rv_rxq v) < 16" "2 ^ rx_elts_n (rv_rxq v) \<le> length (rx_elts (rv_rxq v))"
    using ok by (simp_all add: rx_holds_def rx_ok_def rx_shape_def)
  have idx: "idx < 2 ^ rx_elts_n (rv_rxq v)" unfolding idx_def using sh(1) by (intro and_below) (simp add: unat_2p_minus_1)
  have e: "e = rx_elts (rv_rxq v) ! idx" using s(1) by (auto simp: nth_opt_def split: if_splits)
  have ok1: "rx_holds tot pinv bag cap (ps @ concat cs @ held) (rv_rxq v) st1"
    using link_unfinished [OF ok un idx] s(2) unfolding e by auto
  have ok2: "rx_holds tot pinv bag cap (rep # ps @ concat cs @ held) (rv_rxq v) st2" using raw_alloc_rx [OF ok1, of lcore] s(3,4) by auto
  have es: "in_slice (rx_queue_id (rv_rxq v)) st2 e" using ok2 idx slot_in_slice unfolding e by (auto simp: rx_holds_def rx_ok_def)
  then obtain x where x: "mbufs st2 e = Some x" by (auto simp: in_slice_def)
  have 3: "rx_same (rv_rxq v) rxq3 \<and> rx_holds tot pinv bag cap (rep # ps @ concat cs @ held) rxq3 st3 \<and> lens_eq st2 st3 \<and> rx_clean env rxq3 \<and>
      (rv_pkt v \<noteq> NULL \<longrightarrow> rv_len v = len)"
  proof (cases "rv_pkt v = NULL")
    case True
    then show ?thesis using rx_begin_rx [OF ok2 x, of env lcore] s(5) rx_begin_clean [OF _ cl] by force
  next
    case False
    then show ?thesis using s(5) ok2 cl by (auto simp: rx_same_def lens_eq_def)
  qed
  have q3: "rx_elts rxq3 = rx_elts (rv_rxq v)" "rx_elts_n rxq3 = rx_elts_n (rv_rxq v)" using 3 by (simp_all add: rx_same_def)
  have "lens_eq (rv_heap v) st1" using s(2) by (auto simp: lens_eq_def with_mbuf_def split: if_splits bind_splits)
  then have "lens_eq (rv_heap v) st2" using raw_alloc_mbufs [OF s(3)] by (simp add: lens_eq_def)
  then have "lens_eq (rv_heap v) st3" using 3 by (blast intro: lens_eq_trans)
  then have sl3: "slots_len rxq3 st3" using sl 3 slots_len_cong by blast
  have ok3: "rx_holds tot pinv bag cap (rep # ps @ concat cs @ held) rxq3 st3" and idx3: "idx < 2 ^ rx_elts_n rxq3" using 3 idx q3 by simp_all
  have sh3: "rx_shape rxq3" using ok3 by (simp add: rx_holds_def rx_ok_def)
  have e3: "rx_elts rxq3 ! idx = e" using e q3 by simp
  have rp: "rep \<notin> set (take (2 ^ rx_elts_n rxq3) (rx_elts rxq3))" using rx_holds_notin(2) [OF ok3] .
  have 4: "slots_len rxq4 st4" "rx_clean env rxq4 = rx_clean env rxq3"
    using rx_replace_len [of env idx rxq3 rep st3 st4 rxq4] s(6) sl3 sh3 idx3 rp unfolding e3 by auto
  have ok4: "rx_holds tot pinv bag cap (e # ps @ concat cs @ held) rxq4 st4" and b4: "\<forall>a. a \<noteq> rep \<longrightarrow> mbufs st4 a = mbufs st3 a"
    using rx_replace_rx [OF ok3 idx3, of env] s(6) unfolding e3 by auto
  have "e \<in> set (take (2 ^ rx_elts_n rxq3) (rx_elts rxq3))"
    using idx3 sh3 unfolding e3 [symmetric] by (metis in_set_conv_nth length_take min_less_iff_conj nth_take rx_shape_def order_less_le_trans)
  then have er: "e \<noteq> rep" using rp by blast
  obtain x3 where x3: "mbufs st3 e = Some x3" "data_len x3 \<noteq> 0" using sl3 idx3 e3 by (auto simp: slots_len_def)
  then have x4: "mbufs st4 e = Some x3" using b4 er by simp
  let ?v = "v\<lparr>rv_rxq := rxq4, rv_heap := st4\<rparr>"
  have "e \<noteq> NULL" using rx_holds_in [OF ok4, of e] by (simp add: rx_mbuf_ok_def)
  then have "(rx_rank v', rx_rank ?v) \<in> rank_less"
    using rx_advance_rank [OF s(7), of x3] n x4 x3(2) 3 by auto
  moreover have "rx_rank ?v = rx_rank v" by (simp add: rx_rank_def)
  moreover have "rx_shape rxq4" using ok4 by (simp add: rx_holds_def rx_ok_def)
  ultimately show ?thesis
    using rx_advance_len [OF s(7), of env] 4 3 rx_holds_notin(2) [OF ok4] by auto
qed

lemma rx_loop_live:
  assumes "rx_inv tot pinv bag cap w npk q held cs ps v" "rx_clean env (rv_rxq v)" "slots_len (rv_rxq v) (rv_heap v)"
  shows "\<exists>v' cs'. rx_loop env tbl lcore v = Some v' \<and> rx_done tot pinv bag cap w npk q held cs' v'"
proof -
  have wf: "wf rank_less" by auto
  show ?thesis using assms
  proof (induction "rx_rank v" arbitrary: v cs ps rule: wf_induct_rule [OF wf])
    case (1 v)
    show ?case
    proof (cases "rv_pkts_n v = 0")
      case True
      then have "rx_done tot pinv bag cap w npk q held cs v" using "1.prems"(1) by (auto simp: rx_inv_def rx_done_def unfinished_def pk_inv_def)
      with True show ?thesis by (subst rx_loop.simps) auto
    next
      case False
      from rx_iter_ok [OF "1.prems"(1) False, of env lcore] obtain v' stop cs' ps' where
        it: "rx_iter env tbl lcore v = Some (v', stop)"
          "if stop then rx_done tot pinv bag cap w npk q held cs' v' else rx_inv tot pinv bag cap w npk q held cs' ps' v'" by blast
      show ?thesis
      proof (cases stop)
        case True
        with it False show ?thesis by (subst rx_loop.simps) auto
      next
        case stop: False
        then have live: "rx_clean env (rv_rxq v')" "slots_len (rv_rxq v') (rv_heap v')" "(rx_rank v', rx_rank v) \<in> rank_less"
          using rx_iter_live [OF "1.prems"(1) _ "1.prems"(2,3) False] it(1) by auto
        have "rx_inv tot pinv bag cap w npk q held cs' ps' v'" using it(2) stop by simp
        from "1.hyps" [OF live(3) this live(1,2)] show ?thesis
          using False it(1) stop by (subst rx_loop.simps) simp
      qed
    qed
  qed
qed

text \<open>Whatever the completions say, a loop that ends leaves the queue in order.\<close>

lemma rx_loop_safe:
  assumes "rx_loop env tbl lcore v = Some v'" "rx_inv tot pinv bag cap w npk q held cs ps v"
  shows "\<exists>cs'. rx_done tot pinv bag cap w npk q held cs' v'"
proof -
  have "tbl' = tbl \<longrightarrow> (\<forall>cs ps. rx_inv tot pinv bag cap w npk q held cs ps v \<longrightarrow> (\<exists>cs'. rx_done tot pinv bag cap w npk q held cs' v'))"
    if "rx_loop env tbl' lcore v = Some v'" for tbl'
  proof (rule rx_loop.raw_induct [OF _ that, where P = "\<lambda>env tbl' lcore v v'. tbl' = tbl \<longrightarrow>
      (\<forall>cs ps. rx_inv tot pinv bag cap w npk q held cs ps v \<longrightarrow> (\<exists>cs'. rx_done tot pinv bag cap w npk q held cs' v'))"], goal_cases)
    case (1 rec env tbl' lcore v v')
    show ?case
    proof (intro impI allI)
      fix cs ps assume t: "tbl' = tbl" and inv: "rx_inv tot pinv bag cap w npk q held cs ps v"
      show "\<exists>cs'. rx_done tot pinv bag cap w npk q held cs' v'"
      proof (cases "rv_pkts_n v = 0")
        case True
        then have "rx_done tot pinv bag cap w npk q held cs v" using inv by (auto simp: rx_inv_def rx_done_def unfinished_def pk_inv_def)
        with True 1(2) show ?thesis by auto
      next
        case False
        from rx_iter_ok [OF inv False, of env lcore] obtain v1 stop cs1 ps1 where
          it: "rx_iter env tbl lcore v = Some (v1, stop)"
            "if stop then rx_done tot pinv bag cap w npk q held cs1 v1 else rx_inv tot pinv bag cap w npk q held cs1 ps1 v1" by blast
        show ?thesis
        proof (cases stop)
          case True
          with it 1(2) False t show ?thesis by auto
        next
          case stop: False
          then have "rec env tbl' lcore v1 = Some v'" using 1(2) it(1) t False by simp
          from 1(1) [OF this] t it(2) stop show ?thesis by (metis (full_types))
        qed
      qed
    qed
  qed
  with assms show ?thesis by blast
qed

end

section \<open>Properties\<close>

definition rx_result ::
  "addr multiset \<Rightarrow> (rte_mempool \<Rightarrow> bool) \<Rightarrow> (rte_mempool \<Rightarrow> addr multiset) \<Rightarrow> (rte_mempool \<Rightarrow> nat) \<Rightarrow> bool \<Rightarrow> u16 \<Rightarrow> addr list \<Rightarrow> u16 \<Rightarrow>
    mbuf_heap \<Rightarrow> mlx5_rxq_data \<Rightarrow> addr list \<Rightarrow> bool" where
  "rx_result tot pinv bag cap w q held pkts_n st rxq pkts \<longleftrightarrow> (\<exists>cs. rx_holds tot pinv bag cap (concat cs @ held) rxq st \<and> rx_queue_id rxq = q \<and>
     (\<forall>m \<in> set (concat cs). in_slice q st m) \<and> list_all2 (rx_segs st) pkts cs \<and> length pkts \<le> unat pkts_n \<and>
     (w \<longrightarrow> fresh st (rx_mp rxq) (concat cs @ held) \<and> list_all2 (rx_pkt st) pkts cs))"

definition rx_enter :: "mlx5_rxq_data \<Rightarrow> u16 \<Rightarrow> mbuf_heap \<Rightarrow> rx_vars" where
  "rx_enter rxq pkts_n st = \<lparr>rv_pkt = NULL, rv_seg = NULL, rv_ci = push_bit (rx_sges_n rxq) (rq_ci rxq), rv_len = 0,
     rv_pkts_n = unat pkts_n, rv_pkts = [], rv_rxq = rxq, rv_heap = st\<rparr>"

lemma rx_enter_inv:
  "rx_holds tot pinv bag cap held rxq st \<Longrightarrow> (w \<longrightarrow> fresh st (rx_mp rxq) held) \<Longrightarrow>
    rx_inv tot pinv bag cap w (unat pkts_n) (rx_queue_id rxq) held [] [] (rx_enter rxq pkts_n st)"
  by (simp add: rx_inv_def rx_enter_def unfinished_def pk_inv_def)

lemma rx_burst_exit:
  assumes "rx_loop env tbl lcore (rx_enter rxq pkts_n st) = Some v"
    and "rx_done tot pinv bag cap w (unat pkts_n) q held cs v"
  shows "\<exists>st' rxq' pkts. mlx5_rx_burst env tbl lcore rxq pkts_n st = Some (st', rxq', pkts) \<and> rx_result tot pinv bag cap w q held pkts_n st' rxq' pkts"
proof -
  let ?ci = "drop_bit (rx_sges_n (rv_rxq v)) (rv_ci v)"
  have u: "mlx5_rx_burst env tbl lcore rxq pkts_n st =
    (let rxq = rv_rxq v; ci = drop_bit (rx_sges_n rxq) (rv_ci v) in
      if rv_pkts v = [] \<and> ci = rq_ci rxq then Some (rv_heap v, rxq, [])
      else Some (rv_heap v, rxq\<lparr>rq_ci := ci, cq_db := rte_cpu_to_be_32 (cq_ci rxq), rq_db := rte_cpu_to_be_32 ci,
                   rx_stats := (rx_stats rxq)\<lparr>ipackets := ipackets (rx_stats rxq) + of_nat (length (rv_pkts v))\<rparr>\<rparr>,
                 rv_pkts v))"
    using assms(1) unfolding rx_enter_def by (simp add: mlx5_rx_burst_def)
  show ?thesis
  proof (cases "rv_pkts v = [] \<and> ?ci = rq_ci (rv_rxq v)")
    case True
    then show ?thesis using assms(2) u by (auto simp: rx_done_def rx_result_def Let_def)
  next
    case False
    let ?rxq = "(rv_rxq v)\<lparr>rq_ci := ?ci, cq_db := rte_cpu_to_be_32 (cq_ci (rv_rxq v)), rq_db := rte_cpu_to_be_32 ?ci,
      rx_stats := (rx_stats (rv_rxq v))\<lparr>ipackets := ipackets (rx_stats (rv_rxq v)) + of_nat (length (rv_pkts v))\<rparr>\<rparr>"
    have "rx_holds tot pinv bag cap (concat cs @ held) ?rxq (rv_heap v)"
      using assms(2) unfolding rx_done_def by (elim conjE) (rule rx_holds_same, assumption, simp add: rx_same_def)
    then have "rx_result tot pinv bag cap w q held pkts_n (rv_heap v) ?rxq (rv_pkts v)"
      using assms(2) unfolding rx_result_def rx_done_def by auto
    moreover have "mlx5_rx_burst env tbl lcore rxq pkts_n st = Some (rv_heap v, ?rxq, rv_pkts v)"
      unfolding u Let_def using False by (simp only: if_False)
    ultimately show ?thesis by blast
  qed
qed

context mempool_driver
begin

lemma rx_burst_safe:
  assumes "rx_holds tot pinv bag cap held rxq st" "w \<longrightarrow> fresh st (rx_mp rxq) held"
    and "mlx5_rx_burst env tbl lcore rxq pkts_n st = Some (st', rxq', pkts)"
  shows "rx_result tot pinv bag cap w (rx_queue_id rxq) held pkts_n st' rxq' pkts"
proof -
  obtain v where v: "rx_loop env tbl lcore (rx_enter rxq pkts_n st) = Some v"
    using assms(3) by (auto simp: mlx5_rx_burst_def rx_enter_def split: bind_splits)
  obtain cs where cs: "rx_done tot pinv bag cap w (unat pkts_n) (rx_queue_id rxq) held cs v"
    using rx_loop_safe [OF v rx_enter_inv [OF assms(1,2)]] by blast
  from rx_burst_exit [OF v cs] assms(3) show ?thesis by auto
qed

lemma rx_burst_live:
  assumes "rx_holds tot pinv bag cap held rxq st" "rx_clean env rxq" "slots_len rxq st"
  shows "\<exists>st' rxq' pkts. mlx5_rx_burst env tbl lcore rxq pkts_n st = Some (st', rxq', pkts) \<and>
    rx_result tot pinv bag cap False (rx_queue_id rxq) held pkts_n st' rxq' pkts"
proof -
  have "rx_clean env (rv_rxq (rx_enter rxq pkts_n st))" "slots_len (rv_rxq (rx_enter rxq pkts_n st)) (rv_heap (rx_enter rxq pkts_n st))"
    using assms(2,3) by (simp_all add: rx_enter_def)
  from rx_loop_live [OF rx_enter_inv [OF assms(1), of False] this, of lcore] show ?thesis using rx_burst_exit by blast
qed

end

lemma ring_burst_live:
  assumes "rx_ok ring_pool_inv ring_pool_bag ring_pool_cap held rxq st" "rx_clean env rxq" "slots_len rxq st"
  shows "\<exists>st' rxq' pkts tot. mlx5_rx_burst env ops_table lcore rxq pkts_n st = Some (st', rxq', pkts) \<and>
    rx_result tot ring_pool_inv ring_pool_bag ring_pool_cap False (rx_queue_id rxq) held pkts_n st' rxq' pkts"
proof -
  obtain tot where "rx_holds tot ring_pool_inv ring_pool_bag ring_pool_cap held rxq st" using assms(1) by (rule rx_ok_holds)
  from ringpool.rx_burst_live [OF this assms(2,3), of lcore pkts_n] show ?thesis by blast
qed

text \<open>A queue of one slot, whose pool has one more buffer.\<close>

definition demo_rxq :: "rte_mbuf \<Rightarrow> mlx5_rxq_data" where
  "demo_rxq x = \<lparr>rx_csum = True, rx_hw_timestamp = False, rx_vlan_strip = False, rx_crc_present = False, rx_sges_n = 0, rx_cqe_n = 0,
     rx_elts_n = 0, rx_rss_hash = True, rx_mark = False, rq_db = 0, cq_db = 0, rx_port_id = 3, rq_ci = 1, rq_pi = 0, cq_ci = 0,
     rx_mr_len = 2, rx_wqes = [\<lparr>wqe_byte_count = 0x400B0000, wqe_lkey = 7, wqe_addr = rte_cpu_to_be_64 (rte_pktmbuf_mtod_offset x 0)\<rparr>],
     rx_cqes = [(\<lambda>_. 0)(47 := 64, 63 := 0x20)], rx_zip = \<lparr>zip_ai = 0, zip_ca = 0, zip_na = 0, zip_cq_ci = 0, zip_cqe_cnt = 0\<rparr>,
     rx_elts = [0x1000], rx_mp = 0x100, rx_stats = \<lparr>ipackets = 0, ibytes = 0, idropped = 0, rx_nombuf = 0\<rparr>,
     rx_mbuf_initializer = 0, rx_fake_mbuf = NULL, rx_queue_id = 0, rx_tunnel = 0\<rparr>"

definition demo_mlx5 :: mlx5_env where
  "demo_mlx5 = \<lparr>MLX5_CQE_OWNER_MASK = 1, MLX5_CQE_INVALID = 15, MLX5_CQE_RESP_ERR = 14, mlx5_rx_addr2mr = (\<lambda>_. 7)\<rparr>"

lemma demo_rxq_clean: "rx_clean demo_mlx5 (demo_rxq x)"
proof -
  have e: "k < 8 \<longleftrightarrow> k = 0 \<or> k = 1 \<or> k = 2 \<or> k = 3 \<or> k = 4 \<or> k = 5 \<or> k = 6 \<or> k = (7 :: nat)" for k by auto
  show ?thesis
    by (simp add: rx_clean_def demo_mlx5_def demo_rxq_def cqe_clean_def MLX5_CQE_OPCODE_def cqe_op_own_def cqe_byte_cnt_def
        mini_byte_cnt_def rd32_def rd16_def rte_constant_bswap32_def e all_conj_distrib imp_disjL del: imp_conv_disj)
qed

lemma demo_rx:
  obtains x st where "rx_ok ring_pool_inv ring_pool_bag ring_pool_cap [] (demo_rxq x) st" "slots_len (demo_rxq x) st"
    "fresh st (rx_mp (demo_rxq x)) []"
proof -
  let ?p = "demo_pool 0 (PoolRing 0x2000 pool_ring4) 0"
  have p: "pool_ok ring_pool_inv ?p" "pool_total ring_pool_bag ?p = {#}" "ring_pool_cap ?p = 3"
    by (simp_all add: pool_ok_def pool_total_def demo_ring_pool demo_caches_ok)
  obtain p' where p': "pool_ok ring_pool_inv p'" "ring_pool_cap p' = 3" "pool_total ring_pool_bag p' = {#0x2000#}"
    using ringpool.put_bulk_conserves [OF p(1), of "[0x2000]" 1] p(2,3) by auto
  obtain x0 where x0: "slices_ready x0" "x0 = (ex_mbuf 0x1000 2880)\<lparr>udata64 := udata64 x0\<rparr>"
    using slice_init_ready [of "ex_mbuf 0x1000 2880"] by blast
  obtain y where y: "slices_ready y" "y = (ex_mbuf 0x2000 0)\<lparr>udata64 := udata64 y\<rparr>"
    using slice_init_ready [of "ex_mbuf 0x2000 0"] by blast
  define x where "x = rte_pktmbuf_set_slice x0 0"
  have "calculateSlice_HF_haswell (rte_mbuf_data_iova x) = of_nat 0 \<and> data_off x \<le> 896"
    using set_slice_data [OF x0(1), of 0] by (simp add: x_def)
  moreover have "slices_ready x" using x0(1) by (simp add: x_def set_slice_keeps)
  moreover have "pool x0 = 0x100" "data_len x0 = 2880" by (subst x0(2), simp add: ex_mbuf_def)+
  then have "pool x = 0x100" "data_len x = 2880" by (simp_all add: x_def rte_pktmbuf_set_slice_def)
  moreover have "pool y = 0x100" by (subst y(2)) (simp add: ex_mbuf_def)
  moreover have "nxt x0 = NULL" "nb_segs x0 = 1" "nxt y = NULL" "nb_segs y = 1"
    by ((subst x0(2) | subst y(2)), simp add: ex_mbuf_def)+
  then have "nxt x = NULL" "nb_segs x = 1" "nxt y = NULL" "nb_segs y = 1" by (simp_all add: x_def rte_pktmbuf_set_slice_def)
  moreover define st where "st = ex_heap\<lparr>mbufs := [0x1000 \<mapsto> x, 0x2000 \<mapsto> y], pools := [0x100 \<mapsto> p']\<rparr>"
  ultimately have "rx_ok ring_pool_inv ring_pool_bag ring_pool_cap [] (demo_rxq x) st" "slots_len (demo_rxq x) st"
      "fresh st (rx_mp (demo_rxq x)) []"
    using p' y(1)
    by (auto simp: fresh_def rx_ok_def rx_shape_def demo_rxq_def slot_ok_def rx_owned_def rx_mbuf_ok_def slots_len_def coreNumber_def)
  then show ?thesis by (rule that)
qed

text \<open>
  C3: every packet CacheDirector receives lies in the slice of its queue. If the descriptors of a
  queue point at data in its slice and the buffers of the queue, the pool and the application are
  different buffers, then after any burst, whatever the completions say (errors, compressed
  sessions, an empty pool in the middle of a packet), the same holds. No buffer is lost or made up:
  the buffers in the queue, in the pool, in the packets returned and with the application are those
  that were in the queue, in the pool and with the application before. At most
  \<^verbatim>\<open>pkts_n\<close> packets are returned; \<open>cs\<close> has their segments, as the driver linked them from
  the head of each packet to its last one, and the data of every segment starts in the slice of the
  queue.
\<close>

theorem rx_burst_in_slice:
  assumes "rx_ok ring_pool_inv ring_pool_bag ring_pool_cap held rxq st"
    and "mlx5_rx_burst env ops_table lcore rxq pkts_n st = Some (st', rxq', pkts)"
  shows "\<exists>cs. rx_ok ring_pool_inv ring_pool_bag ring_pool_cap (concat cs @ held) rxq' st' \<and> rx_queue_id rxq' = rx_queue_id rxq \<and>
    rx_total ring_pool_bag rxq' (concat cs @ held) st' = rx_total ring_pool_bag rxq held st \<and> rx_total ring_pool_bag rxq held st \<noteq> None \<and>
    length pkts \<le> unat pkts_n \<and> list_all2 (rx_segs st') pkts cs \<and>
    (\<forall>m \<in> set (concat cs). \<exists>x. mbufs st' m = Some x \<and>
      calculateSlice_HF_haswell (rte_mbuf_data_iova x) = ucast (rx_queue_id rxq mod coreNumber) \<and> data_off x \<le> 896)"
proof -
  obtain tot where "rx_holds tot ring_pool_inv ring_pool_bag ring_pool_cap held rxq st" "rx_total ring_pool_bag rxq held st = Some tot"
    using assms(1) by (rule rx_ok_holds)
  with ringpool.rx_burst_safe [OF this(1) _ assms(2), of False] show ?thesis
    unfolding rx_result_def in_slice_def rx_holds_def by auto
qed

theorem rx_burst_in_slice_witness:
  "\<exists>rxq st st' rxq' pkts cs. mlx5_rx_burst demo_mlx5 ops_table 0 rxq 32 st = Some (st', rxq', pkts) \<and>
    rx_ok ring_pool_inv ring_pool_bag ring_pool_cap (concat cs) rxq' st' \<and> list_all2 (rx_segs st') pkts cs \<and>
    rx_total ring_pool_bag rxq' (concat cs) st' = rx_total ring_pool_bag rxq [] st"
proof -
  obtain x st where ok: "rx_ok ring_pool_inv ring_pool_bag ring_pool_cap [] (demo_rxq x) st" "slots_len (demo_rxq x) st"
    by (rule demo_rx)
  obtain st' rxq' pkts where b: "mlx5_rx_burst demo_mlx5 ops_table 0 (demo_rxq x) 32 st = Some (st', rxq', pkts)"
    using ring_burst_live [OF ok(1) demo_rxq_clean ok(2), of 0 32] by blast
  from rx_burst_in_slice [OF ok(1) b] obtain cs where
    "rx_ok ring_pool_inv ring_pool_bag ring_pool_cap (concat cs) rxq' st'" "list_all2 (rx_segs st') pkts cs"
    "rx_total ring_pool_bag rxq' (concat cs) st' = rx_total ring_pool_bag (demo_rxq x) [] st" by auto
  with b show ?thesis by blast
qed

text \<open>
  C8: a burst returns. When no completion reports an error and every buffer in the queue has room
  for data, the loop ends for every number of packets, also when completions are compressed or a
  packet needs more segments than the queue has.
\<close>

theorem rx_burst_returns:
  assumes "rx_ok ring_pool_inv ring_pool_bag ring_pool_cap held rxq st" "rx_clean env rxq" "slots_len rxq st"
  shows "\<exists>st' rxq' pkts segs. mlx5_rx_burst env ops_table lcore rxq pkts_n st = Some (st', rxq', pkts) \<and>
    rx_ok ring_pool_inv ring_pool_bag ring_pool_cap (segs @ held) rxq' st' \<and> set pkts \<subseteq> set segs \<and> length pkts \<le> unat pkts_n"
proof -
  obtain st' rxq' pkts tot where "mlx5_rx_burst env ops_table lcore rxq pkts_n st = Some (st', rxq', pkts)"
      "rx_result tot ring_pool_inv ring_pool_bag ring_pool_cap False (rx_queue_id rxq) held pkts_n st' rxq' pkts"
    using ring_burst_live [OF assms, of lcore pkts_n] by blast
  then show ?thesis unfolding rx_result_def rx_holds_def by (meson rx_segs_heads)
qed

theorem rx_burst_returns_witness:
  "\<exists>rxq st st' rxq' pkts. mlx5_rx_burst demo_mlx5 ops_table 0 rxq 4 st = Some (st', rxq', pkts) \<and> length pkts \<le> 4"
proof -
  obtain x st where ok: "rx_ok ring_pool_inv ring_pool_bag ring_pool_cap [] (demo_rxq x) st" "slots_len (demo_rxq x) st"
    by (rule demo_rx)
  from rx_burst_returns [OF ok(1) demo_rxq_clean ok(2), of 0 4] obtain st' rxq' pkts where
    "mlx5_rx_burst demo_mlx5 ops_table 0 (demo_rxq x) 4 st = Some (st', rxq', pkts)" "length pkts \<le> unat (4 :: u16)" by blast
  moreover from this(2) have "length pkts \<le> 4" by simp
  ultimately show ?thesis by blast
qed

text \<open>
  C7: every packet a burst returns is a well-formed chain. If the buffers of the pool that nobody
  uses are unlinked and count one segment, which is how the driver relies on finding them, then the
  packets of a burst are made of disjoint lists of buffers, each list is linked from the head of its
  packet to the end, the head has the number of its segments, and the sum of their data lengths is
  the packet length the completion gave, unless that is negative as a C integer. The buffers left to
  the pool and the queue are unlinked again, also after a packet dropped half-way.
\<close>

theorem rx_burst_packets:
  assumes "rx_ok ring_pool_inv ring_pool_bag ring_pool_cap held rxq st" "fresh st (rx_mp rxq) held"
    and "mlx5_rx_burst env ops_table lcore rxq pkts_n st = Some (st', rxq', pkts)"
  shows "\<exists>cs. list_all2 (rx_pkt st') pkts cs \<and> distinct (concat cs @ held) \<and> fresh st' (rx_mp rxq') (concat cs @ held) \<and>
    rx_ok ring_pool_inv ring_pool_bag ring_pool_cap (concat cs @ held) rxq' st' \<and> (\<forall>m \<in> set (concat cs). in_slice (rx_queue_id rxq) st' m)"
proof -
  obtain tot where "rx_holds tot ring_pool_inv ring_pool_bag ring_pool_cap held rxq st" using assms(1) by (rule rx_ok_holds)
  from ringpool.rx_burst_safe [OF this _ assms(3), of True] assms(2) obtain cs where
    cs: "rx_holds tot ring_pool_inv ring_pool_bag ring_pool_cap (concat cs @ held) rxq' st'" "fresh st' (rx_mp rxq') (concat cs @ held)"
      "list_all2 (rx_pkt st') pkts cs" "\<forall>m \<in> set (concat cs). in_slice (rx_queue_id rxq) st' m"
    unfolding rx_result_def by auto
  have "distinct (concat cs @ held)" using cs(1) by (rule rx_holds_distinct)
  with cs show ?thesis unfolding rx_holds_def by blast
qed

theorem rx_burst_packets_witness:
  "\<exists>rxq st st' rxq' pkts cs. mlx5_rx_burst demo_mlx5 ops_table 0 rxq 8 st = Some (st', rxq', pkts) \<and>
    list_all2 (rx_pkt st') pkts cs \<and> fresh st' (rx_mp rxq') (concat cs)"
proof -
  obtain x st where ok: "rx_ok ring_pool_inv ring_pool_bag ring_pool_cap [] (demo_rxq x) st" "slots_len (demo_rxq x) st"
      "fresh st (rx_mp (demo_rxq x)) []"
    by (rule demo_rx)
  obtain st' rxq' pkts where b: "mlx5_rx_burst demo_mlx5 ops_table 0 (demo_rxq x) 8 st = Some (st', rxq', pkts)"
    using ring_burst_live [OF ok(1) demo_rxq_clean ok(2), of 0 8] by blast
  from rx_burst_packets [OF ok(1,3) b] obtain cs where
    "list_all2 (rx_pkt st') pkts cs" "fresh st' (rx_mp rxq') (concat cs)" by auto
  with b show ?thesis by blast
qed

section \<open>The size in the descriptor\<close>

text \<open>
  C22: the byte count of a descriptor is not adapted to the new buffer. If the buffer in a slot was
  offered to the hardware up to its end, and the replacement buffer of the same size starts its
  data later, because the first line of the slice lies further in, the descriptor of the slot
  reaches beyond the end of the replacement buffer.
\<close>

theorem rx_replace_overrun:
  assumes r: "rx_replace env idx e rep rxq st = Some (st', rxq')" and e: "mbufs st e = Some s" and p: "mbufs st rep = Some r"
    and cnt: "rte_be_to_cpu_32 (wqe_byte_count (rx_wqes rxq ! idx)) = ucast (data_len s)"
    and full: "unat (data_off s) + unat (data_len s) = unat (buf_len s)" "buf_len r = buf_len s"
    and later: "data_off s < data_off (rte_pktmbuf_set_slice r (slice_number rxq))"
  shows "\<exists>x. mbufs st' rep = Some x \<and>
    unat (buf_len x) < unat (data_off x) + unat (rte_be_to_cpu_32 (wqe_byte_count (rx_wqes rxq' ! idx)))"
proof -
  have sn: "slice_number (rxq\<lparr>rx_elts := es\<rparr>) = slice_number rxq" for es by (simp add: slice_number_def)
  define r1 where "r1 = r\<lparr>data_len := data_len s, pkt_len := pkt_len s, data_off := data_off s, port := port s\<rparr>"
  have off: "data_off (rte_pktmbuf_set_slice r1 (slice_number rxq)) = data_off (rte_pktmbuf_set_slice r (slice_number rxq))"
    by (simp add: rte_pktmbuf_set_slice_def r1_def)
  have bl: "buf_len (rte_pktmbuf_set_slice r1 (slice_number rxq)) = buf_len s"
    using full(2) by (simp add: rte_pktmbuf_set_slice_def r1_def)
  have st': "mbufs st' rep = Some (rte_pktmbuf_set_slice r1 (slice_number rxq))"
      "wqe_byte_count (rx_wqes rxq' ! idx) = wqe_byte_count (rx_wqes rxq ! idx)"
    using r e p by (auto simp: rx_replace_def with_mbuf_def nth_opt_def sn r1_def Let_def split: bind_splits if_splits)
  have "unat (rte_be_to_cpu_32 (wqe_byte_count (rx_wqes rxq ! idx))) = unat (data_len s)" unfolding cnt by simp
  then show ?thesis using st' off bl later full(1) by (simp add: word_less_nat_alt)
qed

text \<open>Both buffers have valid slice offsets: the first starts in slice 0, the second does not.\<close>

theorem rx_replace_overrun_witness:
  "\<exists>rxq st st' rxq' x. rx_replace demo_mlx5 0 0x1000 0x2000 rxq st = Some (st', rxq') \<and> mbufs st' 0x2000 = Some x \<and> slices_ready x \<and>
    unat (buf_len x) < unat (data_off x) + unat (rte_be_to_cpu_32 (wqe_byte_count (rx_wqes rxq' ! 0)))"
proof -
  let ?s = "(ex_mbuf 0x1000 2880)\<lparr>data_off := 0\<rparr>"
  obtain r where r: "slices_ready r" "r = (ex_mbuf 0x2000 0)\<lparr>buf_iova := 64, udata64 := udata64 r\<rparr>"
    using slice_init_ready [of "(ex_mbuf 0x2000 0)\<lparr>buf_iova := 64\<rparr>"] by auto
  have rf: "buf_iova r = 64" "buf_len r = 2880" by (subst r(2), simp add: ex_mbuf_def)+
  let ?st = "ex_heap\<lparr>mbufs := [0x1000 \<mapsto> ?s, 0x2000 \<mapsto> r]\<rparr>"
  let ?rxq = "demo_rxq ?s"
  have sn: "slice_number ?rxq = 0" by (simp add: slice_number_def demo_rxq_def coreNumber_def)
  obtain st' rxq' where b: "rx_replace demo_mlx5 0 0x1000 0x2000 ?rxq ?st = Some (st', rxq')"
    by (simp add: rx_replace_def with_mbuf_def nth_opt_def demo_rxq_def Let_def)
  have "calculateSlice_HF_haswell (rte_mbuf_data_iova (rte_pktmbuf_set_slice r 0)) = 0"
    using set_slice_data [OF r(1), of 0] by simp
  moreover have "rte_mbuf_data_iova (rte_pktmbuf_set_slice r 0) = 64 + ucast (data_off (rte_pktmbuf_set_slice r 0))"
    using rf by (simp add: rte_mbuf_data_iova_def rte_pktmbuf_set_slice_def)
  moreover have "calculateSlice_HF_haswell 64 \<noteq> 0" by (simp add: slice_eval)
  ultimately have "data_off (rte_pktmbuf_set_slice r 0) \<noteq> 0" by auto
  then have later: "data_off ?s < data_off (rte_pktmbuf_set_slice r (slice_number ?rxq))" by (simp add: sn word_gt_0)
  have cnt: "rte_be_to_cpu_32 (wqe_byte_count (rx_wqes ?rxq ! 0)) = ucast (data_len ?s)"
    by (simp add: demo_rxq_def ex_mbuf_def) code_simp
  have full: "unat (data_off ?s) + unat (data_len ?s) = unat (buf_len ?s)" "buf_len r = buf_len ?s"
    using rf by (simp_all add: ex_mbuf_def)
  have m: "mbufs ?st 0x1000 = Some ?s" "mbufs ?st 0x2000 = Some r" by simp_all
  obtain x where x: "mbufs st' 0x2000 = Some x"
      "unat (buf_len x) < unat (data_off x) + unat (rte_be_to_cpu_32 (wqe_byte_count (rx_wqes rxq' ! 0)))"
    using rx_replace_overrun [OF b m cnt full later] by auto
  have "slices_ready x"
  proof -
    have "buf_iova x = buf_iova r" "udata64 x = udata64 r"
      using b x(1) by (auto simp: rx_replace_def with_mbuf_def nth_opt_def rte_pktmbuf_set_slice_def Let_def split: bind_splits if_splits)
    then show ?thesis using r(1) slices_ready_cong by metis
  qed
  with b x show ?thesis by blast
qed

end
