(* ===== verification/Mlx5Rxq.thy ===== *)
theory Mlx5Rxq
  imports Mlx5RxInv
begin

text \<open>
  Setting up and tearing down the buffers of a receive queue, \<^verbatim>\<open>mlx5_rxq.c\<close>: a queue starts
  with a buffer in every slot, placed in the slice of the queue, and descriptors for them; an
  allocation that fails gives everything back. The vectorized receive functions have their own way
  to refill a queue.
\<close>

section \<open>Modes of a queue\<close>

text \<open>The configuration of a device; the logarithm of the number of strides of each queue, if it exists.\<close>

record mlx5_dev =
  mprq_cfg_enabled :: bool
  mprq_min_rxqs_num :: u32
  rx_vec_en :: bool
  rxqs_strd_num_n :: "nat option list"
  rxqs_n :: u32

definition mlx5_check_mprq_support :: "mlx5_dev \<Rightarrow> int" where
  "mlx5_check_mprq_support dev =
     (if mprq_cfg_enabled dev \<and> rxqs_n dev \<ge> mprq_min_rxqs_num dev then 1 else - errno_code ENOTSUP)"

definition mlx5_rxq_mprq_enabled :: "nat \<Rightarrow> bool" where
  "mlx5_rxq_mprq_enabled strd_num_n \<longleftrightarrow> strd_num_n > 0"

fun count_mprq :: "nat option list \<Rightarrow> u16 \<Rightarrow> u16" where
  "count_mprq [] n = n"
| "count_mprq (None # qs) n = count_mprq qs n"
| "count_mprq (Some s # qs) n = count_mprq qs (if mlx5_rxq_mprq_enabled s then n + 1 else n)"

definition mlx5_mprq_enabled :: "mlx5_dev \<Rightarrow> bool" where
  "mlx5_mprq_enabled dev \<longleftrightarrow>
     (if mlx5_check_mprq_support dev < 0 then False
      else (ucast (count_mprq (rxqs_strd_num_n dev) 0) :: u32) = rxqs_n dev)"

definition mlx5_rxq_check_vec_support :: "mlx5_dev \<Rightarrow> mlx5_rxq_data \<Rightarrow> int" where
  "mlx5_rxq_check_vec_support dev rxq =
     (if mlx5_mprq_enabled dev then - errno_code ENOTSUP
      else if \<not> rx_vec_en dev \<or> rx_sges_n rxq \<noteq> 0 then - errno_code ENOTSUP
      else 1)"

section \<open>Allocation\<close>

definition MLX5_VPMD_DESCS_PER_LOOP :: nat where
  "MLX5_VPMD_DESCS_PER_LOOP = 4"

text \<open>What \<^verbatim>\<open>rxq_alloc_elts_sprq\<close> does to the buffer it has taken for slot \<open>i\<close>.\<close>

definition sprq_place :: "nat \<Rightarrow> mlx5_rxq_data \<Rightarrow> addr \<Rightarrow> mbuf_heap \<Rightarrow> mbuf_heap option" where
  "sprq_place i rxq buf st = do {
     st \<leftarrow> (if i mod 2 ^ rx_sges_n rxq \<noteq> 0 then with_mbuf buf (\<lambda>x. x\<lparr>data_off := 0\<rparr>) st else Some st);
     x \<leftarrow> mbufs st buf;
     off \<leftarrow> sliceFinder_HF_haswell (buf_iova x) (word_of_int (slice_number rxq));
     with_mbuf buf (\<lambda>x.
       (let x = x\<lparr>data_off := off\<rparr>;
            x = x\<lparr>port := rx_port_id rxq\<rparr>;
            x = x\<lparr>data_len := rte_pktmbuf_tailroom x\<rparr>;
            x = x\<lparr>pkt_len := ucast (data_len x)\<rparr>
        in x\<lparr>nb_segs := 1\<rparr>)) st }"

text \<open>
  The loop from slot \<open>i\<close> on, with \<open>n\<close> slots left: the slot it stopped at, and whether all
  slots were filled.
\<close>

fun sprq_fill ::
  "rte_mempool_ops list \<Rightarrow> nat \<Rightarrow> nat \<Rightarrow> nat \<Rightarrow> mlx5_rxq_data \<Rightarrow> mbuf_heap \<Rightarrow> (mbuf_heap \<times> mlx5_rxq_data \<times> nat \<times> bool) option" where
  "sprq_fill tbl lcore i 0 rxq st = Some (st, rxq, i, True)"
| "sprq_fill tbl lcore i (Suc n) rxq st = do {
     (st, buf) \<leftarrow> rte_pktmbuf_alloc tbl lcore (rx_mp rxq) st;
     if buf = NULL then Some (st, rxq, i, False)
     else do {
       st \<leftarrow> sprq_place i rxq buf st;
       if i < length (rx_elts rxq)
       then sprq_fill tbl lcore (i + 1) n (rxq\<lparr>rx_elts := (rx_elts rxq)[i := buf]\<rparr>) st
       else None } }"

text \<open>Freeing the buffers of the slots from \<open>i\<close> on.\<close>

fun free_slots ::
  "rte_mempool_ops list \<Rightarrow> nat \<Rightarrow> nat \<Rightarrow> nat \<Rightarrow> mlx5_rxq_data \<Rightarrow> mbuf_heap \<Rightarrow> (mbuf_heap \<times> mlx5_rxq_data) option" where
  "free_slots tbl lcore i 0 rxq st = Some (st, rxq)"
| "free_slots tbl lcore i (Suc n) rxq st = do {
     m \<leftarrow> nth_opt (rx_elts rxq) i;
     st \<leftarrow> (if m \<noteq> NULL then rte_pktmbuf_free_seg tbl lcore m st else Some st);
     free_slots tbl lcore (i + 1) n (rxq\<lparr>rx_elts := (rx_elts rxq)[i := NULL]\<rparr>) st }"

text \<open>The 64-bit word at \<^verbatim>\<open>rearm_data\<close>: data offset, reference count, segments and port.\<close>

definition rearm_data :: "rte_mbuf \<Rightarrow> u64" where
  "rearm_data x = ucast (data_off x) OR push_bit 16 (ucast (refcnt x)) OR
     push_bit 32 (ucast (nb_segs x)) OR push_bit 48 (ucast (port x))"

definition vec_padding :: "mlx5_rxq_data \<Rightarrow> mbuf_heap \<Rightarrow> (mbuf_heap \<times> mlx5_rxq_data) option" where
  "vec_padding rxq st = do {
     st \<leftarrow> with_mbuf (rx_fake_mbuf rxq)
       (\<lambda>x. x\<lparr>data_off := RTE_PKTMBUF_HEADROOM, refcnt := 1, nb_segs := 1, port := rx_port_id rxq\<rparr>) st;
     x \<leftarrow> mbufs st (rx_fake_mbuf rxq);
     (let n = 2 ^ rx_elts_n rxq in
      if n + MLX5_VPMD_DESCS_PER_LOOP \<le> length (rx_elts rxq)
      then Some (st, rxq\<lparr>rx_mbuf_initializer := rearm_data x,
             rx_elts := fold (\<lambda>j es. es[n + j := rx_fake_mbuf rxq]) [0..<MLX5_VPMD_DESCS_PER_LOOP] (rx_elts rxq)\<rparr>)
      else None) }"

definition rxq_alloc_elts_sprq ::
  "mlx5_dev \<Rightarrow> rte_mempool_ops list \<Rightarrow> nat \<Rightarrow> mlx5_rxq_data \<Rightarrow> mbuf_heap \<Rightarrow> (mbuf_heap \<times> mlx5_rxq_data \<times> int) option" where
  "rxq_alloc_elts_sprq dev tbl lcore rxq st = do {
     (st, rxq, i, ok) \<leftarrow> sprq_fill tbl lcore 0 (2 ^ rx_elts_n rxq) rxq st;
     if ok then do {
       (st, rxq) \<leftarrow> (if mlx5_rxq_check_vec_support dev rxq > 0 then vec_padding rxq st else Some (st, rxq));
       Some (st, rxq, 0) }
     else do {
       (st, rxq) \<leftarrow> free_slots tbl lcore 0 i rxq st;
       Some (st, rxq, - errno_code ENOMEM) } }"

text \<open>
  \<^verbatim>\<open>rxq_free_elts_sprq\<close>: the slots whose buffers the application has are forgotten first.
\<close>

definition rxq_free_elts_sprq ::
  "mlx5_dev \<Rightarrow> rte_mempool_ops list \<Rightarrow> nat \<Rightarrow> mlx5_rxq_data \<Rightarrow> mbuf_heap \<Rightarrow> (mbuf_heap \<times> mlx5_rxq_data) option" where
  "rxq_free_elts_sprq dev tbl lcore rxq st =
     (let q_n = 2 ^ rx_elts_n rxq :: u16;
          q_mask = q_n - 1;
          used = q_n - ucast (rq_ci rxq - rq_pi rxq);
          rxq = (if mlx5_rxq_check_vec_support dev rxq > 0
                 then rxq\<lparr>rx_elts := fold (\<lambda>i es. es[unat ((rq_ci rxq + of_nat i) AND ucast q_mask) := NULL])
                                       [0..<unat used] (rx_elts rxq),
                          rq_pi := rq_ci rxq\<rparr>
                 else rxq)
      in free_slots tbl lcore 0 (2 ^ rx_elts_n rxq) rxq st)"

section \<open>Descriptors\<close>

text \<open>The part of \<^verbatim>\<open>mlx5_rxq_ibv_new\<close> that fills the ring for single-packet queues.\<close>

fun fill_descs :: "mlx5_env \<Rightarrow> nat \<Rightarrow> nat \<Rightarrow> mbuf_heap \<Rightarrow> mlx5_rxq_data \<Rightarrow> mlx5_rxq_data option" where
  "fill_descs env i 0 st rxq = Some rxq"
| "fill_descs env i (Suc n) st rxq = do {
     m \<leftarrow> nth_opt (rx_elts rxq) i;
     x \<leftarrow> mbufs st m;
     (let a = rte_pktmbuf_mtod_offset x 0;
          w = \<lparr>wqe_byte_count = rte_cpu_to_be_32 (ucast (data_len x)), wqe_lkey = mlx5_rx_addr2mr env a,
               wqe_addr = rte_cpu_to_be_64 a\<rparr>
      in if i < length (rx_wqes rxq)
         then fill_descs env (i + 1) n st (rxq\<lparr>rx_wqes := (rx_wqes rxq)[i := w]\<rparr>)
         else None) }"

text \<open>The completion ring the hardware provides has \<open>2 ^ cqe_n\<close> entries.\<close>

definition fill_ring :: "mlx5_env \<Rightarrow> mlx5_cqe list \<Rightarrow> nat \<Rightarrow> mbuf_heap \<Rightarrow> mlx5_rxq_data \<Rightarrow> mlx5_rxq_data option" where
  "fill_ring env cqes cqe_n st rxq = do {
     rxq \<leftarrow> fill_descs env 0 (2 ^ rx_elts_n rxq) st rxq;
     (let ci = drop_bit (rx_sges_n rxq) (2 ^ rx_elts_n rxq) :: u32
      in Some (rxq\<lparr>rx_cqe_n := cqe_n, cq_ci := 0, rq_pi := 0,
           rx_zip := \<lparr>zip_ai = 0, zip_ca = 0, zip_na = 0, zip_cq_ci = 0, zip_cqe_cnt = 0\<rparr>, rx_cqes := cqes,
           rq_ci := ci, rq_db := rte_cpu_to_be_32 ci\<rparr>)) }"

section \<open>Refilling a vectorized queue\<close>

text \<open>
  \<^verbatim>\<open>mlx5_rx_replenish_bulk_mbuf\<close>: the buffers are taken in bulk, straight into the slots, and
  the descriptors point at the default headroom.
\<close>

fun refill_descs :: "mlx5_env \<Rightarrow> nat \<Rightarrow> addr list \<Rightarrow> mbuf_heap \<Rightarrow> mlx5_rxq_data \<Rightarrow> mlx5_rxq_data option" where
  "refill_descs env k [] st rxq = Some rxq"
| "refill_descs env k (m # ms) st rxq = do {
     x \<leftarrow> mbufs st m;
     w \<leftarrow> nth_opt (rx_wqes rxq) k;
     (let w = w\<lparr>wqe_addr := rte_cpu_to_be_64 (buf_addr x + ucast RTE_PKTMBUF_HEADROOM)\<rparr>;
          w = (if uint (rx_mr_len rxq) - 1 > 1 then w\<lparr>wqe_lkey := mlx5_rx_addr2mr env (buf_addr x)\<rparr> else w)
      in refill_descs env (k + 1) ms st (rxq\<lparr>rx_wqes := (rx_wqes rxq)[k := w]\<rparr>)) }"

definition mlx5_rx_replenish_bulk_mbuf ::
  "mlx5_env \<Rightarrow> rte_mempool_ops list \<Rightarrow> nat \<Rightarrow> mlx5_rxq_data \<Rightarrow> u16 \<Rightarrow> mbuf_heap \<Rightarrow> (mbuf_heap \<times> mlx5_rxq_data) option" where
  "mlx5_rx_replenish_bulk_mbuf env tbl lcore rxq n st =
     (let q_n = 2 ^ rx_elts_n rxq :: u16;
          q_mask = q_n - 1;
          k = unat (ucast (rq_ci rxq) AND q_mask);
          n' = word_of_int (min (uint n - int MLX5_VPMD_DESCS_PER_LOOP) (uint q_n - int k)) :: u16 in do {
        p \<leftarrow> pools st (rx_mp rxq);
        (p, ms, ret) \<leftarrow> rte_mempool_get_bulk tbl lcore p (ucast n');
        st \<leftarrow> Some (st\<lparr>pools := (pools st)(rx_mp rxq \<mapsto> p)\<rparr>);
        if ret < 0 then
          Some (st, rxq\<lparr>rx_stats := (rx_stats rxq)\<lparr>rx_nombuf := rx_nombuf (rx_stats rxq) + ucast n'\<rparr>\<rparr>)
        else if k + length ms \<le> length (rx_elts rxq) then do {
          rxq \<leftarrow> Some (rxq\<lparr>rx_elts := take k (rx_elts rxq) @ ms @ drop (k + length ms) (rx_elts rxq)\<rparr>);
          rxq \<leftarrow> refill_descs env k ms st rxq;
          (let ci = rq_ci rxq + ucast n';
               k = unat (ucast ci AND q_mask)
           in if k + MLX5_VPMD_DESCS_PER_LOOP \<le> length (rx_elts rxq)
              then Some (st, rxq\<lparr>rq_ci := ci,
                     rx_elts := fold (\<lambda>i es. es[k + i := rx_fake_mbuf rxq]) [0..<MLX5_VPMD_DESCS_PER_LOOP] (rx_elts rxq),
                     rq_db := rte_cpu_to_be_32 ci\<rparr>)
              else None) }
        else None })"

section \<open>Lemmas\<close>

text \<open>A buffer the queue may own: of its pool, with valid slice offsets and one reference.\<close>

definition elt_ok :: "mbuf_heap \<Rightarrow> addr \<Rightarrow> addr \<Rightarrow> bool" where
  "elt_ok st mpa m \<longleftrightarrow> m \<noteq> NULL \<and> (\<exists>x. mbufs st m = Some x \<and> slices_ready x \<and> pool x = mpa \<and> refcnt x = 1)"

text \<open>A buffer placed in the slice of the queue and offered up to its end.\<close>

definition placed :: "mbuf_heap \<Rightarrow> mlx5_rxq_data \<Rightarrow> addr \<Rightarrow> bool" where
  "placed st rxq m \<longleftrightarrow> (\<exists>x. mbufs st m = Some x \<and> sole_owner (rx_mp rxq) x \<and>
     calculateSlice_HF_haswell (rte_mbuf_data_iova x) = ucast (rx_queue_id rxq mod coreNumber) \<and>
     data_off x \<le> 896 \<and> data_len x = buf_len x - data_off x)"

definition sprq_inv ::
  "(rte_mempool \<Rightarrow> bool) \<Rightarrow> (rte_mempool \<Rightarrow> addr multiset) \<Rightarrow> (rte_mempool \<Rightarrow> nat) \<Rightarrow> addr multiset \<Rightarrow>
    nat \<Rightarrow> mlx5_rxq_data \<Rightarrow> mbuf_heap \<Rightarrow> bool" where
  "sprq_inv pinv bag cap all i rxq st \<longleftrightarrow> i \<le> length (rx_elts rxq) \<and>
     (\<exists>p. pools st (rx_mp rxq) = Some p \<and> pool_ok pinv p \<and> pool_total bag p + mset (take i (rx_elts rxq)) = all \<and> size all \<le> cap p) \<and>
     (\<forall>m. count all m \<le> 1) \<and> (\<forall>m \<in># all. elt_ok st (rx_mp rxq) m) \<and> (\<forall>k < i. placed st rxq (rx_elts rxq ! k))"

lemma sprq_place_ok:
  assumes b: "mbufs st m = Some x" and x: "slices_ready x" "pool x = rx_mp rxq" "refcnt x = 1" "ol_flags x = 0" "data_len x = 0"
  obtains y where "sprq_place i rxq m st = Some (st\<lparr>mbufs := (mbufs st)(m \<mapsto> y)\<rparr>)" "slices_ready y" "pool y = rx_mp rxq" "refcnt y = 1"
    "placed (st\<lparr>mbufs := (mbufs st)(m \<mapsto> y)\<rparr>) rxq m"
proof -
  obtain k where k: "k < 8" "slice_number rxq = int k" "of_nat k = (ucast (rx_queue_id rxq mod coreNumber) :: u8)"
    using slice_number_nat by blast
  have s8: "(of_nat k :: u8) < 8" using k(1) by (simp add: word_less_nat_alt unat_of_nat_small)
  obtain off where off: "sliceFinder_HF_haswell (buf_iova x) (of_nat k) = Some off" "off \<le> 896"
      "calculateSlice_HF_haswell (buf_iova x + ucast off) = of_nat k"
    using sliceFinder_first [OF s8, of "buf_iova x"] by blast
  define y where "y = (let x = x\<lparr>data_off := off\<rparr>; x = x\<lparr>port := rx_port_id rxq\<rparr>;
              x = x\<lparr>data_len := rte_pktmbuf_tailroom x\<rparr>;
              x = x\<lparr>pkt_len := ucast (data_len x)\<rparr>
          in x\<lparr>nb_segs := 1\<rparr>)"
  have y: "buf_iova y = buf_iova x" "udata64 y = udata64 x" "pool y = pool x" "refcnt y = refcnt x" "ol_flags y = 0"
      "data_off y = off" "buf_len y = buf_len x" "data_len y = buf_len x - off"
    using x by (simp_all add: y_def rte_pktmbuf_tailroom_def rte_pktmbuf_headroom_def Let_def)
  have w: "word_of_int (int k) = (of_nat k :: u8)" by simp
  have "slices_ready y" using x(1) slices_ready_cong [OF y(1,2)] by simp
  moreover have "placed (st\<lparr>mbufs := (mbufs st)(m \<mapsto> y)\<rparr>) rxq m"
    using y off k(3) x by (simp add: placed_def sole_owner_def RTE_MBUF_DIRECT_def rte_mbuf_data_iova_def)
  moreover have "sprq_place i rxq m st = Some (st\<lparr>mbufs := (mbufs st)(m \<mapsto> y)\<rparr>)"
    using b off(1) by (simp add: sprq_place_def with_mbuf_def k(2) w y_def Let_def)
  ultimately show ?thesis using y(3,4) x(2,3) that by simp
qed

lemma elt_ok_pools [simp]: "elt_ok (st\<lparr>pools := ps\<rparr>) = elt_ok st"
  by (simp add: elt_ok_def fun_eq_iff)

lemma placed_pools [simp]: "placed (st\<lparr>pools := ps\<rparr>) = placed st"
  by (simp add: placed_def fun_eq_iff)

lemma placed_elts [simp]: "placed st (rxq\<lparr>rx_elts := es\<rparr>) = placed st rxq"
  by (simp add: placed_def fun_eq_iff)

context mempool_driver
begin

lemma fill_step:
  assumes "sprq_inv pinv bag cap all i rxq st"
  shows "\<exists>st' m. rte_pktmbuf_alloc tbl lcore (rx_mp rxq) st = Some (st', m) \<and>
    (if m = NULL then sprq_inv pinv bag cap all i rxq st'
     else i < length (rx_elts rxq) \<longrightarrow> (\<exists>st''. sprq_place i rxq m st' = Some st'' \<and>
       sprq_inv pinv bag cap all (i + 1) (rxq\<lparr>rx_elts := (rx_elts rxq)[i := m]\<rparr>) st''))"
proof -
  obtain p where i: "i \<le> length (rx_elts rxq)" and p: "pools st (rx_mp rxq) = Some p" "pool_ok pinv p"
      "pool_total bag p + mset (take i (rx_elts rxq)) = all" "size all \<le> cap p"
    and d: "\<forall>m. count all m \<le> 1" and e: "\<forall>m \<in># all. elt_ok st (rx_mp rxq) m" and pl: "\<forall>k < i. placed st rxq (rx_elts rxq ! k)"
    using assms unfolding sprq_inv_def by blast
  obtain p' objs s where g: "rte_mempool_get_bulk tbl lcore p 1 = Some (p', objs, s)" "pool_ok pinv p'" "cap p' = cap p"
      "pool_total bag p = pool_total bag p' + mset objs" "s = 0 \<longrightarrow> length objs = 1" "s \<noteq> 0 \<longrightarrow> s < 0 \<and> objs = []"
    using get_bulk_conserves [OF p(2), of lcore 1] by auto
  let ?st = "st\<lparr>pools := (pools st)(rx_mp rxq \<mapsto> p')\<rparr>"
  show ?thesis
  proof (cases "s = 0")
    case False
    then have "s < 0" "objs = []" using g(6) by auto
    then have "rte_pktmbuf_alloc tbl lcore (rx_mp rxq) st = Some (?st, NULL)"
      using p(1) g(1) by (simp add: rte_pktmbuf_alloc_def rte_mbuf_raw_alloc_def rte_mempool_get_def)
    moreover have "sprq_inv pinv bag cap all i rxq ?st"
      using i p g(2-4) d e pl \<open>objs = []\<close> by (simp add: sprq_inv_def)
    ultimately show ?thesis by (intro exI [of _ ?st] exI [of _ NULL]) simp
  next
    case True
    then obtain m where m: "objs = [m]" using g(5) by (auto simp: length_Suc_conv)
    then have ma: "m \<in># all" using g(4) p(3) by auto
    then obtain x where x: "m \<noteq> NULL" "mbufs st m = Some x" "slices_ready x" "pool x = rx_mp rxq" "refcnt x = 1"
      using e by (auto simp: elt_ok_def)
    let ?x = "rte_pktmbuf_reset x"
    let ?st1 = "?st\<lparr>mbufs := (mbufs st)(m \<mapsto> ?x)\<rparr>"
    have al: "rte_pktmbuf_alloc tbl lcore (rx_mp rxq) st = Some (?st1, m)"
      using x p(1) g(1) True m by (simp add: rte_pktmbuf_alloc_def rte_mbuf_raw_alloc_def rte_mempool_get_def with_mbuf_def)
    have x1: "slices_ready ?x" "pool ?x = rx_mp rxq" "refcnt ?x = 1" "ol_flags ?x = 0" "data_len ?x = 0"
      using x reset_keeps_slices(1) [of x] by (simp_all add: rte_pktmbuf_reset_def rte_pktmbuf_reset_headroom_def Let_def)
    obtain y where y: "sprq_place i rxq m ?st1 = Some (?st1\<lparr>mbufs := (mbufs ?st1)(m \<mapsto> y)\<rparr>)" "slices_ready y" "pool y = rx_mp rxq" "refcnt y = 1"
        "placed (?st1\<lparr>mbufs := (mbufs ?st1)(m \<mapsto> y)\<rparr>) rxq m"
      using sprq_place_ok [of ?st1 m ?x rxq i] x1 by auto
    let ?st2 = "?st1\<lparr>mbufs := (mbufs ?st1)(m \<mapsto> y)\<rparr>"
    let ?rxq = "rxq\<lparr>rx_elts := (rx_elts rxq)[i := m]\<rparr>"
    have "sprq_inv pinv bag cap all (i + 1) ?rxq ?st2" if il: "i < length (rx_elts rxq)"
    proof -
      have "take (i + 1) (rx_elts ?rxq) = take i (rx_elts rxq) @ [m]" using il by (simp add: take_Suc_conv_app_nth)
      then have tot: "pool_total bag p' + mset (take (i + 1) (rx_elts ?rxq)) = all" using g(4) m p(3) by (simp add: ac_simps)
      have other: "rx_elts rxq ! k \<noteq> m" if "k < i" for k
      proof -
        have "rx_elts rxq ! k \<in> set (take i (rx_elts rxq))" using that i by (metis in_set_conv_nth length_take min.absorb2 nth_take)
        moreover have "count (mset (take i (rx_elts rxq))) m = 0" using d [rule_format, of m] p(3) g(4) m by auto
        ultimately show ?thesis by (auto simp: count_eq_zero_iff)
      qed
      have "elt_ok ?st2 (rx_mp rxq) a" if "elt_ok st (rx_mp rxq) a" for a
        using that y x(1) by (auto simp: elt_ok_def)
      moreover have "placed ?st2 rxq (rx_elts ?rxq ! k)" if k: "k < i + 1" for k
      proof (cases "k = i")
        case True
        then show ?thesis using y(5) il by simp
      next
        case False
        then have "k < i" using k by simp
        then show ?thesis using pl other [of k] False by (simp add: placed_def)
      qed
      ultimately show ?thesis using il p(1,4) g(2,3) d e tot by (simp add: sprq_inv_def)
    qed
    with al y(1) x(1) show ?thesis by (intro exI [of _ ?st1] exI [of _ m]) simp
  qed
qed

lemma sprq_fill_ok:
  "sprq_inv pinv bag cap all i rxq st \<Longrightarrow> i + n \<le> length (rx_elts rxq) \<Longrightarrow>
    \<exists>st' es j ok. sprq_fill tbl lcore i n rxq st = Some (st', rxq\<lparr>rx_elts := es\<rparr>, j, ok) \<and> length es = length (rx_elts rxq) \<and>
      sprq_inv pinv bag cap all j (rxq\<lparr>rx_elts := es\<rparr>) st' \<and> (ok \<longrightarrow> j = i + n)"
proof (induction n arbitrary: i rxq st)
  case 0
  then show ?case by (intro exI [of _ st] exI [of _ "rx_elts rxq"] exI [of _ i] exI [of _ True]) simp
next
  case (Suc n)
  obtain st' m where a: "rte_pktmbuf_alloc tbl lcore (rx_mp rxq) st = Some (st', m)"
    "if m = NULL then sprq_inv pinv bag cap all i rxq st'
     else i < length (rx_elts rxq) \<longrightarrow> (\<exists>st''. sprq_place i rxq m st' = Some st'' \<and>
       sprq_inv pinv bag cap all (i + 1) (rxq\<lparr>rx_elts := (rx_elts rxq)[i := m]\<rparr>) st'')"
    using fill_step [OF Suc.prems(1)] by blast
  show ?case
  proof (cases "m = NULL")
    case True
    with a show ?thesis by (intro exI [of _ st'] exI [of _ "rx_elts rxq"] exI [of _ i] exI [of _ False]) simp
  next
    case False
    then obtain st'' where st'': "sprq_place i rxq m st' = Some st''"
        "sprq_inv pinv bag cap all (i + 1) (rxq\<lparr>rx_elts := (rx_elts rxq)[i := m]\<rparr>) st''" using a(2) Suc.prems(2) by auto
    from Suc.IH [OF st''(2)] Suc.prems(2) obtain st3 es j ok where
      "sprq_fill tbl lcore (i + 1) n (rxq\<lparr>rx_elts := (rx_elts rxq)[i := m]\<rparr>) st'' = Some (st3, rxq\<lparr>rx_elts := es\<rparr>, j, ok)"
      "length es = length (rx_elts rxq)" "sprq_inv pinv bag cap all j (rxq\<lparr>rx_elts := es\<rparr>) st3" "ok \<longrightarrow> j = i + 1 + n" by auto
    with False a(1) st''(1) Suc.prems(2) show ?thesis
      by (intro exI [of _ st3] exI [of _ es] exI [of _ j] exI [of _ ok]) simp
  qed
qed

end

text \<open>The slots from \<open>i\<close> to \<open>j\<close> still hold buffers, everything else is in the pool.\<close>

definition drain_inv ::
  "(rte_mempool \<Rightarrow> bool) \<Rightarrow> (rte_mempool \<Rightarrow> addr multiset) \<Rightarrow> (rte_mempool \<Rightarrow> nat) \<Rightarrow> addr multiset \<Rightarrow>
    nat \<Rightarrow> nat \<Rightarrow> mlx5_rxq_data \<Rightarrow> mbuf_heap \<Rightarrow> bool" where
  "drain_inv pinv bag cap all i j rxq st \<longleftrightarrow> i \<le> j \<and> j \<le> length (rx_elts rxq) \<and>
     (\<exists>p. pools st (rx_mp rxq) = Some p \<and> pool_ok pinv p \<and> pool_total bag p + mset (take (j - i) (drop i (rx_elts rxq))) = all \<and>
       size all \<le> cap p) \<and>
     (\<forall>m. count all m \<le> 1) \<and> (\<forall>m \<in># all. elt_ok st (rx_mp rxq) m) \<and>
     (\<forall>k. i \<le> k \<and> k < j \<longrightarrow> (\<exists>x. mbufs st (rx_elts rxq ! k) = Some x \<and> sole_owner (rx_mp rxq) x)) \<and>
     (\<forall>k < i. rx_elts rxq ! k = NULL)"

context mempool_driver
begin

lemma drain_step:
  assumes "drain_inv pinv bag cap all i j rxq st" "i < j"
  shows "\<exists>st'. rte_pktmbuf_free_seg tbl lcore (rx_elts rxq ! i) st = Some st' \<and> rx_elts rxq ! i \<noteq> NULL \<and>
    drain_inv pinv bag cap all (i + 1) j (rxq\<lparr>rx_elts := (rx_elts rxq)[i := NULL]\<rparr>) st'"
proof -
  obtain p where j: "j \<le> length (rx_elts rxq)" and p: "pools st (rx_mp rxq) = Some p" "pool_ok pinv p"
      "pool_total bag p + mset (take (j - i) (drop i (rx_elts rxq))) = all" "size all \<le> cap p"
    and d: "\<forall>m. count all m \<le> 1" and e: "\<forall>m \<in># all. elt_ok st (rx_mp rxq) m"
    and ow: "\<And>k. i \<le> k \<Longrightarrow> k < j \<Longrightarrow> \<exists>x. mbufs st (rx_elts rxq ! k) = Some x \<and> sole_owner (rx_mp rxq) x"
    and nu: "\<forall>k < i. rx_elts rxq ! k = NULL"
    using assms(1) unfolding drain_inv_def by blast
  let ?m = "rx_elts rxq ! i" and ?rest = "take (j - (i + 1)) (drop (i + 1) (rx_elts rxq))"
  have split: "take (j - i) (drop i (rx_elts rxq)) = ?m # ?rest"
  proof -
    have "drop i (rx_elts rxq) = ?m # drop (i + 1) (rx_elts rxq)" using assms(2) j Cons_nth_drop_Suc [of i "rx_elts rxq"] by simp
    moreover have "j - i = Suc (j - (i + 1))" using assms(2) by simp
    ultimately show ?thesis by simp
  qed
  then have all: "all = add_mset ?m (pool_total bag p + mset ?rest)" using p(3) by simp
  obtain x where x: "mbufs st ?m = Some x" "sole_owner (rx_mp rxq) x" using ow [of i] assms(2) by auto
  have "size (pool_total bag p) + 1 \<le> cap p" using p(4) all by simp
  from free_seg_returns [OF x p(1,2) this, of lcore] obtain p' where
    p': "rte_pktmbuf_free_seg tbl lcore ?m st = Some (st\<lparr>mbufs := (mbufs st)(?m \<mapsto> unlink_seg x), pools := (pools st)(rx_mp rxq \<mapsto> p')\<rparr>)"
      "pool_ok pinv p'" "cap p' = cap p" "pool_total bag p' = add_mset ?m (pool_total bag p)" by blast
  let ?st = "st\<lparr>mbufs := (mbufs st)(?m \<mapsto> unlink_seg x), pools := (pools st)(rx_mp rxq \<mapsto> p')\<rparr>"
  let ?rxq = "rxq\<lparr>rx_elts := (rx_elts rxq)[i := NULL]\<rparr>"
  have ux: "slices_ready (unlink_seg x) = slices_ready x" "pool (unlink_seg x) = pool x" "refcnt (unlink_seg x) = refcnt x"
    by (simp_all add: unlink_seg_def slices_ready_def)
  have "elt_ok ?st (rx_mp rxq) a" if "elt_ok st (rx_mp rxq) a" for a
    using that x(1) ux by (auto simp: elt_ok_def)
  then have e': "\<forall>m \<in># all. elt_ok ?st (rx_mp rxq) m" using e by blast
  have ow': "\<exists>x. mbufs ?st (rx_elts ?rxq ! k) = Some x \<and> sole_owner (rx_mp rxq) x" if k: "i + 1 \<le> k" "k < j" for k
  proof -
    have "rx_elts rxq ! k \<in> set ?rest"
    proof -
      have "?rest ! (k - (i + 1)) = rx_elts rxq ! k" "k - (i + 1) < length ?rest" using k j by simp_all
      then show ?thesis by (metis nth_mem)
    qed
    moreover have "count (mset ?rest) ?m = 0" using d [rule_format, of ?m] all by simp
    ultimately have "rx_elts rxq ! k \<noteq> ?m" by (auto simp: count_eq_zero_iff)
    then show ?thesis using ow [of k] k by simp
  qed
  have "?m \<noteq> NULL" using e all by (auto simp: elt_ok_def)
  moreover have "drain_inv pinv bag cap all (i + 1) j ?rxq ?st"
    unfolding drain_inv_def
  proof (intro conjI exI [of _ p'] allI impI)
    show "i + 1 \<le> j" "j \<le> length (rx_elts ?rxq)" using assms(2) j by simp_all
    show "pools ?st (rx_mp ?rxq) = Some p'" "pool_ok pinv p'" "size all \<le> cap p'" using p'(2,3) p(4) by simp_all
    show "pool_total bag p' + mset (take (j - (i + 1)) (drop (i + 1) (rx_elts ?rxq))) = all" using p'(4) all by simp
    show "count all m \<le> 1" for m using d by blast
    show "\<forall>m \<in># all. elt_ok ?st (rx_mp ?rxq) m" using e' by simp
    show "\<exists>x. mbufs ?st (rx_elts ?rxq ! k) = Some x \<and> sole_owner (rx_mp ?rxq) x" if "i + 1 \<le> k \<and> k < j" for k
      using ow' [of k] that by simp
    show "rx_elts ?rxq ! k = NULL" if "k < i + 1" for k using nu that assms(2) j by (cases "k = i") simp_all
  qed
  ultimately show ?thesis using p'(1) by blast
qed

lemma free_slots_ok:
  "drain_inv pinv bag cap all i (i + n) rxq st \<Longrightarrow>
    \<exists>st' es. free_slots tbl lcore i n rxq st = Some (st', rxq\<lparr>rx_elts := es\<rparr>) \<and> length es = length (rx_elts rxq) \<and>
      drain_inv pinv bag cap all (i + n) (i + n) (rxq\<lparr>rx_elts := es\<rparr>) st'"
proof (induction n arbitrary: i rxq st)
  case 0
  then show ?case by (intro exI [of _ st] exI [of _ "rx_elts rxq"]) simp
next
  case (Suc n)
  obtain st' where a: "rte_pktmbuf_free_seg tbl lcore (rx_elts rxq ! i) st = Some st'" "rx_elts rxq ! i \<noteq> NULL"
    "drain_inv pinv bag cap all (i + 1) (i + Suc n) (rxq\<lparr>rx_elts := (rx_elts rxq)[i := NULL]\<rparr>) st'"
    using drain_step [OF Suc.prems] by auto
  have "i < length (rx_elts rxq)" using Suc.prems by (simp add: drain_inv_def)
  with Suc.IH [of "i + 1" "rxq\<lparr>rx_elts := (rx_elts rxq)[i := NULL]\<rparr>" st'] a show ?case by (auto simp: nth_opt_def)
qed

end

lemma sprq_drain:
  assumes "sprq_inv pinv bag cap all j rxq st"
  shows "drain_inv pinv bag cap all 0 j rxq st"
  using assms by (auto simp: sprq_inv_def drain_inv_def placed_def)

text \<open>The padding of a vectorized queue touches neither its slots nor their buffers.\<close>

lemma padding_ok:
  assumes inv: "sprq_inv pinv bag cap all (2 ^ rx_elts_n rxq) rxq st"
    and f: "mbufs st (rx_fake_mbuf rxq) = Some f" "rx_fake_mbuf rxq \<notin># all"
    and len: "2 ^ rx_elts_n rxq + MLX5_VPMD_DESCS_PER_LOOP \<le> length (rx_elts rxq)"
  shows "\<exists>st' es w. vec_padding rxq st = Some (st', rxq\<lparr>rx_mbuf_initializer := w, rx_elts := es\<rparr>) \<and> length es = length (rx_elts rxq) \<and>
    take (2 ^ rx_elts_n rxq) es = take (2 ^ rx_elts_n rxq) (rx_elts rxq) \<and> sprq_inv pinv bag cap all (2 ^ rx_elts_n rxq) (rxq\<lparr>rx_mbuf_initializer := w, rx_elts := es\<rparr>) st'"
proof -
  let ?n = "2 ^ rx_elts_n rxq :: nat"
  let ?f = "f\<lparr>data_off := RTE_PKTMBUF_HEADROOM, refcnt := 1, nb_segs := 1, port := rx_port_id rxq\<rparr>"
  let ?st = "st\<lparr>mbufs := (mbufs st)(rx_fake_mbuf rxq \<mapsto> ?f)\<rparr>"
  let ?es = "fold (\<lambda>j es. es[?n + j := rx_fake_mbuf rxq]) [0..<MLX5_VPMD_DESCS_PER_LOOP] (rx_elts rxq)"
  let ?rxq = "rxq\<lparr>rx_mbuf_initializer := rearm_data ?f, rx_elts := ?es\<rparr>"
  have es: "length ?es = length (rx_elts rxq) \<and> take ?n ?es = take ?n (rx_elts rxq)"
    by (simp add: MLX5_VPMD_DESCS_PER_LOOP_def numeral_eq_Suc upt_rec)
  have nth: "?es ! k = rx_elts rxq ! k" if "k < ?n" for k using es that by (metis nth_take)
  obtain p where p: "pools st (rx_mp rxq) = Some p" "pool_ok pinv p" "pool_total bag p + mset (take ?n (rx_elts rxq)) = all" "size all \<le> cap p"
    and e: "\<forall>m \<in># all. elt_ok st (rx_mp rxq) m" and pl: "\<forall>k < ?n. placed st rxq (rx_elts rxq ! k)" and d: "\<forall>m. count all m \<le> 1"
    using inv unfolding sprq_inv_def by blast
  have ne: "m \<noteq> rx_fake_mbuf rxq" if "m \<in># all" for m using that f(2) by blast
  have "elt_ok ?st (rx_mp rxq) m" if "m \<in># all" for m using e ne [OF that] that by (simp add: elt_ok_def)
  moreover have "placed ?st ?rxq (?es ! k)" if k: "k < ?n" for k
  proof -
    have "rx_elts rxq ! k \<in># all"
    proof -
      have "k < length (take ?n (rx_elts rxq))" using k len by simp
      then have "take ?n (rx_elts rxq) ! k \<in> set (take ?n (rx_elts rxq))" by (rule nth_mem)
      then show ?thesis using k p(3) by auto
    qed
    then have "rx_elts rxq ! k \<noteq> rx_fake_mbuf rxq" by (rule ne)
    then show ?thesis using pl k nth [OF k] by (simp add: placed_def)
  qed
  ultimately have "sprq_inv pinv bag cap all ?n ?rxq ?st"
    using es len p d by (simp add: sprq_inv_def)
  moreover have "vec_padding rxq st = Some (?st, ?rxq)"
    using f(1) len by (simp add: vec_padding_def with_mbuf_def Let_def)
  ultimately show ?thesis using es by blast
qed

text \<open>What a queue and its pool look like before a queue is filled.\<close>

definition rxq_start ::
  "(rte_mempool \<Rightarrow> bool) \<Rightarrow> (rte_mempool \<Rightarrow> addr multiset) \<Rightarrow> (rte_mempool \<Rightarrow> nat) \<Rightarrow> mlx5_rxq_data \<Rightarrow> mbuf_heap \<Rightarrow> rte_mempool \<Rightarrow> bool" where
  "rxq_start pinv bag cap rxq st p \<longleftrightarrow> pools st (rx_mp rxq) = Some p \<and> pool_ok pinv p \<and> size (pool_total bag p) \<le> cap p \<and>
     (\<forall>m. count (pool_total bag p) m \<le> 1) \<and> (\<forall>m \<in># pool_total bag p. elt_ok st (rx_mp rxq) m) \<and>
     2 ^ rx_elts_n rxq + MLX5_VPMD_DESCS_PER_LOOP \<le> length (rx_elts rxq) \<and>
     (\<exists>f. mbufs st (rx_fake_mbuf rxq) = Some f) \<and> rx_fake_mbuf rxq \<notin># pool_total bag p"

text \<open>The memory of a packet buffer stays where it is while slots are filled.\<close>

definition extent :: "mbuf_heap \<Rightarrow> addr \<Rightarrow> (addr \<times> iova \<times> u16) option" where
  "extent st a = map_option (\<lambda>x. (buf_addr x, buf_iova x, buf_len x)) (mbufs st a)"

lemma extent_has: "extent st' a = extent st a \<Longrightarrow> (mbufs st' a = None) = (mbufs st a = None)"
  by (cases "mbufs st' a"; cases "mbufs st a") (simp_all add: extent_def)

lemma extentD:
  assumes "extent st' a = extent st a" "mbufs st' a = Some y"
  obtains x where "mbufs st a = Some x" "buf_addr y = buf_addr x" "buf_iova y = buf_iova x" "buf_len y = buf_len x"
  using assms by (cases "mbufs st a") (auto simp: extent_def)

lemma pktmbuf_alloc_extent: "rte_pktmbuf_alloc tbl lcore mpa st = Some (st', m) \<Longrightarrow> extent st' a = extent st a"
  by (auto simp: rte_pktmbuf_alloc_def extent_def with_mbuf_def raw_alloc_mbufs rte_pktmbuf_reset_def
      rte_pktmbuf_reset_headroom_def Let_def split: bind_splits if_splits)

lemma sprq_place_extent: "sprq_place i rxq m st = Some st' \<Longrightarrow> extent st' a = extent st a"
  by (auto simp: sprq_place_def with_mbuf_def extent_def Let_def split: bind_splits if_splits)

lemma vec_padding_extent: "vec_padding rxq st = Some (st', rxq') \<Longrightarrow> extent st' a = extent st a"
  by (auto simp: vec_padding_def with_mbuf_def extent_def Let_def split: bind_splits if_splits)

lemma sprq_fill_extent:
  "sprq_fill tbl lcore i n rxq st = Some (st', rxq', j, ok) \<Longrightarrow> extent st' a = extent st a"
proof (induction n arbitrary: i rxq st)
  case (Suc n)
  obtain st1 m where a: "rte_pktmbuf_alloc tbl lcore (rx_mp rxq) st = Some (st1, m)" using Suc.prems by (auto split: bind_splits)
  show ?case
  proof (cases "m = NULL")
    case True
    then have "st' = st1" using Suc.prems a by simp
    then show ?thesis using pktmbuf_alloc_extent [OF a] by simp
  next
    case False
    then obtain st2 where s: "sprq_place i rxq m st1 = Some st2"
        "sprq_fill tbl lcore (i + 1) n (rxq\<lparr>rx_elts := (rx_elts rxq)[i := m]\<rparr>) st2 = Some (st', rxq', j, ok)"
      using Suc.prems a by (auto split: bind_splits if_splits)
    show ?thesis using Suc.IH [OF s(2)] sprq_place_extent [OF s(1)] pktmbuf_alloc_extent [OF a] by simp
  qed
qed simp

lemma alloc_elts_extent:
  assumes "rxq_alloc_elts_sprq dev tbl lcore rxq st = Some (st', rxq', 0)"
  shows "extent st' a = extent st a"
proof -
  obtain st1 rxq1 j ok where f: "sprq_fill tbl lcore 0 (2 ^ rx_elts_n rxq) rxq st = Some (st1, rxq1, j, ok)"
    using assms by (auto simp: rxq_alloc_elts_sprq_def split: bind_splits)
  moreover have "ok" using assms f by (auto simp: rxq_alloc_elts_sprq_def split: bind_splits if_splits)
  ultimately have "extent st' a = extent st1 a"
    using assms by (auto simp: rxq_alloc_elts_sprq_def vec_padding_extent split: bind_splits if_splits)
  then show ?thesis using sprq_fill_extent [OF f] by simp
qed

context mempool_driver
begin

lemma alloc_elts_ok:
  assumes "rxq_start pinv bag cap rxq st p"
  shows "\<exists>st' rxq' ret. rxq_alloc_elts_sprq dev tbl lcore rxq st = Some (st', rxq', ret) \<and>
    (\<exists>w es. rxq' = rxq\<lparr>rx_mbuf_initializer := w, rx_elts := es\<rparr> \<and> length es = length (rx_elts rxq)) \<and>
    (if ret = 0 then sprq_inv pinv bag cap (pool_total bag p) (2 ^ rx_elts_n rxq) rxq' st'
     else ret = - errno_code ENOMEM \<and> (\<exists>j. drain_inv pinv bag cap (pool_total bag p) j j rxq' st'))"
proof -
  let ?n = "2 ^ rx_elts_n rxq :: nat" and ?all = "pool_total bag p"
  have inv0: "sprq_inv pinv bag cap ?all 0 rxq st" using assms by (auto simp: rxq_start_def sprq_inv_def)
  have len: "?n + MLX5_VPMD_DESCS_PER_LOOP \<le> length (rx_elts rxq)" using assms by (simp add: rxq_start_def)
  then obtain st1 es j ok where f: "sprq_fill tbl lcore 0 ?n rxq st = Some (st1, rxq\<lparr>rx_elts := es\<rparr>, j, ok)"
      "length es = length (rx_elts rxq)" "sprq_inv pinv bag cap ?all j (rxq\<lparr>rx_elts := es\<rparr>) st1" "ok \<longrightarrow> j = ?n"
    using sprq_fill_ok [OF inv0, of ?n lcore] by auto
  have ex: "\<exists>w es'. rxq\<lparr>rx_elts := e\<rparr> = rxq\<lparr>rx_mbuf_initializer := w, rx_elts := es'\<rparr> \<and> length es' = length (rx_elts rxq)"
    if "length e = length (rx_elts rxq)" for e
    using that by (intro exI [of _ "rx_mbuf_initializer rxq"] exI [of _ e]) simp
  show ?thesis
  proof (cases ok)
    case False
    have "drain_inv pinv bag cap ?all 0 (0 + j) (rxq\<lparr>rx_elts := es\<rparr>) st1" using sprq_drain [OF f(3)] by simp
    from free_slots_ok [OF this, of lcore] obtain st2 es2 where
      "free_slots tbl lcore 0 j (rxq\<lparr>rx_elts := es\<rparr>) st1 = Some (st2, rxq\<lparr>rx_elts := es2\<rparr>)" "length es2 = length (rx_elts rxq)"
      "drain_inv pinv bag cap ?all j j (rxq\<lparr>rx_elts := es2\<rparr>) st2" using f(2) by auto
    with False f(1) show ?thesis
      by (intro exI [of _ st2] exI [of _ "rxq\<lparr>rx_elts := es2\<rparr>"] exI [of _ "- errno_code ENOMEM"])
        (auto simp: rxq_alloc_elts_sprq_def ex)
  next
    case True
    then have j: "sprq_inv pinv bag cap ?all ?n (rxq\<lparr>rx_elts := es\<rparr>) st1" using f(3,4) by simp
    show ?thesis
    proof (cases "mlx5_rxq_check_vec_support dev (rxq\<lparr>rx_elts := es\<rparr>) > 0")
      case v: False
      with True f(1,2) j show ?thesis
        by (intro exI [of _ st1] exI [of _ "rxq\<lparr>rx_elts := es\<rparr>"] exI [of _ 0])
          (auto simp: rxq_alloc_elts_sprq_def ex)
    next
      case v: True
      obtain fk where "mbufs st (rx_fake_mbuf rxq) = Some fk" "rx_fake_mbuf rxq \<notin># ?all" using assms by (auto simp: rxq_start_def)
      then obtain fk' where fk: "mbufs st1 (rx_fake_mbuf rxq) = Some fk'" "rx_fake_mbuf rxq \<notin># ?all"
        using extent_has [OF sprq_fill_extent [OF f(1)], of "rx_fake_mbuf rxq"] by (cases "mbufs st1 (rx_fake_mbuf rxq)") auto
      from padding_ok [of pinv bag cap ?all "rxq\<lparr>rx_elts := es\<rparr>" st1 fk'] j fk len f(2) obtain st2 es2 w where
        "vec_padding (rxq\<lparr>rx_elts := es\<rparr>) st1 = Some (st2, rxq\<lparr>rx_mbuf_initializer := w, rx_elts := es2\<rparr>)"
        "length es2 = length (rx_elts rxq)" "sprq_inv pinv bag cap ?all ?n (rxq\<lparr>rx_mbuf_initializer := w, rx_elts := es2\<rparr>) st2" by auto
      with True v f(1) show ?thesis
        by (intro exI [of _ st2] exI [of _ "rxq\<lparr>rx_mbuf_initializer := w, rx_elts := es2\<rparr>"] exI [of _ 0])
          (auto simp: rxq_alloc_elts_sprq_def)
    qed
  qed
qed

end

lemma fill_descs_ok:
  assumes "\<And>k. i \<le> k \<Longrightarrow> k < i + n \<Longrightarrow> k < length (rx_elts rxq) \<and> mbufs st (rx_elts rxq ! k) \<noteq> None" "i + n \<le> length (rx_wqes rxq)"
  shows "\<exists>ws. fill_descs env i n st rxq = Some (rxq\<lparr>rx_wqes := ws\<rparr>) \<and> length ws = length (rx_wqes rxq) \<and>
    (\<forall>k < length ws. k < i \<longrightarrow> ws ! k = rx_wqes rxq ! k) \<and>
    (\<forall>k x. i \<le> k \<and> k < i + n \<and> mbufs st (rx_elts rxq ! k) = Some x \<longrightarrow>
      wqe_addr (ws ! k) = rte_cpu_to_be_64 (rte_pktmbuf_mtod_offset x 0) \<and>
      wqe_byte_count (ws ! k) = rte_cpu_to_be_32 (ucast (data_len x)))"
  using assms
proof (induction n arbitrary: i rxq)
  case 0
  then show ?case by (intro exI [of _ "rx_wqes rxq"]) auto
next
  case (Suc n)
  have i: "i < length (rx_elts rxq)" "i < length (rx_wqes rxq)" using Suc.prems(1) [of i] Suc.prems(2) by simp_all
  obtain x where x: "mbufs st (rx_elts rxq ! i) = Some x" using Suc.prems(1) [of i] by auto
  let ?a = "rte_pktmbuf_mtod_offset x 0"
  let ?w = "\<lparr>wqe_byte_count = rte_cpu_to_be_32 (ucast (data_len x)), wqe_lkey = mlx5_rx_addr2mr env ?a, wqe_addr = rte_cpu_to_be_64 ?a\<rparr>"
  let ?rxq = "rxq\<lparr>rx_wqes := (rx_wqes rxq)[i := ?w]\<rparr>"
  obtain ws where ws: "fill_descs env (i + 1) n st ?rxq = Some (?rxq\<lparr>rx_wqes := ws\<rparr>)" "length ws = length (rx_wqes rxq)"
    "\<forall>k < length ws. k < i + 1 \<longrightarrow> ws ! k = rx_wqes ?rxq ! k"
    "\<forall>k x. i + 1 \<le> k \<and> k < i + 1 + n \<and> mbufs st (rx_elts rxq ! k) = Some x \<longrightarrow>
      wqe_addr (ws ! k) = rte_cpu_to_be_64 (rte_pktmbuf_mtod_offset x 0) \<and>
      wqe_byte_count (ws ! k) = rte_cpu_to_be_32 (ucast (data_len x))"
    using Suc.IH [of "i + 1" ?rxq] Suc.prems by auto
  have "ws ! i = ?w" using ws(2,3) i(2) by simp
  have "\<forall>k x. i \<le> k \<and> k < i + Suc n \<and> mbufs st (rx_elts rxq ! k) = Some x \<longrightarrow>
      wqe_addr (ws ! k) = rte_cpu_to_be_64 (rte_pktmbuf_mtod_offset x 0) \<and>
      wqe_byte_count (ws ! k) = rte_cpu_to_be_32 (ucast (data_len x))"
  proof (intro allI impI)
    fix k y assume k: "i \<le> k \<and> k < i + Suc n \<and> mbufs st (rx_elts rxq ! k) = Some y"
    show "wqe_addr (ws ! k) = rte_cpu_to_be_64 (rte_pktmbuf_mtod_offset y 0) \<and> wqe_byte_count (ws ! k) = rte_cpu_to_be_32 (ucast (data_len y))"
    proof (cases "k = i")
      case True
      with k x \<open>ws ! i = ?w\<close> show ?thesis by simp
    next
      case False
      with k ws(4) show ?thesis by simp
    qed
  qed
  moreover have "fill_descs env i (Suc n) st rxq = Some (rxq\<lparr>rx_wqes := ws\<rparr>)" using x i ws(1) by (simp add: nth_opt_def Let_def)
  moreover have "\<forall>k < length ws. k < i \<longrightarrow> ws ! k = rx_wqes rxq ! k" using ws(3) by simp
  ultimately show ?case using ws(2) by blast
qed

lemma ring_ready:
  assumes inv: "sprq_inv pinv bag cap all (2 ^ rx_elts_n rxq) rxq st"
    and sz: "rx_elts_n rxq < 16" "length (rx_wqes rxq) = 2 ^ rx_elts_n rxq" "cqe_n < 16" "length cqes = 2 ^ cqe_n"
  shows "\<exists>rxq'. fill_ring env cqes cqe_n st rxq = Some rxq' \<and> rx_queue_id rxq' = rx_queue_id rxq \<and> rx_ok pinv bag cap [] rxq' st \<and>
    (\<forall>k < 2 ^ rx_elts_n rxq. \<exists>x. rx_elts rxq' ! k \<in># all \<and> mbufs st (rx_elts rxq' ! k) = Some x \<and>
      data_len x = buf_len x - data_off x \<and> data_off x \<le> 896 \<and>
      wqe_addr (rx_wqes rxq' ! k) = rte_cpu_to_be_64 (rte_pktmbuf_mtod_offset x 0) \<and>
      wqe_byte_count (rx_wqes rxq' ! k) = rte_cpu_to_be_32 (ucast (data_len x)))"
proof -
  let ?n = "2 ^ rx_elts_n rxq :: nat"
  obtain p where i: "?n \<le> length (rx_elts rxq)" and p: "pools st (rx_mp rxq) = Some p" "pool_ok pinv p"
      "pool_total bag p + mset (take ?n (rx_elts rxq)) = all" "size all \<le> cap p"
    and d: "\<forall>m. count all m \<le> 1" and e: "\<forall>m \<in># all. elt_ok st (rx_mp rxq) m" and pl: "\<forall>k < ?n. placed st rxq (rx_elts rxq ! k)"
    using inv unfolding sprq_inv_def by blast
  have "k < length (rx_elts rxq) \<and> mbufs st (rx_elts rxq ! k) \<noteq> None" if "k < ?n" for k
    using pl that i by (auto simp: placed_def)
  then obtain ws where ws: "fill_descs env 0 ?n st rxq = Some (rxq\<lparr>rx_wqes := ws\<rparr>)" "length ws = length (rx_wqes rxq)"
    "\<forall>k x. k < ?n \<and> mbufs st (rx_elts rxq ! k) = Some x \<longrightarrow>
      wqe_addr (ws ! k) = rte_cpu_to_be_64 (rte_pktmbuf_mtod_offset x 0) \<and>
      wqe_byte_count (ws ! k) = rte_cpu_to_be_32 (ucast (data_len x))"
    using fill_descs_ok [of 0 ?n rxq st env] sz(2) by auto
  let ?ci = "drop_bit (rx_sges_n rxq) (2 ^ rx_elts_n rxq) :: u32"
  let ?rxq = "rxq\<lparr>rx_wqes := ws, rx_cqe_n := cqe_n, cq_ci := 0, rq_pi := 0,
           rx_zip := \<lparr>zip_ai = 0, zip_ca = 0, zip_na = 0, zip_cq_ci = 0, zip_cqe_cnt = 0\<rparr>, rx_cqes := cqes,
           rq_ci := ?ci, rq_db := rte_cpu_to_be_32 ?ci\<rparr>"
  have "fill_ring env cqes cqe_n st rxq = Some ?rxq" using ws(1) by (simp add: fill_ring_def Let_def)
  moreover have "rx_ok pinv bag cap [] ?rxq st"
  proof (rule rx_okI [where p = p])
    show "rx_shape ?rxq" using sz ws(2) i by (simp add: rx_shape_def)
    show "pools st (rx_mp ?rxq) = Some p" "pool_ok pinv p" using p by simp_all
    have o: "rx_owned bag p ?rxq [] = all" using p(3) by (simp add: rx_owned_def ac_simps)
    show "size (pool_total bag p) + length [] \<le> cap p" using p(3,4) by auto
    show "\<forall>m. count (rx_owned bag p ?rxq []) m \<le> 1" unfolding o by (rule d)
    show "\<forall>m \<in># rx_owned bag p ?rxq []. rx_mbuf_ok st (rx_mp ?rxq) m" unfolding o using e by (auto simp: elt_ok_def rx_mbuf_ok_def)
    show "\<forall>k < 2 ^ rx_elts_n ?rxq. slot_ok st ?rxq k"
    proof (intro allI impI)
      fix k :: nat assume "k < 2 ^ rx_elts_n ?rxq"
      then have k: "k < ?n" by simp
      then obtain x where x: "mbufs st (rx_elts rxq ! k) = Some x"
          "calculateSlice_HF_haswell (rte_mbuf_data_iova x) = ucast (rx_queue_id rxq mod coreNumber)" "data_off x \<le> 896"
        using pl by (auto simp: placed_def)
      then show "slot_ok st ?rxq k" using ws(3) k by (simp add: slot_ok_def)
    qed
  qed
  moreover have "\<exists>x. rx_elts rxq ! k \<in># all \<and> mbufs st (rx_elts rxq ! k) = Some x \<and>
      data_len x = buf_len x - data_off x \<and> data_off x \<le> 896 \<and>
      wqe_addr (ws ! k) = rte_cpu_to_be_64 (rte_pktmbuf_mtod_offset x 0) \<and>
      wqe_byte_count (ws ! k) = rte_cpu_to_be_32 (ucast (data_len x))" if k: "k < ?n" for k
  proof -
    obtain x where "mbufs st (rx_elts rxq ! k) = Some x" "data_len x = buf_len x - data_off x" "data_off x \<le> 896"
      using pl k by (auto simp: placed_def)
    moreover have "rx_elts rxq ! k \<in> set (take ?n (rx_elts rxq))" using k i by (auto simp: in_set_conv_nth)
    ultimately show ?thesis using ws(3) k p(3) by auto
  qed
  ultimately show ?thesis by (intro exI [of _ ?rxq]) simp
qed

section \<open>Properties\<close>

text \<open>
  C12: setting up a receive queue is all or nothing. \<^verbatim>\<open>rxq_alloc_elts_sprq\<close> either returns
  0 with a buffer of the pool in every slot, each with its data in the slice of the queue and
  offered up to its end, or -ENOMEM with every buffer back in the pool; no buffer is lost or
  taken twice.
\<close>

theorem alloc_elts_all_or_nothing:
  assumes "rxq_start ring_pool_inv ring_pool_bag ring_pool_cap rxq st p"
  shows "\<exists>st' rxq' ret p'. rxq_alloc_elts_sprq dev ops_table lcore rxq st = Some (st', rxq', ret) \<and>
    pools st' (rx_mp rxq) = Some p' \<and> pool_ok ring_pool_inv p' \<and>
    (if ret = 0 then pool_total ring_pool_bag p = pool_total ring_pool_bag p' + mset (take (2 ^ rx_elts_n rxq) (rx_elts rxq')) \<and>
       (\<forall>k < 2 ^ rx_elts_n rxq. \<exists>x. mbufs st' (rx_elts rxq' ! k) = Some x \<and>
         calculateSlice_HF_haswell (rte_mbuf_data_iova x) = ucast (rx_queue_id rxq mod coreNumber) \<and>
         data_len x = buf_len x - data_off x)
     else ret = - errno_code ENOMEM \<and> pool_total ring_pool_bag p' = pool_total ring_pool_bag p)"
proof -
  obtain st' rxq' ret w es where a: "rxq_alloc_elts_sprq dev ops_table lcore rxq st = Some (st', rxq', ret)"
      "rxq' = rxq\<lparr>rx_mbuf_initializer := w, rx_elts := es\<rparr>"
      "if ret = 0 then sprq_inv ring_pool_inv ring_pool_bag ring_pool_cap (pool_total ring_pool_bag p) (2 ^ rx_elts_n rxq) rxq' st'
       else ret = - errno_code ENOMEM \<and> (\<exists>j. drain_inv ring_pool_inv ring_pool_bag ring_pool_cap (pool_total ring_pool_bag p) j j rxq' st')"
    using ringpool.alloc_elts_ok [OF assms, of dev lcore] by blast
  show ?thesis
  proof (cases "ret = 0")
    case True
    have f: "rx_mp rxq' = rx_mp rxq" "rx_queue_id rxq' = rx_queue_id rxq" using a(2) by simp_all
    have "sprq_inv ring_pool_inv ring_pool_bag ring_pool_cap (pool_total ring_pool_bag p) (2 ^ rx_elts_n rxq) rxq' st'"
      using a(3) True by simp
    then obtain p' where p': "pools st' (rx_mp rxq) = Some p'" "pool_ok ring_pool_inv p'"
        "pool_total ring_pool_bag p' + mset (take (2 ^ rx_elts_n rxq) (rx_elts rxq')) = pool_total ring_pool_bag p"
        "\<forall>k < 2 ^ rx_elts_n rxq. placed st' rxq' (rx_elts rxq' ! k)"
      unfolding sprq_inv_def f by blast
    have "\<forall>k < 2 ^ rx_elts_n rxq. \<exists>x. mbufs st' (rx_elts rxq' ! k) = Some x \<and>
         calculateSlice_HF_haswell (rte_mbuf_data_iova x) = ucast (rx_queue_id rxq mod coreNumber) \<and>
         data_len x = buf_len x - data_off x"
      using p'(4) unfolding placed_def f by blast
    with a(1) p' True show ?thesis by metis
  next
    case False
    then show ?thesis using a unfolding drain_inv_def by auto
  qed
qed

text \<open>A start: a queue of two slots, and a pool of two buffers whose slice offsets are known.\<close>

lemma demo_start:
  obtains rxq st p where "rxq_start ring_pool_inv ring_pool_bag ring_pool_cap rxq st p" "rx_elts_n rxq = 1"
    "length (rx_wqes rxq) = 2" "rx_queue_id rxq = 5"
proof -
  let ?p = "demo_pool 0 (PoolRing 0x2000 pool_ring4) 0"
  have p: "pool_ok ring_pool_inv ?p" "pool_total ring_pool_bag ?p = {#}" "ring_pool_cap ?p = 3"
    by (simp_all add: pool_ok_def pool_total_def demo_ring_pool demo_caches_ok)
  obtain p' where p': "pool_ok ring_pool_inv p'" "ring_pool_cap p' = 3" "pool_total ring_pool_bag p' = {#0x1000, 0x2000#}"
    using ringpool.put_bulk_conserves [OF p(1), of "[0x1000, 0x2000]" 2] p(2,3) by auto
  obtain x where x: "slices_ready x" "x = (ex_mbuf 0x1000 0)\<lparr>udata64 := udata64 x\<rparr>"
    using slice_init_ready [of "ex_mbuf 0x1000 0"] by blast
  obtain y where y: "slices_ready y" "y = (ex_mbuf 0x2000 0)\<lparr>udata64 := udata64 y\<rparr>"
    using slice_init_ready [of "ex_mbuf 0x2000 0"] by blast
  have f: "pool x = 0x100" "refcnt x = 1" by (subst x(2), simp add: ex_mbuf_def)+
  have g: "pool y = 0x100" "refcnt y = 1" by (subst y(2), simp add: ex_mbuf_def)+
  let ?st = "ex_heap\<lparr>mbufs := [0x1000 \<mapsto> x, 0x2000 \<mapsto> y, 0x9000 \<mapsto> ex_mbuf 0x9000 0], pools := [0x100 \<mapsto> p']\<rparr>"
  let ?rxq = "(demo_rxq x)\<lparr>rx_elts_n := 1, rx_elts := replicate 6 NULL, rx_wqes := replicate 2 (hd (rx_wqes (demo_rxq x))),
    rx_fake_mbuf := 0x9000, rx_queue_id := 5\<rparr>"
  have "rxq_start ring_pool_inv ring_pool_bag ring_pool_cap ?rxq ?st p'"
    using p' x(1) y(1) f g
    by (auto simp: rxq_start_def demo_rxq_def elt_ok_def MLX5_VPMD_DESCS_PER_LOOP_def)
  moreover have "rx_elts_n ?rxq = 1" "length (rx_wqes ?rxq) = 2" "rx_queue_id ?rxq = 5" by simp_all
  ultimately show ?thesis by (rule that)
qed

theorem alloc_elts_all_or_nothing_witness:
  "\<exists>rxq st p st' rxq' ret p'. rxq_alloc_elts_sprq \<lparr>mprq_cfg_enabled = False, mprq_min_rxqs_num = 0, rx_vec_en = True,
      rxqs_strd_num_n = [], rxqs_n = 0\<rparr> ops_table 0 rxq st = Some (st', rxq', ret) \<and>
    pools st (rx_mp rxq) = Some p \<and> pools st' (rx_mp rxq) = Some p' \<and>
    (ret \<noteq> 0 \<longrightarrow> pool_total ring_pool_bag p' = pool_total ring_pool_bag p)"
proof -
  obtain rxq st p where s: "rxq_start ring_pool_inv ring_pool_bag ring_pool_cap rxq st p"
    using demo_start by blast
  then have p: "pools st (rx_mp rxq) = Some p" by (simp add: rxq_start_def)
  let ?dev = "\<lparr>mprq_cfg_enabled = False, mprq_min_rxqs_num = 0, rx_vec_en = True, rxqs_strd_num_n = [], rxqs_n = 0\<rparr>"
  from alloc_elts_all_or_nothing [OF s, of ?dev 0] obtain st' rxq' ret p' where
    "rxq_alloc_elts_sprq ?dev ops_table 0 rxq st = Some (st', rxq', ret)" "pools st' (rx_mp rxq) = Some p'"
    "ret \<noteq> 0 \<longrightarrow> pool_total ring_pool_bag p' = pool_total ring_pool_bag p" by (metis (no_types))
  with p show ?thesis by blast
qed

text \<open>
  C6: a queue that was set up is ready to receive in its slice. When every buffer of the pool has
  at least the 896 bytes the slice search may skip, then after a successful allocation the
  descriptors written by \<^verbatim>\<open>mlx5_rxq_ibv_new\<close> make the queue satisfy everything the burst
  function needs: every slot points at data in the slice of the queue, the buffers of queue and
  pool are different, and no descriptor reaches beyond its buffer: it starts at the slice offset in
  the memory of the slot's buffer and its byte count, as the hardware reads it, ends exactly at
  the end of that memory.
\<close>

theorem setup_ready:
  assumes "rxq_start ring_pool_inv ring_pool_bag ring_pool_cap rxq st p"
    and "rxq_alloc_elts_sprq dev ops_table lcore rxq st = Some (st', rxq', 0)"
    and "rx_elts_n rxq < 16" "length (rx_wqes rxq) = 2 ^ rx_elts_n rxq" "cqe_n < 16" "length cqes = 2 ^ cqe_n"
    and big: "\<forall>m \<in># pool_total ring_pool_bag p. \<forall>x. mbufs st m = Some x \<longrightarrow> 896 \<le> buf_len x"
  shows "\<exists>rxq2. fill_ring env cqes cqe_n st' rxq' = Some rxq2 \<and> rx_queue_id rxq2 = rx_queue_id rxq \<and>
    rx_ok ring_pool_inv ring_pool_bag ring_pool_cap [] rxq2 st' \<and>
    (\<forall>k < 2 ^ rx_elts_n rxq. \<exists>x y. mbufs st (rx_elts rxq2 ! k) = Some x \<and> mbufs st' (rx_elts rxq2 ! k) = Some y \<and>
      data_len y = buf_len y - data_off y \<and> buf_addr y = buf_addr x \<and> buf_len y = buf_len x \<and>
      wqe_byte_count (rx_wqes rxq2 ! k) = rte_cpu_to_be_32 (ucast (data_len y)) \<and>
      rte_be_to_cpu_64 (wqe_addr (rx_wqes rxq2 ! k)) = buf_addr x + ucast (data_off y) \<and>
      unat (data_off y) + unat (rte_be_to_cpu_32 (wqe_byte_count (rx_wqes rxq2 ! k))) = unat (buf_len x))"
proof -
  obtain w es where a: "rxq' = rxq\<lparr>rx_mbuf_initializer := w, rx_elts := es\<rparr>"
      "sprq_inv ring_pool_inv ring_pool_bag ring_pool_cap (pool_total ring_pool_bag p) (2 ^ rx_elts_n rxq) rxq' st'"
    using ringpool.alloc_elts_ok [OF assms(1), of dev lcore] assms(2) by auto
  then obtain rxq2 where r: "fill_ring env cqes cqe_n st' rxq' = Some rxq2" "rx_queue_id rxq2 = rx_queue_id rxq"
      "rx_ok ring_pool_inv ring_pool_bag ring_pool_cap [] rxq2 st'"
      "\<forall>k < 2 ^ rx_elts_n rxq. \<exists>y. rx_elts rxq2 ! k \<in># pool_total ring_pool_bag p \<and> mbufs st' (rx_elts rxq2 ! k) = Some y \<and>
        data_len y = buf_len y - data_off y \<and> data_off y \<le> 896 \<and>
        wqe_addr (rx_wqes rxq2 ! k) = rte_cpu_to_be_64 (rte_pktmbuf_mtod_offset y 0) \<and>
        wqe_byte_count (rx_wqes rxq2 ! k) = rte_cpu_to_be_32 (ucast (data_len y))"
    using ring_ready [of ring_pool_inv ring_pool_bag ring_pool_cap "pool_total ring_pool_bag p" rxq' st' cqe_n cqes env] assms(3-6)
    by auto
  have "\<exists>x y. mbufs st (rx_elts rxq2 ! k) = Some x \<and> mbufs st' (rx_elts rxq2 ! k) = Some y \<and>
      data_len y = buf_len y - data_off y \<and> buf_addr y = buf_addr x \<and> buf_len y = buf_len x \<and>
      wqe_byte_count (rx_wqes rxq2 ! k) = rte_cpu_to_be_32 (ucast (data_len y)) \<and>
      rte_be_to_cpu_64 (wqe_addr (rx_wqes rxq2 ! k)) = buf_addr x + ucast (data_off y) \<and>
      unat (data_off y) + unat (rte_be_to_cpu_32 (wqe_byte_count (rx_wqes rxq2 ! k))) = unat (buf_len x)"
    if k: "k < 2 ^ rx_elts_n rxq" for k
  proof -
    obtain y where y: "rx_elts rxq2 ! k \<in># pool_total ring_pool_bag p" "mbufs st' (rx_elts rxq2 ! k) = Some y"
        "data_len y = buf_len y - data_off y" "data_off y \<le> 896"
        "wqe_addr (rx_wqes rxq2 ! k) = rte_cpu_to_be_64 (rte_pktmbuf_mtod_offset y 0)"
        "wqe_byte_count (rx_wqes rxq2 ! k) = rte_cpu_to_be_32 (ucast (data_len y))" using r(4) k by blast
    obtain x where x: "mbufs st (rx_elts rxq2 ! k) = Some x" "buf_addr y = buf_addr x" "buf_len y = buf_len x"
      using extentD [OF alloc_elts_extent [OF assms(2)] y(2)] by blast
    have "data_off y \<le> buf_len x" using y(1,4) x(1) big by fastforce
    then have "unat (data_off y) + unat (ucast (data_len y) :: u32) = unat (buf_len x)"
      using y(3) x(3) by (simp add: unat_ucast_up unat_sub word_le_nat_alt)
    with x y show ?thesis by (simp add: rte_pktmbuf_mtod_offset_def)
  qed
  with r(1-3) show ?thesis by blast
qed

text \<open>A queue of one slot whose allocation succeeds.\<close>

lemma demo_alloc:
  obtains dev rxq st p st' rxq' where "rxq_start ring_pool_inv ring_pool_bag ring_pool_cap rxq st p" "rx_elts_n rxq = 0"
    "length (rx_wqes rxq) = 1" "rx_queue_id rxq = 5" "rxq_alloc_elts_sprq dev ops_table 0 rxq st = Some (st', rxq', 0)"
    "\<forall>m \<in># pool_total ring_pool_bag p. \<forall>x. mbufs st m = Some x \<longrightarrow> 896 \<le> buf_len x"
proof -
  let ?p = "demo_pool 0 (PoolRing 0x2000 pool_ring4) 0"
  obtain d where d: "ring_pool_inv (?p\<lparr>pool_data := d\<rparr>)" "ring_pool_bag (?p\<lparr>pool_data := d\<rparr>) = {#0x1000#}"
      "ring_pool_cap (?p\<lparr>pool_data := d\<rparr>) = 3"
    using ringpool.enqueue [of ?p "[0x1000]" 1] demo_ring_pool [of 0] by auto
  define p where "p = ?p\<lparr>pool_data := d\<rparr>"
  have pe: "p = demo_pool 0 d 0" by (simp add: p_def demo_pool_def)
  have p: "pool_ok ring_pool_inv p" "pool_total ring_pool_bag p = {#0x1000#}" "ring_pool_cap p = 3" "ring_pool_bag p = {#0x1000#}"
    using d demo_caches_ok [of 0 d] by (simp_all add: pool_ok_def pool_total_def p_def [symmetric] pe [symmetric])
  obtain x where x: "slices_ready x" "x = (ex_mbuf 0x1000 0)\<lparr>udata64 := udata64 x\<rparr>"
    using slice_init_ready [of "ex_mbuf 0x1000 0"] by blast
  have f: "pool x = 0x100" "refcnt x = 1" "buf_len x = 2880" by (subst x(2), simp add: ex_mbuf_def)+
  define st where "st = ex_heap\<lparr>mbufs := [0x1000 \<mapsto> x, 0x9000 \<mapsto> ex_mbuf 0x9000 0], pools := [0x100 \<mapsto> p]\<rparr>"
  define rxq where "rxq = (demo_rxq x)\<lparr>rx_elts := replicate 6 NULL, rx_fake_mbuf := 0x9000, rx_queue_id := 5\<rparr>"
  let ?dev = "\<lparr>mprq_cfg_enabled = False, mprq_min_rxqs_num = 0, rx_vec_en = False, rxqs_strd_num_n = [], rxqs_n = 0\<rparr>"
  have start: "rxq_start ring_pool_inv ring_pool_bag ring_pool_cap rxq st p"
    using p x(1) f by (simp add: rxq_start_def rxq_def st_def demo_rxq_def elt_ok_def MLX5_VPMD_DESCS_PER_LOOP_def)
  have q: "rx_mp rxq = 0x100" "rx_elts_n rxq = 0" "length (rx_elts rxq) = 6" by (simp_all add: rxq_def demo_rxq_def)
  obtain p' objs s where g: "rte_mempool_get_bulk ops_table 0 p 1 = Some (p', objs, s)"
      "pool_total ring_pool_bag p = pool_total ring_pool_bag p' + mset objs" "s = 0 \<longrightarrow> length objs = 1"
      "0 < (1 :: u32) \<and> unat (1 :: u32) \<le> size (ring_pool_bag p) \<longrightarrow> s = 0"
    using ringpool.get_bulk_conserves [OF p(1), of 0 1] by auto
  have "s = 0" using g(4) p(4) by simp
  then obtain m where m: "objs = [m]" using g(3) by (auto simp: length_Suc_conv)
  then have "m = 0x1000" using g(2) p(2) by (auto simp: single_is_union)
  let ?x = "rte_pktmbuf_reset x"
  let ?st1 = "st\<lparr>pools := (pools st)(0x100 \<mapsto> p'), mbufs := (mbufs st)(0x1000 \<mapsto> ?x)\<rparr>"
  have al: "rte_pktmbuf_alloc ops_table 0 (rx_mp rxq) st = Some (?st1, 0x1000)"
    using g(1) \<open>s = 0\<close> m \<open>m = 0x1000\<close>
    by (simp add: rte_pktmbuf_alloc_def rte_mbuf_raw_alloc_def rte_mempool_get_def with_mbuf_def st_def q)
  have x1: "slices_ready ?x" "pool ?x = rx_mp rxq" "refcnt ?x = 1" "ol_flags ?x = 0" "data_len ?x = 0"
    using x(1) f q(1) reset_keeps_slices(1) [of x] by (simp_all add: rte_pktmbuf_reset_def rte_pktmbuf_reset_headroom_def Let_def)
  obtain st2 where st2: "sprq_place 0 rxq 0x1000 ?st1 = Some st2" using sprq_place_ok [of ?st1 "0x1000" ?x rxq 0] x1 by auto
  have "sprq_fill ops_table 0 0 (2 ^ rx_elts_n rxq) rxq st = Some (st2, rxq\<lparr>rx_elts := (rx_elts rxq)[0 := 0x1000]\<rparr>, 1, True)"
    using al st2 q(2,3) by simp
  then have "rxq_alloc_elts_sprq ?dev ops_table 0 rxq st = Some (st2, rxq\<lparr>rx_elts := (rx_elts rxq)[0 := 0x1000]\<rparr>, 0)"
    by (simp add: rxq_alloc_elts_sprq_def mlx5_rxq_check_vec_support_def)
  moreover have "length (rx_wqes rxq) = 1" "rx_queue_id rxq = 5" by (simp_all add: rxq_def demo_rxq_def)
  moreover have "\<forall>m \<in># pool_total ring_pool_bag p. \<forall>x. mbufs st m = Some x \<longrightarrow> 896 \<le> buf_len x"
    using p(2) f(3) by (simp add: st_def)
  ultimately show ?thesis using that start q(2) by blast
qed

theorem setup_ready_witness:
  "\<exists>rxq (st :: mbuf_heap) st' rxq2 x y. rx_queue_id rxq2 = 5 \<and> fill_ring demo_mlx5 [\<lambda>_. 0] 0 st' rxq = Some rxq2 \<and>
    rx_ok ring_pool_inv ring_pool_bag ring_pool_cap [] rxq2 st' \<and>
    mbufs st (rx_elts rxq2 ! 0) = Some x \<and> mbufs st' (rx_elts rxq2 ! 0) = Some y \<and>
    rte_be_to_cpu_64 (wqe_addr (rx_wqes rxq2 ! 0)) = buf_addr x + ucast (data_off y) \<and>
    unat (data_off y) + unat (rte_be_to_cpu_32 (wqe_byte_count (rx_wqes rxq2 ! 0))) = unat (buf_len x)"
proof -
  obtain dev rxq st p st' rxq' where a: "rxq_start ring_pool_inv ring_pool_bag ring_pool_cap rxq st p" "rx_elts_n rxq = 0"
    "length (rx_wqes rxq) = 1" "rx_queue_id rxq = 5" "rxq_alloc_elts_sprq dev ops_table 0 rxq st = Some (st', rxq', 0)"
    "\<forall>m \<in># pool_total ring_pool_bag p. \<forall>x. mbufs st m = Some x \<longrightarrow> 896 \<le> buf_len x"
    by (rule demo_alloc) blast
  have d: "rx_elts_n rxq < 16" "length (rx_wqes rxq) = 2 ^ rx_elts_n rxq" "(0 :: nat) < 16" "length [\<lambda>_ :: nat. 0 :: u8] = 2 ^ 0"
    using a(2,3) by simp_all
  from setup_ready [where env = demo_mlx5, OF a(1,5) d a(6)] obtain rxq2 where r:
      "fill_ring demo_mlx5 [\<lambda>_. 0] 0 st' rxq' = Some rxq2" "rx_queue_id rxq2 = rx_queue_id rxq"
      "rx_ok ring_pool_inv ring_pool_bag ring_pool_cap [] rxq2 st'"
    and s: "\<forall>k < 2 ^ rx_elts_n rxq. \<exists>x y. mbufs st (rx_elts rxq2 ! k) = Some x \<and> mbufs st' (rx_elts rxq2 ! k) = Some y \<and>
      data_len y = buf_len y - data_off y \<and> buf_addr y = buf_addr x \<and> buf_len y = buf_len x \<and>
      wqe_byte_count (rx_wqes rxq2 ! k) = rte_cpu_to_be_32 (ucast (data_len y)) \<and>
      rte_be_to_cpu_64 (wqe_addr (rx_wqes rxq2 ! k)) = buf_addr x + ucast (data_off y) \<and>
      unat (data_off y) + unat (rte_be_to_cpu_32 (wqe_byte_count (rx_wqes rxq2 ! k))) = unat (buf_len x)"
    by blast
  have z: "(0 :: nat) < 2 ^ rx_elts_n rxq" by simp
  obtain x y where
    "mbufs st (rx_elts rxq2 ! 0) = Some x" "mbufs st' (rx_elts rxq2 ! 0) = Some y"
    "rte_be_to_cpu_64 (wqe_addr (rx_wqes rxq2 ! 0)) = buf_addr x + ucast (data_off y)"
    "unat (data_off y) + unat (rte_be_to_cpu_32 (wqe_byte_count (rx_wqes rxq2 ! 0))) = unat (buf_len x)"
    using s [rule_format, OF z] by blast
  with r show ?thesis unfolding a(4) by blast
qed

text \<open>
  Without the bound on the buffers the subtraction in \<^verbatim>\<open>rte_pktmbuf_tailroom\<close> wraps: a buffer of 832
  bytes, the least that \<^verbatim>\<open>mlx5_rxq_new\<close> asserts, whose slice is 896 bytes away is offered with
  65472 bytes.
\<close>

lemma place_short_buffer:
  assumes "mbufs st m = Some x" "buf_len x = RTE_PKTMBUF_HEADROOM" "buf_iova x = 0x3FFFE40" "data_len x = 0" "slice_number rxq = 0"
  shows "\<exists>st' y. sprq_place i rxq m st = Some st' \<and> mbufs st' m = Some y \<and> data_off y = 896 \<and> data_len y = 65472"
proof -
  have "sliceFinder_HF_haswell 0x3FFFE40 0 = Some 896"
    unfolding sliceFinder_HF_haswell_def by (simp add: line_search.simps slice_eval LINE_def)
  with assms show ?thesis
    by (simp add: sprq_place_def with_mbuf_def rte_pktmbuf_tailroom_def rte_pktmbuf_headroom_def RTE_PKTMBUF_HEADROOM_def Let_def)
qed

end
