(* ===== verification/Kvs.thy ===== *)
theory Kvs
  imports MbufSlice ByteOrder
begin

text \<open>
  The emulated key-value store, \<^verbatim>\<open>examples/KVS/main.c\<close>: its values lie in cache lines of one
  slice, and every packet of a burst asks for the value of a key. The build has \<^verbatim>\<open>SLICE\<close> and
  \<^verbatim>\<open>HASWELL\<close> defined. Memory is the byte memory of the heap of packet buffers; the array of
  addresses is a list. \<^term>\<open>None\<close> is an access through an uninitialized or an invalid pointer.
  The statistics, which are floating-point numbers the program only prints, are left out.
\<close>

section \<open>Memory\<close>

text \<open>A 64-bit word in memory; the processor is little-endian.\<close>

definition load64 :: "(addr \<Rightarrow> u8) \<Rightarrow> addr \<Rightarrow> u64" where
  "load64 mem a = fold (\<lambda>k w. w OR push_bit (8 * k) (ucast (mem (a + of_nat k)))) [0..<8] 0"

definition bytes64 :: "u64 \<Rightarrow> u8 list" where
  "bytes64 w = map (\<lambda>k. ucast (drop_bit (8 * k) w)) [0..<8]"

definition store64 :: "addr \<Rightarrow> u64 \<Rightarrow> (addr \<Rightarrow> u8) \<Rightarrow> addr \<Rightarrow> u8" where
  "store64 a w mem = write_bytes mem a (bytes64 w)"

section \<open>The array of values\<close>

text \<open>
  The loop of \<^verbatim>\<open>create_array\<close> for the values \<open>i, i + 1, \<dots>\<close>: the virtual and the I/O address of
  the previous value give the next one.
\<close>

fun create_from ::
  "u16 \<Rightarrow> nat \<Rightarrow> nat \<Rightarrow> addr \<Rightarrow> iova \<Rightarrow> (addr \<Rightarrow> u8) \<Rightarrow> ((addr \<Rightarrow> u8) \<times> (addr \<times> iova) list) option" where
  "create_from sl i 0 va io mem = Some (mem, [])"
| "create_from sl i (Suc n) va io mem = do {
     off \<leftarrow> sliceFinder_HF_haswell (io + 64) (ucast sl);
     (let offset = 64 + ucast off;
          va = va + offset;
          io = io + offset in do {
       (mem, rest) \<leftarrow> create_from sl (i + 1) n va io (store64 va (of_nat (i * 2)) mem);
       Some (mem, (va, io) # rest) }) }"

text \<open>
  \<^verbatim>\<open>create_array\<close>: the memory from \<^verbatim>\<open>rte_calloc\<close> starts at \<open>va\<close>, with I/O address
  \<open>io\<close>. The result has the virtual and the I/O address of every value.
\<close>

definition create_array ::
  "nat \<Rightarrow> u16 \<Rightarrow> addr \<Rightarrow> iova \<Rightarrow> (addr \<Rightarrow> u8) \<Rightarrow> ((addr \<Rightarrow> u8) \<times> (addr \<times> iova) list) option" where
  "create_array nb_keys sl va io mem = do {
     off \<leftarrow> sliceFinder_HF_haswell io (ucast sl);
     if nb_keys = 0 then Some (mem, [])
     else (let va = va + ucast off; io = io + ucast off in do {
       (mem, rest) \<leftarrow> create_from sl 1 (nb_keys - 1) va io (store64 va 0 mem);
       Some (mem, (va, io) # rest) }) }"

text \<open>The values for which the verification after the loop prints an error.\<close>

definition verify_array :: "u16 \<Rightarrow> (addr \<times> iova) list \<Rightarrow> nat" where
  "verify_array sl arr = length (filter (\<lambda>(va, io). ucast (calculateSlice_HF_haswell io) \<noteq> sl) arr)"

section \<open>Packets\<close>

text \<open>\<^verbatim>\<open>ether_mirror\<close> at the address of the Ethernet header.\<close>

definition ether_mirror :: "addr \<Rightarrow> (addr \<Rightarrow> u8) \<Rightarrow> addr \<Rightarrow> u8" where
  "ether_mirror eth mem =
     (let tmpa = read_bytes mem eth 6;
          mem = write_bytes mem eth (read_bytes mem (eth + 6) 6)
      in write_bytes mem (eth + 6) tmpa)"

definition read_key_from_packet :: "rte_mbuf \<Rightarrow> (addr \<Rightarrow> u8) \<Rightarrow> u64" where
  "read_key_from_packet m mem = rte_be_to_cpu_64 (load64 mem (rte_pktmbuf_mtod_offset m 0 + 65))"

definition write_value_to_packet :: "rte_mbuf \<Rightarrow> addr \<Rightarrow> (addr \<Rightarrow> u8) \<Rightarrow> addr \<Rightarrow> u8" where
  "write_value_to_packet m found_value mem =
     write_bytes mem (rte_pktmbuf_mtod_offset m 0 + 65) (read_bytes mem found_value 64)"

record kvs =
  kv_array :: "(addr \<times> iova) list"
  kv_read_percent :: u64
  kv_read_counter :: u64

text \<open>
  The body of the loop over the packets of a burst. The write branch stores the key and then writes
  through the uninitialized pointer \<^verbatim>\<open>value\<close>.
\<close>

definition kvs_packet :: "addr \<Rightarrow> kvs \<Rightarrow> mbuf_heap \<Rightarrow> (kvs \<times> mbuf_heap) option" where
  "kvs_packet m kv st = do {
     x \<leftarrow> mbufs st m;
     (let key = read_key_from_packet x (bytes st) in
      if key < of_nat (length (kv_array kv)) then
        if kv_read_counter kv < kv_read_percent kv then
          (let v = fst (kv_array kv ! unat key);
               mem = store64 v (rte_cpu_to_be_64 (load64 (bytes st) v)) (bytes st);
               mem = write_value_to_packet x v mem;
               kv = kv\<lparr>kv_read_counter := (kv_read_counter kv + 1) mod 100\<rparr>;
               mem = ether_mirror (rte_pktmbuf_mtod_offset x 0) mem
           in Some (kv, st\<lparr>bytes := mem\<rparr>))
        else None
      else Some (kv, st)) }"

fun kvs_burst :: "addr list \<Rightarrow> kvs \<Rightarrow> mbuf_heap \<Rightarrow> (kvs \<times> mbuf_heap) option" where
  "kvs_burst [] kv st = Some (kv, st)"
| "kvs_burst (m # ms) kv st = do { (kv, st) \<leftarrow> kvs_packet m kv st; kvs_burst ms kv st }"

text \<open>Freeing the packets that were not sent.\<close>

fun free_unsent :: "rte_mempool_ops list \<Rightarrow> nat \<Rightarrow> addr list \<Rightarrow> mbuf_heap \<Rightarrow> mbuf_heap option" where
  "free_unsent tbl lcore [] st = Some st"
| "free_unsent tbl lcore (m # ms) st = do { st \<leftarrow> rte_pktmbuf_free tbl lcore m st; free_unsent tbl lcore ms st }"

text \<open>
  One round of \<^verbatim>\<open>lcore_main\<close> on one port: the packets received and the number of packets the
  transmit function accepts are parameters.
\<close>

definition kvs_round ::
  "rte_mempool_ops list \<Rightarrow> nat \<Rightarrow> addr list \<Rightarrow> (addr list \<Rightarrow> mbuf_heap \<Rightarrow> mbuf_heap \<times> nat) \<Rightarrow> kvs \<Rightarrow> mbuf_heap \<Rightarrow> (kvs \<times> mbuf_heap) option" where
  "kvs_round tbl lcore bufs tx kv st =
     (if bufs = [] then Some (kv, st)
      else do {
        (kv, st) \<leftarrow> kvs_burst bufs kv st;
        (let (st, nb_tx) = tx bufs st in
         if nb_tx < length bufs then do {
           st \<leftarrow> free_unsent tbl lcore (drop nb_tx bufs) st;
           Some (kv, st) }
         else Some (kv, st)) })"

section \<open>Lines of a slice\<close>

text \<open>The address of the one line of a slice in an aligned block of eight lines.\<close>

definition slice_line :: "u8 \<Rightarrow> nat \<Rightarrow> nat" where
  "slice_line s b = 512 * b + 64 * unat (calculateSlice_HF_haswell (of_nat (512 * b)) XOR s)"

lemma slice_line_bounds:
  assumes "s < 8"
  shows "512 * b \<le> slice_line s b" "slice_line s b \<le> 512 * b + 448" "64 dvd slice_line s b" "slice_line s b div 512 = b"
proof -
  have u: "unat (calculateSlice_HF_haswell (of_nat (512 * b)) XOR s) < 8" by (intro xor_line_lt_8 slice_lt_8 assms)
  then show 1: "512 * b \<le> slice_line s b" "slice_line s b \<le> 512 * b + 448" by (simp_all add: slice_line_def)
  show "64 dvd slice_line s b" unfolding slice_line_def by (intro dvd_add dvd_triv_left) (simp add: dvd_mult2)
  have "slice_line s b < 512 * (b + 1)" using 1(2) by simp
  with 1(1) show "slice_line s b div 512 = b" by (intro div_nat_eqI) simp_all
qed

lemma slice_of_nat:
  assumes "64 dvd m" "m div 512 = b" "512 * b + 512 \<le> 2 ^ 64"
  shows "calculateSlice_HF_haswell (of_nat m) = calculateSlice_HF_haswell (of_nat (512 * b)) XOR of_nat (m mod 512 div 64)"
proof -
  have "unat (of_nat (512 * b) :: u64) = 512 * b" using assms(3) by (intro unat_of_nat_small) simp
  then have "512 dvd unat (of_nat (512 * b) :: u64)" by simp
  then have al: "take_bit 9 (of_nat (512 * b) :: u64) = 0" by (rule aligned_take_bit)
  have m: "m = 512 * b + m mod 512" using mult_div_mod_eq [of 512 m] assms(2) by simp
  have "calculateSlice_HF_haswell (of_nat (512 * b) + of_nat (m mod 512)) =
      calculateSlice_HF_haswell (of_nat (512 * b)) XOR of_nat (m mod 512 div 64)"
    by (rule aligned_plus_slice [OF al]) simp
  moreover have "(of_nat m :: u64) = of_nat (512 * b) + of_nat (m mod 512)" by (metis m of_nat_add)
  ultimately show ?thesis by simp
qed

lemma slice_line_iff:
  assumes "s < 8" "64 dvd m" "m div 512 = b" "512 * b + 512 \<le> 2 ^ 64"
  shows "calculateSlice_HF_haswell (of_nat m) = s \<longleftrightarrow> m = slice_line s b"
proof -
  let ?h = "calculateSlice_HF_haswell (of_nat (512 * b))" and ?j = "m mod 512 div 64"
  have j: "?j < 8" by simp
  have "64 dvd m mod 512" using assms(2) by (simp add: dvd_mod)
  then have m: "m = 512 * b + 64 * ?j" using mult_div_mod_eq [of 512 m] assms(3) by (simp only: dvd_mult_div_cancel)
  have uj: "unat (of_nat ?j :: u8) = ?j" using j by (intro unat_of_nat_small) simp
  have "?h XOR of_nat ?j = s \<longleftrightarrow> of_nat ?j = ?h XOR s" by (auto simp: xor.assoc [symmetric])
  also have "\<dots> \<longleftrightarrow> ?j = unat (?h XOR s)" using uj by (metis word_unat_eq_iff)
  also have "\<dots> \<longleftrightarrow> m = slice_line s b" using m unfolding slice_line_def by auto
  finally show ?thesis unfolding slice_of_nat [OF assms(2-4)] .
qed

text \<open>The search finds the line of the slice in the block, or else the one in the next block.\<close>

lemma finder_line:
  assumes s: "s < 8" and a: "64 dvd a" "a + 1024 \<le> 2 ^ 64"
  shows "\<exists>off. sliceFinder_HF_haswell (of_nat a) s = Some off \<and>
    a + unat off = (if a \<le> slice_line s (a div 512) then slice_line s (a div 512) else slice_line s (a div 512 + 1))"
proof -
  let ?b = "a div 512"
  define L where "L = (if a \<le> slice_line s ?b then slice_line s ?b else slice_line s (?b + 1))"
  have ab: "512 * ?b \<le> a" "a < 512 * ?b + 512" by linarith+
  note B = slice_line_bounds [OF s, of ?b] slice_line_bounds [OF s, of "?b + 1"]
  have L: "a \<le> L" "L < a + 1024" "64 dvd L" "L div 512 = ?b \<or> L div 512 = ?b + 1"
  proof -
    have "a < slice_line s (?b + 1)" "slice_line s (?b + 1) < a + 1024" "slice_line s ?b < a + 1024" using B ab by linarith+
    then show "a \<le> L" "L < a + 1024" by (simp_all add: L_def)
    show "64 dvd L" "L div 512 = ?b \<or> L div 512 = ?b + 1" using B(3,4,7,8) by (simp_all add: L_def)
  qed
  have blk: "512 * ?b + 512 \<le> 2 ^ 64" "512 * (?b + 1) + 512 \<le> 2 ^ 64"
  proof -
    have le: "512 * ?b + 512 \<le> a + 1024" "512 * (?b + 1) + 512 \<le> a + 1024"
      using ab(1) by (simp_all add: add_mult_distrib2)
    show "512 * ?b + 512 \<le> 2 ^ 64" using le(1) a(2) by (rule order_trans)
    show "512 * (?b + 1) + 512 \<le> 2 ^ 64" using le(2) a(2) by (rule order_trans)
  qed
  obtain off where off: "sliceFinder_HF_haswell (of_nat a) s = Some off" "off \<le> 896" "64 dvd unat off"
      "calculateSlice_HF_haswell (of_nat a + ucast off) = s"
      "\<forall>o'. 64 dvd unat o' \<longrightarrow> o' < off \<longrightarrow> calculateSlice_HF_haswell (of_nat a + ucast o') \<noteq> s"
    using sliceFinder_first [OF s, of "of_nat a"] by blast
  have uo: "unat off \<le> 896" using off(2) by (simp add: word_le_nat_alt)
  have conv: "of_nat a + ucast (w :: u16) = (of_nat (a + unat w) :: u64)" for w
  proof -
    have "(ucast w :: u64) = of_nat (unat w)" by (metis of_nat_unat)
    then show ?thesis by simp
  qed
  define o0 :: u16 where "o0 = of_nat (L - a)"
  have u0: "unat o0 = L - a" unfolding o0_def using L(2) by (intro unat_of_nat_small) simp
  have "calculateSlice_HF_haswell (of_nat L) = s"
  proof (cases "a \<le> slice_line s ?b")
    case True
    then show ?thesis using slice_line_iff [OF s L(3) _ blk(1)] slice_line_bounds(4) [OF s, of ?b] by (simp add: L_def)
  next
    case False
    then show ?thesis using slice_line_iff [OF s L(3) _ blk(2)] slice_line_bounds(4) [OF s, of "?b + 1"] by (simp add: L_def)
  qed
  then have "calculateSlice_HF_haswell (of_nat a + ucast o0) = s" unfolding conv u0 using L(1) by simp
  moreover have "64 dvd unat o0" unfolding u0 using L(3) a(1) by (rule dvd_diff_nat)
  ultimately have "\<not> o0 < off" using off(5) by blast
  then have le: "a + unat off \<le> L" using u0 L(1) by (simp add: word_less_nat_alt)
  define m where "m = a + unat off"
  have m: "64 dvd m" "a \<le> m" "m \<le> L" "calculateSlice_HF_haswell (of_nat m) = s"
    using off(3,4) a(1) le unfolding m_def conv by simp_all
  have "m = L"
  proof (cases "m div 512 = ?b")
    case True
    then have "m = slice_line s ?b" using slice_line_iff [OF s m(1) True blk(1)] m(4) by simp
    with m(2) show ?thesis by (simp add: L_def)
  next
    case False
    have "m div 512 \<le> L div 512" "?b \<le> m div 512" using m(2,3) by (simp_all add: div_le_mono)
    then have q: "m div 512 = ?b + 1" using False L(4) by linarith
    then have eq: "m = slice_line s (?b + 1)" using slice_line_iff [OF s m(1) q blk(2)] m(4) by simp
    have "\<not> a \<le> slice_line s ?b"
    proof
      assume "a \<le> slice_line s ?b"
      then have "L = slice_line s ?b" by (simp add: L_def)
      then have "L div 512 = ?b" using slice_line_bounds(4) [OF s] by simp
      then show False using q m(3) div_le_mono [of m L 512] by simp
    qed
    then show ?thesis using eq by (simp add: L_def)
  qed
  then show ?thesis using off(1) by (simp add: m_def L_def)
qed

section \<open>Loads and stores\<close>

lemma addr_shift_inj:
  assumes "i < 2 ^ 64" "j < 2 ^ 64"
  shows "(a :: addr) + of_nat i = a + of_nat j \<longleftrightarrow> i = j"
proof
  assume "a + of_nat i = a + of_nat j"
  then have "(of_nat i :: addr) = of_nat j" by (simp only: add_left_cancel)
  then have "unat (of_nat i :: addr) = unat (of_nat j :: addr)" by (rule arg_cong)
  then show "i = j" using unat_of_nat_small [of i, where ?'a = 64] unat_of_nat_small [of j, where ?'a = 64] assms by simp
qed simp

lemma write_bytes_nth:
  assumes "length bs < 2 ^ 64" "k < length bs"
  shows "write_bytes mem a bs (a + of_nat k) = bs ! k"
proof -
  have "read_bytes (write_bytes mem a bs) a (length bs) = bs" using assms(1) by (intro read_write_bytes) simp
  then have "read_bytes (write_bytes mem a bs) a (length bs) ! k = bs ! k" by simp
  then show ?thesis using assms(2) by (simp add: read_bytes_def)
qed

lemma write_bytes_apart:
  assumes "\<And>k. k < length bs \<Longrightarrow> x \<noteq> a + of_nat k"
  shows "write_bytes mem a bs x = mem x"
  using assms by (intro write_bytes_notin) (auto simp: region_def)

lemma bit_fold_or: "bit (fold (\<lambda>k w. w OR f k) ks w0) n \<longleftrightarrow> bit w0 n \<or> (\<exists>k \<in> set ks. bit (f k) n)"
  by (induction ks arbitrary: w0) (auto simp: bit_or_iff)

lemma load64_bit:
  assumes "k < 8" "j < 8"
  shows "bit (load64 mem a) (8 * k + j) = bit (mem (a + of_nat k)) j"
proof -
  have b: "bit (push_bit (8 * i) (ucast (mem (a + of_nat i)) :: u64)) (8 * k + j) \<longleftrightarrow> i = k \<and> bit (mem (a + of_nat i)) j" if "i < 8" for i
  proof (cases "i = k")
    case True
    then show ?thesis using assms by (auto simp: bit_simps)
  next
    case False
    then have "8 * k + j < 8 * i \<or> 8 * i + 8 \<le> 8 * k + j" using assms(2) by linarith
    then show ?thesis using False assms by (auto simp: bit_simps dest: bit_imp_le_length)
  qed
  show ?thesis unfolding load64_def bit_fold_or using b assms(1) by (auto simp: bit_simps)
qed

lemma load64_eqI:
  assumes "\<And>k. k < 8 \<Longrightarrow> mem' (b + of_nat k) = mem (a + of_nat k)"
  shows "load64 mem' b = load64 mem a"
  by (rule bit_byte_eqI [where b = 8]) (simp_all add: load64_bit assms)

lemma load64_store64 [simp]: "load64 (store64 a w mem) a = w"
proof (rule bit_byte_eqI [where b = 8])
  fix k j :: nat assume k: "k < 8" "j < 8"
  have "bytes64 w ! k = ucast (drop_bit (8 * k) w)" using k(1) by (simp add: bytes64_def)
  moreover have "store64 a w mem (a + of_nat k) = bytes64 w ! k"
    unfolding store64_def using k(1) by (intro write_bytes_nth) (simp_all add: bytes64_def)
  ultimately show "bit (load64 (store64 a w mem) a) (8 * k + j) = bit w (8 * k + j)"
    using k by (simp add: load64_bit bit_simps)
qed simp

lemma store64_apart:
  assumes "\<And>k. k < 8 \<Longrightarrow> x \<noteq> a + of_nat k"
  shows "store64 a w mem x = mem x"
  unfolding store64_def using assms by (intro write_bytes_apart) (simp add: bytes64_def)

section \<open>The values of the store\<close>

lemma slice_line_apart:
  assumes "s < 8" "c < d"
  shows "slice_line s c + 64 \<le> slice_line s d"
proof -
  have "512 * (c + 1) \<le> 512 * d" using assms(2) by (intro mult_le_mono2) simp
  then show ?thesis using slice_line_bounds(2) [OF assms(1), of c] slice_line_bounds(1) [OF assms(1), of d]
    by (simp add: add_mult_distrib2)
qed

lemma next_line:
  assumes s: "s < 8" and a: "512 * (c + 3) \<le> 2 ^ 64"
  shows "\<exists>off. sliceFinder_HF_haswell (of_nat (slice_line s c) + 64) s = Some off \<and>
    slice_line s c + 64 + unat off = slice_line s (c + 1)"
proof -
  note B = slice_line_bounds [OF s, of c]
  let ?m = "slice_line s c + 64"
  have "?m + 1024 \<le> 512 * (c + 3)" using B(2) by simp
  then have m: "64 dvd ?m" "?m + 1024 \<le> 2 ^ 64" using B(3) a by (simp, blast intro: order_trans)
  obtain off where off: "sliceFinder_HF_haswell (of_nat ?m) s = Some off"
      "?m + unat off = (if ?m \<le> slice_line s (?m div 512) then slice_line s (?m div 512) else slice_line s (?m div 512 + 1))"
    using finder_line [OF s m] by blast
  have "(if ?m \<le> slice_line s (?m div 512) then slice_line s (?m div 512) else slice_line s (?m div 512 + 1)) = slice_line s (c + 1)"
  proof (cases "?m < 512 * c + 512")
    case True
    then have "?m div 512 = c" using B(1) by (intro div_nat_eqI) simp_all
    then show ?thesis by simp
  next
    case False
    then have eq: "?m = 512 * (c + 1)" using B(2) by simp
    then have "?m div 512 = c + 1" by simp
    then show ?thesis using eq slice_line_bounds(1) [OF s, of "c + 1"] by simp
  qed
  then show ?thesis using off by (simp add: of_nat_add)
qed

lemma ucast_of_unat: "(ucast (w :: u16) :: u64) = of_nat (unat w)"
  by (metis of_nat_unat)

lemma addr_offset_apart:
  assumes "j < 8" "i < 8" "x + 64 \<le> y" "y + 64 \<le> (2 :: nat) ^ 64"
  shows "(a :: addr) + of_nat x + of_nat j \<noteq> a + of_nat y + of_nat i"
proof
  assume "a + of_nat x + of_nat j = a + of_nat y + of_nat i"
  then have "a + of_nat (x + j) = a + of_nat (y + i)" by (simp add: add.assoc)
  then have "x + j = y + i" using assms by (intro iffD1 [OF addr_shift_inj]) simp_all
  then show False using assms by simp
qed

lemma create_from_ok:
  assumes s: "ucast sl < (8 :: u8)" and b: "512 * (c + n + 2) \<le> 2 ^ 64" and a: "a \<le> slice_line (ucast sl) c"
  shows "\<exists>mem'. create_from sl i n (va + of_nat (slice_line (ucast sl) c - a)) (of_nat (slice_line (ucast sl) c)) mem =
      Some (mem', map (\<lambda>k. (va + of_nat (slice_line (ucast sl) (c + k) - a), of_nat (slice_line (ucast sl) (c + k)))) [1..<n + 1]) \<and>
    (\<forall>k. 1 \<le> k \<longrightarrow> k \<le> n \<longrightarrow> load64 mem' (va + of_nat (slice_line (ucast sl) (c + k) - a)) = of_nat (2 * (i + k - 1))) \<and>
    (\<forall>x. (\<forall>k j. 1 \<le> k \<longrightarrow> k \<le> n \<longrightarrow> j < 8 \<longrightarrow> x \<noteq> va + of_nat (slice_line (ucast sl) (c + k) - a) + of_nat j) \<longrightarrow> mem' x = mem x)"
  using b a
proof (induction n arbitrary: c i mem)
  case (Suc n)
  let ?L = "slice_line (ucast sl)"
  have "512 * (c + 3) \<le> 512 * (c + Suc n + 2)" by (intro mult_le_mono2) simp
  then have b3: "512 * (c + 3) \<le> 2 ^ 64" using Suc.prems(1) by (rule order_trans)
  have "c + 1 + n + 2 = c + Suc n + 2" by simp
  then have b: "512 * (c + 1 + n + 2) \<le> 2 ^ 64" using Suc.prems(1) by (simp only:)
  obtain off where off: "sliceFinder_HF_haswell (of_nat (?L c) + 64) (ucast sl) = Some off" "?L c + 64 + unat off = ?L (c + 1)"
    using next_line [OF s b3] by blast
  let ?mem = "store64 (va + of_nat (?L (c + 1) - a)) (of_nat (i * 2)) mem"
  have le: "a \<le> ?L (c + 1)" using slice_line_apart [OF s, of c "c + 1"] Suc.prems(2) by simp
  have offset: "64 + ucast off = (of_nat (?L (c + 1) - ?L c) :: u64)"
  proof -
    have "?L (c + 1) - ?L c = 64 + unat off" using off(2) by linarith
    then show ?thesis by simp
  qed
  have va: "va + of_nat (?L c - a) + (64 + ucast off) = va + of_nat (?L (c + 1) - a)"
  proof -
    have "?L c - a + (?L (c + 1) - ?L c) = ?L (c + 1) - a" using Suc.prems(2) slice_line_apart [OF s, of c "c + 1"] by simp
    then have "(of_nat (?L (c + 1) - a) :: u64) = of_nat (?L c - a) + of_nat (?L (c + 1) - ?L c)" by (metis of_nat_add)
    then show ?thesis unfolding offset by (simp only: add.assoc)
  qed
  have io: "of_nat (?L c) + (64 + ucast off) = (of_nat (?L (c + 1)) :: u64)"
  proof -
    have "?L c + (?L (c + 1) - ?L c) = ?L (c + 1)" using slice_line_apart [OF s, of c "c + 1"] by simp
    then show ?thesis unfolding offset by (metis of_nat_add)
  qed
  obtain mem' where IH: "create_from sl (i + 1) n (va + of_nat (?L (c + 1) - a)) (of_nat (?L (c + 1))) ?mem =
      Some (mem', map (\<lambda>k. (va + of_nat (?L (c + 1 + k) - a), of_nat (?L (c + 1 + k)))) [1..<n + 1])"
    and ld: "\<And>k. 1 \<le> k \<Longrightarrow> k \<le> n \<Longrightarrow> load64 mem' (va + of_nat (?L (c + 1 + k) - a)) = of_nat (2 * (i + 1 + k - 1))"
    and keep: "\<And>x. (\<And>k j. 1 \<le> k \<Longrightarrow> k \<le> n \<Longrightarrow> j < 8 \<Longrightarrow> x \<noteq> va + of_nat (?L (c + 1 + k) - a) + of_nat j) \<Longrightarrow> mem' x = ?mem x"
    using Suc.IH [OF b le, of "i + 1" ?mem] by blast
  have run: "create_from sl i (Suc n) (va + of_nat (?L c - a)) (of_nat (?L c)) mem =
      Some (mem', (va + of_nat (?L (c + 1) - a), of_nat (?L (c + 1))) #
        map (\<lambda>k. (va + of_nat (?L (c + 1 + k) - a), of_nat (?L (c + 1 + k)))) [1..<n + 1])"
    using IH by (simp add: off(1) va io Let_def del: upt_Suc)
  have "[1..<Suc n + 1] = 1 # map Suc [1..<n + 1]" by (simp add: upt_conv_Cons map_Suc_upt del: upt_Suc)
  then have lst: "map (\<lambda>k. (va + of_nat (?L (c + k) - a), of_nat (?L (c + k)))) [1..<Suc n + 1] =
      (va + of_nat (?L (c + 1) - a), of_nat (?L (c + 1))) #
        map (\<lambda>k. (va + of_nat (?L (c + 1 + k) - a), of_nat (?L (c + 1 + k)))) [1..<n + 1]"
    by (simp add: comp_def del: upt_Suc)
  have far: "va + of_nat (?L (c + 1) - a) + of_nat j \<noteq> va + of_nat (?L (c + 1 + k) - a) + of_nat j'"
    if "1 \<le> k" "k \<le> n" "j < 8" "j' < 8" for k j j'
  proof (rule addr_offset_apart [OF that(3,4)])
    show "?L (c + 1) - a + 64 \<le> ?L (c + 1 + k) - a"
      using slice_line_apart [OF s, of "c + 1" "c + 1 + k"] that(1) le by simp
    have "?L (c + 1 + k) + 64 \<le> 512 * (c + 1 + k) + 512" using slice_line_bounds(2) [OF s, of "c + 1 + k"] by simp
    also have "\<dots> \<le> 512 * (c + 1 + n + 2)" using that(2) by simp
    finally have "?L (c + 1 + k) + 64 \<le> 2 ^ 64" using b by (rule order_trans)
    then show "?L (c + 1 + k) - a + 64 \<le> 2 ^ 64" by (rule order_trans [rotated]) simp
  qed
  have first: "load64 mem' (va + of_nat (?L (c + 1) - a)) = of_nat (2 * i)"
  proof -
    have "load64 mem' (va + of_nat (?L (c + 1) - a)) = load64 ?mem (va + of_nat (?L (c + 1) - a))"
      by (rule load64_eqI, rule keep) (use far in blast)
    then show ?thesis by (simp add: mult.commute)
  qed
  show ?case
  proof (intro exI conjI allI impI)
    show "create_from sl i (Suc n) (va + of_nat (?L c - a)) (of_nat (?L c)) mem =
        Some (mem', map (\<lambda>k. (va + of_nat (?L (c + k) - a), of_nat (?L (c + k)))) [1..<Suc n + 1])"
      unfolding run lst ..
  next
    fix k assume k: "1 \<le> k" "k \<le> Suc n"
    show "load64 mem' (va + of_nat (?L (c + k) - a)) = of_nat (2 * (i + k - 1))"
    proof (cases "k = 1")
      case True
      then show ?thesis using first by simp
    next
      case False
      then show ?thesis using ld [of "k - 1"] k by simp
    qed
  next
    fix x assume x: "\<forall>k j. 1 \<le> k \<longrightarrow> k \<le> Suc n \<longrightarrow> j < 8 \<longrightarrow> x \<noteq> va + of_nat (?L (c + k) - a) + of_nat j"
    have "mem' x = ?mem x"
    proof (rule keep)
      fix k j :: nat assume "1 \<le> k" "k \<le> n" "j < 8"
      then show "x \<noteq> va + of_nat (?L (c + 1 + k) - a) + of_nat j" using x [rule_format, of "k + 1" j] by simp
    qed
    also have "\<dots> = mem x" by (rule store64_apart) (use x [rule_format, of 1] in simp)
    finally show "mem' x = mem x" .
  qed
qed simp

text \<open>
  What \<^verbatim>\<open>create_array\<close> has to build: \<open>n\<close> values at increasing offsets, on lines of their own
  that lie in the slice, the value of key \<open>i\<close> being \<open>2 * i\<close>.
\<close>

definition values_at :: "u16 \<Rightarrow> addr \<Rightarrow> iova \<Rightarrow> nat list \<Rightarrow> (addr \<Rightarrow> u8) \<Rightarrow> (addr \<times> iova) list \<Rightarrow> bool" where
  "values_at sl va io offs mem arr \<longleftrightarrow>
     arr = map (\<lambda>off. (va + of_nat off, io + of_nat off)) offs \<and>
     (\<forall>i < length offs. 64 dvd offs ! i \<and>
        ucast (calculateSlice_HF_haswell (snd (arr ! i))) = sl \<and>
        load64 mem (fst (arr ! i)) = of_nat (2 * i)) \<and>
     (\<forall>i < length offs. \<forall>j < i. offs ! j + 64 \<le> offs ! i)"

lemma create_array_ok:
  assumes s: "ucast sl < (8 :: u8)" and a: "64 dvd a" "a + 512 * n + 1024 \<le> 2 ^ 64"
  shows "\<exists>mem' c. a \<le> slice_line (ucast sl) c \<and> c \<le> a div 512 + 1 \<and> (512 dvd a \<longrightarrow> c = a div 512) \<and>
    create_array n sl va (of_nat a) mem =
      Some (mem', map (\<lambda>k. (va + of_nat (slice_line (ucast sl) (c + k) - a), of_nat (slice_line (ucast sl) (c + k)))) [0..<n]) \<and>
    (\<forall>k < n. load64 mem' (va + of_nat (slice_line (ucast sl) (c + k) - a)) = of_nat (2 * k)) \<and>
    (\<forall>x. (\<forall>k j. k < n \<longrightarrow> j < 8 \<longrightarrow> x \<noteq> va + of_nat (slice_line (ucast sl) (c + k) - a) + of_nat j) \<longrightarrow> mem' x = mem x)"
proof -
  let ?L = "slice_line (ucast sl)"
  have "a + 1024 \<le> a + 512 * n + 1024" by simp
  then have a': "a + 1024 \<le> 2 ^ 64" using a(2) by (rule order_trans)
  define c where "c = (if a \<le> ?L (a div 512) then a div 512 else a div 512 + 1)"
  obtain off where off: "sliceFinder_HF_haswell (of_nat a) (ucast sl) = Some off" "a + unat off = ?L c"
    using finder_line [OF s a(1) a'] unfolding c_def by (auto split: if_splits)
  have le: "a \<le> ?L c" using off(2) by linarith
  have c: "c \<le> a div 512 + 1" by (simp add: c_def)
  have al: "c = a div 512" if "512 dvd a"
    using that slice_line_bounds(1) [OF s, of "a div 512"] by (auto simp: c_def)
  have d: "?L c - a = unat off" using off(2) by linarith
  have io: "of_nat a + ucast off = (of_nat (?L c) :: u64)" using off(2) by (metis of_nat_add ucast_of_unat)
  have va: "va + ucast off = va + of_nat (?L c - a)" unfolding d by (metis ucast_of_unat)
  show ?thesis
  proof (cases n)
    case 0
    then show ?thesis using off(1) le c al by (intro exI [of _ mem] exI [of _ c]) (simp add: create_array_def)
  next
    case (Suc m)
    have "512 * (c + m + 2) \<le> 512 * (a div 512 + 1 + m + 2)" using c by (intro mult_le_mono2) simp
    also have "\<dots> \<le> a + 512 * n + 1024" using Suc by (simp add: add_mult_distrib2)
    finally have b: "512 * (c + m + 2) \<le> 2 ^ 64" using a(2) by (rule order_trans)
    let ?mem = "store64 (va + of_nat (?L c - a)) 0 mem"
    obtain mem' where run: "create_from sl 1 m (va + of_nat (?L c - a)) (of_nat (?L c)) ?mem =
        Some (mem', map (\<lambda>k. (va + of_nat (?L (c + k) - a), of_nat (?L (c + k)))) [1..<m + 1])"
      and ld: "\<And>k. 1 \<le> k \<Longrightarrow> k \<le> m \<Longrightarrow> load64 mem' (va + of_nat (?L (c + k) - a)) = of_nat (2 * (1 + k - 1))"
      and keep: "\<And>x. (\<And>k j. 1 \<le> k \<Longrightarrow> k \<le> m \<Longrightarrow> j < 8 \<Longrightarrow> x \<noteq> va + of_nat (?L (c + k) - a) + of_nat j) \<Longrightarrow> mem' x = ?mem x"
      using create_from_ok [OF s b le, of 1 va ?mem] by blast
    have lst: "map (\<lambda>k. (va + of_nat (?L (c + k) - a), of_nat (?L (c + k)))) [0..<n] =
        (va + of_nat (?L c - a), of_nat (?L c)) #
        map (\<lambda>k. (va + of_nat (?L (c + k) - a), of_nat (?L (c + k)))) [1..<m + 1]" (is "?arr = _")
      using Suc by (simp add: upt_conv_Cons del: upt_Suc)
    have "create_array n sl va (of_nat a) mem = Some (mem', ?arr)"
      unfolding lst using Suc run by (simp add: create_array_def off(1) va io Let_def del: upt_Suc)
    moreover have "load64 mem' (va + of_nat (?L (c + k) - a)) = of_nat (2 * k)" if k: "k < n" for k
    proof (cases "k = 0")
      case True
      have "load64 mem' (va + of_nat (?L c - a)) = load64 ?mem (va + of_nat (?L c - a))"
      proof (rule load64_eqI, rule keep, rule addr_offset_apart)
        fix i k j :: nat assume k: "1 \<le> k" "k \<le> m"
        show "?L c - a + 64 \<le> ?L (c + k) - a" using slice_line_apart [OF s, of c "c + k"] k(1) le by simp
        have "?L (c + k) + 64 \<le> 512 * (c + k) + 512" using slice_line_bounds(2) [OF s, of "c + k"] by simp
        also have "\<dots> \<le> 512 * (c + m + 2)" using k(2) by simp
        finally have "?L (c + k) + 64 \<le> 2 ^ 64" using b by (rule order_trans)
        then show "?L (c + k) - a + 64 \<le> 2 ^ 64" by (rule order_trans [rotated]) simp
      qed
      then show ?thesis using True by simp
    next
      case False
      then show ?thesis using ld [of k] k Suc by simp
    qed
    moreover have "mem' x = mem x" if x: "\<forall>k j. k < n \<longrightarrow> j < 8 \<longrightarrow> x \<noteq> va + of_nat (?L (c + k) - a) + of_nat j" for x
    proof -
      have "mem' x = ?mem x" by (rule keep) (use x Suc in simp)
      also have "\<dots> = mem x" by (rule store64_apart) (use x [rule_format, of 0] Suc in simp)
      finally show ?thesis .
    qed
    ultimately show ?thesis using le c al by blast
  qed
qed

lemma slice_cast:
  fixes sl :: "'a::len word"
  assumes "unat sl < 8"
  shows "ucast sl < (8 :: u8)" "unat (ucast sl :: u8) = unat sl"
proof -
  have "(ucast sl :: u8) = of_nat (unat sl)" by (metis of_nat_unat)
  then show u: "unat (ucast sl :: u8) = unat sl" using assms by (simp only:) (intro unat_of_nat_small, simp)
  then show "ucast sl < (8 :: u8)" using assms by (simp add: word_less_nat_alt)
qed

text \<open>The lines of the array lie in the room for it.\<close>

lemma slice_line_room:
  assumes s: "s < 8" and al: "64 dvd a" and c: "c \<le> a div 512 + 1" "512 dvd a \<Longrightarrow> c = a div 512" and k: "k < n"
  shows "slice_line s (c + k) - a + 64 \<le> 512 * n + (if 512 dvd a then 0 else 448)"
proof (cases "512 dvd a")
  case True
  then have "512 * c = a" using c(2) by simp
  moreover have "512 * (k + 1) \<le> 512 * n" using k by (intro mult_le_mono2) simp
  ultimately show ?thesis using slice_line_bounds(2) [OF s, of "c + k"] True by (simp add: add_mult_distrib2)
next
  case False
  have "512 * (c + k + 1) \<le> 512 * (a div 512 + 1 + n)" using c(1) k by (intro mult_le_mono2) simp
  then have "512 * (c + k) \<le> 512 * (a div 512) + 512 * n" by (simp add: add_mult_distrib2)
  moreover have "512 * (a div 512) + 64 \<le> a"
  proof -
    have "64 dvd a mod 512" using al by (simp add: dvd_mod)
    then have "64 \<le> a mod 512" using False by (auto simp: dvd_eq_mod_eq_0 intro: dvd_imp_le)
    then show ?thesis using mult_div_mod_eq [of 512 a] by linarith
  qed
  ultimately show ?thesis using slice_line_bounds(2) [OF s, of "c + k"] False by simp
qed

text \<open>
  C10: \<^verbatim>\<open>create_array\<close> returns, and it builds the array it has to: the values lie on different
  cache lines, all in the requested slice, each holds twice its key, and the check at the end finds
  no error. For memory that is only aligned to a cache line, the last value ends at most 448 bytes
  behind the \<open>512 * n\<close> bytes allocated; aligned to 512 bytes, all values fit. No byte outside
  of these bounds is written.
\<close>

theorem create_array_in_slice:
  assumes "sl < 8" "64 dvd a" "a + 512 * n + 1024 \<le> 2 ^ 64"
  shows "\<exists>mem' arr offs. create_array n sl va (of_nat a) mem = Some (mem', arr) \<and>
    length offs = n \<and> values_at sl va (of_nat a) offs mem' arr \<and> verify_array sl arr = 0 \<and>
    (\<forall>off \<in> set offs. off + 64 \<le> 512 * n + (if 512 dvd a then 0 else 448)) \<and>
    (\<forall>x. (\<forall>k < 512 * n + (if 512 dvd a then 0 else 448). x \<noteq> va + of_nat k) \<longrightarrow> mem' x = mem x)"
proof -
  let ?L = "slice_line (ucast sl)" and ?room = "512 * n + (if 512 dvd a then 0 else 448)"
  have "unat sl < 8" using assms(1) by (simp add: word_less_nat_alt)
  then have s: "ucast sl < (8 :: u8)" "ucast (ucast sl :: u8) = sl" using slice_cast [of sl] by (simp_all add: word_unat_eq_iff)
  obtain mem' c where c: "a \<le> ?L c" "c \<le> a div 512 + 1" "512 dvd a \<Longrightarrow> c = a div 512"
    and run: "create_array n sl va (of_nat a) mem = Some (mem', map (\<lambda>k. (va + of_nat (?L (c + k) - a), of_nat (?L (c + k)))) [0..<n])"
    and ld: "\<And>k. k < n \<Longrightarrow> load64 mem' (va + of_nat (?L (c + k) - a)) = of_nat (2 * k)"
    and keep: "\<And>x. (\<And>k j. k < n \<Longrightarrow> j < 8 \<Longrightarrow> x \<noteq> va + of_nat (?L (c + k) - a) + of_nat j) \<Longrightarrow> mem' x = mem x"
    using create_array_ok [OF s(1) assms(2,3), of va mem] by blast
  define offs where "offs = map (\<lambda>k. ?L (c + k) - a) [0..<n]"
  define arr :: "(addr \<times> iova) list" where "arr = map (\<lambda>off. (va + of_nat off, of_nat a + of_nat off)) offs"
  have mono: "?L (c + j) + 64 \<le> ?L (c + i)" if "j < i" for i j using slice_line_apart [OF s(1), of "c + j" "c + i"] that by simp
  have le: "a \<le> ?L (c + k)" for k using mono [of 0 k] c(1) by (cases k) simp_all
  have io: "of_nat a + of_nat (?L (c + k) - a) = (of_nat (?L (c + k)) :: u64)" for k
    using le [of k] by (metis le_add_diff_inverse of_nat_add)
  have arr: "arr = map (\<lambda>k. (va + of_nat (?L (c + k) - a), of_nat (?L (c + k)))) [0..<n]"
    unfolding arr_def offs_def map_map comp_def io ..
  have blk: "512 * (c + k) + 512 \<le> a + 512 * n + 1024" if "k < n" for k
  proof -
    have "512 * (c + k) \<le> 512 * (a div 512 + n)" using c(2) that by (intro mult_le_mono2) simp
    then show ?thesis by (simp add: add_mult_distrib2)
  qed
  have inslice: "calculateSlice_HF_haswell (of_nat (?L (c + k))) = ucast sl" if "k < n" for k
    by (rule iffD2 [OF slice_line_iff [OF s(1) slice_line_bounds(3,4) [OF s(1)]]])
      (use order_trans [OF blk [OF that] assms(3)] in simp_all)
  have room: "?L (c + k) - a + 64 \<le> ?room" if "k < n" for k
    using slice_line_room [OF s(1) assms(2) c(2,3) that] .
  show ?thesis
  proof (intro exI conjI ballI allI impI)
    show "create_array n sl va (of_nat a) mem = Some (mem', arr)" unfolding run arr ..
    show "length offs = n" by (simp add: offs_def)
    show "values_at sl va (of_nat a) offs mem' arr"
    proof -
      have "64 dvd ?L (c + k) - a" for k using slice_line_bounds(3) [OF s(1)] assms(2) by (rule dvd_diff_nat)
      moreover have "?L (c + j) - a + 64 \<le> ?L (c + i) - a" if "j < i" for i j using mono [OF that] le [of j] by simp
      ultimately show ?thesis using s(2) inslice ld unfolding values_at_def arr_def by (simp add: offs_def io)
    qed
    show "verify_array sl arr = 0" unfolding verify_array_def arr using s(2) inslice by (simp add: filter_empty_conv)
  next
    fix off assume "off \<in> set offs"
    then show "off + 64 \<le> ?room" using room by (auto simp: offs_def)
  next
    fix x assume x: "\<forall>k < ?room. x \<noteq> va + of_nat k"
    show "mem' x = mem x"
    proof (rule keep)
      fix k j :: nat assume k: "k < n" "j < 8"
      then have "?L (c + k) - a + j < ?room" using room [of k] by simp
      then have "x \<noteq> va + of_nat (?L (c + k) - a + j)" using x by blast
      then show "x \<noteq> va + of_nat (?L (c + k) - a) + of_nat j" by (simp add: add.assoc)
    qed
  qed
qed

text \<open>
  The witness: two values of slice 0 in the first two blocks of memory.
\<close>

theorem create_array_in_slice_witness:
  "\<exists>mem' arr offs. create_array 2 0 0x1000 (of_nat 0) (\<lambda>_. 0) = Some (mem', arr) \<and>
    length offs = 2 \<and> values_at 0 0x1000 (of_nat 0) offs mem' arr \<and> verify_array 0 arr = 0 \<and> mem' 0x1400 = 0"
proof -
  obtain mem' arr offs where w: "create_array 2 0 0x1000 (of_nat 0) (\<lambda>_. 0) = Some (mem', arr)"
      "length offs = 2" "values_at 0 0x1000 (of_nat 0) offs mem' arr" "verify_array 0 arr = 0"
      "\<forall>x. (\<forall>k < 512 * 2. x \<noteq> 0x1000 + of_nat k) \<longrightarrow> mem' x = 0"
    using create_array_in_slice [of 0 0 2 "0x1000" "\<lambda>_. 0"] by auto
  have "(0x1000 :: addr) + of_nat 1024 \<noteq> 0x1000 + of_nat k" if "k < 512 * 2" for k
    using that by (subst addr_shift_inj) simp_all
  then have "mem' 0x1400 = 0" using w(5) by simp
  with w(1-4) show ?thesis by blast
qed

text \<open>
  Memory from \<^verbatim>\<open>rte_calloc\<close> need not be aligned to 512 bytes. At the I/O address 0x240, the
  512 bytes allocated for one value of slice 0 do not contain it: the program writes behind them.
\<close>

lemma create_array_overrun:
  "create_array 1 0 va 0x240 mem = Some (store64 (va + 512) 0 mem, [(va + 512, 0x440)])"
proof -
  have "sliceFinder_HF_haswell 0x240 0 = Some 512"
    unfolding sliceFinder_HF_haswell_def by (simp add: line_search.simps slice_eval LINE_def)
  then show ?thesis by (simp add: create_array_def Let_def)
qed

section \<open>Serving a packet\<close>

lemma write_at:
  assumes "d + length bs < 2 ^ 64" "k < 2 ^ 64"
  shows "write_bytes mem (p + of_nat d) bs (p + of_nat k) =
    (if d \<le> k \<and> k < d + length bs then bs ! (k - d) else mem (p + of_nat k))"
proof (cases "d \<le> k \<and> k < d + length bs")
  case True
  then have eq: "p + of_nat k = p + of_nat d + of_nat (k - d)" by (metis add.assoc le_add_diff_inverse of_nat_add)
  have "write_bytes mem (p + of_nat d) bs (p + of_nat d + of_nat (k - d)) = bs ! (k - d)"
    using assms(1) True by (intro write_bytes_nth) auto
  then show ?thesis unfolding eq using True by (simp only: if_True simp_thms)
next
  case False
  have "p + of_nat k \<noteq> p + of_nat d + of_nat j" if "j < length bs" for j
  proof
    assume "p + of_nat k = p + of_nat d + of_nat j"
    then have "p + of_nat k = p + of_nat (d + j)" by (simp add: add.assoc)
    then have "k = d + j" using assms that by (intro iffD1 [OF addr_shift_inj]) simp_all
    then show False using False that by simp
  qed
  then show ?thesis using False by (auto intro!: write_bytes_apart)
qed

lemma read_bytes_nth: "k < n \<Longrightarrow> read_bytes mem a n ! k = mem (a + of_nat k)"
  by (simp add: read_bytes_def)

lemma ether_mirror_at:
  assumes "k < 2 ^ 64"
  shows "ether_mirror p mem (p + of_nat k) =
    mem (p + of_nat (if k < 6 then k + 6 else if k < 12 then k - 6 else k))"
proof -
  have "ether_mirror p mem (p + of_nat k) =
      write_bytes (write_bytes mem (p + of_nat 0) (read_bytes mem (p + of_nat 6) 6)) (p + of_nat 6) (read_bytes mem p 6) (p + of_nat k)"
    by (simp add: ether_mirror_def Let_def)
  also have "\<dots> = mem (p + of_nat (if k < 6 then k + 6 else if k < 12 then k - 6 else k))"
  proof -
    have w: "write_bytes mem' (p + of_nat d) (read_bytes mem q 6) (p + of_nat k) =
        (if d \<le> k \<and> k < d + 6 then mem (q + of_nat (k - d)) else mem' (p + of_nat k))" if "d \<le> 6" for d q mem'
      using write_at [of d "read_bytes mem q 6" k mem' p] assms that
      by (simp only: length_read_bytes) (auto simp: read_bytes_nth simp del: of_nat_diff)
    have "p + 6 + of_nat k = p + of_nat (k + 6)" by (simp add: ac_simps)
    then have "mem (p + 6 + of_nat k) = mem (p + of_nat (k + 6))" by (simp only:)
    then show ?thesis using w [of 6] w [of 0] by (auto simp del: of_nat_diff of_nat_add)
  qed
  finally show ?thesis .
qed

lemma ether_mirror_apart:
  assumes "\<And>k. k < 12 \<Longrightarrow> x \<noteq> p + of_nat k"
  shows "ether_mirror p mem x = mem x"
proof -
  have far: "x \<noteq> p + of_nat k" "x \<noteq> p + 6 + of_nat k" if "k < 6" for k
    using assms [of k] assms [of "6 + k"] that by (simp_all add: add.assoc)
  have "write_bytes mem' (p + 6) (read_bytes mem p 6) x = mem' x" "write_bytes mem p (read_bytes mem (p + 6) 6) x = mem x" for mem'
    by (rule write_bytes_apart, metis far length_read_bytes)+
  then show ?thesis by (simp add: ether_mirror_def Let_def)
qed

text \<open>The 64 bytes of a value lie outside of the first 129 bytes of a packet.\<close>

definition value_apart :: "addr \<Rightarrow> addr \<Rightarrow> bool" where
  "value_apart v p \<longleftrightarrow> (\<forall>i < 64. \<forall>k < 129. v + of_nat i \<noteq> p + of_nat k)"

text \<open>The memory after a packet with a valid key has been served.\<close>

definition served :: "addr \<Rightarrow> addr \<Rightarrow> (addr \<Rightarrow> u8) \<Rightarrow> (addr \<Rightarrow> u8) \<Rightarrow> bool" where
  "served v p mem mem' \<longleftrightarrow>
     load64 mem' v = rte_cpu_to_be_64 (load64 mem v) \<and>
     read_bytes mem' (p + 65) 64 = read_bytes mem' v 64 \<and>
     read_bytes mem' p 6 = read_bytes mem (p + 6) 6 \<and>
     read_bytes mem' (p + 6) 6 = read_bytes mem p 6 \<and>
     (\<forall>k < 53. mem' (p + 12 + of_nat k) = mem (p + 12 + of_nat k)) \<and>
     (\<forall>x. (\<forall>i < 8. x \<noteq> v + of_nat i) \<longrightarrow> (\<forall>k < 129. x \<noteq> p + of_nat k) \<longrightarrow> mem' x = mem x)"

lemma value_served:
  assumes "value_apart v (rte_pktmbuf_mtod_offset x 0)"
  shows "served v (rte_pktmbuf_mtod_offset x 0) mem
    (ether_mirror (rte_pktmbuf_mtod_offset x 0)
      (write_value_to_packet x v (store64 v (rte_cpu_to_be_64 (load64 mem v)) mem)))"
proof -
  define p where "p = rte_pktmbuf_mtod_offset x 0"
  define mem1 where "mem1 = store64 v (rte_cpu_to_be_64 (load64 mem v)) mem"
  define mem2 where "mem2 = write_bytes mem1 (p + of_nat 65) (read_bytes mem1 v 64)"
  define mem3 where "mem3 = ether_mirror p mem2"
  have far: "v + of_nat i \<noteq> p + of_nat k" "p + of_nat k \<noteq> v + of_nat i" if "i < 64" "k < 129" for i k
    using assms that unfolding value_apart_def p_def by metis+
  have at3: "mem3 (p + of_nat k) = mem2 (p + of_nat (if k < 6 then k + 6 else if k < 12 then k - 6 else k))" if "k < 129" for k
    unfolding mem3_def using that by (intro ether_mirror_at) simp
  have at2: "mem2 (p + of_nat k) = (if 65 \<le> k then mem1 (v + of_nat (k - 65)) else mem1 (p + of_nat k))" if "k < 129" for k
    unfolding mem2_def using that by (subst write_at) (auto simp: read_bytes_nth simp del: of_nat_diff)
  have at1: "mem1 (p + of_nat k) = mem (p + of_nat k)" if "k < 129" for k
    unfolding mem1_def using far(2) [OF _ that] by (intro store64_apart) simp
  have v2: "mem2 (v + of_nat i) = mem1 (v + of_nat i)" if "i < 64" for i
    unfolding mem2_def using far(1) [OF that, of "65 + k" for k] by (intro write_bytes_apart) (simp add: add.assoc)
  have v3: "mem3 (v + of_nat i) = mem1 (v + of_nat i)" if "i < 64" for i
    using v2 [OF that] ether_mirror_apart [of "v + of_nat i" p mem2] far(1) [OF that] unfolding mem3_def by simp
  have "load64 mem3 v = load64 mem1 v" by (rule load64_eqI) (simp add: v3)
  then have 1: "load64 mem3 v = rte_cpu_to_be_64 (load64 mem v)" by (simp add: mem1_def)
  have 2: "read_bytes mem3 (p + 65) 64 = read_bytes mem3 v 64"
    using at3 [of "65 + k" for k] at2 [of "65 + k" for k] v3 by (simp add: read_bytes_def add.assoc)
  have at0: "mem3 (p + of_nat k) = mem (p + of_nat (if k < 6 then k + 6 else if k < 12 then k - 6 else k))" if "k < 65" for k
    using at3 [of k] at2 [of "if k < 6 then k + 6 else if k < 12 then k - 6 else k"]
      at1 [of "if k < 6 then k + 6 else if k < 12 then k - 6 else k"] that by (simp split: if_splits)
  have p6: "p + 6 + of_nat k = p + of_nat (k + 6)" for k by (simp add: ac_simps)
  have 3: "read_bytes mem3 p 6 = read_bytes mem (p + 6) 6"
    by (rule nth_equalityI) (simp_all add: read_bytes_nth at0 p6 del: of_nat_add)
  have 4: "read_bytes mem3 (p + 6) 6 = read_bytes mem p 6"
    by (rule nth_equalityI) (simp_all add: read_bytes_nth at0 p6 del: of_nat_add)
  have 5: "mem3 (p + 12 + of_nat k) = mem (p + 12 + of_nat k)" if "k < 53" for k
    using at3 [of "12 + k"] at2 [of "12 + k"] at1 [of "12 + k"] that by (simp add: add.assoc)
  have 6: "mem3 y = mem y" if y: "\<And>i. i < 8 \<Longrightarrow> y \<noteq> v + of_nat i" "\<And>k. k < 129 \<Longrightarrow> y \<noteq> p + of_nat k" for y
  proof -
    have "mem3 y = mem2 y" unfolding mem3_def using y(2) by (intro ether_mirror_apart) simp
    also have "\<dots> = mem1 y"
      unfolding mem2_def using y(2) [of "65 + k" for k] by (intro write_bytes_apart) (simp add: add.assoc)
    also have "\<dots> = mem y" unfolding mem1_def using y(1) by (rule store64_apart)
    finally show ?thesis .
  qed
  have "served v p mem mem3" unfolding served_def using 1 2 3 4 5 6 by blast
  then show ?thesis by (simp add: mem3_def mem2_def mem1_def p_def write_value_to_packet_def)
qed

text \<open>The packet data and the key of a buffer of the heap.\<close>

definition data_of :: "mbuf_heap \<Rightarrow> addr \<Rightarrow> addr" where
  "data_of st m = rte_pktmbuf_mtod_offset (the (mbufs st m)) 0"

definition key_of :: "mbuf_heap \<Rightarrow> addr \<Rightarrow> u64" where
  "key_of st m = read_key_from_packet (the (mbufs st m)) (bytes st)"

definition value_of :: "kvs \<Rightarrow> mbuf_heap \<Rightarrow> addr \<Rightarrow> addr" where
  "value_of kv st m = fst (kv_array kv ! unat (key_of st m))"

text \<open>
  Requests the program serves as it means to: valid keys, each asked for once, values and packets in
  different memory, and the configuration that only reads.
\<close>

definition apart :: "addr \<Rightarrow> nat \<Rightarrow> addr \<Rightarrow> nat \<Rightarrow> bool" where
  "apart a n b k \<longleftrightarrow> (\<forall>i < n. \<forall>j < k. a + of_nat i \<noteq> b + of_nat j)"

fun requests_ok :: "kvs \<Rightarrow> mbuf_heap \<Rightarrow> addr list \<Rightarrow> bool" where
  "requests_ok kv st [] \<longleftrightarrow> kv_read_percent kv = 100 \<and> kv_read_counter kv < 100 \<and> length (kv_array kv) < 2 ^ 64"
| "requests_ok kv st (m # ms) \<longleftrightarrow>
     mbufs st m \<noteq> None \<and> unat (key_of st m) < length (kv_array kv) \<and>
     value_apart (value_of kv st m) (data_of st m) \<and>
     (\<forall>m' \<in> set ms. apart (value_of kv st m) 8 (value_of kv st m') 8 \<and>
        apart (value_of kv st m) 8 (data_of st m') 129 \<and> apart (data_of st m) 129 (value_of kv st m') 8 \<and>
        apart (data_of st m) 129 (data_of st m') 129) \<and>
     requests_ok kv st ms"

lemma kvs_packet_read:
  assumes "mbufs st m = Some x" "unat (key_of st m) < length (kv_array kv)" "length (kv_array kv) < 2 ^ 64"
    and "kv_read_counter kv < kv_read_percent kv" "value_apart (value_of kv st m) (data_of st m)"
  shows "\<exists>mem'. kvs_packet m kv st = Some (kv\<lparr>kv_read_counter := (kv_read_counter kv + 1) mod 100\<rparr>, st\<lparr>bytes := mem'\<rparr>) \<and>
    served (value_of kv st m) (data_of st m) (bytes st) mem'"
proof -
  have k: "key_of st m = read_key_from_packet x (bytes st)" "data_of st m = rte_pktmbuf_mtod_offset x 0"
    using assms(1) by (simp_all add: key_of_def data_of_def)
  have "unat (of_nat (length (kv_array kv)) :: u64) = length (kv_array kv)" using assms(3) by (intro unat_of_nat_small) simp
  then have "key_of st m < of_nat (length (kv_array kv))" using assms(2) by (simp add: word_less_nat_alt)
  then show ?thesis using assms(1,4) value_served [OF assms(5) [unfolded k(2)], of "bytes st"]
    by (simp add: kvs_packet_def k value_of_def Let_def) blast
qed

text \<open>A word of the reply, 65 bytes into the packet, is the value stored before, in network order.\<close>

lemma served_reply:
  assumes "served v (rte_pktmbuf_mtod_offset x 0) mem mem'"
  shows "read_key_from_packet x mem' = load64 mem v"
proof -
  let ?p = "rte_pktmbuf_mtod_offset x 0"
  have "read_bytes mem' (?p + 65) 64 = read_bytes mem' v 64" using assms by (simp add: served_def)
  then have "mem' (?p + 65 + of_nat k) = mem' (v + of_nat k)" if "k < 64" for k
    using read_bytes_nth [OF that, of mem'] by metis
  then have "load64 mem' (?p + 65) = load64 mem' v" by (intro load64_eqI) simp
  then show ?thesis using assms by (simp add: read_key_from_packet_def served_def)
qed

lemma served_elsewhere:
  assumes "served v p mem mem'" "apart v 8 a n" "apart p 129 a n" "k < n"
  shows "mem' (a + of_nat k) = mem (a + of_nat k)"
proof -
  have "\<forall>i < 8. a + of_nat k \<noteq> v + of_nat i" "\<forall>i < 129. a + of_nat k \<noteq> p + of_nat i"
    using assms(2-4) unfolding apart_def by metis+
  then show ?thesis using assms(1) by (simp add: served_def)
qed

lemma read_key_cong:
  assumes "\<And>k. k < 129 \<Longrightarrow> mem' (rte_pktmbuf_mtod_offset x 0 + of_nat k) = mem (rte_pktmbuf_mtod_offset x 0 + of_nat k)"
  shows "read_key_from_packet x mem' = read_key_from_packet x mem"
proof -
  have "load64 mem' (rte_pktmbuf_mtod_offset x 0 + 65) = load64 mem (rte_pktmbuf_mtod_offset x 0 + 65)"
    using assms [of "65 + k" for k] by (intro load64_eqI) (simp add: add.assoc)
  then show ?thesis by (simp add: read_key_from_packet_def)
qed

lemma requests_ok_cong:
  assumes "requests_ok kv st ms" "mbufs st' = mbufs st" "kv_array kv' = kv_array kv"
    and "kv_read_percent kv' = 100" "kv_read_counter kv' < 100"
    and "\<And>m. m \<in> set ms \<Longrightarrow> key_of st' m = key_of st m"
  shows "requests_ok kv' st' ms"
  using assms
proof (induction ms)
  case (Cons m ms)
  have "data_of st' = data_of st" using Cons.prems(2) by (simp add: data_of_def fun_eq_iff)
  moreover have "value_of kv' st' m' = value_of kv st m'" if "m' \<in> set (m # ms)" for m'
    using Cons.prems(3,6) that by (simp add: value_of_def)
  moreover have "requests_ok kv' st' ms" by (rule Cons.IH) (use Cons.prems in simp_all)
  ultimately show ?case using Cons.prems(1,2,3,6) by simp
qed simp

lemma apart_sym: "apart a n b k \<longleftrightarrow> apart b k a n"
  unfolding apart_def by metis

text \<open>What a served packet carries: the value in network order, and the addresses swapped.\<close>

definition reply_ok :: "kvs \<Rightarrow> mbuf_heap \<Rightarrow> addr \<Rightarrow> (addr \<Rightarrow> u8) \<Rightarrow> bool" where
  "reply_ok kv st m mem \<longleftrightarrow>
     read_key_from_packet (the (mbufs st m)) mem = load64 (bytes st) (value_of kv st m) \<and>
     read_bytes mem (data_of st m) 6 = read_bytes (bytes st) (data_of st m + 6) 6 \<and>
     read_bytes mem (data_of st m + 6) 6 = read_bytes (bytes st) (data_of st m) 6"

lemma reply_ok_cong:
  assumes "reply_ok kv st m mem" "mbufs st' = mbufs st" "kv_array kv' = kv_array kv"
    and "\<And>k. k < 129 \<Longrightarrow> bytes st' (data_of st m + of_nat k) = bytes st (data_of st m + of_nat k)"
    and "\<And>k. k < 8 \<Longrightarrow> bytes st' (value_of kv st m + of_nat k) = bytes st (value_of kv st m + of_nat k)"
    and "\<And>k. k < 129 \<Longrightarrow> mem' (data_of st m + of_nat k) = mem (data_of st m + of_nat k)"
  shows "reply_ok kv' st' m mem'"
proof -
  let ?x = "the (mbufs st m)"
  have d: "data_of st' m = data_of st m" "data_of st m = rte_pktmbuf_mtod_offset ?x 0" using assms(2) by (simp_all add: data_of_def)
  have key: "key_of st' m = key_of st m"
  proof -
    have "read_key_from_packet ?x (bytes st') = read_key_from_packet ?x (bytes st)"
      using assms(4) unfolding d(2) by (rule read_key_cong)
    then show ?thesis by (simp only: key_of_def assms(2))
  qed
  have v: "value_of kv' st' m = value_of kv st m" using assms(3) key by (simp add: value_of_def)
  have ld: "load64 (bytes st') (value_of kv st m) = load64 (bytes st) (value_of kv st m)" using assms(5) by (intro load64_eqI)
  have rd: "read_key_from_packet ?x mem' = read_key_from_packet ?x mem" using assms(6) unfolding d(2) by (rule read_key_cong)
  have p6: "data_of st m + 6 + of_nat k = data_of st m + of_nat (k + 6)" for k by (simp add: ac_simps)
  have b: "read_bytes mem' (data_of st m) 6 = read_bytes mem (data_of st m) 6"
      "read_bytes mem' (data_of st m + 6) 6 = read_bytes mem (data_of st m + 6) 6"
      "read_bytes (bytes st') (data_of st m) 6 = read_bytes (bytes st) (data_of st m) 6"
      "read_bytes (bytes st') (data_of st m + 6) 6 = read_bytes (bytes st) (data_of st m + 6) 6"
    using assms(4,6) by (auto simp: read_bytes_def p6 simp del: of_nat_add)
  show ?thesis using assms(1,2) unfolding reply_ok_def d(1) v ld b by (simp add: rd)
qed

lemma kvs_burst_ok:
  "requests_ok kv st ms \<Longrightarrow> \<exists>kv' st'. kvs_burst ms kv st = Some (kv', st') \<and> mbufs st' = mbufs st \<and>
    (\<forall>m \<in> set ms. reply_ok kv st m (bytes st')) \<and>
    (\<forall>a n. (\<forall>m \<in> set ms. apart (value_of kv st m) 8 a n \<and> apart (data_of st m) 129 a n) \<longrightarrow>
      (\<forall>k < n. bytes st' (a + of_nat k) = bytes st (a + of_nat k)))"
proof (induction ms arbitrary: kv st)
  case (Cons m ms)
  have m: "mbufs st m \<noteq> None" "unat (key_of st m) < length (kv_array kv)" "value_apart (value_of kv st m) (data_of st m)"
    and far: "\<And>m'. m' \<in> set ms \<Longrightarrow> apart (value_of kv st m) 8 (value_of kv st m') 8 \<and>
      apart (value_of kv st m) 8 (data_of st m') 129 \<and> apart (data_of st m) 129 (value_of kv st m') 8 \<and>
      apart (data_of st m) 129 (data_of st m') 129"
    and ok: "requests_ok kv st ms" using Cons.prems by simp_all
  have cfg: "kv_read_percent kv = 100 \<and> kv_read_counter kv < 100 \<and> length (kv_array kv) < 2 ^ 64" using ok by (induction ms) simp_all
  obtain x where x: "mbufs st m = Some x" using m(1) by blast
  let ?kv = "kv\<lparr>kv_read_counter := (kv_read_counter kv + 1) mod 100\<rparr>"
  obtain mem where mem: "kvs_packet m kv st = Some (?kv, st\<lparr>bytes := mem\<rparr>)"
      "served (value_of kv st m) (data_of st m) (bytes st) mem"
    using kvs_packet_read [OF x m(2)] cfg m(3) by auto
  let ?st = "st\<lparr>bytes := mem\<rparr>"
  note else = served_elsewhere [OF mem(2)]
  have same: "key_of ?st m' = key_of st m'" "value_of ?kv ?st m' = value_of kv st m'" "data_of ?st m' = data_of st m'" if "m' \<in> set ms" for m'
  proof -
    show "key_of ?st m' = key_of st m'"
      using else [of "data_of st m'" 129] far [OF that] by (auto simp: key_of_def data_of_def intro!: read_key_cong)
    then show "value_of ?kv ?st m' = value_of kv st m'" by (simp add: value_of_def)
    show "data_of ?st m' = data_of st m'" by (simp add: data_of_def)
  qed
  have "(kv_read_counter kv + 1) mod 100 < 100" by (simp add: word_less_nat_alt unat_mod)
  then have "requests_ok ?kv ?st ms" using cfg same(1) by (intro requests_ok_cong [OF ok]) simp_all
  then obtain kv' st' where IH: "kvs_burst ms ?kv ?st = Some (kv', st')" "mbufs st' = mbufs st"
      "\<And>m'. m' \<in> set ms \<Longrightarrow> reply_ok ?kv ?st m' (bytes st')"
      and frame: "\<forall>a n. (\<forall>m' \<in> set ms. apart (value_of kv st m') 8 a n \<and> apart (data_of st m') 129 a n) \<longrightarrow>
        (\<forall>k < n. bytes st' (a + of_nat k) = mem (a + of_nat k))"
    using Cons.IH [of ?kv ?st] same(2,3) by auto
  from frame have IH4: "\<And>a n k. (\<And>m'. m' \<in> set ms \<Longrightarrow> apart (value_of kv st m') 8 a n \<and> apart (data_of st m') 129 a n) \<Longrightarrow>
        k < n \<Longrightarrow> bytes st' (a + of_nat k) = mem (a + of_nat k)"
    by blast
  have keep: "bytes st' (data_of st m + of_nat k) = mem (data_of st m + of_nat k)" if "k < 129" for k
    using IH4 [OF _ that, of "data_of st m"] far apart_sym by blast
  have first: "reply_ok kv st m (bytes st')"
  proof (rule reply_ok_cong [where st = st and kv = kv and mem = mem])
    show "reply_ok kv st m mem"
      using mem(2) served_reply [of _ x] x by (simp add: reply_ok_def served_def data_of_def)
  qed (simp_all add: keep)
  have rest: "reply_ok kv st m' (bytes st')" if "m' \<in> set ms" for m'
    by (rule reply_ok_cong [OF IH(3) [OF that]])
      (use same [OF that] else [of "data_of st m'" 129] else [of "value_of kv st m'" 8] far [OF that] in simp_all)
  have "bytes st' (a + of_nat k) = bytes st (a + of_nat k)"
    if "\<forall>m' \<in> set (m # ms). apart (value_of kv st m') 8 a n \<and> apart (data_of st m') 129 a n" "k < n" for a n k
    using IH4 [of a n k] else [of a n k] that by simp
  then show ?case using mem(1) IH(1,2) first rest by auto
qed simp

text \<open>
  C13: a burst of requests for valid and different keys is served without an invalid access: every
  packet leaves with the value of its key in network order, so that the client reads the number
  stored, and with the two Ethernet addresses swapped. Packets and values lie in different memory,
  and the program is in the configuration that only reads.
\<close>

theorem kvs_burst_replies:
  assumes "requests_ok kv st ms"
  shows "\<exists>kv' st'. kvs_burst ms kv st = Some (kv', st') \<and> mbufs st' = mbufs st \<and>
    (\<forall>m \<in> set ms. reply_ok kv st m (bytes st'))"
  using kvs_burst_ok [OF assms] by blast

lemma apart_of_nat:
  assumes "a + n \<le> b" "b + k \<le> 2 ^ 64"
  shows "apart (of_nat a) n (of_nat b) k"
  unfolding apart_def
proof (intro allI impI)
  fix i j :: nat assume "i < n" "j < k"
  then have "(0 :: addr) + of_nat (a + i) \<noteq> 0 + of_nat (b + j)"
    using assms by (subst addr_shift_inj) simp_all
  then show "(of_nat a :: addr) + of_nat i \<noteq> of_nat b + of_nat j" by simp
qed

lemma value_apart_eq: "value_apart v p = apart v 64 p 129"
  by (simp add: value_apart_def apart_def)

text \<open>Two packets at 0x2000 and 0x3000 that ask for the keys 0 and 1.\<close>

definition kvs_sample :: kvs where
  "kvs_sample = \<lparr>kv_array = [(0x1000, 0), (0x1200, 0x200)], kv_read_percent = 100, kv_read_counter = 7\<rparr>"

definition sample_packet :: "addr \<Rightarrow> rte_mbuf" where
  "sample_packet a = \<lparr>buf_addr = a, buf_iova = 0, data_off = 0, refcnt = 1, nb_segs = 1, port = 0, ol_flags = 0,
     packet_type = 0, pkt_len = 129, data_len = 129, vlan_tci = 0, hash = 0, vlan_tci_outer = 0, buf_len = 2048,
     timestamp = 0, udata64 = 0, pool = 0, nxt = 0, tx_offload = 0, priv_size = 0, timesync = 0, seqn = 0, shinfo = 0\<rparr>"

definition sample_heap :: mbuf_heap where
  "sample_heap = \<lparr>mbufs = [0x100 \<mapsto> sample_packet 0x2000, 0x180 \<mapsto> sample_packet 0x3000], shinfos = (\<lambda>_. None),
     bytes = (\<lambda>a. if a = 0x3048 \<or> a = 0x1201 then 1 else 0), pools = (\<lambda>_. None), pool_privs = (\<lambda>_. None),
     obj_iova = (\<lambda>_. 0), freed_ext = []\<rparr>"

lemma sample_keys: "key_of sample_heap 0x100 = 0" "key_of sample_heap 0x180 = 1"
  by (simp_all add: key_of_def sample_heap_def sample_packet_def read_key_from_packet_def load64_def upt_rec
      rte_pktmbuf_mtod_offset_def rte_constant_bswap64_def)

lemma sample_requests: "requests_ok kvs_sample sample_heap [0x100, 0x180]"
proof -
  have d: "data_of sample_heap 0x100 = of_nat 0x2000" "data_of sample_heap 0x180 = of_nat 0x3000"
    by (simp_all add: data_of_def sample_heap_def sample_packet_def rte_pktmbuf_mtod_offset_def)
  have v: "value_of kvs_sample sample_heap 0x100 = of_nat 0x1000" "value_of kvs_sample sample_heap 0x180 = of_nat 0x1200"
    by (simp_all add: value_of_def sample_keys kvs_sample_def)
  have "apart (of_nat 0x3000) 129 (of_nat 0x1200) 8" "apart (of_nat 0x2000) 129 (of_nat 0x1200) 8"
    by (subst apart_sym, rule apart_of_nat, simp, simp)+
  moreover have "apart (of_nat 0x1000) 64 (of_nat 0x2000) 129" "apart (of_nat 0x1000) 8 (of_nat 0x1200) 8"
      "apart (of_nat 0x1000) 8 (of_nat 0x3000) 129" "apart (of_nat 0x2000) 129 (of_nat 0x3000) 129"
      "apart (of_nat 0x1200) 64 (of_nat 0x3000) 129"
    by (rule apart_of_nat; simp)+
  ultimately show ?thesis
    by (simp only: requests_ok.simps value_apart_eq list.set ball_simps simp_thms d v sample_keys) (simp add: kvs_sample_def sample_heap_def)
qed

theorem kvs_burst_replies_witness:
  "\<exists>kv' st'. kvs_burst [0x100, 0x180] kvs_sample sample_heap = Some (kv', st') \<and> mbufs st' = mbufs sample_heap \<and>
    reply_ok kvs_sample sample_heap 0x100 (bytes st') \<and> reply_ok kvs_sample sample_heap 0x180 (bytes st')"
  using kvs_burst_replies [OF sample_requests] by simp

text \<open>
  Every read flips the byte order of the stored value in place: the second request for a key gets
  the value with its bytes reversed.
\<close>

lemma kvs_second_read:
  assumes "mbufs st m = Some x" "unat (key_of st m) < length (kv_array kv)" "length (kv_array kv) < 2 ^ 64"
    and "kv_read_counter kv < kv_read_percent kv" "value_apart (value_of kv st m) (data_of st m)"
  shows "\<exists>kv' st'. kvs_packet m kv st = Some (kv', st') \<and>
    load64 (bytes st') (value_of kv st m) = rte_cpu_to_be_64 (load64 (bytes st) (value_of kv st m))"
  using kvs_packet_read [OF assms] by (auto simp: served_def)

end
