(* ===== verification/RingConc.thy ===== *)
theory RingConc
  imports Ring
begin

text \<open>
  Several producers and consumers on one ring (\<^verbatim>\<open>rte_ring_generic.h\<close>, \<^verbatim>\<open>rte_ring.h\<close>).
  A thread is the program counter of the call it is in, and its local variables. A step is one access
  to shared memory: reading the own head, reading the other side's tail, the compare-and-set,
  the copy of one object, the update of the tail. Steps of the threads interleave in any order; memory is
  sequentially consistent, which the barriers in the code are there for.
\<close>

section \<open>Threads\<close>

text \<open>
  The last argument \<open>pos\<close> of a program counter is auxiliary: it is the number of objects whose slots had
  been reserved when the head was read, while the code only sees the 32-bit head.
\<close>

datatype 'a pc =
    Idle
  | EnqHead rte_ring_queue_behavior "'a list"
  | EnqFree rte_ring_queue_behavior "'a list" u32 nat
  | EnqMove rte_ring_queue_behavior "'a list" u32 u32 u32 nat
  | EnqCopy "'a list" u32 u32 u32 nat nat
  | EnqTail u32 u32 u32 nat
  | EnqDone u32 u32
  | DeqHead rte_ring_queue_behavior u32
  | DeqEntries rte_ring_queue_behavior u32 u32 nat
  | DeqMove rte_ring_queue_behavior u32 u32 u32 u32 nat
  | DeqCopy "'a list" u32 u32 u32 nat
  | DeqTail "'a list" u32 u32 u32 nat
  | DeqDone "'a list" u32

text \<open>
  The shared ring and the threads. The other fields are auxiliary, no thread reads them: the objects
  accepted so far, in the order of their slots; how many objects producers have finished storing;
  how many slots consumers have reserved, and how many they have given back; and the objects the
  finished dequeues returned, in the order in which they finished.
\<close>

record 'a machine =
  mring :: "'a rte_ring"
  pcs :: "nat \<Rightarrow> 'a pc"
  accepted :: "'a list"
  p_done :: nat
  taken :: nat
  c_done :: nat
  returned :: "'a list"

text \<open>Waiting for another thread, an access outside of the object table, or a step.\<close>

datatype 'a progress = Wait | Fault | Go "'a machine" "'a pc"

text \<open>
  The index of object \<open>i\<close> of a copy that starts at a head: the copy macros run to the end of the
  table and go on at its start.
\<close>

definition slot_of :: "'a rte_ring \<Rightarrow> u32 \<Rightarrow> u32 \<Rightarrow> u32 \<Rightarrow> u32" where
  "slot_of r old n i =
     (let idx = old AND ring_mask r
      in if idx + n < ring_size r \<or> idx + i < ring_size r then idx + i else i - (ring_size r - idx))"

fun enq_step :: "'a machine \<Rightarrow> 'a pc \<Rightarrow> 'a progress" where
  "enq_step s (EnqHead b objs) = Go s (EnqFree b objs (head (prod (mring s))) (length (accepted s)))"
| "enq_step s (EnqFree b objs old pos) =
     (let free = ring_capacity (mring s) + tail (cons (mring s)) - old;
          n = (if of_nat (length objs) > free then (if b = RTE_RING_QUEUE_FIXED then 0 else free)
               else of_nat (length objs))
      in if n = 0 then Go s (EnqDone 0 free) else Go s (EnqMove b objs old n free pos))"
| "enq_step s (EnqMove b objs old n free pos) =
     (let r = mring s;
          (h, success) = (if single (prod r) then (old + n, True)
                          else rte_atomic32_cmpset (head (prod r)) old (old + n));
          r = r\<lparr>prod := (prod r)\<lparr>head := h\<rparr>\<rparr>
      in if success
         then Go (s\<lparr>mring := r, accepted := accepted s @ take (unat n) objs\<rparr>) (EnqCopy objs old n free 0 pos)
         else Go (s\<lparr>mring := r\<rparr>) (EnqHead b objs))"
| "enq_step s (EnqCopy objs old n free i pos) =
     (if i < unat n
      then (case store (slots (mring s)) (slot_of (mring s) old n (of_nat i)) (objs ! i) of
              None \<Rightarrow> Fault
            | Some sl \<Rightarrow> Go (s\<lparr>mring := (mring s)\<lparr>slots := sl\<rparr>\<rparr>) (EnqCopy objs old n free (i + 1) pos))
      else Go s (EnqTail old n free pos))"
| "enq_step s (EnqTail old n free pos) =
     (case update_tail (prod (mring s)) old (old + n) (single (prod (mring s))) of
        None \<Rightarrow> Wait
      | Some p \<Rightarrow> Go (s\<lparr>mring := (mring s)\<lparr>prod := p\<rparr>, p_done := p_done s + unat n\<rparr>) (EnqDone n (free - n)))"
| "enq_step s _ = Wait"

fun deq_step :: "'a machine \<Rightarrow> 'a pc \<Rightarrow> 'a progress" where
  "deq_step s (DeqHead b max_n) = Go s (DeqEntries b max_n (head (cons (mring s))) (taken s))"
| "deq_step s (DeqEntries b max_n old pos) =
     (let entries = tail (prod (mring s)) - old;
          n = (if max_n > entries then (if b = RTE_RING_QUEUE_FIXED then 0 else entries) else max_n)
      in if n = 0 then Go s (DeqDone [] entries) else Go s (DeqMove b max_n old n entries pos))"
| "deq_step s (DeqMove b max_n old n entries pos) =
     (let r = mring s;
          (h, success) = (if single (cons r) then (old + n, True)
                          else rte_atomic32_cmpset (head (cons r)) old (old + n));
          r = r\<lparr>cons := (cons r)\<lparr>head := h\<rparr>\<rparr>
      in if success
         then Go (s\<lparr>mring := r, taken := taken s + unat n\<rparr>) (DeqCopy [] old n entries pos)
         else Go (s\<lparr>mring := r\<rparr>) (DeqHead b max_n))"
| "deq_step s (DeqCopy acc old n entries pos) =
     (if length acc < unat n
      then (case load (slots (mring s)) (slot_of (mring s) old n (of_nat (length acc))) of
              None \<Rightarrow> Fault
            | Some v \<Rightarrow> Go s (DeqCopy (acc @ [v]) old n entries pos))
      else Go s (DeqTail acc old n entries pos))"
| "deq_step s (DeqTail acc old n entries pos) =
     (case update_tail (cons (mring s)) old (old + n) (single (cons (mring s))) of
        None \<Rightarrow> Wait
      | Some c \<Rightarrow> Go (s\<lparr>mring := (mring s)\<lparr>cons := c\<rparr>, c_done := c_done s + unat n, returned := returned s @ acc\<rparr>)
                    (DeqDone acc (entries - n)))"
| "deq_step s _ = Wait"

fun producing :: "'a pc \<Rightarrow> bool" where
  "producing (EnqHead b objs) = True"
| "producing (EnqFree b objs old pos) = True"
| "producing (EnqMove b objs old n free pos) = True"
| "producing (EnqCopy objs old n free i pos) = True"
| "producing (EnqTail old n free pos) = True"
| "producing _ = False"

fun consuming :: "'a pc \<Rightarrow> bool" where
  "consuming (DeqHead b max_n) = True"
| "consuming (DeqEntries b max_n old pos) = True"
| "consuming (DeqMove b max_n old n entries pos) = True"
| "consuming (DeqCopy acc old n entries pos) = True"
| "consuming (DeqTail acc old n entries pos) = True"
| "consuming _ = False"

definition thread_step :: "'a machine \<Rightarrow> 'a pc \<Rightarrow> 'a progress" where
  "thread_step s pc = (if producing pc then enq_step s pc else deq_step s pc)"

definition resting :: "'a pc \<Rightarrow> bool" where
  "resting pc \<longleftrightarrow> \<not> producing pc \<and> \<not> consuming pc"

text \<open>
  A step of the machine: a thread at rest calls an operation, or a thread in a call goes on. In the
  single-producer mode no two threads enqueue at a time, as the documentation asks, and so for consumers.
\<close>

inductive mt_step :: "'a machine \<Rightarrow> 'a machine \<Rightarrow> bool" where
  call_enq: "resting (pcs s t) \<Longrightarrow> length objs < 2 ^ 32 \<Longrightarrow>
    (single (prod (mring s)) \<longrightarrow> (\<forall>u. \<not> producing (pcs s u))) \<Longrightarrow>
    mt_step s (s\<lparr>pcs := (pcs s)(t := EnqHead b objs)\<rparr>)"
| call_deq: "resting (pcs s t) \<Longrightarrow> (single (cons (mring s)) \<longrightarrow> (\<forall>u. \<not> consuming (pcs s u))) \<Longrightarrow>
    mt_step s (s\<lparr>pcs := (pcs s)(t := DeqHead b max_n)\<rparr>)"
| go: "thread_step s (pcs s t) = Go s' pc \<Longrightarrow> mt_step s (s'\<lparr>pcs := (pcs s)(t := pc)\<rparr>)"

text \<open>
  A head is a 32-bit counter: the compare-and-set cannot tell a head from the same head
  \<open>2 ^ 32\<close> objects later. The states considered are those where no thread was overtaken by that many
  objects between its read of the head and its compare-and-set.
\<close>

definition not_lapped :: "'a machine \<Rightarrow> bool" where
  "not_lapped s \<longleftrightarrow>
     (\<forall>t b objs old n free pos. pcs s t = EnqMove b objs old n free pos \<longrightarrow> length (accepted s) < pos + 2 ^ 32) \<and>
     (\<forall>t b m old n entries pos. pcs s t = DeqMove b m old n entries pos \<longrightarrow> taken s < pos + 2 ^ 32)"

text \<open>A ring with its objects, before any call.\<close>

definition mt_start :: "'a rte_ring \<Rightarrow> 'a machine" where
  "mt_start r = \<lparr>mring = r, pcs = (\<lambda>_. Idle), accepted = ring_list r, p_done = ring_used r, taken = 0, c_done = 0, returned = []\<rparr>"

inductive mt_reach :: "'a rte_ring \<Rightarrow> 'a machine \<Rightarrow> bool" for r where
  start: "mt_reach r (mt_start r)"
| step: "mt_reach r s \<Longrightarrow> mt_step s s' \<Longrightarrow> not_lapped s' \<Longrightarrow> mt_reach r s'"


section \<open>Reservations\<close>

text \<open>
  The slots between a tail and a head are divided among the threads that have moved the head and
  not yet the tail, each of which holds an interval.
\<close>

definition reserved :: "(nat \<Rightarrow> (nat \<times> nat) option) \<Rightarrow> nat \<Rightarrow> nat \<Rightarrow> bool" where
  "reserved iv lo hi \<longleftrightarrow>
     (\<forall>t a b. iv t = Some (a, b) \<longrightarrow> lo \<le> a \<and> a < b \<and> b \<le> hi) \<and>
     (\<forall>t u a b a' b'. iv t = Some (a, b) \<longrightarrow> iv u = Some (a', b') \<longrightarrow> t \<noteq> u \<longrightarrow> b \<le> a' \<or> b' \<le> a) \<and>
     (\<forall>p. lo \<le> p \<longrightarrow> p < hi \<longrightarrow> (\<exists>t a b. iv t = Some (a, b) \<and> a \<le> p \<and> p < b))"

lemma reserved_bounds:
  assumes "reserved iv lo hi" "iv t = Some (a, b)"
  shows "lo \<le> a" "a < b" "b \<le> hi"
  using assms unfolding reserved_def by blast+

lemma reserved_disjoint:
  assumes "reserved iv lo hi" "iv t = Some (a, b)" "iv u = Some (a', b')" "t \<noteq> u"
  shows "b \<le> a' \<or> b' \<le> a"
  using assms unfolding reserved_def by blast

lemma reserved_covers:
  assumes "reserved iv lo hi" "lo \<le> p" "p < hi"
  obtains t a b where "iv t = Some (a, b)" "a \<le> p" "p < b"
  using assms unfolding reserved_def by blast

lemma reserved_first:
  assumes "reserved iv lo hi" "lo < hi"
  obtains t b where "iv t = Some (lo, b)"
proof -
  obtain t a b where t: "iv t = Some (a, b)" "a \<le> lo" by (rule reserved_covers [OF assms(1) order_refl assms(2)])
  moreover have "lo \<le> a" using assms(1) t(1) by (rule reserved_bounds)
  ultimately show ?thesis by (intro that) simp
qed

lemma reserved_add:
  assumes "reserved iv lo hi" "iv t = None" "0 < n" "lo \<le> hi"
  shows "reserved (iv(t \<mapsto> (hi, hi + n))) lo (hi + n)"
proof -
  have old: "\<And>u a b. iv u = Some (a, b) \<Longrightarrow> lo \<le> a \<and> a < b \<and> b \<le> hi"
    using assms(1) by (auto dest: reserved_bounds)
  have "\<exists>u a b. (iv(t \<mapsto> (hi, hi + n))) u = Some (a, b) \<and> a \<le> p \<and> p < b" if p: "lo \<le> p" "p < hi + n" for p
  proof (cases "p < hi")
    case True
    obtain u a b where u: "iv u = Some (a, b)" "a \<le> p" "p < b" by (rule reserved_covers [OF assms(1) p(1) True])
    moreover have "u \<noteq> t" using u(1) assms(2) by auto
    ultimately show ?thesis by (intro exI [of _ u] exI [of _ a] exI [of _ b]) simp
  next
    case False
    then show ?thesis using p by (intro exI [of _ t] exI [of _ hi] exI [of _ "hi + n"]) simp
  qed
  moreover have "lo \<le> a \<and> a < b \<and> b \<le> hi + n" if "(iv(t \<mapsto> (hi, hi + n))) u = Some (a, b)" for u a b
    using that old [of u a b] assms(3,4) by (auto split: if_splits)
  moreover have "b \<le> a' \<or> b' \<le> a"
    if "(iv(t \<mapsto> (hi, hi + n))) u = Some (a, b)" "(iv(t \<mapsto> (hi, hi + n))) v = Some (a', b')" "u \<noteq> v" for u v a b a' b'
    using that old [of u a b] old [of v a' b'] reserved_disjoint [OF assms(1), of u a b v a' b'] by (auto split: if_splits)
  ultimately show ?thesis unfolding reserved_def by blast
qed

lemma reserved_drop:
  assumes "reserved iv lo hi" "iv t = Some (lo, b)"
  shows "reserved (iv(t := None)) b hi"
proof -
  have "\<exists>u a c. (iv(t := None)) u = Some (a, c) \<and> a \<le> p \<and> p < c" if p: "b \<le> p" "p < hi" for p
  proof -
    have "lo \<le> p" using p(1) reserved_bounds [OF assms] by linarith
    then obtain u a c where u: "iv u = Some (a, c)" "a \<le> p" "p < c" by (rule reserved_covers [OF assms(1) _ p(2)])
    then have "u \<noteq> t" using assms(2) p(1) by auto
    with u show ?thesis by (intro exI [of _ u] exI [of _ a] exI [of _ c]) simp
  qed
  moreover have "b \<le> a \<and> a < c \<and> c \<le> hi" if "(iv(t := None)) u = Some (a, c)" for u a c
  proof -
    have u: "iv u = Some (a, c)" "u \<noteq> t" using that by (auto split: if_splits)
    have "b \<le> a \<or> c \<le> lo" using reserved_disjoint [OF assms(1,2) u(1)] u(2) by blast
    then show ?thesis using reserved_bounds [OF assms(1) u(1)] by auto
  qed
  moreover have "c \<le> a' \<or> c' \<le> a"
    if "(iv(t := None)) u = Some (a, c)" "(iv(t := None)) v = Some (a', c')" "u \<noteq> v" for u v a c a' c'
    using that reserved_disjoint [OF assms(1), of u a c v a' c'] by (auto split: if_splits)
  ultimately show ?thesis unfolding reserved_def by blast
qed

lemma reserved_empty: "reserved iv lo hi \<Longrightarrow> (\<And>t. iv t = None) \<Longrightarrow> hi \<le> lo"
  using reserved_covers [of iv lo hi lo] by fastforce

section \<open>Positions and slots\<close>

text \<open>The slot of an object by its position, for a ring whose counters start at \<open>h\<close>.\<close>

definition slot :: "u32 \<Rightarrow> 'a rte_ring \<Rightarrow> nat \<Rightarrow> nat" where
  "slot h r p = (unat h + p) mod length (slots r)"

lemma slot_eqD:
  assumes "slot h r p = slot h r q" "p < q + length (slots r)" "q < p + length (slots r)"
  shows "p = q"
proof (rule ccontr)
  assume "p \<noteq> q"
  then consider "p < q" | "q < p" by linarith
  then show False
  proof cases
    case 1
    then have "q - p < length (slots r)" using assms(3) by linarith
    with 1 show ?thesis using mod_neq_offset [of 0 "q - p" "length (slots r)" "unat h + p"] assms by (simp add: slot_def add.assoc)
  next
    case 2
    then have "p - q < length (slots r)" using assms(2) by linarith
    with 2 show ?thesis using mod_neq_offset [of 0 "p - q" "length (slots r)" "unat h + q"] assms by (simp add: slot_def add.assoc)
  qed
qed

lemma slot_of_slot:
  assumes "ring_shape r" "unat n \<le> unat (ring_capacity r)" "i < unat n"
  shows "unat (slot_of r (h + of_nat p) n (of_nat i)) = slot h r (p + i)"
    "slot h r (p + i) < length (slots r)"
proof -
  obtain k where k: "k \<le> 31" "unat (ring_size r) = 2 ^ k" "length (slots r) = 2 ^ k"
    "ring_mask r = mask k" "unat (ring_capacity r) < 2 ^ k" "2 ^ k \<le> (2 ^ 31 :: nat)"
    using assms(1) by (rule ring_shapeD)
  define idx where "idx = (h + of_nat p) AND ring_mask r"
  have d: "(2 :: nat) ^ k dvd 2 ^ 32" using k(1) by (intro le_imp_power_dvd) simp
  have "unat (h + of_nat p) mod 2 ^ k = (unat h + p) mod 2 ^ k"
  proof -
    have "unat (h + of_nat p) = (unat h + p mod 2 ^ 32) mod 2 ^ 32"
      by (simp add: unat_word_ariths unat_of_nat take_bit_nat_def)
    then have "unat (h + of_nat p) mod 2 ^ k = (unat h + p mod 2 ^ 32) mod 2 ^ k" by (simp only: mod_mod_cancel [OF d])
    also have "\<dots> = (unat h + p mod 2 ^ 32 mod 2 ^ k) mod 2 ^ k" by (simp only: mod_add_right_eq)
    also have "\<dots> = (unat h + p) mod 2 ^ k" by (simp only: mod_mod_cancel [OF d] mod_add_right_eq)
    finally show ?thesis .
  qed
  then have idx: "unat idx = (unat h + p) mod 2 ^ k" using k(4) by (simp add: idx_def unat_and_mask)
  have il: "unat idx < 2 ^ k" unfolding idx by simp
  have ui: "unat (of_nat i :: u32) = i" using assms(2,3) k by (intro unat_of_nat_small) simp
  have un: "unat (idx + n) = unat idx + unat n" using il assms(2) k by (intro unat_plus_simple) simp
  have u1: "unat (idx + of_nat i) = unat idx + i"
    using il assms(2,3) k ui by (subst unat_plus_simple) simp_all
  have s: "slot h r (p + i) = (unat idx + i) mod 2 ^ k"
    unfolding slot_def idx k(3) by (simp add: mod_add_left_eq add.assoc)
  show "slot h r (p + i) < length (slots r)" by (simp add: slot_def k(3))
  show "unat (slot_of r (h + of_nat p) n (of_nat i)) = slot h r (p + i)"
  proof (cases "idx + n < ring_size r \<or> idx + of_nat i < ring_size r")
    case True
    then have "unat idx + i < 2 ^ k" using assms(3) un u1 k(2) by (auto simp: word_less_nat_alt)
    then show ?thesis using True u1 unfolding s by (simp add: slot_of_def idx_def [symmetric])
  next
    case False
    then have ge: "2 ^ k \<le> unat idx + i" using u1 k(2) by (simp add: word_less_nat_alt)
    have "unat (ring_size r - idx) = 2 ^ k - unat idx"
      using il k(2) by (simp add: unat_sub_simple word_le_nat_alt)
    then have "unat (of_nat i - (ring_size r - idx)) = i - (2 ^ k - unat idx)"
      using ui ge by (subst unat_sub_simple) (simp_all add: word_le_nat_alt)
    moreover have "i - (2 ^ k - unat idx) = (unat idx + i) mod 2 ^ k"
    proof -
      have "unat idx + i - 2 ^ k < 2 ^ k" using il assms(2,3) k(5) by linarith
      then have "(unat idx + i) mod 2 ^ k = unat idx + i - 2 ^ k" using ge by (simp add: le_mod_geq)
      then show ?thesis using il ge by linarith
    qed
    ultimately show ?thesis using False unfolding s by (simp add: slot_of_def idx_def [symmetric])
  qed
qed

section \<open>The invariant\<close>

fun filling :: "'a pc \<Rightarrow> (nat \<times> nat) option" where
  "filling (EnqCopy objs old n free i pos) = Some (pos, pos + unat n)"
| "filling (EnqTail old n free pos) = Some (pos, pos + unat n)"
| "filling _ = None"

fun emptying :: "'a pc \<Rightarrow> (nat \<times> nat) option" where
  "emptying (DeqCopy acc old n entries pos) = Some (pos, pos + unat n)"
| "emptying (DeqTail acc old n entries pos) = Some (pos, pos + unat n)"
| "emptying _ = None"

text \<open>The objects from one position to another are in their slots.\<close>

definition stored :: "u32 \<Rightarrow> 'a machine \<Rightarrow> nat \<Rightarrow> nat \<Rightarrow> bool" where
  "stored h s a b \<longleftrightarrow> (\<forall>p. a \<le> p \<longrightarrow> p < b \<longrightarrow> slots (mring s) ! slot h (mring s) p = accepted s ! p)"

text \<open>The ring and the auxiliary fields.\<close>

definition shared_ok :: "u32 \<Rightarrow> 'a machine \<Rightarrow> bool" where
  "shared_ok h s \<longleftrightarrow> ring_shape (mring s) \<and>
     head (prod (mring s)) = h + of_nat (length (accepted s)) \<and> tail (prod (mring s)) = h + of_nat (p_done s) \<and>
     head (cons (mring s)) = h + of_nat (taken s) \<and> tail (cons (mring s)) = h + of_nat (c_done s) \<and>
     c_done s \<le> taken s \<and> taken s \<le> p_done s \<and> p_done s \<le> length (accepted s) \<and>
     length (accepted s) \<le> c_done s + unat (ring_capacity (mring s)) \<and>
     stored h s (c_done s) (p_done s) \<and> returned s = take (c_done s) (accepted s)"

text \<open>What a thread knows at each program counter.\<close>

fun pc_ok :: "u32 \<Rightarrow> 'a machine \<Rightarrow> 'a pc \<Rightarrow> bool" where
  "pc_ok h s (EnqHead b objs) \<longleftrightarrow> length objs < 2 ^ 32"
| "pc_ok h s (EnqFree b objs old pos) \<longleftrightarrow> length objs < 2 ^ 32 \<and> old = h + of_nat pos \<and> pos \<le> length (accepted s)"
| "pc_ok h s (EnqMove b objs old n free pos) \<longleftrightarrow> length objs < 2 ^ 32 \<and> old = h + of_nat pos \<and> pos \<le> length (accepted s) \<and>
     0 < unat n \<and> unat n \<le> length objs \<and>
     (pos = length (accepted s) \<longrightarrow> pos + unat n \<le> c_done s + unat (ring_capacity (mring s)))"
| "pc_ok h s (EnqCopy objs old n free i pos) \<longleftrightarrow> old = h + of_nat pos \<and> pos + unat n \<le> length (accepted s) \<and>
     unat n \<le> unat (ring_capacity (mring s)) \<and> i \<le> unat n \<and>
     unat n \<le> length objs \<and> (\<forall>j < unat n. accepted s ! (pos + j) = objs ! j) \<and> stored h s pos (pos + i)"
| "pc_ok h s (EnqTail old n free pos) \<longleftrightarrow> old = h + of_nat pos \<and> pos + unat n \<le> length (accepted s) \<and> stored h s pos (pos + unat n)"
| "pc_ok h s (DeqEntries b max_n old pos) \<longleftrightarrow> old = h + of_nat pos \<and> pos \<le> taken s"
| "pc_ok h s (DeqMove b max_n old n entries pos) \<longleftrightarrow> old = h + of_nat pos \<and> pos \<le> taken s \<and> 0 < unat n \<and>
     (pos = taken s \<longrightarrow> pos + unat n \<le> p_done s)"
| "pc_ok h s (DeqCopy acc old n entries pos) \<longleftrightarrow> old = h + of_nat pos \<and> pos + unat n \<le> length (accepted s) \<and>
     unat n \<le> unat (ring_capacity (mring s)) \<and>
     length acc \<le> unat n \<and> (\<forall>j < length acc. acc ! j = accepted s ! (pos + j))"
| "pc_ok h s (DeqTail acc old n entries pos) \<longleftrightarrow> old = h + of_nat pos \<and> pos + unat n \<le> length (accepted s) \<and>
     length acc = unat n \<and> (\<forall>j < length acc. acc ! j = accepted s ! (pos + j))"
| "pc_ok h s _ \<longleftrightarrow> True"

text \<open>The head a single producer or consumer has read is still the head.\<close>

fun enq_read :: "'a pc \<Rightarrow> nat option" where
  "enq_read (EnqFree b objs old pos) = Some pos"
| "enq_read (EnqMove b objs old n free pos) = Some pos"
| "enq_read _ = None"

fun deq_read :: "'a pc \<Rightarrow> nat option" where
  "deq_read (DeqEntries b max_n old pos) = Some pos"
| "deq_read (DeqMove b max_n old n entries pos) = Some pos"
| "deq_read _ = None"

definition alone :: "('a pc \<Rightarrow> bool) \<Rightarrow> ('a pc \<Rightarrow> nat option) \<Rightarrow> nat \<Rightarrow> (nat \<Rightarrow> 'a pc) \<Rightarrow> bool" where
  "alone act rd at pc \<longleftrightarrow> (\<forall>t u. act (pc t) \<longrightarrow> act (pc u) \<longrightarrow> t = u) \<and> (\<forall>t pos. rd (pc t) = Some pos \<longrightarrow> pos = at)"

definition mt_inv :: "u32 \<Rightarrow> 'a machine \<Rightarrow> bool" where
  "mt_inv h s \<longleftrightarrow> shared_ok h s \<and>
     reserved (\<lambda>t. filling (pcs s t)) (p_done s) (length (accepted s)) \<and>
     reserved (\<lambda>t. emptying (pcs s t)) (c_done s) (taken s) \<and>
     (\<forall>t. pc_ok h s (pcs s t)) \<and>
     (single (prod (mring s)) \<longrightarrow> alone producing enq_read (length (accepted s)) (pcs s)) \<and>
     (single (cons (mring s)) \<longrightarrow> alone consuming deq_read (taken s) (pcs s))"

text \<open>What a thread knows stays true while the others go on, as long as nobody writes to its slots.\<close>

lemma pc_ok_mono:
  assumes "pc_ok h s pc" "accepted s' = accepted s @ xs" "ring_capacity (mring s') = ring_capacity (mring s)"
    and "c_done s \<le> c_done s'" "p_done s \<le> p_done s'" "taken s \<le> taken s'"
    and "length (slots (mring s')) = length (slots (mring s))"
    and "\<And>a b p. filling pc = Some (a, b) \<Longrightarrow> a \<le> p \<Longrightarrow> p < b \<Longrightarrow>
      slots (mring s') ! slot h (mring s) p = slots (mring s) ! slot h (mring s) p"
  shows "pc_ok h s' pc"
proof -
  have sl: "slot h (mring s') = slot h (mring s)" using assms(7) by (simp add: slot_def fun_eq_iff)
  have st: "stored h s' a b" if "stored h s a b" "filling pc = Some (a, c)" "b \<le> c" "b \<le> length (accepted s)" for a b c
    using that assms(8) [of a c] unfolding stored_def sl assms(2) by (auto simp: nth_append)
  show ?thesis
    using assms(1-6) st by (cases pc) (auto simp: nth_append)
qed

lemma shared_stored_mono:
  assumes "stored h s a b" "accepted s' = accepted s @ xs" "b \<le> length (accepted s)"
    and "slots (mring s') = slots (mring s)"
  shows "stored h s' a b"
  using assms unfolding stored_def slot_def by (auto simp: nth_append)

lemma alone_idle:
  assumes "alone act rd at pc" "\<not> act x" "rd x = None"
  shows "alone act rd at (pc(t := x))"
  using assms unfolding alone_def by auto

lemma alone_go:
  assumes "alone act rd at pc" "act (pc t)" "\<And>pos. rd x = Some pos \<Longrightarrow> pos = at"
  shows "alone act rd at (pc(t := x))"
  using assms unfolding alone_def by auto

lemma alone_move:
  assumes "alone act rd at pc" "act (pc t)" "rd x = None" "\<And>y. rd y \<noteq> None \<Longrightarrow> act y"
  shows "alone act rd at' (pc(t := x))"
proof -
  have "rd (pc u) = None" if "u \<noteq> t" for u
    using assms(1,2,4) that unfolding alone_def by metis
  then show ?thesis using assms(1-3) unfolding alone_def by auto
qed

lemma reads_active: "enq_read pc \<noteq> None \<Longrightarrow> producing pc" "deq_read pc \<noteq> None \<Longrightarrow> consuming pc"
  by (cases pc; simp)+

lemma fills_active: "filling pc \<noteq> None \<Longrightarrow> producing pc" "emptying pc \<noteq> None \<Longrightarrow> consuming pc"
    "producing pc \<Longrightarrow> \<not> consuming pc"
  by (cases pc; simp)+

lemma pcs_irrelevant [simp]:
  "stored h (s\<lparr>pcs := x\<rparr>) = stored h s" "shared_ok h (s\<lparr>pcs := x\<rparr>) = shared_ok h s" "pc_ok h (s\<lparr>pcs := x\<rparr>) pc = pc_ok h s pc"
proof -
  show st: "stored h (s\<lparr>pcs := x\<rparr>) = stored h s" by (simp add: stored_def fun_eq_iff)
  show "shared_ok h (s\<lparr>pcs := x\<rparr>) = shared_ok h s" by (simp add: shared_ok_def st)
  show "pc_ok h (s\<lparr>pcs := x\<rparr>) pc = pc_ok h s pc" by (cases pc) (simp_all add: st)
qed

lemma iv_upd: "(\<lambda>u. f ((g(t := x)) u)) = (\<lambda>u. f (g u))(t := f x)"
  by auto

text \<open>What a step has to establish.\<close>

lemma mt_inv_step:
  assumes "mt_inv h s" "shared_ok h s'" "\<And>u. u \<noteq> t \<Longrightarrow> pc_ok h s' (pcs s u)" "pc_ok h s' pc"
    and "reserved ((\<lambda>u. filling (pcs s u))(t := filling pc)) (p_done s') (length (accepted s'))"
    and "reserved ((\<lambda>u. emptying (pcs s u))(t := emptying pc)) (c_done s') (taken s')"
    and "single (prod (mring s')) \<longrightarrow> alone producing enq_read (length (accepted s')) ((pcs s)(t := pc))"
    and "single (cons (mring s')) \<longrightarrow> alone consuming deq_read (taken s') ((pcs s)(t := pc))"
  shows "mt_inv h (s'\<lparr>pcs := (pcs s)(t := pc)\<rparr>)"
proof -
  have "pc_ok h s' (((pcs s)(t := pc)) u)" for u using assms(3,4) by simp
  then show ?thesis using assms unfolding mt_inv_def
    by (simp add: iv_upd [of filling] iv_upd [of emptying] del: fun_upd_apply)
qed

lemma mt_invD:
  assumes "mt_inv h s"
  shows "shared_ok h s" "reserved (\<lambda>t. filling (pcs s t)) (p_done s) (length (accepted s))"
    "reserved (\<lambda>t. emptying (pcs s t)) (c_done s) (taken s)" "pc_ok h s (pcs s t)"
    "single (prod (mring s)) \<Longrightarrow> alone producing enq_read (length (accepted s)) (pcs s)"
    "single (cons (mring s)) \<Longrightarrow> alone consuming deq_read (taken s) (pcs s)"
  using assms by (simp_all add: mt_inv_def)

text \<open>A step that leaves the ring alone.\<close>

lemma quiet_step:
  assumes inv: "mt_inv h s" and "pc_ok h s pc" "filling pc = filling (pcs s t)" "emptying pc = emptying (pcs s t)"
    and "producing pc \<Longrightarrow> producing (pcs s t)" "consuming pc \<Longrightarrow> consuming (pcs s t)"
    and "\<And>pos. enq_read pc = Some pos \<Longrightarrow> enq_read (pcs s t) = Some pos \<or> pos = length (accepted s)"
    and "\<And>pos. deq_read pc = Some pos \<Longrightarrow> deq_read (pcs s t) = Some pos \<or> pos = taken s"
  shows "mt_inv h (s\<lparr>pcs := (pcs s)(t := pc)\<rparr>)"
proof (rule mt_inv_step [OF inv])
  note I = mt_invD [OF inv]
  show "shared_ok h s" "pc_ok h s (pcs s u)" for u using I by simp_all
  show "reserved ((\<lambda>u. filling (pcs s u))(t := filling pc)) (p_done s) (length (accepted s))"
    "reserved ((\<lambda>u. emptying (pcs s u))(t := emptying pc)) (c_done s) (taken s)"
    using I(2,3) by (simp_all add: assms(3,4) fun_upd_idem)
  show "single (prod (mring s)) \<longrightarrow> alone producing enq_read (length (accepted s)) ((pcs s)(t := pc))"
    using I(5) assms(5,7) unfolding alone_def by (auto split: if_splits)
  show "single (cons (mring s)) \<longrightarrow> alone consuming deq_read (taken s) ((pcs s)(t := pc))"
    using I(6) assms(6,8) unfolding alone_def by (auto split: if_splits)
qed (fact assms(2))

section \<open>The steps keep the invariant\<close>

lemma pos_eqD:
  assumes "(h :: u32) + of_nat a = h + of_nat b" "a < b + 2 ^ 32" "b < a + 2 ^ 32"
  shows "a = b"
proof (rule ccontr)
  assume ne: "a \<noteq> b"
  have eq: "a mod 2 ^ 32 = b mod 2 ^ 32"
    using assms(1) by (simp add: word_of_nat_eq_iff take_bit_nat_def)
  from ne consider "a < b" | "b < a" by linarith
  then show False
  proof cases
    case 1
    then have "b - a < 2 ^ 32" using assms(3) by linarith
    then show ?thesis using mod_neq_offset [of 0 "b - a" "2 ^ 32" a] eq 1 by simp
  next
    case 2
    then have "a - b < 2 ^ 32" using assms(2) by linarith
    then show ?thesis using mod_neq_offset [of 0 "a - b" "2 ^ 32" b] eq 2 by simp
  qed
qed

lemma pos_diff:
  assumes "a \<le> b" "b - a < 2 ^ 32"
  shows "unat ((h + of_nat b) - (h + of_nat a) :: u32) = b - a"
proof -
  have "(h + of_nat b) - (h + of_nat a) = (of_nat (b - a) :: u32)" using assms(1) by simp
  then show ?thesis using assms(2) by (simp only:) (intro unat_of_nat_small, simp)
qed

lemma capacity_bound: "ring_shape r \<Longrightarrow> unat (ring_capacity r) < length (slots r) \<and> length (slots r) \<le> 2 ^ 31"
  by (erule ring_shapeD) simp

lemma sharedD:
  assumes "shared_ok h s"
  shows "ring_shape (mring s)" "head (prod (mring s)) = h + of_nat (length (accepted s))" "tail (prod (mring s)) = h + of_nat (p_done s)"
    "head (cons (mring s)) = h + of_nat (taken s)" "tail (cons (mring s)) = h + of_nat (c_done s)"
    "c_done s \<le> taken s" "taken s \<le> p_done s" "p_done s \<le> length (accepted s)"
    "length (accepted s) \<le> c_done s + unat (ring_capacity (mring s))"
    "stored h s (c_done s) (p_done s)" "returned s = take (c_done s) (accepted s)"
  using assms by (simp_all add: shared_ok_def)

text \<open>What the two readings of the counters are worth if the head has not moved since.\<close>

lemma free_room:
  assumes "shared_ok h s" "n \<le> ring_capacity (mring s) + tail (cons (mring s)) - (h + of_nat (length (accepted s)))"
  shows "length (accepted s) + unat n \<le> c_done s + unat (ring_capacity (mring s))"
proof -
  note S = sharedD [OF assms(1)]
  let ?d = "(h + of_nat (length (accepted s))) - (h + of_nat (c_done s)) :: u32"
  have "unat (ring_capacity (mring s)) < 2 ^ 32" using unat_lt_2p [of "ring_capacity (mring s)"] by simp
  then have d: "unat ?d = length (accepted s) - c_done s" using S(6-9) by (intro pos_diff) linarith+
  then have le: "?d \<le> ring_capacity (mring s)" using S(9) by (simp add: word_le_nat_alt)
  have "ring_capacity (mring s) + tail (cons (mring s)) - (h + of_nat (length (accepted s))) = ring_capacity (mring s) - ?d"
    by (simp add: S(5))
  then have "n \<le> ring_capacity (mring s) - ?d" using assms(2) by (simp only:)
  then have "unat n \<le> unat (ring_capacity (mring s)) - (length (accepted s) - c_done s)"
    unfolding word_le_nat_alt unat_sub_simple [OF le] d .
  then show ?thesis using S(6-9) by linarith
qed

lemma entries_room:
  assumes "shared_ok h s" "n \<le> tail (prod (mring s)) - (h + of_nat (taken s))"
  shows "taken s + unat n \<le> p_done s"
proof -
  note S = sharedD [OF assms(1)]
  have "unat (ring_capacity (mring s)) < 2 ^ 32" using unat_lt_2p [of "ring_capacity (mring s)"] by simp
  then have "unat ((h + of_nat (p_done s)) - (h + of_nat (taken s)) :: u32) = p_done s - taken s"
    using S(6-9) by (intro pos_diff) linarith+
  then have "unat n \<le> p_done s - taken s" using assms(2) by (simp add: S(3) word_le_nat_alt)
  then show ?thesis using S(7) by linarith
qed

lemma enq_move_ok:
  assumes inv: "mt_inv h s" and pc: "pcs s t = EnqMove b objs (h + of_nat (length (accepted s))) n free (length (accepted s))"
  defines "s' \<equiv> s\<lparr>mring := (mring s)\<lparr>prod := (prod (mring s))\<lparr>head := h + of_nat (length (accepted s)) + n\<rparr>\<rparr>,
    accepted := accepted s @ take (unat n) objs\<rparr>"
  shows "mt_inv h (s'\<lparr>pcs := (pcs s)(t := EnqCopy objs (h + of_nat (length (accepted s))) n free 0 (length (accepted s)))\<rparr>)"
proof (rule mt_inv_step [OF inv])
  note I = mt_invD [OF inv] and S = sharedD [OF mt_invD(1) [OF inv]]
  have own: "0 < unat n" "unat n \<le> length objs" "length (accepted s) + unat n \<le> c_done s + unat (ring_capacity (mring s))"
    using I(4) [of t] unfolding pc by simp_all
  have len: "length (accepted s') = length (accepted s) + unat n" using own(2) by (simp add: s'_def)
  have st: "stored h s' a e" if "stored h s a e" "e \<le> length (accepted s)" for a e
    using that(1) by (rule shared_stored_mono [OF _ _ that(2)]) (simp_all add: s'_def)
  have shape: "ring_shape (mring s')" using S(1) by (simp add: s'_def ring_shape_def)
  show "shared_ok h s'"
    unfolding shared_ok_def len using S own(3) shape st [OF S(10,8)] own(2)
    by (simp add: s'_def add.assoc)
  show "pc_ok h s' (pcs s u)" for u
    using I(4) [of u] by (rule pc_ok_mono) (simp_all add: s'_def)
  have "unat n \<le> unat (ring_capacity (mring s))" using own(3) S(6-8) by linarith
  then show "pc_ok h s' (EnqCopy objs (h + of_nat (length (accepted s))) n free 0 (length (accepted s)))"
    using own(2) by (auto simp: s'_def nth_append stored_def)
  show "reserved ((\<lambda>u. filling (pcs s u))(t := filling (EnqCopy objs (h + of_nat (length (accepted s))) n free 0 (length (accepted s)))))
      (p_done s') (length (accepted s'))"
    using reserved_add [OF I(2), of t "unat n"] own(1) S(8) pc unfolding len by (simp add: s'_def)
  show "reserved ((\<lambda>u. emptying (pcs s u))(t := emptying (EnqCopy objs (h + of_nat (length (accepted s))) n free 0 (length (accepted s)))))
      (c_done s') (taken s')"
    using I(3) pc by (simp add: s'_def fun_upd_idem)
  show "single (prod (mring s')) \<longrightarrow> alone producing enq_read (length (accepted s'))
      ((pcs s)(t := EnqCopy objs (h + of_nat (length (accepted s))) n free 0 (length (accepted s))))"
  proof
    assume "single (prod (mring s'))"
    then have "alone producing enq_read (length (accepted s)) (pcs s)" by (intro I(5)) (simp add: s'_def)
    then show "alone producing enq_read (length (accepted s'))
        ((pcs s)(t := EnqCopy objs (h + of_nat (length (accepted s))) n free 0 (length (accepted s))))"
      by (rule alone_move) (use pc reads_active(1) in auto)
  qed
  show "single (cons (mring s')) \<longrightarrow> alone consuming deq_read (taken s')
      ((pcs s)(t := EnqCopy objs (h + of_nat (length (accepted s))) n free 0 (length (accepted s))))"
    using I(6) by (auto simp: s'_def intro!: alone_idle)
qed

text \<open>A store only touches the slot of an object that its producer has reserved.\<close>

lemma enq_copy_ok:
  assumes inv: "mt_inv h s" and pc: "pcs s t = EnqCopy objs old n free i pos" and i: "i < unat n"
  defines "s' \<equiv> s\<lparr>mring := (mring s)\<lparr>slots := (slots (mring s))[slot h (mring s) (pos + i) := objs ! i]\<rparr>\<rparr>"
  shows "mt_inv h (s'\<lparr>pcs := (pcs s)(t := EnqCopy objs old n free (i + 1) pos)\<rparr>)"
proof (rule mt_inv_step [OF inv])
  note I = mt_invD [OF inv] and S = sharedD [OF mt_invD(1) [OF inv]]
  let ?r = "mring s"
  have own: "pos + unat n \<le> length (accepted s)" "old = h + of_nat pos" "unat n \<le> unat (ring_capacity ?r)" "unat n \<le> length objs"
      "\<And>j. j < unat n \<Longrightarrow> accepted s ! (pos + j) = objs ! j" "stored h s pos (pos + i)"
    using I(4) [of t] unfolding pc by simp_all
  have mine: "filling (pcs s t) = Some (pos, pos + unat n)" by (simp add: pc)
  have lo: "p_done s \<le> pos" by (rule reserved_bounds(1) [OF I(2)]) (rule mine)
  have keep: "slots (mring s') ! slot h ?r p = slots ?r ! slot h ?r p"
    if "c_done s \<le> p" "p < length (accepted s)" "p \<noteq> pos + i" for p
  proof -
    have "slot h ?r p \<noteq> slot h ?r (pos + i)"
    proof
      assume "slot h ?r p = slot h ?r (pos + i)"
      then have "p = pos + i"
        by (rule slot_eqD) (use that lo own(1) i S(6-9) capacity_bound [OF S(1)] in linarith)+
      then show False using that(3) by simp
    qed
    then show ?thesis by (simp add: s'_def)
  qed
  have sl: "slot h (mring s') = slot h ?r" by (simp add: s'_def slot_def fun_eq_iff)
  have st: "stored h s' a e" if "stored h s a e" "c_done s \<le> a" "e \<le> length (accepted s)" "e \<le> pos + i \<or> pos + i < a" for a e
    using that keep unfolding stored_def sl by (auto simp: s'_def)
  show "shared_ok h s'"
  proof -
    have "ring_shape (mring s')" using S(1) by (simp add: s'_def ring_shape_def)
    moreover have "stored h s' (c_done s) (p_done s)" using S(10) by (rule st) (use S(6-8) lo in auto)
    ultimately show ?thesis unfolding shared_ok_def using S by (simp add: s'_def)
  qed
  show "pc_ok h s' (pcs s u)" if "u \<noteq> t" for u
    using I(4) [of u]
  proof (rule pc_ok_mono [where xs = "[]"])
    fix a e p assume u: "filling (pcs s u) = Some (a, e)" "a \<le> p" "p < e"
    have "e \<le> pos \<or> pos + unat n \<le> a" using reserved_disjoint [OF I(2) _ _ that] u(1) mine by blast
    moreover have "p_done s \<le> a" "e \<le> length (accepted s)" using reserved_bounds [OF I(2), of u a e] u(1) by simp_all
    ultimately show "slots (mring s') ! slot h ?r p = slots ?r ! slot h ?r p"
      using u(2,3) i S(6-8) by (intro keep) linarith+
  qed (simp_all add: s'_def)
  show "pc_ok h s' (EnqCopy objs old n free (i + 1) pos)"
  proof -
    have inl: "slot h ?r (pos + i) < length (slots ?r)"
      using slot_of_slot(2) [OF S(1) own(3) i] by simp
    have "stored h s' pos (pos + i)" using own(6) by (rule st) (use lo S(6-8) own(1) i in auto)
    then have "stored h s' pos (pos + (i + 1))"
      unfolding stored_def sl using inl own(5) [OF i] by (auto simp: s'_def less_Suc_eq)
    then show ?thesis using own(1-5) i by (simp add: s'_def)
  qed
  show "reserved ((\<lambda>u. filling (pcs s u))(t := filling (EnqCopy objs old n free (i + 1) pos))) (p_done s') (length (accepted s'))"
    using I(2) pc by (simp add: s'_def fun_upd_idem)
  show "reserved ((\<lambda>u. emptying (pcs s u))(t := emptying (EnqCopy objs old n free (i + 1) pos))) (c_done s') (taken s')"
    using I(3) pc by (simp add: s'_def fun_upd_idem)
  show "single (prod (mring s')) \<longrightarrow> alone producing enq_read (length (accepted s')) ((pcs s)(t := EnqCopy objs old n free (i + 1) pos))"
    using I(5) pc by (auto simp: s'_def intro!: alone_go)
  show "single (cons (mring s')) \<longrightarrow> alone consuming deq_read (taken s') ((pcs s)(t := EnqCopy objs old n free (i + 1) pos))"
    using I(6) by (auto simp: s'_def intro!: alone_idle)
qed

lemma enq_tail_ok:
  assumes inv: "mt_inv h s" and pc: "pcs s t = EnqTail old n free pos" and tl: "tail (prod (mring s)) = old"
  defines "s' \<equiv> s\<lparr>mring := (mring s)\<lparr>prod := (prod (mring s))\<lparr>tail := old + n\<rparr>\<rparr>, p_done := p_done s + unat n\<rparr>"
  shows "mt_inv h (s'\<lparr>pcs := (pcs s)(t := EnqDone n fs)\<rparr>)"
proof (rule mt_inv_step [OF inv])
  note I = mt_invD [OF inv] and S = sharedD [OF mt_invD(1) [OF inv]]
  have own: "pos + unat n \<le> length (accepted s)" "old = h + of_nat pos" "stored h s pos (pos + unat n)"
    using I(4) [of t] unfolding pc by simp_all
  have mine: "filling (pcs s t) = Some (pos, pos + unat n)" by (simp add: pc)
  have cap: "unat (ring_capacity (mring s)) < 2 ^ 32" using unat_lt_2p [of "ring_capacity (mring s)"] by simp
  have lo: "p_done s \<le> pos" by (rule reserved_bounds(1) [OF I(2)]) (rule mine)
  have pos: "pos = p_done s"
  proof (rule pos_eqD)
    show "h + of_nat pos = h + of_nat (p_done s)" using tl own(2) S(3) by simp
    show "pos < p_done s + 2 ^ 32" "p_done s < pos + 2 ^ 32" using own(1) lo S(6-9) cap by linarith+
  qed
  have len: "p_done s + unat n \<le> length (accepted s)" using own(1) pos by simp
  have st: "stored h s' a e \<longleftrightarrow> stored h s a e" for a e by (simp add: s'_def stored_def slot_def)
  have both: "stored h s (c_done s) (p_done s + unat n)"
    using S(10) own(3) pos unfolding stored_def by (metis linorder_not_less)
  show "shared_ok h s'"
  proof -
    have "ring_shape (mring s')" using S(1) by (simp add: s'_def ring_shape_def)
    moreover have "stored h s' (c_done s) (p_done s + unat n)" using both by (simp only: st)
    ultimately show ?thesis unfolding shared_ok_def using S own(2) pos len by (simp add: s'_def)
  qed
  show "pc_ok h s' (pcs s u)" for u
    using I(4) [of u] by (rule pc_ok_mono [where xs = "[]"]) (simp_all add: s'_def)
  show "pc_ok h s' (EnqDone n fs)" by simp
  show "reserved ((\<lambda>u. filling (pcs s u))(t := filling (EnqDone n fs))) (p_done s') (length (accepted s'))"
    using reserved_drop [OF I(2), of t "p_done s + unat n"] mine pos by (simp add: s'_def)
  show "reserved ((\<lambda>u. emptying (pcs s u))(t := emptying (EnqDone n fs))) (c_done s') (taken s')"
    using I(3) pc by (simp add: s'_def fun_upd_idem)
  show "single (prod (mring s')) \<longrightarrow> alone producing enq_read (length (accepted s')) ((pcs s)(t := EnqDone n fs))"
    using I(5) by (auto simp: s'_def intro!: alone_idle)
  show "single (cons (mring s')) \<longrightarrow> alone consuming deq_read (taken s') ((pcs s)(t := EnqDone n fs))"
    using I(6) by (auto simp: s'_def intro!: alone_idle)
qed

lemma deq_move_ok:
  assumes inv: "mt_inv h s" and pc: "pcs s t = DeqMove b max_n (h + of_nat (taken s)) n entries (taken s)"
  defines "s' \<equiv> s\<lparr>mring := (mring s)\<lparr>cons := (cons (mring s))\<lparr>head := h + of_nat (taken s) + n\<rparr>\<rparr>, taken := taken s + unat n\<rparr>"
  shows "mt_inv h (s'\<lparr>pcs := (pcs s)(t := DeqCopy [] (h + of_nat (taken s)) n entries (taken s))\<rparr>)"
proof (rule mt_inv_step [OF inv])
  note I = mt_invD [OF inv] and S = sharedD [OF mt_invD(1) [OF inv]]
  have own: "0 < unat n" "taken s + unat n \<le> p_done s" using I(4) [of t] unfolding pc by simp_all
  have st: "stored h s' a e \<longleftrightarrow> stored h s a e" for a e by (simp add: s'_def stored_def slot_def)
  show "shared_ok h s'"
  proof -
    have "ring_shape (mring s')" using S(1) by (simp add: s'_def ring_shape_def)
    moreover have "stored h s' (c_done s) (p_done s)" using S(10) by (simp only: st)
    ultimately show ?thesis unfolding shared_ok_def using S own by (simp add: s'_def add.assoc)
  qed
  show "pc_ok h s' (pcs s u)" for u
    using I(4) [of u] by (rule pc_ok_mono [where xs = "[]"]) (simp_all add: s'_def)
  show "pc_ok h s' (DeqCopy [] (h + of_nat (taken s)) n entries (taken s))"
    using own(2) S(6-9) by (simp add: s'_def)
  show "reserved ((\<lambda>u. filling (pcs s u))(t := filling (DeqCopy [] (h + of_nat (taken s)) n entries (taken s))))
      (p_done s') (length (accepted s'))"
    using I(2) pc by (simp add: s'_def fun_upd_idem)
  show "reserved ((\<lambda>u. emptying (pcs s u))(t := emptying (DeqCopy [] (h + of_nat (taken s)) n entries (taken s)))) (c_done s') (taken s')"
    using reserved_add [OF I(3), of t "unat n"] own(1) S(6) pc by (simp add: s'_def)
  show "single (prod (mring s')) \<longrightarrow> alone producing enq_read (length (accepted s'))
      ((pcs s)(t := DeqCopy [] (h + of_nat (taken s)) n entries (taken s)))"
    using I(5) by (auto simp: s'_def intro!: alone_idle)
  show "single (cons (mring s')) \<longrightarrow> alone consuming deq_read (taken s')
      ((pcs s)(t := DeqCopy [] (h + of_nat (taken s)) n entries (taken s)))"
  proof
    assume "single (cons (mring s'))"
    then have "alone consuming deq_read (taken s) (pcs s)" by (intro I(6)) (simp add: s'_def)
    then show "alone consuming deq_read (taken s') ((pcs s)(t := DeqCopy [] (h + of_nat (taken s)) n entries (taken s)))"
      by (rule alone_move) (use pc reads_active(2) in auto)
  qed
qed

lemma deq_tail_ok:
  assumes inv: "mt_inv h s" and pc: "pcs s t = DeqTail acc old n entries pos" and tl: "tail (cons (mring s)) = old"
  defines "s' \<equiv> s\<lparr>mring := (mring s)\<lparr>cons := (cons (mring s))\<lparr>tail := old + n\<rparr>\<rparr>, c_done := c_done s + unat n,
    returned := returned s @ acc\<rparr>"
  shows "mt_inv h (s'\<lparr>pcs := (pcs s)(t := DeqDone acc av)\<rparr>)"
proof (rule mt_inv_step [OF inv])
  note I = mt_invD [OF inv] and S = sharedD [OF mt_invD(1) [OF inv]]
  have own: "pos + unat n \<le> length (accepted s)" "old = h + of_nat pos" "length acc = unat n"
      "\<And>j. j < length acc \<Longrightarrow> acc ! j = accepted s ! (pos + j)"
    using I(4) [of t] unfolding pc by simp_all
  have mine: "emptying (pcs s t) = Some (pos, pos + unat n)" by (simp add: pc)
  have cap: "unat (ring_capacity (mring s)) < 2 ^ 32" using unat_lt_2p [of "ring_capacity (mring s)"] by simp
  have lo: "c_done s \<le> pos" by (rule reserved_bounds(1) [OF I(3)]) (rule mine)
  have pos: "pos = c_done s"
  proof (rule pos_eqD)
    show "h + of_nat pos = h + of_nat (c_done s)" using tl own(2) S(5) by simp
    show "pos < c_done s + 2 ^ 32" "c_done s < pos + 2 ^ 32" using own(1) lo S(6-9) cap by linarith+
  qed
  have len: "c_done s + unat n \<le> taken s" using reserved_bounds(3) [OF I(3), of t pos] mine pos by simp
  have st: "stored h s' a e \<longleftrightarrow> stored h s a e" for a e by (simp add: s'_def stored_def slot_def)
  have less: "stored h s (c_done s + unat n) (p_done s)" using S(10) by (simp add: stored_def)
  have "acc = take (unat n) (drop (c_done s) (accepted s))"
    by (rule nth_equalityI) (use own pos in simp_all)
  then have ret: "returned s @ acc = take (c_done s + unat n) (accepted s)" using S(11) by (simp add: take_add)
  show "shared_ok h s'"
  proof -
    have "ring_shape (mring s')" using S(1) by (simp add: s'_def ring_shape_def)
    moreover have "stored h s' (c_done s + unat n) (p_done s)" using less by (simp only: st)
    ultimately show ?thesis unfolding shared_ok_def using S own(2) pos len ret by (simp add: s'_def)
  qed
  show "pc_ok h s' (pcs s u)" for u
    using I(4) [of u] by (rule pc_ok_mono [where xs = "[]"]) (simp_all add: s'_def)
  show "pc_ok h s' (DeqDone acc av)" by simp
  show "reserved ((\<lambda>u. filling (pcs s u))(t := filling (DeqDone acc av))) (p_done s') (length (accepted s'))"
    using I(2) pc by (simp add: s'_def fun_upd_idem)
  show "reserved ((\<lambda>u. emptying (pcs s u))(t := emptying (DeqDone acc av))) (c_done s') (taken s')"
    using reserved_drop [OF I(3), of t "c_done s + unat n"] mine pos by (simp add: s'_def)
  show "single (prod (mring s')) \<longrightarrow> alone producing enq_read (length (accepted s')) ((pcs s)(t := DeqDone acc av))"
    using I(5) by (auto simp: s'_def intro!: alone_idle)
  show "single (cons (mring s')) \<longrightarrow> alone consuming deq_read (taken s') ((pcs s)(t := DeqDone acc av))"
    using I(6) by (auto simp: s'_def intro!: alone_idle)
qed

text \<open>The outcome of a step: the invariant holds again, or the thread waits for its turn to move a tail.\<close>

definition progress_ok :: "u32 \<Rightarrow> 'a machine \<Rightarrow> nat \<Rightarrow> 'a progress \<Rightarrow> bool" where
  "progress_ok h s t res \<longleftrightarrow>
     (case res of
        Go s' pc \<Rightarrow> mt_inv h (s'\<lparr>pcs := (pcs s)(t := pc)\<rparr>)
      | Wait \<Rightarrow> (\<exists>old n free pos. pcs s t = EnqTail old n free pos \<and> pos \<noteq> p_done s) \<or>
                (\<exists>acc old n entries pos. pcs s t = DeqTail acc old n entries pos \<and> pos \<noteq> c_done s)
      | Fault \<Rightarrow> False)"

lemma progress_simps [simp]:
  "progress_ok h s t (Go s' pc) = mt_inv h (s'\<lparr>pcs := (pcs s)(t := pc)\<rparr>)" "\<not> progress_ok h s t Fault"
  by (simp_all add: progress_ok_def)

lemma aloneD:
  assumes "alone act rd at pc"
  shows "act (pc t) \<Longrightarrow> act (pc u) \<Longrightarrow> t = u" "rd (pc t) = Some pos \<Longrightarrow> pos = at"
  using assms by (auto simp: alone_def)

lemma ring_head_idem: "r\<lparr>prod := (prod r)\<lparr>head := head (prod r)\<rparr>\<rparr> = r" "r\<lparr>cons := (cons r)\<lparr>head := head (cons r)\<rparr>\<rparr> = r"
  by (cases r; cases "prod r"; cases "cons r"; simp)+

lemma enq_free_eq:
  assumes "free = ring_capacity (mring s) + tail (cons (mring s)) - old"
    and "(if of_nat (length objs) > free then (if b = RTE_RING_QUEUE_FIXED then 0 else free) else of_nat (length objs)) = n"
  shows "enq_step s (EnqFree b objs old pos) = (if n = 0 then Go s (EnqDone 0 free) else Go s (EnqMove b objs old n free pos))"
  unfolding enq_step.simps Let_def assms(1) [symmetric] assms(2) ..

lemma deq_entries_eq:
  assumes "entries = tail (prod (mring s)) - old"
    and "(if max_n > entries then (if b = RTE_RING_QUEUE_FIXED then 0 else entries) else max_n) = n"
  shows "deq_step s (DeqEntries b max_n old pos) = (if n = 0 then Go s (DeqDone [] entries) else Go s (DeqMove b max_n old n entries pos))"
  unfolding deq_step.simps Let_def assms(1) [symmetric] assms(2) ..

lemma enq_free_ok:
  assumes inv: "mt_inv h s" and pc: "pcs s t = EnqFree b objs old pos"
  shows "progress_ok h s t (enq_step s (EnqFree b objs old pos))"
proof -
  note I = mt_invD [OF inv]
  have own: "length objs < 2 ^ 32" "old = h + of_nat pos" "pos \<le> length (accepted s)" using I(4) [of t] unfolding pc by simp_all
  define free where "free = ring_capacity (mring s) + tail (cons (mring s)) - old"
  define n where "n = (if of_nat (length objs) > free then (if b = RTE_RING_QUEUE_FIXED then 0 else free) else of_nat (length objs))"
  have ul: "unat (of_nat (length objs) :: u32) = length objs" using own(1) by (intro unat_of_nat_small) simp
  have n: "n \<le> free" "unat n \<le> length objs"
    by (auto simp: n_def word_le_nat_alt word_less_nat_alt ul)
  have eq: "enq_step s (EnqFree b objs old pos) = (if n = 0 then Go s (EnqDone 0 free) else Go s (EnqMove b objs old n free pos))"
    by (rule enq_free_eq [OF free_def n_def [symmetric]])
  show ?thesis
  proof (cases "n = 0")
    case True
    then show ?thesis unfolding eq using pc by (auto intro!: quiet_step [OF inv])
  next
    case False
    then have "0 < unat n" by (simp add: unat_gt_0)
    moreover have "pos + unat n \<le> c_done s + unat (ring_capacity (mring s))" if "pos = length (accepted s)"
      using free_room [OF I(1)] n(1) own(2) that unfolding free_def by blast
    ultimately have "pc_ok h s (EnqMove b objs old n free pos)" using own n(2) by simp
    then show ?thesis unfolding eq using False pc by (auto intro!: quiet_step [OF inv])
  qed
qed

lemma enq_step_ok:
  assumes inv: "mt_inv h s" and lap: "not_lapped s" and act: "producing (pcs s t)"
  shows "progress_ok h s t (enq_step s (pcs s t))"
proof (cases "pcs s t")
  case (EnqHead b objs)
  then show ?thesis using mt_invD(4) [OF inv, of t] sharedD(2) [OF mt_invD(1) [OF inv]]
    by (auto intro!: quiet_step [OF inv])
next
  case (EnqFree b objs old pos)
  then show ?thesis using enq_free_ok [OF inv EnqFree] by simp
next
  case (EnqMove b objs old n free pos)
  note I = mt_invD [OF inv] and S = sharedD [OF mt_invD(1) [OF inv]]
  have own: "length objs < 2 ^ 32" "old = h + of_nat pos" "pos \<le> length (accepted s)" using I(4) [of t] unfolding EnqMove by simp_all
  show ?thesis
  proof (cases "single (prod (mring s)) \<or> head (prod (mring s)) = old")
    case True
    have "pos = length (accepted s)"
    proof (cases "single (prod (mring s))")
      case True
      then show ?thesis using aloneD(2) [OF I(5)] EnqMove by (metis enq_read.simps(2))
    next
      case False
      then have "h + of_nat pos = h + of_nat (length (accepted s))" using True own(2) S(2) by simp
      moreover have "length (accepted s) < pos + 2 ^ 32" using lap EnqMove by (auto simp: not_lapped_def)
      ultimately show ?thesis using own(3) by (intro pos_eqD [of h]) simp_all
    qed
    then have "pcs s t = EnqMove b objs (h + of_nat (length (accepted s))) n free (length (accepted s))" using EnqMove own(2) by simp
    from enq_move_ok [OF inv this] show ?thesis
      using True \<open>pos = length (accepted s)\<close> own(2) unfolding EnqMove
      by (auto simp: Let_def rte_atomic32_cmpset_def)
  next
    case False
    then have "enq_step s (pcs s t) = Go s (EnqHead b objs)"
      unfolding EnqMove by (simp add: Let_def rte_atomic32_cmpset_def ring_head_idem)
    moreover have "mt_inv h (s\<lparr>pcs := (pcs s)(t := EnqHead b objs)\<rparr>)"
      using EnqMove own(1) by (intro quiet_step [OF inv]) simp_all
    ultimately show ?thesis by simp
  qed
next
  case (EnqCopy objs old n free i pos)
  note I = mt_invD [OF inv] and S = sharedD [OF mt_invD(1) [OF inv]]
  have own: "old = h + of_nat pos" "unat n \<le> unat (ring_capacity (mring s))" using I(4) [of t] unfolding EnqCopy by simp_all
  show ?thesis
  proof (cases "i < unat n")
    case True
    note sl = slot_of_slot [OF S(1) own(2) True, of h pos]
    have "store (slots (mring s)) (slot_of (mring s) old n (of_nat i)) (objs ! i) =
        Some ((slots (mring s))[slot h (mring s) (pos + i) := objs ! i])"
      using sl by (simp add: store_def own(1))
    then show ?thesis using enq_copy_ok [OF inv EnqCopy True] True unfolding EnqCopy by simp
  next
    case False
    then have "i = unat n" using I(4) [of t] unfolding EnqCopy by simp
    then have "pc_ok h s (EnqTail old n free pos)" using I(4) [of t] unfolding EnqCopy by simp
    then have "mt_inv h (s\<lparr>pcs := (pcs s)(t := EnqTail old n free pos)\<rparr>)"
      using EnqCopy by (intro quiet_step [OF inv]) simp_all
    then show ?thesis using False unfolding EnqCopy by simp
  qed
next
  case (EnqTail old n free pos)
  note I = mt_invD [OF inv] and S = sharedD [OF mt_invD(1) [OF inv]]
  have own: "old = h + of_nat pos" using I(4) [of t] unfolding EnqTail by simp
  have mine: "filling (pcs s t) = Some (pos, pos + unat n)" by (simp add: EnqTail)
  show ?thesis
  proof (cases "pos = p_done s")
    case True
    then have tl: "tail (prod (mring s)) = old" using own S(3) by simp
    show ?thesis using enq_tail_ok [OF inv EnqTail tl, of "free - n"] tl unfolding EnqTail by (simp add: update_tail_def)
  next
    case False
    have "\<not> single (prod (mring s))"
    proof
      assume sgl: "single (prod (mring s))"
      have "p_done s < length (accepted s)" using reserved_bounds [OF I(2), of t] mine by auto
      then obtain u b where u: "filling (pcs s u) = Some (p_done s, b)" by (rule reserved_first [OF I(2)])
      then have "u = t" using aloneD(1) [OF I(5) [OF sgl]] act fills_active(1) [of "pcs s u"] by auto
      then show False using u mine False by simp
    qed
    moreover have "tail (prod (mring s)) \<noteq> old"
    proof
      assume eq: "tail (prod (mring s)) = old"
      have "unat (ring_capacity (mring s)) < 2 ^ 32" using unat_lt_2p [of "ring_capacity (mring s)"] by simp
      then have "pos < p_done s + 2 ^ 32" "p_done s < pos + 2 ^ 32"
        using reserved_bounds [OF I(2), of t pos "pos + unat n"] mine S(6-9) by auto
      moreover have "h + of_nat pos = h + of_nat (p_done s)" using eq own S(3) by simp
      ultimately show False using pos_eqD False by blast
    qed
    ultimately have "enq_step s (EnqTail old n free pos) = Wait" by (simp add: update_tail_def)
    then have "enq_step s (pcs s t) = Wait" using EnqTail by simp
    then show ?thesis using False EnqTail by (simp add: progress_ok_def)
  qed
qed (use act in simp_all)

lemma deq_entries_ok:
  assumes inv: "mt_inv h s" and pc: "pcs s t = DeqEntries b max_n old pos"
  shows "progress_ok h s t (deq_step s (DeqEntries b max_n old pos))"
proof -
  note I = mt_invD [OF inv]
  have own: "old = h + of_nat pos" "pos \<le> taken s" using I(4) [of t] unfolding pc by simp_all
  define entries where "entries = tail (prod (mring s)) - old"
  define n where "n = (if max_n > entries then (if b = RTE_RING_QUEUE_FIXED then 0 else entries) else max_n)"
  have n: "n \<le> entries" by (auto simp: n_def)
  have eq: "deq_step s (DeqEntries b max_n old pos) =
      (if n = 0 then Go s (DeqDone [] entries) else Go s (DeqMove b max_n old n entries pos))"
    by (rule deq_entries_eq [OF entries_def n_def [symmetric]])
  show ?thesis
  proof (cases "n = 0")
    case True
    then show ?thesis unfolding eq using pc by (auto intro!: quiet_step [OF inv])
  next
    case False
    then have "0 < unat n" by (simp add: unat_gt_0)
    moreover have "pos + unat n \<le> p_done s" if "pos = taken s"
      using entries_room [OF I(1)] n own(1) that unfolding entries_def by blast
    ultimately have "pc_ok h s (DeqMove b max_n old n entries pos)" using own by simp
    then show ?thesis unfolding eq using False pc by (auto intro!: quiet_step [OF inv])
  qed
qed

lemma deq_step_ok:
  assumes inv: "mt_inv h s" and lap: "not_lapped s" and act: "consuming (pcs s t)"
  shows "progress_ok h s t (deq_step s (pcs s t))"
proof (cases "pcs s t")
  case (DeqHead b max_n)
  then show ?thesis using sharedD(4) [OF mt_invD(1) [OF inv]]
    by (auto intro!: quiet_step [OF inv])
next
  case (DeqEntries b max_n old pos)
  then show ?thesis using deq_entries_ok [OF inv DeqEntries] by simp
next
  case (DeqMove b max_n old n entries pos)
  note I = mt_invD [OF inv] and S = sharedD [OF mt_invD(1) [OF inv]]
  have own: "old = h + of_nat pos" "pos \<le> taken s" using I(4) [of t] unfolding DeqMove by simp_all
  show ?thesis
  proof (cases "single (cons (mring s)) \<or> head (cons (mring s)) = old")
    case True
    have pos: "pos = taken s"
    proof (cases "single (cons (mring s))")
      case True
      then show ?thesis using aloneD(2) [OF I(6)] DeqMove by (metis deq_read.simps(2))
    next
      case False
      then have "h + of_nat pos = h + of_nat (taken s)" using True own(1) S(4) by simp
      moreover have "taken s < pos + 2 ^ 32" using lap DeqMove by (auto simp: not_lapped_def)
      ultimately show ?thesis using own(2) by (intro pos_eqD [of h]) simp_all
    qed
    then have "pcs s t = DeqMove b max_n (h + of_nat (taken s)) n entries (taken s)" using DeqMove own(1) by simp
    from deq_move_ok [OF inv this] show ?thesis
      using True pos own(1) unfolding DeqMove by (auto simp: Let_def rte_atomic32_cmpset_def)
  next
    case False
    then have "deq_step s (pcs s t) = Go s (DeqHead b max_n)"
      unfolding DeqMove by (simp add: Let_def rte_atomic32_cmpset_def ring_head_idem)
    moreover have "mt_inv h (s\<lparr>pcs := (pcs s)(t := DeqHead b max_n)\<rparr>)"
      using DeqMove by (intro quiet_step [OF inv]) simp_all
    ultimately show ?thesis by simp
  qed
next
  case (DeqCopy acc old n entries pos)
  note I = mt_invD [OF inv] and S = sharedD [OF mt_invD(1) [OF inv]]
  have own: "old = h + of_nat pos" "pos + unat n \<le> length (accepted s)" "unat n \<le> unat (ring_capacity (mring s))"
      "length acc \<le> unat n" "\<And>j. j < length acc \<Longrightarrow> acc ! j = accepted s ! (pos + j)"
    using I(4) [of t] unfolding DeqCopy by simp_all
  show ?thesis
  proof (cases "length acc < unat n")
    case True
    let ?p = "pos + length acc"
    note sl = slot_of_slot [OF S(1) own(3) True, of h pos]
    have mine: "emptying (pcs s t) = Some (pos, pos + unat n)" by (simp add: DeqCopy)
    have "c_done s \<le> ?p" "?p < p_done s" using reserved_bounds [OF I(3), of t] mine True S(6-9) by auto
    then have "slots (mring s) ! slot h (mring s) ?p = accepted s ! ?p" using S(10) by (simp add: stored_def)
    then have ld: "load (slots (mring s)) (slot_of (mring s) old n (of_nat (length acc))) = Some (accepted s ! ?p)"
      using sl by (simp add: load_def own(1))
    have "pc_ok h s (DeqCopy (acc @ [accepted s ! ?p]) old n entries pos)"
      using own True by (auto simp: nth_append less_Suc_eq)
    then have "mt_inv h (s\<lparr>pcs := (pcs s)(t := DeqCopy (acc @ [accepted s ! ?p]) old n entries pos)\<rparr>)"
      using DeqCopy by (intro quiet_step [OF inv]) simp_all
    then show ?thesis using True ld unfolding DeqCopy by simp
  next
    case False
    then have "pc_ok h s (DeqTail acc old n entries pos)" using own by simp
    then have "mt_inv h (s\<lparr>pcs := (pcs s)(t := DeqTail acc old n entries pos)\<rparr>)"
      using DeqCopy by (intro quiet_step [OF inv]) simp_all
    then show ?thesis using False unfolding DeqCopy by simp
  qed
next
  case (DeqTail acc old n entries pos)
  note I = mt_invD [OF inv] and S = sharedD [OF mt_invD(1) [OF inv]]
  have own: "old = h + of_nat pos" using I(4) [of t] unfolding DeqTail by simp
  have mine: "emptying (pcs s t) = Some (pos, pos + unat n)" by (simp add: DeqTail)
  show ?thesis
  proof (cases "pos = c_done s")
    case True
    then have tl: "tail (cons (mring s)) = old" using own S(5) by simp
    show ?thesis using deq_tail_ok [OF inv DeqTail tl, of "entries - n"] tl unfolding DeqTail by (simp add: update_tail_def)
  next
    case False
    have "\<not> single (cons (mring s))"
    proof
      assume sgl: "single (cons (mring s))"
      have "c_done s < taken s" using reserved_bounds [OF I(3), of t] mine by auto
      then obtain u b where u: "emptying (pcs s u) = Some (c_done s, b)" by (rule reserved_first [OF I(3)])
      then have "u = t" using aloneD(1) [OF I(6) [OF sgl]] act fills_active(2) [of "pcs s u"] by auto
      then show False using u mine False by simp
    qed
    moreover have "tail (cons (mring s)) \<noteq> old"
    proof
      assume eq: "tail (cons (mring s)) = old"
      have "unat (ring_capacity (mring s)) < 2 ^ 32" using unat_lt_2p [of "ring_capacity (mring s)"] by simp
      then have "pos < c_done s + 2 ^ 32" "c_done s < pos + 2 ^ 32"
        using reserved_bounds [OF I(3), of t pos "pos + unat n"] mine S(6-9) by auto
      moreover have "h + of_nat pos = h + of_nat (c_done s)" using eq own S(5) by simp
      ultimately show False using pos_eqD False by blast
    qed
    ultimately have "deq_step s (DeqTail acc old n entries pos) = Wait" by (simp add: update_tail_def)
    then have "deq_step s (pcs s t) = Wait" using DeqTail by simp
    then show ?thesis using False DeqTail by (simp add: progress_ok_def)
  qed
qed (use act in simp_all)

lemma mt_step_inv:
  assumes "mt_step s s'" "mt_inv h s" "not_lapped s"
  shows "mt_inv h s'"
  using assms
proof (cases rule: mt_step.cases)
  case (call_enq t objs b)
  have rest: "\<not> producing (pcs s t)" "\<not> consuming (pcs s t)" using call_enq(2) by (simp_all add: resting_def)
  have none: "filling (pcs s t) = None" "emptying (pcs s t) = None" using rest fills_active(1,2) by blast+
  show ?thesis unfolding call_enq(1)
  proof (rule mt_inv_step [OF assms(2)])
    note I = mt_invD [OF assms(2)]
    show "reserved ((\<lambda>u. filling (pcs s u))(t := filling (EnqHead b objs))) (p_done s) (length (accepted s))"
      "reserved ((\<lambda>u. emptying (pcs s u))(t := emptying (EnqHead b objs))) (c_done s) (taken s)"
      using I(2,3) none by (simp_all add: fun_upd_idem)
    show "single (prod (mring s)) \<longrightarrow> alone producing enq_read (length (accepted s)) ((pcs s)(t := EnqHead b objs))"
      using call_enq(4) I(5) by (auto simp: alone_def)
    show "single (cons (mring s)) \<longrightarrow> alone consuming deq_read (taken s) ((pcs s)(t := EnqHead b objs))"
      using I(6) by (auto intro!: alone_idle)
  qed (use mt_invD [OF assms(2)] call_enq(3) in simp_all)
next
  case (call_deq t b max_n)
  have rest: "\<not> producing (pcs s t)" "\<not> consuming (pcs s t)" using call_deq(2) by (simp_all add: resting_def)
  have none: "filling (pcs s t) = None" "emptying (pcs s t) = None" using rest fills_active(1,2) by blast+
  show ?thesis unfolding call_deq(1)
  proof (rule mt_inv_step [OF assms(2)])
    note I = mt_invD [OF assms(2)]
    show "reserved ((\<lambda>u. filling (pcs s u))(t := filling (DeqHead b max_n))) (p_done s) (length (accepted s))"
      "reserved ((\<lambda>u. emptying (pcs s u))(t := emptying (DeqHead b max_n))) (c_done s) (taken s)"
      using I(2,3) none by (simp_all add: fun_upd_idem)
    show "single (prod (mring s)) \<longrightarrow> alone producing enq_read (length (accepted s)) ((pcs s)(t := DeqHead b max_n))"
      using I(5) by (auto intro!: alone_idle)
    show "single (cons (mring s)) \<longrightarrow> alone consuming deq_read (taken s) ((pcs s)(t := DeqHead b max_n))"
      using call_deq(3) I(6) by (auto simp: alone_def)
  qed (use mt_invD [OF assms(2)] in simp_all)
next
  case (go t s1 pc)
  show ?thesis
  proof (cases "producing (pcs s t)")
    case True
    then show ?thesis using enq_step_ok [OF assms(2,3) True] go by (simp add: thread_step_def)
  next
    case False
    then have "consuming (pcs s t)" using go(2) unfolding thread_step_def by (cases "pcs s t") simp_all
    then show ?thesis using deq_step_ok [OF assms(2,3), of t] False go by (simp add: thread_step_def)
  qed
qed

lemma mt_start_inv:
  assumes "ring_inv r"
  shows "mt_inv (tail (cons r)) (mt_start r)" "not_lapped (mt_start r)"
proof -
  have R: "ring_shape r" "head (prod r) = tail (prod r)" "head (cons r) = tail (cons r)" "ring_used r \<le> unat (ring_capacity r)"
    using assms by (simp_all add: ring_inv_def)
  have "stored (tail (cons r)) (mt_start r) 0 (ring_used r)"
    by (simp add: stored_def mt_start_def ring_list_def seg_def slot_def)
  then show "mt_inv (tail (cons r)) (mt_start r)"
    using R by (simp add: mt_inv_def shared_ok_def mt_start_def reserved_def alone_def) (simp add: ring_used_def)
  show "not_lapped (mt_start r)" by (simp add: not_lapped_def mt_start_def)
qed

lemma mt_reach_inv:
  assumes "mt_reach r s" "ring_inv r"
  shows "mt_inv (tail (cons r)) s \<and> not_lapped s"
  using assms
proof (induction rule: mt_reach.induct)
  case start
  then show ?case using mt_start_inv by blast
next
  case (step s s')
  then show ?case using mt_step_inv by blast
qed

lemma thread_step_ok:
  assumes "mt_inv h s" "not_lapped s" "\<not> resting (pcs s t)"
  shows "progress_ok h s t (thread_step s (pcs s t))"
  using assms enq_step_ok [of h s t] deq_step_ok [of h s t] by (auto simp: thread_step_def resting_def)

lemma rest_wait: "resting pc \<Longrightarrow> thread_step s pc = Wait"
  by (cases pc) (simp_all add: resting_def thread_step_def)

text \<open>With no call under way the ring is what the sequential model calls a ring.\<close>

lemma mt_quiet:
  assumes inv: "mt_inv h s" and rest: "\<And>t. resting (pcs s t)"
  shows "ring_inv (mring s)" "accepted s = returned s @ ring_list (mring s)"
proof -
  note I = mt_invD [OF inv] and S = sharedD [OF mt_invD(1) [OF inv]]
  have "filling (pcs s t) = None" "emptying (pcs s t) = None" for t
    using rest [of t] fills_active(1,2) unfolding resting_def by blast+
  then have eq: "p_done s = length (accepted s)" "c_done s = taken s"
    using reserved_empty [OF I(2)] reserved_empty [OF I(3)] S(6-8) by simp_all
  have "unat (ring_capacity (mring s)) < 2 ^ 32" using unat_lt_2p [of "ring_capacity (mring s)"] by simp
  then have used: "ring_used (mring s) = length (accepted s) - c_done s"
    unfolding ring_used_def S(3,5) eq(1) using S(6-9) by (intro pos_diff) linarith+
  then show "ring_inv (mring s)" using S(1-5,9) eq by (simp add: ring_inv_def)
  obtain k where k: "k \<le> 31" "length (slots (mring s)) = 2 ^ k" using S(1) by (rule ring_shapeD) blast
  have "(2 :: nat) ^ k dvd 2 ^ 32" using k(1) by (intro le_imp_power_dvd) simp
  then have cong: "(unat (tail (cons (mring s))) + i) mod length (slots (mring s)) = slot h (mring s) (c_done s + i)" for i
  proof -
    assume d: "(2 :: nat) ^ k dvd 2 ^ 32"
    have "unat (tail (cons (mring s))) = (unat h + c_done s mod 2 ^ 32) mod 2 ^ 32"
      unfolding S(5) by (simp add: unat_word_ariths unat_of_nat take_bit_nat_def)
    then have "unat (tail (cons (mring s))) mod 2 ^ k = (unat h + c_done s mod 2 ^ 32) mod 2 ^ k"
      by (simp only: mod_mod_cancel [OF d])
    also have "\<dots> = (unat h + c_done s) mod 2 ^ k" by (metis mod_add_right_eq mod_mod_cancel [OF d])
    finally show ?thesis unfolding slot_def k(2) by (metis add.assoc mod_add_left_eq)
  qed
  have "ring_list (mring s) = drop (c_done s) (accepted s)"
  proof (rule nth_equalityI)
    fix i assume i: "i < length (ring_list (mring s))"
    then have "slots (mring s) ! slot h (mring s) (c_done s + i) = accepted s ! (c_done s + i)"
      using S(10) used eq(1) by (simp add: stored_def)
    then show "ring_list (mring s) ! i = drop (c_done s) (accepted s) ! i"
      using i used S(6-8) by (simp add: ring_list_def seg_def cong)
  qed (use used in simp)
  then show "accepted s = returned s @ ring_list (mring s)" using S(11) by simp
qed

text \<open>If a call is under way, some thread can go on.\<close>

lemma mt_progress:
  assumes inv: "mt_inv h s" and lap: "not_lapped s" and busy: "\<not> resting (pcs s t)"
  shows "\<exists>u s' pc. thread_step s (pcs s u) = Go s' pc"
proof (cases "thread_step s (pcs s t)")
  case Fault
  then show ?thesis using thread_step_ok [OF inv lap busy] by simp
next
  case (Go s' pc)
  then show ?thesis by blast
next
  case Wait
  note I = mt_invD [OF inv]
  have "progress_ok h s t Wait" using thread_step_ok [OF inv lap busy] Wait by simp
  then consider (enq) old n free pos where "pcs s t = EnqTail old n free pos"
    | (deq) acc old n entries pos where "pcs s t = DeqTail acc old n entries pos"
    by (auto simp: progress_ok_def)
  then obtain u where u: "\<not> resting (pcs s u)"
      "\<And>old n free pos. pcs s u = EnqTail old n free pos \<Longrightarrow> pos = p_done s"
      "\<And>acc old n entries pos. pcs s u = DeqTail acc old n entries pos \<Longrightarrow> pos = c_done s"
  proof cases
    case enq
    then have "p_done s < length (accepted s)" using reserved_bounds [OF I(2), of t] by force
    then obtain u b where u: "filling (pcs s u) = Some (p_done s, b)" by (rule reserved_first [OF I(2)])
    then show ?thesis using fills_active(1) [of "pcs s u"] by (intro that [of u]) (auto simp: resting_def)
  next
    case deq
    then have "c_done s < taken s" using reserved_bounds [OF I(3), of t] by force
    then obtain u b where u: "emptying (pcs s u) = Some (c_done s, b)" by (rule reserved_first [OF I(3)])
    then show ?thesis using fills_active(2) [of "pcs s u"] by (intro that [of u]) (auto simp: resting_def)
  qed
  then have "thread_step s (pcs s u) \<noteq> Wait" "thread_step s (pcs s u) \<noteq> Fault"
    using thread_step_ok [OF inv lap u(1)] by (auto simp: progress_ok_def)
  then show ?thesis by (cases "thread_step s (pcs s u)") auto
qed

section \<open>A thread alone runs the sequential functions\<close>

inductive solo :: "'a machine \<Rightarrow> 'a pc \<Rightarrow> 'a machine \<Rightarrow> 'a pc \<Rightarrow> bool" where
  solo_refl: "solo s pc s pc"
| solo_step: "thread_step s pc = Go s1 pc1 \<Longrightarrow> solo s1 pc1 s2 pc2 \<Longrightarrow> solo s pc s2 pc2"

lemma solo_trans: "solo s pc s1 pc1 \<Longrightarrow> solo s1 pc1 s2 pc2 \<Longrightarrow> solo s pc s2 pc2"
  by (induction rule: solo.induct) (auto intro: solo.intros)

lemma wr_snoc: "wr ring p (xs @ [a]) = (wr ring p xs)[(p + length xs) mod length ring := a]"
  by (simp add: wr_append)

lemma solo_store:
  assumes "ring_shape (mring s)" "unat n \<le> unat (ring_capacity (mring s))" "unat n \<le> length objs"
  shows "i \<le> unat n \<Longrightarrow> solo s (EnqCopy objs old n free 0 pos)
    (s\<lparr>mring := (mring s)\<lparr>slots := wr (slots (mring s)) (unat old) (take i objs)\<rparr>\<rparr>) (EnqCopy objs old n free i pos)"
proof (induction i)
  case 0
  have "s\<lparr>mring := (mring s)\<lparr>slots := slots (mring s)\<rparr>\<rparr> = s" by simp
  then show ?case by (simp add: solo_refl)
next
  case (Suc i)
  let ?s = "s\<lparr>mring := (mring s)\<lparr>slots := wr (slots (mring s)) (unat old) (take i objs)\<rparr>\<rparr>"
  have i: "i < unat n" using Suc.prems by simp
  have shape: "ring_shape (mring ?s)" using assms(1) by (simp add: ring_shape_def)
  have idx: "unat (slot_of (mring ?s) old n (of_nat i)) = (unat old + i) mod length (slots (mring s))"
    "(unat old + i) mod length (slots (mring s)) < length (slots (mring s))"
    using slot_of_slot [OF shape _ i, of old 0] assms(2) by (simp_all add: slot_def)
  have "take (Suc i) objs = take i objs @ [objs ! i]" using i assms(3) by (simp add: take_Suc_conv_app_nth)
  then have w: "wr (slots (mring s)) (unat old) (take (Suc i) objs) =
      (wr (slots (mring s)) (unat old) (take i objs))[(unat old + i) mod length (slots (mring s)) := objs ! i]"
    using i assms(3) by (simp add: wr_snoc)
  have "thread_step ?s (EnqCopy objs old n free i pos) =
      Go (s\<lparr>mring := (mring s)\<lparr>slots := wr (slots (mring s)) (unat old) (take (Suc i) objs)\<rparr>\<rparr>) (EnqCopy objs old n free (Suc i) pos)"
    using i idx by (simp add: thread_step_def store_def w)
  from solo_step [OF this solo_refl] show ?case using Suc.IH i by (intro solo_trans [OF Suc.IH]) simp_all
qed

lemma solo_load:
  assumes "ring_shape (mring s)" "unat n \<le> unat (ring_capacity (mring s))"
  shows "i \<le> unat n \<Longrightarrow> solo s (DeqCopy [] old n entries pos) s (DeqCopy (seg (slots (mring s)) (unat old) i) old n entries pos)"
proof (induction i)
  case 0
  then show ?case by (simp add: solo_refl seg_def)
next
  case (Suc i)
  have i: "i < unat n" using Suc.prems by simp
  have idx: "unat (slot_of (mring s) old n (of_nat i)) = (unat old + i) mod length (slots (mring s))"
    "(unat old + i) mod length (slots (mring s)) < length (slots (mring s))"
    using slot_of_slot [OF assms i, of old 0] by (simp_all add: slot_def)
  have "thread_step s (DeqCopy (seg (slots (mring s)) (unat old) i) old n entries pos) =
      Go s (DeqCopy (seg (slots (mring s)) (unat old) (Suc i)) old n entries pos)"
    using i idx by (simp add: thread_step_def load_def seg_Suc)
  from solo_step [OF this solo_refl] show ?case using Suc.IH i by (intro solo_trans [OF Suc.IH]) simp_all
qed

lemma request_fits:
  assumes "free = (of_nat m :: u32)"
  shows "(if m < k then (if b = RTE_RING_QUEUE_FIXED then 0 else free) else of_nat k) = (of_nat (fits b k m) :: u32)"
  using assms by (auto simp: fits_def)

lemma solo_enqueue:
  assumes inv: "ring_inv (mring s)" and len: "length objs < 2 ^ 32"
  shows "\<exists>s' n fs. solo s (EnqHead b objs) s' (EnqDone n fs) \<and>
    rte_ring_do_enqueue (mring s) objs (of_nat (length objs)) b (single (prod (mring s))) = Some (mring s', n, fs)"
proof -
  let ?r = "mring s" and ?old = "head (prod (mring s))"
  have shape: "ring_shape ?r" and ht: "head (prod ?r) = tail (prod ?r)" using inv by (simp_all add: ring_inv_def)
  have ul: "unat (of_nat (length objs) :: u32) = length objs" using len by (intro unat_of_nat_small) simp
  define free where "free = ring_capacity ?r + tail (cons ?r) - ?old"
  have uf: "unat free = ring_free ?r" unfolding free_def using inv by (rule ring_free_word)
  define k where "k = fits b (length objs) (ring_free ?r)"
  have kl: "k \<le> length objs" "k \<le> ring_free ?r" by (simp_all add: k_def)
  have uk: "unat (of_nat k :: u32) = k" using kl(1) len by (intro unat_of_nat_small) simp
  have n: "(if of_nat (length objs) > free then (if b = RTE_RING_QUEUE_FIXED then 0 else free) else of_nat (length objs)) = (of_nat k :: u32)"
  proof -
    have gt: "of_nat (length objs) > free \<longleftrightarrow> ring_free ?r < length objs" by (simp only: word_less_nat_alt uf ul)
    have "free = of_nat (ring_free ?r)" using uf by (rule word_of_unat)
    then show ?thesis unfolding gt k_def by (rule request_fits)
  qed
  have sub: "free - of_nat k = of_nat (ring_free ?r - k)" using uf kl(2) by (metis of_nat_diff unat_eq_nat_uint word_of_unat)
  have run: "rte_ring_do_enqueue ?r objs (of_nat (length objs)) b (single (prod ?r)) =
      Some (?r\<lparr>prod := (prod ?r)\<lparr>head := ?old + of_nat k, tail := tail (prod ?r) + of_nat k\<rparr>,
              slots := wr (slots ?r) (unat (tail (prod ?r))) (take k objs)\<rparr>, of_nat k, free - of_nat k)"
    unfolding sub using do_enqueue_run [OF inv, of "of_nat (length objs)" objs k b "single (prod ?r)"] ul
    by (simp add: k_def del: of_nat_diff)
  have 1: "thread_step s (EnqHead b objs) = Go s (EnqFree b objs ?old (length (accepted s)))" by (simp add: thread_step_def)
  show ?thesis
  proof (cases "k = 0")
    case True
    then have 2: "thread_step s (EnqFree b objs ?old (length (accepted s))) = Go s (EnqDone 0 free)"
      using enq_free_eq [OF free_def n] by (simp add: thread_step_def del: enq_step.simps)
    have "solo s (EnqHead b objs) s (EnqDone 0 free)" by (rule solo_step [OF 1 solo_step [OF 2 solo_refl]])
    moreover have "rte_ring_do_enqueue ?r objs (of_nat (length objs)) b (single (prod ?r)) = Some (?r, 0, free)"
      using run True by simp
    ultimately show ?thesis by blast
  next
    case False
    then have n0: "(of_nat k :: u32) \<noteq> 0" using uk by (metis unat_0)
    let ?s1 = "s\<lparr>mring := ?r\<lparr>prod := (prod ?r)\<lparr>head := ?old + of_nat k\<rparr>\<rparr>, accepted := accepted s @ take k objs\<rparr>"
    let ?s2 = "?s1\<lparr>mring := (mring ?s1)\<lparr>slots := wr (slots ?r) (unat ?old) (take k objs)\<rparr>\<rparr>"
    let ?s3 = "?s2\<lparr>mring := (mring ?s2)\<lparr>prod := (prod (mring ?s2))\<lparr>tail := ?old + of_nat k\<rparr>\<rparr>, p_done := p_done ?s2 + k\<rparr>"
    let ?pos = "length (accepted s)"
    have 2: "thread_step s (EnqFree b objs ?old ?pos) = Go s (EnqMove b objs ?old (of_nat k) free ?pos)"
      using enq_free_eq [OF free_def n] n0 by (simp add: thread_step_def del: enq_step.simps)
    have 3: "thread_step s (EnqMove b objs ?old (of_nat k) free ?pos) = Go ?s1 (EnqCopy objs ?old (of_nat k) free 0 ?pos)"
      using uk by (simp add: thread_step_def Let_def rte_atomic32_cmpset_def)
    have shape1: "ring_shape (mring ?s1)" using shape by (simp add: ring_shape_def)
    have 4: "solo ?s1 (EnqCopy objs ?old (of_nat k) free 0 ?pos) ?s2 (EnqCopy objs ?old (of_nat k) free k ?pos)"
      using solo_store [OF shape1, of "of_nat k" objs k] uk kl inv by (simp add: ring_free_def)
    have 5: "thread_step ?s2 (EnqCopy objs ?old (of_nat k) free k ?pos) = Go ?s2 (EnqTail ?old (of_nat k) free ?pos)"
      using uk by (simp add: thread_step_def)
    have 6: "thread_step ?s2 (EnqTail ?old (of_nat k) free ?pos) = Go ?s3 (EnqDone (of_nat k) (free - of_nat k))"
      using uk ht by (simp add: thread_step_def update_tail_def)
    have "solo s (EnqHead b objs) ?s3 (EnqDone (of_nat k) (free - of_nat k))"
      by (rule solo_step [OF 1], rule solo_step [OF 2], rule solo_step [OF 3], rule solo_trans [OF 4],
          rule solo_step [OF 5], rule solo_step [OF 6], rule solo_refl)
    moreover have "rte_ring_do_enqueue ?r objs (of_nat (length objs)) b (single (prod ?r)) =
        Some (mring ?s3, of_nat k, free - of_nat k)"
      unfolding run using ht by simp
    ultimately show ?thesis by blast
  qed
qed

lemma solo_dequeue:
  assumes inv: "ring_inv (mring s)"
  shows "\<exists>s' xs av. solo s (DeqHead b max_n) s' (DeqDone xs av) \<and>
    rte_ring_do_dequeue (mring s) max_n b (single (cons (mring s))) = Some (mring s', xs, av)"
proof -
  let ?r = "mring s" and ?old = "head (cons (mring s))"
  have shape: "ring_shape ?r" and ht: "head (cons ?r) = tail (cons ?r)" using inv by (simp_all add: ring_inv_def)
  define entries where "entries = tail (prod ?r) - ?old"
  have ue: "unat entries = ring_used ?r" by (simp add: entries_def ring_used_def ht)
  define k where "k = fits b (unat max_n) (ring_used ?r)"
  have kl: "k \<le> unat max_n" "k \<le> ring_used ?r" by (simp_all add: k_def)
  have uk: "unat (of_nat k :: u32) = k" by (simp add: k_def)
  have n: "(if max_n > entries then (if b = RTE_RING_QUEUE_FIXED then 0 else entries) else max_n) = (of_nat k :: u32)"
  proof -
    have gt: "max_n > entries \<longleftrightarrow> ring_used ?r < unat max_n" by (simp only: word_less_nat_alt ue)
    have "entries = of_nat (ring_used ?r)" using ue by (rule word_of_unat)
    from request_fits [OF this, of "unat max_n" b] show ?thesis unfolding gt k_def by (simp only: of_nat_unat ucast_id)
  qed
  have sub: "entries - of_nat k = of_nat (ring_used ?r - k)" using ue kl(2) by (metis of_nat_diff word_of_unat)
  have run: "rte_ring_do_dequeue ?r max_n b (single (cons ?r)) =
      Some (?r\<lparr>cons := (cons ?r)\<lparr>head := ?old + of_nat k, tail := tail (cons ?r) + of_nat k\<rparr>\<rparr>,
            take k (ring_list ?r), entries - of_nat k)"
    unfolding sub by (rule do_dequeue_run [OF inv k_def])
  have 1: "thread_step s (DeqHead b max_n) = Go s (DeqEntries b max_n ?old (taken s))" by (simp add: thread_step_def)
  show ?thesis
  proof (cases "k = 0")
    case True
    then have 2: "thread_step s (DeqEntries b max_n ?old (taken s)) = Go s (DeqDone [] entries)"
      using deq_entries_eq [OF entries_def n] by (simp add: thread_step_def del: deq_step.simps)
    have "solo s (DeqHead b max_n) s (DeqDone [] entries)" by (rule solo_step [OF 1 solo_step [OF 2 solo_refl]])
    moreover have "rte_ring_do_dequeue ?r max_n b (single (cons ?r)) = Some (?r, [], entries)"
      using run True by simp
    ultimately show ?thesis by blast
  next
    case False
    then have n0: "(of_nat k :: u32) \<noteq> 0" using uk by (metis unat_0)
    let ?pos = "taken s" and ?xs = "seg (slots ?r) (unat ?old) k"
    let ?s1 = "s\<lparr>mring := ?r\<lparr>cons := (cons ?r)\<lparr>head := ?old + of_nat k\<rparr>\<rparr>, taken := taken s + k\<rparr>"
    let ?s2 = "?s1\<lparr>mring := (mring ?s1)\<lparr>cons := (cons (mring ?s1))\<lparr>tail := ?old + of_nat k\<rparr>\<rparr>, c_done := c_done ?s1 + k,
      returned := returned ?s1 @ ?xs\<rparr>"
    have 2: "thread_step s (DeqEntries b max_n ?old ?pos) = Go s (DeqMove b max_n ?old (of_nat k) entries ?pos)"
      using deq_entries_eq [OF entries_def n] n0 by (simp add: thread_step_def del: deq_step.simps)
    have 3: "thread_step s (DeqMove b max_n ?old (of_nat k) entries ?pos) = Go ?s1 (DeqCopy [] ?old (of_nat k) entries ?pos)"
      using uk by (simp add: thread_step_def Let_def rte_atomic32_cmpset_def)
    have shape1: "ring_shape (mring ?s1)" using shape by (simp add: ring_shape_def)
    have 4: "solo ?s1 (DeqCopy [] ?old (of_nat k) entries ?pos) ?s1 (DeqCopy ?xs ?old (of_nat k) entries ?pos)"
      using solo_load [OF shape1, of "of_nat k" k ?old] uk kl inv by (simp add: ring_inv_def)
    have 5: "thread_step ?s1 (DeqCopy ?xs ?old (of_nat k) entries ?pos) = Go ?s1 (DeqTail ?xs ?old (of_nat k) entries ?pos)"
      using uk by (simp add: thread_step_def)
    have 6: "thread_step ?s1 (DeqTail ?xs ?old (of_nat k) entries ?pos) = Go ?s2 (DeqDone ?xs (entries - of_nat k))"
      using uk ht by (simp add: thread_step_def update_tail_def)
    have "solo s (DeqHead b max_n) ?s2 (DeqDone ?xs (entries - of_nat k))"
      by (rule solo_step [OF 1], rule solo_step [OF 2], rule solo_step [OF 3], rule solo_trans [OF 4],
          rule solo_step [OF 5], rule solo_step [OF 6], rule solo_refl)
    moreover have "rte_ring_do_dequeue ?r max_n b (single (cons ?r)) = Some (mring ?s2, ?xs, entries - of_nat k)"
      unfolding run using ht kl(2) by (simp add: ring_list_def take_seg)
    ultimately show ?thesis by blast
  qed
qed

section \<open>Properties\<close>

text \<open>
  C4: on a ring that any number of threads use at once, in any interleaving of their accesses, no
  thread ever accesses memory outside of the object table; the objects the finished dequeues returned, in
  the order in which they finished, are the first of the objects the enqueues have accepted; and when no call is
  under way the ring is in order again and holds exactly the rest. So nothing is lost, duplicated or reordered.
\<close>

theorem ring_threads_fifo:
  assumes "ring_inv r" "mt_reach r s"
  shows "(\<forall>t. thread_step s (pcs s t) \<noteq> Fault) \<and> (\<exists>rest. accepted s = returned s @ rest) \<and>
    ((\<forall>t. resting (pcs s t)) \<longrightarrow> ring_inv (mring s) \<and> accepted s = returned s @ ring_list (mring s))"
proof -
  have inv: "mt_inv (tail (cons r)) s" and lap: "not_lapped s" using mt_reach_inv [OF assms(2,1)] by simp_all
  have "thread_step s (pcs s t) \<noteq> Fault" for t
    using thread_step_ok [OF inv lap, of t] rest_wait [of "pcs s t" s] by (cases "resting (pcs s t)") auto
  moreover have "accepted s = returned s @ drop (c_done s) (accepted s)"
    using sharedD(11) [OF mt_invD(1) [OF inv]] by simp
  ultimately show ?thesis using mt_quiet [OF inv] by blast
qed

text \<open>
  Three steps on a ring of four slots: thread 0 calls an enqueue and reads the head, and thread 1 calls a
  dequeue.
\<close>

definition mt_sample :: "nat machine" where
  "mt_sample = (mt_start ring4)\<lparr>pcs := (\<lambda>_. Idle)
     (0 := EnqFree RTE_RING_QUEUE_FIXED [7, 8] 0 0, 1 := DeqHead RTE_RING_QUEUE_VARIABLE 2)\<rparr>"

lemma mt_sample_reach: "mt_reach ring4 mt_sample"
proof -
  let ?s0 = "mt_start ring4"
  let ?s1 = "?s0\<lparr>pcs := (pcs ?s0)(0 := EnqHead RTE_RING_QUEUE_FIXED [7, 8])\<rparr>"
  let ?s2 = "?s1\<lparr>pcs := (pcs ?s1)(0 := EnqFree RTE_RING_QUEUE_FIXED [7, 8] 0 0)\<rparr>"
  let ?s3 = "?s2\<lparr>pcs := (pcs ?s2)(1 := DeqHead RTE_RING_QUEUE_VARIABLE 2)\<rparr>"
  have h: "head (prod ring4) = 0" "\<not> single (prod ring4)" "\<not> single (cons ring4)"
    by (simp_all add: ring4_def ring_init_eval)
  have ls: "not_lapped ?s1" "not_lapped ?s2" "not_lapped ?s3" by (simp_all add: not_lapped_def mt_start_def)
  have "mt_step ?s0 ?s1" by (rule call_enq) (use h in \<open>simp_all add: mt_start_def resting_def\<close>)
  then have r1: "mt_reach ring4 ?s1" using ls(1) by (intro mt_reach.step [OF mt_reach.start])
  have "thread_step ?s1 (pcs ?s1 0) = Go ?s1 (EnqFree RTE_RING_QUEUE_FIXED [7, 8] 0 0)"
    by (simp add: thread_step_def mt_start_def h ring4_inv)
  from mt_step.go [where t = 0, OF this] have r2: "mt_reach ring4 ?s2" using ls(2) by (intro mt_reach.step [OF r1])
  have "mt_step ?s2 ?s3" by (rule call_deq) (use h in \<open>simp_all add: mt_start_def resting_def\<close>)
  then have "mt_reach ring4 ?s3" using ls(3) by (intro mt_reach.step [OF r2])
  then show ?thesis by (simp add: mt_sample_def mt_start_def)
qed

theorem ring_threads_fifo_witness:
  "(\<forall>t. thread_step mt_sample (pcs mt_sample t) \<noteq> Fault) \<and> (\<exists>rest. accepted mt_sample = returned mt_sample @ rest)"
  using ring_threads_fifo [OF ring4_inv(1) mt_sample_reach] by blast

text \<open>
  C18: the threads never block each other for good: as long as a call is under way, some thread can do a
  step. A thread that waits for the tail waits for a thread that reserved its slots earlier.
\<close>

theorem ring_threads_progress:
  assumes "ring_inv r" "mt_reach r s" "\<not> resting (pcs s t)"
  shows "\<exists>u s' pc. thread_step s (pcs s u) = Go s' pc"
proof -
  have "mt_inv (tail (cons r)) s" "not_lapped s" using mt_reach_inv [OF assms(2,1)] by simp_all
  then show ?thesis using assms(3) by (rule mt_progress)
qed

theorem ring_threads_progress_witness: "\<exists>u s' pc. thread_step mt_sample (pcs mt_sample u) = Go s' pc"
  by (rule ring_threads_progress [OF ring4_inv(1) mt_sample_reach, of 0]) (simp add: mt_sample_def resting_def)

text \<open>
  C23: what one call does to the contents of a ring at rest. A thread that runs an enqueue without
  interruption, step by step, returns: it puts all its objects at the end when they fit, else with
  fixed behaviour none and with variable behaviour as many as there is room for, and reports their
  number and the room left. A dequeue run without interruption takes the objects asked for
  from the front in the same way, hands them out in order and reports how many are left. The ring
  is at rest again. The number of objects fits into 32 bits.
\<close>

theorem ring_thread_effect:
  assumes "ring_inv (mring s)" "length objs < 2 ^ 32"
  shows "(let k = fits b (length objs) (ring_free (mring s)) in
      \<exists>s'. solo s (EnqHead b objs) s' (EnqDone (of_nat k) (of_nat (ring_free (mring s) - k))) \<and>
        ring_inv (mring s') \<and> ring_list (mring s') = ring_list (mring s) @ take k objs) \<and>
    (let k = fits b (unat n) (length (ring_list (mring s))) in
      \<exists>s'. solo s (DeqHead b n) s' (DeqDone (take k (ring_list (mring s))) (of_nat (length (ring_list (mring s)) - k))) \<and>
        ring_inv (mring s') \<and> ring_list (mring s') = drop k (ring_list (mring s)))"
proof -
  let ?r = "mring s"
  have ul: "unat (of_nat (length objs) :: u32) = length objs" using assms(2) by (intro unat_of_nat_small) simp
  obtain s1 m fs where e: "solo s (EnqHead b objs) s1 (EnqDone m fs)"
      "rte_ring_do_enqueue ?r objs (of_nat (length objs)) b (single (prod ?r)) = Some (mring s1, m, fs)"
    using solo_enqueue [OF assms] by blast
  obtain s2 xs av where d: "solo s (DeqHead b n) s2 (DeqDone xs av)"
      "rte_ring_do_dequeue ?r n b (single (cons ?r)) = Some (mring s2, xs, av)"
    using solo_dequeue [OF assms(1)] by blast
  show ?thesis
    using e d ring_enqueue_spec [OF assms(1) _ refl, of "of_nat (length objs)" objs b "single (prod ?r)"]
      ring_dequeue_spec [OF assms(1) refl, of n b "single (cons ?r)"]
    by (auto simp: ul Let_def ring_list_length)
qed

theorem ring_thread_effect_witness:
  "\<exists>s' s''. solo (mt_start ring4) (EnqHead RTE_RING_QUEUE_VARIABLE [1, 2, 3, 4, 5]) s' (EnqDone 3 0) \<and>
    ring_list (mring s') = [1, 2, 3] \<and> solo (mt_start ring4) (DeqHead RTE_RING_QUEUE_FIXED 1) s'' (DeqDone [] 0)"
proof -
  have i: "ring_inv (mring (mt_start ring4))" "length [1 :: nat, 2, 3, 4, 5] < 2 ^ 32"
    "ring_list (mring (mt_start ring4)) = []" "ring_free (mring (mt_start ring4)) = 3"
    using ring4_inv by (simp_all add: mt_start_def)
  show ?thesis
    using ring_thread_effect [OF i(1,2), of RTE_RING_QUEUE_VARIABLE 1] ring_thread_effect [OF i(1,2), of RTE_RING_QUEUE_FIXED 1]
    by (auto simp: i fits_def Let_def)
qed

end
