(* ===== verification/Lpm.thy ===== *)
theory Lpm
  imports Prelude "HOL-Library.Monad_Syntax"
begin

text \<open>
  Model of \<^verbatim>\<open>lib/librte_lpm\<close>: longest prefix match on IPv4 addresses, in its current
  version (16.04). A table of 2^24 entries is indexed by the first three bytes of an address; an
  entry is a next hop or the number of a group of 256 entries for the last byte. The rules
  themselves are kept in a second table, ordered by the length of their prefixes, from which a
  deleted rule's entries are restored. \<^term>\<open>None\<close> is an access outside of an array.
  Indices of entries are natural numbers: below 2^30, hence for every group there is memory for, the
  32-bit indices of the code have the same values.
\<close>

unbundle bit_operations_syntax

section \<open>Data\<close>

definition RTE_LPM_NAMESIZE :: nat where
  "RTE_LPM_NAMESIZE = 32"

definition RTE_LPM_MAX_DEPTH :: nat where
  "RTE_LPM_MAX_DEPTH = 32"

definition RTE_LPM_TBL24_NUM_ENTRIES :: nat where
  "RTE_LPM_TBL24_NUM_ENTRIES = 2 ^ 24"

definition RTE_LPM_TBL8_GROUP_NUM_ENTRIES :: nat where
  "RTE_LPM_TBL8_GROUP_NUM_ENTRIES = 256"

definition RTE_LPM_MAX_TBL8_NUM_GROUPS :: u32 where
  "RTE_LPM_MAX_TBL8_NUM_GROUPS = push_bit 24 1"

definition RTE_LPM_VALID_EXT_ENTRY_BITMASK :: u32 where
  "RTE_LPM_VALID_EXT_ENTRY_BITMASK = 0x03000000"

definition RTE_LPM_LOOKUP_SUCCESS :: u32 where
  "RTE_LPM_LOOKUP_SUCCESS = 0x01000000"

definition MAX_DEPTH_TBL24 :: u8 where
  "MAX_DEPTH_TBL24 = 24"

text \<open>The bit fields of an entry; \<^verbatim>\<open>group_idx\<close> is another name of the next hop.\<close>

record rte_lpm_tbl_entry =
  te_next_hop :: "24 word"
  te_valid :: bool
  te_valid_group :: bool
  te_depth :: "6 word"

definition zero_entry :: rte_lpm_tbl_entry where
  "zero_entry = \<lparr>te_next_hop = 0, te_valid = False, te_valid_group = False, te_depth = 0\<rparr>"

abbreviation group_idx :: "rte_lpm_tbl_entry \<Rightarrow> nat" where
  "group_idx e \<equiv> unat (te_next_hop e)"

text \<open>The entry as the 32-bit word the lookup reads, on a little-endian processor.\<close>

definition entry_word :: "rte_lpm_tbl_entry \<Rightarrow> u32" where
  "entry_word e = ucast (te_next_hop e) OR push_bit 24 (of_bool (te_valid e)) OR
     push_bit 25 (of_bool (te_valid_group e)) OR push_bit 26 (ucast (te_depth e))"

record rte_lpm_config =
  cfg_max_rules :: u32
  cfg_number_tbl8s :: u32
  cfg_flags :: "32 word"

record rte_lpm_rule =
  rule_ip :: u32
  rule_next_hop :: u32

record rte_lpm_rule_info =
  used_rules :: u32
  first_rule :: u32

text \<open>
  The structure. An array is the function from its indices and, where it is allocated separately,
  the number of elements there is memory for. \<open>rule_info\<close> has 32 elements, \<open>tbl24\<close> has 2^24.
\<close>

record rte_lpm =
  lpm_name :: string
  max_rules :: u32
  number_tbl8s :: u32
  rule_info :: "nat \<Rightarrow> rte_lpm_rule_info"
  tbl24 :: "nat \<Rightarrow> rte_lpm_tbl_entry"
  tbl8 :: "nat \<Rightarrow> rte_lpm_tbl_entry"
  tbl8_len :: nat
  rules_tbl :: "nat \<Rightarrow> rte_lpm_rule"
  rules_len :: nat

definition rd_info :: "rte_lpm \<Rightarrow> nat \<Rightarrow> rte_lpm_rule_info option" where
  "rd_info lpm i = (if i < RTE_LPM_MAX_DEPTH then Some (rule_info lpm i) else None)"

definition rd24 :: "rte_lpm \<Rightarrow> nat \<Rightarrow> rte_lpm_tbl_entry option" where
  "rd24 lpm i = (if i < RTE_LPM_TBL24_NUM_ENTRIES then Some (tbl24 lpm i) else None)"

definition wr24 :: "nat \<Rightarrow> rte_lpm_tbl_entry \<Rightarrow> rte_lpm \<Rightarrow> rte_lpm option" where
  "wr24 i e lpm = (if i < RTE_LPM_TBL24_NUM_ENTRIES then Some (lpm\<lparr>tbl24 := (tbl24 lpm)(i := e)\<rparr>) else None)"

definition rd8 :: "rte_lpm \<Rightarrow> nat \<Rightarrow> rte_lpm_tbl_entry option" where
  "rd8 lpm i = (if i < tbl8_len lpm then Some (tbl8 lpm i) else None)"

definition wr8 :: "nat \<Rightarrow> rte_lpm_tbl_entry \<Rightarrow> rte_lpm \<Rightarrow> rte_lpm option" where
  "wr8 i e lpm = (if i < tbl8_len lpm then Some (lpm\<lparr>tbl8 := (tbl8 lpm)(i := e)\<rparr>) else None)"

definition rd_rule :: "rte_lpm \<Rightarrow> nat \<Rightarrow> rte_lpm_rule option" where
  "rd_rule lpm i = (if i < rules_len lpm then Some (rules_tbl lpm i) else None)"

definition wr_rule :: "nat \<Rightarrow> rte_lpm_rule \<Rightarrow> rte_lpm \<Rightarrow> rte_lpm option" where
  "wr_rule i r lpm = (if i < rules_len lpm then Some (lpm\<lparr>rules_tbl := (rules_tbl lpm)(i := r)\<rparr>) else None)"

text \<open>The loop \<^verbatim>\<open>for (i = a; i < b; i++)\<close> over a state.\<close>

function for_range :: "nat \<Rightarrow> nat \<Rightarrow> (nat \<Rightarrow> 's \<Rightarrow> 's option) \<Rightarrow> 's \<Rightarrow> 's option" where
  "for_range a b f s = (if a < b then f a s \<bind> for_range (a + 1) b f else Some s)"
  by auto
termination by (relation "measure (\<lambda>(a, b, _). b - a)") auto

declare for_range.simps [simp del]

lemma for_range_done: "b \<le> a \<Longrightarrow> for_range a b f s = Some s"
  by (subst for_range.simps) simp

text \<open>A loop whose steps succeed and carry an invariant on.\<close>

lemma for_range_inv:
  assumes "I a s" "a \<le> b" "\<And>i s. a \<le> i \<Longrightarrow> i < b \<Longrightarrow> I i s \<Longrightarrow> \<exists>s'. f i s = Some s' \<and> I (Suc i) s'"
  shows "\<exists>s'. for_range a b f s = Some s' \<and> I b s'"
  using assms
proof (induction a b f s rule: for_range.induct)
  case (1 a b f s)
  show ?case
  proof (cases "a < b")
    case True
    then obtain s' where s: "f a s = Some s'" "I (a + 1) s'" using "1.prems"(1,3) by auto
    have "\<exists>s''. for_range (a + 1) b f s' = Some s'' \<and> I b s''"
      by (rule "1.IH" [OF True s]) (use True "1.prems"(3) in auto)
    then show ?thesis using True s(1) by (subst for_range.simps) simp
  next
    case False
    then show ?thesis using "1.prems"(1,2) by (simp add: for_range_done)
  qed
qed

section \<open>Prefixes\<close>

definition depth_to_mask :: "u8 \<Rightarrow> u32" where
  "depth_to_mask depth = signed_drop_bit (unat (depth - 1)) 0x80000000"

definition depth_to_range :: "u8 \<Rightarrow> nat" where
  "depth_to_range depth = (if depth \<le> MAX_DEPTH_TBL24 then 2 ^ unat (MAX_DEPTH_TBL24 - depth)
     else 2 ^ unat (of_nat RTE_LPM_MAX_DEPTH - depth))"

section \<open>The rule table\<close>

text \<open>The scan of the rules of one length, in \<^verbatim>\<open>rule_add\<close> and \<^verbatim>\<open>rule_find\<close>.\<close>

function scan_rules :: "rte_lpm \<Rightarrow> u32 \<Rightarrow> nat \<Rightarrow> nat \<Rightarrow> nat option option" where
  "scan_rules lpm ip_masked rule_index last_rule =
     (if rule_index < last_rule then do {
        r \<leftarrow> rd_rule lpm rule_index;
        if rule_ip r = ip_masked then Some (Some rule_index) else scan_rules lpm ip_masked (rule_index + 1) last_rule }
      else Some None)"
  by auto
termination by (relation "measure (\<lambda>(_, _, i, l). l - i)") auto

declare scan_rules.simps [simp del]

text \<open>The position behind the rules of the next shorter length that has any.\<close>

fun insert_pos :: "rte_lpm \<Rightarrow> nat \<Rightarrow> u32" where
  "insert_pos lpm 0 = 0"
| "insert_pos lpm (Suc i) = (if used_rules (rule_info lpm i) > 0
     then first_rule (rule_info lpm i) + used_rules (rule_info lpm i) else insert_pos lpm i)"

text \<open>Making room: the groups of longer prefixes move up by one rule, from the last down to \<open>depth\<close>.\<close>

function make_room :: "nat \<Rightarrow> nat \<Rightarrow> rte_lpm \<Rightarrow> (rte_lpm \<times> errno option) option" where
  "make_room i depth lpm =
     (if i > depth then do {
        g \<leftarrow> rd_info lpm (i - 1);
        if first_rule g + used_rules g = max_rules lpm then Some (lpm, Some ENOSPC)
        else if used_rules g > 0 then do {
          r \<leftarrow> rd_rule lpm (unat (first_rule g));
          lpm \<leftarrow> wr_rule (unat (first_rule g + used_rules g)) r lpm;
          make_room (i - 1) depth (lpm\<lparr>rule_info := (rule_info lpm)(i - 1 := g\<lparr>first_rule := first_rule g + 1\<rparr>)\<rparr>) }
        else make_room (i - 1) depth lpm }
      else Some (lpm, None))"
  by auto
termination by (relation "measure (\<lambda>(i, _). i)") auto

declare make_room.simps [simp del]

text \<open>
  \<^verbatim>\<open>rule_add\<close> with its index or its error: a rule of the same length and prefix gets the new next
  hop, otherwise the rule is put behind the rules of its length.
\<close>

definition insert_index :: "rte_lpm \<Rightarrow> nat \<Rightarrow> u32" where
  "insert_index lpm k = (if used_rules (rule_info lpm k) > 0 then first_rule (rule_info lpm k) + used_rules (rule_info lpm k)
     else insert_pos lpm k)"

definition insert_rule :: "rte_lpm \<Rightarrow> u32 \<Rightarrow> nat \<Rightarrow> u32 \<Rightarrow> (rte_lpm \<times> (errno + nat)) option" where
  "insert_rule lpm ip_masked d next_hop = do {
     let idx = insert_index lpm (d - 1);
     let g = rule_info lpm (d - 1);
     if idx = max_rules lpm then Some (lpm, Inl ENOSPC)
     else do {
       let lpm = (if used_rules g > 0 then lpm
                  else lpm\<lparr>rule_info := (rule_info lpm)(d - 1 := g\<lparr>first_rule := idx\<rparr>)\<rparr>);
       (lpm, e) \<leftarrow> make_room RTE_LPM_MAX_DEPTH d lpm;
       case e of
         Some e \<Rightarrow> Some (lpm, Inl e)
       | None \<Rightarrow> do {
           lpm \<leftarrow> wr_rule (unat idx) \<lparr>rule_ip = ip_masked, rule_next_hop = next_hop\<rparr> lpm;
           Some (lpm\<lparr>rule_info := (rule_info lpm)(d - 1 := (rule_info lpm (d - 1))
                     \<lparr>used_rules := used_rules (rule_info lpm (d - 1)) + 1\<rparr>)\<rparr>, Inr (unat idx)) } } }"

definition rule_add :: "rte_lpm \<Rightarrow> u32 \<Rightarrow> u8 \<Rightarrow> u32 \<Rightarrow> (rte_lpm \<times> (errno + nat)) option" where
  "rule_add lpm ip_masked depth next_hop = do {
     g \<leftarrow> rd_info lpm (unat depth - 1);
     found \<leftarrow> (if used_rules g > 0 then scan_rules lpm ip_masked (unat (first_rule g)) (unat (first_rule g + used_rules g))
               else Some None);
     case found of
       Some k \<Rightarrow> do {
         r \<leftarrow> rd_rule lpm k;
         lpm \<leftarrow> wr_rule k (r\<lparr>rule_next_hop := next_hop\<rparr>) lpm;
         Some (lpm, Inr k) }
     | None \<Rightarrow> insert_rule lpm ip_masked (unat depth) next_hop }"

text \<open>Closing the gap: the groups of longer prefixes move down by one rule.\<close>

definition move_down :: "nat \<Rightarrow> rte_lpm \<Rightarrow> rte_lpm option" where
  "move_down i lpm = do {
     g \<leftarrow> rd_info lpm i;
     if used_rules g > 0 then do {
       r \<leftarrow> rd_rule lpm (unat (first_rule g + used_rules g - 1));
       lpm \<leftarrow> wr_rule (unat (first_rule g - 1)) r lpm;
       Some (lpm\<lparr>rule_info := (rule_info lpm)(i := g\<lparr>first_rule := first_rule g - 1\<rparr>)\<rparr>) }
     else Some lpm }"

definition rule_delete :: "nat \<Rightarrow> u8 \<Rightarrow> rte_lpm \<Rightarrow> rte_lpm option" where
  "rule_delete rule_index depth lpm = do {
     let d = unat depth;
     g \<leftarrow> rd_info lpm (d - 1);
     r \<leftarrow> rd_rule lpm (unat (first_rule g + used_rules g - 1));
     lpm \<leftarrow> wr_rule rule_index r lpm;
     lpm \<leftarrow> for_range d RTE_LPM_MAX_DEPTH move_down lpm;
     let g = rule_info lpm (d - 1);
     Some (lpm\<lparr>rule_info := (rule_info lpm)(d - 1 := g\<lparr>used_rules := used_rules g - 1\<rparr>)\<rparr>) }"

text \<open>\<^verbatim>\<open>rule_find\<close> with the index of the rule, or \<^term>\<open>None\<close> for \<^verbatim>\<open>-EINVAL\<close>.\<close>

definition rule_find :: "rte_lpm \<Rightarrow> u32 \<Rightarrow> u8 \<Rightarrow> nat option option" where
  "rule_find lpm ip_masked depth = do {
     g \<leftarrow> rd_info lpm (unat depth - 1);
     scan_rules lpm ip_masked (unat (first_rule g)) (unat (first_rule g + used_rules g)) }"

text \<open>\<^verbatim>\<open>find_previous_rule\<close>: the longest shorter prefix of the address that has a rule, with its length.\<close>

fun find_previous :: "rte_lpm \<Rightarrow> u32 \<Rightarrow> nat \<Rightarrow> (nat \<times> u8) option option" where
  "find_previous lpm ip 0 = Some None"
| "find_previous lpm ip (Suc d) = do {
     k \<leftarrow> rule_find lpm (ip AND depth_to_mask (of_nat (Suc d))) (of_nat (Suc d));
     case k of Some k \<Rightarrow> Some (Some (k, of_nat (Suc d))) | None \<Rightarrow> find_previous lpm ip d }"

definition find_previous_rule :: "rte_lpm \<Rightarrow> u32 \<Rightarrow> u8 \<Rightarrow> (nat \<times> u8) option option" where
  "find_previous_rule lpm ip depth = find_previous lpm ip (unat (depth - 1))"

section \<open>The groups of entries\<close>

text \<open>
  \<^verbatim>\<open>tbl8_alloc\<close>: the first free group, cleaned and marked as used. The mark of a group is in its
  first entry.
\<close>

definition clean_group :: "nat \<Rightarrow> (nat \<Rightarrow> rte_lpm_tbl_entry) \<Rightarrow> nat \<Rightarrow> rte_lpm_tbl_entry" where
  "clean_group start t = (\<lambda>i. if start \<le> i \<and> i < start + RTE_LPM_TBL8_GROUP_NUM_ENTRIES then zero_entry else t i)"

function tbl8_alloc_from :: "nat \<Rightarrow> rte_lpm \<Rightarrow> (rte_lpm \<times> (errno + nat)) option" where
  "tbl8_alloc_from g lpm =
     (if g < unat (number_tbl8s lpm) then do {
        e \<leftarrow> rd8 lpm (g * RTE_LPM_TBL8_GROUP_NUM_ENTRIES);
        if \<not> te_valid_group e then
          if (g + 1) * RTE_LPM_TBL8_GROUP_NUM_ENTRIES \<le> tbl8_len lpm then do {
            let start = g * RTE_LPM_TBL8_GROUP_NUM_ENTRIES;
            lpm \<leftarrow> Some (lpm\<lparr>tbl8 := clean_group start (tbl8 lpm)\<rparr>);
            lpm \<leftarrow> wr8 start (zero_entry\<lparr>te_valid_group := True\<rparr>) lpm;
            Some (lpm, Inr g) }
          else None
        else tbl8_alloc_from (g + 1) lpm }
      else Some (lpm, Inl ENOSPC))"
  by auto
termination by (relation "measure (\<lambda>(g, lpm). unat (number_tbl8s lpm) - g)") auto

declare tbl8_alloc_from.simps [simp del]

definition tbl8_alloc :: "rte_lpm \<Rightarrow> (rte_lpm \<times> (errno + nat)) option" where
  "tbl8_alloc = tbl8_alloc_from 0"

definition tbl8_free :: "nat \<Rightarrow> rte_lpm \<Rightarrow> rte_lpm option" where
  "tbl8_free start lpm = do { e \<leftarrow> rd8 lpm start; wr8 start (e\<lparr>te_valid_group := False\<rparr>) lpm }"

section \<open>Adding a rule\<close>

definition tbl24_index :: "u32 \<Rightarrow> nat" where
  "tbl24_index ip = unat (drop_bit 8 ip)"

text \<open>What the loops of the additions do with one entry.\<close>

definition add_entry8 :: "u8 \<Rightarrow> u32 \<Rightarrow> nat \<Rightarrow> rte_lpm \<Rightarrow> rte_lpm option" where
  "add_entry8 depth next_hop j lpm = do {
     e \<leftarrow> rd8 lpm j;
     if \<not> te_valid e \<or> te_depth e \<le> ucast depth
     then wr8 j \<lparr>te_next_hop = ucast next_hop, te_valid = True, te_valid_group = True, te_depth = ucast depth\<rparr> lpm
     else Some lpm }"

definition add_entry24 :: "u8 \<Rightarrow> u32 \<Rightarrow> nat \<Rightarrow> rte_lpm \<Rightarrow> rte_lpm option" where
  "add_entry24 depth next_hop i lpm = do {
     e \<leftarrow> rd24 lpm i;
     if \<not> te_valid e \<or> (\<not> te_valid_group e \<and> te_depth e \<le> ucast depth)
     then wr24 i \<lparr>te_next_hop = ucast next_hop, te_valid = True, te_valid_group = False, te_depth = ucast depth\<rparr> lpm
     else if te_valid_group e then do {
       let tbl8_index = group_idx e * RTE_LPM_TBL8_GROUP_NUM_ENTRIES;
       for_range tbl8_index (tbl8_index + RTE_LPM_TBL8_GROUP_NUM_ENTRIES) (add_entry8 depth next_hop) lpm }
     else Some lpm }"

definition add_depth_small :: "rte_lpm \<Rightarrow> u32 \<Rightarrow> u8 \<Rightarrow> u32 \<Rightarrow> rte_lpm option" where
  "add_depth_small lpm ip depth next_hop =
     for_range (tbl24_index ip) (tbl24_index ip + depth_to_range depth) (add_entry24 depth next_hop) lpm"

text \<open>The fields of an entry of a new group are set one by one; its mark stays.\<close>

definition set_entry8 :: "6 word \<Rightarrow> 24 word \<Rightarrow> nat \<Rightarrow> rte_lpm \<Rightarrow> rte_lpm option" where
  "set_entry8 d h i lpm = do { e \<leftarrow> rd8 lpm i; wr8 i (e\<lparr>te_valid := True, te_depth := d, te_next_hop := h\<rparr>) lpm }"

definition add_ext8 :: "u8 \<Rightarrow> u32 \<Rightarrow> nat \<Rightarrow> rte_lpm \<Rightarrow> rte_lpm option" where
  "add_ext8 depth next_hop i lpm = do {
     e \<leftarrow> rd8 lpm i;
     if \<not> te_valid e \<or> te_depth e \<le> ucast depth
     then wr8 i \<lparr>te_next_hop = ucast next_hop, te_valid = True, te_valid_group = te_valid_group e, te_depth = ucast depth\<rparr> lpm
     else Some lpm }"

definition ext_entry :: "nat \<Rightarrow> rte_lpm_tbl_entry" where
  "ext_entry g = \<lparr>te_next_hop = of_nat g, te_valid = True, te_valid_group = True, te_depth = 0\<rparr>"

definition add_depth_big :: "rte_lpm \<Rightarrow> u32 \<Rightarrow> u8 \<Rightarrow> u32 \<Rightarrow> (rte_lpm \<times> errno option) option" where
  "add_depth_big lpm ip_masked depth next_hop = do {
     let i = tbl24_index ip_masked;
     let low = unat (ip_masked AND 0xFF);
     e \<leftarrow> rd24 lpm i;
     if \<not> te_valid e then do {
       (lpm, r) \<leftarrow> tbl8_alloc lpm;
       case r of
         Inl err \<Rightarrow> Some (lpm, Some err)
       | Inr g \<Rightarrow> do {
           let tbl8_index = g * RTE_LPM_TBL8_GROUP_NUM_ENTRIES + low;
           lpm \<leftarrow> for_range tbl8_index (tbl8_index + depth_to_range depth) (set_entry8 (ucast depth) (ucast next_hop)) lpm;
           lpm \<leftarrow> wr24 i (ext_entry g) lpm;
           Some (lpm, None) } }
     else if \<not> te_valid_group e then do {
       (lpm, r) \<leftarrow> tbl8_alloc lpm;
       case r of
         Inl err \<Rightarrow> Some (lpm, Some err)
       | Inr g \<Rightarrow> do {
           let start = g * RTE_LPM_TBL8_GROUP_NUM_ENTRIES;
           lpm \<leftarrow> for_range start (start + RTE_LPM_TBL8_GROUP_NUM_ENTRIES) (set_entry8 (te_depth e) (te_next_hop e)) lpm;
           lpm \<leftarrow> for_range (start + low) (start + low + depth_to_range depth) (set_entry8 (ucast depth) (ucast next_hop)) lpm;
           lpm \<leftarrow> wr24 i (ext_entry g) lpm;
           Some (lpm, None) } }
     else do {
       let tbl8_index = group_idx e * RTE_LPM_TBL8_GROUP_NUM_ENTRIES + low;
       lpm \<leftarrow> for_range tbl8_index (tbl8_index + depth_to_range depth) (add_ext8 depth next_hop) lpm;
       Some (lpm, None) } }"

definition rte_lpm_add :: "rte_lpm \<Rightarrow> u32 \<Rightarrow> u8 \<Rightarrow> u32 \<Rightarrow> (rte_lpm \<times> errno option) option" where
  "rte_lpm_add lpm ip depth next_hop =
     (if depth < 1 \<or> depth > of_nat RTE_LPM_MAX_DEPTH then Some (lpm, Some EINVAL)
      else do {
        let ip_masked = ip AND depth_to_mask depth;
        (lpm, r) \<leftarrow> rule_add lpm ip_masked depth next_hop;
        case r of
          Inl e \<Rightarrow> Some (lpm, Some e)
        | Inr rule_index \<Rightarrow>
            if depth \<le> MAX_DEPTH_TBL24 then do {
              lpm \<leftarrow> add_depth_small lpm ip_masked depth next_hop;
              Some (lpm, None) }
            else do {
              (lpm, status) \<leftarrow> add_depth_big lpm ip_masked depth next_hop;
              case status of
                Some e \<Rightarrow> do { lpm \<leftarrow> rule_delete rule_index depth lpm; Some (lpm, Some e) }
              | None \<Rightarrow> Some (lpm, None) } })"

text \<open>The next hop of a rule, \<^term>\<open>Inr None\<close> when there is no such rule.\<close>

definition rte_lpm_is_rule_present :: "rte_lpm \<Rightarrow> u32 \<Rightarrow> u8 \<Rightarrow> (errno + u32 option) option" where
  "rte_lpm_is_rule_present lpm ip depth =
     (if depth < 1 \<or> depth > of_nat RTE_LPM_MAX_DEPTH then Some (Inl EINVAL)
      else do {
        k \<leftarrow> rule_find lpm (ip AND depth_to_mask depth) depth;
        case k of
          Some k \<Rightarrow> do { r \<leftarrow> rd_rule lpm k; Some (Inr (Some (rule_next_hop r))) }
        | None \<Rightarrow> Some (Inr None) })"

section \<open>Deleting a rule\<close>

text \<open>
  What replaces the entries of the deleted rule: nothing, or the next hop and length of the rule
  found by \<^verbatim>\<open>find_previous_rule\<close>.
\<close>

definition sub_entry :: "rte_lpm \<Rightarrow> (nat \<times> u8) option \<Rightarrow> (24 word \<times> 6 word) option option" where
  "sub_entry lpm sub = (case sub of
     None \<Rightarrow> Some None
   | Some (k, d) \<Rightarrow> do { r \<leftarrow> rd_rule lpm k; Some (Some (ucast (rule_next_hop r), ucast d)) })"

definition del_entry8 :: "u8 \<Rightarrow> (24 word \<times> 6 word) option \<Rightarrow> bool \<Rightarrow> nat \<Rightarrow> rte_lpm \<Rightarrow> rte_lpm option" where
  "del_entry8 depth sub grp j lpm = do {
     e \<leftarrow> rd8 lpm j;
     if te_depth e \<le> ucast depth
     then case sub of
         None \<Rightarrow> wr8 j (e\<lparr>te_valid := False\<rparr>) lpm
       | Some (h, d) \<Rightarrow> wr8 j \<lparr>te_next_hop = h, te_valid = True, te_valid_group = grp, te_depth = d\<rparr> lpm
     else Some lpm }"

definition del_entry24 :: "u8 \<Rightarrow> (24 word \<times> 6 word) option \<Rightarrow> nat \<Rightarrow> rte_lpm \<Rightarrow> rte_lpm option" where
  "del_entry24 depth sub i lpm = do {
     e \<leftarrow> rd24 lpm i;
     if \<not> te_valid_group e \<and> te_depth e \<le> ucast depth
     then case sub of
         None \<Rightarrow> wr24 i (e\<lparr>te_valid := False\<rparr>) lpm
       | Some (h, d) \<Rightarrow> wr24 i \<lparr>te_next_hop = h, te_valid = True, te_valid_group = False, te_depth = d\<rparr> lpm
     else if te_valid_group e then do {
       let tbl8_index = group_idx e * RTE_LPM_TBL8_GROUP_NUM_ENTRIES;
       for_range tbl8_index (tbl8_index + RTE_LPM_TBL8_GROUP_NUM_ENTRIES) (del_entry8 depth sub True) lpm }
     else Some lpm }"

definition delete_depth_small :: "rte_lpm \<Rightarrow> u32 \<Rightarrow> u8 \<Rightarrow> (nat \<times> u8) option \<Rightarrow> rte_lpm option" where
  "delete_depth_small lpm ip_masked depth sub = do {
     s \<leftarrow> sub_entry lpm sub;
     for_range (tbl24_index ip_masked) (tbl24_index ip_masked + depth_to_range depth) (del_entry24 depth s) lpm }"

text \<open>
  \<^verbatim>\<open>tbl8_recycle_check\<close>: the group is in use (\<^verbatim>\<open>-EEXIST\<close>), it has no valid entry
  (\<^verbatim>\<open>-EINVAL\<close>), or all of its entries come from one rule of at most 24 bits.
\<close>

datatype recycle = RecycleKeep | RecycleFree | RecycleMerge

function all_from :: "(rte_lpm_tbl_entry \<Rightarrow> bool) \<Rightarrow> nat \<Rightarrow> nat \<Rightarrow> rte_lpm \<Rightarrow> bool option" where
  "all_from P i n lpm = (if i < n then do { e \<leftarrow> rd8 lpm i; if P e then all_from P (i + 1) n lpm else Some False } else Some True)"
  by auto
termination by (relation "measure (\<lambda>(_, i, n, _). n - i)") auto

declare all_from.simps [simp del]

definition tbl8_recycle_check :: "nat \<Rightarrow> rte_lpm \<Rightarrow> recycle option" where
  "tbl8_recycle_check start lpm = do {
     e \<leftarrow> rd8 lpm start;
     if te_valid e then
       if te_depth e \<le> ucast MAX_DEPTH_TBL24 then do {
         same \<leftarrow> all_from (\<lambda>x. te_depth x = te_depth e) (start + 1) (start + RTE_LPM_TBL8_GROUP_NUM_ENTRIES) lpm;
         Some (if same then RecycleMerge else RecycleKeep) }
       else Some RecycleKeep
     else do {
       none \<leftarrow> all_from (\<lambda>x. \<not> te_valid x) (start + 1) (start + RTE_LPM_TBL8_GROUP_NUM_ENTRIES) lpm;
       Some (if none then RecycleFree else RecycleKeep) } }"

definition delete_depth_big :: "rte_lpm \<Rightarrow> u32 \<Rightarrow> u8 \<Rightarrow> (nat \<times> u8) option \<Rightarrow> rte_lpm option" where
  "delete_depth_big lpm ip_masked depth sub = do {
     let i = tbl24_index ip_masked;
     e \<leftarrow> rd24 lpm i;
     let start = group_idx e * RTE_LPM_TBL8_GROUP_NUM_ENTRIES;
     let tbl8_index = start + unat (ip_masked AND 0xFF);
     s \<leftarrow> sub_entry lpm sub;
     m \<leftarrow> rd8 lpm start;
     lpm \<leftarrow> for_range tbl8_index (tbl8_index + depth_to_range depth) (del_entry8 depth s (te_valid_group m)) lpm;
     r \<leftarrow> tbl8_recycle_check start lpm;
     case r of
       RecycleKeep \<Rightarrow> Some lpm
     | RecycleFree \<Rightarrow> do {
         e \<leftarrow> rd24 lpm i;
         lpm \<leftarrow> wr24 i (e\<lparr>te_valid := False\<rparr>) lpm;
         tbl8_free start lpm }
     | RecycleMerge \<Rightarrow> do {
         x \<leftarrow> rd8 lpm start;
         lpm \<leftarrow> wr24 i \<lparr>te_next_hop = te_next_hop x, te_valid = True, te_valid_group = False, te_depth = te_depth x\<rparr> lpm;
         tbl8_free start lpm } }"

definition rte_lpm_delete :: "rte_lpm \<Rightarrow> u32 \<Rightarrow> u8 \<Rightarrow> (rte_lpm \<times> errno option) option" where
  "rte_lpm_delete lpm ip depth =
     (if depth < 1 \<or> depth > of_nat RTE_LPM_MAX_DEPTH then Some (lpm, Some EINVAL)
      else do {
        let ip_masked = ip AND depth_to_mask depth;
        k \<leftarrow> rule_find lpm ip_masked depth;
        case k of
          None \<Rightarrow> Some (lpm, Some EINVAL)
        | Some k \<Rightarrow> do {
            lpm \<leftarrow> rule_delete k depth lpm;
            sub \<leftarrow> find_previous_rule lpm ip depth;
            lpm \<leftarrow> (if depth \<le> MAX_DEPTH_TBL24 then delete_depth_small lpm ip_masked depth sub
                    else delete_depth_big lpm ip_masked depth sub);
            Some (lpm, None) } })"

definition rte_lpm_delete_all :: "rte_lpm \<Rightarrow> rte_lpm option" where
  "rte_lpm_delete_all lpm =
     (if RTE_LPM_TBL8_GROUP_NUM_ENTRIES * unat (number_tbl8s lpm) \<le> tbl8_len lpm \<and> unat (max_rules lpm) \<le> rules_len lpm
      then Some (lpm\<lparr>rule_info := \<lambda>_. \<lparr>used_rules = 0, first_rule = 0\<rparr>, tbl24 := \<lambda>_. zero_entry,
        tbl8 := \<lambda>i. if i < RTE_LPM_TBL8_GROUP_NUM_ENTRIES * unat (number_tbl8s lpm) then zero_entry else tbl8 lpm i,
        rules_tbl := \<lambda>i. if i < unat (max_rules lpm) then \<lparr>rule_ip = 0, rule_next_hop = 0\<rparr> else rules_tbl lpm i\<rparr>)
      else None)"

section \<open>Looking up an address\<close>

text \<open>The word that is found: the entry of the first table, or the entry of the group it names.\<close>

definition lookup_word :: "rte_lpm \<Rightarrow> u32 \<Rightarrow> u32 option" where
  "lookup_word lpm ip = do {
     e \<leftarrow> rd24 lpm (tbl24_index ip);
     let tbl_entry = entry_word e;
     if tbl_entry AND RTE_LPM_VALID_EXT_ENTRY_BITMASK = RTE_LPM_VALID_EXT_ENTRY_BITMASK then do {
       let tbl8_index = unat (ucast (ucast ip :: u8) + (tbl_entry AND 0x00FFFFFF) * of_nat RTE_LPM_TBL8_GROUP_NUM_ENTRIES :: u32);
       e \<leftarrow> rd8 lpm tbl8_index;
       Some (entry_word e) }
     else Some tbl_entry }"

definition rte_lpm_lookup :: "rte_lpm \<Rightarrow> u32 \<Rightarrow> (u32 \<times> errno option) option" where
  "rte_lpm_lookup lpm ip = do {
     tbl_entry \<leftarrow> lookup_word lpm ip;
     Some (tbl_entry AND 0x00FFFFFF, if tbl_entry AND RTE_LPM_LOOKUP_SUCCESS \<noteq> 0 then None else Some ENOENT) }"

text \<open>\<^verbatim>\<open>rte_lpm_lookup_bulk_func\<close>: the words for an array of addresses.\<close>

fun rte_lpm_lookup_bulk_func :: "rte_lpm \<Rightarrow> u32 list \<Rightarrow> u32 list option" where
  "rte_lpm_lookup_bulk_func lpm [] = Some []"
| "rte_lpm_lookup_bulk_func lpm (ip # ips) = do {
     w \<leftarrow> lookup_word lpm ip;
     ws \<leftarrow> rte_lpm_lookup_bulk_func lpm ips;
     Some (w # ws) }"

text \<open>
  \<^verbatim>\<open>rte_lpm_lookupx4\<close> of \<^verbatim>\<open>rte_lpm_sse.h\<close>: four addresses in the lanes of a vector register. The entries of two
  addresses are tested together, as one 64-bit value.
\<close>

type_synonym x4 = "u32 \<times> u32 \<times> u32 \<times> u32"

definition RTE_LPM_MASKX4_RES :: u64 where
  "RTE_LPM_MASKX4_RES = 0x00ffffff00ffffff"

definition pair64 :: "u32 \<Rightarrow> u32 \<Rightarrow> u64" where
  "pair64 a b = ucast a OR push_bit 32 (ucast b)"

text \<open>The entry of a lane, replaced by that of its group where it names one. The number of the group is cut to 8 bits.\<close>

definition x4_group :: "rte_lpm \<Rightarrow> u64 \<Rightarrow> u32 \<Rightarrow> u32 \<Rightarrow> u32 option" where
  "x4_group lpm pt tbl ip =
     (if pt AND ucast RTE_LPM_VALID_EXT_ENTRY_BITMASK = ucast RTE_LPM_VALID_EXT_ENTRY_BITMASK then do {
        let i8 = (ip AND 0xFF) + ucast (ucast tbl :: u8) * of_nat RTE_LPM_TBL8_GROUP_NUM_ENTRIES;
        e \<leftarrow> rd8 lpm (unat i8);
        Some (entry_word e) }
      else Some tbl)"

definition x4_hop :: "u32 \<Rightarrow> u32 \<Rightarrow> u32" where
  "x4_hop defv tbl = (if tbl AND RTE_LPM_LOOKUP_SUCCESS \<noteq> 0 then tbl AND 0x00FFFFFF else defv)"

definition rte_lpm_lookupx4 :: "rte_lpm \<Rightarrow> x4 \<Rightarrow> u32 \<Rightarrow> x4 option" where
  "rte_lpm_lookupx4 lpm ip defv = (case ip of (ip0, ip1, ip2, ip3) \<Rightarrow> do {
     let mask_xv = pair64 RTE_LPM_VALID_EXT_ENTRY_BITMASK RTE_LPM_VALID_EXT_ENTRY_BITMASK;
     let mask_v = pair64 RTE_LPM_LOOKUP_SUCCESS RTE_LPM_LOOKUP_SUCCESS;
     e0 \<leftarrow> rd24 lpm (tbl24_index ip0);
     e1 \<leftarrow> rd24 lpm (tbl24_index ip1);
     e2 \<leftarrow> rd24 lpm (tbl24_index ip2);
     e3 \<leftarrow> rd24 lpm (tbl24_index ip3);
     let pt = pair64 (entry_word e0) (entry_word e1);
     let pt2 = pair64 (entry_word e2) (entry_word e3);
     if pt AND mask_xv = mask_v \<and> pt2 AND mask_xv = mask_v then do {
       let r = pt AND RTE_LPM_MASKX4_RES;
       let r2 = pt2 AND RTE_LPM_MASKX4_RES;
       Some (ucast r, ucast (drop_bit 32 r), ucast r2, ucast (drop_bit 32 r2)) }
     else do {
       t0 \<leftarrow> x4_group lpm pt (entry_word e0) ip0;
       t1 \<leftarrow> x4_group lpm (drop_bit 32 pt) (entry_word e1) ip1;
       t2 \<leftarrow> x4_group lpm pt2 (entry_word e2) ip2;
       t3 \<leftarrow> x4_group lpm (drop_bit 32 pt2) (entry_word e3) ip3;
       Some (x4_hop defv t0, x4_hop defv t1, x4_hop defv t2, x4_hop defv t3) } })"

section \<open>Creation\<close>

text \<open>The tables that exist, their list, and the error variable of the thread.\<close>

record lpm_env =
  lpm_mem :: "addr \<rightharpoonup> rte_lpm"
  lpm_tailq :: "addr list"
  lpm_errno :: int

definition sizeof_rte_lpm :: u32 where
  "sizeof_rte_lpm = 67109248"

fun lpm_find :: "(addr \<rightharpoonup> rte_lpm) \<Rightarrow> string \<Rightarrow> addr list \<Rightarrow> addr option option" where
  "lpm_find m nm [] = Some None"
| "lpm_find m nm (a # tq) = (case m a of
     None \<Rightarrow> None
   | Some l \<Rightarrow> if take RTE_LPM_NAMESIZE nm = take RTE_LPM_NAMESIZE (lpm_name l) then Some (Some a)
               else lpm_find m nm tq)"

definition rte_lpm_find_existing :: "string \<Rightarrow> lpm_env \<Rightarrow> (lpm_env \<times> addr) option" where
  "rte_lpm_find_existing nm env = do {
     te \<leftarrow> lpm_find (lpm_mem env) nm (lpm_tailq env);
     case te of
       None \<Rightarrow> Some (env\<lparr>lpm_errno := errno_code ENOENT\<rparr>, NULL)
     | Some a \<Rightarrow> Some (env, a) }"

text \<open>
  \<^verbatim>\<open>rte_lpm_create\<close>. Whether the list entry can be allocated, and what the allocator returns for
  the structure and the two arrays (requests 0, 1 and 2), are parameters. The sizes of the arrays are 32-bit variables.
\<close>

definition rules_size :: "rte_lpm_config \<Rightarrow> u32" where
  "rules_size config = 8 * cfg_max_rules config"

definition tbl8s_size :: "rte_lpm_config \<Rightarrow> u32" where
  "tbl8s_size config = 4 * of_nat RTE_LPM_TBL8_GROUP_NUM_ENTRIES * cfg_number_tbl8s config"

definition rte_lpm_create ::
  "bool \<Rightarrow> (nat \<Rightarrow> u32 \<Rightarrow> addr) \<Rightarrow> string \<Rightarrow> int \<Rightarrow> rte_lpm_config \<Rightarrow> lpm_env \<Rightarrow> (lpm_env \<times> addr) option" where
  "rte_lpm_create te_ok zmalloc nm socket_id config env =
     (if socket_id < - 1 \<or> cfg_max_rules config = 0 \<or> cfg_number_tbl8s config > RTE_LPM_MAX_TBL8_NUM_GROUPS
      then Some (env\<lparr>lpm_errno := errno_code EINVAL\<rparr>, NULL)
      else do {
        te \<leftarrow> lpm_find (lpm_mem env) nm (lpm_tailq env);
        if te \<noteq> None then Some (env\<lparr>lpm_errno := errno_code EEXIST\<rparr>, NULL)
        else if \<not> te_ok \<or> zmalloc 0 sizeof_rte_lpm = NULL \<or> zmalloc 1 (rules_size config) = NULL \<or> zmalloc 2 (tbl8s_size config) = NULL
        then Some (env\<lparr>lpm_errno := errno_code ENOMEM\<rparr>, NULL)
        else do {
          let lpm = \<lparr>lpm_name = take (RTE_LPM_NAMESIZE - 1) nm, max_rules = cfg_max_rules config,
                number_tbl8s = cfg_number_tbl8s config, rule_info = \<lambda>_. \<lparr>used_rules = 0, first_rule = 0\<rparr>,
                tbl24 = \<lambda>_. zero_entry, tbl8 = \<lambda>_. zero_entry, tbl8_len = unat (tbl8s_size config) div 4,
                rules_tbl = \<lambda>_. \<lparr>rule_ip = 0, rule_next_hop = 0\<rparr>, rules_len = unat (rules_size config) div 8\<rparr>;
          let a = zmalloc 0 sizeof_rte_lpm;
          Some (env\<lparr>lpm_mem := (lpm_mem env)(a \<mapsto> lpm), lpm_tailq := lpm_tailq env @ [a]\<rparr>, a) } })"

definition rte_lpm_free :: "addr \<Rightarrow> lpm_env \<Rightarrow> lpm_env" where
  "rte_lpm_free a env = (if a = NULL then env
     else env\<lparr>lpm_mem := (lpm_mem env)(a := None), lpm_tailq := remove1 a (lpm_tailq env)\<rparr>)"

end
