(* ===== verification/LpmRules.thy ===== *)
theory LpmRules
  imports Lpm
begin

text \<open>
  The rule table of \<^verbatim>\<open>lib/librte_lpm\<close>: whatever is added and deleted, the table holds exactly the
  rules of a finite map from lengths and prefixes to next hops, grouped by length and without gaps.
\<close>

section \<open>Bags of rules\<close>

type_synonym rules = "nat \<Rightarrow> u32 \<rightharpoonup> u32"

definition rule_bag :: "rte_lpm_rule multiset \<Rightarrow> (u32 \<rightharpoonup> u32) \<Rightarrow> bool" where
  "rule_bag M f \<longleftrightarrow> (\<forall>r. count M r = (if f (rule_ip r) = Some (rule_next_hop r) then 1 else 0))"

lemma rule_bag_empty: "rule_bag {#} Map.empty"
  by (simp add: rule_bag_def)

lemma rule_bag_mem: "rule_bag M f \<Longrightarrow> r \<in># M \<longleftrightarrow> f (rule_ip r) = Some (rule_next_hop r)"
  by (metis count_eq_zero_iff rule_bag_def zero_neq_one)

lemma rule_bag_add:
  assumes "rule_bag M f" "f p = None"
  shows "rule_bag (add_mset \<lparr>rule_ip = p, rule_next_hop = h\<rparr> M) (f(p \<mapsto> h))"
  unfolding rule_bag_def
proof
  fix r :: rte_lpm_rule
  show "count (add_mset \<lparr>rule_ip = p, rule_next_hop = h\<rparr> M) r = (if (f(p \<mapsto> h)) (rule_ip r) = Some (rule_next_hop r) then 1 else 0)"
    using assms by (cases r) (auto simp: rule_bag_def)
qed

lemma rule_bag_remove:
  assumes "rule_bag M f" "f p = Some h"
  shows "rule_bag (M - {#\<lparr>rule_ip = p, rule_next_hop = h\<rparr>#}) (f(p := None))"
  unfolding rule_bag_def
proof
  fix r :: rte_lpm_rule
  show "count (M - {#\<lparr>rule_ip = p, rule_next_hop = h\<rparr>#}) r = (if (f(p := None)) (rule_ip r) = Some (rule_next_hop r) then 1 else 0)"
    using assms by (cases r) (auto simp: rule_bag_def)
qed

lemma rule_bag_size:
  assumes "rule_bag M f"
  shows "size M = card (dom f)"
proof -
  have "size M = (\<Sum>r \<in> set_mset M. count M r)" by (simp add: size_multiset_overloaded_eq)
  also have "\<dots> = (\<Sum>r \<in> set_mset M. 1)"
  proof (rule sum.cong [OF refl])
    fix r assume "r \<in># M"
    then show "count M r = 1" using assms rule_bag_mem [OF assms, of r] by (simp add: rule_bag_def)
  qed
  finally have "size M = card (set_mset M)" by simp
  moreover have "bij_betw rule_ip (set_mset M) (dom f)"
  proof (intro bij_betwI')
    fix x y :: rte_lpm_rule assume "x \<in># M" "y \<in># M"
    then show "(rule_ip x = rule_ip y) = (x = y)" using rule_bag_mem [OF assms] by (cases x; cases y) auto
  next
    fix x :: rte_lpm_rule assume "x \<in># M"
    then show "rule_ip x \<in> dom f" using rule_bag_mem [OF assms] by auto
  next
    fix p assume "p \<in> dom f"
    then obtain h where "f p = Some h" by auto
    then have "\<lparr>rule_ip = p, rule_next_hop = h\<rparr> \<in># M" using rule_bag_mem [OF assms] by simp
    then show "\<exists>x \<in> set_mset M. p = rule_ip x" by force
  qed
  ultimately show ?thesis by (simp add: bij_betw_same_card)
qed

section \<open>Segments of the table\<close>

definition seg :: "(nat \<Rightarrow> 'a) \<Rightarrow> nat \<Rightarrow> nat \<Rightarrow> 'a multiset" where
  "seg t f u = image_mset t (mset [f..<f + u])"

lemma seg_0 [simp]: "seg t f 0 = {#}"
  by (simp add: seg_def)

lemma size_seg [simp]: "size (seg t f u) = u"
  by (simp add: seg_def)

lemma in_seg: "x \<in># seg t f u \<longleftrightarrow> (\<exists>k. f \<le> k \<and> k < f + u \<and> t k = x)"
  by (auto simp: seg_def)

lemma seg_outside: "x < f \<or> f + u \<le> x \<Longrightarrow> seg (t(x := v)) f u = seg t f u"
  unfolding seg_def by (intro image_mset_cong) auto

lemma seg_last: "seg t f (Suc u) = add_mset (t (f + u)) (seg t f u)"
  by (simp add: seg_def)

lemma seg_first: "seg t f (Suc u) = add_mset (t f) (seg t (Suc f) u)"
proof -
  have "[f..<f + Suc u] = f # [Suc f..<Suc f + u]" by (simp add: upt_conv_Cons del: upt_Suc)
  then show ?thesis by (simp add: seg_def del: upt_Suc)
qed

lemma seg_up:
  assumes "0 < u"
  shows "seg (t(f + u := t f)) (Suc f) u = seg t f u"
proof -
  obtain v where v: "u = Suc v" using assms by (cases u) auto
  have "seg (t(f + u := t f)) (Suc f) u = add_mset (t f) (seg (t(f + u := t f)) (Suc f) v)"
    unfolding v seg_last by simp
  also have "\<dots> = seg t f u" unfolding v seg_first by (simp add: seg_outside)
  finally show ?thesis .
qed

lemma seg_down:
  assumes "0 < u" "0 < f"
  shows "seg (t(f - 1 := t (f + u - 1))) (f - 1) u = seg t f u"
proof -
  obtain v where v: "u = Suc v" using assms by (cases u) auto
  obtain g where g: "f = Suc g" using assms by (cases f) auto
  have "seg (t(f - 1 := t (f + u - 1))) (f - 1) u = add_mset (t (f + v)) (seg (t(g := t (f + v))) f v)"
    unfolding v g by (subst seg_first) simp
  also have "\<dots> = seg t f u" unfolding v seg_last by (simp add: g seg_outside)
  finally show ?thesis .
qed

lemma seg_replace:
  assumes "f \<le> k" "k < f + u"
  shows "seg (t(k := v)) f u = add_mset v (seg t f u - {#t k#})"
proof -
  have s: "mset [f..<f + u] = add_mset k (mset [f..<f + u] - {#k#})" using assms by simp
  have "k \<notin># mset [f..<f + u] - {#k#}"
    by (simp add: mset_upt not_in_iff count_mset_set')
  then have "image_mset (t(k := v)) (mset [f..<f + u] - {#k#}) = image_mset t (mset [f..<f + u] - {#k#})"
    by (intro image_mset_cong) auto
  then show ?thesis unfolding seg_def by (subst (1 2) s) simp
qed
section \<open>The invariant of the table\<close>

abbreviation ucnt :: "rte_lpm \<Rightarrow> nat \<Rightarrow> nat" where
  "ucnt lpm k \<equiv> unat (used_rules (rule_info lpm k))"

abbreviation fpos :: "rte_lpm \<Rightarrow> nat \<Rightarrow> nat" where
  "fpos lpm k \<equiv> unat (first_rule (rule_info lpm k))"

definition off :: "rte_lpm \<Rightarrow> nat \<Rightarrow> nat" where
  "off lpm k = (\<Sum>j < k. ucnt lpm j)"

abbreviation group_bag :: "rte_lpm \<Rightarrow> nat \<Rightarrow> rte_lpm_rule multiset" where
  "group_bag lpm k \<equiv> seg (rules_tbl lpm) (fpos lpm k) (ucnt lpm k)"

text \<open>
  Group \<open>k\<close> starts at its place, moved up by \<open>s k\<close>, unless it is empty. The start of an empty group is
  a left-over that still lies in the table.
\<close>

definition placed :: "(nat \<Rightarrow> nat) \<Rightarrow> rte_lpm \<Rightarrow> bool" where
  "placed s lpm \<longleftrightarrow> off lpm 32 + s 31 \<le> unat (max_rules lpm) \<and> unat (max_rules lpm) \<le> rules_len lpm \<and> unat (max_rules lpm) < 2 ^ 31 \<and>
     (\<forall>k < 32. fpos lpm k < unat (max_rules lpm) \<and> (0 < ucnt lpm k \<longrightarrow> fpos lpm k = off lpm k + s k))"

definition rules_rep :: "rte_lpm \<Rightarrow> rules \<Rightarrow> bool" where
  "rules_rep lpm R \<longleftrightarrow> placed (\<lambda>_. 0) lpm \<and> (\<forall>k < 32. rule_bag (group_bag lpm k) (R (Suc k)))"

text \<open>Nothing but the rule table differs.\<close>

definition same_tables :: "rte_lpm \<Rightarrow> rte_lpm \<Rightarrow> bool" where
  "same_tables lpm lpm' \<longleftrightarrow> tbl24 lpm' = tbl24 lpm \<and> tbl8 lpm' = tbl8 lpm \<and> tbl8_len lpm' = tbl8_len lpm \<and>
     number_tbl8s lpm' = number_tbl8s lpm \<and> max_rules lpm' = max_rules lpm \<and> rules_len lpm' = rules_len lpm \<and> lpm_name lpm' = lpm_name lpm"

lemma same_tables_refl [simp]: "same_tables lpm lpm"
  by (simp add: same_tables_def)

lemma same_tables_trans [trans]: "same_tables a b \<Longrightarrow> same_tables b c \<Longrightarrow> same_tables a c"
  by (simp add: same_tables_def)

lemma off_Suc: "off lpm (Suc k) = off lpm k + ucnt lpm k"
  by (simp add: off_def)

lemma off_mono: "i \<le> j \<Longrightarrow> off lpm i \<le> off lpm j"
  by (induction j rule: dec_induct) (simp_all add: off_Suc)

lemma off_cong: "(\<And>j. j < k \<Longrightarrow> ucnt lpm' j = ucnt lpm j) \<Longrightarrow> off lpm' k = off lpm k"
  by (simp add: off_def)

lemma group_below: "j < k \<Longrightarrow> off lpm j + ucnt lpm j \<le> off lpm k"
  using off_mono [of "Suc j" k lpm] by (simp add: off_Suc)

lemma placed_end:
  assumes "placed s lpm" "k < 32" "s k \<le> s 31"
  shows "unat (first_rule (rule_info lpm k) + used_rules (rule_info lpm k)) = fpos lpm k + ucnt lpm k"
    and "fpos lpm k + ucnt lpm k \<le> unat (max_rules lpm)"
proof -
  have "fpos lpm k + ucnt lpm k \<le> unat (max_rules lpm)"
  proof (cases "ucnt lpm k = 0")
    case True
    then show ?thesis using assms(1,2) by (auto simp: placed_def intro: less_imp_le)
  next
    case False
    then have "fpos lpm k = off lpm k + s k" using assms(1,2) by (simp add: placed_def)
    moreover have "off lpm k + ucnt lpm k \<le> off lpm 32" using assms(2) by (rule group_below)
    moreover have "off lpm 32 + s 31 \<le> unat (max_rules lpm)" using assms(1) by (simp add: placed_def)
    ultimately show ?thesis using assms(3) by linarith
  qed
  moreover have "unat (max_rules lpm) < 2 ^ 31" using assms(1) by (simp add: placed_def)
  ultimately show "fpos lpm k + ucnt lpm k \<le> unat (max_rules lpm)"
      "unat (first_rule (rule_info lpm k) + used_rules (rule_info lpm k)) = fpos lpm k + ucnt lpm k"
    by (simp_all add: unat_plus_simple)
qed

lemma rd_info_Some [simp]: "k < 32 \<Longrightarrow> rd_info lpm k = Some (rule_info lpm k)"
  by (simp add: rd_info_def RTE_LPM_MAX_DEPTH_def)

lemma used_pos: "0 < used_rules (rule_info lpm k) \<longleftrightarrow> 0 < ucnt lpm k"
  by (simp add: word_less_nat_alt)

section \<open>Finding a rule\<close>

lemma scan_rules_ok:
  assumes "e \<le> rules_len lpm"
  shows "\<exists>r. scan_rules lpm p i e = Some r \<and> (case r of
      Some k \<Rightarrow> i \<le> k \<and> k < e \<and> rule_ip (rules_tbl lpm k) = p
    | None \<Rightarrow> \<forall>k. i \<le> k \<longrightarrow> k < e \<longrightarrow> rule_ip (rules_tbl lpm k) \<noteq> p)"
  using assms
proof (induction lpm p i e rule: scan_rules.induct)
  case (1 lpm p i e)
  show ?case
  proof (cases "i < e")
    case False
    then show ?thesis by (subst scan_rules.simps) auto
  next
    case True
    then have r: "rd_rule lpm i = Some (rules_tbl lpm i)" using "1.prems" by (simp add: rd_rule_def)
    show ?thesis
    proof (cases "rule_ip (rules_tbl lpm i) = p")
      case p: True
      with r True show ?thesis by (subst scan_rules.simps) simp
    next
      case False
      from "1.IH" [OF True r False "1.prems"] obtain x where x: "scan_rules lpm p (i + 1) e = Some x"
        "case x of Some k \<Rightarrow> i + 1 \<le> k \<and> k < e \<and> rule_ip (rules_tbl lpm k) = p
         | None \<Rightarrow> \<forall>k. i + 1 \<le> k \<longrightarrow> k < e \<longrightarrow> rule_ip (rules_tbl lpm k) \<noteq> p" by blast
      have "scan_rules lpm p i e = Some x" using r True False x(1) by (subst scan_rules.simps) simp
      moreover have "\<forall>k. i \<le> k \<longrightarrow> k < e \<longrightarrow> rule_ip (rules_tbl lpm k) \<noteq> p" if "x = None"
      proof (intro allI impI)
        fix k assume "i \<le> k" "k < e"
        then show "rule_ip (rules_tbl lpm k) \<noteq> p" using x(2) False that by (cases "k = i") auto
      qed
      ultimately show ?thesis using x(2) by (auto split: option.splits)
    qed
  qed
qed

text \<open>A scan of a whole group decides whether the map has the rule.\<close>

lemma scan_group:
  assumes R: "rules_rep lpm R" and k: "k < 32"
  shows "\<exists>r. scan_rules lpm p (fpos lpm k) (unat (first_rule (rule_info lpm k) + used_rules (rule_info lpm k))) = Some r \<and> (case r of
      Some i \<Rightarrow> fpos lpm k \<le> i \<and> i < fpos lpm k + ucnt lpm k \<and> rule_ip (rules_tbl lpm i) = p \<and>
        R (Suc k) p = Some (rule_next_hop (rules_tbl lpm i))
    | None \<Rightarrow> R (Suc k) p = None)"
proof -
  have P: "placed (\<lambda>_. 0) lpm" and B: "rule_bag (group_bag lpm k) (R (Suc k))" using assms by (simp_all add: rules_rep_def)
  note e = placed_end [OF P k order_refl]
  have "fpos lpm k + ucnt lpm k \<le> rules_len lpm" using e(2) P by (simp add: placed_def)
  from scan_rules_ok [OF this, of p "fpos lpm k"] obtain r where
    r: "scan_rules lpm p (fpos lpm k) (fpos lpm k + ucnt lpm k) = Some r"
      "case r of Some i \<Rightarrow> fpos lpm k \<le> i \<and> i < fpos lpm k + ucnt lpm k \<and> rule_ip (rules_tbl lpm i) = p
       | None \<Rightarrow> \<forall>i. fpos lpm k \<le> i \<longrightarrow> i < fpos lpm k + ucnt lpm k \<longrightarrow> rule_ip (rules_tbl lpm i) \<noteq> p" by blast
  have "R (Suc k) p = None" if n: "r = None"
  proof (rule ccontr)
    assume "R (Suc k) p \<noteq> None"
    then obtain h where "R (Suc k) p = Some h" by auto
    then have "\<lparr>rule_ip = p, rule_next_hop = h\<rparr> \<in># group_bag lpm k" using rule_bag_mem [OF B] by simp
    then obtain i where "fpos lpm k \<le> i" "i < fpos lpm k + ucnt lpm k" "rules_tbl lpm i = \<lparr>rule_ip = p, rule_next_hop = h\<rparr>"
      by (auto simp: in_seg)
    with r(2) n show False by auto
  qed
  moreover have "R (Suc k) p = Some (rule_next_hop (rules_tbl lpm i))" if "r = Some i" for i
  proof -
    have "rules_tbl lpm i \<in># group_bag lpm k" using r(2) that by (auto simp: in_seg)
    then show ?thesis using rule_bag_mem [OF B] r(2) that by simp
  qed
  ultimately show ?thesis using r e(1) by (auto split: option.splits)
qed
lemma rule_find_ok:
  assumes "rules_rep lpm R" "1 \<le> d" "d \<le> 32"
  shows "\<exists>r. rule_find lpm p (of_nat d) = Some r \<and> (case r of
      Some i \<Rightarrow> fpos lpm (d - 1) \<le> i \<and> i < fpos lpm (d - 1) + ucnt lpm (d - 1) \<and> rule_ip (rules_tbl lpm i) = p \<and>
        rd_rule lpm i = Some (rules_tbl lpm i) \<and> R d p = Some (rule_next_hop (rules_tbl lpm i))
    | None \<Rightarrow> R d p = None)"
proof -
  have d: "unat (of_nat d :: u8) = d" using assms(3) by (intro unat_of_nat_small) simp
  have k: "d - 1 < 32" using assms by simp
  have P: "placed (\<lambda>_. 0) lpm" using assms(1) by (simp add: rules_rep_def)
  have l: "fpos lpm (d - 1) + ucnt lpm (d - 1) \<le> rules_len lpm" using placed_end(2) [OF P k] P by (simp add: placed_def)
  obtain r where r: "scan_rules lpm p (fpos lpm (d - 1)) (unat (first_rule (rule_info lpm (d - 1)) + used_rules (rule_info lpm (d - 1)))) = Some r"
      "case r of Some i \<Rightarrow> fpos lpm (d - 1) \<le> i \<and> i < fpos lpm (d - 1) + ucnt lpm (d - 1) \<and> rule_ip (rules_tbl lpm i) = p \<and>
          R (Suc (d - 1)) p = Some (rule_next_hop (rules_tbl lpm i))
        | None \<Rightarrow> R (Suc (d - 1)) p = None"
    using scan_group [OF assms(1) k, of p] by blast
  have "rule_find lpm p (of_nat d) = Some r" using r(1) d k by (simp add: rule_find_def)
  moreover have "Suc (d - 1) = d" using assms(2) by simp
  ultimately show ?thesis using r(2) l by (cases r) (simp_all add: rd_rule_def)
qed

text \<open>The longest of the first \<open>n\<close> lengths whose prefix of the address has a rule.\<close>

fun best :: "rules \<Rightarrow> u32 \<Rightarrow> nat \<Rightarrow> (nat \<times> u32) option" where
  "best R ip 0 = None"
| "best R ip (Suc d) = (case R (Suc d) (ip AND depth_to_mask (of_nat (Suc d))) of
     Some h \<Rightarrow> Some (Suc d, h) | None \<Rightarrow> best R ip d)"

lemma find_previous_ok:
  assumes "rules_rep lpm R" "d \<le> 32"
  shows "\<exists>r. find_previous lpm ip d = Some r \<and> (case r of
      Some (k, d') \<Rightarrow> rd_rule lpm k = Some (rules_tbl lpm k) \<and> best R ip d = Some (unat d', rule_next_hop (rules_tbl lpm k))
    | None \<Rightarrow> best R ip d = None)"
  using assms(2)
proof (induction d)
  case (Suc d)
  have u: "unat (of_nat (Suc d) :: u8) = Suc d" using Suc.prems by (intro unat_of_nat_small) simp
  from rule_find_ok [OF assms(1), of "Suc d" "ip AND depth_to_mask (of_nat (Suc d))"] Suc.prems obtain r where
    r: "rule_find lpm (ip AND depth_to_mask (of_nat (Suc d))) (of_nat (Suc d)) = Some r"
      "case r of Some i \<Rightarrow> rd_rule lpm i = Some (rules_tbl lpm i) \<and>
          R (Suc d) (ip AND depth_to_mask (of_nat (Suc d))) = Some (rule_next_hop (rules_tbl lpm i))
        | None \<Rightarrow> R (Suc d) (ip AND depth_to_mask (of_nat (Suc d))) = None" by (auto split: option.splits)
  show ?case
  proof (cases r)
    case None
    obtain x where "find_previous lpm ip d = Some x" "case x of
        Some (k, d') \<Rightarrow> rd_rule lpm k = Some (rules_tbl lpm k) \<and> best R ip d = Some (unat d', rule_next_hop (rules_tbl lpm k))
      | None \<Rightarrow> best R ip d = None" using Suc.IH Suc.prems by auto
    then show ?thesis using r None by (intro exI [of _ x]) (simp del: of_nat_Suc split: option.splits prod.splits)
  next
    case (Some k)
    then show ?thesis using r u by (simp del: of_nat_Suc)
  qed
qed simp

section \<open>Making room\<close>

text \<open>What a step of the two moving loops does to one group.\<close>

definition shifted :: "rte_lpm \<Rightarrow> nat \<Rightarrow> (nat \<Rightarrow> rte_lpm_rule) \<Rightarrow> u32 \<Rightarrow> rte_lpm" where
  "shifted lpm k t f = lpm\<lparr>rules_tbl := t, rule_info := (rule_info lpm)(k := (rule_info lpm k)\<lparr>first_rule := f\<rparr>)\<rparr>"

lemma shifted_simps [simp]:
  "rules_tbl (shifted lpm k t f) = t" "max_rules (shifted lpm k t f) = max_rules lpm" "rules_len (shifted lpm k t f) = rules_len lpm"
  "same_tables lpm (shifted lpm k t f)" "used_rules (rule_info (shifted lpm k t f) j) = used_rules (rule_info lpm j)"
  "first_rule (rule_info (shifted lpm k t f) j) = (if j = k then f else first_rule (rule_info lpm j))"
  by (simp_all add: shifted_def same_tables_def)

lemma shifted_off [simp]: "off (shifted lpm k t f) j = off lpm j"
  by (simp add: off_def)

text \<open>How far the groups from \<open>i\<close> on have moved up.\<close>

definition moved :: "nat \<Rightarrow> nat \<Rightarrow> nat" where
  "moved i k = of_bool (i \<le> k)"

lemma make_room_ok:
  assumes "placed (moved i) lpm" "off lpm 32 < unat (max_rules lpm)" "d \<le> i" "i \<le> 32"
  shows "\<exists>lpm'. make_room i d lpm = Some (lpm', None) \<and> placed (moved d) lpm' \<and> same_tables lpm lpm' \<and>
    (\<forall>k < 32. ucnt lpm' k = ucnt lpm k \<and> (k < d \<longrightarrow> rule_info lpm' k = rule_info lpm k) \<and> group_bag lpm' k = group_bag lpm k)"
  using assms
proof (induction i arbitrary: lpm rule: less_induct)
  case (less i)
  note ih = less.IH [of "i - 1"]
  show ?case
  proof (cases "d < i")
    case False
    then have "i = d" using less.prems by simp
    then show ?thesis using less.prems by (subst make_room.simps) auto
  next
    case True
    let ?k = "i - 1" let ?g = "rule_info lpm (i - 1)"
    have i1: "i - 1 < i" "d \<le> i - 1" "i - 1 \<le> 32" using True less.prems(4) by auto
    have k: "?k < 32" "?k < i" using True less.prems(4) by auto
    note P = less.prems(1)
    have m: "unat (max_rules lpm) < 2 ^ 31" "unat (max_rules lpm) \<le> rules_len lpm" using P by (simp_all add: placed_def)
    note e = placed_end(1) [OF P k(1)]
    have sk: "moved i ?k \<le> moved i 31" "moved i ?k = 0" using k by (simp_all add: moved_def)
    have lt: "fpos lpm ?k + ucnt lpm ?k < unat (max_rules lpm)"
    proof (cases "ucnt lpm ?k = 0")
      case True
      then show ?thesis using P k(1) by (simp add: placed_def)
    next
      case False
      then have "fpos lpm ?k = off lpm ?k" using P k(1) sk by (simp add: placed_def)
      then show ?thesis using group_below [OF k(1), of lpm] less.prems(2) by linarith
    qed
    have ne: "first_rule ?g + used_rules ?g \<noteq> max_rules lpm" using e [OF sk(1)] lt by auto
    show ?thesis
    proof (cases "0 < ucnt lpm ?k")
      case False
      have "placed (moved ?k) lpm" unfolding placed_def
      proof (intro conjI allI impI)
        have "moved ?k 31 = 1" using k by (simp add: moved_def)
        then show "off lpm 32 + moved ?k 31 \<le> unat (max_rules lpm)" using less.prems(2) by simp
        show "unat (max_rules lpm) \<le> rules_len lpm" "unat (max_rules lpm) < 2 ^ 31" using m by simp_all
        fix j :: nat assume j: "j < 32"
        show "fpos lpm j < unat (max_rules lpm)" using P j by (simp add: placed_def)
        assume u: "0 < ucnt lpm j"
        then have "j \<noteq> ?k" using False by auto
        then have "moved ?k j = moved i j" using True by (auto simp: moved_def)
        then show "fpos lpm j = off lpm j + moved ?k j" using P j u by (simp add: placed_def)
      qed
      then have "placed (moved (i - 1)) lpm" .
      moreover have "make_room i d lpm = make_room (i - 1) d lpm"
        using True ne False k(1) by (subst make_room.simps) (simp add: used_pos)
      ultimately show ?thesis
        using ih [OF _ _ less.prems(2)] less.prems(3,4) True by simp
    next
      case u: True
      let ?f = "fpos lpm ?k" let ?u = "ucnt lpm ?k"
      let ?t = "(rules_tbl lpm)(?f + ?u := rules_tbl lpm ?f)"
      let ?l = "shifted lpm ?k ?t (first_rule ?g + 1)"
      have f: "?f = off lpm ?k" using P k(1) sk u by (simp add: placed_def)
      have f1: "unat (first_rule ?g + 1) = ?f + 1" using lt m(1) by (simp add: unat_plus_simple)
      have step: "make_room i d lpm = make_room (i - 1) d ?l"
      proof -
        have "rd_rule lpm ?f = Some (rules_tbl lpm ?f)" using lt m(2) by (simp add: rd_rule_def)
        moreover have "wr_rule (?f + ?u) (rules_tbl lpm ?f) lpm = Some (lpm\<lparr>rules_tbl := ?t\<rparr>)"
          using lt m(2) by (simp add: wr_rule_def)
        ultimately show ?thesis
          using True ne u k(1) e [OF sk(1)] by (subst make_room.simps) (simp add: used_pos shifted_def)
      qed
      have bag: "group_bag ?l j = group_bag lpm j" if j: "j < 32" for j
      proof (cases "j = ?k")
        case True
        then show ?thesis using seg_up [OF u, of "rules_tbl lpm" ?f] f1 by simp
      next
        case False
        show ?thesis
        proof (cases "ucnt lpm j = 0")
          case ne0: False
          then have fj: "fpos lpm j = off lpm j + moved i j" using P j by (simp add: placed_def)
          have "?f + ?u < fpos lpm j \<or> fpos lpm j + ucnt lpm j \<le> ?f + ?u"
          proof (cases "j < ?k")
            case True
            then have "moved i j = 0" by (simp add: moved_def)
            then show ?thesis using group_below [OF True, of lpm] fj f by simp
          next
            case nj: False
            then have "?k < j" "moved i j = 1" using False True by (auto simp: moved_def)
            then show ?thesis using group_below [of ?k j lpm] fj f by simp
          qed
          then have "seg ?t (fpos lpm j) (ucnt lpm j) = group_bag lpm j" by (rule seg_outside)
          then show ?thesis using False by simp
        qed simp
      qed
      have "placed (moved ?k) ?l" unfolding placed_def shifted_simps shifted_off
      proof (intro conjI allI impI)
        have "moved ?k 31 = 1" using k by (simp add: moved_def)
        then show "off lpm 32 + moved ?k 31 \<le> unat (max_rules lpm)" using less.prems(2) by simp
        show "unat (max_rules lpm) \<le> rules_len lpm" "unat (max_rules lpm) < 2 ^ 31" using m by simp_all
        fix j :: nat assume j: "j < 32"
        show "unat (if j = ?k then first_rule ?g + 1 else first_rule (rule_info lpm j)) < unat (max_rules lpm)"
        proof (cases "j = ?k")
          case True
          have "?f + 1 < unat (max_rules lpm)" using lt u by linarith
          then show ?thesis using True f1 by simp
        next
          case False
          then show ?thesis using P j by (simp add: placed_def)
        qed
        assume u: "0 < ucnt lpm j"
        show "unat (if j = ?k then first_rule ?g + 1 else first_rule (rule_info lpm j)) = off lpm j + moved ?k j"
        proof (cases "j = ?k")
          case True
          then show ?thesis using f1 f by (simp add: moved_def)
        next
          case False
          then have "moved ?k j = moved i j" using True by (auto simp: moved_def)
          then show ?thesis using P j u False by (simp add: placed_def)
        qed
      qed
      moreover have "off ?l 32 < unat (max_rules ?l)" using less.prems(2) by simp
      ultimately obtain lpm' where l': "make_room (i - 1) d ?l = Some (lpm', None)" "placed (moved d) lpm'" "same_tables ?l lpm'"
          "\<forall>k < 32. ucnt lpm' k = ucnt ?l k \<and> (k < d \<longrightarrow> rule_info lpm' k = rule_info ?l k) \<and> group_bag lpm' k = group_bag ?l k"
        using ih [OF i1(1) _ _ i1(2,3), of ?l] by blast
      have "rule_info ?l j = rule_info lpm j" if "j < d" for j using that True by (simp add: shifted_def)
      then show ?thesis using l' bag step same_tables_trans [OF shifted_simps(4) l'(3)] by auto
    qed
  qed
qed

lemma off_empty:
  assumes "i \<le> n" "\<forall>j. i \<le> j \<and> j < n \<longrightarrow> ucnt lpm j = 0"
  shows "off lpm n = off lpm i"
  using assms by (induction n rule: dec_induct) (simp_all add: off_Suc)

lemma make_room_full:
  assumes "placed (\<lambda>_. 0) lpm" "off lpm 32 = unat (max_rules lpm)" "i \<le> 32" "\<exists>k. d \<le> k \<and> k < i \<and> 0 < ucnt lpm k"
    and "\<forall>j. i \<le> j \<and> j < 32 \<longrightarrow> ucnt lpm j = 0"
  shows "make_room i d lpm = Some (lpm, Some ENOSPC)"
  using assms(3-5)
proof (induction i)
  case (Suc i)
  have i: "i < 32" "d < Suc i" using Suc.prems by auto
  note P = assms(1)
  note e = placed_end(1) [OF P i(1) order_refl]
  show ?case
  proof (cases "ucnt lpm i = 0")
    case False
    have "off lpm 32 = off lpm i + ucnt lpm i" using off_empty [OF Suc.prems(1), of lpm] Suc.prems(3) by (simp add: off_Suc)
    moreover have "fpos lpm i = off lpm i" using P i False by (simp add: placed_def)
    ultimately have "first_rule (rule_info lpm i) + used_rules (rule_info lpm i) = max_rules lpm"
      using assms(2) e by (simp add: word_unat_eq_iff)
    then show ?thesis using i by (subst make_room.simps) simp
  next
    case True
    have "fpos lpm i < unat (max_rules lpm)" using P i by (simp add: placed_def)
    then have ne: "first_rule (rule_info lpm i) + used_rules (rule_info lpm i) \<noteq> max_rules lpm" using e True by auto
    have "\<exists>k. d \<le> k \<and> k < i \<and> 0 < ucnt lpm k" using Suc.prems(2) True by (metis less_antisym less_numeral_extra(3))
    moreover have "ucnt lpm j = 0" if "i \<le> j" "j < 32" for j
      using Suc.prems(3) True that by (cases "j = i") auto
    ultimately have "make_room i d lpm = Some (lpm, Some ENOSPC)" using Suc.IH Suc.prems(1) by simp
    then show ?thesis using i ne True used_pos [of lpm i] by (subst make_room.simps) simp
  qed
qed simp

text \<open>The place of the first rule of a length.\<close>

lemma insert_pos_ok:
  assumes "placed (\<lambda>_. 0) lpm" "k \<le> 32"
  shows "unat (insert_pos lpm k) = off lpm k"
  using assms(2)
proof (induction k)
  case (Suc k)
  then have k: "k < 32" by simp
  show ?case
  proof (cases "ucnt lpm k = 0")
    case True
    then show ?thesis using Suc used_pos [of lpm k] by (simp add: off_Suc)
  next
    case False
    moreover have "fpos lpm k = off lpm k" using assms(1) k False by (simp add: placed_def)
    ultimately show ?thesis using placed_end(1) [OF assms(1) k order_refl] used_pos [of lpm k] by (simp add: off_Suc)
  qed
qed (simp add: off_def)

section \<open>Adding and deleting rules\<close>

text \<open>Moving the groups behind a changed group back.\<close>

lemma placed_0: "placed (\<lambda>_. 0) lpm \<Longrightarrow> off lpm 32 < unat (max_rules lpm) \<Longrightarrow> placed (moved 32) lpm"
  by (auto simp: placed_def moved_def)

lemma seg_extend:
  "seg (t(f + u := v)) f (Suc u) = add_mset v (seg t f u)"
  by (simp add: seg_last seg_outside)

text \<open>One more rule in the group of length \<open>d\<close>, once there is room behind it.\<close>

lemma grow_group:
  assumes P: "placed (moved d) lpm" and lt: "off lpm 32 < unat (max_rules lpm)" and d: "1 \<le> d" "d \<le> 32"
    and f: "fpos lpm (d - 1) = off lpm (d - 1)"
    and l: "lpm' = lpm\<lparr>rules_tbl := (rules_tbl lpm)(off lpm d := r),
      rule_info := (rule_info lpm)(d - 1 := (rule_info lpm (d - 1))\<lparr>used_rules := used_rules (rule_info lpm (d - 1)) + 1\<rparr>)\<rparr>"
  shows "placed (\<lambda>_. 0) lpm'" "same_tables lpm lpm'"
    "\<forall>k < 32. group_bag lpm' k = (if k = d - 1 then add_mset r (group_bag lpm k) else group_bag lpm k)"
    "off lpm' 32 = off lpm 32 + 1"
proof -
  let ?k = "d - 1"
  have k: "?k < 32" "Suc ?k = d" using d by auto
  have dd: "off lpm d = off lpm ?k + ucnt lpm ?k" using off_Suc [of lpm ?k] k(2) by simp
  have m: "unat (max_rules lpm) < 2 ^ 31" using P by (simp add: placed_def)
  have "off lpm d \<le> off lpm 32" using d(2) by (rule off_mono)
  then have "ucnt lpm ?k + 1 < 2 ^ 31" using dd lt m by linarith
  then have u: "unat (used_rules (rule_info lpm ?k) + 1) = ucnt lpm ?k + 1" by (simp add: unat_plus_simple)
  have uc: "ucnt lpm' j = ucnt lpm j + of_bool (j = ?k)" for j using u by (simp add: l)
  have fp: "fpos lpm' j = fpos lpm j" for j by (simp add: l)
  have os: "off lpm' j = off lpm j + of_bool (?k < j)" for j
    by (induction j) (auto simp: off_Suc uc, simp_all add: off_def)
  show "same_tables lpm lpm'" by (simp add: same_tables_def l)
  show "off lpm' 32 = off lpm 32 + 1" using os k by simp
  show "placed (\<lambda>_. 0) lpm'" unfolding placed_def
  proof (intro conjI allI impI)
    have ml: "max_rules lpm' = max_rules lpm" "rules_len lpm' = rules_len lpm" by (simp_all add: l)
    show "off lpm' 32 + 0 \<le> unat (max_rules lpm')" using os lt k ml by simp
    show "unat (max_rules lpm') \<le> rules_len lpm'" "unat (max_rules lpm') < 2 ^ 31" using P ml by (simp_all add: placed_def)
    fix j :: nat assume j: "j < 32"
    show "fpos lpm' j < unat (max_rules lpm')" using P j ml fp by (simp add: placed_def)
    assume "0 < ucnt lpm' j"
    then show "fpos lpm' j = off lpm' j + 0"
      using P j f fp os uc k by (cases "j = ?k") (auto simp: placed_def moved_def)
  qed
  show "\<forall>k < 32. group_bag lpm' k = (if k = ?k then add_mset r (group_bag lpm k) else group_bag lpm k)"
  proof (intro allI impI)
    fix j :: nat assume j: "j < 32"
    have t: "rules_tbl lpm' = (rules_tbl lpm)(off lpm d := r)" by (simp add: l)
    show "group_bag lpm' j = (if j = ?k then add_mset r (group_bag lpm j) else group_bag lpm j)"
    proof (cases "j = ?k")
      case True
      then show ?thesis using seg_extend [of "rules_tbl lpm" "off lpm ?k" "ucnt lpm ?k" r] t uc fp f dd by simp
    next
      case False
      show ?thesis
      proof (cases "ucnt lpm j = 0")
        case True
        then show ?thesis using False uc [of j] by simp
      next
        case n0: False
        then have fj: "fpos lpm j = off lpm j + moved d j" using P j by (simp add: placed_def)
        have "off lpm d < fpos lpm j \<or> fpos lpm j + ucnt lpm j \<le> off lpm d"
        proof (cases "j < ?k")
          case True
          then have "moved d j = 0" by (simp add: moved_def)
          then show ?thesis using group_below [OF True, of lpm] fj dd by simp
        next
          case nj: False
          then have "d \<le> j" using False by simp
          then have "moved d j = 1" "off lpm d \<le> off lpm j" by (simp_all add: moved_def off_mono)
          then show ?thesis using fj by simp
        qed
        then have "seg ((rules_tbl lpm)(off lpm d := r)) (fpos lpm j) (ucnt lpm j) = group_bag lpm j" by (rule seg_outside)
        then show ?thesis using False t uc [of j] fp [of j] by simp
      qed
    qed
  qed
qed

text \<open>Groups do not overlap: a write into one leaves the others alone.\<close>

lemma write_other:
  assumes P: "placed (\<lambda>_. 0) lpm" and ij: "i < 32" "j < 32" "i \<noteq> j"
    and x: "fpos lpm i \<le> x" "x < fpos lpm i + ucnt lpm i"
  shows "seg ((rules_tbl lpm)(x := v)) (fpos lpm j) (ucnt lpm j) = group_bag lpm j"
proof (cases "ucnt lpm j = 0")
  case False
  have "0 < ucnt lpm i" using x by linarith
  then have f: "fpos lpm i = off lpm i" "fpos lpm j = off lpm j" using P ij False by (simp_all add: placed_def)
  have "x < fpos lpm j \<or> fpos lpm j + ucnt lpm j \<le> x"
  proof (cases "i < j")
    case True
    then show ?thesis using group_below [OF True, of lpm] f x by linarith
  next
    case False
    then have "j < i" using ij(3) by simp
    then show ?thesis using group_below [of j i lpm] f x by linarith
  qed
  then show ?thesis by (rule seg_outside)
qed simp

lemma placed_cong:
  assumes "placed s lpm" "rule_info lpm' = rule_info lpm" "max_rules lpm' = max_rules lpm" "rules_len lpm' = rules_len lpm"
  shows "placed s lpm'"
  using assms by (simp add: placed_def off_def)

lemma rules_rep_upd:
  assumes "rules_rep lpm R" "placed (\<lambda>_. 0) lpm'" "1 \<le> d" "d \<le> 32" "rule_bag (group_bag lpm' (d - 1)) f"
    and "\<And>k. k < 32 \<Longrightarrow> k \<noteq> d - 1 \<Longrightarrow> group_bag lpm' k = group_bag lpm k"
  shows "rules_rep lpm' (R(d := f))"
proof -
  have "rule_bag (group_bag lpm' k) ((R(d := f)) (Suc k))" if "k < 32" for k
    using assms(1,3,5) assms(6) [OF that] that by (cases "k = d - 1") (auto simp: rules_rep_def)
  then show ?thesis using assms(2) by (simp add: rules_rep_def)
qed

lemma rule_add_ok:
  assumes R: "rules_rep lpm R" and d: "1 \<le> d" "d \<le> 32"
  shows "\<exists>lpm' r. rule_add lpm p (of_nat d) h = Some (lpm', r) \<and> same_tables lpm lpm' \<and>
    (if R d p = None \<and> off lpm 32 = unat (max_rules lpm) then r = Inl ENOSPC \<and> rules_rep lpm' R
     else \<exists>k. r = Inr k \<and> rules_rep lpm' (R(d := (R d)(p \<mapsto> h))) \<and> fpos lpm' (d - 1) \<le> k \<and> k < fpos lpm' (d - 1) + ucnt lpm' (d - 1) \<and>
       rules_tbl lpm' k = \<lparr>rule_ip = p, rule_next_hop = h\<rparr>)"
proof -
  have du: "unat (of_nat d :: u8) = d" using d(2) by (intro unat_of_nat_small) simp
  let ?k = "d - 1" let ?g = "rule_info lpm (d - 1)"
  have k: "?k < 32" "Suc ?k = d" using d by auto
  have P: "placed (\<lambda>_. 0) lpm" and B: "\<And>j. j < 32 \<Longrightarrow> rule_bag (group_bag lpm j) (R (Suc j))" using R by (simp_all add: rules_rep_def)
  have m: "unat (max_rules lpm) \<le> rules_len lpm" "off lpm 32 \<le> unat (max_rules lpm)" using P by (simp_all add: placed_def)
  note e = placed_end [OF P k(1) order_refl]
  obtain r where r: "scan_rules lpm p (fpos lpm ?k) (unat (first_rule ?g + used_rules ?g)) = Some r"
      "case r of Some i \<Rightarrow> fpos lpm ?k \<le> i \<and> i < fpos lpm ?k + ucnt lpm ?k \<and> rule_ip (rules_tbl lpm i) = p \<and>
          R (Suc ?k) p = Some (rule_next_hop (rules_tbl lpm i))
        | None \<Rightarrow> R (Suc ?k) p = None"
    using scan_group [OF R k(1), of p] by blast
  show ?thesis
  proof (cases r)
    case (Some i)
    then have i: "fpos lpm ?k \<le> i" "i < fpos lpm ?k + ucnt lpm ?k" "rule_ip (rules_tbl lpm i) = p" "R d p = Some (rule_next_hop (rules_tbl lpm i))"
      using r(2) k(2) by auto
    then have il: "i < rules_len lpm" and u: "0 < used_rules ?g" using e(2) m(1) used_pos [of lpm ?k] by linarith+
    let ?r = "\<lparr>rule_ip = p, rule_next_hop = h\<rparr>"
    have rr: "(rules_tbl lpm i)\<lparr>rule_next_hop := h\<rparr> = ?r" using i(3) by simp
    define lpm' where "lpm' = lpm\<lparr>rules_tbl := (rules_tbl lpm)(i := ?r)\<rparr>"
    have "rule_add lpm p (of_nat d) h = Some (lpm', Inr i)"
      using r(1) Some u il du k(1) rr by (simp add: rule_add_def rd_rule_def wr_rule_def lpm'_def)
    moreover have "rules_rep lpm' (R(d := (R d)(p \<mapsto> h)))"
    proof (rule rules_rep_upd [OF R _ d])
      show "placed (\<lambda>_. 0) lpm'" by (rule placed_cong [OF P]) (simp_all add: lpm'_def)
      have t: "rules_tbl lpm i = \<lparr>rule_ip = p, rule_next_hop = rule_next_hop (rules_tbl lpm i)\<rparr>" using i(3) by simp
      have "group_bag lpm' ?k = add_mset ?r (group_bag lpm ?k - {#rules_tbl lpm i#})"
        using seg_replace [OF i(1,2)] by (simp add: lpm'_def)
      moreover have "rule_bag (group_bag lpm ?k - {#rules_tbl lpm i#}) ((R d)(p := None))"
        using rule_bag_remove [OF B [OF k(1)], of p] i(4) k(2) t by simp
      from rule_bag_add [OF this, of p h] have "rule_bag (add_mset ?r (group_bag lpm ?k - {#rules_tbl lpm i#})) ((R d)(p \<mapsto> h))" by simp
      ultimately show "rule_bag (group_bag lpm' ?k) ((R d)(p \<mapsto> h))" by simp
      fix j :: nat assume "j < 32" "j \<noteq> ?k"
      then show "group_bag lpm' j = group_bag lpm j" using write_other [OF P k(1), of j i] i(1,2) by (simp add: lpm'_def)
    qed
    ultimately show ?thesis using i by (simp add: lpm'_def same_tables_def)
  next
    case None
    then have n: "R d p = None" using r(2) k(2) by simp
    define idx where "idx = insert_index lpm ?k"
    have dd: "off lpm d = off lpm ?k + ucnt lpm ?k" using off_Suc [of lpm ?k] k(2) by simp
    have idx: "unat idx = off lpm d"
    proof (cases "0 < used_rules ?g")
      case True
      then have "fpos lpm ?k = off lpm ?k" using P k(1) used_pos [of lpm ?k] by (simp add: placed_def)
      then show ?thesis using True e(1) dd by (simp add: idx_def insert_index_def)
    next
      case False
      then have "ucnt lpm ?k = 0" using used_pos [of lpm ?k] by simp
      then show ?thesis using False insert_pos_ok [OF P, of ?k] k(1) dd by (simp add: idx_def insert_index_def)
    qed
    have dm: "off lpm d \<le> off lpm 32" using d(2) by (rule off_mono)
    have add: "rule_add lpm p (of_nat d) h = insert_rule lpm p d h"
      using r(1) None du k(1) by (cases "0 < used_rules ?g") (simp_all add: rule_add_def)
    note ins = insert_rule_def [of lpm p d h, folded idx_def, unfolded Let_def RTE_LPM_MAX_DEPTH_def]
    show ?thesis
    proof (cases "off lpm d = unat (max_rules lpm)")
      case True
      then have "idx = max_rules lpm" using idx by (simp add: word_unat_eq_iff)
      then have "rule_add lpm p (of_nat d) h = Some (lpm, Inl ENOSPC)" using add ins by simp
      then show ?thesis using n True dm m(2) R by simp
    next
      case False
      then have ix: "off lpm d < unat (max_rules lpm)" "idx \<noteq> max_rules lpm" using dm m(2) idx by auto
      define lpm1 where "lpm1 = (if used_rules ?g > 0 then lpm else lpm\<lparr>rule_info := (rule_info lpm)(?k := ?g\<lparr>first_rule := idx\<rparr>)\<rparr>)"
      have uc1: "ucnt lpm1 j = ucnt lpm j" for j by (simp add: lpm1_def)
      have off1: "off lpm1 j = off lpm j" for j by (rule off_cong) (rule uc1)
      have f1: "fpos lpm1 ?k = off lpm ?k"
        using P k(1) idx dd used_pos [of lpm ?k] by (auto simp: lpm1_def placed_def)
      have fo: "fpos lpm1 j = fpos lpm j" if "j \<noteq> ?k \<or> 0 < ucnt lpm j" for j
        using that used_pos [of lpm j] by (auto simp: lpm1_def)
      have s1: "same_tables lpm lpm1" "rules_tbl lpm1 = rules_tbl lpm" by (simp_all add: lpm1_def same_tables_def)
      have P1: "placed (\<lambda>_. 0) lpm1" unfolding placed_def
      proof (intro conjI allI impI)
        show "off lpm1 32 + 0 \<le> unat (max_rules lpm1)" "unat (max_rules lpm1) \<le> rules_len lpm1" "unat (max_rules lpm1) < 2 ^ 31"
          using P s1 off1 by (simp_all add: placed_def same_tables_def)
        fix j :: nat assume j: "j < 32"
        show "fpos lpm1 j < unat (max_rules lpm1)"
          using P j s1(1) fo [of j] f1 ix(1) dd by (cases "j = ?k") (auto simp: placed_def same_tables_def)
        assume "0 < ucnt lpm1 j"
        then show "fpos lpm1 j = off lpm1 j + 0" using P j fo [of j] uc1 off1 by (simp add: placed_def)
      qed
      have b1: "group_bag lpm1 j = group_bag lpm j" for j
        using fo [of j] uc1 [of j] s1(2) by (cases "ucnt lpm j = 0") simp_all
      have R1: "rules_rep lpm1 R" using P1 b1 B by (simp add: rules_rep_def)
      note ins1 = ins [folded lpm1_def]
      show ?thesis
      proof (cases "off lpm 32 = unat (max_rules lpm)")
        case True
        have "\<exists>j. d \<le> j \<and> j < 32 \<and> 0 < ucnt lpm1 j"
        proof (rule ccontr)
          assume "\<not> ?thesis"
          then have "off lpm1 32 = off lpm1 d" using d(2) by (intro off_empty) auto
          then show False using off1 True ix(1) by simp
        qed
        then have "make_room 32 d lpm1 = Some (lpm1, Some ENOSPC)"
          using make_room_full [OF P1, of 32 d] True off1 s1(1) by (simp add: same_tables_def)
        then show ?thesis using add ins1 ix(2) n True R1 s1(1) by simp
      next
        case False
        then have lt: "off lpm1 32 < unat (max_rules lpm1)" using m(2) off1 s1(1) by (simp add: same_tables_def)
        obtain lpm2 where l2: "make_room 32 d lpm1 = Some (lpm2, None)" "placed (moved d) lpm2" "same_tables lpm1 lpm2"
            "\<forall>k < 32. ucnt lpm2 k = ucnt lpm1 k \<and> (k < d \<longrightarrow> rule_info lpm2 k = rule_info lpm1 k) \<and> group_bag lpm2 k = group_bag lpm1 k"
          using make_room_ok [OF placed_0 [OF P1 lt] lt d(2)] by blast
        have off2: "off lpm2 j = off lpm j" if "j \<le> 32" for j
          using l2(4) that off1 [of j] off_cong [of j lpm2 lpm1] by simp
        have lt2: "off lpm2 32 < unat (max_rules lpm2)" using lt off2 off1 l2(3) by (simp add: same_tables_def)
        have f2: "fpos lpm2 ?k = off lpm2 ?k" using l2(4) k f1 off2 by simp
        let ?r = "\<lparr>rule_ip = p, rule_next_hop = h\<rparr>"
        define lpm3 where "lpm3 = lpm2\<lparr>rules_tbl := (rules_tbl lpm2)(off lpm2 d := ?r),
            rule_info := (rule_info lpm2)(?k := (rule_info lpm2 ?k)\<lparr>used_rules := used_rules (rule_info lpm2 ?k) + 1\<rparr>)\<rparr>"
        note g = grow_group [OF l2(2) lt2 d f2 lpm3_def]
        have st: "same_tables lpm lpm3" using s1(1) l2(3) g(2) by (simp add: same_tables_def)
        have "unat idx < rules_len lpm2" using idx ix(1) m(1) s1(1) l2(3) by (simp add: same_tables_def)
        then have "rule_add lpm p (of_nat d) h = Some (lpm3, Inr (off lpm2 d))"
          using add ins1 ix(2) l2(1) idx off2 d(2) by (simp add: wr_rule_def lpm3_def)
        moreover have "rules_rep lpm3 (R(d := (R d)(p \<mapsto> h)))"
        proof (rule rules_rep_upd [OF R g(1) d])
          have b2: "group_bag lpm2 j = group_bag lpm j" if "j < 32" for j using l2(4) b1 [of j] that by metis
          have "group_bag lpm3 ?k = add_mset ?r (group_bag lpm ?k)" unfolding g(3) [rule_format, OF k(1)] b2 [OF k(1)] by simp
          then show "rule_bag (group_bag lpm3 ?k) ((R d)(p \<mapsto> h))"
            using rule_bag_add [OF B [OF k(1)], of p h] n k(2) by simp
          fix j :: nat assume j: "j < 32" "j \<noteq> ?k"
          then show "group_bag lpm3 j = group_bag lpm j" unfolding g(3) [rule_format, OF j(1)] b2 [OF j(1)] by simp
        qed
        moreover have "fpos lpm3 ?k \<le> off lpm2 d \<and> off lpm2 d < fpos lpm3 ?k + ucnt lpm3 ?k \<and> rules_tbl lpm3 (off lpm2 d) = ?r"
        proof -
          have "fpos lpm3 ?k = off lpm2 ?k" using f2 by (simp add: lpm3_def)
          moreover have "off lpm2 d = off lpm2 ?k + ucnt lpm2 ?k" using off_Suc [of lpm2 ?k] k(2) by simp
          moreover have "ucnt lpm3 ?k = Suc (ucnt lpm2 ?k)"
            using arg_cong [OF g(3) [rule_format, OF k(1)], of size] by simp
          ultimately show ?thesis by (simp add: lpm3_def)
        qed
        ultimately show ?thesis using st False by auto
      qed
    qed
  qed
qed

text \<open>Taking a rule out of a segment, by moving the last one into its place.\<close>

lemma seg_take:
  assumes "f \<le> k" "k < f + u"
  shows "seg (t(k := t (f + u - 1))) f (u - 1) = seg t f u - {#t k#}"
proof -
  obtain v where v: "u = Suc v" using assms by (cases u) auto
  have "seg (t(k := t (f + v))) f v = seg t f u - {#t k#}"
  proof (cases "k = f + v")
    case True
    then show ?thesis by (simp add: v seg_last)
  next
    case False
    then have k: "k < f + v" using assms v by simp
    have "t k \<in># seg t f v" using assms(1) k by (auto simp: in_seg)
    then show ?thesis using seg_replace [OF assms(1) k, of t "t (f + v)"] by (simp add: v seg_last)
  qed
  then show ?thesis by (simp add: v)
qed

text \<open>Between the steps of the second loop, the groups of lengths beyond \<open>d\<close> have moved down, up to \<open>i\<close>.\<close>

definition closing :: "nat \<Rightarrow> rte_lpm \<Rightarrow> rte_lpm_rule multiset \<Rightarrow> nat \<Rightarrow> rte_lpm \<Rightarrow> bool" where
  "closing d lpm0 M i lpm \<longleftrightarrow> same_tables lpm0 lpm \<and>
     (\<forall>k < 32. used_rules (rule_info lpm k) = used_rules (rule_info lpm0 k) \<and> fpos lpm k < unat (max_rules lpm) \<and>
       (0 < ucnt lpm0 k \<longrightarrow> fpos lpm k + of_bool (d \<le> k \<and> k < i) = off lpm0 k) \<and> (k \<noteq> d - 1 \<longrightarrow> group_bag lpm k = group_bag lpm0 k)) \<and>
     seg (rules_tbl lpm) (off lpm0 (d - 1)) (ucnt lpm0 (d - 1) - 1) = M"

lemma closing_step:
  assumes P: "placed (\<lambda>_. 0) lpm0" and d: "1 \<le> d" "d \<le> i" "i < 32" "0 < ucnt lpm0 (d - 1)" and I: "closing d lpm0 M i lpm"
  shows "\<exists>lpm'. move_down i lpm = Some lpm' \<and> closing d lpm0 M (Suc i) lpm'"
proof -
  let ?g = "rule_info lpm i"
  have st: "same_tables lpm0 lpm" and M: "seg (rules_tbl lpm) (off lpm0 (d - 1)) (ucnt lpm0 (d - 1) - 1) = M"
    using I by (simp_all add: closing_def)
  have J: "used_rules (rule_info lpm k) = used_rules (rule_info lpm0 k)" "fpos lpm k < unat (max_rules lpm)"
      "0 < ucnt lpm0 k \<Longrightarrow> fpos lpm k + of_bool (d \<le> k \<and> k < i) = off lpm0 k" "k \<noteq> d - 1 \<Longrightarrow> group_bag lpm k = group_bag lpm0 k"
    if "k < 32" for k using I that unfolding closing_def by blast+
  have dd: "off lpm0 d = off lpm0 (d - 1) + ucnt lpm0 (d - 1)" using off_Suc [of lpm0 "d - 1"] d(1) by simp
  have di: "off lpm0 d \<le> off lpm0 i" by (rule off_mono) (rule d(2))
  show ?thesis
  proof (cases "0 < ucnt lpm0 i")
    case False
    have u: "\<not> 0 < used_rules ?g" using False J(1) [OF d(3)] used_pos [of lpm0 i] by simp
    have "closing d lpm0 M (Suc i) lpm" unfolding closing_def
    proof (intro conjI allI impI)
      fix k :: nat assume k: "k < 32"
      show "used_rules (rule_info lpm k) = used_rules (rule_info lpm0 k)" "fpos lpm k < unat (max_rules lpm)" using J k by simp_all
      show "fpos lpm k + of_bool (d \<le> k \<and> k < Suc i) = off lpm0 k" if "0 < ucnt lpm0 k"
        using J(3) [OF k that] False that by (cases "k = i") (simp_all add: less_Suc_eq)
      show "group_bag lpm k = group_bag lpm0 k" if "k \<noteq> d - 1" using J(4) [OF k that] .
    qed (rule st, rule M)
    then show ?thesis using u d(3) by (simp add: move_down_def)
  next
    case u: True
    let ?f = "fpos lpm i" let ?u = "ucnt lpm i"
    have f: "?f = off lpm0 i" using J(3) [OF d(3) u] by simp
    have ue: "?u = ucnt lpm0 i" using J(1) [OF d(3)] by simp
    have f0: "0 < ?f" using f dd di d(4) by linarith
    have en: "?f + ?u \<le> unat (max_rules lpm)" "unat (max_rules lpm) \<le> rules_len lpm" "unat (max_rules lpm) < 2 ^ 31"
    proof -
      have "off lpm0 i + ucnt lpm0 i \<le> off lpm0 32" using d(3) by (rule group_below)
      then show "?f + ?u \<le> unat (max_rules lpm)" "unat (max_rules lpm) \<le> rules_len lpm" "unat (max_rules lpm) < 2 ^ 31"
        using f ue P st by (simp_all add: placed_def same_tables_def)
    qed
    have w: "unat (first_rule ?g + used_rules ?g - 1) = ?f + ?u - 1" "unat (first_rule ?g - 1) = ?f - 1"
    proof -
      have s: "unat (first_rule ?g + used_rules ?g) = ?f + ?u" using en by (simp add: unat_plus_simple)
      have "1 \<le> first_rule ?g + used_rules ?g" "1 \<le> first_rule ?g" using s f0 by (simp_all add: word_le_nat_alt)
      then show "unat (first_rule ?g + used_rules ?g - 1) = ?f + ?u - 1" "unat (first_rule ?g - 1) = ?f - 1"
        using s by (simp_all add: unat_sub_simple)
    qed
    let ?t = "(rules_tbl lpm)(?f - 1 := rules_tbl lpm (?f + ?u - 1))"
    let ?l = "shifted lpm i ?t (first_rule ?g - 1)"
    have pos: "0 < used_rules ?g" using u J(1) [OF d(3)] used_pos [of lpm0 i] by simp
    have "rd_rule lpm (?f + ?u - 1) = Some (rules_tbl lpm (?f + ?u - 1))" "wr_rule (?f - 1) (rules_tbl lpm (?f + ?u - 1)) lpm = Some (lpm\<lparr>rules_tbl := ?t\<rparr>)"
      using en f0 u ue by (simp_all add: rd_rule_def wr_rule_def)
    then have "move_down i lpm = Some ?l" using d(3) pos w by (simp add: move_down_def shifted_def)
    moreover have "closing d lpm0 M (Suc i) ?l" unfolding closing_def shifted_simps
    proof (intro conjI allI impI)
      show "same_tables lpm0 ?l" using st shifted_simps(4) by (rule same_tables_trans)
      have "off lpm0 (d - 1) + (ucnt lpm0 (d - 1) - 1) \<le> ?f - 1" using f dd di d(4) by linarith
      then show "seg ?t (off lpm0 (d - 1)) (ucnt lpm0 (d - 1) - 1) = M" using M by (simp add: seg_outside)
      fix k :: nat assume k: "k < 32"
      show "used_rules (rule_info lpm k) = used_rules (rule_info lpm0 k)" using J k by simp
      show "unat (if k = i then first_rule ?g - 1 else first_rule (rule_info lpm k)) < unat (max_rules lpm)"
        using J(2) [OF k] w(2) by auto
      show "unat (if k = i then first_rule ?g - 1 else first_rule (rule_info lpm k)) + of_bool (d \<le> k \<and> k < Suc i) = off lpm0 k"
        if "0 < ucnt lpm0 k"
      proof (cases "k = i")
        case True
        then show ?thesis using w(2) f f0 d(2) by simp
      next
        case False
        then show ?thesis using J(3) [OF k that] by (simp add: less_Suc_eq)
      qed
      show "seg ?t (unat (if k = i then first_rule ?g - 1 else first_rule (rule_info lpm k))) (ucnt lpm k) = group_bag lpm0 k"
        if nd: "k \<noteq> d - 1"
      proof (cases "k = i")
        case True
        then show ?thesis using seg_down [of ?u ?f "rules_tbl lpm"] u ue f0 w(2) J(4) [OF k nd] by simp
      next
        case False
        show ?thesis
        proof (cases "ucnt lpm0 k = 0")
          case True
          then show ?thesis using J(1) [OF k] by simp
        next
          case nz: False
          then have fk: "fpos lpm k + of_bool (d \<le> k \<and> k < i) = off lpm0 k" using J(3) [OF k] by simp
          have uk: "ucnt lpm k = ucnt lpm0 k" using J(1) [OF k] by simp
          have "?f - 1 < fpos lpm k \<or> fpos lpm k + ucnt lpm k \<le> ?f - 1"
          proof (cases "k < i")
            case True
            have kb: "off lpm0 k + ucnt lpm0 k \<le> off lpm0 i" using True by (rule group_below)
            show ?thesis
            proof (cases "d \<le> k")
              case True
              then have "Suc (fpos lpm k) = off lpm0 k" using fk \<open>k < i\<close> by simp
              then have "fpos lpm k + ucnt lpm k \<le> ?f - 1" using kb f uk by linarith
              then show ?thesis by blast
            next
              case False
              then have "k < d - 1" using nd by simp
              then have "off lpm0 k + ucnt lpm0 k \<le> off lpm0 (d - 1)" by (rule group_below)
              moreover have "fpos lpm k = off lpm0 k" using fk False by simp
              ultimately have "fpos lpm k + ucnt lpm k \<le> ?f - 1" using f uk dd di d(4) by linarith
              then show ?thesis by blast
            qed
          next
            case ki: False
            then have "off lpm0 i + ucnt lpm0 i \<le> off lpm0 k" using False by (intro group_below) simp
            moreover have "fpos lpm k = off lpm0 k" using fk ki by simp
            ultimately have "?f - 1 < fpos lpm k" using f f0 by linarith
            then show ?thesis by blast
          qed
          then have "seg ?t (fpos lpm k) (ucnt lpm k) = group_bag lpm k" by (rule seg_outside)
          then show ?thesis using False J(4) [OF k nd] by simp
        qed
      qed
    qed
    ultimately show ?thesis by blast
  qed
qed

lemma rule_delete_ok:
  assumes R: "rules_rep lpm R" and d: "1 \<le> d" "d \<le> 32"
    and i: "fpos lpm (d - 1) \<le> i" "i < fpos lpm (d - 1) + ucnt lpm (d - 1)" "rule_ip (rules_tbl lpm i) = p"
  shows "\<exists>lpm'. rule_delete i (of_nat d) lpm = Some lpm' \<and> same_tables lpm lpm' \<and> rules_rep lpm' (R(d := (R d)(p := None))) \<and>
    off lpm' 32 = off lpm 32 - 1"
proof -
  have du: "unat (of_nat d :: u8) = d" using d(2) by (intro unat_of_nat_small) simp
  let ?k = "d - 1" let ?g = "rule_info lpm (d - 1)"
  have k: "?k < 32" "Suc ?k = d" using d by auto
  have P: "placed (\<lambda>_. 0) lpm" and B: "\<And>j. j < 32 \<Longrightarrow> rule_bag (group_bag lpm j) (R (Suc j))" using R by (simp_all add: rules_rep_def)
  note e = placed_end [OF P k(1) order_refl]
  have u: "0 < ucnt lpm ?k" using i by linarith
  have f: "fpos lpm ?k = off lpm ?k" using P k(1) u by (simp add: placed_def)
  have m: "unat (max_rules lpm) \<le> rules_len lpm" using P by (simp add: placed_def)
  let ?e = "fpos lpm ?k + ucnt lpm ?k - 1"
  have w: "unat (first_rule ?g + used_rules ?g - 1) = ?e"
  proof -
    have "1 \<le> first_rule ?g + used_rules ?g" using e(1) u by (simp add: word_le_nat_alt)
    then show ?thesis using e(1) by (simp add: unat_sub_simple)
  qed
  define lpm1 where "lpm1 = lpm\<lparr>rules_tbl := (rules_tbl lpm)(i := rules_tbl lpm ?e)\<rparr>"
  define M where "M = group_bag lpm ?k - {#rules_tbl lpm i#}"
  have rw: "rd_rule lpm ?e = Some (rules_tbl lpm ?e)" "wr_rule i (rules_tbl lpm ?e) lpm = Some lpm1"
    using e(2) m u i by (simp_all add: rd_rule_def wr_rule_def lpm1_def)
  have "closing d lpm M d lpm1" unfolding closing_def
  proof (intro conjI allI impI)
    show "same_tables lpm lpm1" by (simp add: same_tables_def lpm1_def)
    show "seg (rules_tbl lpm1) (off lpm ?k) (ucnt lpm ?k - 1) = M"
      using seg_take [OF i(1,2), of "rules_tbl lpm"] f by (simp add: lpm1_def M_def)
    fix j :: nat assume j: "j < 32"
    show "used_rules (rule_info lpm1 j) = used_rules (rule_info lpm j)" by (simp add: lpm1_def)
    show "fpos lpm1 j < unat (max_rules lpm1)" using P j by (simp add: lpm1_def placed_def)
    show "fpos lpm1 j + of_bool (d \<le> j \<and> j < d) = off lpm j" if "0 < ucnt lpm j"
      using P j that by (simp add: lpm1_def placed_def)
    show "group_bag lpm1 j = group_bag lpm j" if "j \<noteq> ?k"
      using write_other [OF P k(1) j _ i(1,2)] that by (simp add: lpm1_def)
  qed
  then obtain lpm2 where l2: "for_range d 32 move_down lpm1 = Some lpm2" "closing d lpm M 32 lpm2"
    using for_range_inv [of "closing d lpm M" d lpm1 32 move_down, OF _ d(2)] closing_step [OF P d(1) _ _ u] by blast
  have st: "same_tables lpm lpm2" and M2: "seg (rules_tbl lpm2) (off lpm ?k) (ucnt lpm ?k - 1) = M"
    using l2(2) by (simp_all add: closing_def)
  have J: "used_rules (rule_info lpm2 j) = used_rules (rule_info lpm j)" "fpos lpm2 j < unat (max_rules lpm2)"
      "0 < ucnt lpm j \<Longrightarrow> fpos lpm2 j + of_bool (d \<le> j \<and> j < 32) = off lpm j" "j \<noteq> d - 1 \<Longrightarrow> group_bag lpm2 j = group_bag lpm j"
    if "j < 32" for j using l2(2) that unfolding closing_def by blast+
  define lpm3 where "lpm3 = lpm2\<lparr>rule_info := (rule_info lpm2)(?k := (rule_info lpm2 ?k)\<lparr>used_rules := used_rules (rule_info lpm2 ?k) - 1\<rparr>)\<rparr>"
  have del: "rule_delete i (of_nat d) lpm = Some lpm3"
    using k(1) du w rw l2(1) by (simp add: rule_delete_def RTE_LPM_MAX_DEPTH_def lpm3_def Let_def)
  have s3: "same_tables lpm lpm3" using st by (simp add: same_tables_def lpm3_def)
  have "1 \<le> used_rules ?g" using u by (simp add: word_le_nat_alt)
  then have u1: "unat (used_rules ?g - 1) = ucnt lpm ?k - 1" by (simp add: unat_sub_simple)
  have uc: "ucnt lpm3 j = ucnt lpm j - of_bool (j = ?k)" if "j < 32" for j
    using J(1) [OF that] u1 by (cases "j = ?k") (simp_all add: lpm3_def)
  have fp: "fpos lpm3 j = fpos lpm2 j" for j by (simp add: lpm3_def)
  have os: "off lpm3 j + of_bool (?k < j) = off lpm j" if "j \<le> 32" for j
    using that
  proof (induction j)
    case (Suc j)
    then show ?case using uc [of j] u by (cases "j = ?k") (auto simp: off_Suc)
  qed (simp add: off_def)
  have P3: "placed (\<lambda>_. 0) lpm3" unfolding placed_def
  proof (intro conjI allI impI)
    show "off lpm3 32 + 0 \<le> unat (max_rules lpm3)" "unat (max_rules lpm3) \<le> rules_len lpm3" "unat (max_rules lpm3) < 2 ^ 31"
      using P s3 os [of 32] k(1) by (simp_all add: placed_def same_tables_def)
    fix j :: nat assume j: "j < 32"
    show "fpos lpm3 j < unat (max_rules lpm3)" using J(2) [OF j] by (cases "j = ?k") (simp_all add: lpm3_def)
    assume "0 < ucnt lpm3 j"
    then have "0 < ucnt lpm j" using uc [OF j] by simp
    then have "fpos lpm2 j + of_bool (d \<le> j) = off lpm j" using J(3) [OF j] j by simp
    moreover have "?k < j \<longleftrightarrow> d \<le> j" using k(2) by linarith
    ultimately show "fpos lpm3 j = off lpm3 j + 0" using os [of j] j fp by (auto split: if_splits)
  qed
  have "rules_rep lpm3 (R(d := (R d)(p := None)))"
  proof (rule rules_rep_upd [OF R P3 d])
    have t: "rules_tbl lpm i = \<lparr>rule_ip = p, rule_next_hop = rule_next_hop (rules_tbl lpm i)\<rparr>" using i(3) by simp
    have "rules_tbl lpm i \<in># group_bag lpm ?k" using i by (auto simp: in_seg)
    then have "R d p = Some (rule_next_hop (rules_tbl lpm i))" using rule_bag_mem [OF B [OF k(1)]] i(3) k(2) by simp
    from rule_bag_remove [OF B [OF k(1)], of p] this have rb: "rule_bag M ((R d)(p := None))" using k(2) t by (simp add: M_def)
    have "fpos lpm2 ?k = off lpm ?k" using J(3) [OF k(1) u] k by (simp split: if_splits)
    moreover have "rules_tbl lpm3 = rules_tbl lpm2" by (simp add: lpm3_def)
    moreover have "ucnt lpm3 ?k = ucnt lpm ?k - 1" using uc [OF k(1)] by simp
    ultimately have "group_bag lpm3 ?k = M" using M2 fp [of ?k] by simp
    then show "rule_bag (group_bag lpm3 ?k) ((R d)(p := None))" using rb by simp
    fix j :: nat assume j: "j < 32" "j \<noteq> ?k"
    have "group_bag lpm3 j = group_bag lpm2 j" using j(2) by (simp add: lpm3_def)
    then show "group_bag lpm3 j = group_bag lpm j" using J(4) [OF j] by simp
  qed
  then show ?thesis using del s3 os [of 32] k(1) by auto
qed

end
