(* ===== verification/LpmTable.thy ===== *)
theory LpmTable
  imports LpmRules
begin

text \<open>
  The lookup tables of \<^verbatim>\<open>lib/librte_lpm\<close> represent the rules: every address leads to an entry
  with the length and the next hop of its longest matching rule. Additions and deletions keep this.
\<close>

section \<open>Prefixes\<close>

lemma depth_to_mask_eq:
  assumes "1 \<le> d" "d \<le> 32"
  shows "depth_to_mask (of_nat d) = push_bit (32 - d) (mask d)"
proof -
  have "(of_nat d :: u8) - 1 = of_nat (d - 1)" using assms by (simp add: of_nat_diff)
  then have u: "unat ((of_nat d :: u8) - 1) = d - 1" using unat_of_nat_small [of "d - 1", where ?'a = 8] assms by simp
  have "bit (push_bit 31 1 :: u32) k \<longleftrightarrow> k = 31" for k unfolding bit_push_bit_iff by (auto simp: bit_1_iff)
  then have h: "bit (0x80000000 :: u32) k \<longleftrightarrow> k = 31" for k by (simp add: push_bit_eq_mult)
  show ?thesis unfolding depth_to_mask_def u
  proof (rule bit_word_eqI)
    fix n assume "n < LENGTH(32)"
    then show "bit (signed_drop_bit (d - 1) (0x80000000 :: u32)) n = bit (push_bit (32 - d) (mask d :: u32)) n"
      using assms unfolding bit_signed_drop_bit_iff bit_push_bit_iff h by (auto simp: bit_simps)
  qed
qed

text \<open>The number of an address's prefix of a length.\<close>

definition pfx :: "nat \<Rightarrow> u32 \<Rightarrow> nat" where
  "pfx d ip = unat ip div 2 ^ (32 - d)"

lemma masked_eq:
  assumes "1 \<le> d" "d \<le> 32"
  shows "ip AND depth_to_mask (of_nat d) = push_bit (32 - d) (drop_bit (32 - d) ip)"
  unfolding depth_to_mask_eq [OF assms]
  using assms by (intro bit_word_eqI) (auto simp: bit_simps)

lemma unat_masked:
  assumes "1 \<le> d" "d \<le> 32"
  shows "unat (ip AND depth_to_mask (of_nat d)) = pfx d ip * 2 ^ (32 - d)"
proof -
  have "pfx d ip * 2 ^ (32 - d) \<le> unat ip" by (simp add: pfx_def)
  then have "pfx d ip * 2 ^ (32 - d) < 2 ^ 32" using unat_lt_2p [of ip] by simp
  then have "take_bit 32 (pfx d ip * 2 ^ (32 - d)) = pfx d ip * 2 ^ (32 - d)" by (rule take_bit_nat_eq_self)
  moreover have "unat (ip AND depth_to_mask (of_nat d)) = take_bit 32 (push_bit (32 - d) (drop_bit (32 - d) (unat ip)))"
    unfolding masked_eq [OF assms] unsigned_push_bit_eq unat_drop_bit_eq by simp
  ultimately show ?thesis by (simp add: push_bit_eq_mult drop_bit_eq_div pfx_def)
qed

lemma masked_iff:
  assumes "1 \<le> d" "d \<le> 32"
  shows "ip AND depth_to_mask (of_nat d) = ip' AND depth_to_mask (of_nat d) \<longleftrightarrow> pfx d ip = pfx d ip'"
  using unat_masked [OF assms] by (metis mult_cancel2 power_not_zero unat_eq_0 word_unat_eq_iff zero_neq_numeral)

lemma pfx_below:
  assumes "d \<le> n" "n \<le> 32" "pfx n ip = pfx n ip'"
  shows "pfx d ip = pfx d ip'"
proof -
  have "32 - d = (32 - n) + (n - d)" using assms by simp
  then have "pfx d x = pfx n x div 2 ^ (n - d)" for x by (simp add: pfx_def power_add div_mult2_eq)
  then show ?thesis using assms(3) by simp
qed

abbreviation block :: "u32 \<Rightarrow> nat" where
  "block ip \<equiv> unat ip div 256"

abbreviation low :: "u32 \<Rightarrow> nat" where
  "low ip \<equiv> unat ip mod 256"

lemma pfx_24: "pfx 24 ip = block ip"
  by (simp add: pfx_def)

lemma block_less [simp]: "block ip < 2 ^ 24"
  using unat_lt_2p [of ip] by (simp add: less_mult_imp_div_less)

lemma block_less2 [simp]: "block ip < 16777216"
  using block_less [of ip] by simp

lemma tbl24_index_eq: "tbl24_index ip = block ip"
  unfolding tbl24_index_def unat_drop_bit_eq by (simp add: drop_bit_eq_div)

lemma masked_block:
  assumes "24 \<le> d" "d \<le> 32"
  shows "block (ip AND depth_to_mask (of_nat d)) = block ip"
proof -
  have e: "(256 :: nat) = 2 ^ (32 - d) * 2 ^ (d - 24)" using assms by (simp flip: power_add)
  show ?thesis using assms unat_masked [of d ip]
    unfolding pfx_def e by (simp add: div_mult2_eq)
qed

text \<open>The longest match.\<close>

lemma best_range: "best R ip n = Some (d, h) \<Longrightarrow> 1 \<le> d \<and> d \<le> n \<and> R d (ip AND depth_to_mask (of_nat d)) = Some h"
proof (induction n)
  case (Suc n)
  then show ?case by (auto split: option.splits)
qed simp

lemma best_cong:
  assumes "n \<le> 32" "pfx n ip = pfx n ip'"
  shows "best R ip n = best R ip' n"
  using assms
proof (induction n)
  case (Suc n)
  have "ip AND depth_to_mask (of_nat (Suc n)) = ip' AND depth_to_mask (of_nat (Suc n))"
    using masked_iff [of "Suc n" ip ip'] Suc.prems by simp
  moreover have "pfx n ip = pfx n ip'" using pfx_below [OF _ Suc.prems] by simp
  then have "best R ip n = best R ip' n" using Suc.IH Suc.prems(1) by simp
  ultimately show ?case by (simp del: of_nat_Suc cong: option.case_cong)
qed simp

text \<open>A rule of the address bounds the length of its longest match from below.\<close>

lemma best_ge:
  assumes "R d (ip AND depth_to_mask (of_nat d)) = Some h" "1 \<le> d" "d \<le> n"
  shows "\<exists>d' h'. best R ip n = Some (d', h') \<and> d \<le> d'"
  using assms(3)
proof (induction n)
  case (Suc n)
  show ?case
  proof (cases "d = Suc n")
    case True
    then show ?thesis using assms(1) by (simp del: of_nat_Suc)
  next
    case False
    then have "d \<le> n" using Suc.prems by simp
    then show ?thesis using Suc.IH by (cases "R (Suc n) (ip AND depth_to_mask (of_nat (Suc n)))") (auto simp del: of_nat_Suc)
  qed
qed (use assms in simp)

lemma best_down:
  assumes "best R ip n = Some (d, h)" "d \<le> m" "m \<le> n"
  shows "best R ip m = Some (d, h)"
  using assms(3,1)
proof (induction n rule: dec_induct)
  case (step n)
  then show ?case using assms(2) by (auto split: option.splits)
qed

lemma best_none_down: "best R ip n = None \<Longrightarrow> m \<le> n \<Longrightarrow> best R ip m = None"
  using best_range [of R ip m] best_ge [of R _ ip _ n] by (cases "best R ip m") (auto, fastforce)

section \<open>Changing the rules\<close>

definition covers :: "nat \<Rightarrow> u32 \<Rightarrow> u32 \<Rightarrow> bool" where
  "covers d p ip \<longleftrightarrow> ip AND depth_to_mask (of_nat d) = p"

lemma best_other:
  assumes "\<not> covers d p ip"
  shows "best (R(d := (R d)(p := x))) ip n = best R ip n"
  using assms by (induction n) (auto simp: covers_def simp del: of_nat_Suc cong: option.case_cong)

lemma best_lower: "n < d \<Longrightarrow> best (R(d := f)) ip n = best R ip n"
  by (induction n) (auto simp del: of_nat_Suc cong: option.case_cong)

lemma best_add:
  assumes "covers d p ip" "1 \<le> d" "d \<le> n"
  shows "best (R(d := (R d)(p \<mapsto> h))) ip n =
    (case best R ip n of Some (d', h') \<Rightarrow> if d < d' then Some (d', h') else Some (d, h) | None \<Rightarrow> Some (d, h))"
  using assms(3)
proof (induction n rule: dec_induct)
  case base
  obtain e where e: "d = Suc e" using assms(2) by (cases d) auto
  have "best (R(d := (R d)(p \<mapsto> h))) ip d = Some (d, h)" using assms(1) by (simp add: e covers_def del: of_nat_Suc)
  then show ?case using best_range [of R ip d] by (auto simp del: fun_upd_apply split: option.splits)
next
  case (step n)
  then show ?case using best_range [of R ip n] by (auto split: option.splits simp del: of_nat_Suc cong: option.case_cong)
qed

lemma best_delete:
  assumes "covers d p ip" "1 \<le> d" "d \<le> n" "R d p \<noteq> None"
  shows "best (R(d := (R d)(p := None))) ip n =
    (case best R ip n of Some (d', h') \<Rightarrow> if d < d' then Some (d', h') else best R ip (d - 1) | None \<Rightarrow> None)"
  using assms(3)
proof (induction n rule: dec_induct)
  case base
  obtain e where e: "d = Suc e" using assms(2) by (cases d) auto
  have "best (R(d := (R d)(p := None))) ip d = best (R(d := (R d)(p := None))) ip e"
    using assms(1) by (simp add: e covers_def del: of_nat_Suc)
  also have "\<dots> = best R ip e" by (rule best_lower) (simp add: e)
  finally have "best (R(d := (R d)(p := None))) ip d = best R ip e" .
  moreover have "\<exists>h. best R ip d = Some (d, h)" using assms(1,4) by (auto simp: e covers_def simp del: of_nat_Suc)
  ultimately show ?case using e by (auto simp del: fun_upd_apply of_nat_Suc)
next
  case (step n)
  then show ?case using best_range [of R ip n] by (auto split: option.splits simp del: of_nat_Suc cong: option.case_cong)
qed

section \<open>What the tables say\<close>

definition desc :: "rte_lpm_tbl_entry \<Rightarrow> (nat \<times> u32) option \<Rightarrow> bool" where
  "desc e b \<longleftrightarrow> te_valid e = (b \<noteq> None) \<and> (\<forall>d h. b = Some (d, h) \<longrightarrow> te_depth e = of_nat d \<and> te_next_hop e = ucast h)"

definition xt :: "rte_lpm_tbl_entry \<Rightarrow> bool" where
  "xt e \<longleftrightarrow> te_valid e \<and> te_valid_group e"

definition slot :: "rte_lpm \<Rightarrow> u32 \<Rightarrow> rte_lpm_tbl_entry" where
  "slot lpm ip = (let e = tbl24 lpm (block ip) in if xt e then tbl8 lpm (256 * group_idx e + low ip) else e)"

text \<open>A block of 256 addresses needs a group if there is a rule for a part of it.\<close>

definition long :: "rules \<Rightarrow> nat \<Rightarrow> bool" where
  "long R i \<longleftrightarrow> (\<exists>d ip. 24 < d \<and> block ip = i \<and> R d (ip AND depth_to_mask (of_nat d)) \<noteq> None)"

abbreviation groups :: "rte_lpm \<Rightarrow> nat" where
  "groups lpm \<equiv> unat (number_tbl8s lpm)"

definition tables_rep :: "rte_lpm \<Rightarrow> rules \<Rightarrow> bool" where
  "tables_rep lpm R \<longleftrightarrow> 256 * groups lpm \<le> tbl8_len lpm \<and> groups lpm \<le> 2 ^ 24 \<and>
     (\<forall>i < 2 ^ 24. xt (tbl24 lpm i) = long R i) \<and>
     (\<forall>i < 2 ^ 24. xt (tbl24 lpm i) \<longrightarrow> group_idx (tbl24 lpm i) < groups lpm \<and> te_valid_group (tbl8 lpm (256 * group_idx (tbl24 lpm i)))) \<and>
     (\<forall>i < 2 ^ 24. \<forall>j < 2 ^ 24. xt (tbl24 lpm i) \<longrightarrow> xt (tbl24 lpm j) \<longrightarrow> group_idx (tbl24 lpm i) = group_idx (tbl24 lpm j) \<longrightarrow> i = j) \<and>
     (\<forall>g < groups lpm. te_valid_group (tbl8 lpm (256 * g)) \<longrightarrow> (\<exists>i < 2 ^ 24. xt (tbl24 lpm i) \<and> group_idx (tbl24 lpm i) = g)) \<and>
     (\<forall>ip. desc (slot lpm ip) (best R ip 32))"

definition wf_rules :: "rules \<Rightarrow> bool" where
  "wf_rules R \<longleftrightarrow> (\<forall>d p h. R d p = Some h \<longrightarrow> 1 \<le> d \<and> d \<le> 32 \<and> p AND depth_to_mask (of_nat d) = p)"

definition lpm_ok :: "rte_lpm \<Rightarrow> rules \<Rightarrow> bool" where
  "lpm_ok lpm R \<longleftrightarrow> wf_rules R \<and> rules_rep lpm R \<and> tables_rep lpm R"

section \<open>Loops over entries\<close>

lemma loop8:
  assumes step: "\<And>j l. j < tbl8_len l \<Longrightarrow> f j l = Some (l\<lparr>tbl8 := (tbl8 l)(j := u (tbl8 l j))\<rparr>)"
    and b: "b \<le> tbl8_len lpm" "a \<le> b"
  shows "for_range a b f lpm = Some (lpm\<lparr>tbl8 := \<lambda>x. if a \<le> x \<and> x < b then u (tbl8 lpm x) else tbl8 lpm x\<rparr>)"
proof -
  define I where "I = (\<lambda>i l. l = lpm\<lparr>tbl8 := \<lambda>x. if a \<le> x \<and> x < i then u (tbl8 lpm x) else tbl8 lpm x\<rparr>)"
  have "\<exists>l. for_range a b f lpm = Some l \<and> I b l"
  proof (rule for_range_inv [where I = I])
    have "(\<lambda>x. if a \<le> x \<and> x < a then u (tbl8 lpm x) else tbl8 lpm x) = tbl8 lpm" by (auto simp: fun_eq_iff)
    then show "I a lpm" by (simp add: I_def)
    show "a \<le> b" by (rule b(2))
    fix i l assume i: "a \<le> i" "i < b" "I i l"
    then have "f i l = Some (l\<lparr>tbl8 := (tbl8 l)(i := u (tbl8 l i))\<rparr>)" using b(1) by (intro step) (simp add: I_def)
    moreover have "I (Suc i) (l\<lparr>tbl8 := (tbl8 l)(i := u (tbl8 l i))\<rparr>)"
      using i by (auto simp: I_def fun_eq_iff less_Suc_eq)
    ultimately show "\<exists>s'. f i l = Some s' \<and> I (Suc i) s'" by blast
  qed
  then show ?thesis by (simp add: I_def)
qed

text \<open>A loop over the first table that changes entries or the groups they name.\<close>

abbreviation in_group :: "rte_lpm_tbl_entry \<Rightarrow> nat \<Rightarrow> bool" where
  "in_group e x \<equiv> group_idx e = x div 256"

lemma loop24:
  assumes step: "\<And>i l. i < 2 ^ 24 \<Longrightarrow> (q (tbl24 l i) \<Longrightarrow> 256 * group_idx (tbl24 l i) + 256 \<le> tbl8_len l) \<Longrightarrow>
      f i l = Some (l\<lparr>tbl24 := (tbl24 l)(i := u4 (tbl24 l i)),
        tbl8 := \<lambda>x. if q (tbl24 l i) \<and> in_group (tbl24 l i) x then u8 (tbl8 l x) else tbl8 l x\<rparr>)"
    and b: "a \<le> b" "b \<le> 2 ^ 24"
    and g: "\<And>i. a \<le> i \<Longrightarrow> i < b \<Longrightarrow> q (tbl24 lpm i) \<Longrightarrow> 256 * group_idx (tbl24 lpm i) + 256 \<le> tbl8_len lpm"
    and inj: "\<And>i j. a \<le> i \<Longrightarrow> i < b \<Longrightarrow> a \<le> j \<Longrightarrow> j < b \<Longrightarrow> q (tbl24 lpm i) \<Longrightarrow> q (tbl24 lpm j) \<Longrightarrow>
      group_idx (tbl24 lpm i) = group_idx (tbl24 lpm j) \<Longrightarrow> i = j"
  shows "for_range a b f lpm = Some (lpm\<lparr>tbl24 := \<lambda>i. if a \<le> i \<and> i < b then u4 (tbl24 lpm i) else tbl24 lpm i,
     tbl8 := \<lambda>x. if \<exists>i. a \<le> i \<and> i < b \<and> q (tbl24 lpm i) \<and> in_group (tbl24 lpm i) x then u8 (tbl8 lpm x) else tbl8 lpm x\<rparr>)"
proof -
  define T where "T = (\<lambda>n. lpm\<lparr>tbl24 := \<lambda>i. if a \<le> i \<and> i < n then u4 (tbl24 lpm i) else tbl24 lpm i,
     tbl8 := \<lambda>x. if \<exists>i. a \<le> i \<and> i < n \<and> q (tbl24 lpm i) \<and> in_group (tbl24 lpm i) x then u8 (tbl8 lpm x) else tbl8 lpm x\<rparr>)"
  have "\<exists>l. for_range a b f lpm = Some l \<and> l = T b"
  proof (rule for_range_inv [where I = "\<lambda>n l. l = T n"])
    have "(\<lambda>i. if a \<le> i \<and> i < a then u4 (tbl24 lpm i) else tbl24 lpm i) = tbl24 lpm"
        "(\<lambda>x. if \<exists>i. a \<le> i \<and> i < a \<and> q (tbl24 lpm i) \<and> in_group (tbl24 lpm i) x then u8 (tbl8 lpm x) else tbl8 lpm x) = tbl8 lpm"
      by (auto simp: fun_eq_iff)
    then show "lpm = T a" by (simp add: T_def)
    show "a \<le> b" by (rule b(1))
    fix n l assume n: "a \<le> n" "n < b" "l = T n"
    have e: "tbl24 (T n) n = tbl24 lpm n" by (simp add: T_def)
    have len: "tbl8_len (T n) = tbl8_len lpm" by (simp add: T_def)
    have "f n (T n) = Some ((T n)\<lparr>tbl24 := (tbl24 (T n))(n := u4 (tbl24 lpm n)),
        tbl8 := \<lambda>x. if q (tbl24 lpm n) \<and> in_group (tbl24 lpm n) x then u8 (tbl8 (T n) x) else tbl8 (T n) x\<rparr>)"
      using step [of n "T n", unfolded e len] n b(2) g [of n] by simp
    moreover have "(tbl24 (T n))(n := u4 (tbl24 lpm n)) = tbl24 (T (Suc n))"
      using n by (auto simp: T_def fun_eq_iff less_Suc_eq)
    moreover have "(\<lambda>x. if q (tbl24 lpm n) \<and> in_group (tbl24 lpm n) x then u8 (tbl8 (T n) x) else tbl8 (T n) x) = tbl8 (T (Suc n))"
    proof
      fix x
      have t: "tbl8 (T m) x = (if \<exists>i. a \<le> i \<and> i < m \<and> q (tbl24 lpm i) \<and> in_group (tbl24 lpm i) x then u8 (tbl8 lpm x) else tbl8 lpm x)"
        for m by (simp add: T_def)
      show "(if q (tbl24 lpm n) \<and> in_group (tbl24 lpm n) x then u8 (tbl8 (T n) x) else tbl8 (T n) x) = tbl8 (T (Suc n)) x"
      proof (cases "q (tbl24 lpm n) \<and> in_group (tbl24 lpm n) x")
        case True
        have "\<not> (\<exists>i. a \<le> i \<and> i < n \<and> q (tbl24 lpm i) \<and> in_group (tbl24 lpm i) x)"
        proof
          assume "\<exists>i. a \<le> i \<and> i < n \<and> q (tbl24 lpm i) \<and> in_group (tbl24 lpm i) x"
          then obtain i where i: "a \<le> i" "i < n" "q (tbl24 lpm i)" "in_group (tbl24 lpm i) x" by blast
          then have "i = n" using inj [of i n] n True by simp
          with i show False by simp
        qed
        then have "tbl8 (T n) x = tbl8 lpm x" unfolding t by (rule if_not_P)
        moreover have "\<exists>i. a \<le> i \<and> i < Suc n \<and> q (tbl24 lpm i) \<and> in_group (tbl24 lpm i) x" using True n by blast
        then have "tbl8 (T (Suc n)) x = u8 (tbl8 lpm x)" unfolding t by (rule if_P)
        ultimately show ?thesis using True by simp
      next
        case False
        then have "(\<exists>i. a \<le> i \<and> i < Suc n \<and> q (tbl24 lpm i) \<and> in_group (tbl24 lpm i) x) =
            (\<exists>i. a \<le> i \<and> i < n \<and> q (tbl24 lpm i) \<and> in_group (tbl24 lpm i) x)" by (metis less_Suc_eq)
        then have "tbl8 (T (Suc n)) x = tbl8 (T n) x" unfolding t by (simp only:)
        then show ?thesis unfolding if_not_P [OF False] by (rule sym)
      qed
    qed
    ultimately have "f n (T n) = Some ((T n)\<lparr>tbl24 := tbl24 (T (Suc n)), tbl8 := tbl8 (T (Suc n))\<rparr>)" by simp
    also have "(T n)\<lparr>tbl24 := tbl24 (T (Suc n)), tbl8 := tbl8 (T (Suc n))\<rparr> = T (Suc n)" by (simp add: T_def)
    finally show "\<exists>s'. f n l = Some s' \<and> s' = T (Suc n)" using n(3) by simp
  qed
  then show ?thesis by (simp add: T_def)
qed

section \<open>Short prefixes\<close>

text \<open>What an addition and a deletion do to an entry.\<close>

definition upd_add :: "u8 \<Rightarrow> u32 \<Rightarrow> bool \<Rightarrow> rte_lpm_tbl_entry \<Rightarrow> rte_lpm_tbl_entry" where
  "upd_add depth h g e = (if \<not> te_valid e \<or> te_depth e \<le> ucast depth
     then \<lparr>te_next_hop = ucast h, te_valid = True, te_valid_group = g, te_depth = ucast depth\<rparr> else e)"

definition upd_del :: "u8 \<Rightarrow> (24 word \<times> 6 word) option \<Rightarrow> bool \<Rightarrow> rte_lpm_tbl_entry \<Rightarrow> rte_lpm_tbl_entry" where
  "upd_del depth sub g e = (if te_depth e \<le> ucast depth
     then case sub of None \<Rightarrow> e\<lparr>te_valid := False\<rparr>
       | Some (h, d) \<Rightarrow> \<lparr>te_next_hop = h, te_valid = True, te_valid_group = g, te_depth = d\<rparr>
     else e)"

lemma tbl8_same [simp]: "lpm\<lparr>tbl8 := tbl8 lpm\<rparr> = lpm" "lpm\<lparr>tbl8 := (tbl8 lpm)(j := tbl8 lpm j)\<rparr> = lpm"
  by simp_all

lemma tbl24_same [simp]: "lpm\<lparr>tbl24 := tbl24 lpm\<rparr> = lpm" "lpm\<lparr>tbl24 := (tbl24 lpm)(j := tbl24 lpm j)\<rparr> = lpm"
  by simp_all

lemma add_entry8_eq:
  "j < tbl8_len l \<Longrightarrow> add_entry8 depth h j l = Some (l\<lparr>tbl8 := (tbl8 l)(j := upd_add depth h True (tbl8 l j))\<rparr>)"
  by (simp add: add_entry8_def upd_add_def rd8_def wr8_def)

lemma del_entry8_eq:
  "j < tbl8_len l \<Longrightarrow> del_entry8 depth sub g j l = Some (l\<lparr>tbl8 := (tbl8 l)(j := upd_del depth sub g (tbl8 l j))\<rparr>)"
  by (simp add: del_entry8_def upd_del_def rd8_def wr8_def split: option.splits)

lemma add_ext8_eq:
  "j < tbl8_len l \<Longrightarrow> add_ext8 depth h j l = Some (l\<lparr>tbl8 := (tbl8 l)(j := upd_add depth h (te_valid_group (tbl8 l j)) (tbl8 l j))\<rparr>)"
  by (simp add: add_ext8_def upd_add_def rd8_def wr8_def)

lemma set_entry8_eq:
  "j < tbl8_len l \<Longrightarrow> set_entry8 d h j l = Some (l\<lparr>tbl8 := (tbl8 l)(j := (tbl8 l j)\<lparr>te_valid := True, te_depth := d, te_next_hop := h\<rparr>)\<rparr>)"
  by (simp add: set_entry8_def rd8_def wr8_def)

lemma group_range: "x div 256 = g \<longleftrightarrow> g * 256 \<le> x \<and> x < g * 256 + (256 :: nat)"
  by (auto simp: div_nat_eqI)

text \<open>The step of the first loop of an addition, and of a deletion, on one entry of the first table.\<close>

lemma add_entry24_eq:
  assumes "i < 2 ^ 24" "xt (tbl24 l i) \<Longrightarrow> 256 * group_idx (tbl24 l i) + 256 \<le> tbl8_len l"
  shows "add_entry24 depth h i l = Some (l\<lparr>
    tbl24 := (tbl24 l)(i := (if xt (tbl24 l i) then tbl24 l i else upd_add depth h False (tbl24 l i))),
    tbl8 := \<lambda>x. if xt (tbl24 l i) \<and> in_group (tbl24 l i) x then upd_add depth h True (tbl8 l x) else tbl8 l x\<rparr>)"
proof (cases "xt (tbl24 l i)")
  case True
  let ?s = "group_idx (tbl24 l i) * 256"
  have fr: "for_range ?s (?s + 256) (add_entry8 depth h) l =
      Some (l\<lparr>tbl8 := \<lambda>x. if ?s \<le> x \<and> x < ?s + 256 then upd_add depth h True (tbl8 l x) else tbl8 l x\<rparr>)"
    by (rule loop8 [OF add_entry8_eq]) (use assms(2) [OF True] in auto)
  have "(q \<and> in_group (tbl24 l i) x) = (?s \<le> x \<and> x < ?s + 256)" if q for x q using group_range [of x "group_idx (tbl24 l i)"] that by auto
  note gr = this [OF True]
  have "add_entry24 depth h i l = for_range ?s (?s + 256) (add_entry8 depth h) l" using True assms(1)
    by (simp add: add_entry24_def rd24_def RTE_LPM_TBL24_NUM_ENTRIES_def RTE_LPM_TBL8_GROUP_NUM_ENTRIES_def xt_def Let_def)
  then show ?thesis unfolding fr gr by (simp only: True if_True fun_upd_triv tbl24_same)
next
  case False
  then show ?thesis using assms(1)
    by (auto simp: add_entry24_def rd24_def wr24_def upd_add_def RTE_LPM_TBL24_NUM_ENTRIES_def xt_def)
qed

lemma del_entry24_eq:
  assumes "i < 2 ^ 24" "te_valid_group (tbl24 l i) \<Longrightarrow> 256 * group_idx (tbl24 l i) + 256 \<le> tbl8_len l"
  shows "del_entry24 depth sub i l = Some (l\<lparr>
    tbl24 := (tbl24 l)(i := (if te_valid_group (tbl24 l i) then tbl24 l i else upd_del depth sub False (tbl24 l i))),
    tbl8 := \<lambda>x. if te_valid_group (tbl24 l i) \<and> in_group (tbl24 l i) x then upd_del depth sub True (tbl8 l x) else tbl8 l x\<rparr>)"
proof (cases "te_valid_group (tbl24 l i)")
  case True
  let ?s = "group_idx (tbl24 l i) * 256"
  have fr: "for_range ?s (?s + 256) (del_entry8 depth sub True) l =
      Some (l\<lparr>tbl8 := \<lambda>x. if ?s \<le> x \<and> x < ?s + 256 then upd_del depth sub True (tbl8 l x) else tbl8 l x\<rparr>)"
    by (rule loop8 [OF del_entry8_eq]) (use assms(2) [OF True] in auto)
  have "(q \<and> in_group (tbl24 l i) x) = (?s \<le> x \<and> x < ?s + 256)" if q for x q using group_range [of x "group_idx (tbl24 l i)"] that by auto
  note gr = this [OF True]
  have "del_entry24 depth sub i l = for_range ?s (?s + 256) (del_entry8 depth sub True) l" using True assms(1)
    by (simp add: del_entry24_def rd24_def RTE_LPM_TBL24_NUM_ENTRIES_def RTE_LPM_TBL8_GROUP_NUM_ENTRIES_def xt_def Let_def)
  then show ?thesis unfolding fr gr by (simp only: True if_True fun_upd_triv tbl24_same)
next
  case False
  then show ?thesis using assms(1)
    by (simp add: del_entry24_def rd24_def wr24_def upd_del_def RTE_LPM_TBL24_NUM_ENTRIES_def split: option.splits)
qed
text \<open>Only the lookup tables differ.\<close>

definition same_rules :: "rte_lpm \<Rightarrow> rte_lpm \<Rightarrow> bool" where
  "same_rules lpm lpm' \<longleftrightarrow> rule_info lpm' = rule_info lpm \<and> rules_tbl lpm' = rules_tbl lpm \<and> rules_len lpm' = rules_len lpm \<and>
     max_rules lpm' = max_rules lpm \<and> number_tbl8s lpm' = number_tbl8s lpm \<and> tbl8_len lpm' = tbl8_len lpm \<and> lpm_name lpm' = lpm_name lpm"

lemma same_rules_rep: "rules_rep lpm R \<Longrightarrow> same_rules lpm lpm' \<Longrightarrow> rules_rep lpm' R"
  by (simp add: rules_rep_def placed_def off_def same_rules_def)

lemma same_tables_rep: "tables_rep lpm R \<Longrightarrow> same_tables lpm lpm' \<Longrightarrow> tables_rep lpm' R"
proof -
  assume "tables_rep lpm R" and s: "same_tables lpm lpm'"
  moreover have "slot lpm' ip = slot lpm ip" for ip using s by (simp add: slot_def Let_def same_tables_def)
  ultimately show ?thesis by (simp add: tables_rep_def same_tables_def)
qed

lemma tables_repD:
  assumes "tables_rep lpm R"
  shows "256 * groups lpm \<le> tbl8_len lpm" "groups lpm \<le> 2 ^ 24"
    "\<And>i. i < 2 ^ 24 \<Longrightarrow> xt (tbl24 lpm i) = long R i"
    "\<And>i. i < 2 ^ 24 \<Longrightarrow> xt (tbl24 lpm i) \<Longrightarrow> group_idx (tbl24 lpm i) < groups lpm"
    "\<And>i. i < 2 ^ 24 \<Longrightarrow> xt (tbl24 lpm i) \<Longrightarrow> te_valid_group (tbl8 lpm (256 * group_idx (tbl24 lpm i)))"
    "\<And>i j. i < 2 ^ 24 \<Longrightarrow> j < 2 ^ 24 \<Longrightarrow> xt (tbl24 lpm i) \<Longrightarrow> xt (tbl24 lpm j) \<Longrightarrow>
      group_idx (tbl24 lpm i) = group_idx (tbl24 lpm j) \<Longrightarrow> i = j"
    "\<And>g. g < groups lpm \<Longrightarrow> te_valid_group (tbl8 lpm (256 * g)) \<Longrightarrow> \<exists>i < 2 ^ 24. xt (tbl24 lpm i) \<and> group_idx (tbl24 lpm i) = g"
    "\<And>ip. desc (slot lpm ip) (best R ip 32)"
  using assms unfolding tables_rep_def by blast+

lemma group_fits:
  assumes "tables_rep lpm R" "i < 2 ^ 24" "xt (tbl24 lpm i)"
  shows "256 * group_idx (tbl24 lpm i) + 256 \<le> tbl8_len lpm"
proof -
  have "256 * Suc (group_idx (tbl24 lpm i)) \<le> 256 * groups lpm"
    using tables_repD(4) [OF assms] by (intro mult_le_mono2) simp
  then show ?thesis using tables_repD(1) [OF assms(1)] by simp
qed

lemma tables_small:
  assumes T: "tables_rep lpm R" and b: "b \<le> 2 ^ 24"
    and l: "lpm' = lpm\<lparr>tbl24 := \<lambda>i. if a \<le> i \<and> i < b then (if xt (tbl24 lpm i) then tbl24 lpm i else U False (tbl24 lpm i)) else tbl24 lpm i,
      tbl8 := \<lambda>x. if \<exists>i. a \<le> i \<and> i < b \<and> xt (tbl24 lpm i) \<and> in_group (tbl24 lpm i) x then U True (tbl8 lpm x) else tbl8 lpm x\<rparr>"
    and vg: "\<And>e. te_valid_group e \<Longrightarrow> te_valid_group (U True e)"
    and nx: "\<And>i. a \<le> i \<Longrightarrow> i < b \<Longrightarrow> \<not> xt (tbl24 lpm i) \<Longrightarrow> \<not> xt (U False (tbl24 lpm i))"
    and R': "\<And>i. long R' i = long R i" "\<And>ip. \<not> (a \<le> block ip \<and> block ip < b) \<Longrightarrow> best R' ip 32 = best R ip 32"
    and cov: "\<And>ip f. a \<le> block ip \<Longrightarrow> block ip < b \<Longrightarrow> desc (U f (slot lpm ip)) (best R' ip 32)"
  shows "tables_rep lpm' R'"
proof -
  note D = tables_repD [OF T]
  have t24: "tbl24 lpm' i = (if a \<le> i \<and> i < b \<and> \<not> xt (tbl24 lpm i) then U False (tbl24 lpm i) else tbl24 lpm i)" for i by (simp add: l)
  have t8: "tbl8 lpm' x = (if \<exists>i. a \<le> i \<and> i < b \<and> xt (tbl24 lpm i) \<and> in_group (tbl24 lpm i) x then U True (tbl8 lpm x) else tbl8 lpm x)" for x
    by (simp add: l)
  have x: "xt (tbl24 lpm' i) = xt (tbl24 lpm i)" for i using nx [of i] by (simp add: t24)
  have same: "tbl24 lpm' i = tbl24 lpm i" if "xt (tbl24 lpm i)" for i using that by (simp add: t24)
  have n: "number_tbl8s lpm' = number_tbl8s lpm" "tbl8_len lpm' = tbl8_len lpm" by (simp_all add: l)
  have heads: "te_valid_group (tbl8 lpm k) \<Longrightarrow> te_valid_group (tbl8 lpm' k)" for k using vg by (simp add: t8)
  show ?thesis unfolding tables_rep_def n
  proof (intro conjI allI impI)
    show "256 * groups lpm \<le> tbl8_len lpm" "groups lpm \<le> 2 ^ 24" by (rule D(1), rule D(2))
    fix i :: nat assume i: "i < 2 ^ 24"
    show "xt (tbl24 lpm' i) = long R' i" using D(3) [OF i] x R'(1) by simp
    show "group_idx (tbl24 lpm' i) < groups lpm" "te_valid_group (tbl8 lpm' (256 * group_idx (tbl24 lpm' i)))" if "xt (tbl24 lpm' i)"
      using D(4,5) [OF i] that x same heads by simp_all
    fix j :: nat assume "j < 2 ^ 24" "xt (tbl24 lpm' i)" "xt (tbl24 lpm' j)" "group_idx (tbl24 lpm' i) = group_idx (tbl24 lpm' j)"
    then show "i = j" using D(6) [OF i] x same by simp
  next
    fix g assume g: "g < groups lpm" "te_valid_group (tbl8 lpm' (256 * g))"
    show "\<exists>i < 2 ^ 24. xt (tbl24 lpm' i) \<and> group_idx (tbl24 lpm' i) = g"
    proof (cases "\<exists>i. a \<le> i \<and> i < b \<and> xt (tbl24 lpm i) \<and> in_group (tbl24 lpm i) (256 * g)")
      case True
      then obtain i where "i < b" "xt (tbl24 lpm i)" "group_idx (tbl24 lpm i) = g" by auto
      then show ?thesis using b x same by (intro exI [of _ i]) simp
    next
      case False
      then have "tbl8 lpm' (256 * g) = tbl8 lpm (256 * g)" unfolding t8 by (rule if_not_P)
      then obtain i where "i < 2 ^ 24" "xt (tbl24 lpm i)" "group_idx (tbl24 lpm i) = g" using D(7) g by auto
      then show ?thesis using x same by (intro exI [of _ i]) simp
    qed
  next
    fix ip
    let ?i = "block ip" let ?x = "256 * group_idx (tbl24 lpm ?i) + low ip"
    have dx: "?x div 256 = group_idx (tbl24 lpm ?i)" by simp
    show "desc (slot lpm' ip) (best R' ip 32)"
    proof (cases "a \<le> ?i \<and> ?i < b")
      case True
      show ?thesis
      proof (cases "xt (tbl24 lpm ?i)")
        case xt: True
        have "\<exists>i. a \<le> i \<and> i < b \<and> xt (tbl24 lpm i) \<and> in_group (tbl24 lpm i) ?x" using True xt dx by auto
        then have "tbl8 lpm' ?x = U True (tbl8 lpm ?x)" unfolding t8 by (rule if_P)
        then have "slot lpm' ip = U True (slot lpm ip)" using xt x same [OF xt] by (simp add: slot_def Let_def)
        then show ?thesis using cov True by simp
      next
        case False
        then have "slot lpm' ip = U False (slot lpm ip)" using True nx [of ?i] by (simp add: slot_def Let_def t24)
        then show ?thesis using cov True by simp
      qed
    next
      case False
      have "slot lpm' ip = slot lpm ip"
      proof (cases "xt (tbl24 lpm ?i)")
        case xt: True
        have "\<not> (\<exists>i. a \<le> i \<and> i < b \<and> xt (tbl24 lpm i) \<and> in_group (tbl24 lpm i) ?x)"
        proof
          assume "\<exists>i. a \<le> i \<and> i < b \<and> xt (tbl24 lpm i) \<and> in_group (tbl24 lpm i) ?x"
          then obtain i where i: "a \<le> i" "i < b" "xt (tbl24 lpm i)" "in_group (tbl24 lpm i) ?x" by blast
          have "group_idx (tbl24 lpm i) = group_idx (tbl24 lpm ?i)" using i(4) unfolding dx .
          moreover have "i < 2 ^ 24" using i(2) b by linarith
          ultimately have "i = ?i" using D(6) [OF _ block_less i(3) xt] by blast
          with i False show False by blast
        qed
        then have "tbl8 lpm' ?x = tbl8 lpm ?x" unfolding t8 by (rule if_not_P)
        then show ?thesis using xt x same [OF xt] by (simp add: slot_def Let_def)
      next
        case nxt: False
        then show ?thesis using False x by (auto simp: slot_def Let_def t24)
      qed
      then show ?thesis using D(8) [of ip] R'(2) [OF False] by simp
    qed
  qed
qed

section \<open>Which addresses a rule covers\<close>

lemma range_eq:
  assumes "1 \<le> d" "d \<le> 32"
  shows "depth_to_range (of_nat d) = (if d \<le> 24 then 2 ^ (24 - d) else 2 ^ (32 - d))"
proof -
  have u: "unat (of_nat d :: u8) = d" using assms by (intro unat_of_nat_small) simp
  then have le: "(of_nat d :: u8) \<le> 24 \<longleftrightarrow> d \<le> 24" by (simp add: word_le_nat_alt)
  have "unat ((24 :: u8) - of_nat d) = 24 - d" if "d \<le> 24" using le that u by (simp add: unat_sub_simple)
  moreover have "unat ((32 :: u8) - of_nat d) = 32 - d" using assms u by (subst unat_sub_simple) (simp_all add: word_le_nat_alt)
  ultimately show ?thesis using le by (simp add: depth_to_range_def MAX_DEPTH_TBL24_def RTE_LPM_MAX_DEPTH_def)
qed

lemma covers_pfx:
  assumes "1 \<le> d" "d \<le> 32" "p AND depth_to_mask (of_nat d) = p"
  shows "covers d p ip \<longleftrightarrow> pfx d ip = pfx d p"
  using masked_iff [OF assms(1,2), of ip p] assms(3) by (simp add: covers_def)

lemma unat_prefix:
  assumes "1 \<le> d" "d \<le> 32" "p AND depth_to_mask (of_nat d) = p"
  shows "unat p = pfx d p * 2 ^ (32 - d)"
  using unat_masked [OF assms(1,2), of p] assms(3) by simp

lemma div_range: "0 < m \<Longrightarrow> n div m = k \<longleftrightarrow> k * m \<le> n \<and> n < k * m + (m :: nat)"
  by (metis add.commute div_nat_eqI div_times_less_eq_dividend dividend_less_div_times mult.commute mult_Suc)

lemma covers_small:
  assumes "1 \<le> d" "d \<le> 24" "p AND depth_to_mask (of_nat d) = p"
  shows "covers d p ip \<longleftrightarrow> block p \<le> block ip \<and> block ip < block p + depth_to_range (of_nat d)"
    "block p + depth_to_range (of_nat d) \<le> 2 ^ 24"
proof -
  have d: "d \<le> 32" using assms(2) by simp
  have e: "(2 :: nat) ^ (32 - d) = 256 * 2 ^ (24 - d)"
  proof -
    have "32 - d = 8 + (24 - d)" using assms(2) by simp
    then have "(2 :: nat) ^ (32 - d) = 2 ^ 8 * 2 ^ (24 - d)" by (simp only: power_add)
    then show ?thesis by simp
  qed
  have px: "pfx d x = block x div 2 ^ (24 - d)" for x by (simp add: pfx_def e div_mult2_eq)
  have bp: "block p = pfx d p * 2 ^ (24 - d)" using unat_prefix [OF assms(1) d assms(3)] by (simp add: e)
  have r: "depth_to_range (of_nat d) = 2 ^ (24 - d)" using range_eq [OF assms(1) d] assms(2) by simp
  show "covers d p ip \<longleftrightarrow> block p \<le> block ip \<and> block ip < block p + depth_to_range (of_nat d)"
    unfolding covers_pfx [OF assms(1) d assms(3)] r bp px [of ip] by (rule div_range) simp
  have f: "(2 :: nat) ^ d * 2 ^ (24 - d) = 2 ^ 24" unfolding power_add [symmetric] using assms(2) by simp
  have "pfx d p < 2 ^ d"
  proof -
    have "block p < 2 ^ d * 2 ^ (24 - d)" unfolding f by (rule block_less)
    then show ?thesis unfolding px by (rule less_mult_imp_div_less)
  qed
  then have "Suc (pfx d p) * 2 ^ (24 - d) \<le> 2 ^ d * 2 ^ (24 - d)" by (intro mult_le_mono1) simp
  then show "block p + depth_to_range (of_nat d) \<le> 2 ^ 24" unfolding r bp f by simp
qed

lemma covers_big:
  assumes "24 < d" "d \<le> 32" "p AND depth_to_mask (of_nat d) = p"
  shows "covers d p ip \<longleftrightarrow> block ip = block p \<and> low p \<le> low ip \<and> low ip < low p + depth_to_range (of_nat d)"
    "low p + depth_to_range (of_nat d) \<le> 256"
proof -
  have d: "1 \<le> d" using assms(1) by simp
  define m where "m = (2 ^ (32 - d) :: nat)"
  define k where "k = (2 ^ (d - 24) :: nat)"
  have e: "256 = m * k" unfolding m_def k_def power_add [symmetric] using assms(1,2) by simp
  have m0: "0 < m" "0 < k" by (simp_all add: m_def k_def)
  have r: "depth_to_range (of_nat d) = m" using range_eq [OF d assms(2)] assms(1) by (simp add: m_def)
  have px: "pfx d x = unat x div m" for x by (simp add: pfx_def m_def)
  have lo: "low x div m = pfx d x mod k" for x unfolding e px using m0 by (simp add: mod_mult2_eq)
  have bl: "block x = pfx d x div k" for x unfolding e px by (simp add: div_mult2_eq)
  have up: "unat p = m * pfx d p" using unat_prefix [OF d assms(2,3)] by (simp add: m_def)
  have lp: "low p = (pfx d p mod k) * m" unfolding e up by (simp add: mod_mult_mult1)
  have "pfx d ip = pfx d p \<longleftrightarrow> block ip = block p \<and> low ip div m = pfx d p mod k"
    unfolding bl lo by (metis div_mult_mod_eq)
  moreover have "low ip div m = pfx d p mod k \<longleftrightarrow> low p \<le> low ip \<and> low ip < low p + m"
    unfolding lp using m0(1) by (rule div_range)
  ultimately show "covers d p ip \<longleftrightarrow> block ip = block p \<and> low p \<le> low ip \<and> low ip < low p + depth_to_range (of_nat d)"
    using covers_pfx [OF d assms(2,3)] r by simp
  have "Suc (pfx d p mod k) * m \<le> k * m" using m0 by (intro mult_le_mono1) (simp add: Suc_leI)
  then have "pfx d p mod k * m + m \<le> 256" using e by (simp add: mult.commute)
  then show "low p + depth_to_range (of_nat d) \<le> 256" unfolding r lp .
qed
section \<open>Updated entries\<close>

lemma depth_conv: "d \<le> 32 \<Longrightarrow> (ucast (of_nat d :: u8) :: 6 word) = of_nat d"
  by (simp add: word_unat_eq_iff unsigned_ucast_eq unat_of_nat take_bit_nat_eq_self)

lemma depth_le: "d \<le> 32 \<Longrightarrow> e \<le> 32 \<Longrightarrow> (of_nat d :: 6 word) \<le> of_nat e \<longleftrightarrow> d \<le> e"
  by (simp add: word_le_nat_alt unat_of_nat take_bit_nat_eq_self)

lemma best_le: "best R ip 32 = Some (d, h) \<Longrightarrow> 1 \<le> d \<and> d \<le> 32"
  using best_range by blast

lemma desc_add:
  assumes "desc e b" "\<And>d' h'. b = Some (d', h') \<Longrightarrow> d' \<le> 32" "d \<le> 32"
  shows "desc (upd_add (of_nat d) h g e)
    (case b of Some (d', h') \<Rightarrow> if d < d' then Some (d', h') else Some (d, h) | None \<Rightarrow> Some (d, h))"
proof (cases b)
  case None
  then show ?thesis using assms by (simp add: desc_def upd_add_def depth_conv)
next
  case (Some x)
  then obtain d' h' where x: "b = Some (d', h')" by (cases x) auto
  then have "te_valid e" "te_depth e = of_nat d'" "te_next_hop e = ucast h'" using assms(1) by (simp_all add: desc_def)
  then show ?thesis using x assms(2) [OF x] assms(3) by (simp add: desc_def upd_add_def depth_conv depth_le)
qed

text \<open>The replacement of a deleted rule, as the code passes it on.\<close>

definition sub_of :: "(nat \<times> u32) option \<Rightarrow> (24 word \<times> 6 word) option" where
  "sub_of b = map_option (\<lambda>(d, h). (ucast h, of_nat d)) b"

lemma desc_del:
  assumes "desc e (Some (d', h'))" "d \<le> d'" "d' \<le> 32"
  shows "desc (upd_del (of_nat d) (sub_of b) g e) (if d < d' then Some (d', h') else b)"
proof -
  have e: "te_valid e" "te_depth e = of_nat d'" "te_next_hop e = ucast h'" using assms(1) by (simp_all add: desc_def)
  show ?thesis
  proof (cases "d < d'")
    case True
    then show ?thesis using e assms by (simp add: desc_def upd_del_def depth_conv depth_le)
  next
    case False
    then show ?thesis using e assms by (auto simp: desc_def upd_del_def depth_conv depth_le sub_of_def split: option.splits)
  qed
qed

lemma upd_add_group: "te_valid_group e \<Longrightarrow> te_valid_group (upd_add d h True e)"
  by (simp add: upd_add_def)

lemma upd_del_group: "te_valid_group e \<Longrightarrow> te_valid_group (upd_del d b True e)"
  by (simp add: upd_del_def split: option.splits)

lemma long_small:
  assumes "d \<le> 24"
  shows "long (R(d := f)) i = long R i"
proof -
  have "(24 < e \<and> block ip = i \<and> (R(d := f)) e (ip AND depth_to_mask (of_nat e)) \<noteq> None) =
      (24 < e \<and> block ip = i \<and> R e (ip AND depth_to_mask (of_nat e)) \<noteq> None)" for e ip using assms by auto
  then show ?thesis unfolding long_def by (simp only:)
qed

lemma wf_rules_add:
  "wf_rules R \<Longrightarrow> 1 \<le> d \<Longrightarrow> d \<le> 32 \<Longrightarrow> p AND depth_to_mask (of_nat d) = p \<Longrightarrow> wf_rules (R(d := (R d)(p \<mapsto> h)))"
  by (auto simp: wf_rules_def)

lemma wf_rules_delete: "wf_rules R \<Longrightarrow> wf_rules (R(d := (R d)(p := None)))"
  by (auto simp: wf_rules_def)

section \<open>Adding and deleting short prefixes\<close>

lemma add_small_ok:
  assumes T: "tables_rep lpm R" and d: "1 \<le> d" "d \<le> 24" "p AND depth_to_mask (of_nat d) = p"
  shows "\<exists>lpm'. add_depth_small lpm p (of_nat d) h = Some lpm' \<and> same_rules lpm lpm' \<and> tables_rep lpm' (R(d := (R d)(p \<mapsto> h)))"
proof -
  let ?a = "block p" let ?b = "block p + depth_to_range (of_nat d)"
  let ?R = "R(d := (R d)(p \<mapsto> h))"
  let ?U = "upd_add (of_nat d) h"
  note cov = covers_small [OF d]
  note D = tables_repD [OF T]
  define lpm' where "lpm' = lpm\<lparr>tbl24 := \<lambda>i. if ?a \<le> i \<and> i < ?b then (if xt (tbl24 lpm i) then tbl24 lpm i else ?U False (tbl24 lpm i)) else tbl24 lpm i,
      tbl8 := \<lambda>x. if \<exists>i. ?a \<le> i \<and> i < ?b \<and> xt (tbl24 lpm i) \<and> in_group (tbl24 lpm i) x then ?U True (tbl8 lpm x) else tbl8 lpm x\<rparr>"
  have below: "i < 2 ^ 24" if "i < ?b" for i using that cov(2) by linarith
  have "for_range ?a ?b (add_entry24 (of_nat d) h) lpm = Some lpm'" unfolding lpm'_def
  proof (rule loop24)
    show "?a \<le> ?b" "?b \<le> 2 ^ 24" using cov(2) by simp_all
    show "256 * group_idx (tbl24 lpm i) + 256 \<le> tbl8_len lpm" if "?a \<le> i" "i < ?b" "xt (tbl24 lpm i)" for i
      using group_fits [OF T below [OF that(2)] that(3)] .
    show "i = j" if "?a \<le> i" "i < ?b" "?a \<le> j" "j < ?b" "xt (tbl24 lpm i)" "xt (tbl24 lpm j)" "group_idx (tbl24 lpm i) = group_idx (tbl24 lpm j)" for i j
      using D(6) [OF below [OF that(2)] below [OF that(4)] that(5-7)] .
  qed (rule add_entry24_eq)
  then have "add_depth_small lpm p (of_nat d) h = Some lpm'" by (simp add: add_depth_small_def tbl24_index_eq)
  moreover have "same_rules lpm lpm'" by (simp add: same_rules_def lpm'_def)
  moreover have "tables_rep lpm' ?R"
  proof (rule tables_small [OF T cov(2) lpm'_def, where R' = ?R])
    show "te_valid_group (?U True e)" if "te_valid_group e" for e using that by (rule upd_add_group)
    show "\<not> xt (?U False (tbl24 lpm i))" if "\<not> xt (tbl24 lpm i)" for i using that by (simp add: upd_add_def xt_def)
    show "long ?R i = long R i" for i by (rule long_small) (rule d(2))
    show "best ?R ip 32 = best R ip 32" if "\<not> (?a \<le> block ip \<and> block ip < ?b)" for ip
      by (rule best_other) (use that cov(1) in simp)
    show "desc (?U f (slot lpm ip)) (best ?R ip 32)" if "?a \<le> block ip" "block ip < ?b" for ip f
    proof -
      have "covers d p ip" using that cov(1) by simp
      moreover have "d \<le> 32" using d(2) by simp
      ultimately show ?thesis using desc_add [OF D(8) [of ip], of d h f] best_le [of R ip] by (subst best_add [OF _ d(1)]) auto
    qed
  qed
  ultimately show ?thesis by blast
qed

text \<open>Every address of a rule has an entry.\<close>

lemma covered_valid:
  assumes T: "tables_rep lpm R" and d: "1 \<le> d" "d \<le> 32" and c: "covers d p ip" "R d p = Some h"
  shows "\<exists>d' h'. best R ip 32 = Some (d', h') \<and> d \<le> d' \<and> d' \<le> 32 \<and> te_valid (slot lpm ip)"
proof -
  obtain d' h' where b: "best R ip 32 = Some (d', h')" "d \<le> d'"
    using best_ge [of R d ip h 32] c d by (auto simp: covers_def)
  then have "te_valid (slot lpm ip)" using tables_repD(8) [OF T, of ip] by (simp add: desc_def)
  then show ?thesis using b best_le [OF b(1)] by simp
qed

lemma block_ex: "i < 2 ^ 24 \<Longrightarrow> \<exists>ip. block ip = i \<and> low ip = 0"
proof -
  assume "i < 2 ^ 24"
  then have u: "unat (of_nat (i * 256) :: u32) = i * 256" by (intro unat_of_nat_small) simp
  show ?thesis by (intro exI [of _ "of_nat (i * 256)"]) (simp only: u, simp)
qed

lemma delete_small_ok:
  assumes T: "tables_rep lpm R" and d: "1 \<le> d" "d \<le> 24" "p AND depth_to_mask (of_nat d) = p" and h: "R d p = Some h"
    and s: "sub_entry lpm sub = Some (sub_of (best R p (d - 1)))"
  shows "\<exists>lpm'. delete_depth_small lpm p (of_nat d) sub = Some lpm' \<and> same_rules lpm lpm' \<and> tables_rep lpm' (R(d := (R d)(p := None)))"
proof -
  let ?a = "block p" let ?b = "block p + depth_to_range (of_nat d)"
  let ?R = "R(d := (R d)(p := None))"
  let ?S = "sub_of (best R p (d - 1))"
  let ?U = "upd_del (of_nat d) ?S"
  note cov = covers_small [OF d]
  note D = tables_repD [OF T]
  have d32: "d \<le> 32" using d(2) by simp
  have below: "i < 2 ^ 24" if "i < ?b" for i using that cov(2) by linarith
  have q: "te_valid_group (tbl24 lpm i) = xt (tbl24 lpm i)" if i: "?a \<le> i" "i < ?b" for i
  proof -
    obtain ip where ip: "block ip = i" using block_ex [OF below [OF i(2)]] by blast
    then have "covers d p ip" using cov(1) i by simp
    from covered_valid [OF T d(1) d32 this h] have "te_valid (slot lpm ip)" by blast
    then show ?thesis using ip by (auto simp: slot_def Let_def xt_def split: if_splits)
  qed
  define lpm' where "lpm' = lpm\<lparr>tbl24 := \<lambda>i. if ?a \<le> i \<and> i < ?b then (if xt (tbl24 lpm i) then tbl24 lpm i else ?U False (tbl24 lpm i)) else tbl24 lpm i,
      tbl8 := \<lambda>x. if \<exists>i. ?a \<le> i \<and> i < ?b \<and> xt (tbl24 lpm i) \<and> in_group (tbl24 lpm i) x then ?U True (tbl8 lpm x) else tbl8 lpm x\<rparr>"
  have "for_range ?a ?b (del_entry24 (of_nat d) ?S) lpm =
      Some (lpm\<lparr>tbl24 := \<lambda>i. if ?a \<le> i \<and> i < ?b then (if te_valid_group (tbl24 lpm i) then tbl24 lpm i else ?U False (tbl24 lpm i)) else tbl24 lpm i,
      tbl8 := \<lambda>x. if \<exists>i. ?a \<le> i \<and> i < ?b \<and> te_valid_group (tbl24 lpm i) \<and> in_group (tbl24 lpm i) x then ?U True (tbl8 lpm x) else tbl8 lpm x\<rparr>)"
  proof (rule loop24)
    show "?a \<le> ?b" "?b \<le> 2 ^ 24" using cov(2) by simp_all
    show "256 * group_idx (tbl24 lpm i) + 256 \<le> tbl8_len lpm" if "?a \<le> i" "i < ?b" "te_valid_group (tbl24 lpm i)" for i
      using group_fits [OF T below [OF that(2)]] that(3) q [OF that(1,2)] by blast
    show "i = j" if "?a \<le> i" "i < ?b" "?a \<le> j" "j < ?b" "te_valid_group (tbl24 lpm i)" "te_valid_group (tbl24 lpm j)"
      "group_idx (tbl24 lpm i) = group_idx (tbl24 lpm j)" for i j
      using D(6) [OF below [OF that(2)] below [OF that(4)]] that(5-7) q [OF that(1,2)] q [OF that(3,4)] by blast
  qed (rule del_entry24_eq)
  also have "\<dots> = Some lpm'"
  proof -
    have "(\<lambda>i. if ?a \<le> i \<and> i < ?b then (if te_valid_group (tbl24 lpm i) then tbl24 lpm i else ?U False (tbl24 lpm i)) else tbl24 lpm i) = tbl24 lpm'"
      using q by (auto simp: lpm'_def fun_eq_iff)
    moreover have "(\<exists>i. ?a \<le> i \<and> i < ?b \<and> te_valid_group (tbl24 lpm i) \<and> in_group (tbl24 lpm i) x) =
        (\<exists>i. ?a \<le> i \<and> i < ?b \<and> xt (tbl24 lpm i) \<and> in_group (tbl24 lpm i) x)" for x
      using q by blast
    ultimately show ?thesis by (simp only: lpm'_def) simp
  qed
  finally have "delete_depth_small lpm p (of_nat d) sub = Some lpm'" using s by (simp add: delete_depth_small_def tbl24_index_eq)
  moreover have "same_rules lpm lpm'" by (simp add: same_rules_def lpm'_def)
  moreover have "tables_rep lpm' ?R"
  proof (rule tables_small [OF T cov(2) lpm'_def, where R' = ?R])
    show "te_valid_group (?U True e)" if "te_valid_group e" for e using that by (rule upd_del_group)
    show "\<not> xt (?U False (tbl24 lpm i))" if "?a \<le> i" "i < ?b" "\<not> xt (tbl24 lpm i)" for i
    proof -
      have "\<not> te_valid_group (tbl24 lpm i)" using q [OF that(1,2)] that(3) by blast
      then show ?thesis by (simp add: upd_del_def xt_def split: option.splits)
    qed
    show "long ?R i = long R i" for i by (rule long_small) (rule d(2))
    show "best ?R ip 32 = best R ip 32" if "\<not> (?a \<le> block ip \<and> block ip < ?b)" for ip
      by (rule best_other) (use that cov(1) in simp)
    show "desc (?U f (slot lpm ip)) (best ?R ip 32)" if "?a \<le> block ip" "block ip < ?b" for ip f
    proof -
      have c: "covers d p ip" using that cov(1) by simp
      obtain d' h' where b: "best R ip 32 = Some (d', h')" "d \<le> d'" "d' \<le> 32" using covered_valid [OF T d(1) d32 c h] by blast
      have "pfx d ip = pfx d p" using covers_pfx [OF d(1) d32 d(3)] c by simp
      then have "pfx (d - 1) ip = pfx (d - 1) p" by (intro pfx_below [of "d - 1" d]) (use d32 in simp_all)
      then have B: "best R ip (d - 1) = best R p (d - 1)" using d32 by (intro best_cong) simp_all
      have eq: "best ?R ip 32 = (if d < d' then Some (d', h') else best R p (d - 1))"
        using best_delete [OF c d(1) d32, of R] h b(1) B by simp
      have s: "desc (slot lpm ip) (Some (d', h'))" using D(8) [of ip] b(1) by simp
      show ?thesis unfolding eq by (rule desc_del [OF s b(2,3)])
    qed
  qed
  ultimately show ?thesis by blast
qed
section \<open>Groups\<close>

lemma tbl8_alloc_from_ok:
  assumes "256 * groups lpm \<le> tbl8_len lpm" "\<forall>g < k. te_valid_group (tbl8 lpm (256 * g))" "k \<le> groups lpm"
  shows "(\<exists>g < groups lpm. \<not> te_valid_group (tbl8 lpm (256 * g)) \<and> tbl8_alloc_from k lpm =
      Some (lpm\<lparr>tbl8 := \<lambda>x. if x div 256 = g then (if x = 256 * g then zero_entry\<lparr>te_valid_group := True\<rparr> else zero_entry) else tbl8 lpm x\<rparr>, Inr g)) \<or>
    (\<forall>g < groups lpm. te_valid_group (tbl8 lpm (256 * g))) \<and> tbl8_alloc_from k lpm = Some (lpm, Inl ENOSPC)"
  using assms(2,3)
proof (induction "groups lpm - k" arbitrary: k)
  case 0
  then have "k = groups lpm" by simp
  then show ?case using "0.prems" by (subst (1 2) tbl8_alloc_from.simps) simp
next
  case (Suc n)
  have k: "k < groups lpm" using Suc.hyps(2) by simp
  then have "256 * Suc k \<le> 256 * groups lpm" by (intro mult_le_mono2) simp
  then have f: "256 * k + 256 \<le> tbl8_len lpm" using assms(1) by simp
  show ?case
  proof (cases "te_valid_group (tbl8 lpm (256 * k))")
    case True
    have "tbl8_alloc_from k lpm = tbl8_alloc_from (k + 1) lpm"
      using k f True by (subst tbl8_alloc_from.simps) (simp add: rd8_def RTE_LPM_TBL8_GROUP_NUM_ENTRIES_def mult.commute)
    moreover have "\<forall>g < k + 1. te_valid_group (tbl8 lpm (256 * g))" using Suc.prems(1) True by (auto simp: less_Suc_eq)
    ultimately show ?thesis using Suc.hyps(1) [of "k + 1"] Suc.hyps(2) k by simp
  next
    case False
    let ?t = "\<lambda>x. if x div 256 = k then (if x = 256 * k then zero_entry\<lparr>te_valid_group := True\<rparr> else zero_entry) else tbl8 lpm x"
    have "(clean_group (k * 256) (tbl8 lpm))(k * 256 := zero_entry\<lparr>te_valid_group := True\<rparr>) = ?t"
    proof
      fix x
      show "((clean_group (k * 256) (tbl8 lpm))(k * 256 := zero_entry\<lparr>te_valid_group := True\<rparr>)) x = ?t x"
        using group_range [of x k] by (auto simp: clean_group_def RTE_LPM_TBL8_GROUP_NUM_ENTRIES_def)
    qed
    then have "tbl8_alloc_from k lpm = Some (lpm\<lparr>tbl8 := ?t\<rparr>, Inr k)"
      using k f False
      by (subst tbl8_alloc_from.simps) (simp add: rd8_def wr8_def RTE_LPM_TBL8_GROUP_NUM_ENTRIES_def Let_def mult.commute)
    then show ?thesis using k False by blast
  qed
qed

lemmas tbl8_alloc_ok = tbl8_alloc_from_ok [of _ 0, folded tbl8_alloc_def, simplified]

text \<open>A block gets a group of its own.\<close>

lemma tables_extend:
  assumes T: "tables_rep lpm R" and i: "i < 2 ^ 24" "\<not> xt (tbl24 lpm i)" and g: "g < groups lpm" "\<not> te_valid_group (tbl8 lpm (256 * g))"
    and l: "lpm' = lpm\<lparr>tbl24 := (tbl24 lpm)(i := ext_entry g), tbl8 := t\<rparr>"
    and t: "\<And>x. x div 256 \<noteq> g \<Longrightarrow> t x = tbl8 lpm x" "te_valid_group (t (256 * g))"
    and R': "\<And>j. long R' j = (long R j \<or> j = i)" "\<And>ip. block ip \<noteq> i \<Longrightarrow> best R' ip 32 = best R ip 32"
    and cov: "\<And>ip. block ip = i \<Longrightarrow> desc (t (256 * g + low ip)) (best R' ip 32)"
  shows "tables_rep lpm' R'"
proof -
  note D = tables_repD [OF T]
  have gl: "g < 2 ^ 24" using g(1) D(2) by linarith
  then have ext: "xt (ext_entry g)" "group_idx (ext_entry g) = g" by (simp_all add: ext_entry_def xt_def unat_of_nat_small)
  have t24: "tbl24 lpm' j = (if j = i then ext_entry g else tbl24 lpm j)" for j by (simp add: l)
  have t8: "tbl8 lpm' = t" by (simp add: l)
  have n: "number_tbl8s lpm' = number_tbl8s lpm" "tbl8_len lpm' = tbl8_len lpm" by (simp_all add: l)
  have x: "xt (tbl24 lpm' j) = (xt (tbl24 lpm j) \<or> j = i)" for j using ext by (simp add: t24)
  have ng: "group_idx (tbl24 lpm j) \<noteq> g" if "j < 2 ^ 24" "xt (tbl24 lpm j)" for j using D(5) [OF that] g(2) by auto
  show ?thesis unfolding tables_rep_def n t8
  proof (intro conjI allI impI)
    show "256 * groups lpm \<le> tbl8_len lpm" "groups lpm \<le> 2 ^ 24" by (rule D(1), rule D(2))
    fix j :: nat assume j: "j < 2 ^ 24"
    show "xt (tbl24 lpm' j) = long R' j" using D(3) [OF j] x R'(1) by simp
    show "group_idx (tbl24 lpm' j) < groups lpm" "te_valid_group (t (256 * group_idx (tbl24 lpm' j)))" if "xt (tbl24 lpm' j)"
      using D(4,5) [OF j] that x ext g(1) t ng [OF j] by (cases "j = i"; simp add: t24)+
    fix k :: nat assume k: "k < 2 ^ 24" and "xt (tbl24 lpm' j)" "xt (tbl24 lpm' k)" "group_idx (tbl24 lpm' j) = group_idx (tbl24 lpm' k)"
    then show "j = k" using D(6) [OF j k] ng [OF j] ng [OF k] ext(2) i(2) by (cases "j = i"; cases "k = i") (simp_all add: t24)
  next
    fix h assume h: "h < groups lpm" "te_valid_group (t (256 * h))"
    show "\<exists>j < 2 ^ 24. xt (tbl24 lpm' j) \<and> group_idx (tbl24 lpm' j) = h"
    proof (cases "h = g")
      case True
      then show ?thesis using i(1) ext by (intro exI [of _ i]) (simp add: t24)
    next
      case False
      then obtain j where "j < 2 ^ 24" "xt (tbl24 lpm j)" "group_idx (tbl24 lpm j) = h" using D(7) [OF h(1)] h(2) t(1) [of "256 * h"] by auto
      then show ?thesis using i(2) by (intro exI [of _ j]) (auto simp: t24)
    qed
  next
    fix ip
    show "desc (slot lpm' ip) (best R' ip 32)"
    proof (cases "block ip = i")
      case True
      then show ?thesis using cov ext by (simp add: slot_def Let_def t24 t8)
    next
      case False
      have "slot lpm' ip = slot lpm ip"
      proof (cases "xt (tbl24 lpm (block ip))")
        case xt: True
        then show ?thesis using False t(1) [of "256 * group_idx (tbl24 lpm (block ip)) + low ip"] ng [OF block_less xt] by (simp add: slot_def Let_def t24 t8)
      next
        case nxt: False
        then show ?thesis using False by (simp add: slot_def Let_def t24)
      qed
      then show ?thesis using D(8) [of ip] R'(2) [OF False] by simp
    qed
  qed
qed

text \<open>The entries of a block's group change.\<close>

lemma tables_change:
  assumes T: "tables_rep lpm R" and i: "i < 2 ^ 24" "xt (tbl24 lpm i)" "group_idx (tbl24 lpm i) = g"
    and l: "lpm' = lpm\<lparr>tbl8 := t\<rparr>"
    and t: "\<And>x. x div 256 \<noteq> g \<Longrightarrow> t x = tbl8 lpm x" "te_valid_group (t (256 * g))"
    and R': "\<And>j. long R' j = long R j" "\<And>ip. block ip \<noteq> i \<Longrightarrow> best R' ip 32 = best R ip 32"
    and cov: "\<And>ip. block ip = i \<Longrightarrow> desc (t (256 * g + low ip)) (best R' ip 32)"
  shows "tables_rep lpm' R'"
proof -
  note D = tables_repD [OF T]
  have t24: "tbl24 lpm' = tbl24 lpm" and t8: "tbl8 lpm' = t" by (simp_all add: l)
  have n: "number_tbl8s lpm' = number_tbl8s lpm" "tbl8_len lpm' = tbl8_len lpm" by (simp_all add: l)
  have heads: "te_valid_group (t (256 * h)) = te_valid_group (tbl8 lpm (256 * h))" if "h < groups lpm" for h
    using t D(5) [OF i(1,2)] i(3) by (cases "h = g") simp_all
  show ?thesis unfolding tables_rep_def n t8 t24
  proof (intro conjI allI impI)
    show "256 * groups lpm \<le> tbl8_len lpm" "groups lpm \<le> 2 ^ 24" by (rule D(1), rule D(2))
    fix j :: nat assume j: "j < 2 ^ 24"
    show "xt (tbl24 lpm j) = long R' j" using D(3) [OF j] R'(1) by simp
    show "group_idx (tbl24 lpm j) < groups lpm" "te_valid_group (t (256 * group_idx (tbl24 lpm j)))" if "xt (tbl24 lpm j)"
      using D(4,5) [OF j that] heads by simp_all
    fix k :: nat assume "k < 2 ^ 24" "xt (tbl24 lpm j)" "xt (tbl24 lpm k)" "group_idx (tbl24 lpm j) = group_idx (tbl24 lpm k)"
    then show "j = k" using D(6) [OF j] by blast
  next
    fix h assume "h < groups lpm" "te_valid_group (t (256 * h))"
    then show "\<exists>j < 2 ^ 24. xt (tbl24 lpm j) \<and> group_idx (tbl24 lpm j) = h" using D(7) heads by blast
  next
    fix ip
    show "desc (slot lpm' ip) (best R' ip 32)"
    proof (cases "block ip = i")
      case True
      then show ?thesis using cov i by (simp add: slot_def Let_def t24 t8)
    next
      case False
      have "slot lpm' ip = slot lpm ip"
      proof (cases "xt (tbl24 lpm (block ip))")
        case xt: True
        let ?x = "256 * group_idx (tbl24 lpm (block ip)) + low ip"
        have "group_idx (tbl24 lpm (block ip)) \<noteq> g" using D(6) [OF block_less i(1) xt i(2)] False i(3) by metis
        moreover have "?x div 256 = group_idx (tbl24 lpm (block ip))" by simp
        ultimately have "t ?x = tbl8 lpm ?x" using t(1) [of ?x] by metis
        then show ?thesis using xt by (simp add: slot_def Let_def t24 t8)
      next
        case nxt: False
        then show ?thesis by (simp add: slot_def Let_def t24)
      qed
      then show ?thesis using D(8) [of ip] R'(2) [OF False] by simp
    qed
  qed
qed

text \<open>A block gives its group back.\<close>

lemma tables_release:
  assumes T: "tables_rep lpm R" and i: "i < 2 ^ 24" "xt (tbl24 lpm i)" "group_idx (tbl24 lpm i) = g"
    and l: "lpm' = lpm\<lparr>tbl24 := (tbl24 lpm)(i := e), tbl8 := t\<rparr>" "\<not> xt e"
    and t: "\<And>x. x div 256 \<noteq> g \<Longrightarrow> t x = tbl8 lpm x" "\<not> te_valid_group (t (256 * g))"
    and R': "\<And>j. long R' j = (long R j \<and> j \<noteq> i)" "\<And>ip. block ip \<noteq> i \<Longrightarrow> best R' ip 32 = best R ip 32"
    and cov: "\<And>ip. block ip = i \<Longrightarrow> desc e (best R' ip 32)"
  shows "tables_rep lpm' R'"
proof -
  note D = tables_repD [OF T]
  have t24: "tbl24 lpm' j = (if j = i then e else tbl24 lpm j)" for j by (simp add: l)
  have t8: "tbl8 lpm' = t" by (simp add: l)
  have n: "number_tbl8s lpm' = number_tbl8s lpm" "tbl8_len lpm' = tbl8_len lpm" by (simp_all add: l)
  have x: "xt (tbl24 lpm' j) = (xt (tbl24 lpm j) \<and> j \<noteq> i)" for j using l(2) by (simp add: t24)
  have ng: "group_idx (tbl24 lpm j) \<noteq> g" if "j < 2 ^ 24" "xt (tbl24 lpm j)" "j \<noteq> i" for j
    using D(6) [OF that(1) i(1) that(2) i(2)] i(3) that(3) by metis
  show ?thesis unfolding tables_rep_def n t8
  proof (intro conjI allI impI)
    show "256 * groups lpm \<le> tbl8_len lpm" "groups lpm \<le> 2 ^ 24" by (rule D(1), rule D(2))
    fix j :: nat assume j: "j < 2 ^ 24"
    show "xt (tbl24 lpm' j) = long R' j" using D(3) [OF j] x R'(1) by simp
    show "group_idx (tbl24 lpm' j) < groups lpm" "te_valid_group (t (256 * group_idx (tbl24 lpm' j)))" if "xt (tbl24 lpm' j)"
      using D(4,5) [OF j] that x t(1) ng [OF j] by (simp_all add: t24)
    fix k :: nat assume k: "k < 2 ^ 24" and "xt (tbl24 lpm' j)" "xt (tbl24 lpm' k)" "group_idx (tbl24 lpm' j) = group_idx (tbl24 lpm' k)"
    then show "j = k" using D(6) [OF j k] x by (simp add: t24)
  next
    fix h assume h: "h < groups lpm" "te_valid_group (t (256 * h))"
    then have "h \<noteq> g" using t(2) by auto
    then obtain j where j: "j < 2 ^ 24" "xt (tbl24 lpm j)" "group_idx (tbl24 lpm j) = h" using D(7) [OF h(1)] h(2) t(1) [of "256 * h"] by auto
    then have "j \<noteq> i" using i(3) \<open>h \<noteq> g\<close> by auto
    then show "\<exists>j < 2 ^ 24. xt (tbl24 lpm' j) \<and> group_idx (tbl24 lpm' j) = h" using j by (intro exI [of _ j]) (simp add: t24)
  next
    fix ip
    show "desc (slot lpm' ip) (best R' ip 32)"
    proof (cases "block ip = i")
      case True
      then show ?thesis using cov l(2) by (simp add: slot_def Let_def t24)
    next
      case False
      have "slot lpm' ip = slot lpm ip"
      proof (cases "xt (tbl24 lpm (block ip))")
        case xt: True
        then show ?thesis using False t(1) [of "256 * group_idx (tbl24 lpm (block ip)) + low ip"] ng [OF block_less xt False] by (simp add: slot_def Let_def t24 t8)
      next
        case nxt: False
        then show ?thesis using False by (simp add: slot_def Let_def t24)
      qed
      then show ?thesis using D(8) [of ip] R'(2) [OF False] by simp
    qed
  qed
qed
section \<open>Adding long prefixes\<close>

lemma low_byte: "unat (p AND 0xFF :: u32) = low p"
  using unat_and_mask [of p 8] by (simp add: mask_eq_exp_minus_1)

lemma long_add:
  assumes "24 < d" "d \<le> 32" "p AND depth_to_mask (of_nat d) = p"
  shows "long (R(d := (R d)(p \<mapsto> h))) j = (long R j \<or> j = block p)"
proof
  assume "long (R(d := (R d)(p \<mapsto> h))) j"
  then obtain e ip where e: "24 < e" "block ip = j" "(R(d := (R d)(p \<mapsto> h))) e (ip AND depth_to_mask (of_nat e)) \<noteq> None"
    by (auto simp: long_def)
  show "long R j \<or> j = block p"
  proof (cases "e = d \<and> ip AND depth_to_mask (of_nat d) = p")
    case True
    then show ?thesis using masked_block [of d ip] assms(1,2) e(2) by simp
  next
    case False
    then have "R e (ip AND depth_to_mask (of_nat e)) \<noteq> None" using e(3) by (auto split: if_splits)
    then show ?thesis using e(1,2) by (auto simp: long_def)
  qed
next
  assume "long R j \<or> j = block p"
  then show "long (R(d := (R d)(p \<mapsto> h))) j"
  proof
    assume "long R j"
    then obtain e ip where "24 < e" "block ip = j" "R e (ip AND depth_to_mask (of_nat e)) \<noteq> None" by (auto simp: long_def)
    then show ?thesis unfolding long_def by (intro exI [of _ e] exI [of _ ip]) auto
  next
    assume "j = block p"
    then show ?thesis unfolding long_def using assms by (intro exI [of _ d] exI [of _ p]) simp
  qed
qed

lemma best_short: "\<not> long R (block ip) \<Longrightarrow> best R ip 32 = Some (d', h') \<Longrightarrow> d' \<le> 24"
  using best_range [of R ip 32 d' h'] unfolding long_def by (metis linorder_not_le option.distinct(1))

lemma slot_block: "\<not> xt (tbl24 lpm (block ip)) \<Longrightarrow> slot lpm ip = tbl24 lpm (block ip)"
  by (simp add: slot_def Let_def)

lemma loop_set:
  assumes "b \<le> tbl8_len lpm" "a \<le> b"
  shows "for_range a b (set_entry8 dd hh) (lpm\<lparr>tbl8 := t\<rparr>) = Some (lpm\<lparr>tbl8 := \<lambda>x. if a \<le> x \<and> x < b
    then (t x)\<lparr>te_valid := True, te_depth := dd, te_next_hop := hh\<rparr> else t x\<rparr>)"
proof -
  have "b \<le> tbl8_len (lpm\<lparr>tbl8 := t\<rparr>)" using assms(1) by simp
  from loop8 [OF set_entry8_eq [of _ _ dd hh] this assms(2)] show ?thesis by (simp cong: if_cong)
qed

lemma desc_set: "d \<le> 32 \<Longrightarrow> desc (e\<lparr>te_valid := True, te_depth := of_nat d, te_next_hop := ucast h\<rparr>) (Some (d, h))"
  by (simp add: desc_def)

lemma add_big_ok:
  assumes T: "tables_rep lpm R" and d: "24 < d" "d \<le> 32" "p AND depth_to_mask (of_nat d) = p"
  shows "(\<exists>lpm'. add_depth_big lpm p (of_nat d) h = Some (lpm', None) \<and> same_rules lpm lpm' \<and> tables_rep lpm' (R(d := (R d)(p \<mapsto> h)))) \<or>
    (add_depth_big lpm p (of_nat d) h = Some (lpm, Some ENOSPC) \<and> \<not> long R (block p) \<and> (\<forall>g < groups lpm. te_valid_group (tbl8 lpm (256 * g))))"
proof -
  let ?i = "block p" let ?e = "tbl24 lpm (block p)" let ?r = "depth_to_range (of_nat d)"
  let ?R = "R(d := (R d)(p \<mapsto> h))"
  note cov = covers_big [OF d]
  note D = tables_repD [OF T]
  have d1: "1 \<le> d" using d(1) by simp
  have rd: "rd24 lpm ?i = Some ?e" "\<And>l e. wr24 ?i e l = Some (l\<lparr>tbl24 := (tbl24 l)(?i := e)\<rparr>)"
    by (simp_all add: rd24_def wr24_def RTE_LPM_TBL24_NUM_ENTRIES_def)
  have out: "best ?R ip 32 = best R ip 32" if "block ip \<noteq> ?i \<or> \<not> (low p \<le> low ip \<and> low ip < low p + ?r)" for ip
    by (rule best_other) (use that cov(1) in auto)
  have ins: "best ?R ip 32 = (case best R ip 32 of Some (d', h') \<Rightarrow> if d < d' then Some (d', h') else Some (d, h) | None \<Rightarrow> Some (d, h))"
    if "block ip = ?i" "low p \<le> low ip" "low ip < low p + ?r" for ip
    by (rule best_add [OF _ d1 d(2)]) (use that cov(1) in simp)
  have dc: "ucast (of_nat d :: u8) = (of_nat d :: 6 word)" by (rule depth_conv) (rule d(2))
  consider (new) "\<not> xt ?e" | (ext) "xt ?e" by blast
  then show ?thesis
  proof cases
    case new
    then have nl: "\<not> long R ?i" using D(3) [OF block_less, of p] by simp
    have sl: "desc ?e (best R ip 32)" if "block ip = ?i" for ip using D(8) [of ip] slot_block [of lpm ip] new that by simp
    from tbl8_alloc_ok [OF D(1)] show ?thesis
    proof
      assume full: "(\<forall>g < groups lpm. te_valid_group (tbl8 lpm (256 * g))) \<and> tbl8_alloc lpm = Some (lpm, Inl ENOSPC)"
      then have "add_depth_big lpm p (of_nat d) h = Some (lpm, Some ENOSPC)"
        using new rd(1) by (cases "te_valid ?e") (simp_all add: add_depth_big_def tbl24_index_eq Let_def xt_def)
      then show ?thesis using full nl by blast
    next
      assume "\<exists>g < groups lpm. \<not> te_valid_group (tbl8 lpm (256 * g)) \<and> tbl8_alloc lpm =
        Some (lpm\<lparr>tbl8 := \<lambda>x. if x div 256 = g then (if x = 256 * g then zero_entry\<lparr>te_valid_group := True\<rparr> else zero_entry) else tbl8 lpm x\<rparr>, Inr g)"
      then obtain g where g: "g < groups lpm" "\<not> te_valid_group (tbl8 lpm (256 * g))" and al: "tbl8_alloc lpm =
        Some (lpm\<lparr>tbl8 := \<lambda>x. if x div 256 = g then (if x = 256 * g then zero_entry\<lparr>te_valid_group := True\<rparr> else zero_entry) else tbl8 lpm x\<rparr>, Inr g)"
        by blast
      define t0 where "t0 = (\<lambda>x. if x div 256 = g then (if x = 256 * g then zero_entry\<lparr>te_valid_group := True\<rparr> else zero_entry) else tbl8 lpm x)"
      note al = al [folded t0_def]
      have "256 * Suc g \<le> 256 * groups lpm" using g(1) by (intro mult_le_mono2) simp
      then have fits: "g * 256 + 256 \<le> tbl8_len lpm" using D(1) by simp
      have fit2: "g * 256 + low p + ?r \<le> tbl8_len lpm" using fits cov(2) by linarith
      \<comment> \<open>the group, filled with the entry of the block if that is valid\<close>
      define t1 where "t1 = (\<lambda>x. if te_valid ?e \<and> g * 256 \<le> x \<and> x < g * 256 + 256
        then (t0 x)\<lparr>te_valid := True, te_depth := te_depth ?e, te_next_hop := te_next_hop ?e\<rparr> else t0 x)"
      define t where "t = (\<lambda>x. if g * 256 + low p \<le> x \<and> x < g * 256 + low p + ?r
        then (t1 x)\<lparr>te_valid := True, te_depth := of_nat d, te_next_hop := ucast h\<rparr> else t1 x)"
      define lpm' where "lpm' = lpm\<lparr>tbl24 := (tbl24 lpm)(?i := ext_entry g), tbl8 := t\<rparr>"
      have l2: "for_range (g * 256 + low p) (g * 256 + low p + ?r) (set_entry8 (of_nat d) (ucast h)) (lpm\<lparr>tbl8 := t1\<rparr>) = Some (lpm\<lparr>tbl8 := t\<rparr>)"
        using loop_set [of "g * 256 + low p + ?r" lpm "g * 256 + low p" "of_nat d" "ucast h" t1] fit2 by (simp add: t_def)
      have run: "add_depth_big lpm p (of_nat d) h = Some (lpm', None)"
      proof (cases "te_valid ?e")
        case True
        have "for_range (g * 256) (g * 256 + 256) (set_entry8 (te_depth ?e) (te_next_hop ?e)) (lpm\<lparr>tbl8 := t0\<rparr>) = Some (lpm\<lparr>tbl8 := t1\<rparr>)"
          using loop_set [of "g * 256 + 256" lpm "g * 256" "te_depth ?e" "te_next_hop ?e" t0] fits True by (simp add: t1_def)
        moreover have "\<not> te_valid_group ?e" using new True by (simp add: xt_def)
        ultimately show ?thesis using True rd al l2
          by (simp add: add_depth_big_def tbl24_index_eq low_byte RTE_LPM_TBL8_GROUP_NUM_ENTRIES_def dc lpm'_def)
      next
        case False
        then have "t1 = t0" by (simp add: t1_def)
        then show ?thesis using False rd al l2
          by (simp add: add_depth_big_def tbl24_index_eq low_byte RTE_LPM_TBL8_GROUP_NUM_ENTRIES_def dc lpm'_def)
      qed
      have "tables_rep lpm' ?R"
      proof (rule tables_extend [OF T block_less new g lpm'_def])
        fix x assume x: "x div 256 \<noteq> g"
        then have "\<not> (g * 256 \<le> x \<and> x < g * 256 + 256)" using group_range [of x g] by blast
        then have nr: "\<not> (g * 256 + low p \<le> x \<and> x < g * 256 + low p + ?r)" and "t1 x = t0 x" using cov(2) by (auto simp: t1_def)
        moreover have "t x = t1 x" unfolding t_def by (rule if_not_P [OF nr])
        ultimately show "t x = tbl8 lpm x" using x by (simp add: t0_def)
      next
        show "te_valid_group (t (256 * g))" by (simp add: t_def t1_def t0_def)
        show "long ?R j = (long R j \<or> j = ?i)" for j by (rule long_add [OF d])
        show "best ?R ip 32 = best R ip 32" if "block ip \<noteq> ?i" for ip using out that by blast
        fix ip assume ip: "block ip = ?i"
        let ?x = "256 * g + low ip"
        have lx: "low ip < 256" by simp
        show "desc (t ?x) (best ?R ip 32)"
        proof (cases "low p \<le> low ip \<and> low ip < low p + ?r")
          case True
          have "d' \<le> 24" if "best R ip 32 = Some (d', h')" for d' h' using best_short [of R ip d' h'] nl ip that by simp
          then have "best ?R ip 32 = Some (d, h)" using ins [OF ip] True d(1) by (auto split: option.splits)
          moreover have "t ?x = (t1 ?x)\<lparr>te_valid := True, te_depth := of_nat d, te_next_hop := ucast h\<rparr>" using True by (simp add: t_def)
          ultimately show ?thesis using desc_set [OF d(2)] by simp
        next
          case False
          then have "t ?x = t1 ?x" by (auto simp: t_def)
          moreover have "desc (t1 ?x) (best R ip 32)" using sl [OF ip] lx
            by (cases "te_valid ?e") (auto simp: t1_def t0_def desc_def zero_entry_def)
          ultimately show ?thesis using out False by simp
        qed
      qed
      moreover have "same_rules lpm lpm'" by (simp add: same_rules_def lpm'_def)
      ultimately show ?thesis using run by blast
    qed
  next
    case ext
    let ?g = "group_idx ?e"
    have fits: "256 * ?g + 256 \<le> tbl8_len lpm" by (rule group_fits [OF T block_less ext])
    let ?U = "\<lambda>x. upd_add (of_nat d) h (te_valid_group (tbl8 lpm x)) (tbl8 lpm x)"
    let ?a = "?g * 256 + low p"
    define t where "t = (\<lambda>x. if ?a \<le> x \<and> x < ?a + ?r then ?U x else tbl8 lpm x)"
    have "for_range ?a (?a + ?r) (add_ext8 (of_nat d) h) lpm =
        Some (lpm\<lparr>tbl8 := \<lambda>x. if ?a \<le> x \<and> x < ?a + ?r then (\<lambda>e. upd_add (of_nat d) h (te_valid_group e) e) (tbl8 lpm x) else tbl8 lpm x\<rparr>)"
      by (rule loop8 [OF add_ext8_eq]) (use fits cov(2) in auto)
    then have run: "add_depth_big lpm p (of_nat d) h = Some (lpm\<lparr>tbl8 := t\<rparr>, None)"
      using ext rd by (simp add: add_depth_big_def tbl24_index_eq low_byte RTE_LPM_TBL8_GROUP_NUM_ENTRIES_def xt_def t_def Let_def)
    have "tables_rep (lpm\<lparr>tbl8 := t\<rparr>) ?R"
    proof (rule tables_change [OF T block_less ext refl refl])
      fix x assume x: "x div 256 \<noteq> ?g"
      then have "\<not> (?g * 256 \<le> x \<and> x < ?g * 256 + 256)" using group_range [of x ?g] by blast
      then have "\<not> (?a \<le> x \<and> x < ?a + ?r)" using cov(2) by auto
      then show "t x = tbl8 lpm x" unfolding t_def by (rule if_not_P)
    next
      have "te_valid_group (tbl8 lpm (256 * ?g))" by (rule D(5) [OF block_less ext])
      then show "te_valid_group (t (256 * ?g))" by (simp add: t_def upd_add_def)
      show "long ?R j = long R j" for j using long_add [OF d] D(3) [OF block_less, of p] ext by metis
      show "best ?R ip 32 = best R ip 32" if "block ip \<noteq> ?i" for ip using out that by blast
      fix ip assume ip: "block ip = ?i"
      let ?x = "256 * ?g + low ip"
      have s: "slot lpm ip = tbl8 lpm ?x" using ip ext by (simp add: slot_def Let_def)
      show "desc (t ?x) (best ?R ip 32)"
      proof (cases "low p \<le> low ip \<and> low ip < low p + ?r")
        case True
        then have "t ?x = upd_add (of_nat d) h (te_valid_group (tbl8 lpm ?x)) (slot lpm ip)" by (simp add: t_def s)
        then show ?thesis using desc_add [OF D(8) [of ip] _ d(2)] best_le [of R ip] ins [OF ip] True by simp
      next
        case False
        then have "t ?x = tbl8 lpm ?x" by (auto simp: t_def)
        then show ?thesis using D(8) [of ip] s out False by simp
      qed
    qed
    moreover have "same_rules lpm (lpm\<lparr>tbl8 := t\<rparr>)" by (simp add: same_rules_def)
    ultimately show ?thesis using run by blast
  qed
qed
section \<open>Deleting long prefixes\<close>

lemma all_from_ok:
  assumes "n \<le> tbl8_len lpm"
  shows "all_from P i n lpm = Some (\<forall>x. i \<le> x \<and> x < n \<longrightarrow> P (tbl8 lpm x))"
proof (induction "n - i" arbitrary: i)
  case 0
  then show ?case by (subst all_from.simps) auto
next
  case (Suc k)
  then have i: "i < n" by simp
  then have r: "rd8 lpm i = Some (tbl8 lpm i)" using assms by (simp add: rd8_def)
  have "all_from P (i + 1) n lpm = Some (\<forall>x. i + 1 \<le> x \<and> x < n \<longrightarrow> P (tbl8 lpm x))" by (rule Suc.hyps(1)) (use Suc.hyps(2) in simp)
  moreover have "(\<forall>x. i \<le> x \<and> x < n \<longrightarrow> P (tbl8 lpm x)) = (P (tbl8 lpm i) \<and> (\<forall>x. i + 1 \<le> x \<and> x < n \<longrightarrow> P (tbl8 lpm x)))"
  proof
    assume "\<forall>x. i \<le> x \<and> x < n \<longrightarrow> P (tbl8 lpm x)"
    then show "P (tbl8 lpm i) \<and> (\<forall>x. i + 1 \<le> x \<and> x < n \<longrightarrow> P (tbl8 lpm x))" using i by auto
  next
    assume a: "P (tbl8 lpm i) \<and> (\<forall>x. i + 1 \<le> x \<and> x < n \<longrightarrow> P (tbl8 lpm x))"
    show "\<forall>x. i \<le> x \<and> x < n \<longrightarrow> P (tbl8 lpm x)"
    proof (intro allI impI)
      fix x assume "i \<le> x \<and> x < n"
      then show "P (tbl8 lpm x)" using a by (cases "x = i") auto
    qed
  qed
  ultimately show ?case using i r by (subst all_from.simps) simp
qed

text \<open>A rule of at most 24 bits covers a whole block.\<close>

lemma best_whole:
  assumes "wf_rules R" "best R ip 32 = Some (d, h)" "d \<le> 24" "block ip' = block ip"
  shows "\<exists>d' h'. best R ip' 32 = Some (d', h') \<and> d \<le> d' \<and> (d' = d \<longrightarrow> h' = h)"
proof -
  note b = best_range [OF assms(2)]
  have "pfx 24 ip' = pfx 24 ip" using assms(4) by (simp add: pfx_24)
  then have "pfx d ip' = pfx d ip" by (intro pfx_below [of d 24]) (use assms(3) in simp_all)
  then have m: "ip' AND depth_to_mask (of_nat d) = ip AND depth_to_mask (of_nat d)" using masked_iff [of d ip' ip] b by simp
  then have "R d (ip' AND depth_to_mask (of_nat d)) = Some h" using b by simp
  then obtain d' h' where b': "best R ip' 32 = Some (d', h')" "d \<le> d'" using best_ge [of R d ip' h 32] b by auto
  then show ?thesis using best_range [OF b'(1)] m b by auto
qed

text \<open>What the check says about a group that describes a block.\<close>

lemma recycle_ok:
  assumes wf: "wf_rules R" and i: "i < 2 ^ 24" and f: "256 * g + 256 \<le> tbl8_len lpm"
    and cov: "\<And>ip. block ip = i \<Longrightarrow> desc (tbl8 lpm (256 * g + low ip)) (best R ip 32)"
  shows "\<exists>r. tbl8_recycle_check (g * 256) lpm = Some r \<and> (case r of
      RecycleKeep \<Rightarrow> long R i
    | RecycleFree \<Rightarrow> \<not> long R i \<and> (\<forall>ip. block ip = i \<longrightarrow> best R ip 32 = None)
    | RecycleMerge \<Rightarrow> \<not> long R i \<and> te_valid (tbl8 lpm (g * 256)) \<and> (\<forall>ip. block ip = i \<longrightarrow> desc (tbl8 lpm (g * 256)) (best R ip 32)))"
proof -
  let ?t = "tbl8 lpm" let ?s = "g * 256"
  from block_ex [OF i] obtain ip0 where ip0: "block ip0 = i" "low ip0 = 0" by (elim exE conjE)
  have s0: "256 * g + low ip = ?s" if "low ip = 0" for ip unfolding that by (simp only: mult.commute add.right_neutral)
  have c0: "desc (?t ?s) (best R ip0 32)" using cov [OF ip0(1)] unfolding s0 [OF ip0(2)] .
  have at: "\<exists>ip. block ip = i \<and> 256 * g + low ip = x" if "?s \<le> x" "x < ?s + 256" for x
  proof -
    define y where "y = x - ?s"
    have y: "x = ?s + y" "y < 256" using that by (auto simp: y_def)
    have "i * 256 + y < 2 ^ 32" using i y(2) by simp
    then have u: "unat (of_nat (i * 256 + y) :: u32) = i * 256 + y" by (intro unat_of_nat_small) simp
    show ?thesis by (intro exI [of _ "of_nat (i * 256 + y)"]) (simp only: u, use y in simp)
  qed
  have longI: "long R i" if "block ip = i" "best R ip 32 = Some (d, h)" "24 < d" for ip d h
    using best_range [OF that(2)] that(1,3) unfolding long_def by (metis option.distinct(1))
  have longD: "\<exists>ip d h. block ip = i \<and> best R ip 32 = Some (d, h) \<and> 24 < d" if L: "long R i"
  proof -
    obtain d ip h where x: "24 < d" "block ip = i" "R d (ip AND depth_to_mask (of_nat d)) = Some h"
      using L unfolding long_def by fast
    then have "d \<le> 32" using wf unfolding wf_rules_def by blast
    with best_ge [of R d ip h 32] x(1,3) have "\<exists>d' h'. best R ip 32 = Some (d', h') \<and> d \<le> d'" by simp
    then obtain d' h' where b: "best R ip 32 = Some (d', h')" "d \<le> d'" by blast
    then have "24 < d'" using x(1) by simp
    with b(1) x(2) show ?thesis by blast
  qed
  have rd: "rd8 lpm ?s = Some (?t ?s)" using f by (simp add: rd8_def)
  have fits: "?s + 256 \<le> tbl8_len lpm" using f by simp
  note chk = tbl8_recycle_check_def [of ?s lpm, unfolded RTE_LPM_TBL8_GROUP_NUM_ENTRIES_def]
  show ?thesis
  proof (cases "best R ip0 32")
    case None
    then have nv: "\<not> te_valid (?t ?s)" using c0 by (simp add: desc_def)
    have run: "tbl8_recycle_check ?s lpm = Some (if \<forall>x. ?s + 1 \<le> x \<and> x < ?s + 256 \<longrightarrow> \<not> te_valid (?t x) then RecycleFree else RecycleKeep)"
      unfolding chk rd using nv all_from_ok [OF fits, of "\<lambda>x. \<not> te_valid x" "?s + 1"] by simp
    show ?thesis
    proof (cases "\<forall>x. ?s + 1 \<le> x \<and> x < ?s + 256 \<longrightarrow> \<not> te_valid (?t x)")
      case True
      have nb: "best R ip 32 = None" if "block ip = i" for ip
      proof -
        have "\<not> te_valid (?t (256 * g + low ip))"
        proof (cases "low ip = 0")
          case True
          show ?thesis unfolding s0 [OF True] by (rule nv)
        next
          case False
          moreover have "low ip < 256" by simp
          ultimately have "?s + 1 \<le> 256 * g + low ip \<and> 256 * g + low ip < ?s + 256" by linarith
          then show ?thesis using True by blast
        qed
        then show ?thesis using cov [OF that] by (cases "best R ip 32") (simp_all add: desc_def)
      qed
      then have "\<not> long R i" using longD by fastforce
      then show ?thesis using run True nb by simp
    next
      case False
      then obtain x where x: "?s + 1 \<le> x" "x < ?s + 256" "te_valid (?t x)" by blast
      then obtain ip where ip: "block ip = i" "256 * g + low ip = x" using at [of x] by auto
      then obtain d h where b: "best R ip 32 = Some (d, h)" using cov [OF ip(1)] x(3) by (auto simp: desc_def)
      have "24 < d"
      proof (rule ccontr)
        assume "\<not> 24 < d"
        then show False using best_whole [OF wf b, of ip0] ip(1) ip0(1) None by simp
      qed
      then have "long R i" using longI [OF ip(1) b] by blast
      then show ?thesis using run False by simp
    qed
  next
    case (Some y)
    then obtain d0 h0 where b0: "best R ip0 32 = Some (d0, h0)" by (cases y) auto
    have v: "te_valid (?t ?s)" "te_depth (?t ?s) = of_nat d0" "te_next_hop (?t ?s) = ucast h0" using c0 b0 by (simp_all add: desc_def)
    have d0: "d0 \<le> 32" using best_le [OF b0] by simp
    have m: "te_depth (?t ?s) \<le> ucast MAX_DEPTH_TBL24 \<longleftrightarrow> d0 \<le> 24"
      using depth_le [OF d0, of 24] v(2) by (simp add: MAX_DEPTH_TBL24_def)
    show ?thesis
    proof (cases "d0 \<le> 24")
      case False
      then have "tbl8_recycle_check ?s lpm = Some RecycleKeep" unfolding chk rd using v(1) m by simp
      then show ?thesis using longI [OF ip0(1) b0] False by simp
    next
      case d24: True
      have run: "tbl8_recycle_check ?s lpm =
          Some (if \<forall>x. ?s + 1 \<le> x \<and> x < ?s + 256 \<longrightarrow> te_depth (?t x) = te_depth (?t ?s) then RecycleMerge else RecycleKeep)"
        unfolding chk rd using v(1) m d24 all_from_ok [OF fits, of "\<lambda>x. te_depth x = te_depth (?t ?s)" "?s + 1"] by simp
      have whole: "\<exists>d' h'. best R ip 32 = Some (d', h') \<and> d0 \<le> d' \<and> (d' = d0 \<longrightarrow> h' = h0)" if "block ip = i" for ip
        by (rule best_whole [OF wf b0 d24]) (use that ip0(1) in simp)
      show ?thesis
      proof (cases "\<forall>x. ?s + 1 \<le> x \<and> x < ?s + 256 \<longrightarrow> te_depth (?t x) = te_depth (?t ?s)")
        case True
        have same: "best R ip 32 = Some (d0, h0)" if ip: "block ip = i" for ip
        proof -
          obtain d' h' where b: "best R ip 32 = Some (d', h')" "d0 \<le> d'" "d' = d0 \<longrightarrow> h' = h0" using whole [OF ip] by blast
          have "te_depth (?t (256 * g + low ip)) = te_depth (?t ?s)"
          proof (cases "low ip = 0")
            case True
            show ?thesis unfolding s0 [OF True] by (rule refl)
          next
            case False
            moreover have "low ip < 256" by simp
            ultimately have "?s + 1 \<le> 256 * g + low ip \<and> 256 * g + low ip < ?s + 256" by linarith
            then show ?thesis using True by blast
          qed
          then have "(of_nat d' :: 6 word) = of_nat d0" using cov [OF ip] b(1) v(2) by (simp add: desc_def)
          moreover have "d' \<le> 32" using best_le [OF b(1)] by simp
          ultimately have "d' = d0" using depth_le [of d' d0] depth_le [of d0 d'] d0 by simp
          then show ?thesis using b by simp
        qed
        then have "\<not> long R i" using longD d24 by fastforce
        moreover have "desc (?t ?s) (best R ip 32)" if "block ip = i" for ip using same [OF that] v by (simp add: desc_def)
        ultimately show ?thesis using run True v(1) by simp
      next
        case False
        then obtain x where x: "?s + 1 \<le> x" "x < ?s + 256" "te_depth (?t x) \<noteq> te_depth (?t ?s)" by blast
        then obtain ip where ip: "block ip = i" "256 * g + low ip = x" using at [of x] by auto
        obtain d' h' where b: "best R ip 32 = Some (d', h')" "d0 \<le> d'" using whole [OF ip(1)] by blast
        have "d' \<noteq> d0" using cov [OF ip(1)] b(1) ip(2) x(3) v(2) by (auto simp: desc_def)
        moreover have "\<not> d' \<le> 24"
        proof
          assume "d' \<le> 24"
          then have "d' \<le> d0" using best_whole [OF wf b(1), of ip0] ip(1) ip0(1) b0 by simp
          then show False using b(2) \<open>d' \<noteq> d0\<close> by simp
        qed
        ultimately have "long R i" using longI [OF ip(1) b(1)] by simp
        then show ?thesis using run False by simp
      qed
    qed
  qed
qed

lemma long_delete_other: "j \<noteq> block p \<Longrightarrow> 24 \<le> d \<Longrightarrow> d \<le> 32 \<Longrightarrow> long (R(d := (R d)(p := None))) j = long R j"
proof -
  assume a: "j \<noteq> block p" "24 \<le> d" "d \<le> 32"
  have "(R(d := (R d)(p := None))) e (ip AND depth_to_mask (of_nat e)) = R e (ip AND depth_to_mask (of_nat e))"
    if "block ip = j" for e ip
    using masked_block [OF a(2,3), of ip] a(1) that by auto
  then have "(24 < e \<and> block ip = j \<and> (R(d := (R d)(p := None))) e (ip AND depth_to_mask (of_nat e)) \<noteq> None) =
      (24 < e \<and> block ip = j \<and> R e (ip AND depth_to_mask (of_nat e)) \<noteq> None)" for e ip by metis
  then show ?thesis unfolding long_def by (simp only:)
qed

lemma delete_big_ok:
  assumes T: "tables_rep lpm R" and wf: "wf_rules R" and d: "24 < d" "d \<le> 32" "p AND depth_to_mask (of_nat d) = p" and h: "R d p = Some h"
    and s: "sub_entry lpm sub = Some (sub_of (best R p (d - 1)))"
  shows "\<exists>lpm'. delete_depth_big lpm p (of_nat d) sub = Some lpm' \<and> same_rules lpm lpm' \<and> tables_rep lpm' (R(d := (R d)(p := None)))"
proof -
  let ?i = "block p" let ?e = "tbl24 lpm (block p)" let ?r = "depth_to_range (of_nat d)" let ?g = "group_idx ?e"
  let ?R = "R(d := (R d)(p := None))"
  let ?S = "sub_of (best R p (d - 1))"
  let ?s = "?g * 256"
  note cov = covers_big [OF d]
  note D = tables_repD [OF T]
  have d1: "1 \<le> d" "24 \<le> d" using d(1) by simp_all
  have "R d (p AND depth_to_mask (of_nat d)) \<noteq> None" using d(3) h by simp
  then have "long R ?i" unfolding long_def using d(1) by blast
  then have ext: "xt ?e" using D(3) [OF block_less] by simp
  have fits: "256 * ?g + 256 \<le> tbl8_len lpm" by (rule group_fits [OF T block_less ext])
  have hd: "te_valid_group (tbl8 lpm ?s)" using D(5) [OF block_less ext] by (simp add: mult.commute)
  have rd: "rd24 l ?i = Some (tbl24 l ?i)" "wr24 ?i e l = Some (l\<lparr>tbl24 := (tbl24 l)(?i := e)\<rparr>)" for l e
    by (simp_all add: rd24_def wr24_def RTE_LPM_TBL24_NUM_ENTRIES_def)
  have out: "best ?R ip 32 = best R ip 32" if "block ip \<noteq> ?i \<or> \<not> (low p \<le> low ip \<and> low ip < low p + ?r)" for ip
    by (rule best_other) (use that cov(1) in auto)
  let ?U = "upd_del (of_nat d) ?S True"
  let ?a = "?s + low p"
  define t where "t = (\<lambda>x. if ?a \<le> x \<and> x < ?a + ?r then ?U (tbl8 lpm x) else tbl8 lpm x)"
  have loop: "for_range ?a (?a + ?r) (del_entry8 (of_nat d) ?S True) lpm = Some (lpm\<lparr>tbl8 := t\<rparr>)" unfolding t_def
    by (rule loop8 [OF del_entry8_eq]) (use fits cov(2) in auto)
  have t_out: "t x = tbl8 lpm x" if "x div 256 \<noteq> ?g" for x
  proof -
    have "\<not> (?s \<le> x \<and> x < ?s + 256)" using group_range [of x ?g] that by blast
    then have "\<not> (?a \<le> x \<and> x < ?a + ?r)" using cov(2) by auto
    then show ?thesis unfolding t_def by (rule if_not_P)
  qed
  have t_hd: "te_valid_group (t ?s)" using hd by (simp add: t_def upd_del_group)
  have t_cov: "desc (t (256 * ?g + low ip)) (best ?R ip 32)" if ip: "block ip = ?i" for ip
  proof -
    let ?x = "256 * ?g + low ip"
    have sl: "slot lpm ip = tbl8 lpm ?x" using ip ext by (simp add: slot_def Let_def)
    show ?thesis
    proof (cases "low p \<le> low ip \<and> low ip < low p + ?r")
      case True
      then have c: "covers d p ip" using cov(1) ip by simp
      obtain d' h' where b: "best R ip 32 = Some (d', h')" "d \<le> d'" "d' \<le> 32" using covered_valid [OF T d1(1) d(2) c h] by blast
      have "pfx d ip = pfx d p" using covers_pfx [OF d1(1) d(2,3)] c by simp
      then have "pfx (d - 1) ip = pfx (d - 1) p" by (intro pfx_below [of "d - 1" d]) (use d in simp_all)
      then have B: "best R ip (d - 1) = best R p (d - 1)" using d by (intro best_cong) simp_all
      have eq: "best ?R ip 32 = (if d < d' then Some (d', h') else best R p (d - 1))"
        using best_delete [OF c d1(1) d(2), of R] h b(1) B by simp
      have "t ?x = ?U (slot lpm ip)" using True by (simp add: t_def sl)
      moreover have "desc (slot lpm ip) (Some (d', h'))" using D(8) [of ip] b(1) by simp
      from desc_del [OF this b(2,3)] have "desc (?U (slot lpm ip)) (best ?R ip 32)" unfolding eq .
      ultimately show ?thesis by simp
    next
      case False
      then have "t ?x = tbl8 lpm ?x" by (auto simp: t_def)
      then show ?thesis using D(8) [of ip] sl out False by simp
    qed
  qed
  have wf': "wf_rules ?R" using wf by (rule wf_rules_delete)
  have longs: "long ?R j = (long R j \<and> j \<noteq> ?i)" if "\<not> long ?R ?i" for j
    using long_delete_other [of j p d R] d that by (cases "j = ?i") auto
  have longk: "long ?R j = long R j" if "long ?R ?i" for j
    using long_delete_other [of j p d R] d that \<open>long R ?i\<close> by (cases "j = ?i") auto
  let ?l = "lpm\<lparr>tbl8 := t\<rparr>"
  have c: "\<And>ip. block ip = ?i \<Longrightarrow> desc (tbl8 ?l (256 * ?g + low ip)) (best ?R ip 32)" using t_cov by simp
  have f: "256 * ?g + 256 \<le> tbl8_len ?l" using fits by simp
  have "\<exists>r. tbl8_recycle_check ?s ?l = Some r \<and> (case r of
      RecycleKeep \<Rightarrow> long ?R ?i
    | RecycleFree \<Rightarrow> \<not> long ?R ?i \<and> (\<forall>ip. block ip = ?i \<longrightarrow> best ?R ip 32 = None)
    | RecycleMerge \<Rightarrow> \<not> long ?R ?i \<and> te_valid (tbl8 ?l ?s) \<and> (\<forall>ip. block ip = ?i \<longrightarrow> desc (tbl8 ?l ?s) (best ?R ip 32)))"
    by (rule recycle_ok [OF wf' block_less f]) (rule c)
  then obtain r where r: "tbl8_recycle_check ?s ?l = Some r"
    "case r of RecycleKeep \<Rightarrow> long ?R ?i
    | RecycleFree \<Rightarrow> \<not> long ?R ?i \<and> (\<forall>ip. block ip = ?i \<longrightarrow> best ?R ip 32 = None)
    | RecycleMerge \<Rightarrow> \<not> long ?R ?i \<and> te_valid (tbl8 ?l ?s) \<and> (\<forall>ip. block ip = ?i \<longrightarrow> desc (tbl8 ?l ?s) (best ?R ip 32))"
    by (elim exE conjE)
  have m: "rd8 lpm ?s = Some (tbl8 lpm ?s)" "?s < tbl8_len lpm" using fits by (simp_all add: rd8_def)
  note del = delete_depth_big_def [of lpm p "of_nat d" sub, unfolded tbl24_index_eq low_byte RTE_LPM_TBL8_GROUP_NUM_ENTRIES_def Let_def]
  have free: "tbl8_free ?s l = Some (l\<lparr>tbl8 := (tbl8 l)(?s := (tbl8 l ?s)\<lparr>te_valid_group := False\<rparr>)\<rparr>)" if "tbl8_len l = tbl8_len lpm" for l
    using m(2) that by (simp add: tbl8_free_def rd8_def wr8_def)
  have run: "delete_depth_big lpm p (of_nat d) sub = (case r of
       RecycleKeep \<Rightarrow> Some ?l
     | RecycleFree \<Rightarrow> do {
         e \<leftarrow> rd24 ?l ?i;
         lpm \<leftarrow> wr24 ?i (e\<lparr>te_valid := False\<rparr>) ?l;
         tbl8_free ?s lpm }
     | RecycleMerge \<Rightarrow> do {
         x \<leftarrow> rd8 ?l ?s;
         lpm \<leftarrow> wr24 ?i \<lparr>te_next_hop = te_next_hop x, te_valid = True, te_valid_group = False, te_depth = te_depth x\<rparr> ?l;
         tbl8_free ?s lpm })"
    unfolding del using rd(1) s m(1) hd loop r(1) by (cases r) simp_all
  let ?t' = "t(?s := (t ?s)\<lparr>te_valid_group := False\<rparr>)"
  have t'_out: "?t' x = tbl8 lpm x" if "x div 256 \<noteq> ?g" for x
  proof -
    have "x \<noteq> ?s" using that by auto
    then show ?thesis using t_out [OF that] by simp
  qed
  have t'_hd: "\<not> te_valid_group (?t' (256 * ?g))" by (simp add: mult.commute)
  have t_hd2: "te_valid_group (t (256 * ?g))" using t_hd by (simp add: mult.commute)
  have oth: "best ?R ip 32 = best R ip 32" if "block ip \<noteq> ?i" for ip using out that by blast
  show ?thesis
  proof (cases r)
    case RecycleKeep
    then have "tables_rep ?l ?R"
      using r(2) by (intro tables_change [OF T block_less ext refl refl t_out t_hd2 longk oth t_cov]) simp_all
    moreover have "same_rules lpm ?l" by (simp add: same_rules_def)
    ultimately show ?thesis using run RecycleKeep by auto
  next
    case RecycleFree
    then have nl: "\<not> long ?R ?i" and nb: "\<And>ip. block ip = ?i \<Longrightarrow> best ?R ip 32 = None" using r(2) by simp_all
    let ?n = "?e\<lparr>te_valid := False\<rparr>"
    define lpm' where "lpm' = lpm\<lparr>tbl24 := (tbl24 lpm)(?i := ?n), tbl8 := ?t'\<rparr>"
    have "delete_depth_big lpm p (of_nat d) sub = Some lpm'" unfolding run RecycleFree using rd free by (simp add: lpm'_def)
    moreover have "tables_rep lpm' ?R"
    proof (rule tables_release [OF T block_less ext refl lpm'_def _ t'_out t'_hd longs [OF nl] oth])
      show "\<not> xt ?n" by (simp add: xt_def)
      show "desc ?n (best ?R ip 32)" if "block ip = ?i" for ip using nb [OF that] by (simp add: desc_def)
    qed
    moreover have "same_rules lpm lpm'" by (simp add: same_rules_def lpm'_def)
    ultimately show ?thesis by blast
  next
    case RecycleMerge
    then have nl: "\<not> long ?R ?i" and v: "te_valid (t ?s)" and nb: "\<And>ip. block ip = ?i \<Longrightarrow> desc (t ?s) (best ?R ip 32)" using r(2) by simp_all
    let ?n = "\<lparr>te_next_hop = te_next_hop (t ?s), te_valid = True, te_valid_group = False, te_depth = te_depth (t ?s)\<rparr>"
    define lpm' where "lpm' = lpm\<lparr>tbl24 := (tbl24 lpm)(?i := ?n), tbl8 := ?t'\<rparr>"
    have "rd8 ?l ?s = Some (t ?s)" using m(2) by (simp add: rd8_def)
    then have "delete_depth_big lpm p (of_nat d) sub = Some lpm'" unfolding run RecycleMerge using rd free by (simp add: lpm'_def)
    moreover have "tables_rep lpm' ?R"
    proof (rule tables_release [OF T block_less ext refl lpm'_def _ t'_out t'_hd longs [OF nl] oth])
      show "\<not> xt ?n" by (simp add: xt_def)
      show "desc ?n (best ?R ip 32)" if "block ip = ?i" for ip using nb [OF that] v by (simp add: desc_def)
    qed
    moreover have "same_rules lpm lpm'" by (simp add: same_rules_def lpm'_def)
    ultimately show ?thesis by blast
  qed
qed

end
