(* ===== verification/LpmApi.thy ===== *)
theory LpmApi
  imports LpmTable
begin

text \<open>
  The operations of \<^verbatim>\<open>lib/librte_lpm\<close> implement a set of rules with longest prefix match: the
  interface of such a table as a locale, its interpretation on the model of the library, and the
  properties of the library that follow.
\<close>

section \<open>Looking up\<close>

lemma bit_entry_word:
  "bit (entry_word e) n \<longleftrightarrow> (if n < 24 then bit (te_next_hop e) n else if n = 24 then te_valid e
     else if n = 25 then te_valid_group e else n < 32 \<and> bit (te_depth e) (n - 26))"
  unfolding entry_word_def
  by (auto simp: bit_or_iff bit_push_bit_iff bit_unsigned_iff bit_of_bool_iff dest: bit_imp_le_length)

lemma bit_ext_mask: "bit RTE_LPM_VALID_EXT_ENTRY_BITMASK n \<longleftrightarrow> n = 24 \<or> n = 25"
proof -
  have m: "RTE_LPM_VALID_EXT_ENTRY_BITMASK = push_bit 24 1 OR push_bit 25 1" by (simp add: RTE_LPM_VALID_EXT_ENTRY_BITMASK_def push_bit_eq_mult)
  show ?thesis unfolding m bit_or_iff bit_push_bit_iff bit_1_iff by auto
qed

lemma ext_test: "entry_word e AND RTE_LPM_VALID_EXT_ENTRY_BITMASK = RTE_LPM_VALID_EXT_ENTRY_BITMASK \<longleftrightarrow> xt e"
proof
  assume a: "entry_word e AND RTE_LPM_VALID_EXT_ENTRY_BITMASK = RTE_LPM_VALID_EXT_ENTRY_BITMASK"
  have "bit (entry_word e) n" if "n = 24 \<or> n = 25" for n using that bit_ext_mask [of n] bit_and_iff a by metis
  from this [of 24] this [of 25] show "xt e" by (simp add: bit_entry_word xt_def)
next
  assume "xt e"
  then show "entry_word e AND RTE_LPM_VALID_EXT_ENTRY_BITMASK = RTE_LPM_VALID_EXT_ENTRY_BITMASK"
    by (intro bit_word_eqI) (auto simp: bit_and_iff bit_ext_mask bit_entry_word xt_def)
qed

lemma hit_test: "entry_word e AND RTE_LPM_LOOKUP_SUCCESS \<noteq> 0 \<longleftrightarrow> te_valid e"
proof -
  have "RTE_LPM_LOOKUP_SUCCESS = push_bit 24 1" by (simp add: RTE_LPM_LOOKUP_SUCCESS_def push_bit_eq_mult)
  then have "entry_word e AND RTE_LPM_LOOKUP_SUCCESS \<noteq> 0 \<longleftrightarrow> bit (entry_word e) 24"
    by (simp only: bit_iff_and_push_bit_not_eq_0)
  then show ?thesis by (simp add: bit_entry_word)
qed

lemma hop_mask: "(0x00FFFFFF :: u32) = mask 24"
  by (simp add: mask_eq_exp_minus_1)

lemma hop_of_word: "entry_word e AND 0x00FFFFFF = ucast (te_next_hop e)"
  unfolding hop_mask by (intro bit_word_eqI) (auto simp: bit_and_iff bit_mask_iff bit_entry_word bit_unsigned_iff dest: bit_imp_le_length)

lemma hop_24: "ucast (ucast h :: 24 word) = (h AND 0x00FFFFFF :: u32)"
  unfolding hop_mask by (intro bit_word_eqI) (auto simp: bit_and_iff bit_mask_iff bit_unsigned_iff)

lemma lookup_index:
  "unat (ucast (ucast ip :: u8) + (entry_word e AND 0x00FFFFFF) * of_nat RTE_LPM_TBL8_GROUP_NUM_ENTRIES :: u32) = 256 * group_idx e + low ip"
proof -
  have g: "group_idx e < 2 ^ 24" using unat_lt_2p [of "te_next_hop e"] by simp
  have l: "unat (ucast (ucast ip :: u8) :: u32) = low ip" by (simp add: unsigned_ucast_eq take_bit_eq_mod unat_mod)
  have "unat (ucast (te_next_hop e) * 256 :: u32) = group_idx e * 256"
    using g by (subst unat_mult_lem [THEN iffD1]) simp_all
  then show ?thesis unfolding hop_of_word RTE_LPM_TBL8_GROUP_NUM_ENTRIES_def
    using l g by (subst unat_plus_simple) (simp_all add: mult.commute)
qed

lemma lookup_word_ok:
  assumes "tables_rep lpm R"
  shows "lookup_word lpm ip = Some (entry_word (slot lpm ip))"
proof -
  let ?e = "tbl24 lpm (block ip)"
  have r: "rd24 lpm (tbl24_index ip) = Some ?e" by (simp add: rd24_def tbl24_index_eq RTE_LPM_TBL24_NUM_ENTRIES_def)
  show ?thesis
  proof (cases "xt ?e")
    case True
    have "low ip < 256" by simp
    then have "256 * group_idx ?e + low ip < tbl8_len lpm" using group_fits [OF assms block_less True] by linarith
    then show ?thesis using r True unfolding lookup_word_def Let_def lookup_index
      by (simp add: ext_test rd8_def slot_def)
  next
    case False
    then show ?thesis using r by (simp add: lookup_word_def ext_test slot_def Let_def)
  qed
qed

lemma lookup_ok:
  assumes "tables_rep lpm R"
  shows "\<exists>w. rte_lpm_lookup lpm ip = Some w \<and> (case best R ip 32 of
    Some (d, h) \<Rightarrow> w = (h AND 0x00FFFFFF, None) | None \<Rightarrow> snd w = Some ENOENT)"
  using lookup_word_ok [OF assms, of ip] tables_repD(8) [OF assms, of ip]
  by (auto simp: rte_lpm_lookup_def hit_test hop_of_word hop_24 desc_def split: option.splits)
section \<open>Four lookups at once\<close>

lemma pair64_and: "pair64 a b AND pair64 c d = pair64 (a AND c) (b AND d)"
  unfolding pair64_def
  by (intro bit_word_eqI) (auto simp: bit_and_iff bit_or_iff bit_push_bit_iff bit_unsigned_iff dest: bit_imp_le_length)

lemma pair64_low: "ucast (pair64 a b) = a"
  unfolding pair64_def by (intro bit_word_eqI) (auto simp: bit_or_iff bit_push_bit_iff bit_unsigned_iff)

lemma pair64_high: "drop_bit 32 (pair64 a b) = ucast b"
  unfolding pair64_def
  by (intro bit_word_eqI) (auto simp: bit_drop_bit_eq bit_or_iff bit_push_bit_iff bit_unsigned_iff dest: bit_imp_le_length)

lemma back32: "(ucast (ucast x :: u64) :: u32) = x" for x :: u32
  by (intro bit_word_eqI) (auto simp: bit_unsigned_iff)

lemma pair64_eq: "pair64 a b = pair64 c d \<longleftrightarrow> a = c \<and> b = d"
proof
  assume e: "pair64 a b = pair64 c d"
  have "(ucast (ucast b :: u64) :: u32) = ucast (ucast d :: u64)" using arg_cong [OF e, of "\<lambda>x. ucast (drop_bit 32 x) :: u32"] by (simp only: pair64_high)
  moreover have "a = c" using arg_cong [OF e, of "ucast :: u64 \<Rightarrow> u32"] by (simp only: pair64_low)
  ultimately show "a = c \<and> b = d" by (simp only: back32)
qed simp

lemma ext_low: "pair64 a b AND ucast RTE_LPM_VALID_EXT_ENTRY_BITMASK = ucast RTE_LPM_VALID_EXT_ENTRY_BITMASK \<longleftrightarrow>
    a AND RTE_LPM_VALID_EXT_ENTRY_BITMASK = RTE_LPM_VALID_EXT_ENTRY_BITMASK"
proof -
  have "(ucast RTE_LPM_VALID_EXT_ENTRY_BITMASK :: u64) = pair64 RTE_LPM_VALID_EXT_ENTRY_BITMASK 0" by (simp add: pair64_def)
  then show ?thesis by (simp only: pair64_and pair64_eq) simp
qed

lemma ext_high: "(ucast b :: u64) AND ucast RTE_LPM_VALID_EXT_ENTRY_BITMASK = ucast RTE_LPM_VALID_EXT_ENTRY_BITMASK \<longleftrightarrow>
    b AND RTE_LPM_VALID_EXT_ENTRY_BITMASK = RTE_LPM_VALID_EXT_ENTRY_BITMASK"
  using ext_low [of b 0] by (simp add: pair64_def)

text \<open>The entry of a lane: the group is taken modulo 256.\<close>

definition slot8 :: "rte_lpm \<Rightarrow> u32 \<Rightarrow> rte_lpm_tbl_entry" where
  "slot8 lpm ip = (let e = tbl24 lpm (block ip) in if xt e then tbl8 lpm (256 * (group_idx e mod 256) + low ip) else e)"

lemma x4_index: "unat ((ip AND 0xFF) + ucast (ucast (entry_word e) :: u8) * of_nat RTE_LPM_TBL8_GROUP_NUM_ENTRIES :: u32) =
    256 * (group_idx e mod 256) + low ip"
proof -
  have m: "(0xFF :: u32) = mask 8" by (simp add: mask_eq_exp_minus_1)
  have l: "unat (ip AND 0xFF) = low ip" unfolding m take_bit_eq_mask [symmetric] by (simp add: unsigned_take_bit_eq) (simp add: take_bit_eq_mod)
  have "(ucast (entry_word e) :: u8) = ucast (te_next_hop e)"
    by (intro bit_word_eqI) (simp add: bit_unsigned_iff bit_entry_word)
  then have g: "unat (ucast (ucast (entry_word e) :: u8) :: u32) = group_idx e mod 256"
    using unat_lt_2p [of "te_next_hop e"] by (simp add: unsigned_ucast_eq take_bit_eq_mod unat_mod)
  have b: "group_idx e mod 256 < 256" "low ip < 256" by simp_all
  have "unat (ucast (ucast (entry_word e) :: u8) * 256 :: u32) = (group_idx e mod 256) * 256"
    using g b by (subst unat_mult_lem [THEN iffD1]) simp_all
  then show ?thesis unfolding RTE_LPM_TBL8_GROUP_NUM_ENTRIES_def
    using l b by (subst unat_plus_simple) (simp_all add: mult.commute)
qed

lemma x4_lane:
  assumes "xt (tbl24 lpm (block ip)) \<Longrightarrow> 256 * (group_idx (tbl24 lpm (block ip)) mod 256) + low ip < tbl8_len lpm"
    and "pt AND ucast RTE_LPM_VALID_EXT_ENTRY_BITMASK = ucast RTE_LPM_VALID_EXT_ENTRY_BITMASK \<longleftrightarrow> xt (tbl24 lpm (block ip))"
  shows "x4_group lpm pt (entry_word (tbl24 lpm (block ip))) ip = Some (entry_word (slot8 lpm ip))"
  using assms unfolding x4_group_def Let_def x4_index by (simp add: slot8_def rd8_def)

lemma hit_only: "entry_word e AND RTE_LPM_VALID_EXT_ENTRY_BITMASK = RTE_LPM_LOOKUP_SUCCESS \<longleftrightarrow> te_valid e \<and> \<not> te_valid_group e"
proof
  assume a: "entry_word e AND RTE_LPM_VALID_EXT_ENTRY_BITMASK = RTE_LPM_LOOKUP_SUCCESS"
  have "bit (entry_word e AND RTE_LPM_VALID_EXT_ENTRY_BITMASK) 24" "\<not> bit (entry_word e AND RTE_LPM_VALID_EXT_ENTRY_BITMASK) 25"
    unfolding a RTE_LPM_LOOKUP_SUCCESS_def by simp_all
  then show "te_valid e \<and> \<not> te_valid_group e" by (simp add: bit_and_iff bit_ext_mask bit_entry_word)
next
  assume "te_valid e \<and> \<not> te_valid_group e"
  moreover have p: "RTE_LPM_LOOKUP_SUCCESS = push_bit 24 1" by (simp add: RTE_LPM_LOOKUP_SUCCESS_def push_bit_eq_mult)
  have "bit RTE_LPM_LOOKUP_SUCCESS n \<longleftrightarrow> n = 24" for n unfolding p bit_push_bit_iff bit_1_iff by auto
  ultimately show "entry_word e AND RTE_LPM_VALID_EXT_ENTRY_BITMASK = RTE_LPM_LOOKUP_SUCCESS"
    by (intro bit_word_eqI) (auto simp: bit_and_iff bit_ext_mask bit_entry_word)
qed

lemma mask_res: "RTE_LPM_MASKX4_RES = pair64 0x00FFFFFF 0x00FFFFFF"
  by (simp add: RTE_LPM_MASKX4_RES_def pair64_def push_bit_eq_mult)

lemma x4_fast: "x4_hop defv (entry_word (slot8 lpm ip)) = entry_word (tbl24 lpm (block ip)) AND 0x00FFFFFF"
  if "te_valid (tbl24 lpm (block ip)) \<and> \<not> te_valid_group (tbl24 lpm (block ip))"
  using that by (simp add: slot8_def xt_def x4_hop_def hit_test)

lemma lookupx4_ok:
  assumes "\<And>ip. ip \<in> {ip0, ip1, ip2, ip3} \<Longrightarrow> xt (tbl24 lpm (block ip)) \<Longrightarrow> 256 * (group_idx (tbl24 lpm (block ip)) mod 256) + low ip < tbl8_len lpm"
  shows "rte_lpm_lookupx4 lpm (ip0, ip1, ip2, ip3) defv =
    (let f = \<lambda>ip. x4_hop defv (entry_word (slot8 lpm ip)) in Some (f ip0, f ip1, f ip2, f ip3))"
proof -
  let ?e = "\<lambda>ip. tbl24 lpm (block ip)" let ?w = "\<lambda>ip. entry_word (tbl24 lpm (block ip))"
  let ?hit = "\<lambda>ip. te_valid (?e ip) \<and> \<not> te_valid_group (?e ip)"
  have r: "rd24 lpm (tbl24_index ip) = Some (?e ip)" for ip by (simp add: rd24_def tbl24_index_eq RTE_LPM_TBL24_NUM_ENTRIES_def)
  have t: "pair64 (?w a) (?w b) AND pair64 RTE_LPM_VALID_EXT_ENTRY_BITMASK RTE_LPM_VALID_EXT_ENTRY_BITMASK =
      pair64 RTE_LPM_LOOKUP_SUCCESS RTE_LPM_LOOKUP_SUCCESS \<longleftrightarrow> ?hit a \<and> ?hit b" for a b
    unfolding pair64_and pair64_eq hit_only ..
  have lo: "x4_group lpm (pair64 (?w a) x) (?w a) a = Some (entry_word (slot8 lpm a))" if "a \<in> {ip0, ip1, ip2, ip3}" for a x
    by (rule x4_lane) (use assms [OF that] in \<open>simp_all only: ext_low ext_test\<close>)
  have hi: "x4_group lpm (drop_bit 32 (pair64 x (?w a))) (?w a) a = Some (entry_word (slot8 lpm a))" if "a \<in> {ip0, ip1, ip2, ip3}" for a x
    by (rule x4_lane) (use assms [OF that] in \<open>simp_all only: pair64_high ext_high ext_test\<close>)
  show ?thesis
  proof (cases "(?hit ip0 \<and> ?hit ip1) \<and> ?hit ip2 \<and> ?hit ip3")
    case True
    show ?thesis
      unfolding rte_lpm_lookupx4_def prod.case r Option.bind.bind_lunit Let_def t if_P [OF True]
      unfolding mask_res pair64_and pair64_low pair64_high back32
      using True by (simp add: x4_fast)
  next
    case False
    have m: "ip0 \<in> {ip0, ip1, ip2, ip3}" "ip1 \<in> {ip0, ip1, ip2, ip3}" "ip2 \<in> {ip0, ip1, ip2, ip3}" "ip3 \<in> {ip0, ip1, ip2, ip3}" by simp_all
    show ?thesis
      unfolding rte_lpm_lookupx4_def prod.case r Option.bind.bind_lunit Let_def t if_not_P [OF False]
        lo [OF m(1)] hi [OF m(2)] lo [OF m(3)] hi [OF m(4)] ..
  qed
qed

text \<open>What a lane gets from a set of rules.\<close>

definition hop_or :: "rules \<Rightarrow> u32 \<Rightarrow> u32 \<Rightarrow> u32" where
  "hop_or R defv ip = (case best R ip 32 of Some (d, h) \<Rightarrow> h AND 0x00FFFFFF | None \<Rightarrow> defv)"

lemma lookupx4_rules:
  assumes T: "tables_rep lpm R" and g: "groups lpm \<le> 256"
  shows "rte_lpm_lookupx4 lpm (ip0, ip1, ip2, ip3) defv = Some (hop_or R defv ip0, hop_or R defv ip1, hop_or R defv ip2, hop_or R defv ip3)"
proof -
  note D = tables_repD [OF T]
  have s: "group_idx (tbl24 lpm (block ip)) < 256" if "xt (tbl24 lpm (block ip))" for ip using D(4) [OF block_less that] g by linarith
  have fit: "256 * (group_idx (tbl24 lpm (block ip)) mod 256) + low ip < tbl8_len lpm" if "xt (tbl24 lpm (block ip))" for ip
  proof -
    have "low ip < 256" by simp
    then show ?thesis using group_fits [OF T block_less that] s [OF that] by simp
  qed
  have "slot8 lpm ip = slot lpm ip" for ip using s [of ip] by (simp add: slot8_def slot_def Let_def)
  then have "x4_hop defv (entry_word (slot8 lpm ip)) = hop_or R defv ip" for ip
    using D(8) [of ip] by (auto simp: x4_hop_def hit_test hop_of_word hop_24 desc_def hop_or_def split: option.splits)
  then show ?thesis using lookupx4_ok [OF fit] by (simp add: Let_def)
qed

section \<open>Counting\<close>

text \<open>The number of rules, and of blocks that need a group.\<close>

definition rule_total :: "rules \<Rightarrow> nat" where
  "rule_total R = (\<Sum>k < 32. card (dom (R (Suc k))))"

definition block_total :: "rules \<Rightarrow> nat" where
  "block_total R = card {i. i < 2 ^ 24 \<and> long R i}"

lemma off_total:
  assumes "rules_rep lpm R"
  shows "off lpm 32 = rule_total R"
  unfolding off_def rule_total_def
proof (rule sum.cong [OF refl])
  fix k :: nat assume "k \<in> {..<32}"
  then have "rule_bag (group_bag lpm k) (R (Suc k))" using assms by (simp add: rules_rep_def)
  from rule_bag_size [OF this] show "ucnt lpm k = card (dom (R (Suc k)))" by simp
qed

lemma groups_full:
  assumes T: "tables_rep lpm R" and full: "\<forall>g < groups lpm. te_valid_group (tbl8 lpm (256 * g))"
  shows "block_total R = groups lpm"
proof -
  note D = tables_repD [OF T]
  let ?B = "{i. i < 2 ^ 24 \<and> long R i}"
  have "bij_betw (\<lambda>i. group_idx (tbl24 lpm i)) ?B {..<groups lpm}"
  proof (intro bij_betwI')
    fix i j assume i: "i \<in> ?B" and j: "j \<in> ?B"
    then have "xt (tbl24 lpm i)" "xt (tbl24 lpm j)" using D(3) by simp_all
    then show "(group_idx (tbl24 lpm i) = group_idx (tbl24 lpm j)) = (i = j)" using D(6) [of i j] i j by auto
  next
    fix i assume i: "i \<in> ?B"
    then have "xt (tbl24 lpm i)" using D(3) by simp
    then show "group_idx (tbl24 lpm i) \<in> {..<groups lpm}" using D(4) i by simp
  next
    fix g assume "g \<in> {..<groups lpm}"
    then obtain i where i: "i < 2 ^ 24" "xt (tbl24 lpm i)" "group_idx (tbl24 lpm i) = g" using D(7) full by auto
    then have "i \<in> ?B" using D(3) by simp
    then show "\<exists>i \<in> ?B. g = group_idx (tbl24 lpm i)" using i(3) by blast
  qed
  then show ?thesis unfolding block_total_def using bij_betw_same_card by fastforce
qed

section \<open>Adding and deleting\<close>

definition prefix_of :: "u32 \<Rightarrow> u8 \<Rightarrow> u32" where
  "prefix_of ip depth = ip AND depth_to_mask depth"

definition bad_depth :: "u8 \<Rightarrow> bool" where
  "bad_depth depth \<longleftrightarrow> unat depth < 1 \<or> 32 < unat depth"

lemma bad_depth_code: "depth < 1 \<or> depth > of_nat RTE_LPM_MAX_DEPTH \<longleftrightarrow> bad_depth depth"
  by (simp add: bad_depth_def RTE_LPM_MAX_DEPTH_def word_less_nat_alt)

lemma prefix_idem: "prefix_of ip depth AND depth_to_mask depth = prefix_of ip depth"
  by (simp add: prefix_of_def ac_simps)

definition put_rule :: "u32 \<Rightarrow> u8 \<Rightarrow> u32 \<Rightarrow> rules \<Rightarrow> rules" where
  "put_rule ip depth h R = R(unat depth := (R (unat depth))(prefix_of ip depth \<mapsto> h))"

definition drop_rule :: "u32 \<Rightarrow> u8 \<Rightarrow> rules \<Rightarrow> rules" where
  "drop_rule ip depth R = R(unat depth := (R (unat depth))(prefix_of ip depth := None))"

lemma rep_total: "rules_rep lpm R \<Longrightarrow> rule_total R \<le> unat (max_rules lpm)"
  using off_total [of lpm R] by (simp add: rules_rep_def placed_def)

text \<open>
  An addition succeeds, or reports an invalid length, or reports that there is no room for a new
  rule: the rule table is full, or the rule needs a group and all groups are in use. Whenever it fails
  the rules stay as they are.
\<close>

lemma add_ok:
  assumes ok: "lpm_ok lpm R"
  shows "\<exists>lpm' r. rte_lpm_add lpm ip depth h = Some (lpm', r) \<and> max_rules lpm' = max_rules lpm \<and> number_tbl8s lpm' = number_tbl8s lpm \<and>
    (if bad_depth depth then r = Some EINVAL \<and> lpm' = lpm
     else if r = None then lpm_ok lpm' (put_rule ip depth h R)
     else r = Some ENOSPC \<and> lpm_ok lpm' R \<and> R (unat depth) (prefix_of ip depth) = None \<and>
       (rule_total R = unat (max_rules lpm) \<or> 24 < unat depth \<and> \<not> long R (block ip) \<and> block_total R = groups lpm))"
proof (cases "bad_depth depth")
  case True
  then show ?thesis using bad_depth_code [of depth] by (simp add: rte_lpm_add_def)
next
  case False
  let ?d = "unat depth" let ?p = "prefix_of ip depth"
  let ?R = "R(?d := (R ?d)(?p \<mapsto> h))"
  have d: "1 \<le> ?d" "?d \<le> 32" using False by (simp_all add: bad_depth_def)
  have n: "depth = of_nat ?d" by simp
  have idem: "?p AND depth_to_mask (of_nat ?d) = ?p" using prefix_idem by simp
  have wf: "wf_rules R" and RR: "rules_rep lpm R" and T: "tables_rep lpm R" using ok by (simp_all add: lpm_ok_def)
  have wf': "wf_rules ?R" by (rule wf_rules_add [OF wf d idem])
  note add = rte_lpm_add_def [of lpm ip depth h, unfolded bad_depth_code if_not_P [OF False] Let_def, folded prefix_of_def]
  from rule_add_ok [OF RR d, of ?p h] obtain lpm1 r where a: "rule_add lpm ?p depth h = Some (lpm1, r)" "same_tables lpm lpm1"
    "if R ?d ?p = None \<and> off lpm 32 = unat (max_rules lpm) then r = Inl ENOSPC \<and> rules_rep lpm1 R
     else \<exists>k. r = Inr k \<and> rules_rep lpm1 ?R \<and> fpos lpm1 (?d - 1) \<le> k \<and> k < fpos lpm1 (?d - 1) + ucnt lpm1 (?d - 1) \<and>
       rules_tbl lpm1 k = \<lparr>rule_ip = ?p, rule_next_hop = h\<rparr>"
    unfolding n [symmetric] by blast
  have T1: "tables_rep lpm1 R" by (rule same_tables_rep [OF T a(2)])
  have s1: "max_rules lpm1 = max_rules lpm" "number_tbl8s lpm1 = number_tbl8s lpm" "tbl8 lpm1 = tbl8 lpm" using a(2) by (simp_all add: same_tables_def)
  show ?thesis
  proof (cases "R ?d ?p = None \<and> off lpm 32 = unat (max_rules lpm)")
    case True
    then have r: "r = Inl ENOSPC" "rules_rep lpm1 R" using a(3) by simp_all
    then have "rte_lpm_add lpm ip depth h = Some (lpm1, Some ENOSPC)" using add a(1) by simp
    then show ?thesis using True False r wf T1 s1 off_total [OF RR] by (simp add: lpm_ok_def)
  next
    case room: False
    then obtain k where k: "r = Inr k" "rules_rep lpm1 ?R" "fpos lpm1 (?d - 1) \<le> k" "k < fpos lpm1 (?d - 1) + ucnt lpm1 (?d - 1)"
        "rules_tbl lpm1 k = \<lparr>rule_ip = ?p, rule_next_hop = h\<rparr>" using a(3) by auto
    show ?thesis
    proof (cases "?d \<le> 24")
      case True
      then have le: "depth \<le> MAX_DEPTH_TBL24" by (simp add: MAX_DEPTH_TBL24_def word_le_nat_alt)
      from add_small_ok [OF T1 d(1) True idem, of h] obtain lpm2 where
        l2: "add_depth_small lpm1 ?p depth h = Some lpm2" "same_rules lpm1 lpm2" "tables_rep lpm2 ?R" unfolding n [symmetric] by blast
      have "rte_lpm_add lpm ip depth h = Some (lpm2, None)" using add a(1) k(1) le l2(1) by simp
      moreover have "lpm_ok lpm2 (put_rule ip depth h R)" using wf' l2(3) same_rules_rep [OF k(2) l2(2)] by (simp add: lpm_ok_def put_rule_def)
      moreover have "max_rules lpm2 = max_rules lpm" "number_tbl8s lpm2 = number_tbl8s lpm" using l2(2) s1 by (simp_all add: same_rules_def)
      ultimately show ?thesis using False by simp
    next
      case big: False
      then have d24: "24 < ?d" and nle: "\<not> depth \<le> MAX_DEPTH_TBL24" by (simp_all add: MAX_DEPTH_TBL24_def word_le_nat_alt)
      from add_big_ok [OF T1 d24 d(2) idem, of h] show ?thesis
      proof
        assume "\<exists>lpm'. add_depth_big lpm1 ?p (of_nat ?d) h = Some (lpm', None) \<and> same_rules lpm1 lpm' \<and> tables_rep lpm' ?R"
        then obtain lpm2 where l2: "add_depth_big lpm1 ?p depth h = Some (lpm2, None)" "same_rules lpm1 lpm2" "tables_rep lpm2 ?R"
          unfolding n [symmetric] by blast
        have "rte_lpm_add lpm ip depth h = Some (lpm2, None)" using add a(1) k(1) nle l2(1) by simp
        moreover have "lpm_ok lpm2 (put_rule ip depth h R)" using wf' l2(3) same_rules_rep [OF k(2) l2(2)] by (simp add: lpm_ok_def put_rule_def)
        moreover have "max_rules lpm2 = max_rules lpm" "number_tbl8s lpm2 = number_tbl8s lpm" using l2(2) s1 by (simp_all add: same_rules_def)
        ultimately show ?thesis using False by simp
      next
        assume "add_depth_big lpm1 ?p (of_nat ?d) h = Some (lpm1, Some ENOSPC) \<and> \<not> long R (block ?p) \<and>
          (\<forall>g < groups lpm1. te_valid_group (tbl8 lpm1 (256 * g)))"
        then have b: "add_depth_big lpm1 ?p depth h = Some (lpm1, Some ENOSPC)" "\<not> long R (block ?p)"
          "\<forall>g < groups lpm1. te_valid_group (tbl8 lpm1 (256 * g))" unfolding n [symmetric] by blast+
        have bp: "block ?p = block ip" using masked_block [of ?d ip] d d24 by (simp add: prefix_of_def)
        have nR: "R ?d ?p = None"
        proof (rule ccontr)
          assume "R ?d ?p \<noteq> None"
          then have "R ?d (?p AND depth_to_mask (of_nat ?d)) \<noteq> None" using idem by simp
          then show False using b(2) d24 unfolding long_def by blast
        qed
        have "rule_ip (rules_tbl lpm1 k) = ?p" using k(5) by simp
        from rule_delete_ok [OF k(2) d k(3,4) this] obtain lpm2 where
          l2: "rule_delete k depth lpm1 = Some lpm2" "same_tables lpm1 lpm2" "rules_rep lpm2 (?R(?d := (?R ?d)(?p := None)))"
          unfolding n [symmetric] by blast
        have undo: "?R(?d := (?R ?d)(?p := None)) = R" using nR by (auto simp: fun_eq_iff)
        have "rte_lpm_add lpm ip depth h = Some (lpm2, Some ENOSPC)" using add a(1) k(1) nle b(1) l2(1) by simp
        moreover have "lpm_ok lpm2 R" using wf l2(3) same_tables_rep [OF T1 l2(2)] unfolding undo by (simp add: lpm_ok_def)
        moreover have "max_rules lpm2 = max_rules lpm" "number_tbl8s lpm2 = number_tbl8s lpm" using l2(2) s1 by (simp_all add: same_tables_def)
        moreover have "block_total R = groups lpm" using groups_full [OF T1 b(3)] s1 by simp
        ultimately show ?thesis using False nR d24 b(2) bp by simp
      qed
    qed
  qed
qed

lemma delete_ok:
  assumes ok: "lpm_ok lpm R"
  shows "\<exists>lpm' r. rte_lpm_delete lpm ip depth = Some (lpm', r) \<and> max_rules lpm' = max_rules lpm \<and> number_tbl8s lpm' = number_tbl8s lpm \<and>
    (if bad_depth depth \<or> R (unat depth) (prefix_of ip depth) = None then r = Some EINVAL \<and> lpm' = lpm
     else r = None \<and> lpm_ok lpm' (drop_rule ip depth R))"
proof (cases "bad_depth depth")
  case True
  then show ?thesis using bad_depth_code [of depth] by (simp add: rte_lpm_delete_def)
next
  case False
  let ?d = "unat depth" let ?p = "prefix_of ip depth"
  let ?R = "R(?d := (R ?d)(?p := None))"
  have d: "1 \<le> ?d" "?d \<le> 32" using False by (simp_all add: bad_depth_def)
  have n: "depth = of_nat ?d" by simp
  have idem: "?p AND depth_to_mask (of_nat ?d) = ?p" using prefix_idem by simp
  have wf: "wf_rules R" and RR: "rules_rep lpm R" and T: "tables_rep lpm R" using ok by (simp_all add: lpm_ok_def)
  have wf': "wf_rules ?R" by (rule wf_rules_delete [OF wf])
  note del = rte_lpm_delete_def [of lpm ip depth, unfolded bad_depth_code if_not_P [OF False] Let_def, folded prefix_of_def]
  from rule_find_ok [OF RR d, of ?p] obtain r where r: "rule_find lpm ?p depth = Some r"
    "case r of Some i \<Rightarrow> fpos lpm (?d - 1) \<le> i \<and> i < fpos lpm (?d - 1) + ucnt lpm (?d - 1) \<and> rule_ip (rules_tbl lpm i) = ?p \<and>
        rd_rule lpm i = Some (rules_tbl lpm i) \<and> R ?d ?p = Some (rule_next_hop (rules_tbl lpm i))
    | None \<Rightarrow> R ?d ?p = None" unfolding n [symmetric] by blast
  show ?thesis
  proof (cases r)
    case None
    then have "rte_lpm_delete lpm ip depth = Some (lpm, Some EINVAL)" using del r(1) by simp
    then show ?thesis using r(2) None by simp
  next
    case (Some i)
    then have i: "fpos lpm (?d - 1) \<le> i" "i < fpos lpm (?d - 1) + ucnt lpm (?d - 1)" "rule_ip (rules_tbl lpm i) = ?p"
      and nR: "R ?d ?p = Some (rule_next_hop (rules_tbl lpm i))" using r(2) by simp_all
    from rule_delete_ok [OF RR d i] obtain lpm1 where
      l1: "rule_delete i depth lpm = Some lpm1" "same_tables lpm lpm1" "rules_rep lpm1 ?R" unfolding n [symmetric] by blast
    have T1: "tables_rep lpm1 R" by (rule same_tables_rep [OF T l1(2)])
    have d8: "unat (depth - 1) = ?d - 1" using d(1) by (simp add: unat_sub_simple word_le_nat_alt)
    have "?d - 1 \<le> 32" using d(2) by simp
    from find_previous_ok [OF l1(3) this, of ip] obtain sub where sub: "find_previous_rule lpm1 ip depth = Some sub"
      "case sub of Some (k, d') \<Rightarrow> rd_rule lpm1 k = Some (rules_tbl lpm1 k) \<and> best ?R ip (?d - 1) = Some (unat d', rule_next_hop (rules_tbl lpm1 k))
      | None \<Rightarrow> best ?R ip (?d - 1) = None" unfolding find_previous_rule_def d8 by blast
    have "best ?R ip (?d - 1) = best R ip (?d - 1)" by (rule best_lower) (use d in simp)
    moreover have "best R ip (?d - 1) = best R ?p (?d - 1)"
    proof (rule best_cong)
      show "?d - 1 \<le> 32" using d(2) by simp
      have "pfx ?d ip = pfx ?d ?p" using masked_iff [OF d, of ip ?p] idem by (simp add: prefix_of_def)
      then show "pfx (?d - 1) ip = pfx (?d - 1) ?p" by (intro pfx_below [of "?d - 1" ?d]) (use d in simp_all)
    qed
    ultimately have bst: "best ?R ip (?d - 1) = best R ?p (?d - 1)" by simp
    have s: "sub_entry lpm1 sub = Some (sub_of (best R ?p (?d - 1)))"
    proof (cases sub)
      case None
      then show ?thesis using sub(2) bst by (simp add: sub_entry_def sub_of_def)
    next
      case (Some y)
      then obtain k d' where y: "sub = Some (k, d')" by (cases y) auto
      then have b: "best R ?p (?d - 1) = Some (unat d', rule_next_hop (rules_tbl lpm1 k))" "rd_rule lpm1 k = Some (rules_tbl lpm1 k)"
        using sub(2) bst by simp_all
      have "unat d' \<le> ?d - 1" using best_range [OF b(1)] by blast
      then have "unat d' \<le> 32" using d by linarith
      then have "(ucast d' :: 6 word) = of_nat (unat d')" using depth_conv [of "unat d'"] by simp
      then show ?thesis using b y by (simp add: sub_entry_def sub_of_def)
    qed
    have "\<exists>lpm2. (if depth \<le> MAX_DEPTH_TBL24 then delete_depth_small lpm1 ?p depth sub else delete_depth_big lpm1 ?p depth sub) = Some lpm2 \<and>
        same_rules lpm1 lpm2 \<and> tables_rep lpm2 ?R"
    proof (cases "?d \<le> 24")
      case True
      then have "depth \<le> MAX_DEPTH_TBL24" by (simp add: MAX_DEPTH_TBL24_def word_le_nat_alt)
      then show ?thesis using delete_small_ok [OF T1 d(1) True idem nR s] by simp
    next
      case False
      then have "24 < ?d" "\<not> depth \<le> MAX_DEPTH_TBL24" by (simp_all add: MAX_DEPTH_TBL24_def word_le_nat_alt)
      then show ?thesis using delete_big_ok [OF T1 wf _ d(2) idem nR s] by simp
    qed
    then obtain lpm2 where l2: "(if depth \<le> MAX_DEPTH_TBL24 then delete_depth_small lpm1 ?p depth sub else delete_depth_big lpm1 ?p depth sub) = Some lpm2"
        "same_rules lpm1 lpm2" "tables_rep lpm2 ?R" by blast
    have "rte_lpm_delete lpm ip depth = Some (lpm2, None)" using del r(1) Some l1(1) sub(1) l2(1) by simp
    moreover have "lpm_ok lpm2 (drop_rule ip depth R)" using wf' l2(3) same_rules_rep [OF l1(3) l2(2)] by (simp add: lpm_ok_def drop_rule_def)
    moreover have "max_rules lpm2 = max_rules lpm" "number_tbl8s lpm2 = number_tbl8s lpm" using l1(2) l2(2) by (simp_all add: same_rules_def same_tables_def)
    ultimately show ?thesis using False nR by simp
  qed
qed
section \<open>The abstract table\<close>

text \<open>
  The specification: a set of rules, room for \<open>N\<close> rules and for \<open>G\<close> blocks with rules of more than 24
  bits. An operation has a result and a status.
\<close>

definition spec_add :: "nat \<Rightarrow> nat \<Rightarrow> u32 \<Rightarrow> u8 \<Rightarrow> u32 \<Rightarrow> rules \<Rightarrow> rules \<times> errno option" where
  "spec_add N G ip depth h R =
     (if bad_depth depth then (R, Some EINVAL)
      else if R (unat depth) (prefix_of ip depth) \<noteq> None then (put_rule ip depth h R, None)
      else if rule_total R = N \<or> 24 < unat depth \<and> \<not> long R (block ip) \<and> block_total R = G then (R, Some ENOSPC)
      else (put_rule ip depth h R, None))"

definition spec_delete :: "u32 \<Rightarrow> u8 \<Rightarrow> rules \<Rightarrow> rules \<times> errno option" where
  "spec_delete ip depth R =
     (if bad_depth depth \<or> R (unat depth) (prefix_of ip depth) = None then (R, Some EINVAL) else (drop_rule ip depth R, None))"

text \<open>What a lookup of an address with a longest match returns.\<close>

definition spec_lookup :: "rules \<Rightarrow> u32 \<Rightarrow> u32 \<times> errno option \<Rightarrow> bool" where
  "spec_lookup R ip w \<longleftrightarrow> (case best R ip 32 of
     Some (d, h) \<Rightarrow> w = (h AND 0x00FFFFFF, None) | None \<Rightarrow> snd w = Some ENOENT)"

datatype lpm_op = LpmAdd u32 u8 u32 | LpmDelete u32 u8 | LpmDeleteAll

fun spec_run :: "nat \<Rightarrow> nat \<Rightarrow> lpm_op list \<Rightarrow> rules \<Rightarrow> rules \<times> errno option list" where
  "spec_run N G [] R = (R, [])"
| "spec_run N G (op # ops) R =
     (let (R, r) = (case op of LpmAdd ip d h \<Rightarrow> spec_add N G ip d h R | LpmDelete ip d \<Rightarrow> spec_delete ip d R | LpmDeleteAll \<Rightarrow> (\<lambda>_. Map.empty, None));
          (R, rs) = spec_run N G ops R in (R, r # rs))"

text \<open>Calls of the operations of a table, one after the other, with what they return.\<close>

fun table_run ::
  "('t \<Rightarrow> u32 \<Rightarrow> u8 \<Rightarrow> u32 \<Rightarrow> ('t \<times> errno option) option) \<Rightarrow> ('t \<Rightarrow> u32 \<Rightarrow> u8 \<Rightarrow> ('t \<times> errno option) option) \<Rightarrow> ('t \<Rightarrow> 't option) \<Rightarrow>
    lpm_op list \<Rightarrow> 't \<Rightarrow> ('t \<times> errno option list) option" where
  "table_run add delete clear [] t = Some (t, [])"
| "table_run add delete clear (op # ops) t = do {
     (t, r) \<leftarrow> (case op of LpmAdd ip d h \<Rightarrow> add t ip d h | LpmDelete ip d \<Rightarrow> delete t ip d | LpmDeleteAll \<Rightarrow> map_option (\<lambda>t. (t, None)) (clear t));
     (t, rs) \<leftarrow> table_run add delete clear ops t;
     Some (t, r # rs) }"

text \<open>
  The interface of a table for longest prefix match: its state represents a set of rules within its
  capacities, and its operations do what the specification says.
\<close>

locale prefix_table =
  fixes rep :: "'t \<Rightarrow> rules \<Rightarrow> bool" and cap :: "'t \<Rightarrow> nat \<times> nat"
    and add :: "'t \<Rightarrow> u32 \<Rightarrow> u8 \<Rightarrow> u32 \<Rightarrow> ('t \<times> errno option) option"
    and delete :: "'t \<Rightarrow> u32 \<Rightarrow> u8 \<Rightarrow> ('t \<times> errno option) option"
    and clear :: "'t \<Rightarrow> 't option"
    and lookup :: "'t \<Rightarrow> u32 \<Rightarrow> (u32 \<times> errno option) option"
  assumes add_law: "rep t R \<Longrightarrow> \<exists>t'. add t ip d h = Some (t', snd (spec_add (fst (cap t)) (snd (cap t)) ip d h R)) \<and>
      rep t' (fst (spec_add (fst (cap t)) (snd (cap t)) ip d h R)) \<and> cap t' = cap t"
    and delete_law: "rep t R \<Longrightarrow> \<exists>t'. delete t ip d = Some (t', snd (spec_delete ip d R)) \<and>
      rep t' (fst (spec_delete ip d R)) \<and> cap t' = cap t"
    and clear_law: "rep t R \<Longrightarrow> \<exists>t'. clear t = Some t' \<and> rep t' (\<lambda>_. Map.empty) \<and> cap t' = cap t"
    and lookup_law: "rep t R \<Longrightarrow> \<exists>w. lookup t ip = Some w \<and> spec_lookup R ip w"
begin

lemma run_refines:
  assumes "rep t R"
  shows "\<exists>t'. table_run add delete clear ops t = Some (t', snd (spec_run (fst (cap t)) (snd (cap t)) ops R)) \<and>
    rep t' (fst (spec_run (fst (cap t)) (snd (cap t)) ops R)) \<and> cap t' = cap t"
  using assms
proof (induction ops arbitrary: t R)
  case (Cons op ops)
  let ?N = "fst (cap t)" let ?G = "snd (cap t)"
  obtain R1 r where s: "(case op of LpmAdd ip d h \<Rightarrow> spec_add ?N ?G ip d h R | LpmDelete ip d \<Rightarrow> spec_delete ip d R | LpmDeleteAll \<Rightarrow> (\<lambda>_. Map.empty, None)) = (R1, r)" by fastforce
  have "\<exists>t1. (case op of LpmAdd ip d h \<Rightarrow> add t ip d h | LpmDelete ip d \<Rightarrow> delete t ip d | LpmDeleteAll \<Rightarrow> map_option (\<lambda>t. (t, None)) (clear t)) = Some (t1, r) \<and> rep t1 R1 \<and> cap t1 = cap t"
  proof (cases op)
    case (LpmAdd ip d h)
    then show ?thesis using add_law [OF Cons.prems, of ip d h] s by simp
  next
    case (LpmDelete ip d)
    then show ?thesis using delete_law [OF Cons.prems, of ip d] s by simp
  next
    case LpmDeleteAll
    then show ?thesis using clear_law [OF Cons.prems] s by auto
  qed
  then obtain t1 where t1: "(case op of LpmAdd ip d h \<Rightarrow> add t ip d h | LpmDelete ip d \<Rightarrow> delete t ip d | LpmDeleteAll \<Rightarrow> map_option (\<lambda>t. (t, None)) (clear t)) = Some (t1, r)" "rep t1 R1" "cap t1 = cap t"
    by blast
  obtain R2 rs where s2: "spec_run ?N ?G ops R1 = (R2, rs)" by fastforce
  from Cons.IH [OF t1(2)] s2 obtain t2 where "table_run add delete clear ops t1 = Some (t2, rs)" "rep t2 R2" "cap t2 = cap t" unfolding t1(3) by auto
  then show ?case using t1(1) s s2 by simp
qed simp

lemma run_lookup:
  assumes "rep t R"
  shows "\<exists>t'. table_run add delete clear ops t = Some (t', snd (spec_run (fst (cap t)) (snd (cap t)) ops R)) \<and>
    rep t' (fst (spec_run (fst (cap t)) (snd (cap t)) ops R)) \<and>
    (\<forall>ip. \<exists>w. lookup t' ip = Some w \<and> spec_lookup (fst (spec_run (fst (cap t)) (snd (cap t)) ops R)) ip w)"
  using run_refines [OF assms, of ops] lookup_law by blast

end

section \<open>The library implements it\<close>

lemma rule_total_put:
  assumes "1 \<le> d" "d \<le> 32" "R d p = None"
  shows "rule_total (R(d := (R d)(p \<mapsto> h))) = rule_total R + 1"
proof -
  let ?k = "d - 1"
  have k: "?k \<in> {..<32}" "Suc ?k = d" using assms by auto
  have "(\<Sum>j \<in> {..<32} - {?k}. card (dom ((R(d := (R d)(p \<mapsto> h))) (Suc j)))) = (\<Sum>j \<in> {..<32} - {?k}. card (dom (R (Suc j))))"
    using k by (intro sum.cong) auto
  moreover have "card (dom ((R d)(p \<mapsto> h))) = card (dom (R d)) + 1" using assms(3) by (simp add: card_insert_if domIff)
  ultimately show ?thesis unfolding rule_total_def using k(2)
    by (simp add: sum.remove [OF _ k(1)])
qed

lemma block_total_le:
  assumes T: "tables_rep lpm R"
  shows "block_total R \<le> groups lpm"
proof -
  note D = tables_repD [OF T]
  let ?B = "{i. i < 2 ^ 24 \<and> long R i}"
  have "inj_on (\<lambda>i. group_idx (tbl24 lpm i)) ?B"
  proof (rule inj_onI)
    fix i j assume "i \<in> ?B" "j \<in> ?B" "group_idx (tbl24 lpm i) = group_idx (tbl24 lpm j)"
    then show "i = j" using D(3,6) by simp
  qed
  moreover have "(\<lambda>i. group_idx (tbl24 lpm i)) ` ?B \<subseteq> {..<groups lpm}" using D(3,4) by auto
  ultimately show ?thesis unfolding block_total_def using card_inj_on_le [of _ ?B "{..<groups lpm}"] by simp
qed

lemma block_total_put:
  assumes "24 < d" "d \<le> 32" "p AND depth_to_mask (of_nat d) = p" "\<not> long R (block p)"
  shows "block_total (R(d := (R d)(p \<mapsto> h))) = block_total R + 1"
proof -
  have "{i. i < 2 ^ 24 \<and> long (R(d := (R d)(p \<mapsto> h))) i} = insert (block p) {i. i < 2 ^ 24 \<and> long R i}"
    using long_add [OF assms(1-3)] by auto
  moreover have "block p \<notin> {i. i < 2 ^ 24 \<and> long R i}" using assms(4) by simp
  moreover have "finite {i. i < 2 ^ 24 \<and> long R i}" by simp
  ultimately show ?thesis unfolding block_total_def by (simp only: card_insert_disjoint) simp
qed

lemma add_refines:
  assumes ok: "lpm_ok lpm R"
  shows "\<exists>lpm'. rte_lpm_add lpm ip depth h = Some (lpm', snd (spec_add (unat (max_rules lpm)) (groups lpm) ip depth h R)) \<and>
    lpm_ok lpm' (fst (spec_add (unat (max_rules lpm)) (groups lpm) ip depth h R)) \<and>
    max_rules lpm' = max_rules lpm \<and> number_tbl8s lpm' = number_tbl8s lpm"
proof -
  let ?d = "unat depth" let ?p = "prefix_of ip depth"
  obtain lpm' r where a: "rte_lpm_add lpm ip depth h = Some (lpm', r)" "max_rules lpm' = max_rules lpm" "number_tbl8s lpm' = number_tbl8s lpm"
    "if bad_depth depth then r = Some EINVAL \<and> lpm' = lpm
     else if r = None then lpm_ok lpm' (put_rule ip depth h R)
     else r = Some ENOSPC \<and> lpm_ok lpm' R \<and> R ?d ?p = None \<and>
       (rule_total R = unat (max_rules lpm) \<or> 24 < ?d \<and> \<not> long R (block ip) \<and> block_total R = groups lpm)"
    using add_ok [OF ok, of ip depth h] by blast
  show ?thesis
  proof (cases "bad_depth depth")
    case True
    then show ?thesis using a ok by (simp add: spec_add_def)
  next
    case good: False
    have d: "1 \<le> ?d" "?d \<le> 32" using good by (simp_all add: bad_depth_def)
    have idem: "?p AND depth_to_mask (of_nat ?d) = ?p" using prefix_idem by simp
    show ?thesis
    proof (cases r)
      case (Some e)
      then show ?thesis using a good by (auto simp: spec_add_def)
    next
      case None
      then have ok': "lpm_ok lpm' (put_rule ip depth h R)" using a(4) good by simp
      have "\<not> (rule_total R = unat (max_rules lpm) \<or> 24 < ?d \<and> \<not> long R (block ip) \<and> block_total R = groups lpm)" if new: "R ?d ?p = None"
      proof -
        have "rule_total R + 1 \<le> unat (max_rules lpm)"
          using rep_total [of lpm' "put_rule ip depth h R"] ok' rule_total_put [of ?d R ?p h, OF d new] a(2) by (simp add: lpm_ok_def put_rule_def)
        moreover have "block_total R + 1 \<le> groups lpm" if l: "24 < ?d" "\<not> long R (block ip)"
        proof -
          have "block ?p = block ip" using masked_block [of ?d ip] d l(1) by (simp add: prefix_of_def)
          then have "block_total (put_rule ip depth h R) = block_total R + 1"
            unfolding put_rule_def using l by (intro block_total_put [OF l(1) d(2) idem]) simp
          then show ?thesis using block_total_le [of lpm' "put_rule ip depth h R"] ok' a(3) by (simp add: lpm_ok_def)
        qed
        ultimately show ?thesis by auto
      qed
      then have "spec_add (unat (max_rules lpm)) (groups lpm) ip depth h R = (put_rule ip depth h R, None)"
        using good by (auto simp: spec_add_def)
      then show ?thesis using a None ok' by simp
    qed
  qed
qed

lemma delete_refines:
  assumes "lpm_ok lpm R"
  shows "\<exists>lpm'. rte_lpm_delete lpm ip depth = Some (lpm', snd (spec_delete ip depth R)) \<and> lpm_ok lpm' (fst (spec_delete ip depth R)) \<and>
    max_rules lpm' = max_rules lpm \<and> number_tbl8s lpm' = number_tbl8s lpm"
  using delete_ok [OF assms, of ip depth] assms by (auto simp: spec_delete_def split: if_splits)

lemma best_empty [simp]: "best (\<lambda>_. Map.empty) ip n = None"
  by (induction n) simp_all

text \<open>A table without rules represents the empty map.\<close>

lemma fresh_ok:
  assumes "rule_info lpm = (\<lambda>_. \<lparr>used_rules = 0, first_rule = 0\<rparr>)" "tbl24 lpm = (\<lambda>_. zero_entry)"
    and "\<forall>g < groups lpm. tbl8 lpm (256 * g) = zero_entry"
    and "256 * groups lpm \<le> tbl8_len lpm" "groups lpm \<le> 2 ^ 24"
    and "0 < unat (max_rules lpm)" "unat (max_rules lpm) \<le> rules_len lpm" "unat (max_rules lpm) < 2 ^ 31"
  shows "lpm_ok lpm (\<lambda>_. Map.empty)"
proof -
  have nx: "\<not> xt zero_entry" "\<not> te_valid_group zero_entry" "\<not> te_valid zero_entry" by (simp_all add: zero_entry_def xt_def)
  have "rules_rep lpm (\<lambda>_. Map.empty)"
    using assms by (simp add: rules_rep_def placed_def off_def rule_bag_def seg_def)
  moreover have "tables_rep lpm (\<lambda>_. Map.empty)"
    using assms nx by (auto simp: tables_rep_def long_def slot_def desc_def Let_def)
  moreover have "wf_rules (\<lambda>_. Map.empty)" by (simp add: wf_rules_def)
  ultimately show ?thesis by (simp add: lpm_ok_def)
qed

lemma delete_all_ok:
  assumes "lpm_ok lpm R"
  shows "\<exists>lpm'. rte_lpm_delete_all lpm = Some lpm' \<and> lpm_ok lpm' (\<lambda>_. Map.empty) \<and>
    max_rules lpm' = max_rules lpm \<and> number_tbl8s lpm' = number_tbl8s lpm"
proof -
  have P: "placed (\<lambda>_. 0) lpm" and T: "256 * groups lpm \<le> tbl8_len lpm" "groups lpm \<le> 2 ^ 24"
    using assms tables_repD(1,2) [of lpm R] by (simp_all add: lpm_ok_def rules_rep_def)
  have "0 < unat (max_rules lpm)" using P unfolding placed_def by (metis not_less_zero zero_less_numeral gr0I)
  then obtain lpm' where l: "rte_lpm_delete_all lpm = Some lpm'" "max_rules lpm' = max_rules lpm" "number_tbl8s lpm' = number_tbl8s lpm"
    and e: "rule_info lpm' = (\<lambda>_. \<lparr>used_rules = 0, first_rule = 0\<rparr>)" "tbl24 lpm' = (\<lambda>_. zero_entry)"
      "\<forall>g < groups lpm'. tbl8 lpm' (256 * g) = zero_entry" "256 * groups lpm' \<le> tbl8_len lpm'" "groups lpm' \<le> 2 ^ 24"
      "0 < unat (max_rules lpm')" "unat (max_rules lpm') \<le> rules_len lpm'" "unat (max_rules lpm') < 2 ^ 31"
    using P T by (simp add: rte_lpm_delete_all_def RTE_LPM_TBL8_GROUP_NUM_ENTRIES_def placed_def)
  from fresh_ok [OF e] l show ?thesis by blast
qed

definition lpm_cap :: "rte_lpm \<Rightarrow> nat \<times> nat" where
  "lpm_cap lpm = (unat (max_rules lpm), groups lpm)"

interpretation lpm: prefix_table lpm_ok lpm_cap rte_lpm_add rte_lpm_delete rte_lpm_delete_all rte_lpm_lookup
proof
  fix lpm R ip depth h assume ok: "lpm_ok lpm R"
  show "\<exists>t'. rte_lpm_add lpm ip depth h = Some (t', snd (spec_add (fst (lpm_cap lpm)) (snd (lpm_cap lpm)) ip depth h R)) \<and>
      lpm_ok t' (fst (spec_add (fst (lpm_cap lpm)) (snd (lpm_cap lpm)) ip depth h R)) \<and> lpm_cap t' = lpm_cap lpm"
    using add_refines [OF ok, of ip depth h] by (auto simp: lpm_cap_def)
next
  fix lpm R ip depth assume ok: "lpm_ok lpm R"
  show "\<exists>t'. rte_lpm_delete lpm ip depth = Some (t', snd (spec_delete ip depth R)) \<and> lpm_ok t' (fst (spec_delete ip depth R)) \<and> lpm_cap t' = lpm_cap lpm"
    using delete_refines [OF ok, of ip depth] by (auto simp: lpm_cap_def)
next
  fix lpm R assume ok: "lpm_ok lpm R"
  show "\<exists>t'. rte_lpm_delete_all lpm = Some t' \<and> lpm_ok t' (\<lambda>_. Map.empty) \<and> lpm_cap t' = lpm_cap lpm"
    using delete_all_ok [OF ok] by (auto simp: lpm_cap_def)
next
  fix lpm R ip assume ok: "lpm_ok lpm R"
  then show "\<exists>w. rte_lpm_lookup lpm ip = Some w \<and> spec_lookup R ip w"
    using lookup_ok [of lpm R ip] unfolding spec_lookup_def lpm_ok_def by blast
qed

section \<open>Creation\<close>

text \<open>A table that has been created: what the structure holds.\<close>

lemma create_some:
  assumes "rte_lpm_create te_ok zmalloc nm socket_id config env = Some (env', a)" "a \<noteq> NULL"
  shows "0 < cfg_max_rules config" "cfg_number_tbl8s config \<le> RTE_LPM_MAX_TBL8_NUM_GROUPS"
    "\<exists>lpm. lpm_mem env' a = Some lpm \<and> max_rules lpm = cfg_max_rules config \<and> number_tbl8s lpm = cfg_number_tbl8s config \<and>
      rule_info lpm = (\<lambda>_. \<lparr>used_rules = 0, first_rule = 0\<rparr>) \<and> tbl24 lpm = (\<lambda>_. zero_entry) \<and> tbl8 lpm = (\<lambda>_. zero_entry) \<and>
      tbl8_len lpm = unat (tbl8s_size config) div 4 \<and> rules_len lpm = unat (rules_size config) div 8"
  using assms
  by (auto simp: rte_lpm_create_def Let_def word_gt_0 bind_eq_Some_conv split: if_splits)

lemma tbl8s_size_mod: "unat (tbl8s_size config) div 4 = 256 * (unat (cfg_number_tbl8s config) mod 2 ^ 22)"
proof -
  have "unat (tbl8s_size config) = (1024 * unat (cfg_number_tbl8s config)) mod 2 ^ 32"
    by (simp add: tbl8s_size_def RTE_LPM_TBL8_GROUP_NUM_ENTRIES_def unat_word_ariths)
  then show ?thesis using mod_mult_mult1 [of 1024 "unat (cfg_number_tbl8s config)" "2 ^ 22"] by simp
qed

lemma rules_size_mod: "unat (rules_size config) div 8 = unat (cfg_max_rules config) mod 2 ^ 29"
proof -
  have "unat (rules_size config) = (8 * unat (cfg_max_rules config)) mod 2 ^ 32"
    by (simp add: rules_size_def unat_word_ariths)
  then show ?thesis using mod_mult_mult1 [of 8 "unat (cfg_max_rules config)" "2 ^ 29"] by simp
qed

lemma create_ok:
  assumes c: "rte_lpm_create te_ok zmalloc nm socket_id config env = Some (env', a)" "a \<noteq> NULL"
    and s: "cfg_max_rules config < 2 ^ 29" "cfg_number_tbl8s config < 2 ^ 22"
  shows "\<exists>lpm. lpm_mem env' a = Some lpm \<and> lpm_cap lpm = (unat (cfg_max_rules config), unat (cfg_number_tbl8s config)) \<and>
    lpm_ok lpm (\<lambda>_. Map.empty)"
proof -
  obtain lpm where l: "lpm_mem env' a = Some lpm" "max_rules lpm = cfg_max_rules config" "number_tbl8s lpm = cfg_number_tbl8s config"
      "rule_info lpm = (\<lambda>_. \<lparr>used_rules = 0, first_rule = 0\<rparr>)" "tbl24 lpm = (\<lambda>_. zero_entry)" "tbl8 lpm = (\<lambda>_. zero_entry)"
      "tbl8_len lpm = unat (tbl8s_size config) div 4" "rules_len lpm = unat (rules_size config) div 8"
    using create_some(3) [OF c] by blast
  have m: "unat (cfg_max_rules config) < 2 ^ 29" "unat (cfg_number_tbl8s config) < 2 ^ 22" "0 < unat (cfg_max_rules config)"
    using s create_some(1) [OF c] by (simp_all add: word_less_nat_alt unat_gt_0)
  have "lpm_ok lpm (\<lambda>_. Map.empty)"
    by (rule fresh_ok) (use l m tbl8s_size_mod [of config] rules_size_mod [of config] in simp_all)
  then show ?thesis using l by (simp add: lpm_cap_def)
qed

section \<open>Properties\<close>

lemma rule_present_ok:
  assumes "rules_rep lpm R"
  shows "rte_lpm_is_rule_present lpm ip depth =
    Some (if bad_depth depth then Inl EINVAL else Inr (R (unat depth) (prefix_of ip depth)))"
proof (cases "bad_depth depth")
  case True
  then show ?thesis using bad_depth_code [of depth] by (simp add: rte_lpm_is_rule_present_def)
next
  case False
  then have "1 \<le> unat depth" "unat depth \<le> 32" by (simp_all add: bad_depth_def)
  from rule_find_ok [OF assms this, of "prefix_of ip depth"] obtain r where
    r: "rule_find lpm (prefix_of ip depth) depth = Some r"
      "case r of Some i \<Rightarrow> rd_rule lpm i = Some (rules_tbl lpm i) \<and> R (unat depth) (prefix_of ip depth) = Some (rule_next_hop (rules_tbl lpm i))
       | None \<Rightarrow> R (unat depth) (prefix_of ip depth) = None"
    by (auto split: option.splits)
  show ?thesis
    unfolding rte_lpm_is_rule_present_def bad_depth_code if_not_P [OF False] prefix_of_def [symmetric]
    using r by (auto split: option.splits)
qed

lemma bulk_ok:
  assumes "tables_rep lpm R"
  shows "rte_lpm_lookup_bulk_func lpm ips = Some (map (\<lambda>ip. entry_word (slot lpm ip)) ips)"
  by (induction ips) (simp_all add: lookup_word_ok [OF assms])

lemma created_run:
  assumes "rte_lpm_create te_ok zmalloc nm socket_id config env = Some (env', a)" "a \<noteq> NULL"
    and "cfg_max_rules config < 2 ^ 29" "cfg_number_tbl8s config < 2 ^ 22"
  shows "\<exists>lpm lpm'. lpm_mem env' a = Some lpm \<and>
    table_run rte_lpm_add rte_lpm_delete rte_lpm_delete_all ops lpm =
      Some (lpm', snd (spec_run (unat (cfg_max_rules config)) (unat (cfg_number_tbl8s config)) ops (\<lambda>_. Map.empty))) \<and>
    lpm_ok lpm' (fst (spec_run (unat (cfg_max_rules config)) (unat (cfg_number_tbl8s config)) ops (\<lambda>_. Map.empty)))"
  using create_ok [OF assms] lpm.run_refines [of _ "\<lambda>_. Map.empty" ops] by (metis fst_conv snd_conv)

lemma created_groups:
  assumes "rte_lpm_create te_ok zmalloc nm socket_id config env = Some (env', a)" "a \<noteq> NULL"
    and "cfg_max_rules config < 2 ^ 29" "cfg_number_tbl8s config < 2 ^ 22"
    and "lpm_mem env' a = Some lpm0" "table_run rte_lpm_add rte_lpm_delete rte_lpm_delete_all ops lpm0 = Some (lpm, rs)"
  shows "groups lpm = unat (cfg_number_tbl8s config)"
proof -
  have l: "lpm_cap lpm0 = (unat (cfg_max_rules config), unat (cfg_number_tbl8s config))" "lpm_ok lpm0 (\<lambda>_. Map.empty)"
    using create_ok [OF assms(1-4)] assms(5) by auto
  have "lpm_cap lpm = lpm_cap lpm0" using lpm.run_refines [OF l(2), of ops] assms(6) by auto
  then show ?thesis using l(1) by (simp add: lpm_cap_def)
qed

text \<open>
  C11: The longest prefix match library implements its specification. A table created for
  fewer than 2^29 rules and 2^22 groups is used by any sequence of calls of \<open>rte_lpm_add\<close>,
  \<open>rte_lpm_delete\<close> and \<open>rte_lpm_delete_all\<close>: none accesses memory outside of the tables, each returns
  the status the set of rules and the two capacities determine, and afterwards a lookup of any
  address finds the next hop of the rule with the longest prefix of the address, or reports that there is none.
\<close>

theorem lpm_longest_match:
  assumes "rte_lpm_create te_ok zmalloc nm socket_id config env = Some (env', a)" "a \<noteq> NULL"
    and "cfg_max_rules config < 2 ^ 29" "cfg_number_tbl8s config < 2 ^ 22"
    and "spec_run (unat (cfg_max_rules config)) (unat (cfg_number_tbl8s config)) ops (\<lambda>_. Map.empty) = (R, rs)"
  shows "\<exists>lpm lpm' w. lpm_mem env' a = Some lpm \<and>
    table_run rte_lpm_add rte_lpm_delete rte_lpm_delete_all ops lpm = Some (lpm', rs) \<and>
    rte_lpm_lookup lpm' ip = Some w \<and> spec_lookup R ip w"
  using created_run [OF assms(1-4), of ops] assms(5) lpm.lookup_law [of _ R ip] by auto

text \<open>An environment without tables, and a table with room for 16 rules and 8 groups in it.\<close>

definition empty_env :: lpm_env where
  "empty_env = \<lparr>lpm_mem = Map.empty, lpm_tailq = [], lpm_errno = 0\<rparr>"

definition fib_config :: rte_lpm_config where
  "fib_config = \<lparr>cfg_max_rules = 16, cfg_number_tbl8s = 8, cfg_flags = 0\<rparr>"

definition fib_env :: lpm_env where
  "fib_env = fst (the (rte_lpm_create True (\<lambda>i _. 0x1000 * (of_nat i + 1)) ''fib'' 0 fib_config empty_env))"

lemma fib_created:
  "rte_lpm_create True (\<lambda>i _. 0x1000 * (of_nat i + 1)) ''fib'' 0 fib_config empty_env = Some (fib_env, 0x1000)"
  by (simp add: fib_env_def rte_lpm_create_def fib_config_def empty_env_def RTE_LPM_MAX_TBL8_NUM_GROUPS_def)

lemma rule_total_empty [simp]: "rule_total (\<lambda>_. Map.empty) = 0"
  by (simp add: rule_total_def)

definition fib_ops :: "lpm_op list" where
  "fib_ops = [LpmAdd 0x0A000000 8 1, LpmAdd 0x0A010000 16 2, LpmAdd 0x0A020000 40 3]"

definition fib_rules :: rules where
  "fib_rules = (\<lambda>_. Map.empty)(8 := [0x0A000000 \<mapsto> 1], 16 := [0x0A010000 \<mapsto> 2])"

lemma fib_mask: "depth_to_mask 8 = 0xFF000000" "depth_to_mask 16 = 0xFFFF0000"
  using depth_to_mask_eq [of 8] depth_to_mask_eq [of 16] by (simp_all add: mask_eq_exp_minus_1 push_bit_eq_mult)

lemma fib_run: "spec_run 16 8 fib_ops (\<lambda>_. Map.empty) = (fib_rules, [None, None, Some EINVAL])"
proof -
  have "rule_total ((\<lambda>_. Map.empty)(8 := [0x0A000000 \<mapsto> 1])) = 1"
    using rule_total_put [where d = 8 and R = "\<lambda>_. Map.empty" and p = "0x0A000000" and h = 1] by simp
  then show ?thesis
    by (simp add: fib_ops_def fib_rules_def spec_add_def bad_depth_def put_rule_def prefix_of_def fib_mask)
qed

lemma fib_best: "best fib_rules 0x0A010203 32 = Some (16, 2)"
proof -
  have none: "fib_rules d p = None" if "16 < d" for d p using that by (simp add: fib_rules_def)
  have "best fib_rules ip n = best fib_rules ip 16" if "16 \<le> n" for n ip
    using that by (induction n rule: dec_induct) (simp_all add: none)
  from this [of 32] have "best fib_rules 0x0A010203 32 = best fib_rules 0x0A010203 (Suc 15)" by simp
  also have "\<dots> = Some (16, 2)" by (subst best.simps(2)) (simp add: fib_rules_def fib_mask)
  finally show ?thesis .
qed

theorem lpm_longest_match_witness:
  "\<exists>lpm lpm'. lpm_mem fib_env 0x1000 = Some lpm \<and>
    table_run rte_lpm_add rte_lpm_delete rte_lpm_delete_all fib_ops lpm = Some (lpm', [None, None, Some EINVAL]) \<and>
    rte_lpm_lookup lpm' 0x0A010203 = Some (2, None)"
  using lpm_longest_match [OF fib_created, of fib_ops fib_rules "[None, None, Some EINVAL]" "0x0A010203"] fib_run fib_best
  by (simp add: fib_config_def spec_lookup_def)

text \<open>
  C20: \<open>rte_lpm_lookupx4\<close> agrees with four single lookups on a table with at most 256 groups: after
  any sequence of additions and deletions each lane gets the next hop of the longest match of its
  address, or the default value when there is none.
\<close>

theorem lpm_lookupx4:
  assumes "rte_lpm_create te_ok zmalloc nm socket_id config env = Some (env', a)" "a \<noteq> NULL"
    and "cfg_max_rules config < 2 ^ 29" "cfg_number_tbl8s config \<le> 256"
    and "lpm_mem env' a = Some lpm0" "table_run rte_lpm_add rte_lpm_delete rte_lpm_delete_all ops lpm0 = Some (lpm, rs)"
  shows "rte_lpm_lookupx4 lpm (ip0, ip1, ip2, ip3) defv = do {
      r0 \<leftarrow> rte_lpm_lookup lpm ip0; r1 \<leftarrow> rte_lpm_lookup lpm ip1; r2 \<leftarrow> rte_lpm_lookup lpm ip2; r3 \<leftarrow> rte_lpm_lookup lpm ip3;
      let hop = (\<lambda>r. if snd r = None then fst r else defv);
      Some (hop r0, hop r1, hop r2, hop r3) }"
proof -
  have c: "cfg_number_tbl8s config < 2 ^ 22" using assms(4) by (rule order.strict_trans1) simp
  obtain R where R: "lpm_ok lpm R" "groups lpm \<le> 256"
    using created_run [OF assms(1-3) c, of ops] created_groups [OF assms(1-3) c, of lpm0 ops] assms(4-6)
    by (auto simp: word_le_nat_alt)
  have "\<exists>r. rte_lpm_lookup lpm ip = Some r \<and> (if snd r = None then fst r else defv) = hop_or R defv ip" for ip
    using lpm.lookup_law [OF R(1), of ip] by (auto simp: spec_lookup_def hop_or_def split: option.splits)
  then obtain f where f: "\<And>ip. rte_lpm_lookup lpm ip = Some (f ip)"
      "\<And>ip. (if snd (f ip) = None then fst (f ip) else defv) = hop_or R defv ip" by metis
  show ?thesis unfolding f(1) Option.bind.bind_lunit Let_def f(2)
    by (rule lookupx4_rules) (use R in \<open>simp_all add: lpm_ok_def\<close>)
qed

theorem lpm_lookupx4_witness:
  "\<exists>lpm0 lpm. lpm_mem fib_env 0x1000 = Some lpm0 \<and>
    table_run rte_lpm_add rte_lpm_delete rte_lpm_delete_all fib_ops lpm0 = Some (lpm, [None, None, Some EINVAL]) \<and>
    rte_lpm_lookupx4 lpm (0x0A010203, 0x0A010203, 0x0A010203, 0x0A010203) 99 = Some (2, 2, 2, 2)"
proof -
  obtain lpm0 lpm where l: "lpm_mem fib_env 0x1000 = Some lpm0"
      "table_run rte_lpm_add rte_lpm_delete rte_lpm_delete_all fib_ops lpm0 = Some (lpm, [None, None, Some EINVAL])" "lpm_ok lpm fib_rules"
    using created_run [OF fib_created, of fib_ops] fib_run by (auto simp: fib_config_def)
  have "rte_lpm_lookup lpm 0x0A010203 = Some (2, None)"
    using lpm.lookup_law [OF l(3), of "0x0A010203"] fib_best by (auto simp: spec_lookup_def)
  then show ?thesis
    using lpm_lookupx4 [OF fib_created _ _ _ l(1,2), of "0x0A010203" "0x0A010203" "0x0A010203" "0x0A010203" 99] l(1,2)
    by (simp add: fib_config_def)
qed

text \<open>
  C39: With more groups \<open>rte_lpm_lookupx4\<close> reads the wrong one: the number of the group is cut to 8
  bits, so that an address whose entry names group \<open>g\<close> gets the entry of group \<open>g\<close> modulo 256, while the
  single lookup reads that of group \<open>g\<close>.
\<close>

theorem lpm_lookupx4_group:
  assumes "te_valid (tbl24 lpm (unat ip div 256))" "te_valid_group (tbl24 lpm (unat ip div 256))"
    and "group_idx (tbl24 lpm (unat ip div 256)) = g" "256 * g + 256 \<le> tbl8_len lpm"
  shows "rte_lpm_lookup lpm ip =
      (let w = entry_word (tbl8 lpm (256 * g + unat ip mod 256)) in Some (w AND 0x00FFFFFF, if w AND RTE_LPM_LOOKUP_SUCCESS \<noteq> 0 then None else Some ENOENT)) \<and>
    rte_lpm_lookupx4 lpm (ip, ip, ip, ip) defv =
      (let w = entry_word (tbl8 lpm (256 * (g mod 256) + unat ip mod 256));
           h = (if w AND RTE_LPM_LOOKUP_SUCCESS \<noteq> 0 then w AND 0x00FFFFFF else defv) in Some (h, h, h, h))"
proof -
  have x: "xt (tbl24 lpm (block ip))" using assms(1,2) by (simp add: xt_def)
  have "rd24 lpm (tbl24_index ip) = Some (tbl24 lpm (block ip))" by (simp add: rd24_def tbl24_index_eq RTE_LPM_TBL24_NUM_ENTRIES_def)
  moreover have "low ip < 256" by simp
  then have "256 * g + low ip < tbl8_len lpm" "256 * (g mod 256) + low ip < tbl8_len lpm" using assms(4) mod_less_eq_dividend [of g 256] by linarith+
  ultimately show ?thesis
    using x assms(3) lookupx4_ok [of ip ip ip ip lpm defv]
    by (simp add: rte_lpm_lookup_def lookup_word_def lookup_index ext_test rd8_def slot8_def x4_hop_def Let_def)
qed

text \<open>A table whose group 256 has the entry for the first addresses.\<close>

definition big_lpm :: rte_lpm where
  "big_lpm = \<lparr>lpm_name = ''big'', max_rules = 1024, number_tbl8s = 257, rule_info = \<lambda>_. \<lparr>used_rules = 0, first_rule = 0\<rparr>,
     tbl24 = (\<lambda>_. zero_entry)(0 := ext_entry 256), tbl8 = (\<lambda>_. zero_entry)(65536 := \<lparr>te_next_hop = 7, te_valid = True, te_valid_group = True, te_depth = 32\<rparr>),
     tbl8_len = 65792, rules_tbl = \<lambda>_. \<lparr>rule_ip = 0, rule_next_hop = 0\<rparr>, rules_len = 1024\<rparr>"

theorem lpm_lookupx4_group_witness:
  "rte_lpm_lookup big_lpm 0 = Some (7, None) \<and> rte_lpm_lookupx4 big_lpm (0, 0, 0, 0) 99 = Some (99, 99, 99, 99)"
  using lpm_lookupx4_group [of big_lpm 0 256 99]
  by (simp add: big_lpm_def ext_entry_def entry_word_def zero_entry_def push_bit_eq_mult RTE_LPM_LOOKUP_SUCCESS_def Let_def)

text \<open>
  C40: What a created table has memory for. The sizes of the arrays are computed in 32 bits: there
  are groups for \<open>number_tbl8s\<close> modulo 2^22 and rules for \<open>max_rules\<close> modulo 2^29, while the structure
  keeps the full numbers, up to 2^24 groups, as its bounds.
\<close>

theorem lpm_create_memory:
  assumes "rte_lpm_create te_ok zmalloc nm socket_id config env = Some (env', a)" "a \<noteq> NULL"
  shows "\<exists>lpm. lpm_mem env' a = Some lpm \<and> number_tbl8s lpm = cfg_number_tbl8s config \<and> max_rules lpm = cfg_max_rules config \<and>
    tbl8_len lpm = 256 * (unat (number_tbl8s lpm) mod 2 ^ 22) \<and> rules_len lpm = unat (max_rules lpm) mod 2 ^ 29"
  using create_some(3) [OF assms] tbl8s_size_mod [of config] rules_size_mod [of config] by auto

theorem lpm_create_memory_witness:
  "\<exists>lpm env' a. rte_lpm_create True (\<lambda>i _. 0x1000 * (of_nat i + 1)) ''fib'' 0 \<lparr>cfg_max_rules = 16, cfg_number_tbl8s = 0x400001, cfg_flags = 0\<rparr> empty_env = Some (env', a) \<and>
    lpm_mem env' a = Some lpm \<and> unat (number_tbl8s lpm) = 0x400001 \<and> tbl8_len lpm = 256"
  using lpm_create_memory [of True "\<lambda>i _. 0x1000 * (of_nat i + 1)" "''fib''" 0 "\<lparr>cfg_max_rules = 16, cfg_number_tbl8s = 0x400001, cfg_flags = 0\<rparr>" empty_env]
  by (auto simp: rte_lpm_create_def empty_env_def RTE_LPM_MAX_TBL8_NUM_GROUPS_def)

lemma spec_lookup_same:
  assumes "spec_lookup R ip w" "spec_lookup R ip w'"
  shows "w' = w \<or> snd w = Some ENOENT \<and> snd w' = Some ENOENT"
  using assms by (auto simp: spec_lookup_def split: option.splits)

lemma failed_add:
  assumes "lpm_ok lpm R" "rte_lpm_add lpm ip depth h = Some (lpm', Some e)"
  shows "lpm_ok lpm' R"
proof -
  have "snd (spec_add (unat (max_rules lpm)) (groups lpm) ip depth h R) = Some e"
    "lpm_ok lpm' (fst (spec_add (unat (max_rules lpm)) (groups lpm) ip depth h R))"
    using add_refines [OF assms(1), of ip depth h] assms(2) by auto
  then show ?thesis by (auto simp: spec_add_def split: if_splits)
qed

text \<open>
  C19: An addition that fails changes nothing a caller can see. When \<open>rte_lpm_add\<close> returns an error,
  because of the length, of a full rule table or of no free group (then the rule that was already put into
  the rule table is removed again), every lookup has the result it had and
  \<open>rte_lpm_is_rule_present\<close> reports the rules it reported.
\<close>

theorem lpm_failed_add:
  assumes "rte_lpm_create te_ok zmalloc nm socket_id config env = Some (env', a)" "a \<noteq> NULL"
    and "cfg_max_rules config < 2 ^ 29" "cfg_number_tbl8s config < 2 ^ 22"
    and "lpm_mem env' a = Some lpm0" "table_run rte_lpm_add rte_lpm_delete rte_lpm_delete_all ops lpm0 = Some (lpm, rs)"
    and "rte_lpm_add lpm ip depth h = Some (lpm', Some e)"
  shows "rte_lpm_is_rule_present lpm' ip2 depth2 = rte_lpm_is_rule_present lpm ip2 depth2 \<and>
    (\<exists>w w'. rte_lpm_lookup lpm ip2 = Some w \<and> rte_lpm_lookup lpm' ip2 = Some w' \<and>
      (w' = w \<or> snd w = Some ENOENT \<and> snd w' = Some ENOENT))"
proof -
  obtain R where R: "lpm_ok lpm R" using created_run [OF assms(1-4), of ops] assms(5,6) by auto
  then have R': "lpm_ok lpm' R" by (rule failed_add) (rule assms(7))
  have "rte_lpm_is_rule_present lpm' ip2 depth2 = rte_lpm_is_rule_present lpm ip2 depth2"
    using R R' rule_present_ok [of _ R ip2 depth2] by (simp add: lpm_ok_def)
  then show ?thesis using lpm.lookup_law [OF R, of ip2] lpm.lookup_law [OF R', of ip2] spec_lookup_same [of R ip2] by blast
qed

text \<open>A table with room for one rule, with a rule, refuses the second one.\<close>

definition one_config :: rte_lpm_config where
  "one_config = \<lparr>cfg_max_rules = 1, cfg_number_tbl8s = 8, cfg_flags = 0\<rparr>"

definition one_env :: lpm_env where
  "one_env = fst (the (rte_lpm_create True (\<lambda>i _. 0x1000 * (of_nat i + 1)) ''one'' 0 one_config empty_env))"

lemma one_created:
  "rte_lpm_create True (\<lambda>i _. 0x1000 * (of_nat i + 1)) ''one'' 0 one_config empty_env = Some (one_env, 0x1000)"
  by (simp add: one_env_def rte_lpm_create_def one_config_def empty_env_def RTE_LPM_MAX_TBL8_NUM_GROUPS_def)

lemma one_full:
  "\<exists>lpm0 lpm lpm'. lpm_mem one_env 0x1000 = Some lpm0 \<and>
    table_run rte_lpm_add rte_lpm_delete rte_lpm_delete_all [LpmAdd 0x0A000000 8 1] lpm0 = Some (lpm, [None]) \<and>
    rte_lpm_add lpm 0x0B000000 16 2 = Some (lpm', Some ENOSPC) \<and> rte_lpm_is_rule_present lpm 0x0A000001 8 = Some (Inr (Some 1))"
proof -
  let ?R = "(\<lambda>_. Map.empty)(8 := [0x0A000000 \<mapsto> 1]) :: rules"
  have t: "rule_total ?R = 1" using rule_total_put [where d = 8 and R = "\<lambda>_. Map.empty" and p = "0x0A000000" and h = 1] by simp
  obtain lpm0 where l0: "lpm_mem one_env 0x1000 = Some lpm0" "lpm_cap lpm0 = (1, 8)" "lpm_ok lpm0 (\<lambda>_. Map.empty)"
    using create_ok [OF one_created] by (auto simp: one_config_def)
  have s: "spec_run 1 8 [LpmAdd 0x0A000000 8 1] (\<lambda>_. Map.empty) = (?R, [None])"
    by (simp add: spec_add_def bad_depth_def put_rule_def prefix_of_def fib_mask)
  obtain lpm where l: "table_run rte_lpm_add rte_lpm_delete rte_lpm_delete_all [LpmAdd 0x0A000000 8 1] lpm0 = Some (lpm, [None])"
      "lpm_ok lpm ?R" "lpm_cap lpm = (1, 8)"
    using lpm.run_refines [OF l0(3), of "[LpmAdd 0x0A000000 8 1]"] unfolding l0(2) fst_conv snd_conv s by blast
  have "spec_add 1 8 0x0B000000 16 2 ?R = (?R, Some ENOSPC)" using t by (simp add: spec_add_def bad_depth_def)
  then obtain lpm' where "rte_lpm_add lpm 0x0B000000 16 2 = Some (lpm', Some ENOSPC)"
    using lpm.add_law [OF l(2), of "0x0B000000" 16 2] unfolding l(3) by auto
  moreover have "rte_lpm_is_rule_present lpm 0x0A000001 8 = Some (Inr (Some 1))"
    using rule_present_ok [of lpm ?R "0x0A000001" 8] l(2) by (simp add: lpm_ok_def bad_depth_def prefix_of_def fib_mask)
  ultimately show ?thesis using l0(1) l(1) by blast
qed

theorem lpm_failed_add_witness:
  "\<exists>lpm lpm'. rte_lpm_add lpm 0x0B000000 16 2 = Some (lpm', Some ENOSPC) \<and>
    rte_lpm_is_rule_present lpm' 0x0A000001 8 = Some (Inr (Some 1))"
proof -
  obtain lpm0 lpm lpm' where l: "lpm_mem one_env 0x1000 = Some lpm0"
      "table_run rte_lpm_add rte_lpm_delete rte_lpm_delete_all [LpmAdd 0x0A000000 8 1] lpm0 = Some (lpm, [None])"
      "rte_lpm_add lpm 0x0B000000 16 2 = Some (lpm', Some ENOSPC)" "rte_lpm_is_rule_present lpm 0x0A000001 8 = Some (Inr (Some 1))"
    using one_full by blast
  have "rte_lpm_is_rule_present lpm' 0x0A000001 8 = Some (Inr (Some 1))"
    using lpm_failed_add [OF one_created _ _ _ l(1-3), of "0x0A000001" 8] l(4) by (simp add: one_config_def)
  then show ?thesis using l(3) by blast
qed

end
