(* ===== verification/Reorder.thy ===== *)
theory Reorder
  imports Mbuf
begin

text \<open>
  Model of \<^verbatim>\<open>lib/librte_reorder\<close>: a window of packets indexed by sequence number, and a queue of packets
  that have left the window and wait to be fetched. Both are circular buffers over arrays. \<^term>\<open>None\<close> is
  an access outside of an array, or a loop that does not end.
\<close>

section \<open>Data\<close>

definition RTE_REORDER_NAMESIZE :: nat where
  "RTE_REORDER_NAMESIZE = 32"

record cir_buffer =
  cb_size :: u32
  cb_mask :: u32
  cb_head :: u32
  cb_tail :: u32
  entries :: "addr list"

record rte_reorder_buffer =
  ro_name :: string
  min_seqn :: u32
  ro_memsize :: u32
  ready_buf :: cir_buffer
  order_buf :: cir_buffer
  is_initialized :: bool

definition rd_entry :: "cir_buffer \<Rightarrow> u32 \<Rightarrow> addr option" where
  "rd_entry c i = (if unat i < length (entries c) then Some (entries c ! unat i) else None)"

definition wr_entry :: "u32 \<Rightarrow> addr \<Rightarrow> cir_buffer \<Rightarrow> cir_buffer option" where
  "wr_entry i m c = (if unat i < length (entries c) then Some (c\<lparr>entries := (entries c)[unat i := m]\<rparr>) else None)"

text \<open>The index behind \<open>i\<close>.\<close>

definition cb_next :: "cir_buffer \<Rightarrow> u32 \<Rightarrow> u32" where
  "cb_next c i = (i + 1) AND cb_mask c"

section \<open>Initialisation\<close>

definition sizeof_reorder_buffer :: u32 where
  "sizeof_reorder_buffer = 256"

definition reorder_bufsize :: "u32 \<Rightarrow> u32" where
  "reorder_bufsize sz = sizeof_reorder_buffer + 2 * sz * 8"

text \<open>
  \<^verbatim>\<open>rte_reorder_init\<close> on \<open>bufsize\<close> bytes. The two arrays lie behind the structure, one behind the
  other; what of them is inside the memory is what the lists hold. A name is given.
\<close>

definition rte_reorder_init :: "u32 \<Rightarrow> string \<Rightarrow> u32 \<Rightarrow> errno + rte_reorder_buffer" where
  "rte_reorder_init bufsize nm sz =
     (if \<not> rte_is_power_of_2 sz then Inl EINVAL
      else if bufsize < reorder_bufsize sz then Inl EINVAL
      else let n = (unat bufsize - unat sizeof_reorder_buffer) div 8;
               cb = \<lparr>cb_size = sz, cb_mask = sz - 1, cb_head = 0, cb_tail = 0, entries = replicate (min n (unat sz)) NULL\<rparr>
           in Inr \<lparr>ro_name = take (RTE_REORDER_NAMESIZE - 1) nm, min_seqn = 0, ro_memsize = bufsize,
             ready_buf = cb, order_buf = cb\<lparr>entries := replicate (min (n - unat sz) (unat sz)) NULL\<rparr>, is_initialized = False\<rparr>)"

text \<open>The buffers that exist, their list and the error variable of the thread.\<close>

record reorder_env =
  ro_mem :: "addr \<rightharpoonup> rte_reorder_buffer"
  ro_tailq :: "addr list"
  ro_errno :: int

fun reorder_find :: "(addr \<rightharpoonup> rte_reorder_buffer) \<Rightarrow> string \<Rightarrow> addr list \<Rightarrow> addr option option" where
  "reorder_find m nm [] = Some None"
| "reorder_find m nm (a # tq) = (case m a of
     None \<Rightarrow> None
   | Some b \<Rightarrow> if take RTE_REORDER_NAMESIZE nm = take RTE_REORDER_NAMESIZE (ro_name b) then Some (Some a)
               else reorder_find m nm tq)"

definition rte_reorder_find_existing :: "string \<Rightarrow> reorder_env \<Rightarrow> (reorder_env \<times> addr) option" where
  "rte_reorder_find_existing nm env = do {
     te \<leftarrow> reorder_find (ro_mem env) nm (ro_tailq env);
     case te of
       None \<Rightarrow> Some (env\<lparr>ro_errno := errno_code ENOENT\<rparr>, NULL)
     | Some a \<Rightarrow> Some (env, a) }"

text \<open>
  \<^verbatim>\<open>rte_reorder_create\<close>. Whether the list entry can be allocated, and where the allocator puts a
  buffer of a size, are parameters. An existing buffer of the name is returned.
\<close>

definition rte_reorder_create :: "bool \<Rightarrow> (u32 \<Rightarrow> addr) \<Rightarrow> string \<Rightarrow> u32 \<Rightarrow> reorder_env \<Rightarrow> (reorder_env \<times> addr) option" where
  "rte_reorder_create te_ok zmalloc nm sz env =
     (if \<not> rte_is_power_of_2 sz then Some (env\<lparr>ro_errno := errno_code EINVAL\<rparr>, NULL)
      else do {
        te \<leftarrow> reorder_find (ro_mem env) nm (ro_tailq env);
        case te of
          Some a \<Rightarrow> Some (env, a)
        | None \<Rightarrow>
            if \<not> te_ok \<or> zmalloc (reorder_bufsize sz) = NULL then Some (env\<lparr>ro_errno := errno_code ENOMEM\<rparr>, NULL)
            else do {
              let a = zmalloc (reorder_bufsize sz);
              case rte_reorder_init (reorder_bufsize sz) nm sz of
                Inl e \<Rightarrow> None
              | Inr b \<Rightarrow> Some (env\<lparr>ro_mem := (ro_mem env)(a \<mapsto> b), ro_tailq := ro_tailq env @ [a]\<rparr>, a) } })"

section \<open>Insertion\<close>

text \<open>
  The inner loop of \<^verbatim>\<open>rte_reorder_fill_overflow\<close>: packets move from the head of the window to
  the queue until there is a gap or the queue has no room.
\<close>

partial_function (option) move_ready :: "cir_buffer \<Rightarrow> cir_buffer \<Rightarrow> u32 \<Rightarrow> (cir_buffer \<times> cir_buffer \<times> u32) option" where
  "move_ready order ready adv = do {
     e \<leftarrow> rd_entry order (cb_head order);
     if e \<noteq> NULL then do {
       ready \<leftarrow> wr_entry (cb_head ready) e ready;
       order \<leftarrow> wr_entry (cb_head order) NULL order;
       let order = order\<lparr>cb_head := cb_next order (cb_head order)\<rparr>;
       if cb_next ready (cb_head ready) = cb_tail ready then Some (order, ready, adv + 1)
       else move_ready order (ready\<lparr>cb_head := cb_next ready (cb_head ready)\<rparr>) (adv + 1) }
     else Some (order, ready, adv) }"

partial_function (option) fill_loop :: "u32 \<Rightarrow> cir_buffer \<Rightarrow> cir_buffer \<Rightarrow> u32 \<Rightarrow> (cir_buffer \<times> cir_buffer \<times> u32) option" where
  "fill_loop n order ready adv =
     (if adv < n \<and> cb_next ready (cb_head ready) \<noteq> cb_tail ready then do {
        e \<leftarrow> rd_entry order (cb_head order);
        (order, ready, adv) \<leftarrow> (if e = NULL then move_ready (order\<lparr>cb_head := cb_next order (cb_head order)\<rparr>) ready (adv + 1)
                               else move_ready order ready adv);
        fill_loop n order ready adv }
      else Some (order, ready, adv))"

definition rte_reorder_fill_overflow :: "rte_reorder_buffer \<Rightarrow> u32 \<Rightarrow> (rte_reorder_buffer \<times> u32) option" where
  "rte_reorder_fill_overflow b n = do {
     (order, ready, adv) \<leftarrow> fill_loop n (order_buf b) (ready_buf b) 0;
     Some (b\<lparr>order_buf := order, ready_buf := ready, min_seqn := min_seqn b + adv\<rparr>, adv) }"

definition place_mbuf :: "rte_reorder_buffer \<Rightarrow> addr \<Rightarrow> u32 \<Rightarrow> rte_reorder_buffer option" where
  "place_mbuf b m ofs = do {
     order \<leftarrow> wr_entry ((cb_head (order_buf b) + ofs) AND cb_mask (order_buf b)) m (order_buf b);
     Some (b\<lparr>order_buf := order\<rparr>) }"

definition rte_reorder_insert :: "mbuf_heap \<Rightarrow> addr \<Rightarrow> rte_reorder_buffer \<Rightarrow> (rte_reorder_buffer \<times> errno option) option" where
  "rte_reorder_insert st m b = do {
     x \<leftarrow> mbufs st m;
     let b = (if is_initialized b then b else b\<lparr>min_seqn := seqn x, is_initialized := True\<rparr>);
     let ofs = seqn x - min_seqn b;
     let sz = cb_size (order_buf b);
     if ofs < sz then do {
       b \<leftarrow> place_mbuf b m ofs;
       Some (b, None) }
     else if ofs < 2 * sz then do {
       (b, adv) \<leftarrow> rte_reorder_fill_overflow b (ofs + 1 - sz);
       if adv < ofs + 1 - sz then Some (b, Some ENOSPC)
       else do {
         b \<leftarrow> place_mbuf b m (seqn x - min_seqn b);
         Some (b, None) } }
     else Some (b, Some ERANGE) }"

section \<open>Draining\<close>

text \<open>The two loops of \<^verbatim>\<open>rte_reorder_drain\<close>, with the packets that may still be returned.\<close>

fun drain_ready :: "nat \<Rightarrow> cir_buffer \<Rightarrow> (cir_buffer \<times> addr list) option" where
  "drain_ready 0 ready = Some (ready, [])"
| "drain_ready (Suc k) ready =
     (if cb_tail ready = cb_head ready then Some (ready, [])
      else do {
        e \<leftarrow> rd_entry ready (cb_tail ready);
        (ready, ms) \<leftarrow> drain_ready k (ready\<lparr>cb_tail := cb_next ready (cb_tail ready)\<rparr>);
        Some (ready, e # ms) })"

fun drain_order :: "nat \<Rightarrow> u32 \<Rightarrow> cir_buffer \<Rightarrow> (u32 \<times> cir_buffer \<times> addr list) option" where
  "drain_order 0 seq order = Some (seq, order, [])"
| "drain_order (Suc k) seq order = do {
     e \<leftarrow> rd_entry order (cb_head order);
     if e = NULL then Some (seq, order, [])
     else do {
       order \<leftarrow> wr_entry (cb_head order) NULL order;
       (seq, order, ms) \<leftarrow> drain_order k (seq + 1) (order\<lparr>cb_head := cb_next order (cb_head order)\<rparr>);
       Some (seq, order, e # ms) } }"

definition rte_reorder_drain :: "rte_reorder_buffer \<Rightarrow> u32 \<Rightarrow> (rte_reorder_buffer \<times> addr list) option" where
  "rte_reorder_drain b max_mbufs = do {
     (ready, ms) \<leftarrow> drain_ready (unat max_mbufs) (ready_buf b);
     (seq, order, ms') \<leftarrow> drain_order (unat max_mbufs - length ms) (min_seqn b) (order_buf b);
     Some (b\<lparr>ready_buf := ready, order_buf := order, min_seqn := seq\<rparr>, ms @ ms') }"

section \<open>Release\<close>

text \<open>The packets \<^verbatim>\<open>rte_reorder_free_mbufs\<close> frees, in its order.\<close>

fun pending :: "nat \<Rightarrow> cir_buffer \<Rightarrow> cir_buffer \<Rightarrow> addr list option" where
  "pending 0 order ready = Some []"
| "pending (Suc i) order ready = do {
     ms \<leftarrow> pending i order ready;
     e \<leftarrow> rd_entry order (of_nat i);
     f \<leftarrow> rd_entry ready (of_nat i);
     Some (ms @ filter (\<lambda>m. m \<noteq> NULL) [e, f]) }"

fun free_all :: "rte_mempool_ops list \<Rightarrow> nat \<Rightarrow> addr list \<Rightarrow> mbuf_heap \<Rightarrow> mbuf_heap option" where
  "free_all tbl lcore [] st = Some st"
| "free_all tbl lcore (m # ms) st = do { st \<leftarrow> rte_pktmbuf_free tbl lcore m st; free_all tbl lcore ms st }"

definition rte_reorder_free_mbufs :: "rte_mempool_ops list \<Rightarrow> nat \<Rightarrow> rte_reorder_buffer \<Rightarrow> mbuf_heap \<Rightarrow> mbuf_heap option" where
  "rte_reorder_free_mbufs tbl lcore b st = do {
     ms \<leftarrow> pending (unat (cb_size (order_buf b))) (order_buf b) (ready_buf b);
     free_all tbl lcore ms st }"

definition rte_reorder_reset ::
  "rte_mempool_ops list \<Rightarrow> nat \<Rightarrow> rte_reorder_buffer \<Rightarrow> mbuf_heap \<Rightarrow> (rte_reorder_buffer \<times> mbuf_heap) option" where
  "rte_reorder_reset tbl lcore b st = do {
     st \<leftarrow> rte_reorder_free_mbufs tbl lcore b st;
     case rte_reorder_init (ro_memsize b) (ro_name b) (cb_size (order_buf b)) of
       Inl e \<Rightarrow> Some (b, st)
     | Inr b \<Rightarrow> Some (b, st) }"

definition rte_reorder_free ::
  "rte_mempool_ops list \<Rightarrow> nat \<Rightarrow> addr \<Rightarrow> reorder_env \<Rightarrow> mbuf_heap \<Rightarrow> (reorder_env \<times> mbuf_heap) option" where
  "rte_reorder_free tbl lcore a env st =
     (if a = NULL \<or> a \<notin> set (ro_tailq env) then Some (env, st)
      else do {
        b \<leftarrow> ro_mem env a;
        st \<leftarrow> rte_reorder_free_mbufs tbl lcore b st;
        Some (env\<lparr>ro_mem := (ro_mem env)(a := None), ro_tailq := remove1 a (ro_tailq env)\<rparr>, st) })"

end
