(* ===== verification/ReorderInv.thy ===== *)
theory ReorderInv
  imports Reorder
begin

text \<open>
  Properties of the reorder buffer: what its two circular arrays hold as lists, the loops on these
  lists, and the order and conservation of the packets that pass through it.
\<close>

section \<open>Circular arrays\<close>

definition circ :: "'a list \<Rightarrow> nat \<Rightarrow> nat \<Rightarrow> 'a list" where
  "circ xs h r = map (\<lambda>i. xs ! ((h + i) mod length xs)) [0..<r]"

lemma length_circ [simp]: "length (circ xs h r) = r"
  by (simp add: circ_def)

lemma nth_circ [simp]: "i < r \<Longrightarrow> circ xs h r ! i = xs ! ((h + i) mod length xs)"
  by (simp add: circ_def)

lemma circ_mod [simp]: "circ xs (h mod length xs) r = circ xs h r"
  by (simp add: circ_def mod_add_left_eq)

lemma circ_Suc: "circ xs h (Suc r) = circ xs h r @ [xs ! ((h + r) mod length xs)]"
  by (simp add: circ_def)

lemma circ_Cons: "circ xs h (Suc r) = xs ! (h mod length xs) # circ xs (Suc h) r"
  by (rule nth_equalityI) (auto simp: nth_Cons split: nat.split)

lemma circ_index_inj:
  fixes h i j n :: nat
  assumes "(h + i) mod n = (h + j) mod n" "i < n" "j < n"
  shows "i = j"
proof -
  have "i = j" if "i \<le> j" "(h + i) mod n = (h + j) mod n" "j < n" for i j
  proof -
    have "n dvd (h + j) - (h + i)" using that(2) by (metis mod_eq_dvd_iff_nat nat_add_left_cancel_le that(1))
    then have "n dvd j - i" by simp
    then show ?thesis using that by (metis diff_is_0_eq dvd_imp_le le_antisym less_imp_diff_less not_less zero_less_diff)
  qed
  from this [of i j] this [of j i] show ?thesis using assms by (metis nle_le)
qed

lemma circ_upd:
  assumes "j < length xs" "r \<le> length xs"
  shows "circ (xs[(h + j) mod length xs := v]) h r = (circ xs h r)[j := v]"
proof (rule nth_equalityI)
  fix i assume "i < length (circ (xs[(h + j) mod length xs := v]) h r)"
  then have i: "i < r" "i < length xs" using assms(2) by simp_all
  moreover have "(h + j) mod length xs < length xs" using i by (intro mod_less_divisor) linarith
  moreover have "xs[(h + j) mod length xs := v] ! ((h + i) mod length xs) = xs ! ((h + i) mod length xs)" if "i \<noteq> j"
  proof (rule nth_list_update_neq)
    show "(h + j) mod length xs \<noteq> (h + i) mod length xs" using circ_index_inj [of h i "length xs" j] i assms(1) that by argo
  qed
  ultimately show "circ (xs[(h + j) mod length xs := v]) h r ! i = (circ xs h r)[j := v] ! i"
    by (cases "i = j") simp_all
qed simp

section \<open>The buffers as lists\<close>

definition cb_ok :: "nat \<Rightarrow> cir_buffer \<Rightarrow> bool" where
  "cb_ok k c \<longleftrightarrow> k \<le> 27 \<and> cb_size c = 2 ^ k \<and> cb_mask c = 2 ^ k - 1 \<and> length (entries c) = 2 ^ k \<and>
     unat (cb_head c) < 2 ^ k \<and> unat (cb_tail c) < 2 ^ k"

definition window :: "cir_buffer \<Rightarrow> addr list" where
  "window c = circ (entries c) (unat (cb_head c)) (length (entries c))"

definition qlen :: "cir_buffer \<Rightarrow> nat" where
  "qlen c = (unat (cb_head c) + length (entries c) - unat (cb_tail c)) mod length (entries c)"

definition queue :: "cir_buffer \<Rightarrow> addr list" where
  "queue c = circ (entries c) (unat (cb_tail c)) (qlen c)"

lemma length_window [simp]: "length (window c) = length (entries c)"
  by (simp add: window_def)

lemma length_queue [simp]: "length (queue c) = qlen c"
  by (simp add: queue_def)

lemma masked:
  assumes "k \<le> 27"
  shows "unat (x AND (2 ^ k - 1) :: u32) = unat x mod 2 ^ k"
proof -
  have "(2 ^ k - 1 :: u32) = mask k" by (simp add: mask_eq_exp_minus_1)
  then show ?thesis by (simp only: unat_and_mask)
qed

lemma pow_small: "k \<le> 27 \<Longrightarrow> (2 :: nat) ^ k \<le> 2 ^ 27"
  by (rule power_increasing) simp_all

lemma next_index:
  assumes "cb_ok k c" "unat i < 2 ^ k"
  shows "unat (cb_next c i) = Suc (unat i) mod 2 ^ k"
proof -
  have "unat (i + 1) = Suc (unat i)"
    using assms pow_small [of k] by (subst unat_plus_simple) (simp_all add: cb_ok_def)
  then show ?thesis using assms(1) by (simp add: cb_next_def cb_ok_def masked)
qed

lemma cb_len: "cb_ok k c \<Longrightarrow> length (entries c) = 2 ^ k" "cb_ok k c \<Longrightarrow> unat (cb_head c) < length (entries c)"
    "cb_ok k c \<Longrightarrow> unat (cb_tail c) < length (entries c)"
  by (simp_all add: cb_ok_def)

lemma window_nth0: "cb_ok k c \<Longrightarrow> rd_entry c (cb_head c) = Some (hd (window c))"
  using cb_len(2) [of k c] hd_conv_nth [of "window c"]
  by (cases "window c = []") (auto simp: rd_entry_def window_def simp flip: length_0_conv)

lemma window_skip:
  assumes "cb_ok k c"
  shows "cb_ok k (c\<lparr>cb_head := cb_next c (cb_head c)\<rparr>)" "window (c\<lparr>cb_head := cb_next c (cb_head c)\<rparr>) = tl (window c) @ [hd (window c)]"
proof -
  let ?n = "length (entries c)" let ?h = "unat (cb_head c)"
  have h: "unat (cb_next c (cb_head c)) = Suc ?h mod ?n" using next_index [OF assms, of "cb_head c"] assms by (simp add: cb_ok_def)
  then show "cb_ok k (c\<lparr>cb_head := cb_next c (cb_head c)\<rparr>)" using assms by (simp add: cb_ok_def)
  obtain r where r: "?n = Suc r" using cb_len(2) [OF assms] by (cases ?n) auto
  have "circ (entries c) (Suc ?h) (Suc r) = circ (entries c) (Suc ?h) r @ [entries c ! (?h mod ?n)]"
    unfolding circ_Suc using r by simp (metis add_Suc_right mod_add_self2 r)
  moreover have "circ (entries c) ?h (Suc r) = entries c ! (?h mod ?n) # circ (entries c) (Suc ?h) r" by (rule circ_Cons)
  ultimately show "window (c\<lparr>cb_head := cb_next c (cb_head c)\<rparr>) = tl (window c) @ [hd (window c)]"
    by (simp add: window_def h) (simp add: r)
qed

lemma window_write:
  assumes "cb_ok k c" "unat ofs < 2 ^ k"
  shows "\<exists>c'. wr_entry ((cb_head c + ofs) AND cb_mask c) m c = Some c' \<and> cb_ok k c' \<and> window c' = (window c)[unat ofs := m]"
proof -
  let ?i = "(cb_head c + ofs) AND cb_mask c"
  have "unat (cb_head c) + unat ofs < 2 ^ 32" using assms pow_small [of k] by (simp add: cb_ok_def)
  then have i: "unat ?i = (unat (cb_head c) + unat ofs) mod length (entries c)"
    using assms(1) by (simp add: cb_ok_def masked unat_plus_simple)
  then have "unat ?i < length (entries c)" using cb_len(1) [OF assms(1)] by simp
  moreover have "window (c\<lparr>entries := (entries c)[unat ?i := m]\<rparr>) = (window c)[unat ofs := m]"
    unfolding window_def i using circ_upd [of "unat ofs" "entries c" "length (entries c)" "unat (cb_head c)" m] assms
    by (simp add: cb_ok_def)
  ultimately show ?thesis using assms(1) by (simp add: wr_entry_def cb_ok_def)
qed

lemma window_take:
  assumes "cb_ok k c"
  shows "\<exists>c'. wr_entry (cb_head c) NULL c = Some c' \<and> cb_ok k (c'\<lparr>cb_head := cb_next c' (cb_head c')\<rparr>) \<and>
    window (c'\<lparr>cb_head := cb_next c' (cb_head c')\<rparr>) = tl (window c) @ [NULL]"
proof -
  have "cb_head c = (cb_head c + 0) AND cb_mask c" 
  proof -
    have m: "cb_mask c = 2 ^ k - 1" and h: "unat (cb_head c) < 2 ^ k" "k \<le> 27" using assms by (simp_all add: cb_ok_def)
    show ?thesis unfolding m word_unat_eq_iff add_0_right using masked [OF h(2), of "cb_head c"] h(1) by simp
  qed
  then obtain c' where c': "wr_entry (cb_head c) NULL c = Some c'" "cb_ok k c'" "window c' = (window c)[0 := NULL]"
    using window_write [OF assms, of 0 NULL] by auto
  moreover have "window c \<noteq> []" using cb_len(2) [OF assms] by (metis length_window length_0_conv less_nat_zero_code)
  then have "tl ((window c)[0 := NULL]) = tl (window c)" "hd ((window c)[0 := NULL]) = NULL" by (cases "window c"; simp)+
  ultimately show ?thesis using window_skip [OF c'(2)] by auto
qed

text \<open>The queue.\<close>

lemma queue_bound: "cb_ok k c \<Longrightarrow> qlen c \<le> 2 ^ k - 1"
  using mod_less_divisor [of "2 ^ k" "unat (cb_head c) + 2 ^ k - unat (cb_tail c)"] by (simp add: qlen_def cb_ok_def less_eq_Suc_le)

lemma queue_head:
  assumes "cb_ok k c"
  shows "unat (cb_head c) = (unat (cb_tail c) + qlen c) mod length (entries c)"
  using cb_len [OF assms] unfolding qlen_def by (simp add: mod_add_right_eq)

lemma qlen_eq:
  assumes "cb_ok k c" "unat (cb_head c) = (unat (cb_tail c) + r) mod length (entries c)" "r < length (entries c)"
  shows "qlen c = r"
  using circ_index_inj [of "unat (cb_tail c)" "qlen c" "length (entries c)" r] queue_head [OF assms(1)] assms queue_bound [OF assms(1)]
  by (simp add: cb_ok_def)

lemma queue_full:
  assumes "cb_ok k c"
  shows "cb_next c (cb_head c) = cb_tail c \<longleftrightarrow> qlen c = 2 ^ k - 1"
proof -
  let ?t = "unat (cb_tail c)" let ?n = "2 ^ k :: nat"
  note L = cb_len [OF assms]
  have "cb_next c (cb_head c) = cb_tail c \<longleftrightarrow> Suc (unat (cb_head c)) mod ?n = ?t"
    using next_index [OF assms, of "cb_head c"] assms by (simp add: word_unat_eq_iff cb_ok_def)
  also have "\<dots> \<longleftrightarrow> (?t + Suc (qlen c)) mod ?n = (?t + 0) mod ?n"
    using queue_head [OF assms] L by (simp add: mod_Suc_eq)
  also have "\<dots> \<longleftrightarrow> qlen c = ?n - 1"
  proof
    assume a: "(?t + Suc (qlen c)) mod ?n = (?t + 0) mod ?n"
    show "qlen c = ?n - 1"
    proof (rule ccontr)
      assume "qlen c \<noteq> ?n - 1"
      then have "Suc (qlen c) < ?n" using queue_bound [OF assms] by linarith
      then show False using circ_index_inj [OF a] by simp
    qed
  next
    assume "qlen c = ?n - 1"
    then have "Suc (qlen c) = ?n" by simp
    then show "(?t + Suc (qlen c)) mod ?n = (?t + 0) mod ?n" by simp
  qed
  finally show ?thesis .
qed

lemma queue_write:
  assumes "cb_ok k c"
  shows "\<exists>c'. wr_entry (cb_head c) m c = Some c' \<and> cb_ok k c' \<and> queue c' = queue c \<and> cb_head c' = cb_head c \<and> cb_tail c' = cb_tail c \<and>
    (qlen c < 2 ^ k - 1 \<longrightarrow> cb_ok k (c'\<lparr>cb_head := cb_next c' (cb_head c')\<rparr>) \<and> queue (c'\<lparr>cb_head := cb_next c' (cb_head c')\<rparr>) = queue c @ [m])"
proof -
  let ?c = "c\<lparr>entries := (entries c)[unat (cb_head c) := m]\<rparr>" let ?d = "?c\<lparr>cb_head := cb_next ?c (cb_head ?c)\<rparr>"
  let ?n = "length (entries c)" let ?t = "unat (cb_tail c)" let ?r = "qlen c"
  note L = cb_len [OF assms]
  have ok: "cb_ok k ?c" using assms by (simp add: cb_ok_def)
  have r: "?r < ?n" "?r \<le> ?n" using queue_bound [OF assms] L(1) by (simp_all add: less_le_trans) (metis Suc_pred le_imp_less_Suc zero_less_numeral zero_less_power)+
  have h: "unat (cb_head c) = (?t + ?r) mod ?n" by (rule queue_head [OF assms])
  have q: "circ ((entries c)[(?t + ?r) mod ?n := m]) ?t ?r = circ (entries c) ?t ?r" using circ_upd [OF r(1,2)] by (simp add: list_update_beyond)
  have l: "qlen ?c = ?r" by (simp add: qlen_def)
  have "queue ?c = queue c" unfolding queue_def l using q h by simp
  moreover have "cb_ok k ?d \<and> queue ?d = queue c @ [m]" if "?r < 2 ^ k - 1"
  proof -
    have ok': "cb_ok k ?d" by (rule window_skip(1) [OF ok])
    have "unat (cb_head ?d) = (?t + Suc ?r) mod ?n"
      using next_index [OF ok, of "cb_head c"] h L(1,2) by (simp add: mod_Suc_eq)
    then have "qlen ?d = Suc ?r" using that L(1) by (intro qlen_eq [OF ok']) auto
    then show ?thesis using ok' q h L(1) unfolding queue_def by (simp add: circ_Suc)
  qed
  ultimately show ?thesis using ok L(2) by (simp add: wr_entry_def)
qed

lemma queue_empty: "cb_ok k c \<Longrightarrow> cb_tail c = cb_head c \<longleftrightarrow> queue c = []"
  using queue_head [of k c] cb_len [of k c] qlen_eq [of k c 0]
  by (metis length_0_conv length_queue mod_less add.right_neutral word_unat_eq_iff gr_implies_not0 not_gr_zero)

lemma queue_pop:
  assumes "cb_ok k c" "queue c \<noteq> []"
  shows "rd_entry c (cb_tail c) = Some (hd (queue c)) \<and> cb_ok k (c\<lparr>cb_tail := cb_next c (cb_tail c)\<rparr>) \<and>
    queue (c\<lparr>cb_tail := cb_next c (cb_tail c)\<rparr>) = tl (queue c)"
proof -
  let ?c = "c\<lparr>cb_tail := cb_next c (cb_tail c)\<rparr>" let ?n = "length (entries c)" let ?t = "unat (cb_tail c)"
  note L = cb_len [OF assms(1)]
  obtain r where r: "qlen c = Suc r" using assms(2) by (metis length_queue length_0_conv not0_implies_Suc)
  have t: "unat (cb_tail ?c) = Suc ?t mod ?n" using next_index [OF assms(1), of "cb_tail c"] L by simp
  then have ok: "cb_ok k ?c" using assms(1) L(1) by (simp add: cb_ok_def)
  have "unat (cb_head ?c) = (unat (cb_tail ?c) + r) mod length (entries ?c)"
    using queue_head [OF assms(1)] r t by (simp add: mod_add_left_eq)
  moreover have "r < length (entries ?c)" using queue_bound [OF assms(1)] r L(1) by simp
  ultimately have "qlen ?c = r" by (rule qlen_eq [OF ok])
  then have "queue ?c = circ (entries c) (Suc ?t) r" unfolding queue_def using t by simp
  moreover have "queue c = entries c ! ?t # circ (entries c) (Suc ?t) r" using L(3) by (simp add: queue_def r circ_Cons)
  ultimately show ?thesis using ok L(3) by (simp add: rd_entry_def)
qed

section \<open>Moving packets to the queue\<close>

text \<open>
  What \<^verbatim>\<open>move_ready\<close> moves with room for \<open>f\<close> packets, and by how many positions the window moves. The
  packet for which there is no room is taken from the window, but not added.
\<close>

fun take_run :: "nat \<Rightarrow> addr list \<Rightarrow> addr list \<times> nat" where
  "take_run f [] = ([], 0)"
| "take_run f (m # w) = (if m = NULL then ([], 0) else if f = 0 then ([], 1)
     else (let (ms, c) = take_run (f - 1) w in (m # ms, Suc c)))"

lemma take_run_snoc: "take_run f (w @ [NULL]) = take_run f w"
  by (induction f w rule: take_run.induct) simp_all

lemma take_run_le: "snd (take_run f w) \<le> length w"
  by (induction f w rule: take_run.induct) (auto split: prod.splits)

lemma take_run_stop: "j < length w \<Longrightarrow> w ! j = NULL \<Longrightarrow> snd (take_run f w) \<le> j"
proof (induction f w arbitrary: j rule: take_run.induct)
  case (2 f m w)
  then show ?case by (cases j) (auto split: prod.splits)
qed simp

lemma take_run_fst:
  "length (fst (take_run f w)) \<le> f \<and> length (fst (take_run f w)) \<le> snd (take_run f w) \<and>
    fst (take_run f w) = take (length (fst (take_run f w))) w \<and> NULL \<notin> set (fst (take_run f w))"
  by (induction f w rule: take_run.induct) (auto split: prod.splits)

lemma take_run_all: "length (filter (\<lambda>m. m \<noteq> NULL) w) \<le> f \<Longrightarrow> length (fst (take_run f w)) = snd (take_run f w)"
  by (induction f w rule: take_run.induct) (auto split: prod.splits if_splits)

lemma take_run_pos: "w \<noteq> [] \<Longrightarrow> hd w \<noteq> NULL \<Longrightarrow> 0 < snd (take_run f w)"
  by (cases w) (auto split: prod.splits)

definition slide :: "nat \<Rightarrow> addr list \<Rightarrow> addr list" where
  "slide c w = drop c w @ replicate c NULL"

lemma slide_0 [simp]: "slide 0 w = w"
  by (simp add: slide_def)

lemma length_slide [simp]: "c \<le> length w \<Longrightarrow> length (slide c w) = length w"
  by (simp add: slide_def)

lemma slide_Suc: "slide c (w @ [NULL]) = slide (Suc c) (m # w)" if "c \<le> length w"
  using that by (simp add: slide_def replicate_append_same)

lemma slide_slide: "c + d \<le> length w \<Longrightarrow> slide d (slide c w) = slide (c + d) w"
  by (simp add: slide_def replicate_add [symmetric] add.commute)

lemma nth_slide: "c \<le> length w \<Longrightarrow> j < length w \<Longrightarrow> slide c w ! j = (if c + j < length w then w ! (c + j) else NULL)"
  by (auto simp: slide_def nth_append)

lemma move_ready_ok:
  assumes "cb_ok k order" "cb_ok k ready"
    and "take_run (2 ^ k - 1 - qlen ready) (window order) = (ms, c)"
  shows "\<exists>order' ready'. move_ready order ready adv = Some (order', ready', adv + of_nat c) \<and> cb_ok k order' \<and> cb_ok k ready' \<and>
    window order' = slide c (window order) \<and> queue ready' = queue ready @ ms"
  using assms
proof (induction c arbitrary: order ready adv ms)
  case 0
  have "window order \<noteq> []" using cb_len(2) [OF "0.prems"(1)] by (metis length_window length_0_conv less_nat_zero_code)
  then have "hd (window order) = NULL" using take_run_pos "0.prems"(3) by (metis less_irrefl snd_conv)
  moreover have "ms = []" using take_run_fst [of "2 ^ k - 1 - qlen ready" "window order"] "0.prems"(3) by simp
  ultimately show ?case using "0.prems" by (subst move_ready.simps) (simp add: window_nth0)
next
  case (Suc c)
  obtain m w where w: "window order = m # w"
    using cb_len(2) [OF Suc.prems(1)] by (metis length_window length_0_conv less_nat_zero_code neq_Nil_conv)
  have m: "m \<noteq> NULL" using Suc.prems(3) w by auto
  obtain ready1 where r: "wr_entry (cb_head ready) m ready = Some ready1" "cb_ok k ready1" "queue ready1 = queue ready"
      "cb_head ready1 = cb_head ready" "cb_tail ready1 = cb_tail ready"
      "qlen ready < 2 ^ k - 1 \<Longrightarrow> cb_ok k (ready1\<lparr>cb_head := cb_next ready1 (cb_head ready1)\<rparr>) \<and>
        queue (ready1\<lparr>cb_head := cb_next ready1 (cb_head ready1)\<rparr>) = queue ready @ [m]"
    using queue_write [OF Suc.prems(2), of m] by blast
  obtain order1 where o: "wr_entry (cb_head order) NULL order = Some order1" "cb_ok k (order1\<lparr>cb_head := cb_next order1 (cb_head order1)\<rparr>)"
      "window (order1\<lparr>cb_head := cb_next order1 (cb_head order1)\<rparr>) = w @ [NULL]"
    using window_take [OF Suc.prems(1)] w by auto
  have l: "qlen ready1 = qlen ready" using r(3) by (metis length_queue)
  let ?order = "order1\<lparr>cb_head := cb_next order1 (cb_head order1)\<rparr>" let ?ready = "ready1\<lparr>cb_head := cb_next ready1 (cb_head ready1)\<rparr>"
  have step: "move_ready order ready adv = (if cb_next ready1 (cb_head ready1) = cb_tail ready1 then Some (?order, ready1, adv + 1)
      else move_ready ?order ?ready (adv + 1))"
    using m w r(1) o(1) Suc.prems(1) by (subst move_ready.simps) (simp add: window_nth0)
  show ?case
  proof (cases "qlen ready = 2 ^ k - 1")
    case True
    then have "ms = []" "c = 0" using Suc.prems(3) w m by auto
    moreover have "slide 1 (window order) = w @ [NULL]" by (simp add: w slide_def)
    ultimately show ?thesis using step True queue_full [OF r(2)] l o r(2,3) by simp
  next
    case False
    then have room: "qlen ready < 2 ^ k - 1" using queue_bound [OF Suc.prems(2)] by simp
    obtain ms' where ms': "take_run (2 ^ k - 1 - qlen ready - 1) w = (ms', c)" "ms = m # ms'"
    proof (cases "take_run (2 ^ k - 1 - qlen ready - 1) w")
      case (Pair ms' c')
      have "2 ^ k - 1 - qlen ready \<noteq> 0" using room by linarith
      then have "m # ms' = ms \<and> c' = c" using Suc.prems(3) m Pair unfolding w by simp
      then show ?thesis using Pair by (intro that) auto
    qed
    have "qlen ?ready = Suc (qlen ready)" using r(6) [OF room] by (metis length_queue length_append_singleton)
    then have t: "take_run (2 ^ k - 1 - qlen ?ready) (window ?order) = (ms', c)"
      using ms'(1) o(3) by (simp add: take_run_snoc)
    have "cb_ok k ?ready" "queue ?ready = queue ready @ [m]" using r(6) [OF room] by simp_all
    from Suc.IH [OF o(2) this(1) t, of "adv + 1"] obtain order2 ready2 where
      f: "move_ready ?order ?ready (adv + 1) = Some (order2, ready2, adv + 1 + of_nat c)" "cb_ok k order2" "cb_ok k ready2"
        "window order2 = slide c (w @ [NULL])" "queue ready2 = queue ready @ ms"
      using \<open>queue ?ready = queue ready @ [m]\<close> o(3) ms'(2) by auto
    have "c \<le> length w" using take_run_le [of "2 ^ k - 1 - qlen ready - 1" w] ms'(1) by simp
    then have "window order2 = slide (Suc c) (window order)" using f(4) by (simp add: w slide_Suc)
    moreover have "\<not> cb_next ready1 (cb_head ready1) = cb_tail ready1" using queue_full [OF r(2)] l False by simp
    ultimately show ?thesis using step f by (simp add: add.assoc)
  qed
qed

text \<open>The outer loop on lists: gaps are skipped until the window has moved far enough.\<close>

function spec_fill :: "nat \<Rightarrow> nat \<Rightarrow> addr list \<Rightarrow> addr list \<Rightarrow> nat \<Rightarrow> addr list \<times> addr list \<times> nat" where
  "spec_fill cap n w q adv =
     (if adv < n \<and> length q < cap \<and> w \<noteq> [] then
        let g = (if hd w = NULL then 1 else 0); (ms, c) = take_run (cap - length q) (slide g w)
        in spec_fill cap n (slide c (slide g w)) (q @ ms) (adv + g + c)
      else (w, q, adv))"
  by auto
termination
proof (relation "measure (\<lambda>(cap, n, w, q, adv). n - adv)", goal_cases)
  case (2 cap n w q adv g p ms c)
  have "0 < g + c"
  proof (cases "hd w = NULL")
    case False
    then have "g = 0" using 2(2) by simp
    then show ?thesis using take_run_pos [of w "cap - length q"] 2 False by (metis add_gr_0 slide_0 snd_conv)
  qed (use 2(2) in simp)
  then show ?case using 2(1) by (simp del: add_gr_0) linarith
qed simp

declare spec_fill.simps [simp del]

lemma fill_loop_ok:
  assumes "cb_ok k order" "cb_ok k ready" "window order = w" "queue ready = q"
    and "spec_fill (2 ^ k - 1) (unat n) w q adv = (w', q', adv')" "unat n \<le> 2 ^ k" "adv \<le> 2 ^ k"
    and "\<And>j. 2 ^ k - adv \<le> j \<Longrightarrow> j < 2 ^ k \<Longrightarrow> w ! j = NULL"
  shows "\<exists>order' ready'. fill_loop n order ready (of_nat adv) = Some (order', ready', of_nat adv') \<and> cb_ok k order' \<and> cb_ok k ready' \<and>
    window order' = w' \<and> queue ready' = q' \<and> adv' \<le> 2 ^ k"
  using assms
proof (induction "2 ^ k - 1 :: nat" "unat n" w q adv arbitrary: order ready rule: spec_fill.induct)
  case (1 w q adv)
  have lw: "length w = 2 ^ k" using "1.prems"(3) cb_len(1) [OF "1.prems"(1)] by auto
  have lq: "length q = qlen ready" using "1.prems"(4) by (metis length_queue)
  have full: "cb_next ready (cb_head ready) \<noteq> cb_tail ready \<longleftrightarrow> length q < 2 ^ k - 1"
    using queue_full [OF "1.prems"(2)] queue_bound [OF "1.prems"(2)] lq by auto
  have a32: "adv < 2 ^ 32" using "1.prems"(7) pow_small [of k] "1.prems"(1) by (simp add: cb_ok_def)
  then have lt: "(of_nat adv :: u32) < n \<longleftrightarrow> adv < unat n" by (simp add: word_less_nat_alt unat_of_nat_small)
  show ?case
  proof (cases "adv < unat n \<and> length q < 2 ^ k - 1")
    case False
    then have "(w', q', adv') = (w, q, adv)" using "1.prems"(5) by (subst (asm) spec_fill.simps) (auto split: if_splits)
    then show ?thesis using False "1.prems" lt full by (subst fill_loop.simps) auto
  next
    case True
    define g :: nat where "g = (if hd w = NULL then 1 else 0)"
    have nz: "w \<noteq> []" using lw by auto
    obtain ms c where t: "take_run (2 ^ k - 1 - length q) (slide g w) = (ms, c)" by fastforce
    have rec: "spec_fill (2 ^ k - 1) (unat n) (slide c (slide g w)) (q @ ms) (adv + g + c) = (w', q', adv')"
      using "1.prems"(5) True nz t by (subst (asm) spec_fill.simps) (simp add: g_def Let_def)
    define order1 where "order1 = (if hd w = NULL then order\<lparr>cb_head := cb_next order (cb_head order)\<rparr> else order)"
    have o1: "cb_ok k order1" "window order1 = slide g w"
      using window_skip [OF "1.prems"(1)] "1.prems"(1,3) nz by (auto simp: order1_def g_def slide_def neq_Nil_conv)
    have lg: "length (slide g w) = 2 ^ k" using o1 cb_len(1) by (metis length_window)
    have "take_run (2 ^ k - 1 - qlen ready) (window order1) = (ms, c)" using t lq o1(2) by simp
    from move_ready_ok [OF o1(1) "1.prems"(2) this, of "of_nat (adv + g)"] obtain order2 ready2 where
      m: "move_ready order1 ready (of_nat (adv + g)) = Some (order2, ready2, of_nat (adv + g + c))" "cb_ok k order2" "cb_ok k ready2"
        "window order2 = slide c (slide g w)" "queue ready2 = q @ ms"
      using o1(2) "1.prems"(4) by auto
    have g1: "g \<le> 1" "adv + g \<le> 2 ^ k" using True "1.prems"(6) by (auto simp: g_def)
    have tail1: "slide g w ! j = NULL" if "2 ^ k - (adv + g) \<le> j" "j < 2 ^ k" for j
      using that nth_slide [of g w j] "1.prems"(8) [of "g + j"] lw g1 by (simp split: if_splits)
    have cle: "adv + g + c \<le> 2 ^ k"
    proof (cases "adv + g = 0")
      case True
      then show ?thesis using take_run_le [of "2 ^ k - 1 - length q" "slide g w"] t lg by simp
    next
      case False
      then have "2 ^ k - (adv + g) < length (slide g w)" using lg by simp
      moreover have "slide g w ! (2 ^ k - (adv + g)) = NULL" using tail1 [of "2 ^ k - (adv + g)"] False by simp
      ultimately have "c \<le> 2 ^ k - (adv + g)" using take_run_stop t by (metis snd_conv)
      then show ?thesis using g1 by simp
    qed
    have tail2: "slide c (slide g w) ! j = NULL" if "2 ^ k - (adv + g + c) \<le> j" "j < 2 ^ k" for j
      using that nth_slide [of c "slide g w" j] tail1 [of "c + j"] lg cle by (simp split: if_splits)
    have "\<exists>order' ready'. fill_loop n order2 ready2 (of_nat (adv + g + c)) = Some (order', ready', of_nat adv') \<and> cb_ok k order' \<and> cb_ok k ready' \<and>
        window order' = w' \<and> queue ready' = q' \<and> adv' \<le> 2 ^ k"
    proof (rule "1.hyps")
      show "adv < unat n \<and> length q < 2 ^ k - 1 \<and> w \<noteq> []" using True nz by simp
    qed (use m rec "1.prems"(6) cle tail2 t g_def in auto)
    moreover have "fill_loop n order ready (of_nat adv) = fill_loop n order2 ready2 (of_nat (adv + g + c))"
      using m(1) True lt full window_nth0 [OF "1.prems"(1)] "1.prems"(3)
      by (subst fill_loop.simps) (auto simp: order1_def g_def)
    ultimately show ?thesis by simp
  qed
qed

section \<open>Sequence numbers\<close>

text \<open>
  The packets have numbers \<open>N\<close>, of which their sequence numbers are the remainders. Position \<open>j\<close> of the
  window is for number \<open>base + j\<close>, and the packets that have left it are in order and have smaller numbers.
\<close>

definition num_ok :: "(addr \<Rightarrow> nat) \<Rightarrow> nat \<Rightarrow> addr list \<Rightarrow> addr list \<Rightarrow> bool" where
  "num_ok N base w q \<longleftrightarrow> (\<forall>j < length w. w ! j \<noteq> NULL \<longrightarrow> N (w ! j) = base + j) \<and>
     sorted_wrt (\<lambda>x y. N x < N y) q \<and> (\<forall>m \<in> set q. N m < base)"

abbreviation packets :: "addr list \<Rightarrow> addr list" where
  "packets w \<equiv> filter (\<lambda>m. m \<noteq> NULL) w"

lemma num_ok_move:
  assumes "num_ok N base w q" "ms = take (length ms) w" "NULL \<notin> set ms" "length ms \<le> c" "c \<le> length w"
  shows "num_ok N (base + c) (slide c w) (q @ ms)"
proof -
  have i: "N (ms ! i) = base + i" if "i < length ms" for i
  proof -
    have "ms ! i = w ! i" using assms(2) that by (metis nth_take)
    moreover have "ms ! i \<noteq> NULL" using assms(3) that by (metis nth_mem)
    moreover have "i < length w" using that assms(4,5) by linarith
    ultimately show ?thesis using assms(1) by (metis num_ok_def)
  qed
  have "sorted_wrt (\<lambda>x y. N x < N y) ms" using i by (simp add: sorted_wrt_iff_nth_less)
  moreover have "base \<le> N m \<and> N m < base + c" if "m \<in> set ms" for m
    using that i assms(4) by (metis in_set_conv_nth le_add1 nat_add_left_cancel_less order_less_le_trans)
  moreover have "N (slide c w ! j) = base + c + j" if "j < length w" "slide c w ! j \<noteq> NULL" for j
    using that assms(1,5) by (simp add: num_ok_def nth_slide split: if_splits)
  ultimately show ?thesis using assms(1,5) by (fastforce simp: num_ok_def sorted_wrt_append)
qed

lemma num_ok_gap: "num_ok N base w q \<Longrightarrow> c \<le> length w \<Longrightarrow> num_ok N (base + c) (slide c w) q"
  using num_ok_move [of N base w q "[]" c] by simp

lemma set_slide: "set (slide c w) \<subseteq> insert NULL (set w)"
  by (auto simp: slide_def dest: in_set_dropD)

lemma mset_move:
  assumes "ms = take n w" "NULL \<notin> set ms" "n \<le> length w"
  shows "packets w = ms @ packets (slide n w)"
proof -
  have "packets w = packets (take n w) @ packets (drop n w)" by (metis append_take_drop_id filter_append)
  moreover have "packets (take n w) = ms" unfolding assms(1) [symmetric] using assms(2) by (intro filter_True) auto
  ultimately show ?thesis by (simp add: slide_def)
qed

lemma spec_fill_ok:
  assumes "spec_fill cap n w q adv = (w', q', adv')" "num_ok N (base + adv) w (out @ q)" "set q \<subseteq> A" "set w \<subseteq> insert NULL A"
  shows "num_ok N (base + adv') w' (out @ q') \<and> set q' \<subseteq> A \<and> set w' \<subseteq> insert NULL A \<and> length w' = length w \<and> adv \<le> adv' \<and>
    (length q + length (packets w) \<le> cap \<longrightarrow> mset q' + mset (packets w') = mset q + mset (packets w))"
  using assms
proof (induction cap n w q adv rule: spec_fill.induct)
  case (1 cap n w q adv)
  show ?case
  proof (cases "adv < n \<and> length q < cap \<and> w \<noteq> []")
    case False
    then show ?thesis using "1.prems" by (subst (asm) spec_fill.simps) auto
  next
    case True
    define g :: nat where "g = (if hd w = NULL then 1 else 0)"
    obtain ms c where t: "take_run (cap - length q) (slide g w) = (ms, c)" by fastforce
    have rec: "spec_fill cap n (slide c (slide g w)) (q @ ms) (adv + g + c) = (w', q', adv')"
      using "1.prems"(1) True t by (subst (asm) spec_fill.simps) (simp add: g_def Let_def)
    have gl: "g \<le> length w" using True by (cases w) (auto simp: g_def)
    note f = take_run_fst [of "cap - length q" "slide g w", unfolded t fst_conv snd_conv]
    have cl: "c \<le> length (slide g w)" using take_run_le [of "cap - length q" "slide g w"] t by simp
    have "num_ok N (base + adv + g) (slide g w) (out @ q)" by (rule num_ok_gap [OF "1.prems"(2) gl])
    then have num: "num_ok N (base + (adv + g + c)) (slide c (slide g w)) (out @ q @ ms)"
      using num_ok_move [of N "base + adv + g" "slide g w" "out @ q" ms c] f cl by (simp add: add.assoc)
    have ms: "set ms \<subseteq> A"
    proof
      fix x assume "x \<in> set ms"
      moreover have "set ms \<subseteq> set (slide g w)" using f by (metis set_take_subset)
      ultimately show "x \<in> A" using f set_slide [of g w] "1.prems"(4) by auto
    qed
    have sw: "set (slide c (slide g w)) \<subseteq> insert NULL A" using set_slide [of c "slide g w"] set_slide [of g w] "1.prems"(4) by auto
    have IH: "num_ok N (base + adv') w' (out @ q') \<and> set q' \<subseteq> A \<and> set w' \<subseteq> insert NULL A \<and> length w' = length (slide c (slide g w)) \<and>
        adv + g + c \<le> adv' \<and> (length (q @ ms) + length (packets (slide c (slide g w))) \<le> cap \<longrightarrow>
          mset q' + mset (packets w') = mset (q @ ms) + mset (packets (slide c (slide g w))))"
      by (rule "1.IH" [OF True g_def t [symmetric] refl rec num]) (use ms sw "1.prems"(3) in auto)
    have pg: "packets (slide g w) = packets w" using True by (cases w) (auto simp: g_def slide_def)
    have bag: "mset ms + mset (packets (slide c (slide g w))) = mset (packets w)" if "length q + length (packets w) \<le> cap"
    proof -
      have "length ms = c" using take_run_all [of "slide g w" "cap - length q"] that t pg by simp
      then have "packets (slide g w) = ms @ packets (slide c (slide g w))" using f cl by (intro mset_move) auto
      then show ?thesis using pg by (metis mset_append)
    qed
    have "length ms + length (packets (slide c (slide g w))) = length (packets w)" if "length q + length (packets w) \<le> cap"
      using arg_cong [OF bag [OF that], of size] unfolding size_union size_mset .
    then show ?thesis using IH bag cl gl by (auto simp: add.assoc)
  qed
qed

section \<open>Insertion\<close>

definition ro_held :: "rte_reorder_buffer \<Rightarrow> addr list" where
  "ro_held b = queue (ready_buf b) @ packets (window (order_buf b))"

text \<open>The buffer after the packets \<open>out\<close> have been fetched, when the packets \<open>A\<close> were accepted.\<close>

definition ro_rep :: "nat \<Rightarrow> (addr \<Rightarrow> nat) \<Rightarrow> addr set \<Rightarrow> nat \<Rightarrow> addr list \<Rightarrow> rte_reorder_buffer \<Rightarrow> bool" where
  "ro_rep k N A base out b \<longleftrightarrow> cb_ok k (order_buf b) \<and> cb_ok k (ready_buf b) \<and> NULL \<notin> A \<and>
     num_ok N base (window (order_buf b)) (out @ queue (ready_buf b)) \<and>
     set out \<subseteq> A \<and> set (queue (ready_buf b)) \<subseteq> A \<and> set (window (order_buf b)) \<subseteq> insert NULL A \<and>
     (if is_initialized b then min_seqn b = of_nat base else ro_held b = [] \<and> out = [])"

lemma place_ok:
  assumes "cb_ok k (order_buf b)" "unat ofs < 2 ^ k"
  shows "\<exists>b'. place_mbuf b m ofs = Some b' \<and> cb_ok k (order_buf b') \<and> window (order_buf b') = (window (order_buf b))[unat ofs := m] \<and>
    ready_buf b' = ready_buf b \<and> min_seqn b' = min_seqn b \<and> is_initialized b' = is_initialized b"
  using window_write [OF assms, of m] by (auto simp: place_mbuf_def)

lemma packets_update:
  assumes "j < length w" "w ! j = NULL" "m \<noteq> NULL"
  shows "mset (packets (w[j := m])) = add_mset m (mset (packets w))"
proof -
  have "mset (packets w) = {#x \<in># mset w. x \<noteq> NULL#}" "mset (packets (w[j := m])) = {#x \<in># mset (w[j := m]). x \<noteq> NULL#}" by simp_all
  moreover have "mset (w[j := m]) = add_mset m (mset w - {#NULL#})" using assms(1,2) by (simp add: mset_update)
  ultimately show ?thesis using assms(3) by simp
qed

text \<open>Placing a packet at the position of its number.\<close>

lemma place_rep:
  assumes R: "ro_rep k N A base out b" "is_initialized b" and m: "m \<noteq> NULL" "base \<le> N m" "N m < base + 2 ^ k" "unat ofs = N m - base"
  shows "\<exists>b'. place_mbuf b m ofs = Some b' \<and> ro_rep k N (insert m A) base out b' \<and> is_initialized b' \<and>
    ((\<forall>y \<in> set (ro_held b). N y \<noteq> N m) \<longrightarrow> mset (ro_held b') = add_mset m (mset (ro_held b)))"
proof -
  let ?w = "window (order_buf b)" let ?j = "N m - base"
  note D = R(1)[unfolded ro_rep_def]
  have j: "?j < length ?w" using m cb_len(1) [of k "order_buf b"] D by simp
  have "unat ofs < 2 ^ k" using m by simp
  from place_ok [OF _ this, of b m] obtain b' where b': "place_mbuf b m ofs = Some b'" "cb_ok k (order_buf b')"
    "window (order_buf b') = ?w[?j := m]" "ready_buf b' = ready_buf b" "min_seqn b' = min_seqn b" "is_initialized b' = is_initialized b"
    using D m(4) by auto
  have "num_ok N base (?w[?j := m]) (out @ queue (ready_buf b))"
    using D m j unfolding num_ok_def by (auto simp: nth_list_update)
  then have "ro_rep k N (insert m A) base out b'"
    using D R(2) b' m(1) set_update_subset_insert [of ?w ?j m] by (auto simp: ro_rep_def)
  moreover have "mset (ro_held b') = add_mset m (mset (ro_held b))" if "\<forall>y \<in> set (ro_held b). N y \<noteq> N m"
  proof -
    have "?w ! ?j = NULL"
    proof (rule ccontr)
      assume "?w ! ?j \<noteq> NULL"
      then have "N (?w ! ?j) = N m" "?w ! ?j \<in> set (ro_held b)" using D m j by (auto simp: num_ok_def ro_held_def)
      then show False using that by blast
    qed
    then show ?thesis using packets_update [OF j _ m(1)] b' by (simp add: ro_held_def)
  qed
  ultimately show ?thesis using b'(1,6) R(2) by blast
qed

lemma fill_rep:
  assumes R: "ro_rep k N A base out b" "is_initialized b" and n: "unat n \<le> 2 ^ k"
  shows "\<exists>b' adv. rte_reorder_fill_overflow b n = Some (b', of_nat adv) \<and> adv \<le> 2 ^ k \<and> ro_rep k N A (base + adv) out b' \<and> is_initialized b' \<and>
    cb_size (order_buf b') = 2 ^ k \<and> (length (ro_held b) < 2 ^ k \<longrightarrow> mset (ro_held b') = mset (ro_held b))"
proof -
  note D = R(1)[unfolded ro_rep_def]
  obtain w' q' adv where s: "spec_fill (2 ^ k - 1) (unat n) (window (order_buf b)) (queue (ready_buf b)) 0 = (w', q', adv)" by (metis prod_cases3)
  obtain order' ready' where f: "fill_loop n (order_buf b) (ready_buf b) 0 = Some (order', ready', of_nat adv)" "cb_ok k order'" "cb_ok k ready'"
      "window order' = w'" "queue ready' = q'" "adv \<le> 2 ^ k"
    using fill_loop_ok [OF _ _ refl refl s n] D by auto
  let ?b = "b\<lparr>order_buf := order', ready_buf := ready', min_seqn := min_seqn b + of_nat adv\<rparr>"
  have ok: "num_ok N (base + adv) w' (out @ q') \<and> set q' \<subseteq> A \<and> set w' \<subseteq> insert NULL A \<and>
      (length (queue (ready_buf b)) + length (packets (window (order_buf b))) \<le> 2 ^ k - 1 \<longrightarrow>
        mset q' + mset (packets w') = mset (queue (ready_buf b)) + mset (packets (window (order_buf b))))"
    using spec_fill_ok [OF s, of N base out A] D by simp
  have "ro_rep k N A (base + adv) out ?b" using D R(2) f ok by (auto simp: ro_rep_def)
  moreover have "rte_reorder_fill_overflow b n = Some (?b, of_nat adv)" by (simp add: rte_reorder_fill_overflow_def f(1))
  moreover have "mset (ro_held ?b) = mset (ro_held b)" if "length (ro_held b) < 2 ^ k"
    using ok that f by (auto simp: ro_held_def)
  ultimately show ?thesis using f(2,6) R(2) by (auto simp: cb_ok_def)
qed

lemma insert_eq:
  assumes "is_initialized b" "k \<le> 27" "cb_size (order_buf b) = 2 ^ k" "min_seqn b = of_nat base" "mbufs st m = Some x" "seqn x = of_nat j"
  shows "rte_reorder_insert st m b = (let ofs = of_nat j - of_nat base in
     if unat ofs < 2 ^ k then do { b \<leftarrow> place_mbuf b m ofs; Some (b, None) }
     else if unat ofs < 2 * 2 ^ k then do {
       (b, adv) \<leftarrow> rte_reorder_fill_overflow b (ofs + 1 - 2 ^ k);
       if adv < ofs + 1 - 2 ^ k then Some (b, Some ENOSPC)
       else do { b \<leftarrow> place_mbuf b m (of_nat j - min_seqn b); Some (b, None) } }
     else Some (b, Some ERANGE))"
proof -
  have "unat (2 ^ k :: u32) = 2 ^ k" "unat (2 * 2 ^ k :: u32) = 2 * 2 ^ k"
    using assms(2) unat_2p [of k, where ?'a = 32] unat_2p [of "Suc k", where ?'a = 32] by simp_all
  then show ?thesis unfolding assms(6) [symmetric]
    using assms(1-5) by (simp add: rte_reorder_insert_def word_less_nat_alt Let_def)
qed

lemma insert_started:
  assumes R: "ro_rep k N A base out b" "is_initialized b" and x: "mbufs st m = Some x" "seqn x = of_nat (N m)" "m \<noteq> NULL"
    and near: "base \<le> N m + (2 ^ 32 - 2 * 2 ^ k)" "N m < base + 2 ^ 32"
  shows "\<exists>b' r base'. rte_reorder_insert st m b = Some (b', r) \<and> ro_rep k N (if r = None then insert m A else A) base' out b' \<and>
    is_initialized b' \<and> base \<le> base' \<and> base' \<le> max base (N m) \<and>
    (length (ro_held b) < 2 ^ k \<and> (\<forall>y \<in> set (ro_held b). N y \<noteq> N m) \<longrightarrow>
      mset (ro_held b') = (if r = None then add_mset m (mset (ro_held b)) else mset (ro_held b)))"
proof -
  note D = R(1)[unfolded ro_rep_def]
  let ?ofs = "of_nat (N m) - of_nat base :: u32"
  have k: "k \<le> 27" "cb_size (order_buf b) = 2 ^ k" "min_seqn b = of_nat base" using D R(2) by (simp_all add: cb_ok_def)
  have p: "(2 :: nat) ^ k \<le> 2 ^ 27" by (rule pow_small [OF k(1)])
  have sz: "unat (2 ^ k :: u32) = 2 ^ k" "unat (2 * 2 ^ k :: u32) = 2 * 2 ^ k"
    using p k(1) unat_2p [of k, where ?'a = 32] unat_2p [of "Suc k", where ?'a = 32] by simp_all
  note ins = insert_eq [OF R(2) k x(1,2), unfolded Let_def]
  show ?thesis
  proof (cases "base \<le> N m")
    case False
    have "?ofs = of_nat (2 ^ 32 - (base - N m))"
      using False near(1) by (simp add: of_nat_diff)
    then have "unat ?ofs = 2 ^ 32 - (base - N m)" using False by (simp add: unat_of_nat_small)
    then have "2 * 2 ^ k \<le> unat ?ofs" using near(1) p False by linarith
    then have "rte_reorder_insert st m b = Some (b, Some ERANGE)" using ins by simp
    then show ?thesis using R by auto
  next
    case True
    then have e: "?ofs = of_nat (N m - base)" by (simp add: of_nat_diff)
    have ofs: "unat ?ofs = N m - base" unfolding e using near(2) True by (intro unat_of_nat_small) simp
    consider "N m - base < 2 ^ k" | "2 ^ k \<le> N m - base" "N m - base < 2 * 2 ^ k" | "2 * 2 ^ k \<le> N m - base" by linarith
    then show ?thesis
    proof cases
      case 1
      then have "N m < base + 2 ^ k" by linarith
      from place_rep [OF R x(3) True this ofs] obtain b' where b': "place_mbuf b m ?ofs = Some b'" "ro_rep k N (insert m A) base out b'" "is_initialized b'"
        "(\<forall>y \<in> set (ro_held b). N y \<noteq> N m) \<longrightarrow> mset (ro_held b') = add_mset m (mset (ro_held b))" by blast
      have "rte_reorder_insert st m b = Some (b', None)" using ins ofs 1 b'(1) by simp
      then show ?thesis using b' by auto
    next
      case 2
      have n: "unat (?ofs + 1 - 2 ^ k) = N m - base + 1 - 2 ^ k"
      proof -
        have "unat (?ofs + 1) = N m - base + 1" using ofs 2 p by (subst unat_plus_simple) simp_all
        then show ?thesis using 2 sz by (subst unat_sub_simple) (simp_all add: word_le_nat_alt)
      qed
      then have "unat (?ofs + 1 - 2 ^ k) \<le> 2 ^ k" using 2 by simp
      from fill_rep [OF R this] obtain b1 adv where f: "rte_reorder_fill_overflow b (?ofs + 1 - 2 ^ k) = Some (b1, of_nat adv)" "adv \<le> 2 ^ k"
          "ro_rep k N A (base + adv) out b1" "is_initialized b1" "length (ro_held b) < 2 ^ k \<longrightarrow> mset (ro_held b1) = mset (ro_held b)" by blast
      have a: "(of_nat adv :: u32) < ?ofs + 1 - 2 ^ k \<longleftrightarrow> adv < N m - base + 1 - 2 ^ k"
        using n f(2) p by (simp add: word_less_nat_alt unat_of_nat_small)
      show ?thesis
      proof (cases "adv < N m - base + 1 - 2 ^ k")
        case True
        then have "rte_reorder_insert st m b = Some (b1, Some ENOSPC)" using ins ofs 2 f(1) a by simp
        then show ?thesis using f 2 by (intro exI [of _ b1] exI [of _ "Some ENOSPC"] exI [of _ "base + adv"]) auto
      next
        case False
        have min1: "min_seqn b1 = of_nat (base + adv)" using f(3,4) by (simp add: ro_rep_def)
        have le: "base + adv \<le> N m" "N m < base + adv + 2 ^ k" using 2 f(2) False by linarith+
        have e1: "of_nat (N m) - min_seqn b1 = of_nat (N m - (base + adv))" using le(1) by (simp add: min1 of_nat_diff)
        have o1: "unat (of_nat (N m) - min_seqn b1) = N m - (base + adv)"
          unfolding e1 by (rule unat_of_nat_small) (use le p in simp)
        from place_rep [OF f(3,4) x(3) le o1] obtain b' where b': "place_mbuf b1 m (of_nat (N m) - min_seqn b1) = Some b'"
          "ro_rep k N (insert m A) (base + adv) out b'" "is_initialized b'"
          "(\<forall>y \<in> set (ro_held b1). N y \<noteq> N m) \<longrightarrow> mset (ro_held b') = add_mset m (mset (ro_held b1))" by blast
        have "rte_reorder_insert st m b = Some (b', None)" using ins ofs 2 f(1) a False b'(1) by simp
        moreover have "mset (ro_held b') = add_mset m (mset (ro_held b))" if "length (ro_held b) < 2 ^ k" "\<forall>y \<in> set (ro_held b). N y \<noteq> N m"
        proof -
          have e: "mset (ro_held b1) = mset (ro_held b)" using f(5) that(1) by blast
          then have "set (ro_held b1) = set (ro_held b)" by (metis set_mset_mset)
          then show ?thesis using b'(4) that(2) e by simp
        qed
        ultimately show ?thesis using b'(2,3) le(1) by (intro exI [of _ b'] exI [of _ None] exI [of _ "base + adv"]) auto
      qed
    next
      case 3
      then have "rte_reorder_insert st m b = Some (b, Some ERANGE)" using ins ofs by simp
      then show ?thesis using R by auto
    qed
  qed
qed

text \<open>The first packet sets the number the window starts with.\<close>

lemma insert_ok:
  assumes R: "ro_rep k N A base out b" and x: "mbufs st m = Some x" "seqn x = of_nat (N m)" "m \<noteq> NULL"
    and near: "is_initialized b \<Longrightarrow> base \<le> N m + (2 ^ 32 - 2 * 2 ^ k) \<and> N m < base + 2 ^ 32"
  shows "\<exists>b' r base'. rte_reorder_insert st m b = Some (b', r) \<and> ro_rep k N (if r = None then insert m A else A) base' out b' \<and>
    is_initialized b' \<and> (if is_initialized b then base \<le> base' \<and> base' \<le> max base (N m) else base' = N m) \<and>
    (length (ro_held b) < 2 ^ k \<and> (\<forall>y \<in> set (ro_held b). N y \<noteq> N m) \<longrightarrow>
      mset (ro_held b') = (if r = None then add_mset m (mset (ro_held b)) else mset (ro_held b)))"
proof (cases "is_initialized b")
  case True
  then show ?thesis using insert_started [OF R True x] near [OF True] by auto
next
  case False
  let ?b = "b\<lparr>min_seqn := seqn x, is_initialized := True\<rparr>"
  have e: "ro_held b = []" "out = []" using R False by (simp_all add: ro_rep_def)
  then have q: "queue (ready_buf b) = []" "packets (window (order_buf b)) = []" by (simp_all add: ro_held_def)
  have h: "ro_held ?b = []" using e(1) by (simp add: ro_held_def)
  have "num_ok N (N m) (window (order_buf b)) []" using q(2) by (auto simp: num_ok_def filter_empty_conv)
  then have R1: "ro_rep k N A (N m) out ?b" using R x(2) e(2) q(1) by (simp add: ro_rep_def)
  have i: "rte_reorder_insert st m b = rte_reorder_insert st m ?b" using x(1) False by (simp add: rte_reorder_insert_def Let_def)
  have "is_initialized ?b" "N m \<le> N m + (2 ^ 32 - 2 * 2 ^ k)" "N m < N m + 2 ^ 32" by simp_all
  from insert_started [OF R1 this(1) x this(2,3)] obtain b' r base' where b': "rte_reorder_insert st m ?b = Some (b', r)"
    "ro_rep k N (if r = None then insert m A else A) base' out b'" "is_initialized b'" "N m \<le> base'" "base' \<le> max (N m) (N m)"
    "length (ro_held ?b) < 2 ^ k \<and> (\<forall>y \<in> set (ro_held ?b). N y \<noteq> N m) \<longrightarrow>
      mset (ro_held b') = (if r = None then add_mset m (mset (ro_held ?b)) else mset (ro_held ?b))" by blast
  then show ?thesis unfolding i using h e(1) False by (intro exI [of _ b'] exI [of _ r] exI [of _ base']) simp
qed

section \<open>Draining\<close>

lemma drain_ready_ok:
  assumes "cb_ok k ready"
  shows "\<exists>ready'. drain_ready n ready = Some (ready', take n (queue ready)) \<and> cb_ok k ready' \<and> queue ready' = drop n (queue ready)"
  using assms
proof (induction n arbitrary: ready)
  case (Suc n)
  show ?case
  proof (cases "queue ready")
    case Nil
    then show ?thesis using Suc.prems queue_empty [OF Suc.prems] by simp
  next
    case (Cons m q)
    then have p: "rd_entry ready (cb_tail ready) = Some m" "cb_ok k (ready\<lparr>cb_tail := cb_next ready (cb_tail ready)\<rparr>)"
        "queue (ready\<lparr>cb_tail := cb_next ready (cb_tail ready)\<rparr>) = q"
      using queue_pop [OF Suc.prems] by simp_all
    from Suc.IH [OF p(2)] show ?thesis using p queue_empty [OF Suc.prems] Cons by auto
  qed
qed simp

lemma drain_order_ok:
  assumes "cb_ok k order"
  shows "\<exists>order' ms. drain_order n seq order = Some (seq + of_nat (length ms), order', ms) \<and> cb_ok k order' \<and>
    length ms \<le> n \<and> length ms \<le> length (window order) \<and> ms = take (length ms) (window order) \<and> NULL \<notin> set ms \<and>
    window order' = slide (length ms) (window order) \<and> (length ms < n \<longrightarrow> hd (window order') = NULL)"
  using assms
proof (induction n arbitrary: seq order)
  case (Suc n)
  obtain m w where w: "window order = m # w"
    using cb_len(2) [OF Suc.prems(1)] by (metis length_window length_0_conv less_nat_zero_code neq_Nil_conv)
  show ?case
  proof (cases "m = NULL")
    case True
    then show ?thesis using Suc.prems window_nth0 [OF Suc.prems] w by simp
  next
    case False
    obtain order1 where o: "wr_entry (cb_head order) NULL order = Some order1" "cb_ok k (order1\<lparr>cb_head := cb_next order1 (cb_head order1)\<rparr>)"
        "window (order1\<lparr>cb_head := cb_next order1 (cb_head order1)\<rparr>) = w @ [NULL]"
      using window_take [OF Suc.prems(1)] w by auto
    from Suc.IH [OF o(2), of "seq + 1"] obtain order' ms where
      d: "drain_order n (seq + 1) (order1\<lparr>cb_head := cb_next order1 (cb_head order1)\<rparr>) = Some (seq + 1 + of_nat (length ms), order', ms)"
        "cb_ok k order'" "length ms \<le> n" "length ms \<le> length (w @ [NULL])" "ms = take (length ms) (w @ [NULL])" "NULL \<notin> set ms"
        "window order' = slide (length ms) (w @ [NULL])" "length ms < n \<longrightarrow> hd (window order') = NULL"
      unfolding o(3) by blast
    have l: "length ms \<le> length w"
    proof (rule ccontr)
      assume "\<not> length ms \<le> length w"
      then have "ms = w @ [NULL]" using d(4,5) by (metis length_append_singleton not_less_eq_eq take_all_iff le_antisym order_refl)
      then show False using d(6) by simp
    qed
    have "m # ms = take (length (m # ms)) (window order)" using d(5) l w by simp
    moreover have "drain_order (Suc n) seq order = Some (seq + of_nat (length (m # ms)), order', m # ms)"
      using False w o(1) d(1) Suc.prems by (simp add: window_nth0 add.commute add.left_commute)
    moreover have "window order' = slide (length (m # ms)) (window order)" using d(7) slide_Suc [OF l, of m] w by simp
    ultimately show ?thesis using False d(2,3,6,8) l w by (intro exI [of _ order'] exI [of _ "m # ms"]) auto
  qed
qed simp

lemma drain_ok:
  assumes R: "ro_rep k N A base out b"
  shows "\<exists>b' ms base'. rte_reorder_drain b mx = Some (b', ms) \<and> ro_rep k N A base' (out @ ms) b' \<and> is_initialized b' = is_initialized b \<and>
    mset (ro_held b) = mset ms + mset (ro_held b') \<and> base \<le> base' \<and> (base' = base \<or> (\<exists>y \<in> A. base' = Suc (N y)))"
proof -
  note D = R[unfolded ro_rep_def]
  let ?q = "queue (ready_buf b)" let ?w = "window (order_buf b)" let ?n = "unat mx"
  obtain ready' where r: "drain_ready ?n (ready_buf b) = Some (ready', take ?n ?q)" "cb_ok k ready'" "queue ready' = drop ?n ?q"
    using drain_ready_ok [of k "ready_buf b" ?n] D by blast
  define l where "l = ?n - length (take ?n ?q)"
  obtain order' ms where o: "drain_order l (min_seqn b) (order_buf b) = Some (min_seqn b + of_nat (length ms), order', ms)" "cb_ok k order'"
      "length ms \<le> length ?w" "ms = take (length ms) ?w" "NULL \<notin> set ms" "window order' = slide (length ms) ?w" "length ms \<le> l"
    using drain_order_ok [of k "order_buf b" l "min_seqn b"] D by blast
  let ?b = "b\<lparr>ready_buf := ready', order_buf := order', min_seqn := min_seqn b + of_nat (length ms)\<rparr>"
  have d: "rte_reorder_drain b mx = Some (?b, take ?n ?q @ ms)" using r(1) o(1) by (simp add: rte_reorder_drain_def l_def)
  have q: "take ?n ?q @ ms @ queue ready' = ?q @ ms"
  proof (cases "ms = []")
    case False
    then have "length ?q \<le> ?n" using o(7) by (cases "length ?q \<le> ?n") (simp_all add: l_def)
    then show ?thesis using r(3) by simp
  qed (simp add: r(3))
  have w: "packets ?w = ms @ packets (window order')" unfolding o(6) by (rule mset_move [OF o(4,5,3)])
  have held: "mset (ro_held b) = mset (take ?n ?q @ ms) + mset (ro_held ?b)"
    using arg_cong [OF q, of mset] w unfolding ro_held_def by simp
  have "num_ok N (base + length ms) (slide (length ms) ?w) (out @ ?q @ ms)"
    using num_ok_move [of N base ?w "out @ ?q" ms "length ms"] D o(3-5) by simp
  then have num: "num_ok N (base + length ms) (window order') ((out @ take ?n ?q @ ms) @ queue ready')"
    using q o(6) by (metis append.assoc)
  have msA: "set ms \<subseteq> A"
  proof
    fix y assume y: "y \<in> set ms"
    moreover have "set ms \<subseteq> set ?w" using o(4) by (metis set_take_subset)
    ultimately show "y \<in> A" using o(5) D by auto
  qed
  have "ro_rep k N A (base + length ms) (out @ take ?n ?q @ ms) ?b"
    unfolding ro_rep_def
  proof (intro conjI)
    show "set (out @ take ?n ?q @ ms) \<subseteq> A" using D msA set_take_subset [of ?n ?q] by auto
    show "set (queue (ready_buf ?b)) \<subseteq> A" using D r(3) set_drop_subset [of ?n ?q] by auto
    show "set (window (order_buf ?b)) \<subseteq> insert NULL A" using D o(6) set_slide [of "length ms" ?w] by auto
    show "if is_initialized ?b then min_seqn ?b = of_nat (base + length ms) else ro_held ?b = [] \<and> out @ take ?n ?q @ ms = []"
    proof -
      have "ro_held ?b = [] \<and> out @ take ?n ?q @ ms = []" if "\<not> is_initialized b"
      proof -
        have e: "ro_held b = []" "out = []" using D that by simp_all
        have "mset (take ?n ?q @ ms) + mset (ro_held ?b) = {#}" unfolding held [symmetric] e(1) by simp
        then show ?thesis using e(2) by (simp only: union_eq_empty mset_zero_iff) simp
      qed
      then show ?thesis using D by (auto simp: ro_held_def)
    qed
  qed (use D r o num in simp_all)
  moreover have "length ms = 0 \<or> (\<exists>y \<in> A. base + length ms = Suc (N y))"
  proof (cases "length ms")
    case (Suc j)
    then have a: "ms ! j \<in> set ms" and e: "ms ! j = ?w ! j" using o(4) by (metis nth_mem lessI, metis nth_take lessI)
    have A: "?w ! j \<in> A" using subsetD [OF msA a] e by simp
    have "?w ! j \<noteq> NULL" using a e o(5) by metis
    then have "N (?w ! j) = base + j" using D Suc o(3) by (auto simp: num_ok_def)
    then show ?thesis using Suc A by (intro disjI2 bexI [of _ "?w ! j"]) simp_all
  qed simp
  ultimately show ?thesis using d held by (intro exI [of _ ?b] exI [of _ "take ?n ?q @ ms"] exI [of _ "base + length ms"]) auto
qed

section \<open>Runs\<close>

datatype ro_op = RoInsert addr | RoDrain u32

fun inserted :: "ro_op list \<Rightarrow> addr list" where
  "inserted [] = []"
| "inserted (RoInsert m # ops) = m # inserted ops"
| "inserted (RoDrain n # ops) = inserted ops"

text \<open>Insertions and drains one after the other: the packets fetched, and those accepted.\<close>

fun ro_run :: "mbuf_heap \<Rightarrow> ro_op list \<Rightarrow> rte_reorder_buffer \<Rightarrow> (rte_reorder_buffer \<times> addr list \<times> addr list) option" where
  "ro_run st [] b = Some (b, [], [])"
| "ro_run st (RoInsert m # ops) b = do {
     (b, r) \<leftarrow> rte_reorder_insert st m b;
     (b, out, acc) \<leftarrow> ro_run st ops b;
     Some (b, out, if r = None then m # acc else acc) }"
| "ro_run st (RoDrain n # ops) b = do {
     (b, ms) \<leftarrow> rte_reorder_drain b n;
     (b, out, acc) \<leftarrow> ro_run st ops b;
     Some (b, ms @ out, acc) }"

text \<open>At every insertion the buffer holds fewer packets than its size.\<close>

fun roomy :: "mbuf_heap \<Rightarrow> ro_op list \<Rightarrow> rte_reorder_buffer \<Rightarrow> bool" where
  "roomy st [] b = True"
| "roomy st (RoInsert m # ops) b = (length (ro_held b) < unat (cb_size (order_buf b)) \<and>
     (case rte_reorder_insert st m b of Some (b, r) \<Rightarrow> roomy st ops b | None \<Rightarrow> False))"
| "roomy st (RoDrain n # ops) b = (case rte_reorder_drain b n of Some (b, ms) \<Rightarrow> roomy st ops b | None \<Rightarrow> False)"

definition numbered :: "mbuf_heap \<Rightarrow> (addr \<Rightarrow> nat) \<Rightarrow> addr \<Rightarrow> bool" where
  "numbered st N m \<longleftrightarrow> m \<noteq> NULL \<and> (\<exists>x. mbufs st m = Some x \<and> seqn x = of_nat (N m))"

lemma ro_rep_size: "ro_rep k N A base out b \<Longrightarrow> unat (cb_size (order_buf b)) = 2 ^ k"
  using unat_2p [of k, where ?'a = 32] by (simp add: ro_rep_def cb_ok_def)

lemma run_started:
  assumes "ro_rep k N A base out b" "is_initialized b" "lo \<le> base" "base \<le> hi" "hi \<le> lo + (2 ^ 32 - 2 * 2 ^ k)"
    and "\<forall>m \<in> set (inserted ops). numbered st N m \<and> lo \<le> N m \<and> N m < hi" "\<forall>m \<in> A. N m < hi"
  shows "\<exists>b' o' acc base'. ro_run st ops b = Some (b', o', acc) \<and> ro_rep k N (A \<union> set acc) base' (out @ o') b' \<and>
    (roomy st ops b \<and> distinct (map N (inserted ops)) \<and> (\<forall>y \<in> A. \<forall>m \<in> set (inserted ops). N y \<noteq> N m) \<longrightarrow>
      mset (ro_held b) + mset acc = mset o' + mset (ro_held b'))"
  using assms
proof (induction ops arbitrary: A base out b)
  case Nil
  then show ?case by auto
next
  case (Cons op ops)
  show ?case
  proof (cases op)
    case (RoInsert m)
    then obtain x where x: "mbufs st m = Some x" "seqn x = of_nat (N m)" "m \<noteq> NULL" "lo \<le> N m" "N m < hi"
      using Cons.prems(6) by (auto simp: numbered_def)
    have "base \<le> N m + (2 ^ 32 - 2 * 2 ^ k)" "N m < base + 2 ^ 32" using Cons.prems(3-5) x(4,5) by linarith+
    then obtain b1 r base1 where i: "rte_reorder_insert st m b = Some (b1, r)" "ro_rep k N (if r = None then insert m A else A) base1 out b1"
      "is_initialized b1" "base \<le> base1" "base1 \<le> max base (N m)"
      "length (ro_held b) < 2 ^ k \<and> (\<forall>y \<in> set (ro_held b). N y \<noteq> N m) \<longrightarrow>
        mset (ro_held b1) = (if r = None then add_mset m (mset (ro_held b)) else mset (ro_held b))"
      using insert_started [OF Cons.prems(1,2) x(1-3)] by blast
    let ?A = "if r = None then insert m A else A"
    have "lo \<le> base1" "base1 \<le> hi" "\<forall>m \<in> set (inserted ops). numbered st N m \<and> lo \<le> N m \<and> N m < hi" "\<forall>m \<in> ?A. N m < hi"
      using i(4,5) x(5) Cons.prems(3,4,6,7) RoInsert by auto
    from Cons.IH [OF i(2,3) this(1,2) Cons.prems(5) this(3,4)] obtain b' o' acc base' where
      c: "ro_run st ops b1 = Some (b', o', acc)" "ro_rep k N (?A \<union> set acc) base' (out @ o') b'"
        "roomy st ops b1 \<and> distinct (map N (inserted ops)) \<and> (\<forall>y \<in> ?A. \<forall>m \<in> set (inserted ops). N y \<noteq> N m) \<Longrightarrow>
          mset (ro_held b1) + mset acc = mset o' + mset (ro_held b')" by blast
    let ?acc = "if r = None then m # acc else acc"
    have "ro_run st (op # ops) b = Some (b', o', ?acc)" using i(1) c(1) RoInsert by simp
    moreover have "?A \<union> set acc = A \<union> set ?acc" by simp
    then have "ro_rep k N (A \<union> set ?acc) base' (out @ o') b'" using c(2) by simp
    moreover have "mset (ro_held b) + mset ?acc = mset o' + mset (ro_held b')"
      if h: "roomy st (op # ops) b" "distinct (map N (inserted (op # ops)))" "\<forall>y \<in> A. \<forall>m \<in> set (inserted (op # ops)). N y \<noteq> N m"
    proof -
      have l: "length (ro_held b) < 2 ^ k" "roomy st ops b1" using h(1) RoInsert i(1) ro_rep_size [OF Cons.prems(1)] by simp_all
      have "set (ro_held b) \<subseteq> A" using Cons.prems(1) by (auto simp: ro_rep_def ro_held_def)
      then have "\<forall>y \<in> set (ro_held b). N y \<noteq> N m" using h(3) RoInsert by auto
      then have e: "mset (ro_held b1) = (if r = None then add_mset m (mset (ro_held b)) else mset (ro_held b))" using i(6) l(1) by blast
      have "mset (ro_held b1) + mset acc = mset o' + mset (ro_held b')"
        by (rule c(3)) (use l(2) h(2,3) RoInsert in \<open>auto split: if_splits\<close>)
      then show ?thesis using e by (cases r) simp_all
    qed
    ultimately show ?thesis by (intro exI [of _ b'] exI [of _ o'] exI [of _ ?acc] exI [of _ base'] conjI impI) auto
  next
    case (RoDrain n)
    obtain b1 ms base1 where d: "rte_reorder_drain b n = Some (b1, ms)" "ro_rep k N A base1 (out @ ms) b1" "is_initialized b1"
        "mset (ro_held b) = mset ms + mset (ro_held b1)" "base \<le> base1" "base1 = base \<or> (\<exists>y \<in> A. base1 = Suc (N y))"
      using drain_ok [OF Cons.prems(1), of n] Cons.prems(2) by auto
    have "lo \<le> base1" "base1 \<le> hi" "\<forall>m \<in> set (inserted ops). numbered st N m \<and> lo \<le> N m \<and> N m < hi"
      using d(5,6) Cons.prems(3,4,6,7) RoDrain by auto
    from Cons.IH [OF d(2,3) this(1,2) Cons.prems(5) this(3) Cons.prems(7)] obtain b' o' acc base' where
      c: "ro_run st ops b1 = Some (b', o', acc)" "ro_rep k N (A \<union> set acc) base' ((out @ ms) @ o') b'"
        "roomy st ops b1 \<and> distinct (map N (inserted ops)) \<and> (\<forall>y \<in> A. \<forall>m \<in> set (inserted ops). N y \<noteq> N m) \<longrightarrow>
          mset (ro_held b1) + mset acc = mset o' + mset (ro_held b')" by blast
    then show ?thesis using d(1,4) RoDrain by auto
  qed
qed

text \<open>A run on a buffer in its initial state.\<close>

lemma run_fresh:
  assumes "ro_rep k N {} base [] b" "\<not> is_initialized b"
    and "\<forall>m \<in> set (inserted ops). numbered st N m \<and> N (hd (inserted ops)) \<le> N m \<and> N m < N (hd (inserted ops)) + (2 ^ 32 - 2 * 2 ^ k)"
  shows "\<exists>b' o' acc base'. ro_run st ops b = Some (b', o', acc) \<and> ro_rep k N (set acc) base' o' b' \<and>
    (roomy st ops b \<and> distinct (map N (inserted ops)) \<longrightarrow> mset acc = mset o' + mset (ro_held b'))"
  using assms
proof (induction ops arbitrary: b base)
  case Nil
  then show ?case by (auto simp: ro_rep_def)
next
  case (Cons op ops)
  show ?case
  proof (cases op)
    case (RoInsert m)
    then obtain x where x: "mbufs st m = Some x" "seqn x = of_nat (N m)" "m \<noteq> NULL"
      using Cons.prems(3) by (auto simp: numbered_def)
    have h0: "ro_held b = []" using Cons.prems(1,2) by (simp add: ro_rep_def)
    obtain b1 r where i: "rte_reorder_insert st m b = Some (b1, r)" "ro_rep k N (if r = None then insert m {} else {}) (N m) [] b1"
      "is_initialized b1" "mset (ro_held b1) = (if r = None then {#m#} else {#})"
      using insert_ok [OF Cons.prems(1) x] Cons.prems(2) h0 by auto
    let ?A = "if r = None then insert m {} else {}" let ?hi = "N m + (2 ^ 32 - 2 * 2 ^ k)"
    have "k \<le> 27" using i(2) by (simp add: ro_rep_def cb_ok_def)
    then have p: "2 * 2 ^ k < (2 ^ 32 :: nat)" using pow_small [of k] by simp
    have "\<forall>m' \<in> set (inserted ops). numbered st N m' \<and> N m \<le> N m' \<and> N m' < ?hi" "\<forall>m' \<in> ?A. N m' < ?hi"
      using Cons.prems(3) RoInsert p by auto
    from run_started [OF i(2,3) order.refl _ order.refl this] obtain b' o' acc base' where
      c: "ro_run st ops b1 = Some (b', o', acc)" "ro_rep k N (?A \<union> set acc) base' o' b'"
        "roomy st ops b1 \<and> distinct (map N (inserted ops)) \<and> (\<forall>y \<in> ?A. \<forall>m \<in> set (inserted ops). N y \<noteq> N m) \<longrightarrow>
          mset (ro_held b1) + mset acc = mset o' + mset (ro_held b')" unfolding append_Nil using le_add1 by blast
    let ?acc = "if r = None then m # acc else acc"
    have "ro_run st (op # ops) b = Some (b', o', ?acc)" using i(1) c(1) RoInsert by simp
    moreover have "?A \<union> set acc = set ?acc" by simp
    then have "ro_rep k N (set ?acc) base' o' b'" using c(2) by simp
    moreover have "mset ?acc = mset o' + mset (ro_held b')" if h: "roomy st (op # ops) b" "distinct (map N (inserted (op # ops)))"
    proof -
      have "mset (ro_held b1) + mset acc = mset o' + mset (ro_held b')"
        by (rule c(3) [rule_format]) (use h i(1) RoInsert in \<open>auto split: if_splits\<close>)
      then show ?thesis using i(4) by (simp split: if_splits)
    qed
    ultimately show ?thesis by (intro exI [of _ b'] exI [of _ o'] exI [of _ ?acc] exI [of _ base'] conjI impI) auto
  next
    case (RoDrain n)
    obtain b1 ms base1 where d: "rte_reorder_drain b n = Some (b1, ms)" "ro_rep k N {} base1 ([] @ ms) b1" "\<not> is_initialized b1"
        "mset (ro_held b) = mset ms + mset (ro_held b1)"
      using drain_ok [OF Cons.prems(1), of n] Cons.prems(2) by auto
    have ms: "ms = []" using d(4) Cons.prems(1,2) by (simp add: ro_rep_def)
    have "\<forall>m \<in> set (inserted ops). numbered st N m \<and> N (hd (inserted ops)) \<le> N m \<and> N m < N (hd (inserted ops)) + (2 ^ 32 - 2 * 2 ^ k)"
      using Cons.prems(3) RoDrain by simp
    from Cons.IH [OF _ d(3) this, of base1] d(2) ms obtain b' o' acc base' where
      "ro_run st ops b1 = Some (b', o', acc)" "ro_rep k N (set acc) base' o' b'"
      "roomy st ops b1 \<and> distinct (map N (inserted ops)) \<longrightarrow> mset acc = mset o' + mset (ro_held b')" by auto
    then show ?thesis using d(1) ms RoDrain by auto
  qed
qed

section \<open>Creation\<close>

lemma init_ok:
  assumes "rte_is_power_of_2 sz" "unat sz \<le> 2 ^ 27"
  shows "\<exists>k b. sz = 2 ^ k \<and> rte_reorder_init (reorder_bufsize sz) nm sz = Inr b \<and> ro_rep k N {} base [] b \<and> \<not> is_initialized b"
proof -
  obtain k where k: "k < 32" "sz = 2 ^ k" using power_of_2_iff assms(1) by blast
  have u: "unat sz = 2 ^ k" using k unat_2p [of k, where ?'a = 32] by simp
  then have "(2 :: nat) ^ k \<le> 2 ^ 27" using assms(2) by simp
  then have k27: "k \<le> 27" by (rule power_le_imp_le_exp [rotated]) simp
  have s: "unat (reorder_bufsize sz) = 256 + 16 * 2 ^ k"
  proof -
    have "2 * sz * 8 = of_nat (16 * 2 ^ k)" using k(2) by simp
    then have e: "reorder_bufsize sz = of_nat (256 + 16 * 2 ^ k)" by (simp add: reorder_bufsize_def sizeof_reorder_buffer_def)
    show ?thesis unfolding e by (rule unat_of_nat_small) (use pow_small [OF k27] in simp)
  qed
  have n: "(unat (reorder_bufsize sz) - unat sizeof_reorder_buffer) div 8 = 2 * 2 ^ k"
    using s by (simp add: sizeof_reorder_buffer_def)
  let ?cb = "\<lparr>cb_size = sz, cb_mask = sz - 1, cb_head = 0, cb_tail = 0, entries = replicate (2 ^ k) NULL\<rparr>"
  have cb: "cb_ok k ?cb" using k(2) k27 by (simp add: cb_ok_def)
  have w: "window ?cb = replicate (2 ^ k) NULL" "queue ?cb = []"
    by (rule nth_equalityI) (simp_all add: window_def queue_def qlen_def circ_def)
  obtain b where b: "rte_reorder_init (reorder_bufsize sz) nm sz = Inr b" "ready_buf b = ?cb" "order_buf b = ?cb" "\<not> is_initialized b"
    using assms(1) n u by (simp add: rte_reorder_init_def Let_def)
  have "ro_rep k N {} base [] b" using cb w b(2-4) by (simp add: ro_rep_def ro_held_def num_ok_def filter_empty_conv)
  then show ?thesis using k(2) b by blast
qed

text \<open>A buffer that was created, not found, and has a size for which the memory size does not wrap around.\<close>

lemma created_ok:
  assumes "rte_reorder_create te_ok zmalloc nm sz env = Some (env', a)" "a \<noteq> NULL" "reorder_find (ro_mem env) nm (ro_tailq env) = Some None"
    and "unat sz \<le> 2 ^ 27"
  shows "\<exists>k b. sz = 2 ^ k \<and> ro_mem env' a = Some b \<and> ro_rep k N {} base [] b \<and> \<not> is_initialized b"
proof -
  have p: "rte_is_power_of_2 sz" using assms(1,2) by (auto simp: rte_reorder_create_def split: if_splits)
  obtain k b where b: "sz = 2 ^ k" "rte_reorder_init (reorder_bufsize sz) nm sz = Inr b" "ro_rep k N {} base [] b" "\<not> is_initialized b"
    using init_ok [OF p assms(4)] by blast
  then have "ro_mem env' a = Some b" using assms(1-3) p by (auto simp: rte_reorder_create_def Let_def split: if_splits)
  then show ?thesis using b by blast
qed

text \<open>For 2^28 entries the memory size wraps around: there is memory for the structure alone.\<close>

lemma reorder_create_wraps:
  "\<exists>b. rte_reorder_init (reorder_bufsize 0x10000000) nm 0x10000000 = Inr b \<and> cb_size (order_buf b) = 0x10000000 \<and>
    entries (order_buf b) = [] \<and> entries (ready_buf b) = []"
  by (simp add: rte_reorder_init_def rte_is_power_of_2_def reorder_bufsize_def sizeof_reorder_buffer_def Let_def)

section \<open>Properties\<close>

text \<open>
  C14: The reorder buffer restores the order. On a created buffer of at most 2^27 entries any sequence of
  insertions and drains returns without an access outside of the arrays, and the packets that are
  drained are accepted packets in strictly increasing order of their numbers. The sequence numbers
  are the numbers modulo 2^32 and may wrap around; the numbers of a run span less than 2^32 minus twice
  the size, the first packet having the least.
\<close>

theorem reorder_in_order:
  assumes "rte_reorder_create te_ok zmalloc nm sz env = Some (env', a)" "a \<noteq> NULL" "reorder_find (ro_mem env) nm (ro_tailq env) = Some None"
    and "unat sz \<le> 2 ^ 27" "ro_mem env' a = Some b"
    and "\<forall>m \<in> set (inserted ops). m \<noteq> NULL \<and> (\<exists>x. mbufs st m = Some x \<and> seqn x = of_nat (N m)) \<and>
      N (hd (inserted ops)) \<le> N m \<and> N m < N (hd (inserted ops)) + (2 ^ 32 - 2 * unat sz)"
  shows "\<exists>b' out acc. ro_run st ops b = Some (b', out, acc) \<and> sorted_wrt (\<lambda>x y. N x < N y) out \<and> set out \<subseteq> set acc"
proof -
  obtain k where k: "sz = 2 ^ k" "ro_rep k N {} 0 [] b" "\<not> is_initialized b"
    using created_ok [OF assms(1-4), of N 0] assms(5) by auto
  then have u: "unat sz = 2 ^ k" using unat_2p [of k, where ?'a = 32] by (simp add: ro_rep_def cb_ok_def)
  obtain b' out acc base' where "ro_run st ops b = Some (b', out, acc)" "ro_rep k N (set acc) base' out b'"
    using run_fresh [OF k(2,3), of ops st] assms(6) unfolding u numbered_def by blast
  then show ?thesis by (auto simp: ro_rep_def num_ok_def sorted_wrt_append)
qed

text \<open>
  C15: A reorder buffer that never holds as many packets as its size loses none: when at every insertion
  fewer than \<open>size\<close> packets are inside and the packets have different numbers, the accepted packets
  are, each once, the drained ones and those still in the buffer.
\<close>

theorem reorder_keeps_packets:
  assumes "rte_reorder_create te_ok zmalloc nm sz env = Some (env', a)" "a \<noteq> NULL" "reorder_find (ro_mem env) nm (ro_tailq env) = Some None"
    and "unat sz \<le> 2 ^ 27" "ro_mem env' a = Some b"
    and "\<forall>m \<in> set (inserted ops). m \<noteq> NULL \<and> (\<exists>x. mbufs st m = Some x \<and> seqn x = of_nat (N m)) \<and>
      N (hd (inserted ops)) \<le> N m \<and> N m < N (hd (inserted ops)) + (2 ^ 32 - 2 * unat sz)"
    and "distinct (map N (inserted ops))" "roomy st ops b"
  shows "\<exists>b' out acc. ro_run st ops b = Some (b', out, acc) \<and> mset acc = mset out + mset (ro_held b')"
proof -
  obtain k where k: "sz = 2 ^ k" "ro_rep k N {} 0 [] b" "\<not> is_initialized b"
    using created_ok [OF assms(1-4), of N 0] assms(5) by auto
  then have u: "unat sz = 2 ^ k" using unat_2p [of k, where ?'a = 32] by (simp add: ro_rep_def cb_ok_def)
  show ?thesis using run_fresh [OF k(2,3), of ops st] assms(6-8) unfolding u numbered_def by blast
qed

section \<open>A full window\<close>

lemma take_run_full: "NULL \<notin> set w \<Longrightarrow> f < length w \<Longrightarrow> take_run f w = (take f w, Suc f)"
proof (induction f w rule: take_run.induct)
  case (2 f m w)
  then show ?case by (cases f) auto
qed simp

text \<open>Consecutive packets fill the window.\<close>

lemma insert_next:
  assumes "cb_ok k (order_buf b)" "window (order_buf b) = w @ replicate (2 ^ k - length w) NULL" "length w < 2 ^ k" "m \<noteq> NULL"
    and "if is_initialized b then min_seqn b = of_nat base else w = []" "mbufs st m = Some x" "seqn x = of_nat (base + length w)"
  shows "\<exists>b'. rte_reorder_insert st m b = Some (b', None) \<and> cb_ok k (order_buf b') \<and>
    window (order_buf b') = (w @ [m]) @ replicate (2 ^ k - length (w @ [m])) NULL \<and> ready_buf b' = ready_buf b \<and>
    is_initialized b' \<and> min_seqn b' = of_nat base"
proof -
  let ?b = "b\<lparr>min_seqn := of_nat base, is_initialized := True\<rparr>"
  have k: "k \<le> 27" "cb_size (order_buf b) = 2 ^ k" using assms(1) by (simp_all add: cb_ok_def)
  have i: "rte_reorder_insert st m b = rte_reorder_insert st m ?b"
  proof (cases "is_initialized b")
    case True
    then have "?b = b" using assms(5) by (cases b) simp
    then show ?thesis by simp
  next
    case False
    then show ?thesis using assms(5-7) by (simp add: rte_reorder_insert_def Let_def)
  qed
  have e: "of_nat (base + length w) - of_nat base = (of_nat (length w) :: u32)" by simp
  have u: "unat (of_nat (length w) :: u32) = length w" by (rule unat_of_nat_small) (use assms(3) pow_small [OF k(1)] in simp)
  have "rte_reorder_insert st m ?b = do { b \<leftarrow> place_mbuf ?b m (of_nat (length w)); Some (b, None) }"
    using insert_eq [of ?b k base st m x "base + length w"] k assms(3,6,7) unfolding Let_def e u by simp
  moreover obtain b' where b': "place_mbuf ?b m (of_nat (length w)) = Some b'" "cb_ok k (order_buf b')"
      "window (order_buf b') = (window (order_buf b))[length w := m]" "ready_buf b' = ready_buf b" "min_seqn b' = of_nat base" "is_initialized b'"
    using place_ok [of k ?b "of_nat (length w)" m] assms(1,3) u by auto
  moreover have "(w @ replicate (2 ^ k - length w) NULL)[length w := m] = (w @ [m]) @ replicate (2 ^ k - length (w @ [m])) NULL"
    using assms(3) by (cases "2 ^ k - length w") (simp_all add: list_update_append)
  ultimately show ?thesis using i assms(2) by simp
qed

lemma insert_many:
  assumes "cb_ok k (order_buf b)" "window (order_buf b) = w @ replicate (2 ^ k - length w) NULL" "length w + length ms \<le> 2 ^ k"
    and "if is_initialized b then min_seqn b = of_nat base else w = []" "ms \<noteq> []"
    and "\<forall>i < length ms. ms ! i \<noteq> NULL \<and> (\<exists>x. mbufs st (ms ! i) = Some x \<and> seqn x = of_nat (base + length w + i))"
  shows "\<exists>b'. cb_ok k (order_buf b') \<and> window (order_buf b') = (w @ ms) @ replicate (2 ^ k - length (w @ ms)) NULL \<and>
    ready_buf b' = ready_buf b \<and> is_initialized b' \<and> min_seqn b' = of_nat base \<and>
    (\<forall>ops. ro_run st (map RoInsert ms @ ops) b = map_option (\<lambda>(b, out, acc). (b, out, ms @ acc)) (ro_run st ops b'))"
  using assms
proof (induction ms arbitrary: b w)
  case (Cons m ms)
  have m: "m \<noteq> NULL" "\<exists>x. mbufs st m = Some x \<and> seqn x = of_nat (base + length w)" using Cons.prems(6) by auto
  then obtain b1 where b1: "rte_reorder_insert st m b = Some (b1, None)" "cb_ok k (order_buf b1)"
      "window (order_buf b1) = (w @ [m]) @ replicate (2 ^ k - length (w @ [m])) NULL" "ready_buf b1 = ready_buf b"
      "is_initialized b1" "min_seqn b1 = of_nat base"
    using insert_next [OF Cons.prems(1,2) _ m(1) Cons.prems(4), of st] Cons.prems(3) by auto
  show ?case
  proof (cases "ms = []")
    case True
    then show ?thesis using b1 by (intro exI [of _ b1]) (auto simp: map_option_case split: option.splits)
  next
    case False
    have "\<forall>i < length ms. ms ! i \<noteq> NULL \<and> (\<exists>x. mbufs st (ms ! i) = Some x \<and> seqn x = of_nat (base + length (w @ [m]) + i))"
    proof (intro allI impI)
      fix i assume "i < length ms"
      then show "ms ! i \<noteq> NULL \<and> (\<exists>x. mbufs st (ms ! i) = Some x \<and> seqn x = of_nat (base + length (w @ [m]) + i))"
        using Cons.prems(6) [rule_format, of "Suc i"] by simp
    qed
    moreover have "length (w @ [m]) + length ms \<le> 2 ^ k" "if is_initialized b1 then min_seqn b1 = of_nat base else w @ [m] = []"
      using Cons.prems(3) b1(5,6) by simp_all
    ultimately obtain b' where b': "cb_ok k (order_buf b')" "window (order_buf b') = ((w @ [m]) @ ms) @ replicate (2 ^ k - length ((w @ [m]) @ ms)) NULL"
        "ready_buf b' = ready_buf b1" "is_initialized b'" "min_seqn b' = of_nat base"
        "\<forall>ops. ro_run st (map RoInsert ms @ ops) b1 = map_option (\<lambda>(b, out, acc). (b, out, ms @ acc)) (ro_run st ops b')"
      using Cons.IH [OF b1(2,3) _ _ False] by blast
    then show ?thesis using b1(1,4) by (intro exI [of _ b']) (auto simp: map_option_case split: option.splits)
  qed
qed simp

text \<open>
  What happens to the packet behind the last one of a full window: everything but the last packet of the window
  goes to the queue, and the last one goes nowhere.
\<close>

lemma insert_full:
  assumes "cb_ok k (order_buf b)" "cb_ok k (ready_buf b)" "window (order_buf b) = w" "NULL \<notin> set w" "queue (ready_buf b) = []"
    and "is_initialized b" "min_seqn b = of_nat base" "mbufs st m = Some x" "seqn x = of_nat (base + 2 ^ k)" "m \<noteq> NULL" "1 \<le> k"
  shows "\<exists>b'. rte_reorder_insert st m b = Some (b', None) \<and> cb_ok k (order_buf b') \<and> cb_ok k (ready_buf b') \<and>
    window (order_buf b') = m # replicate (2 ^ k - 1) NULL \<and> queue (ready_buf b') = take (2 ^ k - 1) w"
proof -
  have k: "k \<le> 27" "cb_size (order_buf b) = 2 ^ k" using assms(1) by (simp_all add: cb_ok_def)
  have lw: "length w = 2 ^ k" using assms(1,3) cb_len(1) by auto
  have k2: "2 \<le> (2 :: nat) ^ k" using assms(11) power_increasing [of 1 k "2 :: nat"] by simp
  have e: "of_nat (base + 2 ^ k) - of_nat base = (2 ^ k :: u32)" by simp
  have u: "unat (2 ^ k :: u32) = 2 ^ k" using k(1) unat_2p [of k, where ?'a = 32] by simp
  have "spec_fill (2 ^ k - 1) 1 w [] 0 = (slide (2 ^ k) w, take (2 ^ k - 1) w, 2 ^ k)"
  proof -
    obtain m0 w0 where w0: "w = m0 # w0" using lw k2 by (cases w) auto
    have "take_run (2 ^ k - 1) w = (take (2 ^ k - 1) w, 2 ^ k)"
      using take_run_full [OF assms(4), of "2 ^ k - 1"] lw k2 by simp
    then show ?thesis using k2 w0 assms(4) by (subst spec_fill.simps, subst spec_fill.simps) (auto simp: Let_def)
  qed
  moreover have "slide (2 ^ k) w = replicate (2 ^ k) NULL" using lw by (simp add: slide_def)
  ultimately have "spec_fill (2 ^ k - 1) (unat (1 :: u32)) w [] 0 = (replicate (2 ^ k) NULL, take (2 ^ k - 1) w, 2 ^ k)" by simp
  from fill_loop_ok [OF assms(1,2,3,5) this] k2 obtain order' ready' where
    f: "fill_loop 1 (order_buf b) (ready_buf b) 0 = Some (order', ready', 2 ^ k)" "cb_ok k order'" "cb_ok k ready'"
      "window order' = replicate (2 ^ k) NULL" "queue ready' = take (2 ^ k - 1) w" by auto
  let ?b = "b\<lparr>order_buf := order', ready_buf := ready', min_seqn := min_seqn b + 2 ^ k\<rparr>"
  have "rte_reorder_insert st m b = do { b \<leftarrow> place_mbuf ?b m 0; Some (b, None) }"
    using insert_eq [OF assms(6) k assms(7,8,9)] unfolding Let_def e
    by (simp add: u f(1) rte_reorder_fill_overflow_def assms(7)) (use k(1) in \<open>simp add: word_less_nat_alt u\<close>)
  moreover obtain b' where "place_mbuf ?b m 0 = Some b'" "cb_ok k (order_buf b')" "window (order_buf b') = (replicate (2 ^ k) NULL)[0 := m]"
      "ready_buf b' = ready'"
    using place_ok [of k ?b 0 m] f(2,4) by auto
  moreover have "(replicate (2 ^ k) NULL)[0 := m] = m # replicate (2 ^ k - 1) NULL"
    using k2 by (cases "2 ^ k :: nat") simp_all
  ultimately show ?thesis using f(3,5) by simp
qed

lemma drain_last:
  assumes "cb_ok k (order_buf b)" "cb_ok k (ready_buf b)" "window (order_buf b) = m # replicate (2 ^ k - 1) NULL" "m \<noteq> NULL"
    and "queue (ready_buf b) = q" "length q \<le> 2 ^ k - 1" "2 ^ k \<le> unat mx"
  shows "\<exists>b'. rte_reorder_drain b mx = Some (b', q @ [m]) \<and> ro_held b' = []"
proof -
  have room: "length q < unat mx" using assms(6,7) by (metis One_nat_def Suc_pred less_le_trans le_imp_less_Suc zero_less_numeral zero_less_power)
  obtain ready' where r: "drain_ready (unat mx) (ready_buf b) = Some (ready', q)" "queue ready' = []"
    using drain_ready_ok [OF assms(2), of "unat mx"] assms(5) room by auto
  obtain order' ds where o: "drain_order (unat mx - length q) (min_seqn b) (order_buf b) = Some (min_seqn b + of_nat (length ds), order', ds)"
      "length ds \<le> length (window (order_buf b))" "ds = take (length ds) (window (order_buf b))" "NULL \<notin> set ds"
      "window order' = slide (length ds) (window (order_buf b))" "length ds < unat mx - length q \<longrightarrow> hd (window order') = NULL"
    using drain_order_ok [OF assms(1)] by blast
  have "length ds \<noteq> 0" using o(5,6) room assms(3,4) by auto
  moreover have "\<not> 1 < length ds"
  proof
    assume l1: "1 < length ds"
    have "ds ! 1 = window (order_buf b) ! 1" using nth_take [OF l1, of "window (order_buf b)"] unfolding o(3) [symmetric] .
    also have "\<dots> = NULL" using l1 o(2) unfolding assms(3) by simp
    finally show False using o(4) l1 by (metis nth_mem)
  qed
  ultimately have L: "length ds = Suc 0" by linarith
  have ds: "ds = [m]" using o(3) unfolding L assms(3) by simp
  have pk: "packets (window order') = []" unfolding o(5) L assms(3) by (simp add: slide_def)
  show ?thesis using r o(1) ds pk by (simp add: rte_reorder_drain_def ro_held_def)
qed

lemma fresh_window:
  assumes "ro_rep k N {} base [] b" "\<not> is_initialized b"
  shows "window (order_buf b) = replicate (2 ^ k) NULL" "queue (ready_buf b) = []"
proof -
  have "length (window (order_buf b)) = 2 ^ k" using assms(1) cb_len(1) [of k "order_buf b"] by (simp add: ro_rep_def)
  moreover have "packets (window (order_buf b)) = []" "queue (ready_buf b) = []" using assms by (simp_all add: ro_rep_def ro_held_def)
  ultimately show "window (order_buf b) = replicate (2 ^ k) NULL" "queue (ready_buf b) = []"
    by (auto simp: filter_empty_conv intro!: replicate_eqI)
qed

text \<open>
  C16: A packet can be lost. When \<open>size\<close> consecutive packets and then one more are inserted, in order and
  all with success, and everything is drained, the last packet of the first \<open>size\<close> is missing: \<open>fill_overflow\<close>
  takes it out of the window when the ready queue has become full.
\<close>

theorem reorder_loses_packet:
  assumes "rte_reorder_create te_ok zmalloc nm sz env = Some (env', a)" "a \<noteq> NULL" "reorder_find (ro_mem env) nm (ro_tailq env) = Some None"
    and "unat sz \<le> 2 ^ 27" "2 \<le> unat sz" "ro_mem env' a = Some b" "length ms = unat sz"
    and "\<forall>i < length (ms @ [m]). (ms @ [m]) ! i \<noteq> NULL \<and> (\<exists>x. mbufs st ((ms @ [m]) ! i) = Some x \<and> seqn x = of_nat (base + i))"
    and "unat sz \<le> unat mx"
  shows "\<exists>b'. ro_run st (map RoInsert (ms @ [m]) @ [RoDrain mx]) b = Some (b', take (unat sz - 1) ms @ [m], ms @ [m]) \<and> ro_held b' = []"
proof -
  obtain k where k: "sz = 2 ^ k" "ro_rep k (\<lambda>_. 0) {} 0 [] b" "\<not> is_initialized b"
    using created_ok [OF assms(1-4), of "\<lambda>_. 0" 0] assms(6) by auto
  have u: "unat sz = 2 ^ k" using k unat_2p [of k, where ?'a = 32] by (simp add: ro_rep_def cb_ok_def)
  have k1: "1 \<le> k" using assms(5) u by (cases k) simp_all
  note D = k(2)[unfolded ro_rep_def]
  have w: "window (order_buf b) = [] @ replicate (2 ^ k - length ([] :: addr list)) NULL" and q: "queue (ready_buf b) = []"
    using fresh_window [OF k(2,3)] by simp_all
  have nz: "ms \<noteq> []" using assms(5,7) by auto
  have each: "\<forall>i < length ms. ms ! i \<noteq> NULL \<and> (\<exists>x. mbufs st (ms ! i) = Some x \<and> seqn x = of_nat (base + length ([] :: addr list) + i))"
  proof (intro allI impI)
    fix i assume "i < length ms"
    then show "ms ! i \<noteq> NULL \<and> (\<exists>x. mbufs st (ms ! i) = Some x \<and> seqn x = of_nat (base + length ([] :: addr list) + i))"
      using assms(8) [rule_format, of i] by (simp add: nth_append)
  qed
  have pre: "length ([] :: addr list) + length ms \<le> 2 ^ k" "if is_initialized b then min_seqn b = of_nat base else ([] :: addr list) = []"
    "cb_ok k (order_buf b)" using assms(7) u k(3) D by simp_all
  obtain b1 where b1: "cb_ok k (order_buf b1)" "window (order_buf b1) = ms" "ready_buf b1 = ready_buf b" "is_initialized b1" "min_seqn b1 = of_nat base"
    "\<And>ops. ro_run st (map RoInsert ms @ ops) b = map_option (\<lambda>(b, out, acc). (b, out, ms @ acc)) (ro_run st ops b1)"
    using insert_many [OF pre(3) w pre(1,2) nz each] assms(7) u by auto
  have msn: "NULL \<notin> set ms" using each by (auto simp: in_set_conv_nth)
  have l: "length ms = 2 ^ k" using assms(7) u by simp
  have "m \<noteq> NULL \<and> (\<exists>x. mbufs st m = Some x \<and> seqn x = of_nat (base + length ms))"
    using assms(8) [rule_format, of "length ms"] by simp
  then obtain x where x: "mbufs st m = Some x" "seqn x = of_nat (base + 2 ^ k)" "m \<noteq> NULL" unfolding l by blast
  have "cb_ok k (ready_buf b1)" "queue (ready_buf b1) = []" using b1(3) D q by simp_all
  from insert_full [OF b1(1) this(1) b1(2) msn this(2) b1(4,5) x k1] obtain b2 where
    b2: "rte_reorder_insert st m b1 = Some (b2, None)" "cb_ok k (order_buf b2)" "cb_ok k (ready_buf b2)"
      "window (order_buf b2) = m # replicate (2 ^ k - 1) NULL" "queue (ready_buf b2) = take (2 ^ k - 1) ms" by blast
  have room: "2 ^ k \<le> unat mx" using assms(9) u by simp
  obtain b3 where b3: "rte_reorder_drain b2 mx = Some (b3, take (2 ^ k - 1) ms @ [m])" "ro_held b3 = []"
    using drain_last [OF b2(2,3,4) x(3) b2(5) _ room] l by auto
  show ?thesis
    using b1(6) [of "[RoInsert m, RoDrain mx]"] b2(1) b3 u by simp
qed

text \<open>What remains in the arrays.\<close>

lemma queue_entries: "cb_ok k c \<Longrightarrow> set (queue c) \<subseteq> set (entries c)"
  using cb_len(1) [of k c] by (auto simp: queue_def circ_def)

lemma drain_ready_entries: "drain_ready n c = Some (c', ms) \<Longrightarrow> entries c' = entries c \<and> cb_size c' = cb_size c"
proof (induction n arbitrary: c ms)
  case (Suc n)
  then show ?case by (auto simp: bind_eq_Some_conv split: if_splits)
qed simp

lemma pending_ok:
  assumes "cb_ok k order" "cb_ok k ready" "i \<le> 2 ^ k"
  shows "\<exists>fs. pending i order ready = Some fs \<and> set fs = (set (take i (entries order)) \<union> set (take i (entries ready))) - {NULL}"
  using assms(3)
proof (induction i)
  case (Suc i)
  then obtain fs where fs: "pending i order ready = Some fs" "set fs = (set (take i (entries order)) \<union> set (take i (entries ready))) - {NULL}" by auto
  have "i < 2 ^ 32" using Suc.prems assms(1) pow_small [of k] by (simp add: cb_ok_def)
  then have "unat (of_nat i :: u32) = i" by (simp add: unat_of_nat_small)
  then have "rd_entry order (of_nat i) = Some (entries order ! i)" "rd_entry ready (of_nat i) = Some (entries ready ! i)"
    using Suc.prems assms(1,2) by (simp_all add: rd_entry_def cb_ok_def)
  moreover have "i < length (entries order)" "i < length (entries ready)" using Suc.prems assms(1,2) by (simp_all add: cb_ok_def)
  ultimately show ?case using fs by (auto simp: take_Suc_conv_app_nth)
qed simp

text \<open>
  C21: The release functions free packets that the caller already has. A packet that a drain fetches from the ready
  queue stays in the array, so that \<open>rte_reorder_free_mbufs\<close>, which frees what is in both arrays, frees
  it although it was returned.
\<close>

theorem reorder_frees_drained:
  assumes "rte_reorder_create te_ok zmalloc nm sz env = Some (env', a)" "a \<noteq> NULL" "reorder_find (ro_mem env) nm (ro_tailq env) = Some None"
    and "unat sz \<le> 2 ^ 27" "ro_mem env' a = Some b"
    and "\<forall>m \<in> set (inserted ops). m \<noteq> NULL \<and> (\<exists>x. mbufs st m = Some x \<and> seqn x = of_nat (N m)) \<and>
      N (hd (inserted ops)) \<le> N m \<and> N m < N (hd (inserted ops)) + (2 ^ 32 - 2 * unat sz)"
    and "ro_run st ops b = Some (b1, out, acc)" "rte_reorder_drain b1 mx = Some (b2, ms)"
  shows "\<exists>fs. (\<forall>tbl lcore st. rte_reorder_free_mbufs tbl lcore b2 st = free_all tbl lcore fs st) \<and>
    set (take (unat mx) (queue (ready_buf b1))) \<subseteq> set ms \<inter> set fs"
proof -
  obtain k where k: "sz = 2 ^ k" "ro_rep k N {} 0 [] b" "\<not> is_initialized b"
    using created_ok [OF assms(1-4), of N 0] assms(5) by auto
  then have u: "unat sz = 2 ^ k" using unat_2p [of k, where ?'a = 32] by (simp add: ro_rep_def cb_ok_def)
  obtain base where R: "ro_rep k N (set acc) base out b1"
    using run_fresh [OF k(2,3), of ops st] assms(6,7) unfolding u numbered_def by auto
  note D = R[unfolded ro_rep_def]
  obtain base' where R2: "ro_rep k N (set acc) base' (out @ ms) b2" using drain_ok [OF R, of mx] assms(8) by auto
  then have c: "cb_ok k (order_buf b2)" "cb_ok k (ready_buf b2)" by (simp_all add: ro_rep_def)
  let ?q = "queue (ready_buf b1)"
  obtain ready' where r: "drain_ready (unat mx) (ready_buf b1) = Some (ready', take (unat mx) ?q)"
    using drain_ready_ok [of k "ready_buf b1" "unat mx"] D by blast
  then have m: "ready_buf b2 = ready'" "set (take (unat mx) ?q) \<subseteq> set ms"
    using assms(8) by (auto simp: rte_reorder_drain_def bind_eq_Some_conv)
  have e: "entries (ready_buf b2) = entries (ready_buf b1)" using drain_ready_entries [OF r] m(1) by simp
  obtain fs where fs: "pending (2 ^ k) (order_buf b2) (ready_buf b2) = Some fs"
      "set fs = (set (take (2 ^ k) (entries (order_buf b2))) \<union> set (take (2 ^ k) (entries (ready_buf b2)))) - {NULL}"
    using pending_ok [OF c order.refl] by blast
  have "set ?q \<subseteq> set fs"
  proof
    fix y assume y: "y \<in> set ?q"
    then have "y \<noteq> NULL" using D by auto
    moreover have "y \<in> set (entries (ready_buf b2))" using y queue_entries [of k "ready_buf b1"] D e by auto
    ultimately show "y \<in> set fs" using fs(2) cb_len(1) [OF c(2)] by simp
  qed
  then have "set (take (unat mx) ?q) \<subseteq> set ms \<inter> set fs" using m(2) set_take_subset [of "unat mx" ?q] by blast
  moreover have "unat (cb_size (order_buf b2)) = 2 ^ k" by (rule ro_rep_size [OF R2])
  ultimately show ?thesis using fs(1) by (intro exI [of _ fs]) (simp add: rte_reorder_free_mbufs_def)
qed

section \<open>Examples\<close>

text \<open>Packets with the sequence numbers from 0xFFFFFFFE on, and buffers of 4 and of 2 entries.\<close>

definition ro_heap :: mbuf_heap where
  "ro_heap = ex_heap\<lparr>mbufs := [0x1000 \<mapsto> ex_mbuf 0x1000 0\<lparr>seqn := 0xFFFFFFFE\<rparr>, 0x2000 \<mapsto> ex_mbuf 0x2000 0\<lparr>seqn := 0xFFFFFFFF\<rparr>,
     0x3000 \<mapsto> ex_mbuf 0x3000 0\<lparr>seqn := 0\<rparr>]\<rparr>"

definition ro_num :: "addr \<Rightarrow> nat" where
  "ro_num m = 0xFFFFFFFD + unat m div 0x1000"

definition ro_env0 :: reorder_env where
  "ro_env0 = \<lparr>ro_mem = Map.empty, ro_tailq = [], ro_errno = 0\<rparr>"

definition ro_buf :: "u32 \<Rightarrow> nat \<Rightarrow> rte_reorder_buffer" where
  "ro_buf sz n = \<lparr>ro_name = ''ro'', min_seqn = 0, ro_memsize = reorder_bufsize sz,
     ready_buf = \<lparr>cb_size = sz, cb_mask = sz - 1, cb_head = 0, cb_tail = 0, entries = replicate n NULL\<rparr>,
     order_buf = \<lparr>cb_size = sz, cb_mask = sz - 1, cb_head = 0, cb_tail = 0, entries = replicate n NULL\<rparr>, is_initialized = False\<rparr>"

lemma ro_created:
  assumes "sz = 2 \<and> n = 2 \<or> sz = 4 \<and> n = 4"
  shows "rte_reorder_create True (\<lambda>_. 0x100000) ''ro'' sz ro_env0 =
    Some (\<lparr>ro_mem = [0x100000 \<mapsto> ro_buf sz n], ro_tailq = [0x100000], ro_errno = 0\<rparr>, 0x100000)"
  using assms
  by (auto simp: rte_reorder_create_def rte_reorder_init_def rte_is_power_of_2_def reorder_bufsize_def sizeof_reorder_buffer_def
    ro_env0_def ro_buf_def RTE_REORDER_NAMESIZE_def Let_def)

lemmas ro_created4 = ro_created [of 4 4, simplified]
lemmas ro_created2 = ro_created [of 2 2, simplified]

lemma ro_numbers:
  "\<forall>m \<in> set [0x1000, 0x2000, 0x3000]. m \<noteq> NULL \<and> (\<exists>x. mbufs ro_heap m = Some x \<and> seqn x = of_nat (ro_num m))"
  by (simp add: ro_heap_def ro_num_def)

definition ro_ops :: "ro_op list" where
  "ro_ops = [RoInsert 0x1000, RoInsert 0x3000, RoDrain 2, RoInsert 0x2000, RoDrain 2]"

lemmas ro_eval = ro_ops_def ro_buf_def rte_reorder_insert_def place_mbuf_def wr_entry_def rd_entry_def cb_next_def
  rte_reorder_drain_def ro_heap_def Let_def

lemmas drain_numeral = drain_ready.simps(2) [of "pred_numeral n" for n, folded numeral_eq_Suc]
  drain_order.simps(2) [of "pred_numeral n" for n, folded numeral_eq_Suc]

lemma ro_ops_run: "\<exists>b'. ro_run ro_heap ro_ops (ro_buf 4 4) = Some (b', [0x1000, 0x2000, 0x3000], [0x1000, 0x3000, 0x2000])"
  by (simp add: ro_eval drain_numeral)

theorem reorder_in_order_witness:
  "\<exists>b' out acc. ro_run ro_heap ro_ops (ro_buf 4 4) = Some (b', out, acc) \<and> sorted_wrt (\<lambda>x y. ro_num x < ro_num y) out \<and>
    out = [0x1000, 0x2000, 0x3000]"
proof -
  have i: "inserted ro_ops = [0x1000, 0x3000, 0x2000]" by (simp add: ro_ops_def)
  have "\<forall>m \<in> set (inserted ro_ops). m \<noteq> NULL \<and> (\<exists>x. mbufs ro_heap m = Some x \<and> seqn x = of_nat (ro_num m)) \<and>
      ro_num (hd (inserted ro_ops)) \<le> ro_num m \<and> ro_num m < ro_num (hd (inserted ro_ops)) + (2 ^ 32 - 2 * unat (4 :: u32))"
    unfolding i using ro_numbers by (simp add: ro_num_def)
  then have "\<exists>b' out acc. ro_run ro_heap ro_ops (ro_buf 4 4) = Some (b', out, acc) \<and> sorted_wrt (\<lambda>x y. ro_num x < ro_num y) out \<and> set out \<subseteq> set acc"
    by (intro reorder_in_order [OF ro_created4, of "ro_buf 4 4"]) (simp_all add: ro_env0_def)
  then show ?thesis using ro_ops_run by auto
qed

theorem reorder_keeps_packets_witness:
  "\<exists>b' out acc. ro_run ro_heap [RoInsert 0x1000, RoDrain 2] (ro_buf 4 4) = Some (b', out, acc) \<and> mset acc = mset out + mset (ro_held b')"
proof -
  have "ro_held (ro_buf 4 4) = []" using created_ok [OF ro_created4, of ro_num 0] by (auto simp: ro_env0_def ro_rep_def)
  then have "roomy ro_heap [RoInsert 0x1000, RoDrain 2] (ro_buf 4 4)" by (simp add: ro_eval drain_numeral)
  then show ?thesis
    using reorder_keeps_packets [OF ro_created4, of "ro_buf 4 4" "[RoInsert 0x1000, RoDrain 2]" ro_heap ro_num] ro_numbers
    by (simp add: ro_env0_def)
qed

theorem reorder_loses_packet_witness:
  "\<exists>b'. ro_run ro_heap [RoInsert 0x1000, RoInsert 0x2000, RoInsert 0x3000, RoDrain 2] (ro_buf 2 2) =
    Some (b', [0x1000, 0x3000], [0x1000, 0x2000, 0x3000]) \<and> ro_held b' = []"
  using reorder_loses_packet [OF ro_created2, of "ro_buf 2 2" "[0x1000, 0x2000]" "0x3000" ro_heap "0xFFFFFFFE" 2]
  by (simp add: ro_env0_def ro_heap_def less_Suc_eq)

lemma minus_wrap: "(- 4294967295 :: u32) = 1"
  by code_simp

lemma ro_overflow:
  "\<exists>b1 b2 ms. ro_run ro_heap [RoInsert 0x1000, RoInsert 0x2000, RoInsert 0x3000] (ro_buf 2 2) = Some (b1, [], [0x1000, 0x2000, 0x3000]) \<and>
    rte_reorder_drain b1 2 = Some (b2, ms) \<and> queue (ready_buf b1) = [0x1000]"
  apply (simp add: ro_eval rte_reorder_fill_overflow_def)
  apply (subst fill_loop.simps, simp add: minus_wrap ro_eval)
  apply (subst move_ready.simps, simp add: ro_eval)
  apply (subst move_ready.simps, simp add: ro_eval)
  apply (subst fill_loop.simps, simp add: minus_wrap ro_eval drain_numeral)
  apply (simp add: queue_def qlen_def circ_def)
  done

theorem reorder_frees_drained_witness:
  "\<exists>b1 b2 ms fs. ro_run ro_heap [RoInsert 0x1000, RoInsert 0x2000, RoInsert 0x3000] (ro_buf 2 2) = Some (b1, [], [0x1000, 0x2000, 0x3000]) \<and>
    rte_reorder_drain b1 2 = Some (b2, ms) \<and> rte_reorder_free_mbufs [] 0 b2 ro_heap = free_all [] 0 fs ro_heap \<and>
    0x1000 \<in> set ms \<inter> set fs"
proof -
  obtain b1 b2 ms where b: "ro_run ro_heap [RoInsert 0x1000, RoInsert 0x2000, RoInsert 0x3000] (ro_buf 2 2) = Some (b1, [], [0x1000, 0x2000, 0x3000])"
      "rte_reorder_drain b1 2 = Some (b2, ms)" "queue (ready_buf b1) = [0x1000]"
    using ro_overflow by blast
  have i: "inserted [RoInsert 0x1000, RoInsert 0x2000, RoInsert 0x3000] = [0x1000, 0x2000, 0x3000]" by simp
  have "\<forall>m \<in> set (inserted [RoInsert 0x1000, RoInsert 0x2000, RoInsert 0x3000]). m \<noteq> NULL \<and>
      (\<exists>x. mbufs ro_heap m = Some x \<and> seqn x = of_nat (ro_num m)) \<and>
      ro_num (hd (inserted [RoInsert 0x1000, RoInsert 0x2000, RoInsert 0x3000])) \<le> ro_num m \<and>
      ro_num m < ro_num (hd (inserted [RoInsert 0x1000, RoInsert 0x2000, RoInsert 0x3000])) + (2 ^ 32 - 2 * unat (2 :: u32))"
    unfolding i using ro_numbers by (simp add: ro_num_def)
  from reorder_frees_drained [OF ro_created2 _ _ _ _ this b(1,2)] obtain fs where
    "\<forall>tbl lcore st. rte_reorder_free_mbufs tbl lcore b2 st = free_all tbl lcore fs st"
    "set (take (unat (2 :: u32)) (queue (ready_buf b1))) \<subseteq> set ms \<inter> set fs" by (auto simp: ro_env0_def)
  then show ?thesis using b by (intro exI [of _ b1] exI [of _ b2] exI [of _ ms] exI [of _ fs]) simp
qed

end
