(* ===== verification/Spec2Isabelle.thy ===== *)
theory Spec2Isabelle
  imports MbufPool Mlx5Rxq Kvs RingConc LpmApi ReorderInv
begin

text \<open>
  CacheDirector is DPDK with one addition: packets are placed in the slice of the last-level cache
  that is closest to the core that processes them. This development models the path a packet buffer
  takes through the library, from the memory of a pool to the receive queue of the network card and to an
  application, and the code of CacheDirector on that path.

  \<^bold>\<open>The parts of the program and the theories that model them.\<close>

  \<^item> \<^verbatim>\<open>lib/librte_slice\<close> maps physical addresses to slices: \<^verbatim>\<open>Slice\<close> has the
    hash function (\<^verbatim>\<open>calculateSlice_HF_haswell\<close>), the search for the next line of a slice
    (\<^verbatim>\<open>sliceFinder_HF_haswell\<close>) and the set index.
  \<^item> \<^verbatim>\<open>lib/librte_msr\<close> and the polling half of \<^verbatim>\<open>lib/librte_slice\<close> find slices with
    performance counters: \<^verbatim>\<open>Msr\<close>.
  \<^item> \<^verbatim>\<open>lib/librte_ring\<close>, the queue of pointers all pools rest on: \<^verbatim>\<open>Ring\<close> runs
    its operations one after the other; in \<^verbatim>\<open>RingConc\<close> every access of a thread to shared memory is a
    step, and the steps of any number of producers and consumers interleave.
  \<^item> \<^verbatim>\<open>lib/librte_mempool\<close>: \<^verbatim>\<open>Mempool\<close> has objects, caches of the lcores and the driver
    interface; \<^verbatim>\<open>MempoolDrivers\<close> the two drivers of \<^verbatim>\<open>drivers/mempool\<close>;
    \<^verbatim>\<open>MempoolSize\<close> the layout of objects; \<^verbatim>\<open>MempoolCreate\<close> population and creation.
  \<^item> \<^verbatim>\<open>lib/librte_mbuf\<close>: \<^verbatim>\<open>Mbuf\<close> has the buffer, its reference counts and the
    operations on chains; \<^verbatim>\<open>MbufSlice\<close> the slice offsets of a buffer, which its constructor
    computes and \<^verbatim>\<open>rte_pktmbuf_set_slice\<close> uses; \<^verbatim>\<open>MbufPool\<close> the creation of buffer pools.
  \<^item> \<^verbatim>\<open>drivers/net/mlx5\<close>: \<^verbatim>\<open>Mlx5Rx\<close> has the receive burst function, which gives every buffer
    to the hardware at its offset for the slice of the queue; \<^verbatim>\<open>Mlx5RxInv\<close> its invariant and
    properties; \<^verbatim>\<open>Mlx5Rxq\<close> the setup of the buffers of a queue.
  \<^item> \<^verbatim>\<open>examples/KVS\<close>, the application: \<^verbatim>\<open>Kvs\<close> has a store whose values lie in one slice.
  \<^item> \<^verbatim>\<open>lib/librte_lpm\<close>, longest prefix match on IPv4 addresses for the forwarding of the packets:
    \<^verbatim>\<open>Lpm\<close> has the rule table, the tables of entries, \<^verbatim>\<open>rte_lpm_add\<close>, \<^verbatim>\<open>rte_lpm_delete\<close> and the lookups
    in the version of the interface of 16.04; \<^verbatim>\<open>LpmRules\<close> and \<^verbatim>\<open>LpmTable\<close> have the invariants of the two
    tables, and \<^verbatim>\<open>LpmApi\<close> the specification and the properties.
  \<^item> \<^verbatim>\<open>lib/librte_reorder\<close>, which puts packets back into order: \<^verbatim>\<open>Reorder\<close> has the window, the ready queue and
    all operations, \<^verbatim>\<open>ReorderInv\<close> their invariant and properties.
  \<^item> \<^verbatim>\<open>Prelude\<close>, \<^verbatim>\<open>Common\<close> and \<^verbatim>\<open>ByteOrder\<close> hold what the others share: word types,
    error codes, the arithmetic of \<^verbatim>\<open>rte_common.h\<close> and the byte swaps.

  A call between two parts of the program is an application of the callee's definition. Code that is
  not in the repository is an argument: the registers of the processor and the performance monitor,
  memory zones and mappings, the callbacks of external buffers, the translation of addresses to memory
  keys, and what the hardware writes into completion entries.

  \<^bold>\<open>State and operations.\<close>
  A structure is a record with the fields of the source, a C integer is a word of its width, and a
  pointer is a 64-bit address with 0 for NULL. Buffers, pools and bytes of memory lie in the record
  \<^verbatim>\<open>mbuf_heap\<close> that every operation gets and returns. \<^term>\<open>None\<close> as the result of an operation is an access
  outside of an array or through an invalid pointer, so that a property with \<^term>\<open>Some\<close> on the right says
  that the code does not do this; error codes, \<^verbatim>\<open>NULL\<close> and \<^verbatim>\<open>rte_errno\<close> are values. Loops that
  may not end are partial functions with \<^term>\<open>None\<close> for no result: the slice search for an invalid
  slice number, the spreading of objects over memory channels and the receive loop. For these, the
  properties say when they return. There is no fuel anywhere.

  \<^bold>\<open>What the groups of lemmas show.\<close>

  \<^item> Placement: the slice search ends for every valid slice within 896 bytes and finds the first
    line of the slice; a constructed buffer knows where each of its slices starts, and
    \<^verbatim>\<open>rte_pktmbuf_set_slice\<close> moves its data there. 832 bytes of headroom, the configured value, are
    enough for almost all but not for all buffers. The variants that use the performance monitor find
    the same offsets as the hash function, given what the manuals say of its registers: a counter counts
    the lookups of a slice only when its event and filter select them and it runs.
  \<^item> Queues: the ring is first in, first out, with the counts each mode of operation promises, also when its
    indices wrap around. With several threads the order of the accepted objects is kept, some thread can
    always go on while a call is under way, and a call that runs alone on a ring at rest has the promised effect.
    Memory is taken as sequentially consistent, and no thread is lapped by 2^32 objects between its
    read of a head and its compare-and-set.
  \<^item> Pools: objects are neither lost nor handed out twice, on both drivers, through the caches or not.
    The driver interface is the locale \<^verbatim>\<open>mempool_driver\<close>, interpreted on both drivers.
  \<^item> Chains: freeing, cloning, reading and chaining agree with a description of a packet by its bytes.
  \<^item> Receive queues: allocation gives all buffers or none, and when the buffers have the 896 bytes a slice
    offset may take, no descriptor reaches beyond its buffer; a burst keeps the invariant of the queue for
    whatever completions the hardware writes, loses no buffer, returns, and delivers well-formed packets
    whose segments lie in the slice of the queue.
  \<^item> Longest prefix match: the rule table represents a set of rules, and the entries of both tables the
    longest match of each address. A table with these promises is the locale \<^verbatim>\<open>prefix_table\<close>, interpreted on
    the operations of the library; additions, deletions and lookups in any order do what the
    specification \<^verbatim>\<open>spec_run\<close> says, statuses included, as long as the sizes of the arrays fit into 32 bits.
  \<^item> Reordering: drained packets are in order, also when sequence numbers wrap around, and none is lost
    as long as fewer packets than the size are inside; a full window loses one, and packets from the ready
    queue are freed again on release.
  \<^item> The application: its values lie in the slice asked for, and requests get the values stored.

  \<^bold>\<open>Not modelled.\<close>
  Statistics, dump functions and log messages; prefetches, and the memory barriers of operations
  that are modelled as the run of one thread; the debug configuration with its cookies. The rest of the drivers, the other libraries, the
  applications and the kernel modules are DPDK code that CacheDirector does not change: the manifest
  lists them with the reason.
\<close>

end
